(* ===== verification/Prelude.thy ===== *)
theory Prelude
  imports Main "HOL-Library.Word"
begin

unbundle bit_operations_syntax

text \<open>
  What the component theories share: names for the machine integers of the kernel
  (an AArch64 target: 64-bit addresses, little-endian loads and stores), the byte memory
  that the allocators work on, the arithmetic of ring buffers, and the contract of a
  bounded first-in first-out queue, which the ring of deferred work keeps.
\<close>

type_synonym u8 = "8 word"
type_synonym u16 = "16 word"
type_synonym u32 = "32 word"
type_synonym u64 = "64 word"

text \<open>Memory is a total function from addresses to bytes: the kernel runs on the identity
  map, and a wild store is a store to some other byte, not a trap.\<close>

type_synonym mem = "u64 \<Rightarrow> u8"

named_theorems ring_facts "laws of the ring-buffer view"
named_theorems mem_facts "loads after stores"
named_theorems wire_facts "byte order round trips"

section \<open>Error codes\<close>

text \<open>The numbers of \<open>include/syscall.h\<close> and \<open>include/vfs.h\<close>; a call returns their negation.\<close>

abbreviation EPERM :: int where "EPERM \<equiv> 1"
abbreviation ENOENT :: int where "ENOENT \<equiv> 2"
abbreviation ESRCH :: int where "ESRCH \<equiv> 3"
abbreviation EIO :: int where "EIO \<equiv> 5"
abbreviation EBADF :: int where "EBADF \<equiv> 9"
abbreviation ECHILD :: int where "ECHILD \<equiv> 10"
abbreviation EAGAIN :: int where "EAGAIN \<equiv> 11"
abbreviation ENOMEM :: int where "ENOMEM \<equiv> 12"
abbreviation EFAULT :: int where "EFAULT \<equiv> 14"
abbreviation EBUSY :: int where "EBUSY \<equiv> 16"
abbreviation EEXIST :: int where "EEXIST \<equiv> 17"
abbreviation ENODEV :: int where "ENODEV \<equiv> 19"
abbreviation ENOTDIR :: int where "ENOTDIR \<equiv> 20"
abbreviation EISDIR :: int where "EISDIR \<equiv> 21"
abbreviation EINVAL :: int where "EINVAL \<equiv> 22"
abbreviation ENFILE :: int where "ENFILE \<equiv> 23"
abbreviation EMFILE :: int where "EMFILE \<equiv> 24"
abbreviation ENOSPC :: int where "ENOSPC \<equiv> 28"
abbreviation ESPIPE :: int where "ESPIPE \<equiv> 29"
abbreviation EPIPE :: int where "EPIPE \<equiv> 32"
abbreviation ENAMETOOLONG :: int where "ENAMETOOLONG \<equiv> 36"
abbreviation ENOTEMPTY :: int where "ENOTEMPTY \<equiv> 39"
abbreviation EMSGSIZE :: int where "EMSGSIZE \<equiv> 90"

section \<open>Words\<close>

lemma unat_add_small:
  fixes a b :: "'a::len word"
  assumes "unat a + unat b < 2 ^ LENGTH('a)"
  shows "unat (a + b) = unat a + unat b"
  using assms by (simp add: unat_word_ariths)

lemma unat_less_64: "unat (x :: u64) < 2 ^ 64"
  using unsigned_less [of x] by simp

lemma unat_of_nat_small:
  assumes "n < 2 ^ LENGTH('a::len)"
  shows "unat (of_nat n :: 'a word) = n"
  using assms by (simp add: unat_of_nat take_bit_nat_eq_self)

lemma unat_add_of_nat:
  fixes a :: "'a::len word"
  assumes "unat a + n < 2 ^ LENGTH('a)"
  shows "unat (a + of_nat n) = unat a + n"
proof -
  have "unat (of_nat n :: 'a word) = n"
    using assms by (intro unat_of_nat_small) simp
  with assms show ?thesis by (simp add: unat_add_small)
qed

lemma word_add_of_nat_inject:
  fixes a :: "'a::len word"
  assumes "unat a + i < 2 ^ LENGTH('a)" and "unat a + j < 2 ^ LENGTH('a)"
  shows "a + of_nat i = a + of_nat j \<longleftrightarrow> i = j"
proof
  assume "a + of_nat i = a + of_nat j"
  then have "unat (a + of_nat i) = unat (a + of_nat j)" by simp
  with assms show "i = j" by (simp add: unat_add_of_nat)
qed simp

lemma mask_and_eq_mod:
  fixes x :: "'a::len word"
  shows "unat (x AND mask n) = unat x mod 2 ^ n"
  unfolding take_bit_eq_mask [symmetric] unsigned_take_bit_eq by (rule take_bit_eq_mod)

section \<open>Bytes of a word\<close>

text \<open>Little-endian byte order: what a 32-bit or 64-bit store leaves in memory.\<close>

definition le_bytes :: "nat \<Rightarrow> 'a::len word \<Rightarrow> u8 list" where
  "le_bytes n w = map (\<lambda>i. ucast (drop_bit (8 * i) w)) [0..<n]"

fun from_le :: "u8 list \<Rightarrow> 'a::len word" where
  "from_le [] = 0"
| "from_le (b # bs) = ucast b OR push_bit 8 (from_le bs)"

lemma length_le_bytes [simp]: "length (le_bytes n w) = n"
  by (simp add: le_bytes_def)

lemma bit_from_le:
  "bit (from_le bs :: 'a::len word) i \<longleftrightarrow>
     i < LENGTH('a) \<and> i div 8 < length bs \<and> bit (bs ! (i div 8)) (i mod 8)"
proof (induction bs arbitrary: i)
  case Nil
  then show ?case by simp
next
  case (Cons b bs)
  show ?case
  proof (cases "i < 8")
    case True
    then show ?thesis
      by (auto simp: bit_or_iff bit_push_bit_iff bit_ucast_iff dest: bit_imp_le_length)
  next
    case False
    then have "i div 8 = Suc ((i - 8) div 8)" and "i mod 8 = (i - 8) mod 8"
      by (simp_all add: le_div_geq le_mod_geq)
    moreover have "\<not> bit b i"
      using False bit_imp_le_length [of b i] by auto
    ultimately show ?thesis
      using False Cons.IH [of "i - 8"]
      by (auto simp: bit_or_iff bit_push_bit_iff bit_ucast_iff)
  qed
qed

lemma from_le_le_bytes [wire_facts]:
  assumes "LENGTH('a::len) = 8 * n"
  shows "from_le (le_bytes n (w :: 'a word)) = w"
proof (rule bit_word_eqI)
  fix i assume i: "i < LENGTH('a)"
  then have "i div 8 < n" using assms by simp
  then show "bit (from_le (le_bytes n w) :: 'a word) i = bit w i"
    using i by (simp add: bit_from_le le_bytes_def bit_ucast_iff bit_drop_bit_eq)
qed

lemma le_bytes_from_le [wire_facts]:
  assumes "LENGTH('a::len) = 8 * length bs"
  shows "le_bytes (length bs) (from_le bs :: 'a word) = bs"
proof (rule nth_equalityI)
  fix k assume "k < length (le_bytes (length bs) (from_le bs :: 'a word))"
  then have k: "k < length bs" by simp
  have "bit (ucast (drop_bit (8 * k) (from_le bs :: 'a word)) :: u8) i = bit (bs ! k) i" if "i < 8" for i
  proof -
    have "8 * k + i < 8 * length bs" using k that by simp
    then show ?thesis using that k assms by (simp add: bit_ucast_iff bit_drop_bit_eq bit_from_le)
  qed
  then have "ucast (drop_bit (8 * k) (from_le bs :: 'a word)) = bs ! k" by (intro bit_word_eqI) simp
  then show "le_bytes (length bs) (from_le bs :: 'a word) ! k = bs ! k"
    using k by (simp add: le_bytes_def)
qed simp

section \<open>Loads and stores\<close>

fun store_bytes :: "mem \<Rightarrow> u64 \<Rightarrow> u8 list \<Rightarrow> mem" where
  "store_bytes m a [] = m"
| "store_bytes m a (b # bs) = store_bytes (m(a := b)) (a + 1) bs"

definition load_bytes :: "mem \<Rightarrow> u64 \<Rightarrow> nat \<Rightarrow> u8 list" where
  "load_bytes m a n = map (\<lambda>i. m (a + of_nat i)) [0..<n]"

definition store16 :: "mem \<Rightarrow> u64 \<Rightarrow> u16 \<Rightarrow> mem" where
  "store16 m a v = store_bytes m a (le_bytes 2 v)"

definition load16 :: "mem \<Rightarrow> u64 \<Rightarrow> u16" where
  "load16 m a = from_le (load_bytes m a 2)"

definition store32 :: "mem \<Rightarrow> u64 \<Rightarrow> u32 \<Rightarrow> mem" where
  "store32 m a v = store_bytes m a (le_bytes 4 v)"

definition load32 :: "mem \<Rightarrow> u64 \<Rightarrow> u32" where
  "load32 m a = from_le (load_bytes m a 4)"

definition store64 :: "mem \<Rightarrow> u64 \<Rightarrow> u64 \<Rightarrow> mem" where
  "store64 m a v = store_bytes m a (le_bytes 8 v)"

definition load64 :: "mem \<Rightarrow> u64 \<Rightarrow> u64" where
  "load64 m a = from_le (load_bytes m a 8)"

lemma length_load_bytes [simp]: "length (load_bytes m a n) = n"
  by (simp add: load_bytes_def)

text \<open>The bytes a store touches: \<open>span a n\<close> is the set of the \<open>n\<close> addresses from \<open>a\<close>
  on, modulo the address width.\<close>

definition span :: "u64 \<Rightarrow> nat \<Rightarrow> u64 set" where
  "span a n = (\<lambda>i. a + of_nat i) ` {..<n}"

lemma span_0 [simp]: "span a 0 = {}"
  by (simp add: span_def)

lemma span_Suc: "span a (Suc n) = insert a (span (a + 1) n)"
proof -
  have "{..<Suc n} = insert 0 (Suc ` {..<n})" by (rule lessThan_Suc_eq_insert_0)
  then show ?thesis by (auto simp: span_def image_image add.assoc)
qed

lemma store_bytes_other:
  "x \<notin> span a (length bs) \<Longrightarrow> store_bytes m a bs x = m x"
  by (induction m a bs rule: store_bytes.induct) (auto simp: span_Suc)

lemma store_bytes_at:
  assumes "i < length bs" and "length bs \<le> 2 ^ 64"
  shows "store_bytes m a bs (a + of_nat i) = bs ! i"
  using assms
proof (induction bs arbitrary: m a i)
  case Nil
  then show ?case by simp
next
  case (Cons b bs)
  show ?case
  proof (cases i)
    case 0
    have "a \<notin> span (a + 1) (length bs)"
    proof
      assume "a \<in> span (a + 1) (length bs)"
      then obtain j where j: "j < length bs" and "a = a + 1 + of_nat j"
        by (auto simp: span_def)
      then have "(of_nat (Suc j) :: u64) = 0" by (simp add: add.assoc)
      then have "(2 :: nat) ^ 64 dvd Suc j"
        by (simp only: word_of_nat_eq_0_iff) simp
      then have "2 ^ 64 \<le> Suc j" by (rule dvd_imp_le) simp
      with j Cons.prems show False by simp
    qed
    with 0 show ?thesis by (simp add: store_bytes_other)
  next
    case (Suc j)
    with Cons.prems have "store_bytes (m(a := b)) (a + 1) bs (a + 1 + of_nat j) = bs ! j"
      by (intro Cons.IH) simp_all
    with Suc show ?thesis by (simp add: algebra_simps)
  qed
qed

lemma load_store_bytes_same:
  "length bs \<le> 2 ^ 64 \<Longrightarrow> load_bytes (store_bytes m a bs) a (length bs) = bs"
  by (rule nth_equalityI) (auto simp: load_bytes_def store_bytes_at)

lemma load_store_bytes_disjoint:
  "span a (length bs) \<inter> span b n = {} \<Longrightarrow>
     load_bytes (store_bytes m a bs) b n = load_bytes m b n"
  by (auto simp: load_bytes_def span_def intro!: store_bytes_other)

lemma load_bytes_cong: "(\<And>x. x \<in> span a n \<Longrightarrow> m' x = m x) \<Longrightarrow> load_bytes m' a n = load_bytes m a n"
  by (auto simp: load_bytes_def span_def)

lemma load_cong:
  "(\<And>x. x \<in> span a 2 \<Longrightarrow> m' x = m x) \<Longrightarrow> load16 m' a = load16 m a"
  "(\<And>x. x \<in> span a 4 \<Longrightarrow> m' x = m x) \<Longrightarrow> load32 m' a = load32 m a"
  "(\<And>x. x \<in> span a 8 \<Longrightarrow> m' x = m x) \<Longrightarrow> load64 m' a = load64 m a"
  unfolding load16_def load32_def load64_def by (rule arg_cong [OF load_bytes_cong], blast)+

lemma store_other:
  "x \<notin> span a 2 \<Longrightarrow> store16 m a h x = m x"
  "x \<notin> span a 4 \<Longrightarrow> store32 m a w x = m x"
  "x \<notin> span a 8 \<Longrightarrow> store64 m a d x = m x"
  by (simp_all add: store16_def store32_def store64_def store_bytes_other)

text \<open>Spans at offsets from one base that does not wrap.\<close>

lemma mem_span_offset:
  assumes "unat h + j < 2 ^ 64" and "unat h + (i + n) \<le> 2 ^ 64"
  shows "h + of_nat j \<in> span (h + of_nat i) n \<longleftrightarrow> i \<le> j \<and> j < i + n"
proof
  assume "h + of_nat j \<in> span (h + of_nat i) n"
  then obtain k where k: "k < n" "h + of_nat j = h + of_nat (i + k)" by (auto simp: span_def add.assoc)
  then have "j = i + k" using word_add_of_nat_inject [of h j "i + k"] assms by simp
  with k show "i \<le> j \<and> j < i + n" by simp
next
  assume "i \<le> j \<and> j < i + n"
  then show "h + of_nat j \<in> span (h + of_nat i) n"
    unfolding span_def by (intro image_eqI [of _ _ "j - i"]) (auto simp: of_nat_diff)
qed

lemma span_offset_disjoint:
  assumes "i + m \<le> j \<or> j + n \<le> i" and "unat h + (i + m) \<le> 2 ^ 64" and "unat h + (j + n) \<le> 2 ^ 64"
  shows "span (h + of_nat i) m \<inter> span (h + of_nat j) n = {}"
proof -
  have "h + of_nat (j + k) \<notin> span (h + of_nat i) m" if "k < n" for k
    using mem_span_offset [of h "j + k" i m] assms that by auto
  moreover have "span (h + of_nat j) n = (\<lambda>k. h + of_nat (j + k)) ` {..<n}" by (simp add: span_def add.assoc)
  ultimately show ?thesis by auto
qed

lemma load32_store32 [simp, mem_facts]: "load32 (store32 m a v) a = v"
  using load_store_bytes_same [of "le_bytes 4 v" m a]
  by (simp add: load32_def store32_def from_le_le_bytes)

lemma load64_store64 [simp, mem_facts]: "load64 (store64 m a v) a = v"
  using load_store_bytes_same [of "le_bytes 8 v" m a]
  by (simp add: load64_def store64_def from_le_le_bytes)

lemma load16_store16 [simp, mem_facts]: "load16 (store16 m a v) a = v"
  using load_store_bytes_same [of "le_bytes 2 v" m a]
  by (simp add: load16_def store16_def from_le_le_bytes)

lemma load64_store64_disjoint:
  "span a 8 \<inter> span b 8 = {} \<Longrightarrow> load64 (store64 m a v) b = load64 m b"
  by (simp add: load64_def store64_def load_store_bytes_disjoint)

section \<open>Lists\<close>

lemma nth_list_update_if: "xs[i := x] ! j = (if i = j \<and> i < length xs then x else xs ! j)"
  by (cases "i < length xs") (simp_all add: list_update_beyond)

section \<open>Ring buffers\<close>

text \<open>
  A ring of capacity \<open>N = length buf\<close> holds \<open>cnt\<close> elements from index \<open>st\<close> on,
  modulo \<open>N\<close>; \<open>ring_list\<close> reads it as the list it stands for, oldest first.
\<close>

definition ring_list :: "'a list \<Rightarrow> nat \<Rightarrow> nat \<Rightarrow> 'a list" where
  "ring_list buf st cnt = map (\<lambda>i. buf ! ((st + i) mod length buf)) [0..<cnt]"

lemma length_ring_list [simp]: "length (ring_list buf st cnt) = cnt"
  by (simp add: ring_list_def)

lemma ring_list_0 [simp]: "ring_list buf st 0 = []"
  by (simp add: ring_list_def)

lemma ring_list_eq_Nil [simp]: "ring_list buf st cnt = [] \<longleftrightarrow> cnt = 0"
  by (simp add: ring_list_def)

lemma nth_ring_list [ring_facts]:
  "i < cnt \<Longrightarrow> ring_list buf st cnt ! i = buf ! ((st + i) mod length buf)"
  by (simp add: ring_list_def)

lemma mod_add_cancel_less:
  fixes i j N :: nat
  assumes "i < N" and "j < N" and "(h + i) mod N = (h + j) mod N"
  shows "i = j"
proof -
  have "(int h + int i) mod int N = (int h + int j) mod int N"
    using assms(3) by (metis of_nat_add of_nat_mod)
  then have "int i mod int N = int j mod int N"
    by (metis add_diff_cancel_left' mod_diff_left_eq)
  with assms(1,2) show ?thesis by simp
qed

lemma ring_list_update_outside [ring_facts]:
  assumes "cnt \<le> j" and "j < length buf"
  shows "ring_list (buf[(st + j) mod length buf := x]) st cnt = ring_list buf st cnt"
proof -
  have "buf[(st + j) mod length buf := x] ! ((st + i) mod length buf) = buf ! ((st + i) mod length buf)"
    if "i < cnt" for i
  proof -
    have "(st + j) mod length buf \<noteq> (st + i) mod length buf"
      using mod_add_cancel_less [of i "length buf" j st] that assms by auto
    then show ?thesis by simp
  qed
  then show ?thesis by (simp add: ring_list_def)
qed

lemma ring_list_push [ring_facts]:
  assumes "cnt < length buf"
  shows "ring_list (buf[(st + cnt) mod length buf := x]) st (Suc cnt) = ring_list buf st cnt @ [x]"
proof -
  have "(st + cnt) mod length buf < length buf"
    using assms by (intro mod_less_divisor) linarith
  then have "buf[(st + cnt) mod length buf := x] ! ((st + cnt) mod length buf) = x"
    by (rule nth_list_update_eq)
  then show ?thesis
    using ring_list_update_outside [OF order_refl assms, of st x]
    by (simp add: ring_list_def)
qed

lemma ring_list_pop [ring_facts]:
  assumes "0 < cnt"
  shows "ring_list buf st cnt =
    buf ! (st mod length buf) # ring_list buf (Suc st mod length buf) (cnt - 1)"
proof -
  obtain c where c: "cnt = Suc c" using assms by (cases cnt) auto
  have "[0..<Suc c] = 0 # map Suc [0..<c]" by (simp add: map_Suc_upt upt_conv_Cons)
  then show ?thesis
    by (simp add: ring_list_def c mod_add_left_eq del: upt_Suc)
qed

lemma ring_list_hd_mod: "ring_list buf (st mod length buf) cnt = ring_list buf st cnt"
  by (simp add: ring_list_def mod_add_left_eq)

lemma ring_list_split:
  assumes "m \<le> cnt"
  shows "ring_list buf st cnt = ring_list buf st m @ ring_list buf ((st + m) mod length buf) (cnt - m)"
proof (rule nth_equalityI)
  fix i assume i: "i < length (ring_list buf st cnt)"
  show "ring_list buf st cnt ! i = (ring_list buf st m @ ring_list buf ((st + m) mod length buf) (cnt - m)) ! i"
  proof (cases "i < m")
    case False
    then obtain j where "i = m + j" using le_Suc_ex not_less by blast
    with i show ?thesis by (simp add: nth_append nth_ring_list mod_add_left_eq add.assoc)
  qed (use i in \<open>simp add: nth_append nth_ring_list\<close>)
qed (use assms in simp)

lemma ring_list_segment:
  "st + m \<le> length buf \<Longrightarrow> ring_list buf st m = take m (drop st buf)"
  by (rule nth_equalityI) (auto simp: nth_ring_list)

text \<open>
  Some rings keep no count but a head and a tail index, with one slot always unused: the
  number of elements is the distance from the head to the tail.
\<close>

definition ring_dist :: "nat \<Rightarrow> nat \<Rightarrow> nat \<Rightarrow> nat" where
  "ring_dist N h t = (t + N - h) mod N"

lemma ring_dist_if:
  "h < N \<Longrightarrow> t < N \<Longrightarrow> ring_dist N h t = (if h \<le> t then t - h else t + N - h)"
  by (auto simp: ring_dist_def mod_if)

lemma ring_dist_less: "h < N \<Longrightarrow> t < N \<Longrightarrow> ring_dist N h t < N"
  by (simp add: ring_dist_def)

lemma ring_dist_0_iff: "h < N \<Longrightarrow> t < N \<Longrightarrow> ring_dist N h t = 0 \<longleftrightarrow> h = t"
  by (auto simp: ring_dist_if split: if_splits)

lemma ring_dist_add: "h < N \<Longrightarrow> t < N \<Longrightarrow> (h + ring_dist N h t) mod N = t"
  by (auto simp: ring_dist_if split: if_splits)

lemma ring_dist_full:
  "h < N \<Longrightarrow> t < N \<Longrightarrow> Suc t mod N = h \<longleftrightarrow> ring_dist N h t = N - 1"
  by (auto simp: ring_dist_if mod_if split: if_splits)

lemma ring_dist_push:
  "h < N \<Longrightarrow> t < N \<Longrightarrow> Suc t mod N \<noteq> h \<Longrightarrow> ring_dist N h (Suc t mod N) = Suc (ring_dist N h t)"
  by (auto simp: ring_dist_if mod_if split: if_splits)

lemma ring_dist_pop:
  "h < N \<Longrightarrow> t < N \<Longrightarrow> h \<noteq> t \<Longrightarrow> ring_dist N (Suc h mod N) t = ring_dist N h t - 1"
  by (auto simp: ring_dist_if mod_if split: if_splits)

lemmas ring_dist_facts = ring_dist_less ring_dist_0_iff ring_dist_add ring_dist_full
  ring_dist_push ring_dist_pop

section \<open>The contract of a bounded queue\<close>

datatype 'a fifo_op = Push 'a | Pop

text \<open>The abstract queue: a list of at most \<open>cap\<close> elements; a push onto a full queue is
  dropped, a pop of an empty one yields nothing.\<close>

fun fifo_spec_step :: "nat \<Rightarrow> 'a list \<Rightarrow> 'a fifo_op \<Rightarrow> 'a option \<times> 'a list" where
  "fifo_spec_step cap xs (Push x) = (None, if length xs < cap then xs @ [x] else xs)"
| "fifo_spec_step cap xs Pop = (case xs of [] \<Rightarrow> (None, []) | y # ys \<Rightarrow> (Some y, ys))"

fun fifo_spec_run :: "nat \<Rightarrow> 'a list \<Rightarrow> 'a fifo_op list \<Rightarrow> 'a option list \<times> 'a list" where
  "fifo_spec_run cap xs [] = ([], xs)"
| "fifo_spec_run cap xs (e # es) =
     (let (r, xs') = fifo_spec_step cap xs e; (rs, xs'') = fifo_spec_run cap xs' es
      in (r # rs, xs''))"

text \<open>The same operations on an implementation given by its push and its pop.\<close>

fun fifo_step ::
  "('a \<Rightarrow> 'q \<Rightarrow> 'q) \<Rightarrow> ('q \<Rightarrow> ('a \<times> 'q) option) \<Rightarrow> 'q \<Rightarrow> 'a fifo_op \<Rightarrow> 'a option \<times> 'q" where
  "fifo_step push pop q (Push x) = (None, push x q)"
| "fifo_step push pop q Pop = (case pop q of None \<Rightarrow> (None, q) | Some (x, q') \<Rightarrow> (Some x, q'))"

fun fifo_run ::
  "('a \<Rightarrow> 'q \<Rightarrow> 'q) \<Rightarrow> ('q \<Rightarrow> ('a \<times> 'q) option) \<Rightarrow> 'q \<Rightarrow> 'a fifo_op list \<Rightarrow> 'a option list \<times> 'q" where
  "fifo_run push pop q [] = ([], q)"
| "fifo_run push pop q (e # es) =
     (let (r, q') = fifo_step push pop q e; (rs, q'') = fifo_run push pop q' es
      in (r # rs, q''))"

text \<open>Which elements a client may push: \<open>fifo_ops_ok ok es\<close>.\<close>

fun fifo_op_ok :: "('a \<Rightarrow> bool) \<Rightarrow> 'a fifo_op \<Rightarrow> bool" where
  "fifo_op_ok ok (Push x) = ok x"
| "fifo_op_ok ok Pop = True"

locale bounded_fifo =
  fixes inv :: "'q \<Rightarrow> bool"
    and ok :: "'a \<Rightarrow> bool"
    and abs :: "'q \<Rightarrow> 'a list"
    and cap :: nat
    and push :: "'a \<Rightarrow> 'q \<Rightarrow> 'q"
    and pop :: "'q \<Rightarrow> ('a \<times> 'q) option"
  assumes push_inv: "inv q \<Longrightarrow> ok x \<Longrightarrow> inv (push x q)"
    and push_room: "inv q \<Longrightarrow> ok x \<Longrightarrow> length (abs q) < cap \<Longrightarrow> abs (push x q) = abs q @ [x]"
    and push_full: "inv q \<Longrightarrow> ok x \<Longrightarrow> \<not> length (abs q) < cap \<Longrightarrow> abs (push x q) = abs q"
    and pop_empty: "inv q \<Longrightarrow> abs q = [] \<Longrightarrow> pop q = None"
    and pop_first: "inv q \<Longrightarrow> abs q = x # xs \<Longrightarrow> \<exists>q'. pop q = Some (x, q') \<and> inv q' \<and> abs q' = xs"
    and within: "inv q \<Longrightarrow> length (abs q) \<le> cap"
begin

lemma step_refines:
  assumes "inv q" and "fifo_op_ok ok e"
  shows "inv (snd (fifo_step push pop q e)) \<and>
    fifo_spec_step cap (abs q) e = (fst (fifo_step push pop q e), abs (snd (fifo_step push pop q e)))"
proof (cases e)
  case (Push x)
  with assms show ?thesis by (auto simp: push_inv push_room push_full)
next
  case Pop
  show ?thesis
  proof (cases "abs q")
    case Nil
    with assms Pop show ?thesis by (simp add: pop_empty)
  next
    case (Cons x xs)
    with assms obtain q' where "pop q = Some (x, q')" "inv q'" "abs q' = xs"
      using pop_first by blast
    with Pop Cons show ?thesis by simp
  qed
qed

lemma run_refines:
  assumes "inv q" and "list_all (fifo_op_ok ok) es" and "fifo_run push pop q es = (rs, q')"
  shows "inv q' \<and> fifo_spec_run cap (abs q) es = (rs, abs q')"
  using assms
proof (induction es arbitrary: q rs q')
  case Nil
  then show ?case by simp
next
  case (Cons e es)
  obtain r q1 where st: "fifo_step push pop q e = (r, q1)" by fastforce
  obtain rs1 q2 where run: "fifo_run push pop q1 es = (rs1, q2)" by fastforce
  have "inv q1" and "fifo_spec_step cap (abs q) e = (r, abs q1)"
    using step_refines [OF Cons.prems(1), of e] Cons.prems(2) st by auto
  moreover have "inv q2 \<and> fifo_spec_run cap (abs q1) es = (rs1, abs q2)"
    using Cons.IH [OF \<open>inv q1\<close> _ run] Cons.prems(2) by simp
  ultimately show ?case using Cons.prems(3) st run by simp
qed

end

end
