(* ===== verification/Tasklet.thy ===== *)
theory Tasklet
  imports Prelude
begin

text \<open>
  The deferred work queue (\<open>kernel/tasklet.c\<close>): a ring of 256 work items with a head and
  a tail index, filled by interrupt top halves and drained by the main loop. The masking of
  interrupts makes each of \<open>tasklet_schedule\<close> and \<open>pop\<close> one atomic step. A work item is a
  function pointer and its argument; what a work function does is a parameter of
  \<open>tasklet_drain\<close>.
\<close>

abbreviation TASKLET_QUEUE :: nat where "TASKLET_QUEUE \<equiv> 256"

record work_item =
  wi_fn :: u64
  wi_arg :: u64

record tasklet_stats =
  ts_queued :: u64
  ts_ran :: u64
  ts_dropped :: u64
  ts_peak_depth :: u64

record tasklet =
  tk_ring :: "work_item list"
  tk_head :: nat
  tk_tail :: nat
  tk_overflow_reported :: bool
  tk_stats :: tasklet_stats

text \<open>The static initial state.\<close>

definition tasklet_init :: tasklet where
  "tasklet_init = \<lparr>tk_ring = replicate TASKLET_QUEUE \<lparr>wi_fn = 0, wi_arg = 0\<rparr>, tk_head = 0, tk_tail = 0,
     tk_overflow_reported = False,
     tk_stats = \<lparr>ts_queued = 0, ts_ran = 0, ts_dropped = 0, ts_peak_depth = 0\<rparr>\<rparr>"

text \<open>The unsigned subtraction \<open>tail - head\<close> wraps at 32 bits before the remainder is
  taken.\<close>

definition tasklet_schedule :: "u64 \<Rightarrow> u64 \<Rightarrow> tasklet \<Rightarrow> tasklet" where
  "tasklet_schedule fn arg t =
    (if fn = 0 then t
     else
       let next = Suc (tk_tail t) mod TASKLET_QUEUE;
           t1 =
             (if next = tk_head t
              then t\<lparr>tk_stats := (tk_stats t)\<lparr>ts_dropped := ts_dropped (tk_stats t) + 1\<rparr>\<rparr>
              else
                let depth = ((next + 2 ^ 32 - tk_head t) mod 2 ^ 32) mod TASKLET_QUEUE;
                    s = (tk_stats t)\<lparr>ts_queued := ts_queued (tk_stats t) + 1\<rparr>;
                    s' = (if of_nat depth > ts_peak_depth s
                          then s\<lparr>ts_peak_depth := of_nat depth\<rparr> else s)
                in t\<lparr>tk_ring := (tk_ring t)[tk_tail t := \<lparr>wi_fn = fn, wi_arg = arg\<rparr>],
                     tk_tail := next, tk_stats := s'\<rparr>)
       in if \<not> tk_overflow_reported t1 \<and> ts_dropped (tk_stats t1) = 1
          then t1\<lparr>tk_overflow_reported := True\<rparr> else t1)"

definition pop :: "tasklet \<Rightarrow> (work_item \<times> tasklet) option" where
  "pop t =
    (if tk_head t \<noteq> tk_tail t
     then Some (tk_ring t ! tk_head t, t\<lparr>tk_head := Suc (tk_head t) mod TASKLET_QUEUE\<rparr>)
     else None)"

text \<open>
  \<open>while (pop(&w)) { stats.ran++; w.fn(w.arg); }\<close>: the work function \<open>run w\<close> acts on the
  queue (it may schedule more work) and on the rest of the world. The loop need not end,
  so not returning is \<open>None\<close>.
\<close>

partial_function (option) tasklet_drain ::
  "(work_item \<Rightarrow> tasklet \<times> 'w \<Rightarrow> tasklet \<times> 'w) \<Rightarrow> tasklet \<times> 'w \<Rightarrow> (tasklet \<times> 'w) option" where
  "tasklet_drain run s =
    (case pop (fst s) of
       None \<Rightarrow> Some s
     | Some (w, t) \<Rightarrow>
         tasklet_drain run (run w (t\<lparr>tk_stats := (tk_stats t)\<lparr>ts_ran := ts_ran (tk_stats t) + 1\<rparr>\<rparr>, snd s)))"

definition tasklet_stats_get :: "tasklet \<Rightarrow> tasklet_stats" where
  "tasklet_stats_get t = tk_stats t"

section \<open>The queue it implements\<close>

definition tasklet_inv :: "tasklet \<Rightarrow> bool" where
  "tasklet_inv t \<longleftrightarrow> length (tk_ring t) = TASKLET_QUEUE \<and> tk_head t < TASKLET_QUEUE \<and> tk_tail t < TASKLET_QUEUE"

definition tasklet_pending :: "tasklet \<Rightarrow> work_item list" where
  "tasklet_pending t = ring_list (tk_ring t) (tk_head t) (ring_dist TASKLET_QUEUE (tk_head t) (tk_tail t))"

text \<open>The push of the queue contract: a work item is a function that is not null with its
  argument (a null function is refused by \<open>tasklet_schedule\<close>).\<close>

definition tasklet_push :: "work_item \<Rightarrow> tasklet \<Rightarrow> tasklet" where
  "tasklet_push w t = tasklet_schedule (wi_fn w) (wi_arg w) t"

lemma schedule_ring:
  assumes "fn \<noteq> 0"
  shows "tk_head (tasklet_schedule fn arg t) = tk_head t"
    and "Suc (tk_tail t) mod TASKLET_QUEUE = tk_head t \<Longrightarrow>
      tk_ring (tasklet_schedule fn arg t) = tk_ring t \<and> tk_tail (tasklet_schedule fn arg t) = tk_tail t"
    and "Suc (tk_tail t) mod TASKLET_QUEUE \<noteq> tk_head t \<Longrightarrow>
      tk_ring (tasklet_schedule fn arg t) = (tk_ring t)[tk_tail t := \<lparr>wi_fn = fn, wi_arg = arg\<rparr>] \<and>
      tk_tail (tasklet_schedule fn arg t) = Suc (tk_tail t) mod TASKLET_QUEUE"
  using assms by (simp_all add: tasklet_schedule_def Let_def)

lemma schedule_inv: "tasklet_inv t \<Longrightarrow> tasklet_inv (tasklet_schedule fn arg t)"
  by (simp add: tasklet_inv_def tasklet_schedule_def Let_def)

lemma schedule_room:
  assumes inv: "tasklet_inv t" and fn: "fn \<noteq> 0" and room: "length (tasklet_pending t) < TASKLET_QUEUE - 1"
  shows "tasklet_pending (tasklet_schedule fn arg t) = tasklet_pending t @ [\<lparr>wi_fn = fn, wi_arg = arg\<rparr>]"
proof -
  let ?h = "tk_head t" and ?t = "tk_tail t"
  let ?d = "ring_dist TASKLET_QUEUE ?h ?t"
  have b: "?h < TASKLET_QUEUE" "?t < TASKLET_QUEUE" "length (tk_ring t) = TASKLET_QUEUE"
    using inv by (simp_all add: tasklet_inv_def)
  have d: "?d < TASKLET_QUEUE - 1" using room by (simp add: tasklet_pending_def)
  have nx: "Suc ?t mod TASKLET_QUEUE \<noteq> ?h" using d ring_dist_full [OF b(1,2)] by simp
  have "ring_list ((tk_ring t)[(?h + ?d) mod length (tk_ring t) := \<lparr>wi_fn = fn, wi_arg = arg\<rparr>]) ?h (Suc ?d)
      = ring_list (tk_ring t) ?h ?d @ [\<lparr>wi_fn = fn, wi_arg = arg\<rparr>]"
    by (rule ring_list_push) (use d b(3) in simp)
  then show ?thesis
    using schedule_ring [OF fn, where arg = arg and t = t] nx ring_dist_push [OF b(1,2) nx] ring_dist_add [OF b(1,2)] b(3)
    by (simp add: tasklet_pending_def)
qed

lemma schedule_full:
  assumes inv: "tasklet_inv t" and fn: "fn \<noteq> 0" and full: "\<not> length (tasklet_pending t) < TASKLET_QUEUE - 1"
  shows "tasklet_pending (tasklet_schedule fn arg t) = tasklet_pending t"
    and "ts_dropped (tk_stats (tasklet_schedule fn arg t)) = ts_dropped (tk_stats t) + 1"
proof -
  have b: "tk_head t < TASKLET_QUEUE" "tk_tail t < TASKLET_QUEUE"
    using inv by (simp_all add: tasklet_inv_def)
  have "Suc (tk_tail t) mod TASKLET_QUEUE = tk_head t"
    using full ring_dist_full [OF b] ring_dist_less [OF b] by (simp add: tasklet_pending_def)
  then show "tasklet_pending (tasklet_schedule fn arg t) = tasklet_pending t"
    and "ts_dropped (tk_stats (tasklet_schedule fn arg t)) = ts_dropped (tk_stats t) + 1"
    using fn by (simp_all add: tasklet_pending_def tasklet_schedule_def Let_def)
qed

lemma tasklet_pop_first:
  assumes inv: "tasklet_inv t" and ne: "tasklet_pending t = w # ws"
  shows "\<exists>t'. pop t = Some (w, t') \<and> tasklet_inv t' \<and> tasklet_pending t' = ws"
proof -
  let ?h = "tk_head t" and ?t = "tk_tail t"
  have b: "?h < TASKLET_QUEUE" "?t < TASKLET_QUEUE" "length (tk_ring t) = TASKLET_QUEUE"
    using inv by (simp_all add: tasklet_inv_def)
  have "0 < ring_dist TASKLET_QUEUE ?h ?t"
    using ne by (cases "ring_dist TASKLET_QUEUE ?h ?t") (simp_all add: tasklet_pending_def)
  then have neq: "?h \<noteq> ?t" using ring_dist_0_iff [OF b(1,2)] by auto
  have "tasklet_pending t = tk_ring t ! ?h #
      ring_list (tk_ring t) (Suc ?h mod TASKLET_QUEUE) (ring_dist TASKLET_QUEUE ?h ?t - 1)"
    using ring_list_pop [OF \<open>0 < ring_dist TASKLET_QUEUE ?h ?t\<close>, of "tk_ring t" ?h] b
    by (simp add: tasklet_pending_def)
  then show ?thesis
    using ne neq b ring_dist_pop [OF b(1,2) neq]
    by (auto simp: pop_def tasklet_inv_def tasklet_pending_def)
qed

lemma tasklet_pop_empty: "tasklet_inv t \<Longrightarrow> tasklet_pending t = [] \<Longrightarrow> pop t = None"
  using ring_dist_0_iff [of "tk_head t" TASKLET_QUEUE "tk_tail t"]
  by (auto simp: tasklet_inv_def tasklet_pending_def pop_def)

lemma tasklet_pending_within: "tasklet_inv t \<Longrightarrow> length (tasklet_pending t) \<le> TASKLET_QUEUE - 1"
  using ring_dist_less [of "tk_head t" TASKLET_QUEUE "tk_tail t"]
  by (simp add: tasklet_inv_def tasklet_pending_def)

interpretation tasklet_fifo: bounded_fifo tasklet_inv "\<lambda>w. wi_fn w \<noteq> 0" tasklet_pending "TASKLET_QUEUE - 1" tasklet_push pop
proof
  fix q :: tasklet and x :: work_item
  assume inv: "tasklet_inv q"
  show "tasklet_inv (tasklet_push x q)" using inv by (simp add: tasklet_push_def schedule_inv)
  assume x: "wi_fn x \<noteq> 0"
  show "tasklet_pending (tasklet_push x q) = tasklet_pending q @ [x]"
    if "length (tasklet_pending q) < TASKLET_QUEUE - 1"
    using schedule_room [OF inv x that] by (simp add: tasklet_push_def)
  show "tasklet_pending (tasklet_push x q) = tasklet_pending q"
    if "\<not> length (tasklet_pending q) < TASKLET_QUEUE - 1"
    using schedule_full(1) [OF inv x that] by (simp add: tasklet_push_def)
qed (simp_all only: tasklet_pop_empty tasklet_pop_first tasklet_pending_within)

section \<open>Draining\<close>

lemma drain_step:
  assumes "pop t = Some (w, t')"
  shows "tasklet_drain run (t, v) =
    tasklet_drain run (run w (t'\<lparr>tk_stats := (tk_stats t')\<lparr>ts_ran := ts_ran (tk_stats t') + 1\<rparr>\<rparr>, v))"
  using assms by (subst tasklet_drain.simps) simp

lemma pending_stats_irrelevant [simp]:
  "tasklet_pending (t\<lparr>tk_stats := s\<rparr>) = tasklet_pending t" "tasklet_inv (t\<lparr>tk_stats := s\<rparr>) = tasklet_inv t"
  by (simp_all add: tasklet_pending_def tasklet_inv_def)

lemma pop_stats: "pop t = Some (w, t') \<Longrightarrow> tk_stats t' = tk_stats t"
  by (auto simp: pop_def split: if_splits)

lemma drain_pending:
  assumes "tasklet_inv t" and quiet: "\<And>w t v. run w (t, v) = (t, act w v)"
  shows "\<exists>t'. tasklet_drain run (t, v) = Some (t', fold act (tasklet_pending t) v) \<and>
    tasklet_inv t' \<and> tasklet_pending t' = [] \<and>
    ts_ran (tk_stats t') = ts_ran (tk_stats t) + of_nat (length (tasklet_pending t))"
  using assms(1)
proof (induction "tasklet_pending t" arbitrary: t v)
  case Nil
  then have "tasklet_drain run (t, v) = Some (t, v)"
    by (subst tasklet_drain.simps) (simp add: tasklet_pop_empty)
  with Nil show ?case by (simp add: Nil(1)[symmetric])
next
  case (Cons w ws)
  obtain t1 where t1: "pop t = Some (w, t1)" "tasklet_inv t1" "tasklet_pending t1 = ws"
    using tasklet_pop_first [OF Cons.prems Cons.hyps(2)[symmetric]] by blast
  let ?t2 = "t1\<lparr>tk_stats := (tk_stats t1)\<lparr>ts_ran := ts_ran (tk_stats t1) + 1\<rparr>\<rparr>"
  have "tasklet_pending ?t2 = ws" "tasklet_inv ?t2" using t1 by simp_all
  with Cons.hyps(1) [of ?t2 "act w v"] obtain t' where
    "tasklet_drain run (?t2, act w v) = Some (t', fold act ws (act w v))" "tasklet_inv t'"
    "tasklet_pending t' = []" "ts_ran (tk_stats t') = ts_ran (tk_stats t1) + 1 + of_nat (length ws)"
    by auto
  moreover have "tasklet_drain run (t, v) = tasklet_drain run (?t2, act w v)"
    by (simp only: drain_step [OF t1(1)] quiet)
  moreover have "tasklet_pending t = w # ws" by (rule Cons.hyps(2) [symmetric])
  ultimately show ?case by (simp add: pop_stats [OF t1(1)] add.assoc)
qed

section \<open>Properties\<close>

text \<open>C5: From the static initial state, any sequence of \<open>tasklet_schedule\<close> calls with real
  functions and \<open>pop\<close> calls returns what a first-in first-out queue of 255 places returns:
  no work item is lost, duplicated or reordered unless it is dropped because the queue is full.\<close>

theorem tasklet_is_fifo:
  assumes "list_all (fifo_op_ok (\<lambda>w. wi_fn w \<noteq> 0)) ops" and "fifo_run tasklet_push pop tasklet_init ops = (rs, t)"
  shows "fifo_spec_run 255 [] ops = (rs, tasklet_pending t)"
proof -
  have "tasklet_inv tasklet_init" and "tasklet_pending tasklet_init = []"
    by (simp_all add: tasklet_inv_def tasklet_init_def tasklet_pending_def ring_dist_def)
  then show ?thesis using tasklet_fifo.run_refines [OF _ assms] by simp
qed

theorem tasklet_is_fifo_witness:
  "fst (fifo_run tasklet_push pop tasklet_init [Push \<lparr>wi_fn = 7, wi_arg = 1\<rparr>, Push \<lparr>wi_fn = 9, wi_arg = 2\<rparr>, Pop, Pop, Pop]) =
    [None, None, Some \<lparr>wi_fn = 7, wi_arg = 1\<rparr>, Some \<lparr>wi_fn = 9, wi_arg = 2\<rparr>, None]"
  (is "fst ?r = _")
  using tasklet_is_fifo [of "[Push \<lparr>wi_fn = 7, wi_arg = 1\<rparr>, Push \<lparr>wi_fn = 9, wi_arg = 2\<rparr>, Pop, Pop, Pop]" "fst ?r" "snd ?r"]
  by simp

text \<open>C6: \<open>tasklet_drain\<close> returns when the work functions queue nothing new, and it has then
  run every pending item exactly once, in the order it was scheduled, and left the queue
  empty.\<close>

theorem tasklet_drain_runs_all:
  assumes "tasklet_inv t" and "\<And>w u v. run w (u, v) = (u, act w v)"
  shows "\<exists>t'. tasklet_drain run (t, v) = Some (t', fold act (tasklet_pending t) v) \<and>
    tasklet_pending t' = [] \<and>
    ts_ran (tk_stats t') = ts_ran (tk_stats t) + of_nat (length (tasklet_pending t))"
  using drain_pending [of t run act v] assms by blast

theorem tasklet_drain_runs_all_witness:
  "\<exists>t'. tasklet_drain (\<lambda>w s. (fst s, snd s @ [wi_arg w])) (tasklet_schedule 7 1 tasklet_init, []) = Some (t', [1])"
proof -
  let ?t = "tasklet_schedule 7 1 tasklet_init"
  have i: "tasklet_inv ?t" by (rule schedule_inv) (simp add: tasklet_inv_def tasklet_init_def)
  have p: "tasklet_pending ?t = [\<lparr>wi_fn = 7, wi_arg = 1\<rparr>]"
    by (simp add: tasklet_pending_def tasklet_schedule_def tasklet_init_def Let_def ring_dist_def ring_list_def)
  show ?thesis
    using tasklet_drain_runs_all [OF i, of "\<lambda>w s. (fst s, snd s @ [wi_arg w])" "\<lambda>w v. v @ [wi_arg w]" "[]"] p
    by auto
qed

end
