(* ===== verification/Sched.thy ===== *)
theory Sched
  imports Prelude
begin

text \<open>
  Tasks, wait queues and the scheduler (\<open>kernel/task.c\<close>, \<open>kernel/sched.c\<close>,
  \<open>include/task.h\<close>). The task table is a list of 64 slots and a task pointer is an index
  into it (\<open>None\<close> is the null pointer); a wait queue is a head pointer threaded through
  the tasks' \<open>wq_next\<close> fields, exactly as the C list is, so that a stale link shows.
  Every function here runs under \<open>task_state_lock\<close> and is one atomic step. \<open>sched_park\<close>
  is the boundary of a step: what a parking function does before the switch is its
  definition here, and what the scheduler does on landing and on the next dispatch are
  \<open>sched_landed\<close> and \<open>sched_dispatch\<close>. Calls that end in \<open>panic\<close> yield \<open>None\<close>.
\<close>

datatype task_state = TASK_UNUSED | TASK_READY | TASK_RUNNING | TASK_SLEEPING | TASK_BLOCKED | TASK_DEAD

record task =
  t_state :: task_state
  t_prio :: u32
  t_rq_key :: u64
  t_quantum_left :: u64
  t_wake_at :: u64
  t_wq_next :: "nat option"
  t_name :: string
  t_fn :: u64
  t_arg :: u64
  t_parked :: bool
  t_kstack :: u64
  t_lock_wait :: "nat option"

record per_cpu =
  pc_current :: "nat option"
  pc_need_resched :: bool

record sched =
  tasks :: "task list"
  rq_seq :: u64
  cpus :: "per_cpu list"
  jiffies :: u64

abbreviation MAX_TASKS :: nat where "MAX_TASKS \<equiv> 64"
abbreviation NR_CPUS :: nat where "NR_CPUS \<equiv> 2"
abbreviation SCHED_QUANTUM :: u64 where "SCHED_QUANTUM \<equiv> 5"
abbreviation TIME_HZ :: u64 where "TIME_HZ \<equiv> 100"

definition unused_task :: task where
  "unused_task = \<lparr>t_state = TASK_UNUSED, t_prio = 0, t_rq_key = 0, t_quantum_left = 0, t_wake_at = 0,
     t_wq_next = None, t_name = '''', t_fn = 0, t_arg = 0, t_parked = False, t_kstack = 0, t_lock_wait = None\<rparr>"

text \<open>The static tables after \<open>sched_init\<close>: every slot unused, every cpu without a task.\<close>

definition sched_init :: sched where
  "sched_init = \<lparr>tasks = replicate MAX_TASKS unused_task, rq_seq = 0,
     cpus = replicate NR_CPUS \<lparr>pc_current = None, pc_need_resched = False\<rparr>, jiffies = 0\<rparr>"

section \<open>Table access\<close>

definition task_at :: "sched \<Rightarrow> nat \<Rightarrow> task" where
  "task_at s i = tasks s ! i"

definition upd_task :: "nat \<Rightarrow> (task \<Rightarrow> task) \<Rightarrow> sched \<Rightarrow> sched" where
  "upd_task i f s = s\<lparr>tasks := (tasks s)[i := f (tasks s ! i)]\<rparr>"

definition upd_cpu :: "nat \<Rightarrow> (per_cpu \<Rightarrow> per_cpu) \<Rightarrow> sched \<Rightarrow> sched" where
  "upd_cpu c f s = s\<lparr>cpus := (cpus s)[c := f (cpus s ! c)]\<rparr>"

definition task_next_key :: "sched \<Rightarrow> u64 \<times> sched" where
  "task_next_key s = (rq_seq s + 1, s\<lparr>rq_seq := rq_seq s + 1\<rparr>)"

definition current_task :: "nat \<Rightarrow> sched \<Rightarrow> nat option" where
  "current_task c s = pc_current (cpus s ! c)"

text \<open>\<open>t->state = TASK_READY; t->rq_key = task_next_key();\<close>\<close>

definition make_ready :: "nat \<Rightarrow> sched \<Rightarrow> sched" where
  "make_ready i s =
    (let (k, s') = task_next_key s in upd_task i (\<lambda>t. t\<lparr>t_state := TASK_READY, t_rq_key := k\<rparr>) s')"

section \<open>Creation\<close>

definition alloc_task :: "sched \<Rightarrow> nat option" where
  "alloc_task s = find (\<lambda>i. t_state (task_at s i) = TASK_UNUSED) [0..<length (tasks s)]"

text \<open>The saved context (stack top and entry trampoline) is not part of the model.\<close>

definition task_prime :: "nat \<Rightarrow> string \<Rightarrow> u64 \<Rightarrow> u64 \<Rightarrow> u32 \<Rightarrow> sched \<Rightarrow> sched" where
  "task_prime i name fn arg prio s =
    (let (k, s') = task_next_key s
     in upd_task i (\<lambda>t. t\<lparr>t_state := TASK_READY, t_prio := prio, t_rq_key := k, t_quantum_left := 0,
          t_wake_at := 0, t_wq_next := None, t_lock_wait := None, t_name := name, t_fn := fn, t_arg := arg\<rparr>) s')"

definition task_create :: "string \<Rightarrow> u64 \<Rightarrow> u64 \<Rightarrow> u32 \<Rightarrow> sched \<Rightarrow> int \<times> sched" where
  "task_create name fn arg prio s =
    (if fn = 0 then (-1, s)
     else case alloc_task s of
       None \<Rightarrow> (-1, s)
     | Some i \<Rightarrow> (int i, task_prime i name fn arg prio s))"

definition task_create_deferred :: "string \<Rightarrow> u64 \<Rightarrow> u64 \<Rightarrow> u32 \<Rightarrow> sched \<Rightarrow> int \<times> sched" where
  "task_create_deferred name fn arg prio s =
    (if fn = 0 then (-1, s)
     else case alloc_task s of
       None \<Rightarrow> (-1, s)
     | Some i \<Rightarrow> (int i, upd_task i (\<lambda>t. t\<lparr>t_state := TASK_BLOCKED, t_parked := False, t_kstack := 0\<rparr>)
                           (task_prime i name fn arg prio s)))"

definition task_launch :: "int \<Rightarrow> sched \<Rightarrow> sched option" where
  "task_launch slot s =
    (if slot < 0 \<or> int MAX_TASKS \<le> slot then None else Some (make_ready (nat slot) s))"

section \<open>Leaving the cpu\<close>

definition task_exit :: "nat \<Rightarrow> sched \<Rightarrow> sched option" where
  "task_exit c s =
    (case current_task c s of
       None \<Rightarrow> None
     | Some i \<Rightarrow> Some (upd_task i (\<lambda>t. t\<lparr>t_state := TASK_DEAD\<rparr>) s))"

definition task_yield :: "nat \<Rightarrow> sched \<Rightarrow> sched option" where
  "task_yield c s = (case current_task c s of None \<Rightarrow> None | Some i \<Rightarrow> Some (make_ready i s))"

definition park_current :: "nat \<Rightarrow> task_state \<Rightarrow> sched \<Rightarrow> sched option" where
  "park_current c st s =
    (case current_task c s of None \<Rightarrow> None | Some i \<Rightarrow> Some (upd_task i (\<lambda>t. t\<lparr>t_state := st\<rparr>) s))"

definition msleep :: "nat \<Rightarrow> u64 \<Rightarrow> sched \<Rightarrow> sched option" where
  "msleep c msecs s =
    (if msecs = 0 then task_yield c s
     else
       let ticks0 = (msecs * TIME_HZ + 999) div 1000;
           ticks = (if ticks0 = 0 then 1 else ticks0)
       in case current_task c s of
            None \<Rightarrow> None
          | Some i \<Rightarrow> park_current c TASK_SLEEPING (upd_task i (\<lambda>t. t\<lparr>t_wake_at := jiffies s + ticks\<rparr>) s))"

section \<open>Wait queues\<close>

text \<open>Link task \<open>i\<close> in front of the queue with head \<open>h\<close> and block it.\<close>

definition wq_park :: "nat \<Rightarrow> nat option \<Rightarrow> sched \<Rightarrow> nat option \<times> sched" where
  "wq_park i h s = (Some i, upd_task i (\<lambda>t. t\<lparr>t_wq_next := h, t_state := TASK_BLOCKED\<rparr>) s)"

text \<open>\<open>wait_sleep_when\<close>: \<open>cond\<close> is the value of the predicate under the lock. The result
  says whether the caller parked.\<close>

definition wait_sleep_when :: "nat \<Rightarrow> bool \<Rightarrow> nat option \<Rightarrow> sched \<Rightarrow> (bool \<times> nat option \<times> sched) option" where
  "wait_sleep_when c cond h s =
    (case current_task c s of
       None \<Rightarrow> None
     | Some i \<Rightarrow>
         (if \<not> cond then Some (False, h, s)
          else let (h', s') = wq_park i h s in Some (True, h', s')))"

text \<open>
  The wake loop of \<open>wait_wake_all\<close>: pop the head, clear its link, skip a dead task, make
  any other ready; the flag records whether a woken task outranks the priority given. A
  queue head outside the table would be a wild pointer and ends the walk.
\<close>

function wake_loop :: "u32 option \<Rightarrow> nat option \<Rightarrow> bool \<Rightarrow> sched \<Rightarrow> bool \<times> sched" where
  "wake_loop cur None p s = (p, s)"
| "wake_loop cur (Some i) p s =
    (if i < length (tasks s)
     then
       let h' = t_wq_next (task_at s i);
           s1 = upd_task i (\<lambda>t. t\<lparr>t_wq_next := None\<rparr>) s
       in if t_state (task_at s i) = TASK_DEAD then wake_loop cur h' p s1
          else wake_loop cur h'
                 (p \<or> (case cur of None \<Rightarrow> False | Some pr \<Rightarrow> t_prio (task_at s i) < pr))
                 (make_ready i s1)
     else (p, s))"
  by pat_completeness auto

lemma upd_task_tasks: "tasks (upd_task i f s) = (tasks s)[i := f (tasks s ! i)]"
  by (simp add: upd_task_def)

lemma make_ready_tasks:
  "tasks (make_ready i s) = (tasks s)[i := (tasks s ! i)\<lparr>t_state := TASK_READY, t_rq_key := rq_seq s + 1\<rparr>]"
  by (simp add: make_ready_def task_next_key_def upd_task_def)

definition links :: "sched \<Rightarrow> nat" where
  "links s = card {i. i < length (tasks s) \<and> t_wq_next (tasks s ! i) \<noteq> None}"

lemma links_unlink:
  assumes "i < length (tasks s)" and "length (tasks s') = length (tasks s)"
    and "\<And>j. t_wq_next (tasks s' ! j) = (if j = i then None else t_wq_next (tasks s ! j))"
  shows "links s' = links s - (if t_wq_next (tasks s ! i) = None then 0 else 1)"
proof -
  let ?A = "\<lambda>s. {j. j < length (tasks s) \<and> t_wq_next (tasks s ! j) \<noteq> None}"
  have "?A s' = ?A s - {i}" using assms by auto
  then have "links s' = card (?A s - {i})" by (simp only: links_def)
  also have "\<dots> = (if i \<in> ?A s then card (?A s) - 1 else card (?A s))"
    by (rule card_Diff_singleton_if)
  finally show ?thesis using assms(1) by (simp add: links_def)
qed

lemma links_pos:
  assumes "i < length (tasks s)" and "t_wq_next (tasks s ! i) \<noteq> None"
  shows "0 < links s"
  using assms by (auto simp: links_def card_gt_0_iff)

lemma wq_next_unlinked:
  "i < length (tasks s) \<Longrightarrow>
     t_wq_next (tasks (upd_task i (\<lambda>t. t\<lparr>t_wq_next := None\<rparr>) s) ! j) = (if j = i then None else t_wq_next (tasks s ! j))"
  "i < length (tasks s) \<Longrightarrow>
     t_wq_next (tasks (make_ready i (upd_task i (\<lambda>t. t\<lparr>t_wq_next := None\<rparr>) s)) ! j) = (if j = i then None else t_wq_next (tasks s ! j))"
  by (simp_all add: upd_task_tasks make_ready_tasks nth_list_update)

termination wake_loop
proof (relation "measure (\<lambda>(cur, h, p, s). links s + (if h = None then 0 else 1))", goal_cases)
  case 1
  show ?case by simp
next
  case (2 cur i p s h' s1)
  have "links s1 = links s - (if t_wq_next (tasks s ! i) = None then 0 else 1)"
    unfolding 2(3) by (rule links_unlink) (use 2(1) in \<open>auto simp: upd_task_tasks nth_list_update\<close>)
  then show ?case using 2 links_pos [of i s] by (auto simp: task_at_def)
next
  case (3 cur i p s h' s1)
  have "links (make_ready i s1) = links s - (if t_wq_next (tasks s ! i) = None then 0 else 1)"
    unfolding 3(3) by (rule links_unlink)
      (use 3(1) in \<open>auto simp: make_ready_tasks upd_task_tasks nth_list_update\<close>)
  then show ?case using 3 links_pos [of i s] by (auto simp: task_at_def)
qed

definition wait_wake_all :: "nat \<Rightarrow> nat option \<Rightarrow> sched \<Rightarrow> nat option \<times> sched" where
  "wait_wake_all c h s =
    (let (preempt, s') = wake_loop (map_option (\<lambda>i. t_prio (task_at s i)) (current_task c s)) h False s
     in (None, if preempt \<and> current_task c s' \<noteq> None
               then upd_cpu c (\<lambda>pc. pc\<lparr>pc_need_resched := True\<rparr>) s' else s'))"

section \<open>The scheduler\<close>

definition better :: "task \<Rightarrow> task \<Rightarrow> bool" where
  "better a b = (if t_prio a \<noteq> t_prio b then t_prio a < t_prio b else t_rq_key a < t_rq_key b)"

fun pick_from :: "sched \<Rightarrow> nat list \<Rightarrow> nat option \<Rightarrow> nat option" where
  "pick_from s [] best = best"
| "pick_from s (i # ks) best =
    (if t_state (task_at s i) \<noteq> TASK_READY then pick_from s ks best
     else case best of
       None \<Rightarrow> pick_from s ks (Some i)
     | Some b \<Rightarrow> pick_from s ks (if better (task_at s i) (task_at s b) then Some i else Some b))"

definition pick_next :: "sched \<Rightarrow> nat option" where
  "pick_next s = pick_from s [0..<length (tasks s)] None"

text \<open>One turn of the loop of \<open>sched_run\<close> on cpu \<open>c\<close>: dispatch the pick or go idle.\<close>

definition sched_dispatch :: "nat \<Rightarrow> sched \<Rightarrow> sched" where
  "sched_dispatch c s =
    (case pick_next s of
       Some i \<Rightarrow> upd_cpu c (\<lambda>pc. pc\<lparr>pc_current := Some i\<rparr>)
         (upd_task i (\<lambda>t. t\<lparr>t_state := TASK_RUNNING, t_quantum_left := SCHED_QUANTUM\<rparr>) s)
     | None \<Rightarrow> upd_cpu c (\<lambda>pc. pc\<lparr>pc_current := None\<rparr>) s)"

text \<open>Back on the scheduler stack after the task parked: \<open>pc->current->parked = true\<close>.\<close>

definition sched_landed :: "nat \<Rightarrow> sched \<Rightarrow> sched" where
  "sched_landed c s =
    (case current_task c s of None \<Rightarrow> s | Some i \<Rightarrow> upd_task i (\<lambda>t. t\<lparr>t_parked := True\<rparr>) s)"

fun wake_sleepers :: "nat list \<Rightarrow> sched \<Rightarrow> sched" where
  "wake_sleepers [] s = s"
| "wake_sleepers (i # ks) s =
    (if t_state (task_at s i) = TASK_SLEEPING \<and> 0 \<le> sint (jiffies s - t_wake_at (task_at s i))
     then wake_sleepers ks (make_ready i s) else wake_sleepers ks s)"

definition sched_tick :: "nat \<Rightarrow> sched \<Rightarrow> sched" where
  "sched_tick c s =
    (let s1 = wake_sleepers [0..<length (tasks s)] s
     in case current_task c s1 of
          None \<Rightarrow> s1
        | Some i \<Rightarrow>
            if t_state (task_at s1 i) = TASK_RUNNING
            then
              let s2 = (if 0 < t_quantum_left (task_at s1 i)
                        then upd_task i (\<lambda>t. t\<lparr>t_quantum_left := t_quantum_left t - 1\<rparr>) s1 else s1)
              in if t_quantum_left (task_at s2 i) = 0
                 then upd_cpu c (\<lambda>pc. pc\<lparr>pc_need_resched := True\<rparr>) s2 else s2
            else s1)"

text \<open>\<open>sched_post_irq\<close> up to the park; the flag says whether it parks.\<close>

definition sched_post_irq :: "nat \<Rightarrow> sched \<Rightarrow> bool \<times> sched" where
  "sched_post_irq c s =
    (case current_task c s of
       None \<Rightarrow> (False, s)
     | Some i \<Rightarrow>
         if \<not> pc_need_resched (cpus s ! c) then (False, s)
         else
           let s1 = upd_cpu c (\<lambda>pc. pc\<lparr>pc_need_resched := False\<rparr>) s
           in (True, if t_state (task_at s1 i) = TASK_RUNNING then make_ready i s1 else s1))"

text \<open>The tasks of a queue, read off the links.\<close>

fun wq_chain :: "sched \<Rightarrow> nat option \<Rightarrow> nat list \<Rightarrow> bool" where
  "wq_chain s h [] = (h = None)"
| "wq_chain s h (i # ks) = (h = Some i \<and> i < length (tasks s) \<and> wq_chain s (t_wq_next (task_at s i)) ks)"

text \<open>The two fields of a task that the invariants speak of.\<close>

abbreviation st_of :: "sched \<Rightarrow> nat \<Rightarrow> task_state" where "st_of s i \<equiv> t_state (task_at s i)"
abbreviation nx_of :: "sched \<Rightarrow> nat \<Rightarrow> nat option" where "nx_of s i \<equiv> t_wq_next (task_at s i)"

section \<open>What each operation does to the views\<close>

named_theorems view_simps

lemma upd_task_views [view_simps]:
  "length (tasks (upd_task i f s)) = length (tasks s)"
  "length (cpus (upd_task i f s)) = length (cpus s)"
  "current_task c (upd_task i f s) = current_task c s"
  "i < length (tasks s) \<Longrightarrow> task_at (upd_task i f s) j = (if j = i then f (task_at s i) else task_at s j)"
  by (simp_all add: upd_task_def current_task_def task_at_def nth_list_update)

lemma upd_cpu_views [view_simps]:
  "tasks (upd_cpu c f s) = tasks s"
  "length (cpus (upd_cpu c f s)) = length (cpus s)"
  "c < length (cpus s) \<Longrightarrow> current_task d (upd_cpu c f s) = (if d = c then pc_current (f (cpus s ! c)) else current_task d s)"
  "task_at (upd_cpu c f s) j = task_at s j"
  by (simp_all add: upd_cpu_def current_task_def task_at_def nth_list_update)

lemma make_ready_views [view_simps]:
  "length (tasks (make_ready i s)) = length (tasks s)"
  "length (cpus (make_ready i s)) = length (cpus s)"
  "current_task c (make_ready i s) = current_task c s"
  "i < length (tasks s) \<Longrightarrow> st_of (make_ready i s) j = (if j = i then TASK_READY else st_of s j)"
  "i < length (tasks s) \<Longrightarrow> nx_of (make_ready i s) j = nx_of s j"
  by (simp_all add: make_ready_def task_next_key_def upd_task_def current_task_def task_at_def nth_list_update)

lemma nth_update_frame:
  assumes "\<And>x. g (f x) = g x"
  shows "g (xs[i := f (xs ! i)] ! j) = g (xs ! j)"
  using assms by (cases "i < length xs"; cases "i = j") (simp_all add: list_update_beyond)

lemma resched_views [view_simps]:
  "current_task d (upd_cpu c (\<lambda>pc. pc\<lparr>pc_need_resched := b\<rparr>) s) = current_task d s"
  by (simp add: upd_cpu_def current_task_def nth_update_frame [where g = pc_current])

lemma sched_landed_views [view_simps]:
  "length (tasks (sched_landed c s)) = length (tasks s)"
  "length (cpus (sched_landed c s)) = length (cpus s)"
  "current_task d (sched_landed c s) = current_task d s"
  "st_of (sched_landed c s) j = st_of s j"
  "nx_of (sched_landed c s) j = nx_of s j"
  by (simp_all add: sched_landed_def upd_task_def current_task_def task_at_def
        nth_update_frame [where g = t_state] nth_update_frame [where g = t_wq_next] split: option.splits)

lemma wake_sleepers_views [view_simps]:
  assumes "\<forall>i \<in> set ks. i < length (tasks s)"
  shows "length (tasks (wake_sleepers ks s)) = length (tasks s)"
    and "length (cpus (wake_sleepers ks s)) = length (cpus s)"
    and "current_task c (wake_sleepers ks s) = current_task c s"
    and "st_of (wake_sleepers ks s) j = st_of s j \<or>
          st_of s j = TASK_SLEEPING \<and> st_of (wake_sleepers ks s) j = TASK_READY"
    and "nx_of (wake_sleepers ks s) j = nx_of s j"
  using assms
  by (induction ks s rule: wake_sleepers.induct) (auto simp: view_simps split: if_splits)

lemma wq_chain_cong:
  assumes "\<And>i. i \<in> set ks \<Longrightarrow> nx_of s' i = nx_of s i" and "length (tasks s') = length (tasks s)"
  shows "wq_chain s' h ks = wq_chain s h ks"
  using assms by (induction ks arbitrary: h) auto

lemma wq_chain_bounds: "wq_chain s h ks \<Longrightarrow> \<forall>i \<in> set ks. i < length (tasks s)"
  by (induction ks arbitrary: h) auto

lemma wake_loop_views:
  assumes "wq_chain s h ks" and "distinct ks" and "wake_loop cur h p s = (p', s')"
  shows "length (tasks s') = length (tasks s)" and "length (cpus s') = length (cpus s)"
    and "current_task c s' = current_task c s"
    and "st_of s' j = (if j \<in> set ks \<and> st_of s j \<noteq> TASK_DEAD then TASK_READY else st_of s j)"
    and "nx_of s' j = (if j \<in> set ks then None else nx_of s j)"
proof -
  have "length (tasks s') = length (tasks s) \<and> length (cpus s') = length (cpus s) \<and>
    (\<forall>c. current_task c s' = current_task c s) \<and>
    (\<forall>j. st_of s' j = (if j \<in> set ks \<and> st_of s j \<noteq> TASK_DEAD then TASK_READY else st_of s j) \<and>
         nx_of s' j = (if j \<in> set ks then None else nx_of s j))"
    using assms
  proof (induction ks arbitrary: h p s)
    case Nil
    then show ?case by simp
  next
    case (Cons i ks)
    let ?s1 = "upd_task i (\<lambda>t. t\<lparr>t_wq_next := None\<rparr>) s"
    let ?s2 = "if st_of s i = TASK_DEAD then ?s1 else make_ready i ?s1"
    have i: "h = Some i" "i < length (tasks s)" "wq_chain s (nx_of s i) ks" "i \<notin> set ks" "distinct ks"
      using Cons.prems by auto
    obtain q where "wake_loop cur (nx_of s i) q ?s2 = (p', s')"
      using Cons.prems(3) i(1,2) by (auto simp: Let_def split: if_splits)
    moreover have "wq_chain ?s2 (nx_of s i) ks"
      using i(2,3,4) by (subst wq_chain_cong [of _ _ s]) (auto simp: view_simps)
    ultimately have "length (tasks s') = length (tasks ?s2) \<and> length (cpus s') = length (cpus ?s2) \<and>
      (\<forall>c. current_task c s' = current_task c ?s2) \<and>
      (\<forall>j. st_of s' j = (if j \<in> set ks \<and> st_of ?s2 j \<noteq> TASK_DEAD then TASK_READY else st_of ?s2 j) \<and>
           nx_of s' j = (if j \<in> set ks then None else nx_of ?s2 j))"
      using Cons.IH i(5) by blast
    then show ?case using i(2,4) by (auto simp: view_simps)
  qed
  then show "length (tasks s') = length (tasks s)" and "length (cpus s') = length (cpus s)"
    and "current_task c s' = current_task c s"
    and "st_of s' j = (if j \<in> set ks \<and> st_of s j \<noteq> TASK_DEAD then TASK_READY else st_of s j)"
    and "nx_of s' j = (if j \<in> set ks then None else nx_of s j)"
    by blast+
qed

lemma quantum_views [view_simps]:
  "st_of (upd_task i (\<lambda>t. t\<lparr>t_quantum_left := f t\<rparr>) s) j = st_of s j"
  "nx_of (upd_task i (\<lambda>t. t\<lparr>t_quantum_left := f t\<rparr>) s) j = nx_of s j"
  by (simp_all add: upd_task_def task_at_def
        nth_update_frame [where g = t_state and f = "\<lambda>t. t\<lparr>t_quantum_left := f t\<rparr>"]
        nth_update_frame [where g = t_wq_next and f = "\<lambda>t. t\<lparr>t_quantum_left := f t\<rparr>"])

lemma sched_tick_views:
  defines "s1 s \<equiv> wake_sleepers [0..<length (tasks s)] s"
  shows "length (tasks (sched_tick c s)) = length (tasks (s1 s))"
    and "length (cpus (sched_tick c s)) = length (cpus (s1 s))"
    and "current_task d (sched_tick c s) = current_task d (s1 s)"
    and "st_of (sched_tick c s) j = st_of (s1 s) j"
    and "nx_of (sched_tick c s) j = nx_of (s1 s) j"
  unfolding sched_tick_def s1_def [symmetric] Let_def
  by (auto simp: upd_task_views(1,2,3) upd_cpu_views(1,2,4) resched_views quantum_views split: option.split)

end
