(* ===== verification/Sync.thy ===== *)
theory Sync
  imports Sched
begin

text \<open>
  Sleeping mutexes and semaphores (\<open>kernel/sync.c\<close>). A mutex pointer is an index into a
  table; every operation runs under \<open>sync_lock\<close>. The loops of \<open>kmutex_lock\<close> and
  \<open>ksem_wait\<close> are given one iteration at a time: an iteration either returns or parks the
  caller, and a parked caller that is dispatched again runs the next iteration.
\<close>

record kmutex =
  km_name :: string
  km_owner :: "nat option"
  km_wq :: "nat option"

record ksem =
  ks_name :: string
  ks_count :: int
  ks_max :: int
  ks_wq :: "nat option"

record sync_stats =
  sy_acquires :: u64
  sy_blocks :: u64
  sy_deadlocks :: u64
  sy_max_wakeups :: u64

record sync =
  sy_sched :: sched
  sy_mtx :: "kmutex list"
  sy_sem :: "ksem list"
  sy_stats :: sync_stats
  sy_mutex_reg :: "nat option list"
  sy_sem_reg :: "nat option list"

abbreviation SYNC_REG_MAX :: nat where "SYNC_REG_MAX \<equiv> 32"
abbreviation DEADLK_VISIT_MAX :: nat where "DEADLK_VISIT_MAX \<equiv> 128"

abbreviation SYNC_DEADLK :: int where "SYNC_DEADLK \<equiv> -35"
abbreviation SYNC_EBUSY :: int where "SYNC_EBUSY \<equiv> -16"

text \<open>What one iteration of a blocking loop does: return a value or park the caller.\<close>

datatype lock_result = Return int | Parked

section \<open>The registry of live primitives\<close>

fun reg_add :: "nat option list \<Rightarrow> nat \<Rightarrow> nat option list" where
  "reg_add [] p = []"
| "reg_add (None # rs) p = Some p # rs"
| "reg_add (Some q # rs) p = Some q # reg_add rs p"

fun reg_del :: "nat option list \<Rightarrow> nat \<Rightarrow> nat option list" where
  "reg_del [] p = []"
| "reg_del (r # rs) p = (if r = Some p then None # rs else r # reg_del rs p)"

section \<open>Waking and parking\<close>

text \<open>
  The loop of \<open>wake_batch\<close>: unlike \<open>wait_wake_all\<close> it makes every popped task ready,
  whatever its state, and counts them.
\<close>

function wake_batch_loop :: "u32 option \<Rightarrow> nat option \<Rightarrow> bool \<Rightarrow> nat \<Rightarrow> sched \<Rightarrow> bool \<times> nat \<times> sched" where
  "wake_batch_loop cur None p n s = (p, n, s)"
| "wake_batch_loop cur (Some i) p n s =
    (if i < length (tasks s)
     then wake_batch_loop cur (t_wq_next (task_at s i))
            (p \<or> (case cur of None \<Rightarrow> False | Some pr \<Rightarrow> t_prio (task_at s i) < pr)) (Suc n)
            (make_ready i (upd_task i (\<lambda>t. t\<lparr>t_wq_next := None\<rparr>) s))
     else (p, n, s))"
  by pat_completeness auto
termination
proof (relation "measure (\<lambda>(cur, h, p, n, s). links s + (if h = None then 0 else 1))", goal_cases)
  case (2 cur i p n s)
  let ?s' = "make_ready i (upd_task i (\<lambda>t. t\<lparr>t_wq_next := None\<rparr>) s)"
  have "links ?s' = links s - (if t_wq_next (tasks s ! i) = None then 0 else 1)"
    by (rule links_unlink) (use 2 in \<open>auto simp: make_ready_tasks upd_task_tasks nth_list_update\<close>)
  then show ?case using 2 links_pos [of i s] by (auto simp: task_at_def)
qed simp

definition wake_batch :: "nat \<Rightarrow> nat option \<Rightarrow> sync \<Rightarrow> sync" where
  "wake_batch c h y =
    (let s = sy_sched y;
         (preempt, n, s') = wake_batch_loop (map_option (\<lambda>i. t_prio (task_at s i)) (current_task c s)) h False 0 s;
         st = (if of_nat n > sy_max_wakeups (sy_stats y)
               then (sy_stats y)\<lparr>sy_max_wakeups := of_nat n\<rparr> else sy_stats y);
         s'' = (if preempt \<and> current_task c s' \<noteq> None
                then upd_cpu c (\<lambda>pc. pc\<lparr>pc_need_resched := True\<rparr>) s' else s')
     in y\<lparr>sy_sched := s'', sy_stats := st\<rparr>)"

section \<open>The deadlock detector\<close>

text \<open>
  The walk from a mutex to its owner, to the mutex that owner waits for, and so on. \<open>seen\<close>
  is the array of mutexes already stepped to; its bound makes the walk finite.
\<close>

function deadlock_walk :: "sync \<Rightarrow> nat \<Rightarrow> nat \<Rightarrow> nat list \<Rightarrow> bool" where
  "deadlock_walk y me m seen =
    (case km_owner (sy_mtx y ! m) of
       None \<Rightarrow> False
     | Some ow \<Rightarrow>
         if ow = me then True
         else case t_lock_wait (task_at (sy_sched y) ow) of
           None \<Rightarrow> False
         | Some m' \<Rightarrow>
             if DEADLK_VISIT_MAX \<le> length seen then True
             else if m' \<in> set seen then True
             else deadlock_walk y me m' (seen @ [m']))"
  by pat_completeness auto
termination
  by (relation "measure (\<lambda>(y, me, m, seen). DEADLK_VISIT_MAX - length seen)") auto

declare deadlock_walk.simps [simp del]

definition would_deadlock :: "nat \<Rightarrow> nat \<Rightarrow> sync \<Rightarrow> bool" where
  "would_deadlock me target y = deadlock_walk y me target []"

section \<open>Mutexes\<close>

definition upd_mtx :: "nat \<Rightarrow> (kmutex \<Rightarrow> kmutex) \<Rightarrow> sync \<Rightarrow> sync" where
  "upd_mtx m f y = y\<lparr>sy_mtx := (sy_mtx y)[m := f (sy_mtx y ! m)]\<rparr>"

definition set_lock_wait :: "nat \<Rightarrow> nat option \<Rightarrow> sync \<Rightarrow> sync" where
  "set_lock_wait i w y = y\<lparr>sy_sched := upd_task i (\<lambda>t. t\<lparr>t_lock_wait := w\<rparr>) (sy_sched y)\<rparr>"

definition kmutex_init :: "nat \<Rightarrow> string option \<Rightarrow> sync \<Rightarrow> sync" where
  "kmutex_init m name y =
    (let y1 = upd_mtx m (\<lambda>_. \<lparr>km_name = (case name of None \<Rightarrow> ''kmutex'' | Some n \<Rightarrow> n),
                              km_owner = None, km_wq = None\<rparr>) y
     in y1\<lparr>sy_mutex_reg := reg_add (sy_mutex_reg y1) m\<rparr>)"

text \<open>\<open>SYNC_EBUSY\<close> is itself \<open>-16\<close> in \<open>include/sync.h\<close>, so the code's \<open>-SYNC_EBUSY\<close> is
  \<open>+16\<close>; likewise the \<open>-SYNC_DEADLK\<close> that \<open>kmutex_lock\<close> returns is \<open>+35\<close>.\<close>

definition kmutex_try :: "nat \<Rightarrow> nat \<Rightarrow> sync \<Rightarrow> int \<times> sync" where
  "kmutex_try c m y =
    (if km_owner (sy_mtx y ! m) \<noteq> None then (- SYNC_EBUSY, y)
     else (0, (upd_mtx m (\<lambda>k. k\<lparr>km_owner := current_task c (sy_sched y)\<rparr>) y)
                \<lparr>sy_stats := (sy_stats y)\<lparr>sy_acquires := sy_acquires (sy_stats y) + 1\<rparr>\<rparr>))"

text \<open>One iteration of the loop of \<open>kmutex_lock\<close>; \<open>None\<close> is the panic before the scheduler
  runs.\<close>

definition kmutex_lock :: "nat \<Rightarrow> nat \<Rightarrow> sync \<Rightarrow> (lock_result \<times> sync) option" where
  "kmutex_lock c m y =
    (case current_task c (sy_sched y) of
       None \<Rightarrow> None
     | Some me \<Rightarrow>
         if km_owner (sy_mtx y ! m) = None
         then Some (Return 0,
           (set_lock_wait me None (upd_mtx m (\<lambda>k. k\<lparr>km_owner := Some me\<rparr>) y))
             \<lparr>sy_stats := (sy_stats y)\<lparr>sy_acquires := sy_acquires (sy_stats y) + 1\<rparr>\<rparr>)
         else if would_deadlock me m y
         then Some (Return (- SYNC_DEADLK),
           (set_lock_wait me None y)
             \<lparr>sy_stats := (sy_stats y)\<lparr>sy_deadlocks := sy_deadlocks (sy_stats y) + 1\<rparr>\<rparr>)
         else
           let y1 = set_lock_wait me (Some m) y;
               y2 = y1\<lparr>sy_stats := (sy_stats y1)\<lparr>sy_blocks := sy_blocks (sy_stats y1) + 1\<rparr>\<rparr>;
               (h, s) = wq_park me (km_wq (sy_mtx y2 ! m)) (sy_sched y2)
           in Some (Parked, upd_mtx m (\<lambda>k. k\<lparr>km_wq := h\<rparr>) (y2\<lparr>sy_sched := s\<rparr>)))"

definition kmutex_unlock :: "nat \<Rightarrow> nat \<Rightarrow> sync \<Rightarrow> sync" where
  "kmutex_unlock c m y =
    (if km_owner (sy_mtx y ! m) \<noteq> current_task c (sy_sched y) then y
     else
       let h = km_wq (sy_mtx y ! m);
           y1 = upd_mtx m (\<lambda>k. k\<lparr>km_owner := None, km_wq := None\<rparr>) y
       in wake_batch c h y1)"

definition kmutex_owned_by_current :: "nat \<Rightarrow> nat \<Rightarrow> sync \<Rightarrow> bool" where
  "kmutex_owned_by_current c m y =
    (current_task c (sy_sched y) \<noteq> None \<and> km_owner (sy_mtx y ! m) = current_task c (sy_sched y))"

definition kmutex_first_waiter :: "nat \<Rightarrow> sync \<Rightarrow> nat option" where
  "kmutex_first_waiter m y = km_wq (sy_mtx y ! m)"

section \<open>Semaphores\<close>

definition upd_sem :: "nat \<Rightarrow> (ksem \<Rightarrow> ksem) \<Rightarrow> sync \<Rightarrow> sync" where
  "upd_sem i f y = y\<lparr>sy_sem := (sy_sem y)[i := f (sy_sem y ! i)]\<rparr>"

definition ksem_init :: "nat \<Rightarrow> string option \<Rightarrow> int \<Rightarrow> int \<Rightarrow> sync \<Rightarrow> sync" where
  "ksem_init i name initial mx y =
    (let m = (if mx < 1 then 1 else mx);
         y1 = upd_sem i (\<lambda>_. \<lparr>ks_name = (case name of None \<Rightarrow> ''ksem'' | Some n \<Rightarrow> n),
                ks_count = (if initial < 0 then 0 else if initial > m then m else initial), ks_max = m, ks_wq = None\<rparr>) y
     in y1\<lparr>sy_sem_reg := reg_add (sy_sem_reg y1) i\<rparr>)"

text \<open>One iteration of \<open>ksem_wait\<close>: the flag says whether it returned with the count taken.\<close>

definition ksem_wait :: "nat \<Rightarrow> nat \<Rightarrow> sync \<Rightarrow> (bool \<times> sync) option" where
  "ksem_wait c i y =
    (case current_task c (sy_sched y) of
       None \<Rightarrow> None
     | Some me \<Rightarrow>
         if 0 < ks_count (sy_sem y ! i)
         then Some (True, (upd_sem i (\<lambda>k. k\<lparr>ks_count := ks_count k - 1\<rparr>) y)
                \<lparr>sy_stats := (sy_stats y)\<lparr>sy_acquires := sy_acquires (sy_stats y) + 1\<rparr>\<rparr>)
         else
           let y1 = y\<lparr>sy_stats := (sy_stats y)\<lparr>sy_blocks := sy_blocks (sy_stats y) + 1\<rparr>\<rparr>;
               (h, s) = wq_park me (ks_wq (sy_sem y1 ! i)) (sy_sched y1)
           in Some (False, upd_sem i (\<lambda>k. k\<lparr>ks_wq := h\<rparr>) (y1\<lparr>sy_sched := s\<rparr>)))"

definition ksem_trywait :: "nat \<Rightarrow> sync \<Rightarrow> int \<times> sync" where
  "ksem_trywait i y =
    (if ks_count (sy_sem y ! i) \<le> 0 then (-11, y)
     else (0, (upd_sem i (\<lambda>k. k\<lparr>ks_count := ks_count k - 1\<rparr>) y)
                \<lparr>sy_stats := (sy_stats y)\<lparr>sy_acquires := sy_acquires (sy_stats y) + 1\<rparr>\<rparr>))"

definition ksem_post :: "nat \<Rightarrow> nat \<Rightarrow> sync \<Rightarrow> sync" where
  "ksem_post c i y =
    (let y1 = (if ks_count (sy_sem y ! i) < ks_max (sy_sem y ! i)
               then upd_sem i (\<lambda>k. k\<lparr>ks_count := ks_count k + 1\<rparr>) y else y);
         h = ks_wq (sy_sem y1 ! i)
     in wake_batch c h (upd_sem i (\<lambda>k. k\<lparr>ks_wq := None\<rparr>) y1))"

definition sync_stats_get :: "sync \<Rightarrow> sync_stats" where
  "sync_stats_get y = sy_stats y"

end
