(* ===== verification/Ipc.thy ===== *)
theory Ipc
  imports Sched
begin

text \<open>
  Pipes and the poll plumbing (\<open>kernel/ipc.c\<close>). A pipe is a heap object found by its index;
  a freed object is \<open>None\<close>. Calls run under \<open>ipc_lock\<close> and are atomic; a blocking call is
  given one iteration of its loop at a time, whose outcome is a return value or that the
  caller has parked. The outer \<open>None\<close> is a fault (no current task, a freed object) or a copy
  loop that does not end.
\<close>

abbreviation PIPE_BUF_CAP :: nat where "PIPE_BUF_CAP \<equiv> 4096"
abbreviation PIPES_MAX :: nat where "PIPES_MAX \<equiv> 8"

abbreviation POLLIN :: u32 where "POLLIN \<equiv> 0x001"
abbreviation POLLOUT :: u32 where "POLLOUT \<equiv> 0x004"
abbreviation POLLHUP :: u32 where "POLLHUP \<equiv> 0x010"

record pipe =
  pp_buf :: "u8 list"
  pp_head :: nat
  pp_len :: nat
  pp_readers :: u32
  pp_writers :: u32
  pp_rd_dead :: bool
  pp_wr_dead :: bool
  pp_rq :: "nat option"
  pp_wq :: "nat option"

record ipc =
  ip_sched :: sched
  ip_poll_wq :: "nat option"
  ip_pipe_used :: "bool list"
  ip_pipes :: "pipe option list"
  ip_wakes :: u64
  ip_bytes_flowed :: u64

datatype 'r io_result = Done 'r | Blocked

section \<open>Parking and waking\<close>

definition ipc_park :: "nat \<Rightarrow> nat option \<Rightarrow> sched \<Rightarrow> (nat option \<times> sched) option" where
  "ipc_park c h s = (case current_task c s of None \<Rightarrow> None | Some i \<Rightarrow> Some (wq_park i h s))"

definition ipc_wake :: "nat option \<Rightarrow> sched \<Rightarrow> nat option \<times> sched" where
  "ipc_wake h s = (None, snd (wake_loop None h False s))"

definition ipc_wake_pollers :: "ipc \<Rightarrow> ipc" where
  "ipc_wake_pollers x =
    (let (h, s) = ipc_wake (ip_poll_wq x) (ip_sched x)
     in x\<lparr>ip_wakes := ip_wakes x + 1, ip_poll_wq := h, ip_sched := s\<rparr>)"

text \<open>\<open>timeout\<close> is the signed 64-bit argument; the deadline is computed modulo \<open>2\<^sup>6\<^sup>4\<close>.\<close>

definition ipc_poll_park :: "nat \<Rightarrow> int \<Rightarrow> ipc \<Rightarrow> ipc option" where
  "ipc_poll_park c timeout_ms x =
    (case current_task c (ip_sched x) of
       None \<Rightarrow> None
     | Some i \<Rightarrow>
         let wake = (if timeout_ms < 0 then - 1
                     else jiffies (ip_sched x) + (of_int timeout_ms * TIME_HZ) div 1000 + 1)
         in Some (x\<lparr>ip_poll_wq := Some i,
              ip_sched := upd_task i (\<lambda>t. t\<lparr>t_wq_next := ip_poll_wq x, t_state := TASK_SLEEPING, t_wake_at := wake\<rparr>)
                            (ip_sched x)\<rparr>))"

section \<open>Pipe contents\<close>

partial_function (option) pipe_copy_out :: "pipe \<Rightarrow> nat \<Rightarrow> u8 list \<Rightarrow> (u8 list \<times> pipe) option" where
  "pipe_copy_out p n dst =
    (if n = 0 then Some (dst, p)
     else
       let seg = min n (min (pp_len p) (PIPE_BUF_CAP - pp_head p))
       in pipe_copy_out
            (p\<lparr>pp_head := (pp_head p + seg) mod PIPE_BUF_CAP, pp_len := pp_len p - seg\<rparr>)
            (n - seg) (dst @ take seg (drop (pp_head p) (pp_buf p))))"

partial_function (option) pipe_copy_in :: "pipe \<Rightarrow> u8 list \<Rightarrow> pipe option" where
  "pipe_copy_in p src =
    (if src = [] then Some p
     else
       let tail = (pp_head p + pp_len p) mod PIPE_BUF_CAP;
           seg = min (length src) (min (PIPE_BUF_CAP - pp_len p) (PIPE_BUF_CAP - tail))
       in pipe_copy_in
            (p\<lparr>pp_buf := take tail (pp_buf p) @ take seg src @ drop (tail + seg) (pp_buf p),
               pp_len := pp_len p + seg\<rparr>)
            (drop seg src))"

section \<open>Reading and writing\<close>

definition set_pipe :: "nat \<Rightarrow> pipe \<Rightarrow> ipc \<Rightarrow> ipc" where
  "set_pipe k p x = x\<lparr>ip_pipes := (ip_pipes x)[k := Some p]\<rparr>"

text \<open>\<open>buf\<close> says whether the buffer pointer is not null; the result carries the bytes read.\<close>

definition pipe_read :: "nat \<Rightarrow> nat \<Rightarrow> bool \<Rightarrow> nat \<Rightarrow> ipc \<Rightarrow> ((int \<times> u8 list) io_result \<times> ipc) option" where
  "pipe_read c k buf len x =
    (if len = 0 \<or> \<not> buf then Some (Done (0, []), x)
     else case ip_pipes x ! k of
       None \<Rightarrow> None
     | Some p \<Rightarrow>
         if pp_len p \<noteq> 0 then
           (let n = (if pp_len p < len then pp_len p else len)
            in case pipe_copy_out p n [] of
                 None \<Rightarrow> None
               | Some (dat, p1) \<Rightarrow>
                   let (h, s) = ipc_wake (pp_wq p1) (ip_sched x);
                       x1 = set_pipe k (p1\<lparr>pp_wq := h\<rparr>) (x\<lparr>ip_sched := s\<rparr>);
                       x2 = x1\<lparr>ip_bytes_flowed := ip_bytes_flowed x1 + of_nat n\<rparr>
                   in Some (Done (int n, dat), ipc_wake_pollers x2))
         else if pp_writers p = 0 \<or> pp_wr_dead p then Some (Done (0, []), x)
         else
           (case ipc_park c (pp_rq p) (ip_sched x) of
              None \<Rightarrow> None
            | Some (h, s) \<Rightarrow> Some (Blocked, set_pipe k (p\<lparr>pp_rq := h\<rparr>) (x\<lparr>ip_sched := s\<rparr>))))"

text \<open>\<open>src\<close> is the caller's buffer, \<open>None\<close> when null; \<open>len\<close> is its length.\<close>

definition pipe_write :: "nat \<Rightarrow> nat \<Rightarrow> u8 list option \<Rightarrow> nat \<Rightarrow> ipc \<Rightarrow> (int io_result \<times> ipc) option" where
  "pipe_write c k src len x =
    (if len = 0 then Some (Done 0, x)
     else case src of
       None \<Rightarrow> Some (Done (- EINVAL), x)
     | Some bs \<Rightarrow>
         (case ip_pipes x ! k of
            None \<Rightarrow> None
          | Some p \<Rightarrow>
              if pp_readers p = 0 \<or> pp_rd_dead p then Some (Done (- EPIPE), x)
              else if pp_len p < PIPE_BUF_CAP then
                (let freecap = PIPE_BUF_CAP - pp_len p;
                     done = (if freecap < len then freecap else len)
                 in case pipe_copy_in p (take done bs) of
                      None \<Rightarrow> None
                    | Some p1 \<Rightarrow>
                        let (h, s) = ipc_wake (pp_rq p1) (ip_sched x);
                            x1 = set_pipe k (p1\<lparr>pp_rq := h\<rparr>) (x\<lparr>ip_sched := s\<rparr>);
                            x2 = x1\<lparr>ip_bytes_flowed := ip_bytes_flowed x1 + of_nat done\<rparr>
                        in Some (Done (int done), ipc_wake_pollers x2))
              else
                (case ipc_park c (pp_wq p) (ip_sched x) of
                   None \<Rightarrow> None
                 | Some (h, s) \<Rightarrow> Some (Blocked, set_pipe k (p\<lparr>pp_wq := h\<rparr>) (x\<lparr>ip_sched := s\<rparr>)))))"

definition pipe_poll :: "pipe \<Rightarrow> u32" where
  "pipe_poll p =
    (let m0 = 0;
         m1 = (if pp_len p \<noteq> 0 then m0 OR POLLIN else m0);
         m2 = (if pp_writers p = 0 \<or> pp_wr_dead p then m1 OR (POLLIN OR POLLHUP) else m1);
         m3 = (if pp_len p < PIPE_BUF_CAP \<and> pp_readers p \<noteq> 0 \<and> \<not> pp_rd_dead p then m2 OR POLLOUT else m2)
     in if pp_readers p = 0 \<or> pp_rd_dead p then m3 OR POLLHUP else m3)"

section \<open>Creation and destruction\<close>

definition pipe_destroy :: "nat \<Rightarrow> bool \<Rightarrow> ipc \<Rightarrow> ipc option" where
  "pipe_destroy k was_reader x =
    (case ip_pipes x ! k of
       None \<Rightarrow> None
     | Some p \<Rightarrow>
         let p1 = (if was_reader then p\<lparr>pp_rd_dead := True, pp_readers := pp_readers p - 1\<rparr>
                   else p\<lparr>pp_wr_dead := True, pp_writers := pp_writers p - 1\<rparr>);
             (h1, s1) = ipc_wake (pp_rq p1) (ip_sched x);
             (h2, s2) = ipc_wake (pp_wq p1) s1;
             p2 = p1\<lparr>pp_rq := h1, pp_wq := h2\<rparr>;
             x1 = x\<lparr>ip_sched := s2\<rparr>;
             x2 = (if pp_readers p2 = 0 \<and> pp_writers p2 = 0 \<and> pp_rd_dead p2 \<and> pp_wr_dead p2 \<and> pp_len p2 = 0
                   then x1\<lparr>ip_pipes := (ip_pipes x1)[k := None]\<rparr>
                   else set_pipe k p2 x1)
         in Some (ipc_wake_pollers x2))"

fun first_free :: "bool list \<Rightarrow> nat option" where
  "first_free [] = None"
| "first_free (u # us) = (if u then map_option Suc (first_free us) else Some 0)"

text \<open>
  The calls to \<open>kzalloc\<close>, \<open>ipc_anon_vnode\<close> and \<open>file_alloc\<close> may each fail; the five flags
  say whether they succeed. On the unwind path an end whose vnode exists is destroyed, by
  closing its file or by dropping the vnode. The result is the index of the new pipe.
\<close>

record pipe_allocs =
  al_pipe :: bool
  al_rvn :: bool
  al_wvn :: bool
  al_rf :: bool
  al_wf :: bool

definition new_pipe :: pipe where
  "new_pipe = \<lparr>pp_buf = replicate PIPE_BUF_CAP 0, pp_head = 0, pp_len = 0, pp_readers = 1, pp_writers = 1,
     pp_rd_dead = False, pp_wr_dead = False, pp_rq = None, pp_wq = None\<rparr>"

definition pipe_make :: "pipe_allocs \<Rightarrow> ipc \<Rightarrow> ((int + nat) \<times> ipc) option" where
  "pipe_make al x =
    (case first_free (ip_pipe_used x) of
       None \<Rightarrow> Some (Inl (- ENFILE), x)
     | Some slot \<Rightarrow>
         if \<not> al_pipe al then Some (Inl (- ENOMEM), x)
         else
           let k = length (ip_pipes x);
               x1 = x\<lparr>ip_pipe_used := (ip_pipe_used x)[slot := True], ip_pipes := ip_pipes x @ [Some new_pipe]\<rparr>
           in if al_rvn al \<and> al_wvn al \<and> al_rf al \<and> al_wf al then Some (Inr k, x1)
              else case (if al_rvn al then pipe_destroy k True x1 else Some x1) of
                None \<Rightarrow> None
              | Some x2 \<Rightarrow>
                  (case (if al_wvn al then pipe_destroy k False x2 else Some x2) of
                     None \<Rightarrow> None
                   | Some x3 \<Rightarrow> Some (Inl (- ENOMEM), x3\<lparr>ip_pipe_used := (ip_pipe_used x3)[slot := False]\<rparr>)))"

definition pipe_readable_bytes_left :: "nat \<Rightarrow> ipc \<Rightarrow> nat option" where
  "pipe_readable_bytes_left k x = map_option pp_len (ip_pipes x ! k)"

section \<open>The byte stream\<close>

definition pipe_inv :: "pipe \<Rightarrow> bool" where
  "pipe_inv p \<longleftrightarrow> length (pp_buf p) = PIPE_BUF_CAP \<and> pp_head p < PIPE_BUF_CAP \<and> pp_len p \<le> PIPE_BUF_CAP"

definition pipe_bytes :: "pipe \<Rightarrow> u8 list" where
  "pipe_bytes p = ring_list (pp_buf p) (pp_head p) (pp_len p)"

lemma length_pipe_bytes [simp]: "length (pipe_bytes p) = pp_len p"
  by (simp add: pipe_bytes_def)

text \<open>One segment copied out: the ring loses its first bytes.\<close>

lemma pipe_drop_segment:
  assumes inv: "pipe_inv p" and seg: "seg \<le> pp_len p" "seg \<le> PIPE_BUF_CAP - pp_head p"
  defines "p' \<equiv> p\<lparr>pp_head := (pp_head p + seg) mod PIPE_BUF_CAP, pp_len := pp_len p - seg\<rparr>"
  shows "pipe_inv p' \<and> pipe_bytes p = take seg (drop (pp_head p) (pp_buf p)) @ pipe_bytes p' \<and>
    length (take seg (drop (pp_head p) (pp_buf p))) = seg"
proof -
  have len: "length (pp_buf p) = PIPE_BUF_CAP" "pp_head p < PIPE_BUF_CAP" "pp_len p \<le> PIPE_BUF_CAP"
    using inv by (simp_all add: pipe_inv_def)
  have "ring_list (pp_buf p) (pp_head p) seg = take seg (drop (pp_head p) (pp_buf p))"
    by (rule ring_list_segment) (use len seg in simp)
  then have "pipe_bytes p = take seg (drop (pp_head p) (pp_buf p)) @ pipe_bytes p'"
    using ring_list_split [OF seg(1), of "pp_buf p" "pp_head p"] len(1) by (simp add: pipe_bytes_def p'_def)
  moreover have "pipe_inv p'" using len by (simp add: pipe_inv_def p'_def)
  ultimately show ?thesis using len seg by simp
qed

lemma pipe_copy_out_gives:
  assumes "pipe_inv p" and "n \<le> pp_len p"
  shows "\<exists>h. pipe_copy_out p n dst = Some (dst @ take n (pipe_bytes p), p\<lparr>pp_head := h, pp_len := pp_len p - n\<rparr>) \<and>
    pipe_inv (p\<lparr>pp_head := h, pp_len := pp_len p - n\<rparr>) \<and>
    pipe_bytes (p\<lparr>pp_head := h, pp_len := pp_len p - n\<rparr>) = drop n (pipe_bytes p)"
  using assms
proof (induction n arbitrary: p dst rule: less_induct)
  case (less n)
  show ?case
  proof (cases "n = 0")
    case True
    then show ?thesis
      using less.prems by (intro exI [of _ "pp_head p"]) (simp add: pipe_copy_out.simps)
  next
    case False
    define seg where "seg = min n (min (pp_len p) (PIPE_BUF_CAP - pp_head p))"
    let ?out = "take seg (drop (pp_head p) (pp_buf p))"
    let ?p = "p\<lparr>pp_head := (pp_head p + seg) mod PIPE_BUF_CAP, pp_len := pp_len p - seg\<rparr>"
    have "pp_head p < PIPE_BUF_CAP" using less.prems(1) by (simp add: pipe_inv_def)
    then have seg: "0 < seg" "seg \<le> n" "seg \<le> pp_len p" "seg \<le> PIPE_BUF_CAP - pp_head p"
      using False less.prems(2) by (simp_all add: seg_def)
    note d = pipe_drop_segment [OF less.prems(1) seg(3,4)]
    obtain h where h: "pipe_copy_out ?p (n - seg) (dst @ ?out) =
        Some ((dst @ ?out) @ take (n - seg) (pipe_bytes ?p), ?p\<lparr>pp_head := h, pp_len := pp_len ?p - (n - seg)\<rparr>)"
      "pipe_inv (?p\<lparr>pp_head := h, pp_len := pp_len ?p - (n - seg)\<rparr>)"
      "pipe_bytes (?p\<lparr>pp_head := h, pp_len := pp_len ?p - (n - seg)\<rparr>) = drop (n - seg) (pipe_bytes ?p)"
      using less.IH [of "n - seg" ?p "dst @ ?out"] seg d less.prems(2) by fastforce
    have rec: "?p\<lparr>pp_head := h, pp_len := pp_len ?p - (n - seg)\<rparr> = p\<lparr>pp_head := h, pp_len := pp_len p - n\<rparr>"
      using seg less.prems(2) by simp
    have "pipe_copy_out p n dst = pipe_copy_out ?p (n - seg) (dst @ ?out)"
      using False by (subst pipe_copy_out.simps) (simp add: Let_def seg_def)
    moreover have "take n (pipe_bytes p) = ?out @ take (n - seg) (pipe_bytes ?p)"
      and "drop n (pipe_bytes p) = drop (n - seg) (pipe_bytes ?p)"
      using d seg(2) by (metis take_append take_all, metis drop_append drop_all append_Nil)
    ultimately show ?thesis using h unfolding rec by (intro exI [of _ h]) simp
  qed
qed

text \<open>One segment copied in: the ring gains its bytes at the end.\<close>

lemma pipe_append_segment:
  assumes inv: "pipe_inv p" and seg: "tail = (pp_head p + pp_len p) mod PIPE_BUF_CAP"
    "length bs \<le> PIPE_BUF_CAP - pp_len p" "length bs \<le> PIPE_BUF_CAP - tail"
  defines "p' \<equiv> p\<lparr>pp_buf := take tail (pp_buf p) @ bs @ drop (tail + length bs) (pp_buf p), pp_len := pp_len p + length bs\<rparr>"
  shows "pipe_inv p' \<and> pipe_bytes p' = pipe_bytes p @ bs"
proof -
  have len: "length (pp_buf p) = PIPE_BUF_CAP" "pp_head p < PIPE_BUF_CAP" "pp_len p \<le> PIPE_BUF_CAP"
    using inv by (simp_all add: pipe_inv_def)
  have tail: "tail < PIPE_BUF_CAP" using seg(1) by simp
  have len': "length (pp_buf p') = PIPE_BUF_CAP" using len tail seg(3) by (simp add: p'_def)
  have at: "pp_buf p' ! i = (if tail \<le> i \<and> i < tail + length bs then bs ! (i - tail) else pp_buf p ! i)"
    if "i < PIPE_BUF_CAP" for i
    using that len tail seg(3) by (auto simp: p'_def nth_append)
  have "pipe_bytes p' ! i = (pipe_bytes p @ bs) ! i" if i: "i < pp_len p + length bs" for i
  proof (cases "i < pp_len p")
    case True
    have "\<not> (tail \<le> (pp_head p + i) mod PIPE_BUF_CAP \<and> (pp_head p + i) mod PIPE_BUF_CAP < tail + length bs)"
    proof
      assume a: "tail \<le> (pp_head p + i) mod PIPE_BUF_CAP \<and> (pp_head p + i) mod PIPE_BUF_CAP < tail + length bs"
      then obtain j where j: "j < length bs" "(pp_head p + i) mod PIPE_BUF_CAP = tail + j"
        by (metis add_less_cancel_left le_iff_add)
      then have "(pp_head p + i) mod PIPE_BUF_CAP = (pp_head p + (pp_len p + j)) mod PIPE_BUF_CAP"
        using seg(1,3) tail by (metis add.assoc mod_add_left_eq mod_mod_trivial)
      then have "i = pp_len p + j"
        using mod_add_cancel_less [of i PIPE_BUF_CAP "pp_len p + j" "pp_head p"] True len seg(2) j by linarith
      with True show False by simp
    qed
    then have "pp_buf p' ! ((pp_head p + i) mod PIPE_BUF_CAP) = pp_buf p ! ((pp_head p + i) mod PIPE_BUF_CAP)"
      using at [of "(pp_head p + i) mod PIPE_BUF_CAP"] by (auto split: if_splits)
    moreover have "pipe_bytes p' ! i = pp_buf p' ! ((pp_head p + i) mod PIPE_BUF_CAP)"
      using i len' by (simp add: pipe_bytes_def nth_ring_list) (simp add: p'_def nth_ring_list)
    ultimately show ?thesis
      using True len by (simp add: pipe_bytes_def nth_ring_list nth_append)
  next
    case False
    then obtain j where j: "i = pp_len p + j" using le_Suc_ex not_less by blast
    with i have jl: "j < length bs" by simp
    have "(pp_head p + i) mod PIPE_BUF_CAP = (tail + j) mod PIPE_BUF_CAP"
      unfolding seg(1) mod_add_left_eq j by (simp add: add.assoc)
    then have "(pp_head p + i) mod PIPE_BUF_CAP = tail + j" using jl seg(3) tail by simp
    moreover have "pipe_bytes p' ! i = pp_buf p' ! ((pp_head p + i) mod PIPE_BUF_CAP)"
      using i len' by (simp add: pipe_bytes_def nth_ring_list) (simp add: p'_def nth_ring_list)
    moreover have "pp_buf p' ! (tail + j) = bs ! j" using at [of "tail + j"] jl seg(3) tail by simp
    ultimately show ?thesis by (simp add: nth_append j)
  qed
  then have "pipe_bytes p' = pipe_bytes p @ bs"
    by (intro nth_equalityI) (simp_all add: p'_def)
  moreover have "pipe_inv p'" using len' len seg(2) by (simp add: pipe_inv_def p'_def)
  ultimately show ?thesis by blast
qed

lemma pipe_copy_in_gives:
  assumes "pipe_inv p" and "length src \<le> PIPE_BUF_CAP - pp_len p"
  shows "\<exists>b. pipe_copy_in p src = Some (p\<lparr>pp_buf := b, pp_len := pp_len p + length src\<rparr>) \<and>
    pipe_inv (p\<lparr>pp_buf := b, pp_len := pp_len p + length src\<rparr>) \<and>
    pipe_bytes (p\<lparr>pp_buf := b, pp_len := pp_len p + length src\<rparr>) = pipe_bytes p @ src"
  using assms
proof (induction "length src" arbitrary: p src rule: less_induct)
  case less
  show ?case
  proof (cases "src = []")
    case True
    with less.prems show ?thesis by (intro exI [of _ "pp_buf p"]) (simp add: pipe_copy_in.simps)
  next
    case False
    let ?tail = "(pp_head p + pp_len p) mod PIPE_BUF_CAP"
    define seg where "seg = min (length src) (min (PIPE_BUF_CAP - pp_len p) (PIPE_BUF_CAP - ?tail))"
    let ?b = "take ?tail (pp_buf p) @ take seg src @ drop (?tail + seg) (pp_buf p)"
    let ?p = "p\<lparr>pp_buf := ?b, pp_len := pp_len p + seg\<rparr>"
    have tail: "?tail < PIPE_BUF_CAP" and "0 < length src" using False by simp_all
    moreover have "pp_len p < PIPE_BUF_CAP" using \<open>0 < length src\<close> less.prems(2) by linarith
    ultimately have pos: "0 < seg" "seg \<le> length src" "seg \<le> PIPE_BUF_CAP - pp_len p" "seg \<le> PIPE_BUF_CAP - ?tail"
      by (simp_all add: seg_def)
    have lt: "length (take seg src) = seg" using pos by simp
    have app: "pipe_inv ?p \<and> pipe_bytes ?p = pipe_bytes p @ take seg src"
      using pipe_append_segment [OF less.prems(1) refl, of "take seg src"] pos unfolding lt by simp
    have "length (drop seg src) < length src" using pos by simp
    moreover have "length (drop seg src) \<le> PIPE_BUF_CAP - pp_len ?p" using less.prems(2) pos by auto
    ultimately obtain b where h:
      "pipe_copy_in ?p (drop seg src) = Some (?p\<lparr>pp_buf := b, pp_len := pp_len ?p + length (drop seg src)\<rparr>)"
      "pipe_inv (?p\<lparr>pp_buf := b, pp_len := pp_len ?p + length (drop seg src)\<rparr>)"
      "pipe_bytes (?p\<lparr>pp_buf := b, pp_len := pp_len ?p + length (drop seg src)\<rparr>) = pipe_bytes ?p @ drop seg src"
      using less.hyps [of "drop seg src" ?p] app by blast
    have rec: "?p\<lparr>pp_buf := b, pp_len := pp_len ?p + length (drop seg src)\<rparr> =
        p\<lparr>pp_buf := b, pp_len := pp_len p + length src\<rparr>"
      using pos by simp
    have "pipe_copy_in p src = pipe_copy_in ?p (drop seg src)"
      using False by (subst pipe_copy_in.simps) (simp add: Let_def seg_def)
    moreover have "pipe_bytes ?p @ drop seg src = pipe_bytes p @ src" using app by simp
    ultimately show ?thesis using h unfolding rec by (intro exI [of _ b]) simp
  qed
qed

end
