(* ===== verification/Sched_Machine.thy ===== *)
theory Sched_Machine
  imports Sync Ipc
begin

text \<open>
  The two cpus, the task table, the wait queues and the poll queue as one machine. A cpu either runs its
  current task or is on its scheduler stack; the lock that a parking task holds across the
  switch makes "park" and "landed" one step. The safety property is the one the header of
  \<open>kernel/sched.c\<close> argues for: no task ever runs on two cpus. It needs two orders the
  code does not enforce, a wake of the poll queue before its tasks run on and the freeing of a
  slot after its cpu left it; the flag of a step says whether it keeps them, and two runs show
  that without them the property fails. The wait queues that \<open>drivers/input.c\<close>,
  \<open>kernel/unixsock.c\<close> and \<open>net/\<close> keep by themselves are not steps of this machine;
  \<open>input.c\<close> and \<open>udp.c\<close> let the lock go before they switch, so there parking is not one step.
\<close>

section \<open>What the scheduler picks\<close>

lemma better_asym: "better a b \<Longrightarrow> \<not> better b a"
  by (auto simp: better_def split: if_splits)

lemma better_neg_trans: "\<not> better a b \<Longrightarrow> \<not> better b c \<Longrightarrow> \<not> better a c"
  by (auto simp: better_def split: if_splits)

lemma pick_from_Some:
  assumes "case best of None \<Rightarrow> True | Some b \<Rightarrow> t_state (task_at s b) = TASK_READY \<and>
      (\<forall>j \<in> set seen. t_state (task_at s j) = TASK_READY \<longrightarrow> \<not> better (task_at s j) (task_at s b)) \<and> b \<in> set seen"
    and "best = None \<Longrightarrow> \<forall>j \<in> set seen. t_state (task_at s j) \<noteq> TASK_READY"
    and "pick_from s ks best = Some r"
  shows "t_state (task_at s r) = TASK_READY \<and> r \<in> set seen \<union> set ks \<and>
    (\<forall>j \<in> set seen \<union> set ks. t_state (task_at s j) = TASK_READY \<longrightarrow> \<not> better (task_at s j) (task_at s r))"
  using assms
proof (induction s ks best arbitrary: seen rule: pick_from.induct)
  case (1 s best)
  then show ?case by (auto split: option.splits)
next
  case (2 s i ks best)
  show ?case
  proof (cases "t_state (task_at s i) = TASK_READY")
    case False
    with 2(1) [of "seen @ [i]"] 2(4,5,6) show ?thesis by (auto split: option.splits)
  next
    case True
    note ready = this
    show ?thesis
    proof (cases best)
      case None
      with ready 2(2) [of "seen @ [i]"] 2(5,6) show ?thesis
        by (auto simp: better_def)
    next
      case (Some b)
      let ?b = "if better (task_at s i) (task_at s b) then Some i else Some b"
      have "t_state (task_at s r) = TASK_READY \<and> r \<in> set (seen @ [i]) \<union> set ks \<and>
        (\<forall>j \<in> set (seen @ [i]) \<union> set ks. t_state (task_at s j) = TASK_READY \<longrightarrow> \<not> better (task_at s j) (task_at s r))"
      proof (rule 2(3))
        show "\<not> t_state (task_at s i) \<noteq> TASK_READY" using ready by simp
        show "best = Some b" by (rule Some)
        show "pick_from s ks ?b = Some r" using 2(6) ready Some by simp
        show "?b = None \<Longrightarrow> \<forall>j\<in>set (seen @ [i]). t_state (task_at s j) \<noteq> TASK_READY"
          by (simp split: if_splits)
        show "case ?b of None \<Rightarrow> True | Some b \<Rightarrow> t_state (task_at s b) = TASK_READY \<and>
          (\<forall>j \<in> set (seen @ [i]). t_state (task_at s j) = TASK_READY \<longrightarrow> \<not> better (task_at s j) (task_at s b)) \<and>
          b \<in> set (seen @ [i])"
        proof (cases "better (task_at s i) (task_at s b)")
          case True
          then have "\<not> better (task_at s i) (task_at s i)" "\<not> better (task_at s b) (task_at s i)"
            using better_asym by blast+
          moreover have "\<not> better (task_at s j) (task_at s i)"
            if "j \<in> set seen" "t_state (task_at s j) = TASK_READY" for j
            using better_neg_trans [of "task_at s j" "task_at s b" "task_at s i"] calculation(2) that 2(4) Some
            by simp
          ultimately show ?thesis using True ready by simp
        next
          case False
          with 2(4) Some ready show ?thesis by auto
        qed
      qed
      then show ?thesis by auto
    qed
  qed
qed

lemma pick_from_None:
  "pick_from s ks best = None \<longleftrightarrow> best = None \<and> (\<forall>j \<in> set ks. t_state (task_at s j) \<noteq> TASK_READY)"
  by (induction s ks best rule: pick_from.induct) (auto split: option.splits)

lemma pick_next_Some:
  assumes "pick_next s = Some i"
  shows "i < length (tasks s)" and "t_state (task_at s i) = TASK_READY"
    and "\<And>j. j < length (tasks s) \<Longrightarrow> t_state (task_at s j) = TASK_READY \<Longrightarrow> \<not> better (task_at s j) (task_at s i)"
  using pick_from_Some [where best = None and seen = "[]" and s = s and ks = "[0..<length (tasks s)]" and r = i] assms
  by (auto simp: pick_next_def)

lemma pick_next_None:
  "pick_next s = None \<longleftrightarrow> (\<forall>j < length (tasks s). t_state (task_at s j) \<noteq> TASK_READY)"
  by (auto simp: pick_next_def pick_from_None)

section \<open>The machine\<close>

record machine =
  m_sched :: sched
  m_on :: "bool list"
  m_wq :: "nat \<Rightarrow> nat option"
  m_poll :: "nat option"

definition machine_init :: machine where
  "machine_init = \<lparr>m_sched = sched_init, m_on = replicate NR_CPUS False, m_wq = (\<lambda>_. None), m_poll = None\<rparr>"

text \<open>\<open>mark_zombie\<close> marks the tasks of a dying process dead, whatever they are doing.\<close>

definition mark_dead :: "nat \<Rightarrow> sched \<Rightarrow> sched" where
  "mark_dead i s =
    (if t_state (task_at s i) \<noteq> TASK_UNUSED then upd_task i (\<lambda>t. t\<lparr>t_state := TASK_DEAD\<rparr>) s else s)"

text \<open>A task that parks leaves its cpu to the scheduler.\<close>

definition parked :: "nat \<Rightarrow> sched \<Rightarrow> machine \<Rightarrow> machine" where
  "parked c s m = m\<lparr>m_sched := sched_landed c s, m_on := (m_on m)[c := False]\<rparr>"

text \<open>The poll queue of \<open>kernel/ipc.c\<close> is a queue of its own: its tasks sleep with a deadline, and the tick
  that wakes one leaves it linked. A wake that finds a task that is awake makes it ready whatever
  it is doing.\<close>

definition poll_ipc :: "machine \<Rightarrow> ipc" where
  "poll_ipc m = \<lparr>ip_sched = m_sched m, ip_poll_wq = m_poll m, ip_pipe_used = [], ip_pipes = [], ip_wakes = 0, ip_bytes_flowed = 0\<rparr>"

definition poll_woken :: "machine \<Rightarrow> machine" where
  "poll_woken m = m\<lparr>m_sched := ip_sched (ipc_wake_pollers (poll_ipc m)), m_poll := ip_poll_wq (ipc_wake_pollers (poll_ipc m))\<rparr>"

definition in_queue :: "machine \<Rightarrow> nat \<Rightarrow> bool" where
  "in_queue m i \<longleftrightarrow> (\<exists>q ks. wq_chain (m_sched m) (m_wq m q) ks \<and> i \<in> set ks)"

definition pollers_off :: "machine \<Rightarrow> bool" where
  "pollers_off m \<longleftrightarrow> (\<exists>ks. wq_chain (m_sched m) (m_poll m) ks \<and> distinct ks \<and>
    (\<forall>i\<in>set ks. t_state (task_at (m_sched m) i) \<noteq> TASK_RUNNING \<and> \<not> in_queue m i))"

text \<open>A slot is handed back: \<open>reap_one\<close> and \<open>proc_thread_create\<close> free the first way,
  \<open>proc_threads_reclaim\<close> the second. Nothing in them asks whether a cpu still runs the task or
  whether a queue still links it.\<close>

definition slot_freed :: "nat \<Rightarrow> sched \<Rightarrow> sched" where
  "slot_freed i s = upd_task i (\<lambda>t. t\<lparr>t_state := TASK_UNUSED, t_fn := 0, t_arg := 0\<rparr>) s"

definition slot_reclaimed :: "nat \<Rightarrow> sched \<Rightarrow> sched" where
  "slot_reclaimed i s = upd_task i (\<lambda>t. t\<lparr>t_state := TASK_UNUSED, t_fn := 0, t_arg := 0, t_parked := False, t_kstack := 0\<rparr>) s"

definition slot_left :: "machine \<Rightarrow> nat \<Rightarrow> bool" where
  "slot_left m i \<longleftrightarrow> \<not> in_queue m i \<and> (\<forall>c < NR_CPUS. m_on m ! c \<longrightarrow> current_task c (m_sched m) \<noteq> Some i)"

text \<open>The steps are the calls, as the code makes them. The flag of a step says whether it is in order:
  the poll queue is woken while no cpu runs a task it links and no other queue links one, and a slot is freed, handed back or launched
  while no cpu runs its task and no queue links it. Every other step is in order.\<close>

inductive mstep :: "machine \<Rightarrow> bool \<Rightarrow> machine \<Rightarrow> bool" where
  dispatch: "c < NR_CPUS \<Longrightarrow> \<not> m_on m ! c \<Longrightarrow> pick_next (m_sched m) = Some i \<Longrightarrow>
     mstep m True (m\<lparr>m_sched := sched_dispatch c (m_sched m), m_on := (m_on m)[c := True]\<rparr>)"
| idle: "c < NR_CPUS \<Longrightarrow> \<not> m_on m ! c \<Longrightarrow> pick_next (m_sched m) = None \<Longrightarrow>
     mstep m True (m\<lparr>m_sched := sched_dispatch c (m_sched m)\<rparr>)"
| yield: "c < NR_CPUS \<Longrightarrow> m_on m ! c \<Longrightarrow> task_yield c (m_sched m) = Some s \<Longrightarrow> mstep m True (parked c s m)"
| exit: "c < NR_CPUS \<Longrightarrow> m_on m ! c \<Longrightarrow> task_exit c (m_sched m) = Some s \<Longrightarrow> mstep m True (parked c s m)"
| sleep: "c < NR_CPUS \<Longrightarrow> m_on m ! c \<Longrightarrow> msleep c ms (m_sched m) = Some s \<Longrightarrow> mstep m True (parked c s m)"
| block: "c < NR_CPUS \<Longrightarrow> m_on m ! c \<Longrightarrow>
     wait_sleep_when c True (m_wq m q) (m_sched m) = Some (True, h, s) \<Longrightarrow>
     mstep m True (parked c s (m\<lparr>m_wq := (m_wq m)(q := h)\<rparr>))"
| preempt: "c < NR_CPUS \<Longrightarrow> m_on m ! c \<Longrightarrow> sched_post_irq c (m_sched m) = (True, s) \<Longrightarrow> mstep m True (parked c s m)"
| wake: "c < NR_CPUS \<Longrightarrow> wait_wake_all c (m_wq m q) (m_sched m) = (h, s) \<Longrightarrow>
     mstep m True (m\<lparr>m_sched := s, m_wq := (m_wq m)(q := h)\<rparr>)"
| tick: "c < NR_CPUS \<Longrightarrow>
     mstep m True (m\<lparr>m_sched := sched_tick c ((m_sched m)\<lparr>jiffies := jiffies (m_sched m) + 1\<rparr>)\<rparr>)"
| create: "task_create name fn arg prio (m_sched m) = (r, s) \<Longrightarrow> mstep m True (m\<lparr>m_sched := s\<rparr>)"
| create_deferred: "task_create_deferred name fn arg prio (m_sched m) = (r, s) \<Longrightarrow> mstep m True (m\<lparr>m_sched := s\<rparr>)"
| launch: "task_launch slot (m_sched m) = Some s \<Longrightarrow> mstep m (slot_left m (nat slot)) (m\<lparr>m_sched := s\<rparr>)"
| set_stack: "i < MAX_TASKS \<Longrightarrow> mstep m True (m\<lparr>m_sched := upd_task i (\<lambda>t. t\<lparr>t_kstack := k, t_arg := a, t_name := n\<rparr>) (m_sched m)\<rparr>)"
| kill: "i < MAX_TASKS \<Longrightarrow> mstep m True (m\<lparr>m_sched := mark_dead i (m_sched m)\<rparr>)"
| pipe_wake: "ipc_wake (m_wq m q) (m_sched m) = (h, s) \<Longrightarrow> mstep m True (m\<lparr>m_sched := s, m_wq := (m_wq m)(q := h)\<rparr>)"
| sync_wake: "c < NR_CPUS \<Longrightarrow> sy_sched y = m_sched m \<Longrightarrow>
     mstep m True (m\<lparr>m_sched := sy_sched (wake_batch c (m_wq m q) y), m_wq := (m_wq m)(q := None)\<rparr>)"
| poll_park: "c < NR_CPUS \<Longrightarrow> m_on m ! c \<Longrightarrow> ipc_poll_park c ms (poll_ipc m) = Some x \<Longrightarrow>
     mstep m True (parked c (ip_sched x) (m\<lparr>m_poll := ip_poll_wq x\<rparr>))"
| poll_wake: "mstep m (pollers_off m) (poll_woken m)"
| free: "i < MAX_TASKS \<Longrightarrow> t_state (task_at (m_sched m) i) \<in> {TASK_DEAD, TASK_BLOCKED} \<Longrightarrow>
     mstep m (slot_left m i) (m\<lparr>m_sched := slot_freed i (m_sched m)\<rparr>)"
| reclaim: "i < MAX_TASKS \<Longrightarrow> t_state (task_at (m_sched m) i) = TASK_DEAD \<Longrightarrow>
     t_kstack (task_at (m_sched m) i) \<noteq> 0 \<Longrightarrow> t_parked (task_at (m_sched m) i) \<Longrightarrow>
     mstep m (slot_left m i) (m\<lparr>m_sched := slot_reclaimed i (m_sched m)\<rparr>)"

text \<open>The flag says that every step so far was in order.\<close>

inductive reachable :: "bool \<Rightarrow> machine \<Rightarrow> bool" where
  start: "reachable True machine_init"
| step: "reachable b m \<Longrightarrow> mstep m g m' \<Longrightarrow> reachable (b \<and> g) m'"

section \<open>The invariant\<close>

text \<open>
  It is stated over three views of the state: the state of a task, its wait-queue link, and
  the current task of a cpu; \<open>L\<close> names the tasks of each queue.
\<close>

definition shape :: "sched \<Rightarrow> bool list \<Rightarrow> bool" where
  "shape s on \<longleftrightarrow> length (tasks s) = MAX_TASKS \<and> length (cpus s) = NR_CPUS \<and> length on = NR_CPUS"

definition cpus_ok :: "(nat \<Rightarrow> task_state) \<Rightarrow> (nat \<Rightarrow> nat option) \<Rightarrow> bool list \<Rightarrow> bool" where
  "cpus_ok st cur on \<longleftrightarrow>
    (\<forall>c < NR_CPUS. on ! c \<longrightarrow> (\<exists>i < MAX_TASKS. cur c = Some i \<and> st i \<in> {TASK_RUNNING, TASK_DEAD})) \<and>
    (\<forall>c < NR_CPUS. \<forall>d < NR_CPUS. c \<noteq> d \<longrightarrow> on ! c \<longrightarrow> on ! d \<longrightarrow> cur c \<noteq> cur d) \<and>
    (\<forall>i < MAX_TASKS. st i = TASK_RUNNING \<longrightarrow> (\<exists>c < NR_CPUS. on ! c \<and> cur c = Some i))"

definition queues_ok ::
  "sched \<Rightarrow> bool list \<Rightarrow> (nat \<Rightarrow> nat option) \<Rightarrow> (nat \<Rightarrow> nat list) \<Rightarrow> bool" where
  "queues_ok s on wq L \<longleftrightarrow>
    (\<forall>q. wq_chain s (wq q) (L q) \<and> distinct (L q) \<and> (\<forall>i \<in> set (L q). st_of s i \<in> {TASK_BLOCKED, TASK_DEAD})) \<and>
    (\<forall>q r. q \<noteq> r \<longrightarrow> set (L q) \<inter> set (L r) = {}) \<and>
    (\<forall>c < NR_CPUS. \<forall>i q. on ! c \<longrightarrow> current_task c s = Some i \<longrightarrow> i \<notin> set (L q))"

definition machine_inv :: "machine \<Rightarrow> bool" where
  "machine_inv m \<longleftrightarrow> shape (m_sched m) (m_on m) \<and>
    cpus_ok (st_of (m_sched m)) (\<lambda>c. current_task c (m_sched m)) (m_on m) \<and>
    (\<exists>L. queues_ok (m_sched m) (m_on m) (m_wq m) L)"

section \<open>Every step keeps the invariant\<close>

text \<open>A change of the tables that leaves queue members blocked or dead keeps the queues.\<close>

lemma queues_ok_frame:
  assumes "queues_ok s on wq L" and "length (tasks s') = length (tasks s)"
    and "\<And>q i. i \<in> set (L q) \<Longrightarrow> nx_of s' i = nx_of s i"
    and "\<And>q i. i \<in> set (L q) \<Longrightarrow> st_of s' i \<in> {TASK_BLOCKED, TASK_DEAD}"
    and "\<And>c i q. c < NR_CPUS \<Longrightarrow> on' ! c \<Longrightarrow> current_task c s' = Some i \<Longrightarrow> i \<notin> set (L q)"
  shows "queues_ok s' on' wq L"
proof -
  have "wq_chain s' (wq q) (L q)" for q
    using assms(1-3) by (subst wq_chain_cong [of _ s' s]) (auto simp: queues_ok_def)
  with assms(1,4,5) show ?thesis unfolding queues_ok_def by blast
qed

lemma queue_member:
  assumes "queues_ok s on wq L" and "i \<in> set (L q)"
  shows "st_of s i \<in> {TASK_BLOCKED, TASK_DEAD}" and "i < length (tasks s)"
  using assms wq_chain_bounds by (auto simp: queues_ok_def)

lemma queued: "queues_ok (m_sched m) on (m_wq m) L \<Longrightarrow> i \<in> set (L q) \<Longrightarrow> in_queue m i"
  by (auto simp: queues_ok_def in_queue_def)

lemma wq_chain_unique: "wq_chain s h ks \<Longrightarrow> wq_chain s h ls \<Longrightarrow> ks = ls"
proof (induction ks arbitrary: h ls)
  case Nil
  then show ?case by (cases ls) auto
next
  case (Cons i ks)
  then show ?case by (cases ls) auto
qed

lemma not_queued: "queues_ok (m_sched m) on (m_wq m) L \<Longrightarrow> \<not> in_queue m i \<Longrightarrow> i \<notin> set (L q)"
  using queued by blast

text \<open>The current task of cpu \<open>c\<close> parks in any state but running.\<close>

lemma park_keeps_cpus:
  assumes "cpus_ok st cur on" and "length on = NR_CPUS" and "c < NR_CPUS" and "on ! c" and "cur c = Some i"
    and "\<And>j. st' j = (if j = i then X else st j)" and "X \<noteq> TASK_RUNNING"
  shows "cpus_ok st' cur (on[c := False])"
proof -
  have other: "cur d \<noteq> Some i" if "d < NR_CPUS" "d \<noteq> c" "on ! d" for d
    using assms(1,3,4,5) that unfolding cpus_ok_def by metis
  show ?thesis
    unfolding cpus_ok_def
  proof (intro conjI allI impI)
    fix d assume "d < NR_CPUS" "on[c := False] ! d"
    then have d: "d \<noteq> c" "on ! d" using assms(2,3) by (auto simp: nth_list_update split: if_splits)
    with assms(1) \<open>d < NR_CPUS\<close> obtain j where "j < MAX_TASKS" "cur d = Some j" "st j \<in> {TASK_RUNNING, TASK_DEAD}"
      unfolding cpus_ok_def by blast
    with other [OF \<open>d < NR_CPUS\<close> d] assms(6) show "\<exists>j<MAX_TASKS. cur d = Some j \<and> st' j \<in> {TASK_RUNNING, TASK_DEAD}"
      by auto
  next
    fix d e assume "d < NR_CPUS" "e < NR_CPUS" "d \<noteq> e" "on[c := False] ! d" "on[c := False] ! e"
    with assms(1,2) show "cur d \<noteq> cur e" unfolding cpus_ok_def by (metis nth_list_update_eq nth_list_update_neq)
  next
    fix j assume "j < MAX_TASKS" "st' j = TASK_RUNNING"
    with assms(6,7) have "j \<noteq> i" "st j = TASK_RUNNING" by (auto split: if_splits)
    with assms(1) \<open>j < MAX_TASKS\<close> obtain d where "d < NR_CPUS" "on ! d" "cur d = Some j"
      unfolding cpus_ok_def by blast
    with \<open>j \<noteq> i\<close> assms(5) show "\<exists>d<NR_CPUS. on[c := False] ! d \<and> cur d = Some j"
      by (metis nth_list_update_neq option.inject)
  qed
qed

lemma on_cpu:
  assumes "machine_inv m" and "c < NR_CPUS" and "m_on m ! c"
  obtains i where "current_task c (m_sched m) = Some i" and "i < MAX_TASKS"
  using assms by (auto simp: machine_inv_def cpus_ok_def)

lemma on_distinct:
  assumes "machine_inv m" and "c < NR_CPUS" and "m_on m ! c" and "d < NR_CPUS" and "m_on m ! d"
    and "current_task c (m_sched m) = current_task d (m_sched m)"
  shows "c = d"
  using assms unfolding machine_inv_def cpus_ok_def by metis

lemma parked_inv:
  assumes inv: "machine_inv m" and c: "c < NR_CPUS" "m_on m ! c" and i: "current_task c (m_sched m) = Some i"
    and len: "length (tasks s) = length (tasks (m_sched m))" "length (cpus s) = length (cpus (m_sched m))"
    and cur: "\<And>d. current_task d s = current_task d (m_sched m)"
    and st: "\<And>j. st_of s j = (if j = i then X else st_of (m_sched m) j)" "X \<noteq> TASK_RUNNING"
    and nx: "\<And>j. j \<noteq> i \<Longrightarrow> nx_of s j = nx_of (m_sched m) j"
  shows "machine_inv (parked c s m)"
proof -
  obtain L where L: "queues_ok (m_sched m) (m_on m) (m_wq m) L" using inv by (auto simp: machine_inv_def)
  have sh: "shape (m_sched m) (m_on m)" using inv by (simp add: machine_inv_def)
  have out: "i \<notin> set (L q)" for q using L c i by (auto simp: queues_ok_def)
  have "cpus_ok (st_of (sched_landed c s)) (\<lambda>d. current_task d (sched_landed c s)) ((m_on m)[c := False])"
    using park_keeps_cpus [of "st_of (m_sched m)" "\<lambda>d. current_task d (m_sched m)" "m_on m" c i
        "st_of (sched_landed c s)" X] inv sh c i st cur
    by (simp add: machine_inv_def shape_def view_simps)
  moreover have "queues_ok (sched_landed c s) ((m_on m)[c := False]) (m_wq m) L"
  proof (rule queues_ok_frame [OF L])
    fix q j assume j: "j \<in> set (L q)"
    then have "j \<noteq> i" using out by blast
    then show "nx_of (sched_landed c s) j = nx_of (m_sched m) j" "st_of (sched_landed c s) j \<in> {TASK_BLOCKED, TASK_DEAD}"
      using nx st queue_member(1) [OF L j] by (simp_all add: view_simps)
  next
    fix d j q assume d: "d < NR_CPUS" "(m_on m)[c := False] ! d" "current_task d (sched_landed c s) = Some j"
    then have "m_on m ! d" using sh by (cases "d = c") (auto simp: shape_def)
    with d cur L show "j \<notin> set (L q)" by (auto simp: queues_ok_def view_simps)
  qed (simp add: view_simps len)
  ultimately show ?thesis
    using sh len by (auto simp: machine_inv_def parked_def shape_def view_simps)
qed

text \<open>Changes that touch no task that runs or is queued: only the state of tasks that are
  neither running nor blocked nor dead, or that no cpu and no queue holds, may change, and only to a state that is not running.\<close>

lemma quiet_inv:
  assumes inv: "machine_inv m"
    and len: "length (tasks s) = length (tasks (m_sched m))" "length (cpus s) = length (cpus (m_sched m))"
    and cur: "\<And>d. d < NR_CPUS \<Longrightarrow> m_on m ! d \<Longrightarrow> current_task d s = current_task d (m_sched m)"
    and st: "\<And>j. j < MAX_TASKS \<Longrightarrow> st_of s j = st_of (m_sched m) j \<or>
        (st_of (m_sched m) j \<notin> {TASK_RUNNING, TASK_BLOCKED, TASK_DEAD} \<or> slot_left m j) \<and> st_of s j \<noteq> TASK_RUNNING"
    and nx: "\<And>j. j < MAX_TASKS \<Longrightarrow> st_of (m_sched m) j \<in> {TASK_BLOCKED, TASK_DEAD} \<Longrightarrow> in_queue m j \<Longrightarrow> nx_of s j = nx_of (m_sched m) j"
  shows "machine_inv (m\<lparr>m_sched := s\<rparr>)"
proof -
  obtain L where L: "queues_ok (m_sched m) (m_on m) (m_wq m) L" using inv by (auto simp: machine_inv_def)
  have sh: "shape (m_sched m) (m_on m)" using inv by (simp add: machine_inv_def)
  have cok: "cpus_ok (st_of (m_sched m)) (\<lambda>c. current_task c (m_sched m)) (m_on m)"
    using inv by (simp add: machine_inv_def)
  have "cpus_ok (st_of s) (\<lambda>d. current_task d s) (m_on m)"
    unfolding cpus_ok_def
  proof (intro conjI allI impI)
    fix d assume "d < NR_CPUS" "m_on m ! d"
    with cok cur obtain j where "j < MAX_TASKS" "current_task d s = Some j" "st_of (m_sched m) j \<in> {TASK_RUNNING, TASK_DEAD}"
      unfolding cpus_ok_def by metis
    with st [of j] cur [of d] \<open>d < NR_CPUS\<close> \<open>m_on m ! d\<close>
    show "\<exists>i<MAX_TASKS. current_task d s = Some i \<and> st_of s i \<in> {TASK_RUNNING, TASK_DEAD}"
      by (auto simp: slot_left_def)
  next
    fix d e assume "d < NR_CPUS" "e < NR_CPUS" "d \<noteq> e" "m_on m ! d" "m_on m ! e"
    with cok cur show "current_task d s \<noteq> current_task e s" unfolding cpus_ok_def by metis
  next
    fix j assume "j < MAX_TASKS" "st_of s j = TASK_RUNNING"
    with st [of j] cok cur show "\<exists>c<NR_CPUS. m_on m ! c \<and> current_task c s = Some j"
      unfolding cpus_ok_def by metis
  qed
  moreover have "queues_ok s (m_on m) (m_wq m) L"
  proof (rule queues_ok_frame [OF L len(1)])
    fix q j assume j: "j \<in> set (L q)"
    have "j < MAX_TASKS" using queue_member(2) [OF L j] sh by (simp add: shape_def)
    then show "nx_of s j = nx_of (m_sched m) j" "st_of s j \<in> {TASK_BLOCKED, TASK_DEAD}"
      using nx st [of j] queue_member(1) [OF L j] queued [OF L j] by (auto simp: slot_left_def)
  next
    fix d j q assume "d < NR_CPUS" "m_on m ! d" "current_task d s = Some j"
    with cur L show "j \<notin> set (L q)" by (auto simp: queues_ok_def)
  qed
  ultimately show ?thesis using sh len by (auto simp: machine_inv_def shape_def)
qed

lemma dispatch_inv:
  assumes inv: "machine_inv m" and c: "c < NR_CPUS" "\<not> m_on m ! c" and i: "pick_next (m_sched m) = Some i"
  shows "machine_inv (m\<lparr>m_sched := sched_dispatch c (m_sched m), m_on := (m_on m)[c := True]\<rparr>)"
proof -
  let ?s = "m_sched m" and ?s' = "sched_dispatch c (m_sched m)" and ?on = "(m_on m)[c := True]"
  obtain L where L: "queues_ok ?s (m_on m) (m_wq m) L" using inv by (auto simp: machine_inv_def)
  have sh: "shape ?s (m_on m)" and cok: "cpus_ok (st_of ?s) (\<lambda>c. current_task c ?s) (m_on m)"
    using inv by (simp_all add: machine_inv_def)
  have len: "length (tasks ?s) = MAX_TASKS" "length (cpus ?s) = NR_CPUS" "length (m_on m) = NR_CPUS"
    using sh by (simp_all add: shape_def)
  have r: "i < MAX_TASKS" "st_of ?s i = TASK_READY"
    using pick_next_Some [OF i] len by auto
  have v: "current_task d ?s' = (if d = c then Some i else current_task d ?s)"
    "st_of ?s' j = (if j = i then TASK_RUNNING else st_of ?s j)" "nx_of ?s' j = nx_of ?s j"
    "length (tasks ?s') = length (tasks ?s)" "length (cpus ?s') = length (cpus ?s)" for d j
    using i r len c by (auto simp: sched_dispatch_def view_simps)
  have on: "?on ! d \<longleftrightarrow> d = c \<or> m_on m ! d" if "d < NR_CPUS" for d
    using that len by (cases "d = c") simp_all
  have free: "current_task d ?s \<noteq> Some i" if "d < NR_CPUS" "m_on m ! d" for d
    using cok that r unfolding cpus_ok_def by fastforce
  have noti: "i \<notin> set (L q)" for q
    using queue_member(1) [OF L, where i = i and q = q] r by auto
  have "cpus_ok (st_of ?s') (\<lambda>d. current_task d ?s') ?on"
    unfolding cpus_ok_def
  proof (intro conjI allI impI)
    fix d assume d: "d < NR_CPUS" "?on ! d"
    show "\<exists>j<MAX_TASKS. current_task d ?s' = Some j \<and> st_of ?s' j \<in> {TASK_RUNNING, TASK_DEAD}"
      using d on [OF d(1)] cok r(1) unfolding cpus_ok_def v by (cases "d = c") auto
  next
    fix d e assume "d < NR_CPUS" "e < NR_CPUS" "d \<noteq> e" "?on ! d" "?on ! e"
    with on free cok show "current_task d ?s' \<noteq> current_task e ?s'" unfolding cpus_ok_def v by metis
  next
    fix j assume "j < MAX_TASKS" "st_of ?s' j = TASK_RUNNING"
    with on cok c show "\<exists>d<NR_CPUS. ?on ! d \<and> current_task d ?s' = Some j"
      unfolding cpus_ok_def v by metis
  qed
  moreover have "queues_ok ?s' ?on (m_wq m) L"
  proof (rule queues_ok_frame [OF L v(4)])
    fix q j assume j: "j \<in> set (L q)"
    show "nx_of ?s' j = nx_of ?s j" by (rule v)
    show "st_of ?s' j \<in> {TASK_BLOCKED, TASK_DEAD}" using queue_member(1) [OF L j] r by (auto simp: v)
  next
    fix d j q assume "d < NR_CPUS" "?on ! d" "current_task d ?s' = Some j"
    with on L noti show "j \<notin> set (L q)"
      by (auto simp: queues_ok_def v split: if_splits)
  qed
  ultimately show ?thesis using len v(4,5) by (auto simp: machine_inv_def shape_def)
qed

lemma block_inv:
  assumes inv: "machine_inv m" and c: "c < NR_CPUS" "m_on m ! c"
    and blk: "wait_sleep_when c True (m_wq m q) (m_sched m) = Some (True, h, s)"
  shows "machine_inv (parked c s (m\<lparr>m_wq := (m_wq m)(q := h)\<rparr>))"
proof -
  obtain i where i: "current_task c (m_sched m) = Some i" "i < MAX_TASKS"
    using on_cpu [OF inv c] by blast
  obtain L where L: "queues_ok (m_sched m) (m_on m) (m_wq m) L" using inv by (auto simp: machine_inv_def)
  have len: "length (tasks (m_sched m)) = MAX_TASKS" "length (cpus (m_sched m)) = NR_CPUS" "length (m_on m) = NR_CPUS"
    using inv by (simp_all add: machine_inv_def shape_def)
  have s: "h = Some i" "s = upd_task i (\<lambda>t. t\<lparr>t_wq_next := m_wq m q, t_state := TASK_BLOCKED\<rparr>) (m_sched m)"
    using blk i(1) by (auto simp: wait_sleep_when_def wq_park_def split: if_splits)
  have v: "st_of s j = (if j = i then TASK_BLOCKED else st_of (m_sched m) j)"
    "nx_of s j = (if j = i then m_wq m q else nx_of (m_sched m) j)"
    "current_task d s = current_task d (m_sched m)"
    "length (tasks s) = MAX_TASKS" "length (cpus s) = NR_CPUS" for j d
    using i(2) len unfolding s(2) by (simp_all add: view_simps)
  have out: "i \<notin> set (L r)" for r using L c i by (auto simp: queues_ok_def)
  have "machine_inv (parked c s m)"
    by (rule parked_inv [OF inv c i(1), where X = TASK_BLOCKED]) (simp_all add: v len)
  then have cpus: "cpus_ok (st_of (sched_landed c s)) (\<lambda>d. current_task d (sched_landed c s)) ((m_on m)[c := False])"
    by (simp add: machine_inv_def parked_def)
  have chain: "wq_chain (sched_landed c s) (m_wq m r) (L r)" for r
    using L out by (subst wq_chain_cong [of _ _ "m_sched m"]) (auto simp: view_simps v len queues_ok_def)
  have "queues_ok (sched_landed c s) ((m_on m)[c := False]) ((m_wq m)(q := h)) (L(q := i # L q))"
    unfolding queues_ok_def
  proof (intro conjI allI impI)
    fix r
    show "wq_chain (sched_landed c s) (((m_wq m)(q := h)) r) ((L(q := i # L q)) r)"
      using chain i(2) by (simp add: s(1) view_simps v)
    show "distinct ((L(q := i # L q)) r)" using L out by (simp add: queues_ok_def)
    show "\<forall>j\<in>set ((L(q := i # L q)) r). st_of (sched_landed c s) j \<in> {TASK_BLOCKED, TASK_DEAD}"
      using L out by (auto simp: queues_ok_def view_simps v)
  next
    fix r t :: nat assume "r \<noteq> t"
    then show "set ((L(q := i # L q)) r) \<inter> set ((L(q := i # L q)) t) = {}"
      using L out by (auto simp: queues_ok_def)
  next
    fix d j r assume d: "d < NR_CPUS" "(m_on m)[c := False] ! d" "current_task d (sched_landed c s) = Some j"
    then have "d \<noteq> c" "m_on m ! d" using len by (cases "d = c"; auto)+
    moreover have "j \<noteq> i"
      using on_distinct [OF inv c d(1) \<open>m_on m ! d\<close>] i(1) d(3) \<open>d \<noteq> c\<close> by (auto simp: view_simps v)
    ultimately show "j \<notin> set ((L(q := i # L q)) r)"
      using L d by (auto simp: queues_ok_def view_simps v)
  qed
  with cpus len show ?thesis by (auto simp: machine_inv_def parked_def shape_def view_simps v)
qed

text \<open>A queue is emptied: its tasks become ready, or stay dead.\<close>

lemma emptied_inv:
  assumes inv: "machine_inv m"
    and len: "length (tasks s) = length (tasks (m_sched m))" "length (cpus s) = length (cpus (m_sched m))"
    and cur: "\<And>d. current_task d s = current_task d (m_sched m)"
    and ins: "\<And>ks j. wq_chain (m_sched m) (m_wq m q) ks \<Longrightarrow> distinct ks \<Longrightarrow> j \<in> set ks \<Longrightarrow> st_of s j \<in> {TASK_READY, TASK_DEAD}"
    and out: "\<And>ks j. wq_chain (m_sched m) (m_wq m q) ks \<Longrightarrow> distinct ks \<Longrightarrow> j \<notin> set ks \<Longrightarrow>
      st_of s j = st_of (m_sched m) j \<and> nx_of s j = nx_of (m_sched m) j"
  shows "machine_inv (m\<lparr>m_sched := s, m_wq := (m_wq m)(q := None)\<rparr>)"
proof -
  obtain L where L: "queues_ok (m_sched m) (m_on m) (m_wq m) L" using inv by (auto simp: machine_inv_def)
  have sh: "shape (m_sched m) (m_on m)" and cok: "cpus_ok (st_of (m_sched m)) (\<lambda>c. current_task c (m_sched m)) (m_on m)"
    using inv by (simp_all add: machine_inv_def)
  have Lq: "wq_chain (m_sched m) (m_wq m q) (L q)" "distinct (L q)" using L by (auto simp: queues_ok_def)
  note ins = ins [OF Lq] and out = out [OF Lq]
  have onq: "i \<notin> set (L q)" if "d < NR_CPUS" "m_on m ! d" "current_task d (m_sched m) = Some i" for d i
    using L that by (auto simp: queues_ok_def)
  have "cpus_ok (st_of s) (\<lambda>d. current_task d s) (m_on m)"
    unfolding cpus_ok_def cur
  proof (intro conjI allI impI)
    fix d assume d: "d < NR_CPUS" "m_on m ! d"
    with cok obtain i where i: "i < MAX_TASKS" "current_task d (m_sched m) = Some i" "st_of (m_sched m) i \<in> {TASK_RUNNING, TASK_DEAD}"
      unfolding cpus_ok_def by blast
    then have "st_of s i = st_of (m_sched m) i" using out onq [OF d] by blast
    then show "\<exists>i<MAX_TASKS. current_task d (m_sched m) = Some i \<and> st_of s i \<in> {TASK_RUNNING, TASK_DEAD}" using i by auto
  next
    fix d e assume "d < NR_CPUS" "e < NR_CPUS" "d \<noteq> e" "m_on m ! d" "m_on m ! e"
    with cok show "current_task d (m_sched m) \<noteq> current_task e (m_sched m)" unfolding cpus_ok_def by blast
  next
    fix j assume j: "j < MAX_TASKS" "st_of s j = TASK_RUNNING"
    then have "st_of (m_sched m) j = TASK_RUNNING" using ins [of j] out [of j] by (cases "j \<in> set (L q)") auto
    with cok j show "\<exists>c<NR_CPUS. m_on m ! c \<and> current_task c (m_sched m) = Some j" unfolding cpus_ok_def by blast
  qed
  moreover have "queues_ok s (m_on m) ((m_wq m)(q := None)) (L(q := []))"
  proof -
    have apart: "i \<notin> set (L q)" if "r \<noteq> q" "i \<in> set (L r)" for r i
      using L that unfolding queues_ok_def by (metis disjoint_iff)
    have chain: "wq_chain s (m_wq m r) (L r)" if "r \<noteq> q" for r
      using L that apart out by (subst wq_chain_cong [of _ s "m_sched m"]) (auto simp: len queues_ok_def)
    show ?thesis
      unfolding queues_ok_def
    proof (intro conjI allI impI)
      fix r
      show "wq_chain s (((m_wq m)(q := None)) r) ((L(q := [])) r)" using chain by simp
      show "distinct ((L(q := [])) r)" using L by (simp add: queues_ok_def)
      show "\<forall>i\<in>set ((L(q := [])) r). st_of s i \<in> {TASK_BLOCKED, TASK_DEAD}"
        using apart queue_member(1) [OF L] out by auto
    next
      fix r t :: nat assume "r \<noteq> t"
      then show "set ((L(q := [])) r) \<inter> set ((L(q := [])) t) = {}" using L by (simp add: queues_ok_def)
    next
      fix d i r assume "d < NR_CPUS" "m_on m ! d" "current_task d s = Some i"
      then show "i \<notin> set ((L(q := [])) r)" using L by (simp add: queues_ok_def cur)
    qed
  qed
  ultimately show ?thesis using sh len by (auto simp: machine_inv_def shape_def)
qed

lemma wake_inv:
  assumes inv: "machine_inv m" and c: "c < NR_CPUS"
    and wk: "wait_wake_all c (m_wq m q) (m_sched m) = (h, s)"
  shows "machine_inv (m\<lparr>m_sched := s, m_wq := (m_wq m)(q := h)\<rparr>)"
proof -
  have len: "length (cpus (m_sched m)) = NR_CPUS" using inv by (simp add: machine_inv_def shape_def)
  obtain p s1 where w: "wake_loop (map_option (\<lambda>i. t_prio (task_at (m_sched m) i)) (current_task c (m_sched m)))
      (m_wq m q) False (m_sched m) = (p, s1)" by fastforce
  have h: "h = None" and s: "s = (if p \<and> current_task c s1 \<noteq> None
      then upd_cpu c (\<lambda>pc. pc\<lparr>pc_need_resched := True\<rparr>) s1 else s1)"
    using wk w by (simp_all add: wait_wake_all_def)
  obtain L where L: "queues_ok (m_sched m) (m_on m) (m_wq m) L" using inv by (auto simp: machine_inv_def)
  have Lq: "wq_chain (m_sched m) (m_wq m q) (L q)" "distinct (L q)" using L by (auto simp: queues_ok_def)
  note v = wake_loop_views [OF Lq w]
  show ?thesis unfolding h
  proof (rule emptied_inv [OF inv])
    fix ks j assume "wq_chain (m_sched m) (m_wq m q) ks" "distinct ks"
    note views = wake_loop_views [OF this w]
    show "j \<in> set ks \<Longrightarrow> st_of s j \<in> {TASK_READY, TASK_DEAD}"
      "j \<notin> set ks \<Longrightarrow> st_of s j = st_of (m_sched m) j \<and> nx_of s j = nx_of (m_sched m) j"
      unfolding s using views by (simp_all add: view_simps)
  qed (use v len c in \<open>simp_all add: s view_simps\<close>)
qed

lemma pipe_wake_inv:
  assumes inv: "machine_inv m" and wk: "ipc_wake (m_wq m q) (m_sched m) = (h, s)"
  shows "machine_inv (m\<lparr>m_sched := s, m_wq := (m_wq m)(q := h)\<rparr>)"
proof -
  obtain p where w: "wake_loop None (m_wq m q) False (m_sched m) = (p, s)" and h: "h = None"
    using wk by (cases "wake_loop None (m_wq m q) False (m_sched m)") (auto simp: ipc_wake_def)
  obtain L where L: "queues_ok (m_sched m) (m_on m) (m_wq m) L" using inv by (auto simp: machine_inv_def)
  have Lq: "wq_chain (m_sched m) (m_wq m q) (L q)" "distinct (L q)" using L by (auto simp: queues_ok_def)
  note v = wake_loop_views [OF Lq w]
  show ?thesis unfolding h
  proof (rule emptied_inv [OF inv])
    fix ks j assume "wq_chain (m_sched m) (m_wq m q) ks" "distinct ks"
    note views = wake_loop_views [OF this w]
    show "j \<in> set ks \<Longrightarrow> st_of s j \<in> {TASK_READY, TASK_DEAD}"
      "j \<notin> set ks \<Longrightarrow> st_of s j = st_of (m_sched m) j \<and> nx_of s j = nx_of (m_sched m) j"
      using views by simp_all
  qed (use v in simp_all)
qed

lemma wake_batch_views:
  assumes "wq_chain s h ks" and "distinct ks" and "wake_batch_loop cur h p n s = (p', n', s')"
  shows "length (tasks s') = length (tasks s)" and "length (cpus s') = length (cpus s)"
    and "current_task c s' = current_task c s"
    and "st_of s' j = (if j \<in> set ks then TASK_READY else st_of s j)"
    and "nx_of s' j = (if j \<in> set ks then None else nx_of s j)"
proof -
  have "length (tasks s') = length (tasks s) \<and> length (cpus s') = length (cpus s) \<and>
    (\<forall>c. current_task c s' = current_task c s) \<and>
    (\<forall>j. st_of s' j = (if j \<in> set ks then TASK_READY else st_of s j) \<and> nx_of s' j = (if j \<in> set ks then None else nx_of s j))"
    using assms
  proof (induction ks arbitrary: h p n s)
    case (Cons i ks)
    let ?s1 = "make_ready i (upd_task i (\<lambda>t. t\<lparr>t_wq_next := None\<rparr>) s)"
    have i: "h = Some i" "i < length (tasks s)" "wq_chain s (nx_of s i) ks" "i \<notin> set ks" "distinct ks"
      using Cons.prems by auto
    obtain q where "wake_batch_loop cur (nx_of s i) q (Suc n) ?s1 = (p', n', s')"
      using Cons.prems(3) i(1,2) by (auto split: if_splits)
    moreover have "wq_chain ?s1 (nx_of s i) ks"
      using i(2,3,4) by (subst wq_chain_cong [of _ _ s]) (auto simp: view_simps)
    ultimately have "length (tasks s') = length (tasks ?s1) \<and> length (cpus s') = length (cpus ?s1) \<and>
      (\<forall>c. current_task c s' = current_task c ?s1) \<and>
      (\<forall>j. st_of s' j = (if j \<in> set ks then TASK_READY else st_of ?s1 j) \<and> nx_of s' j = (if j \<in> set ks then None else nx_of ?s1 j))"
      using Cons.IH i(5) by blast
    then show ?case using i(2,4) by (auto simp: view_simps)
  qed simp
  then show "length (tasks s') = length (tasks s)" and "length (cpus s') = length (cpus s)"
    and "current_task c s' = current_task c s"
    and "st_of s' j = (if j \<in> set ks then TASK_READY else st_of s j)"
    and "nx_of s' j = (if j \<in> set ks then None else nx_of s j)"
    by blast+
qed

lemma sync_wake_inv:
  assumes inv: "machine_inv m" and c: "c < NR_CPUS" and y: "sy_sched y = m_sched m"
  shows "machine_inv (m\<lparr>m_sched := sy_sched (wake_batch c (m_wq m q) y), m_wq := (m_wq m)(q := None)\<rparr>)"
proof -
  have len: "length (cpus (m_sched m)) = NR_CPUS" using inv by (simp add: machine_inv_def shape_def)
  obtain p n s1 where w: "wake_batch_loop (map_option (\<lambda>i. t_prio (task_at (m_sched m) i)) (current_task c (m_sched m)))
      (m_wq m q) False 0 (m_sched m) = (p, n, s1)" by (metis surj_pair)
  have s: "sy_sched (wake_batch c (m_wq m q) y) = (if p \<and> current_task c s1 \<noteq> None
      then upd_cpu c (\<lambda>pc. pc\<lparr>pc_need_resched := True\<rparr>) s1 else s1)"
    using w by (simp add: wake_batch_def y Let_def)
  obtain L where L: "queues_ok (m_sched m) (m_on m) (m_wq m) L" using inv by (auto simp: machine_inv_def)
  have Lq: "wq_chain (m_sched m) (m_wq m q) (L q)" "distinct (L q)" using L by (auto simp: queues_ok_def)
  note v = wake_batch_views [OF Lq w]
  show ?thesis
  proof (rule emptied_inv [OF inv])
    fix ks j assume "wq_chain (m_sched m) (m_wq m q) ks" "distinct ks"
    note views = wake_batch_views [OF this w]
    show "j \<in> set ks \<Longrightarrow> st_of (sy_sched (wake_batch c (m_wq m q) y)) j \<in> {TASK_READY, TASK_DEAD}"
      "j \<notin> set ks \<Longrightarrow> st_of (sy_sched (wake_batch c (m_wq m q) y)) j = st_of (m_sched m) j \<and>
        nx_of (sy_sched (wake_batch c (m_wq m q) y)) j = nx_of (m_sched m) j"
      unfolding s using views by (simp_all add: view_simps)
  qed (use v len c in \<open>simp_all add: s view_simps\<close>)
qed

lemma off_cpu:
  assumes "machine_inv m" and "st_of (m_sched m) i \<notin> {TASK_RUNNING, TASK_DEAD}" and "\<not> in_queue m i"
  shows "slot_left m i"
  using assms by (fastforce simp: slot_left_def machine_inv_def cpus_ok_def)

text \<open>A wake of the poll queue while no cpu runs one of its tasks.\<close>

lemma poll_wake_inv:
  assumes inv: "machine_inv m" and ok: "pollers_off m"
  shows "machine_inv (poll_woken m)"
proof -
  obtain ks where ks: "wq_chain (m_sched m) (m_poll m) ks" "distinct ks"
    "\<forall>i\<in>set ks. st_of (m_sched m) i \<noteq> TASK_RUNNING \<and> \<not> in_queue m i"
    using ok by (auto simp: pollers_off_def)
  obtain p s where w: "wake_loop None (m_poll m) False (m_sched m) = (p, s)" by fastforce
  note v = wake_loop_views [OF ks(1,2) w]
  have "machine_inv (m\<lparr>m_sched := s\<rparr>)"
  proof (rule quiet_inv [OF inv])
    fix j assume "j < MAX_TASKS"
    show "st_of s j = st_of (m_sched m) j \<or>
        (st_of (m_sched m) j \<notin> {TASK_RUNNING, TASK_BLOCKED, TASK_DEAD} \<or> slot_left m j) \<and> st_of s j \<noteq> TASK_RUNNING"
      using v(4) [of j] ks(3) off_cpu [OF inv, of j] by auto
    assume "st_of (m_sched m) j \<in> {TASK_BLOCKED, TASK_DEAD}" "in_queue m j"
    then have "j \<notin> set ks" using ks(3) by auto
    then show "nx_of s j = nx_of (m_sched m) j" using v(5) [of j] by simp
  qed (use v in simp_all)
  moreover have "poll_woken m = m\<lparr>m_sched := s, m_poll := None\<rparr>"
    using w by (simp add: poll_woken_def ipc_wake_pollers_def ipc_wake_def poll_ipc_def Let_def)
  ultimately show ?thesis by (simp add: machine_inv_def)
qed

text \<open>A slot that no cpu runs and no queue links may be given any state but running.\<close>

lemma left_inv:
  assumes inv: "machine_inv m" and i: "slot_left m i"
    and v: "length (tasks s) = length (tasks (m_sched m))" "length (cpus s) = length (cpus (m_sched m))"
      "\<And>d. current_task d s = current_task d (m_sched m)" "\<And>j. nx_of s j = nx_of (m_sched m) j"
      "\<And>j. st_of s j = (if j = i then X else st_of (m_sched m) j)" "X \<noteq> TASK_RUNNING"
  shows "machine_inv (m\<lparr>m_sched := s\<rparr>)"
  by (rule quiet_inv [OF inv]) (use v i in auto)

lemma kill_inv:
  assumes inv: "machine_inv m" and i: "i < MAX_TASKS"
  shows "machine_inv (m\<lparr>m_sched := mark_dead i (m_sched m)\<rparr>)"
proof -
  let ?s = "m_sched m" and ?s' = "mark_dead i (m_sched m)"
  obtain L where L: "queues_ok ?s (m_on m) (m_wq m) L" using inv by (auto simp: machine_inv_def)
  have len: "length (tasks ?s) = MAX_TASKS" "length (cpus ?s) = NR_CPUS" "length (m_on m) = NR_CPUS"
    and cok: "cpus_ok (st_of ?s) (\<lambda>c. current_task c ?s) (m_on m)"
    using inv by (simp_all add: machine_inv_def shape_def)
  have v: "length (tasks ?s') = MAX_TASKS" "length (cpus ?s') = NR_CPUS" "current_task d ?s' = current_task d ?s"
    "st_of ?s' j = (if j = i \<and> st_of ?s i \<noteq> TASK_UNUSED then TASK_DEAD else st_of ?s j)" "nx_of ?s' j = nx_of ?s j" for d j
    using i len by (auto simp: mark_dead_def view_simps)
  have "cpus_ok (st_of ?s') (\<lambda>d. current_task d ?s') (m_on m)"
    using cok unfolding cpus_ok_def v by (auto split: if_splits)
  moreover have "queues_ok ?s' (m_on m) (m_wq m) L"
    by (rule queues_ok_frame [OF L]) (use L queue_member(1) [OF L] in \<open>auto simp: v len queues_ok_def\<close>)
  ultimately show ?thesis using len v by (auto simp: machine_inv_def shape_def)
qed

lemma idle_inv:
  assumes inv: "machine_inv m" and c: "c < NR_CPUS" "\<not> m_on m ! c" and none: "pick_next (m_sched m) = None"
  shows "machine_inv (m\<lparr>m_sched := sched_dispatch c (m_sched m)\<rparr>)"
proof -
  have len: "length (cpus (m_sched m)) = NR_CPUS" using inv by (simp add: machine_inv_def shape_def)
  show ?thesis
    by (rule quiet_inv [OF inv]) (use none c len in \<open>auto simp: sched_dispatch_def view_simps\<close>)
qed

lemma tick_inv:
  assumes inv: "machine_inv m" and c: "c < NR_CPUS"
  shows "machine_inv (m\<lparr>m_sched := sched_tick c ((m_sched m)\<lparr>jiffies := j\<rparr>)\<rparr>)"
proof -
  let ?s0 = "(m_sched m)\<lparr>jiffies := j\<rparr>"
  have b: "\<forall>i\<in>set [0..<length (tasks ?s0)]. i < length (tasks ?s0)" by simp
  have s0: "task_at ?s0 k = task_at (m_sched m) k" "current_task d ?s0 = current_task d (m_sched m)" for k d
    by (simp_all add: task_at_def current_task_def)
  note v = sched_tick_views [where c = c and s = ?s0] wake_sleepers_views [OF b, unfolded s0]
  show ?thesis
  proof (rule quiet_inv [OF inv])
    show "length (tasks (sched_tick c ?s0)) = length (tasks (m_sched m))" by (simp only: v) simp
    show "length (cpus (sched_tick c ?s0)) = length (cpus (m_sched m))" by (simp only: v) simp
    show "current_task d (sched_tick c ?s0) = current_task d (m_sched m)" for d by (simp only: v)
    show "nx_of (sched_tick c ?s0) k = nx_of (m_sched m) k" for k by (simp only: v)
    show "st_of (sched_tick c ?s0) k = st_of (m_sched m) k \<or>
        (st_of (m_sched m) k \<notin> {TASK_RUNNING, TASK_BLOCKED, TASK_DEAD} \<or> slot_left m k) \<and> st_of (sched_tick c ?s0) k \<noteq> TASK_RUNNING" for k
      using v(9) [of k] by (auto simp: v(4))
  qed
qed

lemma alloc_task_Some: "alloc_task s = Some i \<Longrightarrow> i < length (tasks s) \<and> st_of s i = TASK_UNUSED"
  by (auto simp: alloc_task_def find_Some_iff)

lemma create_inv:
  assumes inv: "machine_inv m" and cr: "task_create name fn arg prio (m_sched m) = (r, s)"
  shows "machine_inv (m\<lparr>m_sched := s\<rparr>)"
proof (cases "alloc_task (m_sched m)")
  case None
  with cr inv show ?thesis by (auto simp: task_create_def split: if_splits)
next
  case (Some i)
  note i = alloc_task_Some [OF Some]
  show ?thesis
    by (rule quiet_inv [OF inv])
      (use cr Some i in \<open>auto simp: task_create_def task_prime_def task_next_key_def upd_task_def task_at_def
         current_task_def nth_list_update split: if_splits\<close>)
qed

lemma create_deferred_inv:
  assumes inv: "machine_inv m" and cr: "task_create_deferred name fn arg prio (m_sched m) = (r, s)"
  shows "machine_inv (m\<lparr>m_sched := s\<rparr>)"
proof (cases "alloc_task (m_sched m)")
  case None
  with cr inv show ?thesis by (auto simp: task_create_deferred_def split: if_splits)
next
  case (Some i)
  note i = alloc_task_Some [OF Some]
  show ?thesis
    by (rule quiet_inv [OF inv])
      (use cr Some i in \<open>auto simp: task_create_deferred_def task_prime_def task_next_key_def upd_task_def task_at_def
         current_task_def nth_list_update split: if_splits\<close>)
qed

lemma launch_inv:
  assumes inv: "machine_inv m" and out: "slot_left m (nat slot)" and la: "task_launch slot (m_sched m) = Some s"
  shows "machine_inv (m\<lparr>m_sched := s\<rparr>)"
proof -
  have len: "length (tasks (m_sched m)) = MAX_TASKS" using inv by (simp add: machine_inv_def shape_def)
  have "s = make_ready (nat slot) (m_sched m)" "nat slot < MAX_TASKS"
    using la by (auto simp: task_launch_def split: if_splits)
  then show ?thesis
    by (intro left_inv [OF inv out, where X = TASK_READY]) (use len in \<open>auto simp: view_simps\<close>)
qed

lemma machine_inv_init: "machine_inv machine_init"
proof -
  have "queues_ok sched_init (replicate NR_CPUS False) (\<lambda>_. None) (\<lambda>_. [])"
    by (auto simp: queues_ok_def)
  then show ?thesis
    by (auto simp: machine_inv_def machine_init_def shape_def cpus_ok_def sched_init_def task_at_def unused_task_def)
qed

text \<open>The parking calls, seen from the current task.\<close>

lemma yield_inv:
  assumes inv: "machine_inv m" and c: "c < NR_CPUS" "m_on m ! c" and s: "task_yield c (m_sched m) = Some s"
  shows "machine_inv (parked c s m)"
proof -
  obtain i where i: "current_task c (m_sched m) = Some i" "i < MAX_TASKS" using on_cpu [OF inv c] by blast
  have len: "length (tasks (m_sched m)) = MAX_TASKS" using inv by (simp add: machine_inv_def shape_def)
  show ?thesis
    by (rule parked_inv [OF inv c i(1), where X = TASK_READY])
      (use s i len in \<open>auto simp: task_yield_def view_simps\<close>)
qed

lemma exit_inv:
  assumes inv: "machine_inv m" and c: "c < NR_CPUS" "m_on m ! c" and s: "task_exit c (m_sched m) = Some s"
  shows "machine_inv (parked c s m)"
proof -
  obtain i where i: "current_task c (m_sched m) = Some i" "i < MAX_TASKS" using on_cpu [OF inv c] by blast
  have len: "length (tasks (m_sched m)) = MAX_TASKS" using inv by (simp add: machine_inv_def shape_def)
  show ?thesis
    by (rule parked_inv [OF inv c i(1), where X = TASK_DEAD])
      (use s i len in \<open>auto simp: task_exit_def view_simps\<close>)
qed

lemma sleep_inv:
  assumes inv: "machine_inv m" and c: "c < NR_CPUS" "m_on m ! c" and s: "msleep c ms (m_sched m) = Some s"
  shows "machine_inv (parked c s m)"
proof (cases "ms = 0")
  case True
  with s yield_inv [OF inv c] show ?thesis by (simp add: msleep_def)
next
  case False
  obtain i where i: "current_task c (m_sched m) = Some i" "i < MAX_TASKS" using on_cpu [OF inv c] by blast
  have len: "length (tasks (m_sched m)) = MAX_TASKS" using inv by (simp add: machine_inv_def shape_def)
  show ?thesis
    by (rule parked_inv [OF inv c i(1), where X = TASK_SLEEPING])
      (use s i len False in \<open>auto simp: msleep_def park_current_def Let_def view_simps\<close>)
qed

lemma preempt_inv:
  assumes inv: "machine_inv m" and c: "c < NR_CPUS" "m_on m ! c" and s: "sched_post_irq c (m_sched m) = (True, s)"
  shows "machine_inv (parked c s m)"
proof -
  obtain i where i: "current_task c (m_sched m) = Some i" "i < MAX_TASKS" using on_cpu [OF inv c] by blast
  have len: "length (tasks (m_sched m)) = MAX_TASKS" using inv by (simp add: machine_inv_def shape_def)
  show ?thesis
    by (rule parked_inv [OF inv c i(1), where X = "if st_of (m_sched m) i = TASK_RUNNING then TASK_READY else st_of (m_sched m) i"])
      (use s i len in \<open>auto simp: sched_post_irq_def Let_def view_simps split: if_splits\<close>)
qed

lemma poll_park_inv:
  assumes inv: "machine_inv m" and c: "c < NR_CPUS" "m_on m ! c" and x: "ipc_poll_park c ms (poll_ipc m) = Some x"
  shows "machine_inv (parked c (ip_sched x) (m\<lparr>m_poll := ip_poll_wq x\<rparr>))"
proof -
  let ?m = "m\<lparr>m_poll := ip_poll_wq x\<rparr>"
  have inv': "machine_inv ?m" using inv by (simp add: machine_inv_def)
  obtain i where i: "current_task c (m_sched m) = Some i" "i < MAX_TASKS" using on_cpu [OF inv c] by blast
  have len: "length (tasks (m_sched m)) = MAX_TASKS" using inv by (simp add: machine_inv_def shape_def)
  obtain f where s: "ip_sched x = upd_task i f (m_sched m)" and f: "\<And>t. t_state (f t) = TASK_SLEEPING"
    using x i(1) by (auto simp: ipc_poll_park_def poll_ipc_def Let_def)
  show ?thesis
    by (rule parked_inv [OF inv' c(1) _ _, where X = TASK_SLEEPING and i = i])
      (use s i len f c in \<open>auto simp: view_simps\<close>)
qed

lemma set_stack_inv:
  assumes inv: "machine_inv m" and i: "i < MAX_TASKS"
  shows "machine_inv (m\<lparr>m_sched := upd_task i (\<lambda>t. t\<lparr>t_kstack := k, t_arg := a, t_name := n\<rparr>) (m_sched m)\<rparr>)"
proof -
  have len: "length (tasks (m_sched m)) = MAX_TASKS" using inv by (simp add: machine_inv_def shape_def)
  show ?thesis by (rule quiet_inv [OF inv]) (use i len in \<open>simp_all add: view_simps\<close>)
qed

lemma free_inv:
  assumes inv: "machine_inv m" and i: "i < MAX_TASKS" "slot_left m i"
  shows "machine_inv (m\<lparr>m_sched := slot_freed i (m_sched m)\<rparr>)" "machine_inv (m\<lparr>m_sched := slot_reclaimed i (m_sched m)\<rparr>)"
proof -
  have len: "length (tasks (m_sched m)) = MAX_TASKS" using inv by (simp add: machine_inv_def shape_def)
  show "machine_inv (m\<lparr>m_sched := slot_freed i (m_sched m)\<rparr>)" "machine_inv (m\<lparr>m_sched := slot_reclaimed i (m_sched m)\<rparr>)"
    by (rule left_inv [OF inv i(2), where X = TASK_UNUSED]; use i len in \<open>auto simp: slot_freed_def slot_reclaimed_def view_simps\<close>)+
qed

lemma mstep_inv: "mstep m g m' \<Longrightarrow> g \<Longrightarrow> machine_inv m \<Longrightarrow> machine_inv m'"
  by (induction rule: mstep.induct)
    (blast intro: dispatch_inv idle_inv yield_inv exit_inv sleep_inv block_inv preempt_inv wake_inv tick_inv
       create_inv create_deferred_inv launch_inv kill_inv set_stack_inv pipe_wake_inv sync_wake_inv poll_park_inv poll_wake_inv
       free_inv)+

lemma reachable_inv: "reachable b m \<Longrightarrow> b \<Longrightarrow> machine_inv m"
  by (induction rule: reachable.induct) (auto intro: machine_inv_init mstep_inv)

section \<open>Properties\<close>


definition one_task :: sched where
  "one_task = snd (task_create ''a'' 1 0 3 sched_init)"

definition ready_two :: sched where
  "ready_two = snd (task_create ''b'' 2 0 3 (snd (task_create ''a'' 1 0 3 sched_init)))"

lemma ready_two_picks:
  "pick_next ready_two = Some 0" "pick_next (sched_dispatch 0 ready_two) = Some 1"
  by code_simp+

definition two_tasks :: machine where
  "two_tasks = machine_init\<lparr>m_sched := sched_dispatch 1 (sched_dispatch 0 ready_two), m_on := [True, True]\<rparr>"

lemma reachable_create:
  "reachable b m \<Longrightarrow> m' = m\<lparr>m_sched := snd (task_create name fn arg prio (m_sched m))\<rparr> \<Longrightarrow> reachable b m'"
  using reachable.step [OF _ mstep.create, of b m] by (metis (full_types) prod.collapse)

lemma reachable_dispatch:
  assumes "reachable b m" and "c < NR_CPUS" and "\<not> m_on m ! c" and "pick_next (m_sched m) = Some i"
    and "m' = m\<lparr>m_sched := sched_dispatch c (m_sched m), m_on := (m_on m)[c := True]\<rparr>"
  shows "reachable b m'"
  using reachable.step [OF assms(1) mstep.dispatch [OF assms(2-4)]] assms(5) by simp

lemma one_task_reachable: "reachable True (machine_init\<lparr>m_sched := one_task\<rparr>)"
  by (rule reachable_create [OF reachable.start]) (simp add: machine_init_def one_task_def)

lemma one_running: "reachable True (machine_init\<lparr>m_sched := sched_dispatch 0 one_task, m_on := [True, False]\<rparr>)"
proof (rule reachable_dispatch [OF one_task_reachable, of 0 0])
  show "pick_next (m_sched (machine_init\<lparr>m_sched := one_task\<rparr>)) = Some 0" by code_simp
qed (simp_all add: machine_init_def numeral_2_eq_2)

lemma two_tasks_reachable: "reachable True two_tasks"
proof -
  have m2: "reachable True (machine_init\<lparr>m_sched := ready_two\<rparr>)"
    by (rule reachable_create [OF one_task_reachable]) (simp add: ready_two_def one_task_def)
  note p = ready_two_picks
  have m3: "reachable True (machine_init\<lparr>m_sched := sched_dispatch 0 ready_two, m_on := [True, False]\<rparr>)"
    by (rule reachable_dispatch [OF m2, of 0 0]) (use p in \<open>simp_all add: machine_init_def numeral_2_eq_2\<close>)
  show ?thesis
    by (rule reachable_dispatch [OF m3, of 1 1]) (use p in \<open>simp_all add: two_tasks_def\<close>)
qed


text \<open>The two orders the code does not exclude. A task polls with a deadline, the tick wakes it and leaves it
  on the poll queue, it runs again, and data arrives: the wake makes the running task ready, and the other cpu takes it.\<close>

definition poll_parked :: machine where
  "poll_parked = (let x = the (ipc_poll_park 0 0 (poll_ipc (machine_init\<lparr>m_sched := sched_dispatch 0 one_task\<rparr>)))
     in parked 0 (ip_sched x) (machine_init\<lparr>m_on := [True, False], m_poll := ip_poll_wq x\<rparr>))"

definition poll_expired :: machine where
  "poll_expired = poll_parked\<lparr>m_sched := sched_tick 1 ((m_sched poll_parked)\<lparr>jiffies := jiffies (m_sched poll_parked) + 1\<rparr>)\<rparr>"

definition poll_resumed :: machine where
  "poll_resumed = poll_expired\<lparr>m_sched := sched_dispatch 0 (m_sched poll_expired), m_on := [True, False]\<rparr>"

definition polled_twice :: machine where
  "polled_twice = (poll_woken poll_resumed)\<lparr>m_sched := sched_dispatch 1 (m_sched (poll_woken poll_resumed)), m_on := [True, True]\<rparr>"

theorem late_poll_wake_runs_twice:
  "(\<exists>b. reachable b polled_twice) \<and> m_on polled_twice = [True, True] \<and>
   current_task 0 (m_sched polled_twice) = Some 0 \<and> current_task 1 (m_sched polled_twice) = Some 0"
proof -
  let ?m = "machine_init\<lparr>m_sched := sched_dispatch 0 one_task, m_on := [True, False]\<rparr>"
  have on: "m_on poll_parked = [False, False]" "m_on poll_expired = [False, False]" "m_on (poll_woken poll_resumed) = [True, False]"
    by (simp_all add: poll_parked_def poll_expired_def poll_resumed_def poll_woken_def parked_def Let_def)
  have "ipc_poll_park 0 0 (poll_ipc ?m) \<noteq> None" by code_simp
  then obtain x where x: "ipc_poll_park 0 0 (poll_ipc ?m) = Some x" by blast
  have pi: "poll_ipc (machine_init\<lparr>m_sched := sched_dispatch 0 one_task\<rparr>) = poll_ipc ?m" by (simp add: poll_ipc_def)
  have pp: "poll_parked = parked 0 (ip_sched x) (?m\<lparr>m_poll := ip_poll_wq x\<rparr>)"
    unfolding poll_parked_def pi x by (simp add: parked_def machine_init_def)
  have r1: "reachable True poll_parked"
    using reachable.step [OF one_running mstep.poll_park [OF _ _ x]] pp by simp
  have r2: "reachable True poll_expired"
    using reachable.step [OF r1 mstep.tick [of 1]] by (simp add: poll_expired_def)
  have p: "pick_next (m_sched poll_expired) = Some 0" "pick_next (m_sched (poll_woken poll_resumed)) = Some 0" by code_simp+
  have r3: "reachable True poll_resumed"
    by (rule reachable_dispatch [OF r2, of 0 0]) (use p on in \<open>simp_all add: poll_resumed_def\<close>)
  have r4: "reachable (pollers_off poll_resumed) (poll_woken poll_resumed)"
    using reachable.step [OF r3 mstep.poll_wake] by simp
  have "reachable (pollers_off poll_resumed) polled_twice"
    by (rule reachable_dispatch [OF r4, of 1 0]) (use p on in \<open>simp_all add: polled_twice_def\<close>)
  moreover have "current_task 0 (m_sched polled_twice) = Some 0" "current_task 1 (m_sched polled_twice) = Some 0" by code_simp+
  ultimately show ?thesis by (auto simp: polled_twice_def)
qed

text \<open>A task is killed while it runs, its slot is freed by the parent and given to a new task, and the other cpu takes that.\<close>

definition reused :: sched where
  "reused = snd (task_create ''b'' 2 0 3 (slot_freed 0 (mark_dead 0 (sched_dispatch 0 one_task))))"

definition freed_twice :: machine where
  "freed_twice = machine_init\<lparr>m_sched := sched_dispatch 1 reused, m_on := [True, True]\<rparr>"

theorem early_free_runs_twice:
  "(\<exists>b. reachable b freed_twice) \<and> m_on freed_twice = [True, True] \<and>
   current_task 0 (m_sched freed_twice) = Some 0 \<and> current_task 1 (m_sched freed_twice) = Some 0"
proof -
  let ?s = "sched_dispatch 0 one_task" and ?on = "\<lambda>s. machine_init\<lparr>m_sched := s, m_on := [True, False]\<rparr>"
  have r1: "reachable True (?on (mark_dead 0 ?s))"
    using reachable.step [OF one_running mstep.kill [of 0]] by (simp add: machine_init_def)
  have "t_state (task_at (mark_dead 0 ?s) 0) = TASK_DEAD" by code_simp
  then obtain b where r2: "reachable b (?on (slot_freed 0 (mark_dead 0 ?s)))"
    using reachable.step [OF r1 mstep.free [of 0]] by (auto simp: machine_init_def)
  have r3: "reachable b (?on reused)" by (rule reachable_create [OF r2]) (simp add: reused_def machine_init_def)
  have p: "pick_next reused = Some 0" by code_simp
  have "reachable b freed_twice"
    by (rule reachable_dispatch [OF r3, of 1 0]) (use p in \<open>simp_all add: freed_twice_def\<close>)
  moreover have "current_task 0 (m_sched freed_twice) = Some 0" "current_task 1 (m_sched freed_twice) = Some 0" by code_simp+
  ultimately show ?thesis by (auto simp: freed_twice_def)
qed

text \<open>C4: The scheduler picks a ready task whose priority value is the smallest among the
  ready tasks and, among those of that priority, whose queueing ticket is the smallest; it
  picks nothing exactly when no task is ready.\<close>

theorem pick_next_best:
  "(pick_next s = None \<longleftrightarrow> (\<forall>j < length (tasks s). t_state (task_at s j) \<noteq> TASK_READY)) \<and>
   (\<forall>i. pick_next s = Some i \<longrightarrow> i < length (tasks s) \<and> t_state (task_at s i) = TASK_READY \<and>
      (\<forall>j < length (tasks s). t_state (task_at s j) = TASK_READY \<longrightarrow>
         t_prio (task_at s i) < t_prio (task_at s j) \<or>
         t_prio (task_at s i) = t_prio (task_at s j) \<and> t_rq_key (task_at s i) \<le> t_rq_key (task_at s j)))"
proof (intro conjI allI impI)
  show "pick_next s = None \<longleftrightarrow> (\<forall>j < length (tasks s). t_state (task_at s j) \<noteq> TASK_READY)"
    by (rule pick_next_None)
next
  fix i j assume i: "pick_next s = Some i" and j: "j < length (tasks s)" "t_state (task_at s j) = TASK_READY"
  have "\<not> better (task_at s j) (task_at s i)" by (rule pick_next_Some(3) [OF i j])
  then show "t_prio (task_at s i) < t_prio (task_at s j) \<or>
      t_prio (task_at s i) = t_prio (task_at s j) \<and> t_rq_key (task_at s i) \<le> t_rq_key (task_at s j)"
    by (auto simp: better_def split: if_splits)
qed (rule pick_next_Some, assumption)+

definition ready_pair :: sched where
  "ready_pair = snd (task_create ''b'' 2 0 1 (snd (task_create ''a'' 1 0 3 sched_init)))"

theorem pick_next_best_witness:
  "pick_next ready_pair = Some 1 \<and> t_state (task_at ready_pair 1) = TASK_READY"
proof -
  have "pick_next ready_pair = Some 1" by code_simp
  with pick_next_best [of ready_pair] show ?thesis by simp
qed

text \<open>Waking a wait queue empties it and makes every task parked on it ready, except that
  a task killed while it was parked stays dead; no other task changes its state, so no
  wakeup is lost and a dead task is not brought back.\<close>

theorem wait_wake_all_wakes:
  assumes "wq_chain s h ks" and "distinct ks" and "wait_wake_all c h s = (h', s')"
  shows "h' = None \<and>
    (\<forall>i. t_state (task_at s' i) =
      (if i \<in> set ks \<and> t_state (task_at s i) \<noteq> TASK_DEAD then TASK_READY else t_state (task_at s i)))"
proof -
  obtain p s1 where w: "wake_loop (map_option (\<lambda>i. t_prio (task_at s i)) (current_task c s)) h False s = (p, s1)"
    by fastforce
  show ?thesis
    using assms(3) w wake_loop_views(4) [OF assms(1,2) w]
    by (auto simp: wait_wake_all_def upd_cpu_views)
qed

definition one_parked :: sched where
  "one_parked = snd (wq_park 0 None ready_pair)"

theorem wait_wake_all_wakes_witness:
  "wq_chain one_parked (Some 0) [0] \<and>
   t_state (task_at (snd (wait_wake_all 1 (Some 0) one_parked)) 0) = TASK_READY"
proof -
  have c: "wq_chain one_parked (Some 0) [0]" by code_simp
  have b: "t_state (task_at one_parked 0) = TASK_BLOCKED" by code_simp
  show ?thesis
    using wait_wake_all_wakes [OF c, of 1 "fst (wait_wake_all 1 (Some 0) one_parked)"
        "snd (wait_wake_all 1 (Some 0) one_parked)"] c b by simp
qed

text \<open>A task that was killed while it ran on another cpu is put back on the run queue
  when it yields: \<open>task_yield\<close> does not look at the state it overwrites, although
  \<open>mark_zombie\<close> relies on dead tasks never being queued again.\<close>

theorem yield_revives_killed_task:
  assumes "current_task c s = Some i" and "i < length (tasks s)" and "t_state (task_at s i) \<noteq> TASK_UNUSED"
  shows "t_state (task_at (mark_dead i s) i) = TASK_DEAD \<and>
    (\<exists>s'. task_yield c (mark_dead i s) = Some s' \<and> t_state (task_at s' i) = TASK_READY)"
  using assms by (simp add: mark_dead_def task_yield_def view_simps)

theorem yield_revives_killed_task_witness:
  "current_task 0 (m_sched two_tasks) = Some 0 \<and> t_state (task_at (mark_dead 0 (m_sched two_tasks)) 0) = TASK_DEAD"
proof -
  have h: "current_task 0 (m_sched two_tasks) = Some 0" "0 < length (tasks (m_sched two_tasks))"
    "t_state (task_at (m_sched two_tasks) 0) \<noteq> TASK_UNUSED" by code_simp+
  show ?thesis using yield_revives_killed_task [OF h] h by simp
qed

end
