(* ===== verification/Sync_Props.thy ===== *)
theory Sync_Props
  imports Sync Sched_Machine
begin

text \<open>
  What the sleeping locks promise. The wait-for graph has an edge from every task that has
  published the mutex it waits for to the owner of that mutex. The detector keeps the graph
  acyclic in every state that any interleaving of lock, unlock and scheduler calls reaches,
  and in such a state its bounded walk is exact: it refuses a lock precisely when the
  requested mutex's owner waits, directly or through others, for the caller.
\<close>

abbreviation lw :: "sync \<Rightarrow> nat \<Rightarrow> nat option" where "lw y t \<equiv> t_lock_wait (task_at (sy_sched y) t)"
abbreviation ow :: "sync \<Rightarrow> nat \<Rightarrow> nat option" where "ow y m \<equiv> km_owner (sy_mtx y ! m)"

definition waits_for :: "sync \<Rightarrow> (nat \<times> nat) set" where
  "waits_for y = {(t, t'). t < length (tasks (sy_sched y)) \<and> (\<exists>m. lw y t = Some m \<and> ow y m = Some t')}"

lemma waits_for_functional: "(a, b) \<in> waits_for y \<Longrightarrow> (a, c) \<in> waits_for y \<Longrightarrow> b = c"
  by (auto simp: waits_for_def)

section \<open>The walk of the detector\<close>

lemma successively_snoc_trancl:
  "successively (\<lambda>a b. (a, b) \<in> R) (xs @ [z]) \<Longrightarrow> x \<in> set xs \<Longrightarrow> (x, z) \<in> R\<^sup>+"
proof (induction xs arbitrary: x)
  case (Cons a xs)
  have a: "(a, z) \<in> R\<^sup>+"
  proof (cases xs)
    case (Cons b bs)
    then have "(a, b) \<in> R" "(b, z) \<in> R\<^sup>+" using Cons.prems Cons.IH by auto
    then show ?thesis by (rule trancl_into_trancl2)
  qed (use Cons.prems in auto)
  with Cons show ?case by (auto simp: successively_Cons)
qed simp

lemma acyclic_chain_distinct:
  "acyclic R \<Longrightarrow> successively (\<lambda>a b. (a, b) \<in> R) xs \<Longrightarrow> distinct xs"
proof (induction xs rule: rev_induct)
  case (snoc z xs)
  then have "z \<notin> set xs" using successively_snoc_trancl [of R xs z z] by (auto simp: acyclic_def)
  with snoc show ?case by (auto simp: successively_append_iff)
qed simp

text \<open>\<open>os\<close> are the owners stepped over so far: a chain of the wait-for graph.\<close>

lemma deadlock_walk_exact:
  fixes y :: sync
  defines "R \<equiv> waits_for y" and "N \<equiv> length (tasks (sy_sched y))"
  assumes acyc: "acyclic R" and N: "N \<le> MAX_TASKS"
    and owners: "\<And>m t. ok m \<Longrightarrow> ow y m = Some t \<Longrightarrow> t < N"
    and waited: "\<And>t m. t < N \<Longrightarrow> lw y t = Some m \<Longrightarrow> ok m"
    and m: "ok m"
    and chain: "\<And>t. ow y m = Some t \<Longrightarrow> successively (\<lambda>a b. (a, b) \<in> R) (os @ [t])"
    and seen: "\<forall>x \<in> set seen. x = m \<or> (\<exists>t \<in> set os. ow y x = Some t)"
    and len: "length seen \<le> length os" and os: "set os \<subseteq> {..<N}"
  shows "deadlock_walk y me m seen \<longleftrightarrow> (\<exists>t. ow y m = Some t \<and> (t, me) \<in> R\<^sup>*)"
  using m chain seen len os
proof (induction "N - length os" arbitrary: m seen os rule: less_induct)
  case less
  show ?case
  proof (cases "ow y m")
    case None
    then show ?thesis by (simp add: deadlock_walk.simps)
  next
    case (Some t)
    have t: "t < N" using owners less.prems(1) Some by blast
    have succ: "successively (\<lambda>a b. (a, b) \<in> R) (os @ [t])" using less.prems(2) Some by blast
    have "distinct (os @ [t])" by (rule acyclic_chain_distinct [OF acyc succ])
    moreover have "set (os @ [t]) \<subseteq> {..<N}" using less.prems(5) t by simp
    ultimately have "length (os @ [t]) \<le> N"
      by (metis card_lessThan card_mono distinct_card finite_lessThan)
    then have room: "length os < N" by simp
    with N less.prems(4) have budget: "length seen < DEADLK_VISIT_MAX" by simp
    show ?thesis
    proof (cases "t = me \<or> lw y t = None")
      case True
      have "(t, me) \<in> R\<^sup>* \<longleftrightarrow> t = me" if "lw y t = None"
        using that by (auto simp: R_def waits_for_def elim: converse_rtranclE)
      with True Some show ?thesis by (auto simp: deadlock_walk.simps)
    next
      case False
      then obtain m' where m': "lw y t = Some m'" by auto
      have edge: "(t, t') \<in> R \<longleftrightarrow> ow y m' = Some t'" for t'
        using m' t by (auto simp: R_def N_def waits_for_def)
      have fresh: "m' \<notin> set seen"
      proof
        assume "m' \<in> set seen"
        then consider "m' = m" | u where "u \<in> set os" "ow y m' = Some u" using less.prems(3) by blast
        then have "(t, t) \<in> R\<^sup>+"
        proof cases
          case 1
          then show ?thesis using edge Some by blast
        next
          case 2
          then show ?thesis using edge successively_snoc_trancl [OF succ] by (metis trancl_into_trancl2)
        qed
        with acyc show False by (simp add: acyclic_def)
      qed
      have "deadlock_walk y me m seen = deadlock_walk y me m' (seen @ [m'])"
        using Some False m' budget fresh by (subst deadlock_walk.simps) simp
      also have "\<dots> \<longleftrightarrow> (\<exists>t'. ow y m' = Some t' \<and> (t', me) \<in> R\<^sup>*)"
      proof (rule less.hyps [of "os @ [t]"])
        show "successively (\<lambda>a b. (a, b) \<in> R) ((os @ [t]) @ [t'])" if "ow y m' = Some t'" for t'
          using succ edge that by (simp add: successively_append_iff)
        show "\<forall>x \<in> set (seen @ [m']). x = m' \<or> (\<exists>t \<in> set (os @ [t]). ow y x = Some t)"
          using less.prems(3) Some by auto
      qed (use room less.prems waited t m' in auto)
      also have "\<dots> \<longleftrightarrow> (t, me) \<in> R\<^sup>*"
        using edge False by (metis converse_rtranclE converse_rtrancl_into_rtrancl)
      finally show ?thesis using Some by simp
    qed
  qed
qed

section \<open>Reachable states\<close>

definition sync_inv :: "sync \<Rightarrow> bool" where
  "sync_inv y \<longleftrightarrow>
     length (tasks (sy_sched y)) = MAX_TASKS \<and>
     (\<forall>c < length (cpus (sy_sched y)). \<forall>i. current_task c (sy_sched y) = Some i \<longrightarrow> i < MAX_TASKS) \<and>
     (\<forall>m < length (sy_mtx y). \<forall>t. ow y m = Some t \<longrightarrow> t < MAX_TASKS) \<and>
     (\<forall>t < MAX_TASKS. \<forall>m. lw y t = Some m \<longrightarrow> m < length (sy_mtx y)) \<and>
     acyclic (waits_for y) \<and>
     (\<forall>k < length (sy_sem y). 0 \<le> ks_count (sy_sem y ! k) \<and> ks_count (sy_sem y ! k) \<le> ks_max (sy_sem y ! k))"

text \<open>Scheduler calls publish no new lock intent and put only table entries on a cpu.\<close>

definition lw_frame :: "sched \<Rightarrow> sched \<Rightarrow> bool" where
  "lw_frame s s' \<longleftrightarrow>
     length (tasks s') = length (tasks s) \<and> length (cpus s') = length (cpus s) \<and>
     (\<forall>i < length (tasks s). t_lock_wait (task_at s' i) = None \<or> t_lock_wait (task_at s' i) = t_lock_wait (task_at s i)) \<and>
     (\<forall>c < length (cpus s). \<forall>i. current_task c s' = Some i \<longrightarrow> current_task c s = Some i \<or> i < length (tasks s))"

lemma lw_frame_refl [simp]: "lw_frame s s"
  by (simp add: lw_frame_def)

lemma lw_frame_trans: "lw_frame s s' \<Longrightarrow> lw_frame s' s'' \<Longrightarrow> lw_frame s s''"
  unfolding lw_frame_def by metis

lemma lw_frame_upd_task:
  "(\<And>t. t_lock_wait (f t) = None \<or> t_lock_wait (f t) = t_lock_wait t) \<Longrightarrow> lw_frame s (upd_task i f s)"
  by (cases "i < length (tasks s)")
    (auto simp: lw_frame_def upd_task_def task_at_def current_task_def nth_list_update)

lemma lw_frame_upd_cpu:
  "(\<And>pc j. pc_current (f pc) = Some j \<Longrightarrow> pc_current pc = Some j \<or> j < length (tasks s)) \<Longrightarrow> lw_frame s (upd_cpu c f s)"
  unfolding lw_frame_def upd_cpu_def task_at_def current_task_def
  by (auto, case_tac "c = ca", auto)

lemma lw_frame_next_key: "lw_frame s (snd (task_next_key s))"
  by (simp add: lw_frame_def task_next_key_def task_at_def current_task_def)

lemma lw_frame_make_ready: "lw_frame s (make_ready i s)"
  unfolding make_ready_def task_next_key_def Let_def prod.case
  by (rule lw_frame_trans [OF lw_frame_next_key [unfolded task_next_key_def snd_conv]])
    (simp add: lw_frame_upd_task)

lemma lw_frame_wake_batch_loop:
  "wake_batch_loop cur h p n s = (p', n', s') \<Longrightarrow> lw_frame s s'"
proof (induction cur h p n s rule: wake_batch_loop.induct)
  case (2 cur i p n s)
  show ?case
  proof (cases "i < length (tasks s)")
    case True
    have "lw_frame s (make_ready i (upd_task i (\<lambda>t. t\<lparr>t_wq_next := None\<rparr>) s))"
      by (rule lw_frame_trans [OF lw_frame_upd_task lw_frame_make_ready]) simp
    then show ?thesis using 2 True by (auto intro: lw_frame_trans)
  qed (use 2 in auto)
qed simp

inductive sched_move :: "sched \<Rightarrow> sched \<Rightarrow> bool" where
  "sched_move s (sched_dispatch c s)"
| "sched_move s (sched_landed c s)"
| "sched_move s (sched_tick c s)"
| "sched_move s (snd (sched_post_irq c s))"
| "sched_move s (snd (task_create name fn arg prio s))"
| "sched_move s (snd (task_create_deferred name fn arg prio s))"
| "task_launch slot s = Some s' \<Longrightarrow> sched_move s s'"
| "task_yield c s = Some s' \<Longrightarrow> sched_move s s'"
| "task_exit c s = Some s' \<Longrightarrow> sched_move s s'"
| "msleep c ms s = Some s' \<Longrightarrow> sched_move s s'"
| "wait_sleep_when c cond h s = Some (b, h', s') \<Longrightarrow> sched_move s s'"
| "sched_move s (snd (wait_wake_all c h s))"
| "sched_move s (mark_dead i s)"
| "sched_move s (s\<lparr>jiffies := jiffies s + 1\<rparr>)"

lemma lw_frame_wake_loop: "wake_loop cur h p s = (p', s') \<Longrightarrow> lw_frame s s'"
proof (induction cur h p s rule: wake_loop.induct)
  case (2 cur i p s)
  let ?s1 = "upd_task i (\<lambda>t. t\<lparr>t_wq_next := None\<rparr>) s"
  have "lw_frame s ?s1" by (rule lw_frame_upd_task) simp
  moreover from this have "lw_frame s (make_ready i ?s1)"
    by (rule lw_frame_trans [OF _ lw_frame_make_ready])
  ultimately show ?case using 2 by (auto simp: Let_def split: if_splits intro: lw_frame_trans)
qed simp

lemma lw_frame_wake_sleepers: "lw_frame s (wake_sleepers ks s)"
  by (induction ks s rule: wake_sleepers.induct) (auto intro: lw_frame_trans lw_frame_make_ready)

lemma lw_frame_resched: "lw_frame s (upd_cpu c (\<lambda>pc. pc\<lparr>pc_need_resched := b\<rparr>) s)"
  by (rule lw_frame_upd_cpu) simp

lemma lw_frame_dispatch: "lw_frame s (sched_dispatch c s)"
proof (cases "pick_next s")
  case None
  have "lw_frame s (upd_cpu c (\<lambda>pc. pc\<lparr>pc_current := None\<rparr>) s)" by (rule lw_frame_upd_cpu) simp
  with None show ?thesis by (simp add: sched_dispatch_def)
next
  case (Some i)
  then have "i < length (tasks s)" by (simp add: pick_next_Some)
  then have "lw_frame (upd_task i f s) (upd_cpu c (\<lambda>pc. pc\<lparr>pc_current := Some i\<rparr>) (upd_task i f s))" for f
    by (intro lw_frame_upd_cpu) (simp add: view_simps)
  moreover have "lw_frame s (upd_task i (\<lambda>t. t\<lparr>t_state := TASK_RUNNING, t_quantum_left := SCHED_QUANTUM\<rparr>) s)"
    by (rule lw_frame_upd_task) simp
  ultimately show ?thesis using Some by (auto simp: sched_dispatch_def intro: lw_frame_trans)
qed

lemma lw_frame_tick: "lw_frame s (sched_tick c s)"
proof -
  let ?s1 = "wake_sleepers [0..<length (tasks s)] s"
  have q: "lw_frame u (upd_task i (\<lambda>t. t\<lparr>t_quantum_left := t_quantum_left t - 1\<rparr>) u)" for i u
    by (rule lw_frame_upd_task) simp
  have "lw_frame ?s1 (sched_tick c s)"
    unfolding sched_tick_def Let_def
    by (auto split: option.split intro: q lw_frame_resched lw_frame_trans [OF q lw_frame_resched])
  then show ?thesis by (rule lw_frame_trans [OF lw_frame_wake_sleepers])
qed

lemma lw_frame_prime: "lw_frame s (task_prime i name fn arg prio s)"
  unfolding task_prime_def task_next_key_def Let_def prod.case
  by (rule lw_frame_trans [OF lw_frame_next_key [unfolded task_next_key_def snd_conv]])
    (simp add: lw_frame_upd_task)

lemma lw_frame_post_irq: "lw_frame s (snd (sched_post_irq c s))"
  unfolding sched_post_irq_def Let_def
  by (auto split: option.split intro: lw_frame_resched lw_frame_trans [OF lw_frame_resched lw_frame_make_ready])

lemma sched_move_frame: "sched_move s s' \<Longrightarrow> lw_frame s s'"
proof (induction rule: sched_move.induct)
  case (10 c ms s s')
  then show ?case
    by (auto simp: msleep_def task_yield_def park_current_def Let_def split: if_splits option.splits
        intro!: lw_frame_make_ready lw_frame_trans [OF lw_frame_upd_task lw_frame_upd_task])
next
  case (12 s c h)
  then show ?case
    by (auto simp: wait_wake_all_def Let_def split: prod.split
        intro: lw_frame_wake_loop lw_frame_trans [OF lw_frame_wake_loop lw_frame_resched])
next
  case (6 s name fn arg prio)
  then show ?case
    by (auto simp: task_create_deferred_def split: option.split
        intro!: lw_frame_trans [OF lw_frame_prime lw_frame_upd_task])
next
  case (14 s)
  then show ?case by (simp add: lw_frame_def task_at_def current_task_def)
qed (auto simp: sched_landed_def task_create_def task_launch_def task_yield_def task_exit_def wait_sleep_when_def
      wq_park_def mark_dead_def split: option.splits if_splits
      intro!: lw_frame_dispatch lw_frame_tick lw_frame_post_irq lw_frame_prime lw_frame_make_ready lw_frame_upd_task)

section \<open>Keeping the invariant\<close>

lemma sync_inv_move:
  assumes "sync_inv y" and "lw_frame (sy_sched y) s'"
  shows "sync_inv (y\<lparr>sy_sched := s'\<rparr>)"
proof -
  have "waits_for (y\<lparr>sy_sched := s'\<rparr>) \<subseteq> waits_for y"
    using assms(2) by (fastforce simp: waits_for_def lw_frame_def)
  then have "acyclic (waits_for (y\<lparr>sy_sched := s'\<rparr>))"
    using assms(1) acyclic_subset by (auto simp: sync_inv_def)
  then show ?thesis
    using assms unfolding sync_inv_def lw_frame_def by (simp, metis option.distinct(1))
qed

lemma sync_inv_stats [simp]: "sync_inv (y\<lparr>sy_stats := st\<rparr>) = sync_inv y"
  by (simp add: sync_inv_def waits_for_def)

lemma sync_inv_regs [simp]:
  "sync_inv (y\<lparr>sy_mutex_reg := r\<rparr>) = sync_inv y" "sync_inv (y\<lparr>sy_sem_reg := r\<rparr>) = sync_inv y"
  by (simp_all add: sync_inv_def waits_for_def)

lemma sync_inv_sem:
  assumes "sync_inv y"
    and "i < length (sy_sem y) \<Longrightarrow> 0 \<le> ks_count (f (sy_sem y ! i)) \<and> ks_count (f (sy_sem y ! i)) \<le> ks_max (f (sy_sem y ! i))"
  shows "sync_inv (upd_sem i f y)"
  using assms by (auto simp: sync_inv_def waits_for_def upd_sem_def nth_list_update_if)

text \<open>A mutex whose owner stays or is cleared; a mutex given to a task that waits for
  nothing; a task that publishes an intent which closes no cycle.\<close>

lemma sync_inv_mtx:
  assumes "sync_inv y" and "km_owner (f (sy_mtx y ! m)) = None \<or> km_owner (f (sy_mtx y ! m)) = ow y m"
  shows "sync_inv (upd_mtx m f y)"
proof -
  have "waits_for (upd_mtx m f y) \<subseteq> waits_for y"
    using assms(2) by (auto simp: waits_for_def upd_mtx_def nth_list_update_if split: if_splits)
  then have "acyclic (waits_for (upd_mtx m f y))"
    using assms(1) acyclic_subset by (auto simp: sync_inv_def)
  then show ?thesis
    using assms by (auto simp: sync_inv_def upd_mtx_def nth_list_update_if)
qed

lemma acyclic_sink:
  assumes "acyclic R"
  shows "acyclic ({(a, b) \<in> R. a \<noteq> z} \<union> {(t, z) |t. t \<noteq> z})"
proof -
  let ?S = "{(a, b) \<in> R. a \<noteq> z} \<union> {(t, z) |t. t \<noteq> z}"
  have reach: "b = z \<or> (a, b) \<in> R\<^sup>+" if "(a, b) \<in> ?S\<^sup>+" for a b
    using that
  proof (induction rule: trancl_induct)
    case (step b c)
    then have "c = z \<or> (b, c) \<in> R" and "b \<noteq> z" by auto
    with step.IH show ?case by (auto intro: trancl_into_trancl)
  qed auto
  have "(x, x) \<notin> ?S\<^sup>+" for x
  proof
    assume x: "(x, x) \<in> ?S\<^sup>+"
    then have "x \<noteq> z" by (auto dest: tranclD)
    with reach [OF x] assms show False by (simp add: acyclic_def)
  qed
  then show ?thesis by (simp add: acyclic_def)
qed

lemma sync_inv_own:
  assumes "sync_inv y" and "me < MAX_TASKS" and "lw y me = None"
  shows "sync_inv (upd_mtx m (\<lambda>k. k\<lparr>km_owner := Some me\<rparr>) y)"
proof -
  let ?y = "upd_mtx m (\<lambda>k. k\<lparr>km_owner := Some me\<rparr>) y"
  have "waits_for ?y \<subseteq> {(a, b) \<in> waits_for y. a \<noteq> me} \<union> {(t, me) |t. t \<noteq> me}"
  proof (rule subsetI)
    fix e assume "e \<in> waits_for ?y"
    then obtain a b m' where e: "e = (a, b)" "a < length (tasks (sy_sched y))" "lw y a = Some m'"
      "(if m = m' \<and> m < length (sy_mtx y) then Some me else ow y m') = Some b"
      by (auto simp: waits_for_def upd_mtx_def nth_list_update_if split: if_splits)
    then have "a \<noteq> me" and "b = me \<or> (a, b) \<in> waits_for y"
      using assms(3) by (auto simp: waits_for_def split: if_splits)
    with e(1) show "e \<in> {(a, b) \<in> waits_for y. a \<noteq> me} \<union> {(t, me) |t. t \<noteq> me}" by blast
  qed
  moreover have "acyclic ({(a, b) \<in> waits_for y. a \<noteq> me} \<union> {(t, me) |t. t \<noteq> me})"
    by (rule acyclic_sink) (use assms(1) in \<open>simp add: sync_inv_def\<close>)
  ultimately have "acyclic (waits_for ?y)" by (rule acyclic_subset [rotated])
  then show ?thesis
    using assms by (auto simp: sync_inv_def upd_mtx_def nth_list_update_if)
qed

lemma sync_inv_lw_None: "sync_inv y \<Longrightarrow> sync_inv (set_lock_wait i None y)"
  unfolding set_lock_wait_def by (rule sync_inv_move) (auto intro: lw_frame_upd_task)

lemma sync_inv_walk:
  assumes "sync_inv y" and "m < length (sy_mtx y)"
  shows "would_deadlock me m y \<longleftrightarrow> (\<exists>t. ow y m = Some t \<and> (t, me) \<in> (waits_for y)\<^sup>*)"
  unfolding would_deadlock_def
  by (rule deadlock_walk_exact [where ok = "\<lambda>m. m < length (sy_mtx y)" and os = "[]"])
    (use assms in \<open>auto simp: sync_inv_def\<close>)

lemma sync_inv_publish:
  assumes "sync_inv y" and "m < length (sy_mtx y)" and "me < MAX_TASKS" and "\<not> would_deadlock me m y"
  shows "sync_inv (set_lock_wait me (Some m) y)"
proof -
  let ?y = "set_lock_wait me (Some m) y"
  have me: "me < length (tasks (sy_sched y))" using assms(1,3) by (simp add: sync_inv_def)
  have ac: "acyclic (waits_for y)" using assms(1) by (simp add: sync_inv_def)
  have "acyclic (waits_for ?y)"
  proof (cases "ow y m")
    case None
    then have "waits_for ?y \<subseteq> waits_for y"
      using me by (auto simp: waits_for_def set_lock_wait_def view_simps split: if_splits)
    with ac show ?thesis by (rule acyclic_subset)
  next
    case (Some t)
    then have "(t, me) \<notin> (waits_for y)\<^sup>*" using assms(4) sync_inv_walk [OF assms(1,2)] by blast
    with ac have "acyclic (insert (me, t) (waits_for y))" by (simp add: acyclic_insert)
    moreover have "waits_for ?y \<subseteq> insert (me, t) (waits_for y)"
      using me Some by (auto simp: waits_for_def set_lock_wait_def view_simps split: if_splits)
    ultimately show ?thesis by (rule acyclic_subset)
  qed
  then show ?thesis
    using assms me by (auto simp: sync_inv_def set_lock_wait_def view_simps)
qed

lemma sync_inv_wake_batch: "sync_inv y \<Longrightarrow> sync_inv (wake_batch c h y)"
  unfolding wake_batch_def Let_def
  by (auto split: prod.split intro!: sync_inv_move
      intro: lw_frame_wake_batch_loop lw_frame_trans [OF lw_frame_wake_batch_loop lw_frame_resched])

lemma sync_inv_current:
  "sync_inv y \<Longrightarrow> c < length (cpus (sy_sched y)) \<Longrightarrow> current_task c (sy_sched y) = Some i \<Longrightarrow> i < MAX_TASKS"
  by (simp add: sync_inv_def)

lemma lw_cleared: "i < length (tasks (sy_sched y)) \<Longrightarrow> lw (set_lock_wait i None y) i = None"
  by (simp add: set_lock_wait_def view_simps)

lemma sync_inv_lock:
  assumes inv: "sync_inv y" and c: "c < length (cpus (sy_sched y))" and m: "m < length (sy_mtx y)"
    and lock: "kmutex_lock c m y = Some (r, y')"
  shows "sync_inv y'"
proof -
  obtain me where cur: "current_task c (sy_sched y) = Some me"
    using lock by (auto simp: kmutex_lock_def split: option.splits)
  have me: "me < MAX_TASKS" by (rule sync_inv_current [OF inv c cur])
  then have me': "me < length (tasks (sy_sched y))" using inv by (simp add: sync_inv_def)
  have comm: "set_lock_wait me None (upd_mtx m g y) = upd_mtx m g (set_lock_wait me None y)" for g
    by (simp add: set_lock_wait_def upd_mtx_def)
  consider "ow y m = None" | "ow y m \<noteq> None" "would_deadlock me m y"
    | "ow y m \<noteq> None" "\<not> would_deadlock me m y" by blast
  then show ?thesis
  proof cases
    case 1
    have "sync_inv (upd_mtx m (\<lambda>k. k\<lparr>km_owner := Some me\<rparr>) (set_lock_wait me None y))"
      by (rule sync_inv_own [OF sync_inv_lw_None [OF inv] me lw_cleared [OF me']])
    with 1 lock cur show ?thesis by (auto simp: kmutex_lock_def comm)
  next
    case 2
    with lock cur inv show ?thesis by (auto simp: kmutex_lock_def sync_inv_lw_None)
  next
    case 3
    let ?y2 = "(set_lock_wait me (Some m) y)\<lparr>sy_stats := (sy_stats y)\<lparr>sy_blocks := sy_blocks (sy_stats y) + 1\<rparr>\<rparr>"
    obtain h s where hs: "wq_park me (km_wq (sy_mtx ?y2 ! m)) (sy_sched ?y2) = (h, s)" by force
    then have "lw_frame (sy_sched ?y2) s" by (auto simp: wq_park_def intro!: lw_frame_upd_task)
    then have "sync_inv (?y2\<lparr>sy_sched := s\<rparr>)"
      using sync_inv_publish [OF inv m me 3(2)] by (intro sync_inv_move) simp_all
    then have "sync_inv (upd_mtx m (\<lambda>k. k\<lparr>km_wq := h\<rparr>) (?y2\<lparr>sy_sched := s\<rparr>))"
      by (rule sync_inv_mtx) (simp add: upd_mtx_def)
    with 3 lock cur hs show ?thesis by (auto simp: kmutex_lock_def Let_def set_lock_wait_def)
  qed
qed

lemma sync_inv_try:
  assumes inv: "sync_inv y" and "c < length (cpus (sy_sched y))"
    and "\<And>me. current_task c (sy_sched y) = Some me \<Longrightarrow> lw y me = None"
  shows "sync_inv (snd (kmutex_try c m y))"
proof (cases "current_task c (sy_sched y)")
  case None
  then show ?thesis using inv by (auto simp: kmutex_try_def intro!: sync_inv_mtx)
next
  case (Some me)
  then show ?thesis
    using sync_inv_own [OF inv sync_inv_current [OF inv assms(2) Some] assms(3) [OF Some], of m] inv
    by (simp add: kmutex_try_def)
qed

lemma sync_inv_unlock: "sync_inv y \<Longrightarrow> sync_inv (kmutex_unlock c m y)"
  unfolding kmutex_unlock_def Let_def by (auto intro!: sync_inv_wake_batch sync_inv_mtx)

lemma sync_inv_kmutex_init: "sync_inv y \<Longrightarrow> sync_inv (kmutex_init m name y)"
  unfolding kmutex_init_def Let_def by (auto intro!: sync_inv_mtx)

lemma sync_inv_ksem_init: "sync_inv y \<Longrightarrow> sync_inv (ksem_init i name n mx y)"
  unfolding ksem_init_def Let_def by (auto intro!: sync_inv_sem)

lemma sync_inv_counts:
  "sync_inv y \<Longrightarrow> k < length (sy_sem y) \<Longrightarrow> 0 \<le> ks_count (sy_sem y ! k) \<and> ks_count (sy_sem y ! k) \<le> ks_max (sy_sem y ! k)"
  by (simp add: sync_inv_def)

lemma sync_inv_take:
  assumes "sync_inv y" and "0 < ks_count (sy_sem y ! i)"
  shows "sync_inv (upd_sem i (\<lambda>k. k\<lparr>ks_count := ks_count k - 1\<rparr>) y)"
  by (rule sync_inv_sem [OF assms(1)]) (use assms(2) sync_inv_counts [OF assms(1), of i] in auto)

lemma sync_inv_semq: "sync_inv y \<Longrightarrow> sync_inv (upd_sem i (\<lambda>k. k\<lparr>ks_wq := h\<rparr>) y)"
  by (rule sync_inv_sem) (auto dest: sync_inv_counts)

lemma sync_inv_trywait: "sync_inv y \<Longrightarrow> sync_inv (snd (ksem_trywait i y))"
  by (simp add: ksem_trywait_def sync_inv_take)

lemma sync_inv_wait:
  assumes inv: "sync_inv y" and w: "ksem_wait c i y = Some (b, y')"
  shows "sync_inv y'"
proof -
  have "lw_frame (sy_sched y) (upd_task me (\<lambda>t. t\<lparr>t_wq_next := h, t_state := TASK_BLOCKED\<rparr>) (sy_sched y))" for me h
    by (rule lw_frame_upd_task) simp
  then have "sync_inv (y\<lparr>sy_stats := st, sy_sched := upd_task me (\<lambda>t. t\<lparr>t_wq_next := h, t_state := TASK_BLOCKED\<rparr>) (sy_sched y)\<rparr>)"
    for me h st
    using inv sync_inv_move [of "y\<lparr>sy_stats := st\<rparr>"] by simp
  then show ?thesis
    using w inv
    by (auto simp: ksem_wait_def Let_def wq_park_def sync_inv_take split: option.splits if_splits intro!: sync_inv_semq)
qed

lemma sync_inv_post:
  assumes inv: "sync_inv y"
  shows "sync_inv (ksem_post c i y)"
proof -
  have "sync_inv (upd_sem i (\<lambda>k. k\<lparr>ks_count := ks_count k + 1\<rparr>) y)"
    if "ks_count (sy_sem y ! i) < ks_max (sy_sem y ! i)"
    by (rule sync_inv_sem [OF inv]) (use that sync_inv_counts [OF inv, of i] in auto)
  then show ?thesis using inv by (simp add: ksem_post_def Let_def sync_inv_wake_batch sync_inv_semq)
qed

section \<open>Interleavings\<close>

text \<open>
  The start: an idle machine with \<open>nm\<close> free mutexes and \<open>ns\<close> semaphores in their zeroed
  state. A task calls \<open>kmutex_try\<close> only outside \<open>kmutex_lock\<close>, where its intent is clear.
\<close>

definition sync_start :: "nat \<Rightarrow> nat \<Rightarrow> sync" where
  "sync_start nm ns = \<lparr>sy_sched = sched_init,
     sy_mtx = replicate nm \<lparr>km_name = ''kmutex'', km_owner = None, km_wq = None\<rparr>,
     sy_sem = replicate ns \<lparr>ks_name = ''ksem'', ks_count = 0, ks_max = 0, ks_wq = None\<rparr>,
     sy_stats = \<lparr>sy_acquires = 0, sy_blocks = 0, sy_deadlocks = 0, sy_max_wakeups = 0\<rparr>,
     sy_mutex_reg = replicate SYNC_REG_MAX None, sy_sem_reg = replicate SYNC_REG_MAX None\<rparr>"

inductive sync_step :: "sync \<Rightarrow> sync \<Rightarrow> bool" where
  move: "sched_move (sy_sched y) s' \<Longrightarrow> sync_step y (y\<lparr>sy_sched := s'\<rparr>)"
| lock: "c < length (cpus (sy_sched y)) \<Longrightarrow> m < length (sy_mtx y) \<Longrightarrow> kmutex_lock c m y = Some (r, y') \<Longrightarrow> sync_step y y'"
| trylock: "c < length (cpus (sy_sched y)) \<Longrightarrow> m < length (sy_mtx y) \<Longrightarrow>
    (\<And>me. current_task c (sy_sched y) = Some me \<Longrightarrow> lw y me = None) \<Longrightarrow> kmutex_try c m y = (r, y') \<Longrightarrow> sync_step y y'"
| unlock: "m < length (sy_mtx y) \<Longrightarrow> sync_step y (kmutex_unlock c m y)"
| minit: "m < length (sy_mtx y) \<Longrightarrow> sync_step y (kmutex_init m name y)"
| seminit: "k < length (sy_sem y) \<Longrightarrow> sync_step y (ksem_init k name n mx y)"
| semwait: "k < length (sy_sem y) \<Longrightarrow> ksem_wait c k y = Some (b, y') \<Longrightarrow> sync_step y y'"
| semtry: "k < length (sy_sem y) \<Longrightarrow> ksem_trywait k y = (r, y') \<Longrightarrow> sync_step y y'"
| sempost: "k < length (sy_sem y) \<Longrightarrow> sync_step y (ksem_post c k y)"

inductive sync_reachable :: "sync \<Rightarrow> bool" where
  sync_begin: "sync_reachable (sync_start nm ns)"
| sync_go: "sync_reachable y \<Longrightarrow> sync_step y y' \<Longrightarrow> sync_reachable y'"

lemma sync_inv_start: "sync_inv (sync_start nm ns)"
proof -
  have "waits_for (sync_start nm ns) = {}"
    by (auto simp: sync_start_def sched_init_def waits_for_def task_at_def unused_task_def)
  then show ?thesis
    by (auto simp: sync_inv_def sync_start_def sched_init_def task_at_def current_task_def
        unused_task_def acyclic_def)
qed

lemma sync_step_inv: "sync_step y y' \<Longrightarrow> sync_inv y \<Longrightarrow> sync_inv y'"
proof (induction rule: sync_step.induct)
  case (trylock c y m r y')
  then show ?case using sync_inv_try [of y c m] by simp
next
  case (semtry k y r y')
  then show ?case using sync_inv_trywait [of y k] by simp
qed (auto simp: sync_inv_unlock sync_inv_kmutex_init sync_inv_ksem_init sync_inv_post sched_move_frame
      intro: sync_inv_move sync_inv_lock sync_inv_wait)

lemma sync_reachable_inv: "sync_reachable y \<Longrightarrow> sync_inv y"
  by (induction rule: sync_reachable.induct) (auto simp: sync_inv_start intro: sync_step_inv)

section \<open>The properties\<close>

text \<open>C2: The deadlock detector keeps the wait-for graph acyclic: in every state that any
  interleaving of lock, try, unlock, semaphore and scheduler calls reaches, no group of tasks
  waits in a circle for mutexes the others of the group own.\<close>

theorem wait_graph_acyclic:
  assumes "sync_reachable y"
  shows "acyclic (waits_for y)"
  using sync_reachable_inv [OF assms] by (simp add: sync_inv_def)

text \<open>Two tasks, two mutexes: task 0 owns mutex 0, task 1 owns mutex 1 and has parked on
  mutex 0.\<close>

definition crossed0 :: sync where
  "crossed0 = (sync_start 2 1)\<lparr>sy_sched :=
     sched_dispatch 1 (sched_dispatch 0 ready_two)\<rparr>"

definition crossed1 :: sync where "crossed1 = snd (the (kmutex_lock 0 0 crossed0))"
definition crossed2 :: sync where "crossed2 = snd (the (kmutex_lock 1 1 crossed1))"
definition crossed :: sync where "crossed = snd (the (kmutex_lock 1 0 crossed2))"

lemma crossed0_reachable: "sync_reachable crossed0"
proof -
  let ?y = "\<lambda>s. (sync_start 2 1)\<lparr>sy_sched := s\<rparr>"
  have r: "sync_reachable (?y s')" if "sync_reachable (?y s)" "sched_move s s'" for s s'
    using sync_go [OF that(1) move [of "?y s" s']] that(2) by simp
  have "sync_reachable (?y sched_init)" using sync_begin [of 2 1] by (simp add: sync_start_def)
  then show ?thesis unfolding crossed0_def ready_two_def by (intro r [OF _ sched_move.intros(1)] r [OF _ sched_move.intros(5)])
qed

lemma ready_two_frame: "lw_frame sched_init ready_two"
  unfolding ready_two_def
  by (rule lw_frame_trans [OF sched_move_frame [OF sched_move.intros(5)] sched_move_frame [OF sched_move.intros(5)]])

lemma crossed0_frame: "lw_frame sched_init (sy_sched crossed0)"
  unfolding crossed0_def
  using lw_frame_trans [OF lw_frame_trans [OF ready_two_frame lw_frame_dispatch] lw_frame_dispatch] by simp

lemma crossed0_views:
  "current_task 0 (sy_sched crossed0) = Some 0" "current_task 1 (sy_sched crossed0) = Some 1"
  "lw crossed0 0 = None" "lw crossed0 1 = None" "length (tasks (sy_sched crossed0)) = 64"
  "length (cpus (sy_sched crossed0)) = 2"
proof -
  have "length (tasks ready_two) = 64" "length (cpus ready_two) = 2"
    using ready_two_frame by (simp_all add: lw_frame_def sched_init_def)
  then show "current_task 0 (sy_sched crossed0) = Some 0" "current_task 1 (sy_sched crossed0) = Some 1"
    using ready_two_picks
    by (simp_all add: crossed0_def sched_dispatch_def view_simps)
  show "lw crossed0 0 = None" "lw crossed0 1 = None" "length (tasks (sy_sched crossed0)) = 64"
    "length (cpus (sy_sched crossed0)) = 2"
    using crossed0_frame by (auto simp: lw_frame_def sched_init_def task_at_def unused_task_def nth_Cons')
qed

lemma crossed0_mtx: "length (sy_mtx crossed0) = 2" "ow crossed0 0 = None" "ow crossed0 1 = None"
  by (simp_all add: crossed0_def sync_start_def numeral_2_eq_2)

lemma crossed1_views:
  "kmutex_lock 0 0 crossed0 = Some (Return 0, crossed1)" "length (sy_mtx crossed1) = 2"
  "current_task 0 (sy_sched crossed1) = Some 0" "current_task 1 (sy_sched crossed1) = Some 1"
  "lw crossed1 0 = None" "lw crossed1 1 = None" "length (tasks (sy_sched crossed1)) = 64"
  "ow crossed1 0 = Some 0" "ow crossed1 1 = None" "length (cpus (sy_sched crossed1)) = 2"
  using crossed0_views crossed0_mtx
  by (simp_all add: crossed1_def kmutex_lock_def set_lock_wait_def upd_mtx_def view_simps)

lemma crossed2_wq: "km_wq (sy_mtx crossed2 ! 0) = None"
proof -
  have "km_wq (sy_mtx crossed1 ! 0) = None"
    using crossed0_views crossed0_mtx
    by (simp add: crossed1_def kmutex_lock_def set_lock_wait_def upd_mtx_def)
      (simp add: crossed0_def sync_start_def)
  then show ?thesis
    using crossed1_views
    by (simp add: crossed2_def kmutex_lock_def set_lock_wait_def upd_mtx_def)
qed

lemma crossed2_views:
  "kmutex_lock 1 1 crossed1 = Some (Return 0, crossed2)" "length (sy_mtx crossed2) = 2"
  "current_task 0 (sy_sched crossed2) = Some 0" "current_task 1 (sy_sched crossed2) = Some 1"
  "lw crossed2 0 = None" "lw crossed2 1 = None" "length (tasks (sy_sched crossed2)) = 64"
  "ow crossed2 0 = Some 0" "ow crossed2 1 = Some 1" "length (cpus (sy_sched crossed2)) = 2"
  using crossed1_views
  by (simp_all add: crossed2_def kmutex_lock_def set_lock_wait_def upd_mtx_def view_simps)

lemma crossed_views:
  "kmutex_lock 1 0 crossed2 = Some (Parked, crossed)" "length (sy_mtx crossed) = 2"
  "lw crossed 0 = None" "lw crossed 1 = Some 0" "length (tasks (sy_sched crossed)) = 64"
  "ow crossed 0 = Some 0" "ow crossed 1 = Some 1"
  "current_task 0 (sy_sched crossed) = Some 0"
  "km_wq (sy_mtx crossed2 ! 0) = None \<Longrightarrow> km_wq (sy_mtx crossed ! 0) = Some 1 \<and> nx_of (sy_sched crossed) 1 = None"
  using crossed2_views
  by (simp_all add: crossed_def kmutex_lock_def would_deadlock_def deadlock_walk.simps [of crossed2]
      set_lock_wait_def upd_mtx_def view_simps wq_park_def)

lemma crossed_reachable: "sync_reachable crossed"
proof -
  have "sync_reachable crossed1"
    by (rule sync_go [OF crossed0_reachable lock [of 0 _ 0]]) (simp_all add: crossed0_views crossed0_mtx crossed1_views(1))
  then have "sync_reachable crossed2"
    by (rule sync_go [OF _ lock [of 1 _ 1]]) (simp_all add: crossed1_views(2,10) crossed2_views(1) del: One_nat_def)
  then show ?thesis
    by (rule sync_go [OF _ lock [of 1 _ 0]]) (simp_all add: crossed2_views(2,10) crossed_views(1) del: One_nat_def)
qed

theorem wait_graph_acyclic_witness: "(1, 0) \<in> waits_for crossed \<and> acyclic (waits_for crossed)"
  using wait_graph_acyclic [OF crossed_reachable] by (simp add: waits_for_def crossed_views del: One_nat_def)

text \<open>C3: The bounded walk of the detector is exact: in a reachable state it reports a deadlock
  for task \<open>me\<close> and mutex \<open>m\<close> if and only if \<open>m\<close> has an owner that is \<open>me\<close> itself or waits,
  directly or through a chain of owners, for \<open>me\<close>. The budget of 128 hops never cuts the
  walk short, since a chain passes each of the 64 tasks at most once.\<close>

theorem would_deadlock_exact:
  assumes "sync_reachable y" and "m < length (sy_mtx y)"
  shows "would_deadlock me m y \<longleftrightarrow> (\<exists>t. km_owner (sy_mtx y ! m) = Some t \<and> (t, me) \<in> (waits_for y)\<^sup>*)"
  by (rule sync_inv_walk [OF sync_reachable_inv [OF assms(1)] assms(2)])

theorem would_deadlock_exact_witness: "would_deadlock 0 1 crossed \<and> \<not> would_deadlock 2 1 crossed"
proof -
  have "(1, 0) \<in> (waits_for crossed)\<^sup>*" by (rule r_into_rtrancl) (simp add: waits_for_def crossed_views del: One_nat_def)
  moreover have "t = 1 \<or> t = 0" if "(1, t) \<in> (waits_for crossed)\<^sup>*" for t
    using that by (induction rule: rtrancl_induct) (auto simp: waits_for_def crossed_views simp del: One_nat_def)
  then have "(1, 2) \<notin> (waits_for crossed)\<^sup>*" by force
  ultimately show ?thesis
    using would_deadlock_exact [OF crossed_reachable, of 1] by (simp add: crossed_views del: One_nat_def)
qed

text \<open>A semaphore's count stays between zero and its maximum in every reachable state:
  \<open>ksem_wait\<close> and \<open>ksem_trywait\<close> never take a unit that is not there and \<open>ksem_post\<close> never
  exceeds the maximum.\<close>

theorem ksem_count_bounds:
  assumes "sync_reachable y" and "k < length (sy_sem y)"
  shows "0 \<le> ks_count (sy_sem y ! k) \<and> ks_count (sy_sem y ! k) \<le> ks_max (sy_sem y ! k)"
  by (rule sync_inv_counts [OF sync_reachable_inv [OF assms(1)] assms(2)])

definition one_sem :: sync where
  "one_sem = ksem_init 0 None 5 2 (sync_start 0 1)"

theorem ksem_count_bounds_witness: "ks_count (sy_sem one_sem ! 0) = 2 \<and> ks_count (sy_sem one_sem ! 0) \<le> ks_max (sy_sem one_sem ! 0)"
proof -
  have "sync_reachable one_sem" unfolding one_sem_def
    by (rule sync_go [OF sync_begin seminit]) (simp add: sync_start_def)
  then show ?thesis
    using ksem_count_bounds [of one_sem 0] by (simp add: one_sem_def ksem_init_def upd_sem_def sync_start_def)
qed

section \<open>Waking a lock's waiters\<close>

lemma wake_batch_loop_states:
  assumes "wq_chain s h ks" and "distinct ks" and "wake_batch_loop cur h p n s = (p', n', s')"
  shows "st_of s' j = (if j \<in> set ks then TASK_READY else st_of s j) \<and> n' = n + length ks"
  using assms
proof (induction ks arbitrary: h p n s)
  case (Cons i ks)
  let ?s = "make_ready i (upd_task i (\<lambda>t. t\<lparr>t_wq_next := None\<rparr>) s)"
  have i: "h = Some i" "i < length (tasks s)" "wq_chain s (nx_of s i) ks" "i \<notin> set ks" "distinct ks"
    using Cons.prems by auto
  obtain q where "wake_batch_loop cur (nx_of s i) q (Suc n) ?s = (p', n', s')"
    using Cons.prems(3) i(1,2) by auto
  moreover have "wq_chain ?s (nx_of s i) ks"
    using i(2,3,4) by (subst wq_chain_cong [of _ _ s]) (auto simp: view_simps)
  ultimately have "st_of s' j = (if j \<in> set ks then TASK_READY else st_of ?s j) \<and> n' = Suc n + length ks"
    using Cons.IH i(5) by blast
  then show ?case using i(2,4) by (auto simp: view_simps)
qed simp

text \<open>Releasing a mutex makes every task parked on it ready, whatever its state: a task
  killed while it waited for the mutex is put back on the run queue, unlike in
  \<open>wait_wake_all\<close>, which leaves the dead alone.\<close>

theorem kmutex_unlock_wakes:
  assumes "km_owner (sy_mtx y ! m) = current_task c (sy_sched y)"
    and "wq_chain (sy_sched y) (km_wq (sy_mtx y ! m)) ks" and "distinct ks" and "m < length (sy_mtx y)"
  shows "km_owner (sy_mtx (kmutex_unlock c m y) ! m) = None \<and>
    (\<forall>i. t_state (task_at (sy_sched (kmutex_unlock c m y)) i) =
          (if i \<in> set ks then TASK_READY else t_state (task_at (sy_sched y) i)))"
proof -
  obtain p n s where w: "wake_batch_loop (map_option (\<lambda>i. t_prio (task_at (sy_sched y) i)) (current_task c (sy_sched y)))
      (km_wq (sy_mtx y ! m)) False 0 (sy_sched y) = (p, n, s)"
    by (metis prod_cases3)
  show ?thesis
    using assms w wake_batch_loop_states [OF assms(2,3) w]
    by (simp add: kmutex_unlock_def wake_batch_def upd_mtx_def Let_def view_simps)
qed

theorem kmutex_unlock_wakes_witness:
  "t_state (task_at (sy_sched (kmutex_unlock 0 0 crossed)) 1) = TASK_READY"
proof -
  have q: "km_wq (sy_mtx crossed ! 0) = Some 1" "nx_of (sy_sched crossed) 1 = None"
    using crossed_views(9) [OF crossed2_wq] by simp_all
  then show ?thesis
    using kmutex_unlock_wakes [of crossed 0 0 "[1]"] by (simp add: crossed_views del: One_nat_def)
qed

end
