(* ===== verification/Ipc_Props.thy ===== *)
theory Ipc_Props
  imports Ipc
begin

text \<open>
  What pipes and the poll queue promise: a pipe is a byte stream that neither loses,
  duplicates nor reorders bytes; a write wakes the readers; and two defects: the slot of a
  pipe is never given back, and a poller that timed out corrupts the poll queue when it
  parks again.
\<close>

section \<open>Wakes and the scheduler state\<close>

lemma wake_loop_current: "wake_loop cur h p s = (p', s') \<Longrightarrow> current_task c s' = current_task c s"
  by (induction cur h p s rule: wake_loop.induct) (auto simp: Let_def view_simps split: if_splits)

lemma wake_loop_keeps_ready:
  "wake_loop cur h p s = (p', s') \<Longrightarrow> st_of s j = TASK_READY \<Longrightarrow> st_of s' j = TASK_READY"
proof (induction cur h p s rule: wake_loop.induct)
  case (2 cur i p s)
  let ?s1 = "upd_task i (\<lambda>t. t\<lparr>t_wq_next := None\<rparr>) s"
  show ?case
  proof (cases "i < length (tasks s)")
    case True
    then have "st_of ?s1 j = TASK_READY" "st_of (make_ready i ?s1) j = TASK_READY"
      using 2(4) by (auto simp: view_simps)
    then show ?thesis
      using 2(1) [OF True refl refl] 2(2) [OF True refl refl] 2(3) True by (auto simp: Let_def split: if_splits)
  qed (use 2 in simp)
qed simp

lemma ipc_wake_current [simp]: "current_task c (snd (ipc_wake h s)) = current_task c s"
  by (cases "wake_loop None h False s") (simp add: ipc_wake_def wake_loop_current)

lemma ipc_wake_None [simp]: "ipc_wake None s = (None, s)"
  by (simp add: ipc_wake_def)

lemma ipc_wake_fst [simp]: "fst (ipc_wake h s) = None"
  by (simp add: ipc_wake_def)

lemma pollers_simps [simp]:
  "ip_pipes (ipc_wake_pollers x) = ip_pipes x"
  "ip_pipe_used (ipc_wake_pollers x) = ip_pipe_used x"
  "current_task c (ip_sched (ipc_wake_pollers x)) = current_task c (ip_sched x)"
  using ipc_wake_current [of c "ip_poll_wq x" "ip_sched x"]
  by (cases "ipc_wake (ip_poll_wq x) (ip_sched x)"; simp add: ipc_wake_pollers_def)+

lemma set_pipe_simps [simp]:
  "ip_sched (set_pipe k p x) = ip_sched x" "ip_pipe_used (set_pipe k p x) = ip_pipe_used x"
  "ip_pipes (set_pipe k p x) = (ip_pipes x)[k := Some p]"
  by (simp_all add: set_pipe_def)

section \<open>The stream\<close>

datatype pipe_op = Read nat nat | Write nat "u8 list"

text \<open>Run a sequence of read and write iterations on pipe \<open>k\<close> and collect the bytes handed
  out and the bytes accepted.\<close>

fun pipe_run :: "nat \<Rightarrow> pipe_op list \<Rightarrow> ipc \<Rightarrow> (u8 list \<times> u8 list \<times> ipc) option" where
  "pipe_run k [] x = Some ([], [], x)"
| "pipe_run k (Read c n # es) x =
    (case pipe_read c k True n x of
       None \<Rightarrow> None
     | Some (r, x1) \<Rightarrow> map_option (\<lambda>(out, acc, x2). ((case r of Done (_, bs) \<Rightarrow> bs | Blocked \<Rightarrow> []) @ out, acc, x2))
                          (pipe_run k es x1))"
| "pipe_run k (Write c bs # es) x =
    (case pipe_write c k (Some bs) (length bs) x of
       None \<Rightarrow> None
     | Some (r, x1) \<Rightarrow> map_option (\<lambda>(out, acc, x2). (out, (case r of Done n \<Rightarrow> take (nat n) bs | Blocked \<Rightarrow> []) @ acc, x2))
                          (pipe_run k es x1))"

fun op_cpu :: "pipe_op \<Rightarrow> nat" where
  "op_cpu (Read c n) = c"
| "op_cpu (Write c bs) = c"

lemma pipe_read_stream:
  assumes "k < length (ip_pipes x)" and "ip_pipes x ! k = Some p" and "pipe_inv p" and "current_task c (ip_sched x) \<noteq> None"
  shows "\<exists>r x' p'. pipe_read c k True n x = Some (r, x') \<and> length (ip_pipes x') = length (ip_pipes x) \<and>
    ip_pipes x' ! k = Some p' \<and> pipe_inv p' \<and> (\<forall>d. current_task d (ip_sched x') = current_task d (ip_sched x)) \<and>
    pipe_bytes p = (case r of Done (_, bs) \<Rightarrow> bs | Blocked \<Rightarrow> []) @ pipe_bytes p'"
proof -
  consider "n = 0" | "0 < n" "0 < pp_len p" | "0 < n" "pp_len p = 0" "pp_writers p = 0 \<or> pp_wr_dead p"
    | "0 < n" "pp_len p = 0" "\<not> (pp_writers p = 0 \<or> pp_wr_dead p)" by linarith
  then show ?thesis
  proof cases
    case 2
    define t where "t = (if pp_len p < n then pp_len p else n)"
    have "t \<le> pp_len p" by (simp add: t_def)
    then obtain h where h: "pipe_copy_out p t [] = Some (take t (pipe_bytes p), p\<lparr>pp_head := h, pp_len := pp_len p - t\<rparr>)"
      "pipe_inv (p\<lparr>pp_head := h, pp_len := pp_len p - t\<rparr>)"
      "pipe_bytes (p\<lparr>pp_head := h, pp_len := pp_len p - t\<rparr>) = drop t (pipe_bytes p)"
      using pipe_copy_out_gives [OF assms(3), of t "[]"] by auto
    obtain s where s: "ipc_wake (pp_wq p) (ip_sched x) = (None, s)" by (simp add: ipc_wake_def)
    then have "current_task d s = current_task d (ip_sched x)" for d
      using ipc_wake_current [of d "pp_wq p" "ip_sched x"] by simp
    moreover have "pipe_inv (p\<lparr>pp_head := h, pp_len := pp_len p - t, pp_wq := None\<rparr>)"
      "pipe_bytes (p\<lparr>pp_head := h, pp_len := pp_len p - t, pp_wq := None\<rparr>) = drop t (pipe_bytes p)"
      using h(2,3) by (simp_all add: pipe_inv_def pipe_bytes_def)
    ultimately show ?thesis
      using 2 h(1) s assms(1,2) by (simp add: pipe_read_def t_def [symmetric] Let_def)
  next
    case 4
    then show ?thesis
      using assms by (auto simp: pipe_read_def ipc_park_def wq_park_def view_simps pipe_inv_def pipe_bytes_def)
  qed (use assms in \<open>auto simp: pipe_read_def\<close>)
qed

lemma pipe_write_stream:
  assumes "k < length (ip_pipes x)" and "ip_pipes x ! k = Some p" and "pipe_inv p" and "current_task c (ip_sched x) \<noteq> None"
  shows "\<exists>r x' p'. pipe_write c k (Some bs) (length bs) x = Some (r, x') \<and> length (ip_pipes x') = length (ip_pipes x) \<and>
    ip_pipes x' ! k = Some p' \<and> pipe_inv p' \<and> (\<forall>d. current_task d (ip_sched x') = current_task d (ip_sched x)) \<and>
    pipe_bytes p' = pipe_bytes p @ (case r of Done m \<Rightarrow> take (nat m) bs | Blocked \<Rightarrow> [])"
proof -
  consider "bs = []" | "bs \<noteq> []" "pp_readers p = 0 \<or> pp_rd_dead p"
    | "bs \<noteq> []" "\<not> (pp_readers p = 0 \<or> pp_rd_dead p)" "pp_len p < PIPE_BUF_CAP"
    | "bs \<noteq> []" "\<not> (pp_readers p = 0 \<or> pp_rd_dead p)" "\<not> pp_len p < PIPE_BUF_CAP" by blast
  then show ?thesis
  proof cases
    case 3
    define t where "t = (if PIPE_BUF_CAP - pp_len p < length bs then PIPE_BUF_CAP - pp_len p else length bs)"
    have "length (take t bs) \<le> PIPE_BUF_CAP - pp_len p" by (simp add: t_def)
    from pipe_copy_in_gives [OF assms(3) this] obtain b where
      b: "pipe_copy_in p (take t bs) = Some (p\<lparr>pp_buf := b, pp_len := pp_len p + length (take t bs)\<rparr>)"
      "pipe_inv (p\<lparr>pp_buf := b, pp_len := pp_len p + length (take t bs)\<rparr>)"
      "pipe_bytes (p\<lparr>pp_buf := b, pp_len := pp_len p + length (take t bs)\<rparr>) = pipe_bytes p @ take t bs" by blast
    obtain s where s: "ipc_wake (pp_rq p) (ip_sched x) = (None, s)" by (simp add: ipc_wake_def)
    then have "current_task d s = current_task d (ip_sched x)" for d
      using ipc_wake_current [of d "pp_rq p" "ip_sched x"] by simp
    moreover have "pipe_inv (p\<lparr>pp_buf := b, pp_len := pp_len p + length (take t bs), pp_rq := None\<rparr>)"
      "pipe_bytes (p\<lparr>pp_buf := b, pp_len := pp_len p + length (take t bs), pp_rq := None\<rparr>) = pipe_bytes p @ take t bs"
      using b(2,3) by (simp_all add: pipe_inv_def pipe_bytes_def)
    ultimately show ?thesis
      using 3 b(1) s assms(1,2) by (simp add: pipe_write_def t_def [symmetric] Let_def del: length_take)
  next
    case 4
    then show ?thesis
      using assms by (auto simp: pipe_write_def ipc_park_def wq_park_def view_simps pipe_inv_def pipe_bytes_def)
  qed (use assms in \<open>auto simp: pipe_write_def\<close>)
qed

text \<open>C26: A pipe is a byte stream: for every sequence of reads and writes by running tasks the
  calls all complete or park, and what was in the pipe followed by the bytes accepted from
  writers is exactly what readers received followed by what is left in the pipe.\<close>

theorem pipe_is_stream:
  assumes "k < length (ip_pipes x)" and "ip_pipes x ! k = Some p" and "pipe_inv p"
    and "\<forall>e \<in> set es. current_task (op_cpu e) (ip_sched x) \<noteq> None"
  shows "\<exists>out acc x' p'. pipe_run k es x = Some (out, acc, x') \<and> ip_pipes x' ! k = Some p' \<and> pipe_inv p' \<and>
    pipe_bytes p @ acc = out @ pipe_bytes p'"
  using assms
proof (induction es arbitrary: x p)
  case Nil
  then show ?case by simp
next
  case (Cons e es)
  show ?case
  proof (cases e)
    case (Read c n)
    obtain r x1 p1 where 1: "pipe_read c k True n x = Some (r, x1)" "length (ip_pipes x1) = length (ip_pipes x)"
      "ip_pipes x1 ! k = Some p1" "pipe_inv p1" "\<forall>d. current_task d (ip_sched x1) = current_task d (ip_sched x)"
      "pipe_bytes p = (case r of Done (_, bs) \<Rightarrow> bs | Blocked \<Rightarrow> []) @ pipe_bytes p1"
      using pipe_read_stream [OF Cons.prems(1-3), of c n] Cons.prems(4) Read by auto
    obtain out acc x' p' where "pipe_run k es x1 = Some (out, acc, x')" "ip_pipes x' ! k = Some p'" "pipe_inv p'"
      "pipe_bytes p1 @ acc = out @ pipe_bytes p'"
      using Cons.IH [of x1 p1] 1 Cons.prems by auto
    with 1 show ?thesis by (simp add: Read)
  next
    case (Write c bs)
    obtain r x1 p1 where 1: "pipe_write c k (Some bs) (length bs) x = Some (r, x1)" "length (ip_pipes x1) = length (ip_pipes x)"
      "ip_pipes x1 ! k = Some p1" "pipe_inv p1" "\<forall>d. current_task d (ip_sched x1) = current_task d (ip_sched x)"
      "pipe_bytes p1 = pipe_bytes p @ (case r of Done m \<Rightarrow> take (nat m) bs | Blocked \<Rightarrow> [])"
      using pipe_write_stream [OF Cons.prems(1-3), of c bs] Cons.prems(4) Write by auto
    obtain out acc x' p' where "pipe_run k es x1 = Some (out, acc, x')" "ip_pipes x' ! k = Some p'" "pipe_inv p'"
      "pipe_bytes p1 @ acc = out @ pipe_bytes p'"
      using Cons.IH [of x1 p1] 1 Cons.prems by auto
    with 1 show ?thesis by (simp add: Write)
  qed
qed

text \<open>A fresh pipe on a machine whose cpu 0 runs task 0.\<close>

definition ipc_demo :: ipc where
  "ipc_demo = \<lparr>ip_sched = upd_cpu 0 (\<lambda>pc. pc\<lparr>pc_current := Some 0\<rparr>) sched_init, ip_poll_wq = None,
     ip_pipe_used = replicate PIPES_MAX False, ip_pipes = [Some new_pipe], ip_wakes = 0, ip_bytes_flowed = 0\<rparr>"

lemma ipc_demo_facts:
  "0 < length (ip_pipes ipc_demo)" "ip_pipes ipc_demo ! 0 = Some new_pipe" "pipe_inv new_pipe"
  "pipe_bytes new_pipe = []" "current_task 0 (ip_sched ipc_demo) = Some 0"
  by (simp_all add: ipc_demo_def new_pipe_def pipe_inv_def pipe_bytes_def upd_cpu_def sched_init_def
      current_task_def numeral_2_eq_2)

theorem pipe_is_stream_witness:
  "\<exists>out acc x' p'. pipe_run 0 [Write 0 [1, 2, 3], Read 0 2, Read 0 5] ipc_demo = Some (out, acc, x') \<and>
     ip_pipes x' ! 0 = Some p' \<and> acc = out @ pipe_bytes p'"
  using pipe_is_stream [OF ipc_demo_facts(1-3), of "[Write 0 [1, 2, 3], Read 0 2, Read 0 5]"] ipc_demo_facts(4,5)
  by auto

section \<open>Waking readers\<close>

lemma ipc_wake_states:
  assumes "wq_chain s h ks" and "distinct ks"
  shows "st_of (snd (ipc_wake h s)) j = (if j \<in> set ks \<and> st_of s j \<noteq> TASK_DEAD then TASK_READY else st_of s j)"
proof -
  obtain p s' where w: "wake_loop None h False s = (p, s')" by fastforce
  with wake_loop_views(4) [OF assms w] show ?thesis by (simp add: ipc_wake_def)
qed

lemma pollers_keep_ready: "st_of (ip_sched x) j = TASK_READY \<Longrightarrow> st_of (ip_sched (ipc_wake_pollers x)) j = TASK_READY"
  by (cases "wake_loop None (ip_poll_wq x) False (ip_sched x)")
    (auto simp: ipc_wake_pollers_def ipc_wake_def dest: wake_loop_keeps_ready)

text \<open>C27: A write that puts bytes into a pipe leaves no reader behind: every task parked on
  the pipe's read queue is ready afterwards (unless it was killed meanwhile), the queue is
  empty, and the number of bytes reported is the number of bytes queued.\<close>

theorem pipe_write_wakes_readers:
  assumes "k < length (ip_pipes x)" and "ip_pipes x ! k = Some p" and "pipe_inv p"
    and "bs \<noteq> []" and "pp_readers p \<noteq> 0" and "\<not> pp_rd_dead p" and "pp_len p < PIPE_BUF_CAP"
    and "wq_chain (ip_sched x) (pp_rq p) ks" and "distinct ks"
  shows "\<exists>n x' p'. pipe_write c k (Some bs) (length bs) x = Some (Done (int n), x') \<and>
    n = min (length bs) (PIPE_BUF_CAP - pp_len p) \<and> 0 < n \<and> ip_pipes x' ! k = Some p' \<and>
    pp_len p' = pp_len p + n \<and> pp_rq p' = None \<and>
    (\<forall>i \<in> set ks. t_state (task_at (ip_sched x) i) \<noteq> TASK_DEAD \<longrightarrow> t_state (task_at (ip_sched x') i) = TASK_READY)"
proof -
  define t where "t = (if PIPE_BUF_CAP - pp_len p < length bs then PIPE_BUF_CAP - pp_len p else length bs)"
  have "length (take t bs) \<le> PIPE_BUF_CAP - pp_len p" by (simp add: t_def)
  from pipe_copy_in_gives [OF assms(3) this] obtain b where
    b: "pipe_copy_in p (take t bs) = Some (p\<lparr>pp_buf := b, pp_len := pp_len p + length (take t bs)\<rparr>)" by blast
  have lt: "length (take t bs) = t" by (simp add: t_def)
  have t: "t = min (length bs) (PIPE_BUF_CAP - pp_len p)" "0 < t"
    using assms(4,7) by (simp_all add: t_def min_def)
  obtain s where s: "ipc_wake (pp_rq p) (ip_sched x) = (None, s)" by (simp add: ipc_wake_def)
  then have woken: "st_of s i = TASK_READY" if "i \<in> set ks" "st_of (ip_sched x) i \<noteq> TASK_DEAD" for i
    using ipc_wake_states [OF assms(8,9), of i] that by simp
  show ?thesis
    using assms b s woken t(2) unfolding t(1) [symmetric] lt
    by (simp add: pipe_write_def t_def [symmetric] Let_def)
      (auto intro!: pollers_keep_ready)
qed

definition ipc_reader_parked :: ipc where
  "ipc_reader_parked = snd (the (pipe_read 0 0 True 4 ipc_demo))"

lemma reader_parked_facts:
  "ipc_reader_parked = set_pipe 0 (new_pipe\<lparr>pp_rq := Some 0\<rparr>)
     (ipc_demo\<lparr>ip_sched := upd_task 0 (\<lambda>t. t\<lparr>t_wq_next := None, t_state := TASK_BLOCKED\<rparr>) (ip_sched ipc_demo)\<rparr>)"
  using ipc_demo_facts
  by (simp add: ipc_reader_parked_def pipe_read_def ipc_park_def wq_park_def) (simp add: new_pipe_def)

theorem pipe_write_wakes_readers_witness:
  "\<exists>x'. pipe_write 1 0 (Some [7]) 1 ipc_reader_parked = Some (Done 1, x') \<and>
     t_state (task_at (ip_sched x') 0) = TASK_READY"
proof -
  have "length (tasks (ip_sched ipc_demo)) = 64" by (simp add: ipc_demo_def upd_cpu_def sched_init_def)
  then have s: "wq_chain (ip_sched ipc_reader_parked) (Some 0) [0]" "st_of (ip_sched ipc_reader_parked) 0 = TASK_BLOCKED"
    by (simp_all add: reader_parked_facts view_simps)
  have p: "0 < length (ip_pipes ipc_reader_parked)" "ip_pipes ipc_reader_parked ! 0 = Some (new_pipe\<lparr>pp_rq := Some 0\<rparr>)"
    "pipe_inv (new_pipe\<lparr>pp_rq := Some 0\<rparr>)"
    using ipc_demo_facts by (simp_all add: reader_parked_facts) (simp add: pipe_inv_def)
  show ?thesis
    using pipe_write_wakes_readers [OF p, of "[7]" "[0]" 1] s by (simp add: new_pipe_def) metis
qed

section \<open>Pipe slots\<close>

text \<open>The states reached from a fresh pool by pipe calls, with the number of pipes made.\<close>

inductive pipe_calls :: "ipc \<Rightarrow> nat \<Rightarrow> bool" where
  fresh: "ip_pipe_used x = replicate PIPES_MAX False \<Longrightarrow> pipe_calls x 0"
| made: "pipe_calls x n \<Longrightarrow> pipe_make al x = Some (Inr k, x') \<Longrightarrow> pipe_calls x' (Suc n)"
| make_failed: "pipe_calls x n \<Longrightarrow> pipe_make al x = Some (Inl e, x') \<Longrightarrow> pipe_calls x' n"
| read_call: "pipe_calls x n \<Longrightarrow> pipe_read c k b len x = Some (r, x') \<Longrightarrow> pipe_calls x' n"
| write_call: "pipe_calls x n \<Longrightarrow> pipe_write c k src len x = Some (w, x') \<Longrightarrow> pipe_calls x' n"
| destroy_call: "pipe_calls x n \<Longrightarrow> pipe_destroy k rd x = Some x' \<Longrightarrow> pipe_calls x' n"
| other: "pipe_calls x n \<Longrightarrow> ip_pipe_used x' = ip_pipe_used x \<Longrightarrow> pipe_calls x' n"

lemma pipe_destroy_used: "pipe_destroy k rd x = Some x' \<Longrightarrow> ip_pipe_used x' = ip_pipe_used x"
  by (auto simp: pipe_destroy_def Let_def split: option.splits prod.splits if_splits)

lemma pipe_read_used: "pipe_read c k b len x = Some (r, x') \<Longrightarrow> ip_pipe_used x' = ip_pipe_used x"
  by (auto simp: pipe_read_def Let_def split: option.splits prod.splits if_splits)

lemma pipe_write_used: "pipe_write c k src len x = Some (r, x') \<Longrightarrow> ip_pipe_used x' = ip_pipe_used x"
  by (auto simp: pipe_write_def Let_def split: option.splits prod.splits if_splits)

lemma first_free_Some: "first_free us = Some i \<Longrightarrow> i < length us \<and> \<not> us ! i"
  by (induction us arbitrary: i) (auto split: if_splits)

lemma pipe_make_failed_used: "pipe_make al x = Some (Inl e, x') \<Longrightarrow> ip_pipe_used x' = ip_pipe_used x"
  using first_free_Some [of "ip_pipe_used x"]
  by (auto simp: pipe_make_def Let_def dest!: pipe_destroy_used split: option.splits if_splits)
    (metis list_update_id)+

lemma pipe_make_used:
  assumes "pipe_make al x = Some (Inr k, x')"
  shows "\<exists>i < length (ip_pipe_used x). \<not> ip_pipe_used x ! i \<and> ip_pipe_used x' = (ip_pipe_used x)[i := True]"
  using assms first_free_Some [of "ip_pipe_used x"]
  by (auto simp: pipe_make_def Let_def split: option.splits if_splits)

definition slots_used :: "bool list \<Rightarrow> nat" where
  "slots_used us = length (filter id us)"

lemma slots_used_set: "i < length us \<Longrightarrow> \<not> us ! i \<Longrightarrow> slots_used (us[i := True]) = Suc (slots_used us)"
proof (induction us arbitrary: i)
  case (Cons u us)
  then show ?case by (cases i) (auto simp: slots_used_def)
qed simp

lemma pipe_calls_count: "pipe_calls x n \<Longrightarrow> length (ip_pipe_used x) = PIPES_MAX \<and> slots_used (ip_pipe_used x) = n"
proof (induction rule: pipe_calls.induct)
  case (fresh x)
  then show ?case by (simp add: slots_used_def)
next
  case (made x n al k x')
  then show ?case using pipe_make_used [OF made.hyps(2)] slots_used_set by auto
qed (simp_all add: pipe_make_failed_used pipe_read_used pipe_write_used pipe_destroy_used)

text \<open>At most eight pipes are ever made: the slot that \<open>pipe_make\<close> takes is given back
  only when \<open>pipe_make\<close> itself fails, never when the pipe is destroyed, so after eight pipes
  every further \<open>pipe_make\<close> returns \<open>-ENFILE\<close> although all of them may be closed.\<close>

theorem pipes_made_at_most_eight:
  assumes "pipe_calls x n"
  shows "n \<le> 8 \<and> (n = 8 \<longrightarrow> pipe_make al x = Some (Inl (- ENFILE), x))"
proof -
  have len: "length (ip_pipe_used x) = PIPES_MAX" and n: "slots_used (ip_pipe_used x) = n"
    using pipe_calls_count [OF assms] by simp_all
  have le: "slots_used us \<le> length us" for us by (simp add: slots_used_def)
  have full: "first_free us = None" if "slots_used us = length us" for us
    using that
  proof (induction us)
    case (Cons u us)
    then show ?case using le [of us] by (cases u) (auto simp: slots_used_def)
  qed simp
  show ?thesis
    using le [of "ip_pipe_used x"] full [of "ip_pipe_used x"] len n by (simp add: pipe_make_def)
qed

definition all_ok :: pipe_allocs where
  "all_ok = \<lparr>al_pipe = True, al_rvn = True, al_wvn = True, al_rf = True, al_wf = True\<rparr>"

fun open_close :: "nat \<Rightarrow> ipc \<Rightarrow> ipc" where
  "open_close 0 x = x"
| "open_close (Suc n) x =
    (case pipe_make all_ok (open_close n x) of
       Some (Inr k, y) \<Rightarrow> the (pipe_destroy k False (the (pipe_destroy k True y)))
     | _ \<Rightarrow> open_close n x)"

lemma pipe_destroy_returns: "ip_pipes x ! k = Some p \<Longrightarrow> \<exists>x'. pipe_destroy k rd x = Some x'"
  by (simp add: pipe_destroy_def ipc_wake_def Let_def)

lemma open_close_step:
  assumes "first_free (ip_pipe_used x) = Some i"
  shows "\<exists>y. (case pipe_make all_ok x of
       Some (Inr k, y) \<Rightarrow> the (pipe_destroy k False (the (pipe_destroy k True y))) | _ \<Rightarrow> x) = y \<and>
    (pipe_calls x n \<longrightarrow> pipe_calls y (Suc n)) \<and> ip_pipe_used y = (ip_pipe_used x)[i := True]"
proof -
  let ?k = "length (ip_pipes x)"
  let ?x1 = "x\<lparr>ip_pipe_used := (ip_pipe_used x)[i := True], ip_pipes := ip_pipes x @ [Some new_pipe]\<rparr>"
  have m: "pipe_make all_ok x = Some (Inr ?k, ?x1)" using assms by (simp add: pipe_make_def all_ok_def)
  obtain x2 p2 where x2: "pipe_destroy ?k True ?x1 = Some x2" "ip_pipes x2 ! ?k = Some p2"
    by (auto simp: pipe_destroy_def Let_def new_pipe_def)
  from pipe_destroy_returns [OF x2(2)] obtain x3 where x3: "pipe_destroy ?k False x2 = Some x3" by blast
  show ?thesis
  proof (intro exI conjI impI)
    show "(case pipe_make all_ok x of
       Some (Inr k, y) \<Rightarrow> the (pipe_destroy k False (the (pipe_destroy k True y))) | _ \<Rightarrow> x) = x3"
      using m x2 x3 by simp
    show "pipe_calls x3 (Suc n)" if "pipe_calls x n"
      using destroy_call [OF destroy_call [OF made [OF that m] x2(1)] x3] .
    show "ip_pipe_used x3 = (ip_pipe_used x)[i := True]"
      using pipe_destroy_used [OF x2(1)] pipe_destroy_used [OF x3] by simp
  qed
qed

lemma first_free_at: "first_free (replicate m True @ False # us) = Some m"
  by (induction m) simp_all

lemma open_close_eight: "m \<le> 8 \<Longrightarrow> pipe_calls (open_close m ipc_demo) m \<and>
    ip_pipe_used (open_close m ipc_demo) = replicate m True @ replicate (8 - m) False"
proof (induction m)
  case 0
  then show ?case by (simp add: ipc_demo_def fresh)
next
  case (Suc m)
  then have "first_free (ip_pipe_used (open_close m ipc_demo)) = Some m"
    by (simp add: Suc_diff_Suc [symmetric] first_free_at)
  from open_close_step [OF this, of m] Suc show ?case
    by (auto simp: list_update_append Suc_diff_Suc [symmetric] replicate_append_same)
qed

theorem pipes_made_at_most_eight_witness:
  "pipe_make all_ok (open_close 8 ipc_demo) = Some (Inl (- 23), open_close 8 ipc_demo)"
  using pipes_made_at_most_eight [of "open_close 8 ipc_demo" 8 all_ok] open_close_eight [of 8] by simp

section \<open>Polling\<close>

text \<open>A poller whose timeout expired is still the head of the poll queue, since only an
  event wake unlinks it; when it polls again it links itself to itself, and from then on an
  event wakes nobody else: every other task parked in \<open>ipc_poll_park\<close> keeps its state.\<close>

theorem repolling_loses_pollers:
  assumes "current_task c (ip_sched x) = Some a" and "a < length (tasks (ip_sched x))"
    and "ip_poll_wq x = Some a" and "ipc_poll_park c tmo x = Some x'" and "b \<noteq> a"
  shows "t_state (task_at (ip_sched (ipc_wake_pollers x')) b) = t_state (task_at (ip_sched x) b)"
proof -
  define w where "w = (if tmo < 0 then - 1 else jiffies (ip_sched x) + (of_int tmo * TIME_HZ) div 1000 + 1)"
  define s where "s = upd_task a (\<lambda>t. t\<lparr>t_wq_next := Some a, t_state := TASK_SLEEPING, t_wake_at := w\<rparr>) (ip_sched x)"
  have x': "x' = x\<lparr>ip_poll_wq := Some a, ip_sched := s\<rparr>"
    using assms(1,3,4) by (simp add: ipc_poll_park_def Let_def s_def w_def)
  have s: "nx_of s a = Some a" "st_of s a = TASK_SLEEPING" "a < length (tasks s)" "st_of s b = st_of (ip_sched x) b"
    using assms(2,5) by (simp_all add: s_def view_simps)
  define s1 where "s1 = make_ready a (upd_task a (\<lambda>t. t\<lparr>t_wq_next := None\<rparr>) s)"
  have s1: "nx_of s1 a = None" "st_of s1 a = TASK_READY" "a < length (tasks s1)" "st_of s1 b = st_of s b"
    using s assms(5) by (simp_all add: s1_def view_simps)
  have "wake_loop None (Some a) False s = wake_loop None (Some a) False s1"
    using s by (simp add: s1_def Let_def)
  also have "\<dots> = (False, make_ready a (upd_task a (\<lambda>t. t\<lparr>t_wq_next := None\<rparr>) s1))"
    using s1 by (simp add: Let_def)
  finally show ?thesis
    using s s1 assms(5) by (simp add: x' ipc_wake_pollers_def ipc_wake_def view_simps)
qed

text \<open>Task 1 polls without a timeout, then task 0 polls; its timeout expires and it polls again:
  task 1 stays asleep whatever happens.\<close>

definition two_pollers :: ipc where
  "two_pollers =
    (let x0 = ipc_demo\<lparr>ip_sched := upd_cpu 1 (\<lambda>pc. pc\<lparr>pc_current := Some 1\<rparr>) (ip_sched ipc_demo)\<rparr>
     in the (ipc_poll_park 0 10 (the (ipc_poll_park 1 (- 1) x0))))"

theorem repolling_loses_pollers_witness:
  "\<exists>x'. ipc_poll_park 0 10 two_pollers = Some x' \<and> t_state (task_at (ip_sched two_pollers) 1) = TASK_SLEEPING \<and>
     t_state (task_at (ip_sched (ipc_wake_pollers x')) 1) = TASK_SLEEPING"
proof -
  have len: "length (tasks (ip_sched ipc_demo)) = 64" "length (cpus (ip_sched ipc_demo)) = 2"
    by (simp_all add: ipc_demo_def upd_cpu_def sched_init_def)
  have f: "current_task 0 (ip_sched two_pollers) = Some 0" "0 < length (tasks (ip_sched two_pollers))"
    "ip_poll_wq two_pollers = Some 0" "t_state (task_at (ip_sched two_pollers) 1) = TASK_SLEEPING"
    using ipc_demo_facts(5) len by (simp_all add: two_pollers_def ipc_poll_park_def Let_def view_simps)
  obtain x' where x': "ipc_poll_park 0 10 two_pollers = Some x'" using f(1) by (simp add: ipc_poll_park_def)
  show ?thesis using repolling_loses_pollers [OF f(1-3) x', of 1] f(4) x' by simp
qed

end
