(* ===== verification/Mqueue.thy ===== *)
theory Mqueue
  imports Ipc_Props
begin

text \<open>
  Message queues (\<open>kernel/ipc.c\<close>): eight named queues of twelve messages of at most 192
  bytes, and the per-process handle table. The word of \<open>ipc_lock\<close> is part of the state,
  because a sender or receiver that was parked goes on without taking the lock again: its
  first iteration is \<open>mq_send_id\<close>/\<open>mq_receive_id\<close>, every later one, after it is dispatched
  again, is \<open>mq_send_loop\<close>/\<open>mq_receive_loop\<close> alone.
\<close>

abbreviation MQ_NAME_MAX :: nat where "MQ_NAME_MAX \<equiv> 24"
abbreviation MQ_MSG_MAX :: nat where "MQ_MSG_MAX \<equiv> 192"
abbreviation MQ_DEPTH :: nat where "MQ_DEPTH \<equiv> 12"
abbreviation MQ_QUEUES_MAX :: nat where "MQ_QUEUES_MAX \<equiv> 8"
abbreviation PROC_MQ_MAX :: nat where "PROC_MQ_MAX \<equiv> 4"

record mqueue =
  mq_used :: bool
  mq_name :: string
  mq_head :: nat
  mq_count :: nat
  mq_slots :: "u8 list list"
  mq_mlen :: "nat list"
  mq_handles :: u32
  mq_inflight :: u32
  mq_sq :: "nat option"
  mq_rq :: "nat option"

record mqs =
  mq_ipc :: ipc
  mq_pool :: "mqueue list"
  mq_lock :: bool

definition zero_mqueue :: mqueue where
  "zero_mqueue = \<lparr>mq_used = False, mq_name = '''', mq_head = 0, mq_count = 0,
     mq_slots = replicate MQ_DEPTH (replicate MQ_MSG_MAX 0), mq_mlen = replicate MQ_DEPTH 0,
     mq_handles = 0, mq_inflight = 0, mq_sq = None, mq_rq = None\<rparr>"

definition upd_mq :: "nat \<Rightarrow> (mqueue \<Rightarrow> mqueue) \<Rightarrow> mqs \<Rightarrow> mqs" where
  "upd_mq i f x = x\<lparr>mq_pool := (mq_pool x)[i := f (mq_pool x ! i)]\<rparr>"

definition mqs_sched :: "mqs \<Rightarrow> sched" where
  "mqs_sched x = ip_sched (mq_ipc x)"

definition set_mqs_sched :: "sched \<Rightarrow> mqs \<Rightarrow> mqs" where
  "set_mqs_sched s x = x\<lparr>mq_ipc := (mq_ipc x)\<lparr>ip_sched := s\<rparr>\<rparr>"

definition mq_wake_pair :: "nat \<Rightarrow> mqs \<Rightarrow> mqs" where
  "mq_wake_pair i x =
    (let (h1, s1) = ipc_wake (mq_sq (mq_pool x ! i)) (mqs_sched x);
         (h2, s2) = ipc_wake (mq_rq (mq_pool x ! i)) s1
     in set_mqs_sched s2 (upd_mq i (\<lambda>q. q\<lparr>mq_sq := h1, mq_rq := h2\<rparr>) x))"

text \<open>\<open>strncmp(a, b, n) == 0\<close> on strings without their terminating zero.\<close>

definition strncmp_eq :: "string \<Rightarrow> string \<Rightarrow> nat \<Rightarrow> bool" where
  "strncmp_eq a b n \<longleftrightarrow> take n (a @ [CHR 0x00]) = take n (b @ [CHR 0x00])"

definition mq_open :: "string option \<Rightarrow> mqs \<Rightarrow> int \<times> bool option \<times> mqs" where
  "mq_open name x =
    (case name of
       None \<Rightarrow> (- EINVAL, None, x)
     | Some nm \<Rightarrow>
         if nm = [] then (- EINVAL, None, x)
         else
           (case find (\<lambda>i. mq_used (mq_pool x ! i) \<and> strncmp_eq (mq_name (mq_pool x ! i)) nm MQ_NAME_MAX) [0..<MQ_QUEUES_MAX] of
              Some i \<Rightarrow> (int i, Some False, upd_mq i (\<lambda>q. q\<lparr>mq_handles := mq_handles q + 1\<rparr>) x)
            | None \<Rightarrow>
                (case find (\<lambda>i. \<not> mq_used (mq_pool x ! i)) [0..<MQ_QUEUES_MAX] of
                   None \<Rightarrow> (- ENFILE, None, x)
                 | Some e \<Rightarrow> (int e, Some True,
                     upd_mq e (\<lambda>_. zero_mqueue\<lparr>mq_used := True, mq_name := take (MQ_NAME_MAX - 1) nm, mq_handles := 1\<rparr>) x))))"

definition mq_try_free :: "nat \<Rightarrow> mqs \<Rightarrow> mqs" where
  "mq_try_free i x =
    (let q = mq_pool x ! i
     in if mq_used q \<and> mq_handles q = 0 \<and> mq_inflight q = 0
        then mq_wake_pair i (upd_mq i (\<lambda>q. q\<lparr>mq_used := False\<rparr>) x) else x)"

definition mq_close_id :: "int \<Rightarrow> mqs \<Rightarrow> int \<times> mqs" where
  "mq_close_id qid x =
    (if qid < 0 \<or> int MQ_QUEUES_MAX \<le> qid then (- EBADF, x)
     else
       let i = nat qid; q = mq_pool x ! i
       in if mq_used q \<and> mq_handles q \<noteq> 0
          then (0, mq_try_free i (upd_mq i (\<lambda>q. q\<lparr>mq_handles := mq_handles q - 1\<rparr>) x))
          else (- ENOENT, x))"

section \<open>Handles of a process\<close>

text \<open>The four one-byte slots of a process: queue number plus one, zero when free. \<open>None\<close> is
  a null process pointer.\<close>

definition mq_handle_release :: "u8 list option \<Rightarrow> int \<Rightarrow> u8 list option" where
  "mq_handle_release p hdl =
    (case p of
       None \<Rightarrow> None
     | Some hs \<Rightarrow> Some (if 0 < hdl \<and> hdl \<le> int PROC_MQ_MAX then hs[nat (hdl - 1) := 0] else hs))"

definition mq_handle_install :: "u8 list option \<Rightarrow> int \<Rightarrow> int \<times> u8 list option" where
  "mq_handle_install p qid =
    (case p of
       None \<Rightarrow> (- EINVAL, None)
     | Some hs \<Rightarrow>
         if qid < 0 \<or> int MQ_QUEUES_MAX \<le> qid then (- EINVAL, p)
         else case find (\<lambda>i. hs ! i = 0) [0..<PROC_MQ_MAX] of
           None \<Rightarrow> (- EMFILE, p)
         | Some i \<Rightarrow> (int i + 1, Some (hs[i := of_int (qid + 1)])))"

definition mq_handle_lookup :: "u8 list option \<Rightarrow> int \<Rightarrow> int" where
  "mq_handle_lookup p hdl =
    (case p of
       None \<Rightarrow> - EBADF
     | Some hs \<Rightarrow>
         if hdl \<le> 0 \<or> int PROC_MQ_MAX < hdl then - EBADF
         else let v = hs ! nat (hdl - 1) in if v = 0 then - EBADF else uint v - 1)"

section \<open>Sending and receiving\<close>

definition mq_put :: "u8 list \<Rightarrow> mqueue \<Rightarrow> mqueue" where
  "mq_put bs q =
    (let tail = (mq_head q + mq_count q) mod MQ_DEPTH
     in q\<lparr>mq_slots := (mq_slots q)[tail := bs @ drop (length bs) (mq_slots q ! tail)],
          mq_mlen := (mq_mlen q)[tail := length bs mod 2 ^ 16],
          mq_count := mq_count q + 1, mq_inflight := mq_inflight q - 1\<rparr>)"

definition wake_queue :: "(mqueue \<Rightarrow> nat option) \<Rightarrow> ((nat option \<Rightarrow> nat option) \<Rightarrow> mqueue \<Rightarrow> mqueue) \<Rightarrow> nat \<Rightarrow> mqs \<Rightarrow> mqs" where
  "wake_queue get upd i x =
    (let (h, s) = ipc_wake (get (mq_pool x ! i)) (mqs_sched x)
     in set_mqs_sched s (upd_mq i (upd (\<lambda>_. h)) x))"

definition mq_wake_pollers :: "mqs \<Rightarrow> mqs" where
  "mq_wake_pollers x = x\<lparr>mq_ipc := ipc_wake_pollers (mq_ipc x)\<rparr>"

text \<open>\<open>ipc_park\<close> drops the lock word, whoever holds it.\<close>

definition mq_park :: "nat \<Rightarrow> (mqueue \<Rightarrow> nat option) \<Rightarrow> ((nat option \<Rightarrow> nat option) \<Rightarrow> mqueue \<Rightarrow> mqueue) \<Rightarrow> nat \<Rightarrow> mqs \<Rightarrow> mqs option" where
  "mq_park c get upd i x =
    (case ipc_park c (get (mq_pool x ! i)) (mqs_sched x) of
       None \<Rightarrow> None
     | Some (h, s) \<Rightarrow> Some ((set_mqs_sched s (upd_mq i (upd (\<lambda>_. h)) x))\<lparr>mq_lock := False\<rparr>))"

definition mq_send_loop :: "nat \<Rightarrow> nat \<Rightarrow> u8 list \<Rightarrow> mqs \<Rightarrow> (int io_result \<times> mqs) option" where
  "mq_send_loop c i bs x =
    (if mq_count (mq_pool x ! i) < MQ_DEPTH
     then
       let x1 = upd_mq i (mq_put bs) x;
           x2 = (wake_queue mq_rq mq_rq_update i x1)\<lparr>mq_lock := False\<rparr>
       in Some (Done (int (length bs)), mq_wake_pollers x2)
     else map_option (\<lambda>x'. (Blocked, x')) (mq_park c mq_sq mq_sq_update i x))"

definition mq_send_id :: "nat \<Rightarrow> int \<Rightarrow> u8 list option \<Rightarrow> nat \<Rightarrow> mqs \<Rightarrow> (int io_result \<times> mqs) option" where
  "mq_send_id c qid buf len x =
    (if buf = None \<and> len \<noteq> 0 then Some (Done (- EINVAL), x)
     else if MQ_MSG_MAX < len then Some (Done (- EMSGSIZE), x)
     else if qid < 0 \<or> int MQ_QUEUES_MAX \<le> qid \<or> \<not> mq_used (mq_pool x ! nat qid) then Some (Done (- ENOENT), x)
     else
       let x1 = (upd_mq (nat qid) (\<lambda>q. q\<lparr>mq_inflight := mq_inflight q + 1\<rparr>) x)\<lparr>mq_lock := True\<rparr>
       in mq_send_loop c (nat qid) (take len (case buf of None \<Rightarrow> [] | Some bs \<Rightarrow> bs)) x1)"

text \<open>The receiver gets the length of the message and as many of its bytes as fit.\<close>

definition mq_receive_loop :: "nat \<Rightarrow> nat \<Rightarrow> nat \<Rightarrow> mqs \<Rightarrow> ((int \<times> u8 list) io_result \<times> mqs) option" where
  "mq_receive_loop c i buflen x =
    (let q = mq_pool x ! i
     in if mq_count q \<noteq> 0
        then
          let slot = mq_head q;
              mlen = mq_mlen q ! slot;
              dat = take (if mlen < buflen then mlen else buflen) (mq_slots q ! slot);
              x1 = upd_mq i (\<lambda>q. q\<lparr>mq_head := (mq_head q + 1) mod MQ_DEPTH, mq_count := mq_count q - 1,
                                   mq_inflight := mq_inflight q - 1\<rparr>) x;
              x2 = (wake_queue mq_sq mq_sq_update i x1)\<lparr>mq_lock := False\<rparr>
          in Some (Done (int mlen, dat), mq_wake_pollers x2)
        else map_option (\<lambda>x'. (Blocked, x')) (mq_park c mq_rq mq_rq_update i x))"

definition mq_receive_id :: "nat \<Rightarrow> int \<Rightarrow> bool \<Rightarrow> nat \<Rightarrow> mqs \<Rightarrow> ((int \<times> u8 list) io_result \<times> mqs) option" where
  "mq_receive_id c qid buf buflen x =
    (if \<not> buf then Some (Done (- EINVAL, []), x)
     else if qid < 0 \<or> int MQ_QUEUES_MAX \<le> qid \<or> \<not> mq_used (mq_pool x ! nat qid) then Some (Done (- ENOENT, []), x)
     else mq_receive_loop c (nat qid) buflen
            ((upd_mq (nat qid) (\<lambda>q. q\<lparr>mq_inflight := mq_inflight q + 1\<rparr>) x)\<lparr>mq_lock := True\<rparr>))"

definition mq_pending_count :: "int \<Rightarrow> mqs \<Rightarrow> nat" where
  "mq_pending_count qid x =
    (if qid < 0 \<or> int MQ_QUEUES_MAX \<le> qid then 0
     else if mq_used (mq_pool x ! nat qid) then mq_count (mq_pool x ! nat qid) else 0)"

section \<open>The queue it implements\<close>

definition mq_ring :: "mqueue \<Rightarrow> (u8 list \<times> nat) list" where
  "mq_ring q = ring_list (zip (mq_slots q) (mq_mlen q)) (mq_head q) (mq_count q)"

definition mq_msgs :: "mqueue \<Rightarrow> u8 list list" where
  "mq_msgs q = map (\<lambda>(m, l). take l m) (mq_ring q)"

definition mq_inv :: "mqueue \<Rightarrow> bool" where
  "mq_inv q \<longleftrightarrow> length (mq_slots q) = MQ_DEPTH \<and> length (mq_mlen q) = MQ_DEPTH \<and>
     mq_head q < MQ_DEPTH \<and> mq_count q \<le> MQ_DEPTH \<and>
     (\<forall>l \<in> set (mq_mlen q). l \<le> MQ_MSG_MAX) \<and> (\<forall>m \<in> set (mq_slots q). length m = MQ_MSG_MAX)"

lemma length_mq_msgs [simp]: "length (mq_msgs q) = mq_count q"
  by (simp add: mq_msgs_def mq_ring_def)

lemma zip_update_both:
  "length xs = length ys \<Longrightarrow> zip (xs[i := a]) (ys[i := b]) = (zip xs ys)[i := (a, b)]"
  by (simp add: update_zip)

lemma mq_put_msgs:
  assumes "mq_inv q" and "length bs \<le> MQ_MSG_MAX" and "mq_count q < MQ_DEPTH"
  shows "mq_inv (mq_put bs q) \<and> mq_msgs (mq_put bs q) = mq_msgs q @ [bs]"
proof -
  let ?t = "(mq_head q + mq_count q) mod MQ_DEPTH"
  let ?m = "bs @ drop (length bs) (mq_slots q ! ?t)"
  have len: "length (zip (mq_slots q) (mq_mlen q)) = MQ_DEPTH" using assms(1) by (simp add: mq_inv_def)
  have slot: "length (mq_slots q ! ?t) = MQ_MSG_MAX" using assms(1) by (simp add: mq_inv_def)
  have small: "length bs mod 2 ^ 16 = length bs" using assms(2) by simp
  have "mq_ring (mq_put bs q) = mq_ring q @ [(?m, length bs)]"
    using ring_list_push [of "mq_count q" "zip (mq_slots q) (mq_mlen q)" "mq_head q" "(?m, length bs)"] assms(1,3) len small
    by (simp add: mq_ring_def mq_put_def Let_def zip_update_both mq_inv_def)
  moreover have "mq_inv (mq_put bs q)"
    using assms slot small
    by (auto simp: mq_inv_def mq_put_def Let_def dest!: subsetD [OF set_update_subset_insert])
  ultimately show ?thesis by (simp add: mq_msgs_def)
qed

lemma mq_first:
  assumes "mq_inv q" and "mq_msgs q = m # ms"
  shows "mq_count q \<noteq> 0 \<and> m = take (mq_mlen q ! mq_head q) (mq_slots q ! mq_head q) \<and> mq_mlen q ! mq_head q \<le> MQ_MSG_MAX \<and>
    mq_inv (q\<lparr>mq_head := (mq_head q + 1) mod MQ_DEPTH, mq_count := mq_count q - 1, mq_inflight := n\<rparr>) \<and>
    mq_msgs (q\<lparr>mq_head := (mq_head q + 1) mod MQ_DEPTH, mq_count := mq_count q - 1, mq_inflight := n\<rparr>) = ms"
proof -
  have len: "length (zip (mq_slots q) (mq_mlen q)) = MQ_DEPTH" "length (mq_mlen q) = MQ_DEPTH" "mq_head q < MQ_DEPTH"
    using assms(1) by (simp_all add: mq_inv_def)
  have c: "0 < mq_count q" using assms(2) by (metis length_mq_msgs length_greater_0_conv list.distinct(1))
  have "mq_ring q = (mq_slots q ! mq_head q, mq_mlen q ! mq_head q) #
      ring_list (zip (mq_slots q) (mq_mlen q)) ((mq_head q + 1) mod MQ_DEPTH) (mq_count q - 1)"
    using ring_list_pop [OF c, of "zip (mq_slots q) (mq_mlen q)" "mq_head q"] len assms(1)
    by (simp add: mq_ring_def mq_inv_def)
  with assms c len show ?thesis
    by (auto simp: mq_msgs_def mq_ring_def mq_inv_def)
qed

definition mq_ok :: "nat \<Rightarrow> mqs \<Rightarrow> bool" where
  "mq_ok i x \<longleftrightarrow> i < MQ_QUEUES_MAX \<and> length (mq_pool x) = MQ_QUEUES_MAX \<and> mq_used (mq_pool x ! i) \<and> mq_inv (mq_pool x ! i)"

lemma upd_mq_pool [simp]:
  "mq_pool (upd_mq i f x) = (mq_pool x)[i := f (mq_pool x ! i)]"
  "mq_pool (set_mqs_sched s x) = mq_pool x" "mq_pool (mq_wake_pollers x) = mq_pool x"
  "mq_lock (upd_mq i f x) = mq_lock x" "mq_lock (set_mqs_sched s x) = mq_lock x" "mq_lock (mq_wake_pollers x) = mq_lock x"
  by (simp_all add: upd_mq_def set_mqs_sched_def mq_wake_pollers_def)

lemma wake_queue_pool:
  "mq_pool (wake_queue get upd i x) = (mq_pool x)[i := upd (\<lambda>_. None) (mq_pool x ! i)]"
  by (simp add: wake_queue_def ipc_wake_def Let_def)

lemma mq_msgs_links [simp]:
  "mq_msgs (q\<lparr>mq_rq := h\<rparr>) = mq_msgs q" "mq_msgs (q\<lparr>mq_sq := h\<rparr>) = mq_msgs q" "mq_msgs (q\<lparr>mq_inflight := n\<rparr>) = mq_msgs q"
  "mq_inv (q\<lparr>mq_rq := h\<rparr>) = mq_inv q" "mq_inv (q\<lparr>mq_sq := h\<rparr>) = mq_inv q" "mq_inv (q\<lparr>mq_inflight := n\<rparr>) = mq_inv q"
  by (simp_all add: mq_msgs_def mq_ring_def mq_inv_def)

lemma mq_put_inflight:
  "mq_msgs (mq_put bs (q\<lparr>mq_inflight := n\<rparr>)) = mq_msgs (mq_put bs q)"
  "mq_inv (mq_put bs (q\<lparr>mq_inflight := n\<rparr>)) = mq_inv (mq_put bs q)"
  "mq_used (mq_put bs q) = mq_used q"
  by (simp_all add: mq_msgs_def mq_ring_def mq_inv_def mq_put_def Let_def)

lemma mq_msgs_empty: "mq_msgs q = [] \<longleftrightarrow> mq_count q = 0"
  by (metis length_mq_msgs length_0_conv)

text \<open>One attempt of a sender, the first or a later one.\<close>

lemma mq_send_loop_msgs:
  assumes "mq_ok i x" and "length bs \<le> MQ_MSG_MAX" and "mq_send_loop c i bs x = Some (r, x')"
  shows "mq_ok i x' \<and>
    (if length (mq_msgs (mq_pool x ! i)) < MQ_DEPTH
     then r = Done (int (length bs)) \<and> mq_msgs (mq_pool x' ! i) = mq_msgs (mq_pool x ! i) @ [bs]
     else r = Blocked \<and> mq_msgs (mq_pool x' ! i) = mq_msgs (mq_pool x ! i))"
  using assms mq_put_msgs [of "mq_pool x ! i" bs]
  by (auto simp: mq_ok_def mq_send_loop_def Let_def wake_queue_pool mq_put_inflight mq_park_def split: if_splits option.splits)

text \<open>One attempt of a receiver.\<close>

lemma mq_receive_loop_msgs:
  assumes "mq_ok i x" and "mq_receive_loop c i n x = Some (r, x')"
  shows "mq_ok i x' \<and>
    (case mq_msgs (mq_pool x ! i) of
       [] \<Rightarrow> r = Blocked \<and> mq_msgs (mq_pool x' ! i) = []
     | m # ms \<Rightarrow> r = Done (int (length m), take n m) \<and> mq_msgs (mq_pool x' ! i) = ms)"
proof (cases "mq_msgs (mq_pool x ! i)")
  case Nil
  then have "mq_count (mq_pool x ! i) = 0" by (simp only: mq_msgs_empty)
  with Nil assms show ?thesis
    by (auto simp: mq_ok_def mq_receive_loop_def Let_def mq_park_def split: option.splits)
next
  case (Cons m ms)
  have "mq_head (mq_pool x ! i) < MQ_DEPTH" "length (mq_slots (mq_pool x ! i)) = MQ_DEPTH"
    "\<forall>m \<in> set (mq_slots (mq_pool x ! i)). length m = MQ_MSG_MAX"
    using assms(1) by (auto simp: mq_ok_def mq_inv_def)
  then have "length (mq_slots (mq_pool x ! i) ! mq_head (mq_pool x ! i)) = MQ_MSG_MAX" by simp
  with Cons assms mq_first [of "mq_pool x ! i" m ms "mq_inflight (mq_pool x ! i) - 1"] show ?thesis
    by (auto simp: mq_ok_def mq_receive_loop_def Let_def wake_queue_pool min_def)
qed

section \<open>Calls, parked calls and the rest of the kernel\<close>

text \<open>What happens to queue \<open>i\<close>, one attempt at a time: a task on cpu \<open>c\<close> calls send with a buffer
  (null when \<open>None\<close>) and a length, or receive with a buffer (null when \<open>False\<close>) of some size; the \<open>k\<close>-th
  of the sends or of the receives that are parked is dispatched again and tries once more; or
  anything else happens that leaves the messages of the queue alone.\<close>

datatype mq_op =
    Send nat "u8 list option" nat
  | Receive nat bool nat
  | Resume_send nat nat
  | Resume_receive nat nat
  | Elsewhere mqs

definition same_queue :: "nat \<Rightarrow> mqs \<Rightarrow> mqs \<Rightarrow> bool" where
  "same_queue i x x' \<longleftrightarrow>
    (let q = mq_pool x ! i; q' = mq_pool x' ! i
     in length (mq_pool x') = length (mq_pool x) \<and> mq_used q' = mq_used q \<and> mq_head q' = mq_head q \<and>
        mq_count q' = mq_count q \<and> mq_slots q' = mq_slots q \<and> mq_mlen q' = mq_mlen q)"

definition without :: "nat \<Rightarrow> 'a list \<Rightarrow> 'a list" where
  "without k xs = take k xs @ drop (Suc k) xs"

text \<open>The message a call names.\<close>

definition mq_bytes :: "u8 list option \<Rightarrow> nat \<Rightarrow> u8 list" where
  "mq_bytes buf len = take len (case buf of None \<Rightarrow> [] | Some bs \<Rightarrow> bs)"

text \<open>The state after each attempt is kept, parked or not; \<open>ws\<close> and \<open>wr\<close> are the messages of the parked
  sends and the buffer sizes of the parked receives. \<open>None\<close> is a call of a cpu without a task, a number that names no
  parked call, or a change of the queue from elsewhere.\<close>

fun mq_step :: "nat \<Rightarrow> mq_op \<Rightarrow> mqs \<times> u8 list list \<times> nat list \<Rightarrow> ((int \<times> u8 list) io_result \<times> mqs \<times> u8 list list \<times> nat list) option" where
  "mq_step i (Send c buf len) (x, ws, wr) =
    (case mq_send_id c (int i) buf len x of
       None \<Rightarrow> None
     | Some (Done n, x') \<Rightarrow> Some (Done (n, []), x', ws, wr)
     | Some (Blocked, x') \<Rightarrow> Some (Blocked, x', ws @ [mq_bytes buf len], wr))"
| "mq_step i (Receive c buf n) (x, ws, wr) =
    (case mq_receive_id c (int i) buf n x of
       None \<Rightarrow> None
     | Some (Done r, x') \<Rightarrow> Some (Done r, x', ws, wr)
     | Some (Blocked, x') \<Rightarrow> Some (Blocked, x', ws, wr @ [n]))"
| "mq_step i (Resume_send c k) (x, ws, wr) =
    (if k < length ws
     then case mq_send_loop c i (ws ! k) x of
            None \<Rightarrow> None
          | Some (Done n, x') \<Rightarrow> Some (Done (n, []), x', without k ws, wr)
          | Some (Blocked, x') \<Rightarrow> Some (Blocked, x', ws, wr)
     else None)"
| "mq_step i (Resume_receive c k) (x, ws, wr) =
    (if k < length wr
     then case mq_receive_loop c i (wr ! k) x of
            None \<Rightarrow> None
          | Some (Done r, x') \<Rightarrow> Some (Done r, x', ws, without k wr)
          | Some (Blocked, x') \<Rightarrow> Some (Blocked, x', ws, wr)
     else None)"
| "mq_step i (Elsewhere x') (x, ws, wr) = (if same_queue i x x' then Some (Done (0, []), x', ws, wr) else None)"

text \<open>What a queue promises: a list of messages, at most twelve, and the calls that wait.\<close>

fun mq_spec :: "mq_op \<Rightarrow> u8 list list \<times> u8 list list \<times> nat list \<Rightarrow> ((int \<times> u8 list) io_result \<times> u8 list list \<times> u8 list list \<times> nat list) option" where
  "mq_spec (Send c buf len) (q, ws, wr) =
    (let bs = mq_bytes buf len
     in if buf = None \<and> len \<noteq> 0 then Some (Done (- EINVAL, []), q, ws, wr)
        else if MQ_MSG_MAX < len then Some (Done (- EMSGSIZE, []), q, ws, wr)
        else if length q < MQ_DEPTH then Some (Done (int (length bs), []), q @ [bs], ws, wr)
        else Some (Blocked, q, ws @ [bs], wr))"
| "mq_spec (Receive c buf n) (q, ws, wr) =
    (if \<not> buf then Some (Done (- EINVAL, []), q, ws, wr)
     else case q of
            [] \<Rightarrow> Some (Blocked, [], ws, wr @ [n])
          | m # q' \<Rightarrow> Some (Done (int (length m), take n m), q', ws, wr))"
| "mq_spec (Resume_send c k) (q, ws, wr) =
    (if length ws \<le> k then None
     else if length q < MQ_DEPTH then Some (Done (int (length (ws ! k)), []), q @ [ws ! k], without k ws, wr)
     else Some (Blocked, q, ws, wr))"
| "mq_spec (Resume_receive c k) (q, ws, wr) =
    (if length wr \<le> k then None
     else case q of
            [] \<Rightarrow> Some (Blocked, [], ws, wr)
          | m # q' \<Rightarrow> Some (Done (int (length m), take (wr ! k) m), q', ws, without k wr))"
| "mq_spec (Elsewhere x') (q, ws, wr) = Some (Done (0, []), q, ws, wr)"

fun run_ops :: "('o \<Rightarrow> 's \<Rightarrow> ('r \<times> 's) option) \<Rightarrow> 'o list \<Rightarrow> 's \<Rightarrow> ('r list \<times> 's) option" where
  "run_ops f [] s = Some ([], s)"
| "run_ops f (op # ops) s =
    (case f op s of
       None \<Rightarrow> None
     | Some (r, s1) \<Rightarrow> (case run_ops f ops s1 of None \<Rightarrow> None | Some (rs, s2) \<Rightarrow> Some (r # rs, s2)))"

text \<open>Opening, closing that leaves the queue in use, calls on other queues and any change outside the pool
  are such steps elsewhere.\<close>

lemma same_queue_pool: "mq_pool x' = mq_pool x \<Longrightarrow> same_queue i x x'"
  by (simp add: same_queue_def Let_def)

lemma same_queue_upd:
  assumes "j = i \<Longrightarrow> mq_used (f (mq_pool x ! i)) = mq_used (mq_pool x ! i) \<and> mq_head (f (mq_pool x ! i)) = mq_head (mq_pool x ! i) \<and>
      mq_count (f (mq_pool x ! i)) = mq_count (mq_pool x ! i) \<and> mq_slots (f (mq_pool x ! i)) = mq_slots (mq_pool x ! i) \<and>
      mq_mlen (f (mq_pool x ! i)) = mq_mlen (mq_pool x ! i)"
  shows "same_queue i x (upd_mq j f x)"
  using assms by (cases "j = i"; cases "i < length (mq_pool x)") (simp_all add: same_queue_def Let_def list_update_beyond)

lemma same_queue_trans: "same_queue i x y \<Longrightarrow> same_queue i y z \<Longrightarrow> same_queue i x z"
  by (simp add: same_queue_def Let_def)

lemma same_queue_open:
  assumes "mq_ok i x" and "mq_open name x = (r, b, x')"
  shows "same_queue i x x'"
proof -
  have "e \<noteq> i" if "find (\<lambda>i. \<not> mq_used (mq_pool x ! i)) [0..<MQ_QUEUES_MAX] = Some e" for e
    using that assms(1) by (auto simp: find_Some_iff mq_ok_def)
  with assms(2) show ?thesis
    by (auto simp: mq_open_def same_queue_pool split: option.splits if_splits intro!: same_queue_upd)
qed

lemma same_queue_close:
  assumes "mq_ok i x" and "mq_close_id j x = (r, x')" and "mq_used (mq_pool x' ! i)"
  shows "same_queue i x x'"
proof -
  let ?x1 = "upd_mq (nat j) (\<lambda>q. q\<lparr>mq_handles := mq_handles q - 1\<rparr>) x"
  have one: "same_queue i x ?x1" by (rule same_queue_upd) simp
  have two: "same_queue i ?x1 x'" if "x' = mq_try_free (nat j) ?x1"
  proof (cases "nat j = i")
    case True
    with assms(1,3) that show ?thesis
      by (auto simp: mq_try_free_def mq_wake_pair_def ipc_wake_def Let_def mq_ok_def same_queue_pool split: if_splits)
  next
    case False
    with that show ?thesis
      by (auto simp: mq_try_free_def mq_wake_pair_def ipc_wake_def Let_def same_queue_def split: if_splits)
  qed
  show ?thesis
    using assms(2) same_queue_trans [OF one two]
    by (auto simp: mq_close_id_def Let_def same_queue_pool split: if_splits)
qed

lemma same_queue_other:
  assumes "j \<noteq> i"
  shows "mq_send_loop c j bs x = Some (r, x') \<Longrightarrow> same_queue i x x'"
    and "mq_receive_loop c j n x = Some (r2, x') \<Longrightarrow> same_queue i x x'"
  using assms
  by (auto simp: mq_send_loop_def mq_receive_loop_def same_queue_def Let_def wake_queue_pool mq_park_def
      split: if_splits option.splits)

lemma same_queue_msgs: "same_queue i x x' \<Longrightarrow> mq_ok i x \<Longrightarrow> mq_ok i x' \<and> mq_msgs (mq_pool x' ! i) = mq_msgs (mq_pool x ! i)"
  by (auto simp: same_queue_def Let_def mq_ok_def mq_inv_def mq_msgs_def mq_ring_def)

section \<open>The refinement\<close>

lemma mq_send_id_first:
  assumes "mq_ok i x" and "\<not> (buf = None \<and> len \<noteq> 0)" and "len \<le> MQ_MSG_MAX"
  shows "mq_send_id c (int i) buf len x = mq_send_loop c i (mq_bytes buf len)
    ((upd_mq i (\<lambda>q. q\<lparr>mq_inflight := mq_inflight q + 1\<rparr>) x)\<lparr>mq_lock := True\<rparr>)"
  using assms by (auto simp: mq_send_id_def mq_ok_def mq_bytes_def Let_def)

lemma mq_receive_id_first:
  "mq_ok i x \<Longrightarrow> mq_receive_id c (int i) True n x = mq_receive_loop c i n
    ((upd_mq i (\<lambda>q. q\<lparr>mq_inflight := mq_inflight q + 1\<rparr>) x)\<lparr>mq_lock := True\<rparr>)"
  by (auto simp: mq_receive_id_def mq_ok_def)

definition mq_all_ok :: "nat \<Rightarrow> mqs \<times> u8 list list \<times> nat list \<Rightarrow> bool" where
  "mq_all_ok i s \<longleftrightarrow> mq_ok i (fst s) \<and> (\<forall>bs \<in> set (fst (snd s)). length bs \<le> MQ_MSG_MAX)"

definition mq_abs :: "nat \<Rightarrow> mqs \<times> u8 list list \<times> nat list \<Rightarrow> u8 list list \<times> u8 list list \<times> nat list" where
  "mq_abs i s = (mq_msgs (mq_pool (fst s) ! i), snd s)"

lemma set_without: "set (without k xs) \<subseteq> set xs"
  by (auto simp: without_def dest: in_set_takeD in_set_dropD)

lemma mq_step_refines:
  assumes ok: "mq_all_ok i s" and step: "mq_step i op s = Some (r, s')"
  shows "mq_all_ok i s' \<and> mq_spec op (mq_abs i s) = Some (r, mq_abs i s')"
proof -
  obtain x ws wr where s: "s = (x, ws, wr)" by (cases s)
  have x: "mq_ok i x" and ws: "\<forall>bs \<in> set ws. length bs \<le> MQ_MSG_MAX" using ok by (auto simp: s mq_all_ok_def)
  define x1 where "x1 = (upd_mq i (\<lambda>q. q\<lparr>mq_inflight := mq_inflight q + 1\<rparr>) x)\<lparr>mq_lock := True\<rparr>"
  have x1': "mq_ok i x1" "mq_msgs (mq_pool x1 ! i) = mq_msgs (mq_pool x ! i)"
    using x by (simp_all add: mq_ok_def x1_def)
  have rcv: "mq_receive_id c (int i) True n x = mq_receive_loop c i n x1" for c n
    unfolding x1_def by (rule mq_receive_id_first [OF x])
  show ?thesis
  proof (cases op)
    case (Send c buf len)
    show ?thesis
    proof (cases "(buf = None \<and> len \<noteq> 0) \<or> MQ_MSG_MAX < len")
      case True
      then show ?thesis using step ok by (auto simp: Send s mq_abs_def mq_send_id_def Let_def)
    next
      case False
      have len: "length (mq_bytes buf len) \<le> MQ_MSG_MAX" using False by (auto simp: mq_bytes_def intro: min.coboundedI2)
      have first: "mq_send_id c (int i) buf len x = mq_send_loop c i (mq_bytes buf len) x1"
        unfolding x1_def using False x by (intro mq_send_id_first) auto
      obtain r1 x2 where l: "mq_send_loop c i (mq_bytes buf len) x1 = Some (r1, x2)"
        using step by (auto simp: Send s first split: option.splits)
      from mq_send_loop_msgs [OF x1'(1) len l] step l False ws len show ?thesis
        by (cases r1) (auto simp: Send s first x1'(2) mq_abs_def mq_all_ok_def Let_def split: if_splits)
    qed
  next
    case (Receive c buf n)
    show ?thesis
    proof (cases buf)
      case False
      then show ?thesis using step ok by (auto simp: Receive s mq_abs_def mq_receive_id_def)
    next
      case True
      obtain r1 x2 where l: "mq_receive_loop c i n x1 = Some (r1, x2)"
        using step True by (auto simp: Receive s rcv split: option.splits)
      from mq_receive_loop_msgs [OF x1'(1) l] step l True ws show ?thesis
        by (cases r1) (auto simp: Receive s rcv x1'(2) mq_abs_def mq_all_ok_def split: list.splits)
    qed
  next
    case (Resume_send c k)
    then have k: "k < length ws" using step by (auto simp: s split: if_splits)
    obtain r1 x2 where l: "mq_send_loop c i (ws ! k) x = Some (r1, x2)"
      using step k by (auto simp: Resume_send s split: option.splits)
    have "length (ws ! k) \<le> MQ_MSG_MAX" using ws k by simp
    from mq_send_loop_msgs [OF x this l] step l k ws set_without [of k ws] show ?thesis
      by (cases r1) (auto simp: Resume_send s mq_abs_def mq_all_ok_def split: if_splits)
  next
    case (Resume_receive c k)
    then have k: "k < length wr" using step by (auto simp: s split: if_splits)
    obtain r1 x2 where l: "mq_receive_loop c i (wr ! k) x = Some (r1, x2)"
      using step k by (auto simp: Resume_receive s split: option.splits)
    from mq_receive_loop_msgs [OF x l] step l k ws show ?thesis
      by (cases r1) (auto simp: Resume_receive s mq_abs_def mq_all_ok_def split: list.splits)
  next
    case (Elsewhere y)
    then have "same_queue i x y" using step by (auto simp: s split: if_splits)
    from same_queue_msgs [OF this x] step ws \<open>same_queue i x y\<close> show ?thesis
      by (auto simp: Elsewhere s mq_abs_def mq_all_ok_def)
  qed
qed

lemma mq_run_refines:
  "mq_all_ok i s \<Longrightarrow> run_ops (mq_step i) ops s = Some (rs, s') \<Longrightarrow>
    mq_all_ok i s' \<and> run_ops mq_spec ops (mq_abs i s) = Some (rs, mq_abs i s')"
proof (induction ops arbitrary: s rs)
  case (Cons op ops)
  then obtain r s1 rs1 where s1: "mq_step i op s = Some (r, s1)" "run_ops (mq_step i) ops s1 = Some (rs1, s')" "rs = r # rs1"
    by (auto split: option.splits)
  from mq_step_refines [OF Cons.prems(1) s1(1)] Cons.IH [OF _ s1(2)] s1(3) show ?case by simp
qed simp

text \<open>The calls always return or park while a task runs on their cpu.\<close>

lemma mq_effects_current [simp]:
  "current_task c (mqs_sched (upd_mq i f x)) = current_task c (mqs_sched x)"
  "current_task c (mqs_sched (wake_queue get upd i x)) = current_task c (mqs_sched x)"
  "current_task c (mqs_sched (mq_wake_pollers x)) = current_task c (mqs_sched x)"
  "mqs_sched (x\<lparr>mq_lock := b\<rparr>) = mqs_sched x"
  by (simp_all add: upd_mq_def wake_queue_def mqs_sched_def set_mqs_sched_def mq_wake_pollers_def ipc_wake_pollers_def Let_def split_beta)

lemma mq_park_total:
  assumes "current_task c (mqs_sched x) \<noteq> None"
  shows "\<exists>x'. mq_park c get upd i x = Some x' \<and> current_task c (mqs_sched x') \<noteq> None"
  using assms
  by (auto simp: mq_park_def ipc_park_def wq_park_def set_mqs_sched_def mqs_sched_def upd_mq_def current_task_def upd_task_def)

lemma mq_loops_total:
  assumes "current_task c (mqs_sched x) \<noteq> None"
  shows "\<exists>r x'. mq_send_loop c i bs x = Some (r, x') \<and> current_task c (mqs_sched x') \<noteq> None"
    and "\<exists>r x'. mq_receive_loop c i n x = Some (r, x') \<and> current_task c (mqs_sched x') \<noteq> None"
  using assms mq_park_total [OF assms]
  by (force simp: mq_send_loop_def mq_receive_loop_def Let_def)+

fun mq_op_on :: "nat \<Rightarrow> mq_op \<Rightarrow> bool" where
  "mq_op_on c (Send d buf len) = (d = c)"
| "mq_op_on c (Receive d buf n) = (d = c)"
| "mq_op_on c (Resume_send d k) = (d = c)"
| "mq_op_on c (Resume_receive d k) = (d = c)"
| "mq_op_on c (Elsewhere x) = False"

lemma mq_step_total:
  assumes "mq_op_on c op" and "current_task c (mqs_sched x) \<noteq> None" and "mq_spec op (q, ws, wr) \<noteq> None"
  shows "\<exists>r x' w'. mq_step i op (x, ws, wr) = Some (r, x', w') \<and> current_task c (mqs_sched x') \<noteq> None"
proof -
  let ?x1 = "(upd_mq i (\<lambda>q. q\<lparr>mq_inflight := mq_inflight q + 1\<rparr>) x)\<lparr>mq_lock := True\<rparr>"
  have c1: "current_task c (mqs_sched ?x1) \<noteq> None" using assms(2) by simp
  show ?thesis
  proof (cases op)
    case (Send d buf len)
    have "\<exists>r x'. mq_send_id c (int i) buf len x = Some (r, x') \<and> current_task c (mqs_sched x') \<noteq> None"
      using mq_loops_total(1) [OF c1, of i "take len (case buf of None \<Rightarrow> [] | Some bs \<Rightarrow> bs)"] assms(2)
      unfolding mq_send_id_def Let_def by auto
    then obtain r x' where "mq_send_id c (int i) buf len x = Some (r, x')" "current_task c (mqs_sched x') \<noteq> None" by blast
    then show ?thesis using assms(1) by (cases r) (auto simp: Send)
  next
    case (Receive d buf n)
    have "\<exists>r x'. mq_receive_id c (int i) buf n x = Some (r, x') \<and> current_task c (mqs_sched x') \<noteq> None"
      using mq_loops_total(2) [OF c1, of i n] assms(2) unfolding mq_receive_id_def by auto
    then obtain r x' where "mq_receive_id c (int i) buf n x = Some (r, x')" "current_task c (mqs_sched x') \<noteq> None" by blast
    then show ?thesis using assms(1) by (cases r) (auto simp: Receive)
  next
    case (Resume_send d k)
    then have k: "k < length ws" using assms(3) by (auto split: if_splits)
    obtain r x' where "mq_send_loop c i (ws ! k) x = Some (r, x')" "current_task c (mqs_sched x') \<noteq> None"
      using mq_loops_total(1) [OF assms(2)] by blast
    then show ?thesis using assms(1) k by (cases r) (auto simp: Resume_send)
  next
    case (Resume_receive d k)
    then have k: "k < length wr" using assms(3) by (auto split: if_splits)
    obtain r x' where "mq_receive_loop c i (wr ! k) x = Some (r, x')" "current_task c (mqs_sched x') \<noteq> None"
      using mq_loops_total(2) [OF assms(2)] by blast
    then show ?thesis using assms(1) k by (cases r) (auto simp: Resume_receive)
  qed (use assms(1) in simp)
qed

lemma mq_run_total:
  "list_all (mq_op_on c) ops \<Longrightarrow> mq_all_ok i (x, w) \<Longrightarrow> current_task c (mqs_sched x) \<noteq> None \<Longrightarrow>
    run_ops mq_spec ops (mq_abs i (x, w)) \<noteq> None \<Longrightarrow> run_ops (mq_step i) ops (x, w) \<noteq> None"
proof (induction ops arbitrary: x w)
  case (Cons op ops)
  obtain ws wr where w: "w = (ws, wr)" by (cases w)
  have "mq_spec op (mq_msgs (mq_pool x ! i), ws, wr) \<noteq> None"
    using Cons.prems(4) by (auto simp: w mq_abs_def split: option.splits)
  with mq_step_total [of c op x _ ws wr i] Cons.prems(1,3) have
    "\<exists>r x' w'. mq_step i op (x, w) = Some (r, x', w') \<and> current_task c (mqs_sched x') \<noteq> None" unfolding w by simp
  then obtain r x' w' where
    st: "mq_step i op (x, w) = Some (r, x', w')" "current_task c (mqs_sched x') \<noteq> None" by blast
  from mq_step_refines [OF Cons.prems(2) st(1)] Cons.prems(1,4) Cons.IH [of x' w'] st show ?case
    by (auto split: option.splits)
qed simp

section \<open>Properties\<close>

text \<open>C28: A message queue that stays open is a first-in first-out queue of twelve messages. Take any sequence of send and
  receive calls on it, of further attempts of the calls that it parked, each with the message or the buffer it was
  called with, and of anything that leaves its messages alone. Each send of at most 192 bytes is accepted at the end of the queue
  when fewer than twelve messages wait and is parked otherwise, each receive takes the first message, and is parked when there is none; it gets the
  length of the message and as many of its bytes as its buffer holds. A longer send fails with
  \<open>-EMSGSIZE\<close>, a null buffer with \<open>-EINVAL\<close>, and nothing is lost, doubled or reordered, a message
  that was parked included. Each attempt is one step.\<close>

theorem mq_is_fifo:
  assumes "mq_ok i x" and "run_ops (mq_step i) ops (x, [], []) = Some (rs, x', ws, wr)"
  shows "run_ops mq_spec ops (mq_msgs (mq_pool x ! i), [], []) = Some (rs, mq_msgs (mq_pool x' ! i), ws, wr)"
proof -
  have "mq_all_ok i (x, [], [])" using assms(1) by (simp add: mq_all_ok_def)
  from mq_run_refines [OF this assms(2)] show ?thesis by (simp add: mq_abs_def)
qed

definition mqs_demo :: mqs where
  "mqs_demo = snd (snd (mq_open (Some ''q'') \<lparr>mq_ipc = ipc_demo, mq_pool = replicate MQ_QUEUES_MAX zero_mqueue, mq_lock = False\<rparr>))"

lemma mqs_demo_pool: "mq_pool mqs_demo = (replicate MQ_QUEUES_MAX zero_mqueue)
    [0 := zero_mqueue\<lparr>mq_used := True, mq_name := ''q'', mq_handles := 1\<rparr>]"
  by (simp add: mqs_demo_def mq_open_def upd_mq_def zero_mqueue_def upt_rec find_None_iff)

lemma mqs_demo_ok: "mq_ok 0 mqs_demo" "mq_msgs (mq_pool mqs_demo ! 0) = []"
  by (simp_all add: mq_ok_def mqs_demo_pool zero_mqueue_def mq_inv_def mq_msgs_def mq_ring_def)

text \<open>Thirteen sends, the last of which parks; a receive; the parked send tries again.\<close>

definition mq_traffic :: "mq_op list" where
  "mq_traffic = map (\<lambda>k. Send 0 (Some [of_nat k]) 1) [0..<13] @ [Receive 0 True 192, Resume_send 0 0]"

theorem mq_is_fifo_witness:
  "map_option (\<lambda>(rs, x', ws, wr). (drop 12 rs, mq_msgs (mq_pool x' ! 0), ws)) (run_ops (mq_step 0) mq_traffic (mqs_demo, [], [])) =
     Some ([Blocked, Done (1, [0]), Done (1, [])], map (\<lambda>k. [of_nat k]) [1..<13], [])"
proof -
  have "run_ops (mq_step 0) mq_traffic (mqs_demo, [], []) \<noteq> None"
  proof (rule mq_run_total [of 0])
    show "list_all (mq_op_on 0) mq_traffic" by (simp add: mq_traffic_def list_all_iff)
    show "mq_all_ok 0 (mqs_demo, [], [])" using mqs_demo_ok(1) by (simp add: mq_all_ok_def)
    show "current_task 0 (mqs_sched mqs_demo) \<noteq> None"
      using ipc_demo_facts(5) by (simp add: mqs_demo_def mq_open_def mqs_sched_def upd_mq_def zero_mqueue_def upt_rec find_None_iff)
    have "run_ops mq_spec mq_traffic ([], [], []) \<noteq> None" by code_simp
    then show "run_ops mq_spec mq_traffic (mq_abs 0 (mqs_demo, [], [])) \<noteq> None" using mqs_demo_ok(2) by (simp add: mq_abs_def)
  qed
  then obtain rs x' ws wr where run: "run_ops (mq_step 0) mq_traffic (mqs_demo, [], []) = Some (rs, x', ws, wr)" by auto
  have "map_option (\<lambda>(rs, q, ws, wr). (drop 12 rs, q, ws)) (run_ops mq_spec mq_traffic ([], [], [])) =
     Some ([Blocked, Done (1, [0]), Done (1, [])], map (\<lambda>k. [of_nat k]) [1..<13], [])" by code_simp
  with mq_is_fifo [OF mqs_demo_ok(1) run] mqs_demo_ok(2) run show ?thesis by simp
qed

text \<open>A handle that \<open>mq_handle_install\<close> returns names the queue it was installed for until
  it is released; after the release the lookup reports \<open>-EBADF\<close>.\<close>

theorem mq_handle_roundtrip:
  assumes "mq_handle_install p qid = (h, p')" and "0 < h" and "\<And>hs. p = Some hs \<Longrightarrow> length hs = PROC_MQ_MAX"
  shows "mq_handle_lookup p' h = qid \<and> mq_handle_lookup (mq_handle_release p' h) h = - EBADF"
proof -
  obtain hs i where hs: "p = Some hs" "0 \<le> qid" "qid < int MQ_QUEUES_MAX"
    "find (\<lambda>i. hs ! i = 0) [0..<PROC_MQ_MAX] = Some i" "h = int i + 1" "p' = Some (hs[i := of_int (qid + 1)])"
    using assms(1,2) by (auto simp: mq_handle_install_def split: option.splits if_splits)
  have "i < PROC_MQ_MAX" using hs(4) by (auto simp: find_Some_iff)
  moreover have u: "uint (of_int (qid + 1) :: u8) = qid + 1"
    using hs(2,3) by (simp only: uint_word_of_int_eq) (simp add: take_bit_int_eq_self)
  moreover have "(of_int (qid + 1) :: u8) \<noteq> 0"
  proof
    assume "(of_int (qid + 1) :: u8) = 0"
    with u have "qid + 1 = 0" by (simp only: uint_0_eq)
    with hs(2) show False by simp
  qed
  ultimately show ?thesis
    using hs assms(3) by (simp add: mq_handle_lookup_def mq_handle_release_def Let_def del: of_int_add)
qed

theorem mq_handle_roundtrip_witness:
  "mq_handle_lookup (snd (mq_handle_install (Some [2, 0, 0, 0]) 5)) 2 = 5"
proof -
  have "mq_handle_install (Some [2, 0, 0, 0]) 5 = (2, Some [2, 6, 0, 0])"
    by (simp add: mq_handle_install_def upt_rec)
  then show ?thesis using mq_handle_roundtrip [of "Some [2, 0, 0, 0]" 5 2 "Some [2, 6, 0, 0]"] by simp
qed

text \<open>A sender that was parked on a full queue and finds room when it is dispatched again
  finishes by clearing the word of \<open>ipc_lock\<close>, which it never took after the park: if another
  cpu holds the lock at that moment, the lock is free under its feet.\<close>

theorem mq_resumed_sender_frees_lock:
  assumes "mq_count (mq_pool x ! i) < MQ_DEPTH" and "mq_lock x"
  shows "\<exists>x'. mq_send_loop c i bs x = Some (Done (int (length bs)), x') \<and> \<not> mq_lock x'"
  using assms by (simp add: mq_send_loop_def Let_def)

theorem mq_resumed_sender_frees_lock_witness:
  "\<exists>x'. mq_send_loop 0 0 [1] (mqs_demo\<lparr>mq_lock := True\<rparr>) = Some (Done 1, x') \<and> \<not> mq_lock x'"
  using mq_resumed_sender_frees_lock [of "mqs_demo\<lparr>mq_lock := True\<rparr>" 0 0 "[1]"] by (simp add: mqs_demo_pool zero_mqueue_def)

end
