(* ===== verification/Pmm.thy ===== *)
theory Pmm
  imports Prelude
begin

text \<open>
  The physical frame allocator (\<open>mm/pmm.c\<close>): a last-in first-out free list threaded through
  the first word of the free frames themselves, over byte memory. The scan of
  \<open>pmm_alloc_contig\<close> and the loop of \<open>pmm_init\<close> follow the code's loops; a loop that does not
  end is \<open>None\<close>. The bounds of the kernel image come from the linker and are arguments.
\<close>

abbreviation PAGE_SIZE :: u64 where "PAGE_SIZE \<equiv> 4096"
abbreviation TOP_GUARD :: u64 where "TOP_GUARD \<equiv> 0x200000"

record phys =
  ph_mem :: mem
  ph_head :: u64
  ph_total :: u64
  ph_reserved :: u64
  ph_free :: u64

definition IS_ALIGNED :: "u64 \<Rightarrow> u64 \<Rightarrow> bool" where
  "IS_ALIGNED x a \<longleftrightarrow> x AND (a - 1) = 0"

definition ALIGN_DOWN :: "u64 \<Rightarrow> u64 \<Rightarrow> u64" where
  "ALIGN_DOWN x a = x AND NOT (a - 1)"

definition ALIGN_UP :: "u64 \<Rightarrow> u64 \<Rightarrow> u64" where
  "ALIGN_UP x a = (x + (a - 1)) AND NOT (a - 1)"

section \<open>Operations\<close>

partial_function (option) pmm_init_loop :: "u64 \<Rightarrow> u64 \<Rightarrow> u64 \<Rightarrow> u64 \<Rightarrow> phys \<Rightarrow> phys option" where
  "pmm_init_loop img_start img_end ram_end pa st =
    (if pa < ram_end
     then pmm_init_loop img_start img_end ram_end (pa + PAGE_SIZE)
       (if img_start \<le> pa \<and> pa < img_end
        then st\<lparr>ph_reserved := ph_reserved st + 1\<rparr>
        else st\<lparr>ph_mem := store64 (ph_mem st) pa (ph_head st), ph_head := pa,
                ph_total := ph_total st + 1, ph_free := ph_free st + 1\<rparr>)
     else Some st)"

text \<open>\<open>start\<close> and \<open>fin\<close> are the linker symbols \<open>_start\<close> and \<open>_end\<close>.\<close>

definition pmm_init :: "u64 \<Rightarrow> u64 \<Rightarrow> u64 \<Rightarrow> u64 \<Rightarrow> phys \<Rightarrow> phys option" where
  "pmm_init start fin ram_base ram_size st =
    (let img_start = ALIGN_DOWN start PAGE_SIZE;
         img_end = ALIGN_UP fin PAGE_SIZE;
         st1 = st\<lparr>ph_head := 0, ph_total := 0, ph_reserved := 0, ph_free := 0\<rparr>
     in if ram_size = 0 then Some st1
        else
          let e = ram_base + ram_size;
              ram_end = (if e > TOP_GUARD then e - TOP_GUARD else e)
          in pmm_init_loop img_start img_end ram_end (ALIGN_UP ram_base PAGE_SIZE) st1)"

definition pmm_alloc :: "phys \<Rightarrow> u64 \<times> phys" where
  "pmm_alloc st =
    (let pa = ph_head st
     in if pa = 0 then (0, st)
        else if \<not> IS_ALIGNED pa PAGE_SIZE then (0, st\<lparr>ph_head := 0, ph_free := 0\<rparr>)
        else (pa, st\<lparr>ph_head := load64 (ph_mem st) pa, ph_free := ph_free st - 1\<rparr>))"

text \<open>One step of the scan: the run length, its first frame, the node before it and the
  direction after looking at frame \<open>pa\<close> whose predecessor is \<open>prev\<close>.\<close>

definition run_step :: "u64 \<Rightarrow> u64 \<Rightarrow> nat \<times> u64 \<times> u64 \<times> int \<Rightarrow> nat \<times> u64 \<times> u64 \<times> int" where
  "run_step prev pa r =
    (case r of (run, run_start, run_prev, dir) \<Rightarrow>
       if run = 0 then (1, pa, prev, 0)
       else if dir = 0 then
         (if pa = run_start + PAGE_SIZE then (2, run_start, run_prev, 1)
          else if pa = run_start - PAGE_SIZE then (2, run_start, run_prev, - 1)
          else (1, pa, prev, 0))
       else if pa = (if dir > 0 then run_start + of_nat run * PAGE_SIZE else run_start - of_nat run * PAGE_SIZE)
       then (run + 1, run_start, run_prev, dir)
       else (1, pa, prev, 0))"

partial_function (option) contig_loop ::
  "nat \<Rightarrow> phys \<Rightarrow> u64 \<Rightarrow> u64 \<Rightarrow> nat \<times> u64 \<times> u64 \<times> int \<Rightarrow> (u64 \<times> phys) option" where
  "contig_loop npages st prev pa r =
    (if pa = 0 then Some (0, st)
     else
       let nxt = load64 (ph_mem st) pa;
           r' = run_step prev pa r
       in if fst r' = npages
          then (case r' of (run, run_start, run_prev, dir) \<Rightarrow>
            let st1 = (if run_prev \<noteq> 0 then st\<lparr>ph_mem := store64 (ph_mem st) run_prev nxt\<rparr> else st\<lparr>ph_head := nxt\<rparr>)
            in Some (if dir > 0 then run_start else run_start - of_nat (npages - 1) * PAGE_SIZE,
                     st1\<lparr>ph_free := ph_free st1 - of_nat npages\<rparr>))
          else contig_loop npages st pa nxt r')"

definition pmm_alloc_contig :: "nat \<Rightarrow> phys \<Rightarrow> (u64 \<times> phys) option" where
  "pmm_alloc_contig npages st =
    (if npages = 0 then Some (0, st) else contig_loop npages st 0 (ph_head st) (0, 0, 0, 0))"

definition pmm_free :: "u64 \<Rightarrow> phys \<Rightarrow> phys" where
  "pmm_free pa st =
    (if pa = 0 \<or> \<not> IS_ALIGNED pa PAGE_SIZE then st
     else st\<lparr>ph_mem := store64 (ph_mem st) pa (ph_head st), ph_head := pa, ph_free := ph_free st + 1\<rparr>)"

definition pmm_stats_get :: "phys \<Rightarrow> u64 \<times> u64 \<times> u64" where
  "pmm_stats_get st = (ph_total st, ph_reserved st, ph_free st)"

section \<open>Frames\<close>

lemma aligned_iff_dvd: "IS_ALIGNED x PAGE_SIZE \<longleftrightarrow> 4096 dvd unat x"
proof -
  have "x AND (PAGE_SIZE - 1) = 0 \<longleftrightarrow> unat (x AND mask 12) = 0"
    by (simp add: mask_eq_exp_minus_1 unat_eq_zero)
  also have "\<dots> \<longleftrightarrow> 4096 dvd unat x" by (simp only: mask_and_eq_mod) (simp add: dvd_eq_mod_eq_0)
  finally show ?thesis by (simp add: IS_ALIGNED_def)
qed

lemma aligned_room: "IS_ALIGNED x PAGE_SIZE \<Longrightarrow> n < 4096 \<Longrightarrow> unat x + n < 2 ^ 64"
proof -
  assume a: "IS_ALIGNED x PAGE_SIZE" and n: "n < 4096"
  obtain k where k: "unat x = 4096 * k" using a by (auto simp: aligned_iff_dvd dvd_def)
  have "unat x < 2 ^ 64" using unsigned_less [of x] by simp
  then have "k < 2 ^ 52" using k by simp
  then have "k + 1 \<le> 2 ^ 52" by simp
  then have "4096 * (k + 1) \<le> 2 ^ 64" by simp
  with k n show ?thesis by simp
qed

lemma frames_disjoint:
  assumes "IS_ALIGNED x PAGE_SIZE" and "IS_ALIGNED y PAGE_SIZE" and "x \<noteq> y" and "m \<le> 4096" and "n \<le> 4096"
  shows "span x m \<inter> span y n = {}"
proof (rule ccontr)
  assume "span x m \<inter> span y n \<noteq> {}"
  then obtain i j where ij: "i < m" "j < n" "x + of_nat i = y + of_nat j" by (auto simp: span_def)
  then have "unat x + i = unat y + j"
    using unat_add_of_nat [of x i] unat_add_of_nat [of y j] aligned_room [OF assms(1), of i] aligned_room [OF assms(2), of j] assms(4,5)
    by simp
  moreover obtain k l where "unat x = 4096 * k" "unat y = 4096 * l"
    using assms(1,2) by (auto simp: aligned_iff_dvd dvd_def)
  ultimately have e: "4096 * k + i = 4096 * l + j" and xy: "unat x = 4096 * k" "unat y = 4096 * l" by simp_all
  have "(4096 * k + i) div 4096 = k" "(4096 * l + j) div 4096 = l" using ij(1,2) assms(4,5) by simp_all
  with e have "k = l" by simp
  with xy have "unat x = unat y" by simp
  with assms(3) show False by (simp add: word_unat_eq_iff)
qed

section \<open>The free list\<close>

fun flist :: "mem \<Rightarrow> u64 \<Rightarrow> u64 list \<Rightarrow> bool" where
  "flist m h [] = (h = 0)"
| "flist m h (x # xs) = (h = x \<and> x \<noteq> 0 \<and> IS_ALIGNED x PAGE_SIZE \<and> flist m (load64 m x) xs)"

definition pmm_inv :: "phys \<Rightarrow> u64 list \<Rightarrow> bool" where
  "pmm_inv st fs \<longleftrightarrow> flist (ph_mem st) (ph_head st) fs \<and> distinct fs \<and> ph_free st = of_nat (length fs)"

lemma flist_aligned: "flist m h fs \<Longrightarrow> x \<in> set fs \<Longrightarrow> x \<noteq> 0 \<and> IS_ALIGNED x PAGE_SIZE"
  by (induction fs arbitrary: h) auto

text \<open>A change of memory outside the first words of the free frames keeps the list.\<close>

lemma flist_frame:
  assumes "flist m h fs" and "\<And>x. x \<in> set fs \<Longrightarrow> load64 m' x = load64 m x"
  shows "flist m' h fs"
  using assms by (induction fs arbitrary: h) auto

lemma flist_store:
  assumes "flist m h fs" and "IS_ALIGNED a PAGE_SIZE" and "a \<notin> set fs"
  shows "flist (store64 m a v) h fs"
proof (rule flist_frame [OF assms(1)])
  fix x assume x: "x \<in> set fs"
  then have "span a 8 \<inter> span x 8 = {}"
    using flist_aligned [OF assms(1) x] assms(2,3) by (intro frames_disjoint) auto
  then show "load64 (store64 m a v) x = load64 m x" by (rule load64_store64_disjoint)
qed

lemma flist_append_last:
  "flist m h (pre @ [y] @ suf) \<Longrightarrow> flist m (load64 m y) suf"
  by (induction pre arbitrary: h) auto

text \<open>Redirecting the link of a node drops the nodes between it and the new successor.\<close>

lemma flist_cut:
  assumes "flist m h (pre @ y # mid @ suf)" and "distinct (pre @ y # mid @ suf)" and "flist m n suf"
  shows "flist (store64 m y n) h (pre @ y # suf)"
  using assms
proof (induction pre arbitrary: h)
  case Nil
  then have "flist (store64 m y n) n suf" by (intro flist_store) auto
  with Nil show ?case by simp
next
  case (Cons a pre)
  then have "flist (store64 m y n) (load64 m a) (pre @ y # suf)" by auto
  moreover have "load64 (store64 m y n) a = load64 m a"
  proof (rule load64_store64_disjoint)
    have "y \<in> set (a # pre @ y # mid @ suf)" by simp
    then have "IS_ALIGNED y PAGE_SIZE" using flist_aligned [OF Cons.prems(1)] by auto
    moreover have "IS_ALIGNED a PAGE_SIZE" using Cons.prems(1) by simp
    moreover have "y \<noteq> a" using Cons.prems(2) by auto
    ultimately show "span y 8 \<inter> span a 8 = {}" by (intro frames_disjoint) simp_all
  qed
  ultimately show ?case using Cons.prems(1) by simp
qed

lemma pmm_alloc_gives:
  assumes "pmm_inv st fs"
  shows "pmm_alloc st = (case fs of [] \<Rightarrow> (0, st)
     | x # xs \<Rightarrow> (x, st\<lparr>ph_head := load64 (ph_mem st) x, ph_free := ph_free st - 1\<rparr>))"
    and "fs = x # xs \<Longrightarrow> pmm_inv (snd (pmm_alloc st)) xs"
  using assms by (auto simp: pmm_inv_def pmm_alloc_def Let_def split: list.split)

lemma pmm_free_gives:
  assumes "pmm_inv st fs" and "pa \<noteq> 0" and "IS_ALIGNED pa PAGE_SIZE" and "pa \<notin> set fs"
  shows "pmm_inv (pmm_free pa st) (pa # fs)"
  using assms flist_store by (simp add: pmm_inv_def pmm_free_def)

section \<open>Start-up\<close>

lemma aligned_next:
  assumes "IS_ALIGNED pa PAGE_SIZE" and "unat pa + 4096 < 2 ^ 64"
  shows "unat (pa + PAGE_SIZE) = unat pa + 4096" and "IS_ALIGNED (pa + PAGE_SIZE) PAGE_SIZE"
proof -
  show u: "unat (pa + PAGE_SIZE) = unat pa + 4096"
    using assms(2) unat_add_of_nat [of pa 4096] by simp
  show "IS_ALIGNED (pa + PAGE_SIZE) PAGE_SIZE"
    using assms(1) by (simp only: aligned_iff_dvd u) simp
qed

lemma aligned_gap:
  assumes "IS_ALIGNED x PAGE_SIZE" and "IS_ALIGNED y PAGE_SIZE" and "x < y"
  shows "unat x + 4096 \<le> unat y"
proof -
  obtain k l where kl: "unat x = 4096 * k" "unat y = 4096 * l"
    using assms(1,2) by (auto simp: aligned_iff_dvd dvd_def)
  with assms(3) have "k < l" by (simp add: word_less_nat_alt)
  then have "k + 1 \<le> l" by simp
  then have "4096 * (k + 1) \<le> 4096 * l" by (rule mult_le_mono2)
  with kl show ?thesis by simp
qed

definition usable :: "u64 \<Rightarrow> u64 \<Rightarrow> u64 \<Rightarrow> u64 \<Rightarrow> u64 set" where
  "usable img_start img_end lo hi =
    {x. IS_ALIGNED x PAGE_SIZE \<and> lo \<le> x \<and> x < hi \<and> \<not> (img_start \<le> x \<and> x < img_end)}"

lemma usable_step:
  assumes "IS_ALIGNED pa PAGE_SIZE" and "pa < hi" and "unat hi + 4096 < 2 ^ 64"
  shows "usable s e pa hi = (if s \<le> pa \<and> pa < e then {} else {pa}) \<union> usable s e (pa + PAGE_SIZE) hi"
proof -
  have lt: "unat pa + 4096 < 2 ^ 64" using assms(2,3) by (simp add: word_less_nat_alt)
  have n: "unat (pa + PAGE_SIZE) = unat pa + 4096" by (rule aligned_next(1) [OF assms(1) lt])
  have "pa \<le> x \<longleftrightarrow> x = pa \<or> pa + PAGE_SIZE \<le> x" if "IS_ALIGNED x PAGE_SIZE" for x
  proof
    assume "pa \<le> x"
    then have "pa < x \<or> x = pa" by auto
    then show "x = pa \<or> pa + PAGE_SIZE \<le> x"
      using aligned_gap [OF assms(1) that] n by (auto simp: word_le_nat_alt)
  next
    assume "x = pa \<or> pa + PAGE_SIZE \<le> x"
    then show "pa \<le> x" using n by (auto simp: word_le_nat_alt)
  qed
  then show ?thesis using assms(1,2) by (auto simp: usable_def)
qed

lemma pmm_init_loop_gives:
  assumes "IS_ALIGNED pa PAGE_SIZE" and "pa \<noteq> 0" and "unat hi + 4096 < 2 ^ 64"
    and "pmm_inv st fs" and "\<And>x. x \<in> set fs \<Longrightarrow> x < pa"
  shows "\<exists>st' fs'. pmm_init_loop s e hi pa st = Some st' \<and> pmm_inv st' fs' \<and> set fs' = set fs \<union> usable s e pa hi"
  using assms(1,2,4,5)
proof (induction "unat hi - unat pa" arbitrary: pa st fs rule: less_induct)
  case less
  show ?case
  proof (cases "pa < hi")
    case False
    then have "usable s e pa hi = {}" by (auto simp: usable_def)
    with False less.prems show ?thesis by (intro exI [of _ st] exI [of _ fs]) (simp add: pmm_init_loop.simps)
  next
    case True
    let ?st = "if s \<le> pa \<and> pa < e then st\<lparr>ph_reserved := ph_reserved st + 1\<rparr>
      else st\<lparr>ph_mem := store64 (ph_mem st) pa (ph_head st), ph_head := pa, ph_total := ph_total st + 1, ph_free := ph_free st + 1\<rparr>"
    let ?fs = "if s \<le> pa \<and> pa < e then fs else pa # fs"
    have lt: "unat pa + 4096 < 2 ^ 64" using True assms(3) by (simp add: word_less_nat_alt)
    note nx = aligned_next [OF less.prems(1) lt]
    have "pa \<notin> set fs" using less.prems(4) by blast
    then have inv: "pmm_inv ?st ?fs"
      using less.prems(1-3) flist_store by (simp add: pmm_inv_def)
    have "unat hi - unat (pa + PAGE_SIZE) < unat hi - unat pa" using True nx(1) by (simp add: word_less_nat_alt)
    moreover have "pa + PAGE_SIZE \<noteq> 0" using nx(1) by (metis add_is_0 unsigned_0 zero_neq_numeral)
    moreover have "x < pa + PAGE_SIZE" if "x \<in> set ?fs" for x
      using that less.prems(4) [of x] nx(1) by (auto simp: word_less_nat_alt split: if_splits)
    ultimately obtain st' fs' where
      "pmm_init_loop s e hi (pa + PAGE_SIZE) ?st = Some st'" "pmm_inv st' fs'"
      "set fs' = set ?fs \<union> usable s e (pa + PAGE_SIZE) hi"
      using less.hyps [OF _ nx(2) _ inv] by blast
    moreover have "pmm_init_loop s e hi pa st = pmm_init_loop s e hi (pa + PAGE_SIZE) ?st"
      using True by (subst pmm_init_loop.simps) simp
    ultimately show ?thesis
      using usable_step [OF less.prems(1) True assms(3), of s e] by (intro exI [of _ st'] exI [of _ fs']) auto
  qed
qed

lemma round_up_bounds:
  fixes x k :: nat
  shows "x \<le> (x + 4095) div 4096 * 4096" and "x \<le> 4096 * k \<Longrightarrow> (x + 4095) div 4096 * 4096 \<le> 4096 * k"
proof -
  show "x \<le> (x + 4095) div 4096 * 4096"
    using div_mult_mod_eq [of "x + 4095" 4096] mod_less_divisor [of 4096 "x + 4095"] by linarith
  assume "x \<le> 4096 * k"
  then have "(x + 4095) div 4096 < k + 1" by (intro less_mult_imp_div_less) simp
  then show "(x + 4095) div 4096 * 4096 \<le> 4096 * k" by simp
qed

lemma unat_clear_low: "unat (y AND NOT (mask 12) :: u64) = unat y div 4096 * 4096"
proof -
  have "y AND NOT (mask 12) = push_bit 12 (drop_bit 12 y)"
    by (rule bit_word_eqI) (auto simp: bit_and_iff bit_not_iff bit_mask_iff bit_push_bit_iff bit_drop_bit_eq)
  moreover have y: "unat y < 2 ^ 64" using unsigned_less [of y] by simp
  moreover have "push_bit 12 (drop_bit 12 (unat y)) = unat y div 4096 * 4096"
    by (simp only: push_bit_eq_mult drop_bit_eq_div) simp
  moreover have "unat y div 4096 * 4096 < 2 ^ 64" by (rule le_less_trans [OF _ y]) simp
  ultimately show ?thesis
    by (simp only: unsigned_push_bit_eq unsigned_drop_bit_eq) (simp add: take_bit_nat_eq_self)
qed

lemma align_up_gives:
  assumes "unat x + 4096 < 2 ^ 64"
  shows "IS_ALIGNED (ALIGN_UP x PAGE_SIZE) PAGE_SIZE" and "x \<le> ALIGN_UP x PAGE_SIZE"
    and "unat (ALIGN_UP x PAGE_SIZE) = (unat x + 4095) div 4096 * 4096"
proof -
  have m: "PAGE_SIZE - 1 = mask 12" "(of_nat 4095 :: u64) = mask 12" by (simp_all add: mask_eq_exp_minus_1)
  have "unat (x + mask 12) = unat x + 4095"
    unfolding m(2) [symmetric] by (rule unat_add_of_nat) (use assms in simp)
  then show u: "unat (ALIGN_UP x PAGE_SIZE) = (unat x + 4095) div 4096 * 4096"
    by (simp only: ALIGN_UP_def m(1) unat_clear_low)
  show "IS_ALIGNED (ALIGN_UP x PAGE_SIZE) PAGE_SIZE" unfolding aligned_iff_dvd u by simp
  show "x \<le> ALIGN_UP x PAGE_SIZE" unfolding word_le_nat_alt u by (rule round_up_bounds)
qed

lemma pmm_init_gives:
  assumes "0 < ram_base" and "0 < ram_size" and "unat ram_base + unat ram_size < 2 ^ 64"
    and "unat ram_base + 4096 < 2 ^ 64"
    and "ram_end = (if ram_base + ram_size > TOP_GUARD then ram_base + ram_size - TOP_GUARD else ram_base + ram_size)"
  shows "\<exists>st' fs. pmm_init start fin ram_base ram_size st = Some st' \<and> pmm_inv st' fs \<and>
    set fs = usable (ALIGN_DOWN start PAGE_SIZE) (ALIGN_UP fin PAGE_SIZE) ram_base ram_end"
proof -
  let ?e = "ram_base + ram_size" and ?pa = "ALIGN_UP ram_base PAGE_SIZE"
  let ?st = "st\<lparr>ph_head := 0, ph_total := 0, ph_reserved := 0, ph_free := 0\<rparr>"
  let ?s = "ALIGN_DOWN start PAGE_SIZE" and ?f = "ALIGN_UP fin PAGE_SIZE"
  note up = align_up_gives [OF assms(4)]
  have "unat ram_end + 4096 < 2 ^ 64"
  proof (cases "?e > TOP_GUARD")
    case True
    then have "unat ram_end = unat ?e - 0x200000" using assms(5) by (simp add: unat_sub word_less_nat_alt word_le_nat_alt)
    moreover have "unat ?e < 2 ^ 64" using unsigned_less [of ?e] by simp
    ultimately show ?thesis by simp
  next
    case False
    then have "unat ram_end \<le> 0x200000" using assms(5) by (simp add: word_less_nat_alt)
    then show ?thesis by simp
  qed
  moreover have "?pa \<noteq> 0" using up(2) assms(1) by (metis leD)
  moreover have "pmm_inv ?st []" by (simp add: pmm_inv_def)
  ultimately obtain st' fs where r: "pmm_init_loop ?s ?f ram_end ?pa ?st = Some st'" "pmm_inv st' fs"
    "set fs = set [] \<union> usable ?s ?f ?pa ram_end"
    using pmm_init_loop_gives [OF up(1), of ram_end ?st "[]" ?s ?f] by auto
  have "ram_base \<le> x \<longleftrightarrow> ?pa \<le> x" if al: "IS_ALIGNED x PAGE_SIZE" for x
  proof
    assume "ram_base \<le> x"
    moreover obtain k where "unat x = 4096 * k" using al by (auto simp: aligned_iff_dvd dvd_def)
    ultimately show "?pa \<le> x" unfolding word_le_nat_alt up(3) using round_up_bounds(2) by simp
  qed (use up(2) in \<open>rule order_trans\<close>)
  then have "usable ?s ?f ?pa ram_end = usable ?s ?f ram_base ram_end" by (auto simp: usable_def)
  moreover have "ram_size \<noteq> 0" using assms(2) by auto
  ultimately show ?thesis
    using r assms(5) by (intro exI [of _ st'] exI [of _ fs]) (simp add: pmm_init_def Let_def)
qed

section \<open>Contiguous spans\<close>

text \<open>
  The run found so far is the list \<open>rn\<close> of consecutive frames, walked upwards or downwards
  from \<open>rs\<close>.
\<close>

definition run_ok :: "u64 list \<Rightarrow> nat \<times> u64 \<times> u64 \<times> int \<Rightarrow> u64 list \<Rightarrow> bool" where
  "run_ok pre r rn \<longleftrightarrow>
    (case r of (run, rs, rp, dir) \<Rightarrow>
       length rn = run \<and> (rn = [] \<longrightarrow> pre = []) \<and>
       (rn \<noteq> [] \<longrightarrow> rp = last (0 # pre) \<and>
         (if dir = 0 then rn = [rs]
          else if dir > 0 then 2 \<le> run \<and> rn = map (\<lambda>i. rs + of_nat i * PAGE_SIZE) [0..<run]
          else 2 \<le> run \<and> rn = map (\<lambda>i. rs - of_nat i * PAGE_SIZE) [0..<run])))"

lemma upt_2 [simp]: "[0..<2] = [0, 1 :: nat]"
  by (simp add: upt_rec)

lemma run_step_ok:
  assumes "run_ok pre r rn" and "prev = last (0 # pre @ rn)"
  shows "\<exists>pre' rn'. run_ok pre' (run_step prev pa r) rn' \<and> pre @ rn @ [pa] = pre' @ rn' \<and> rn' \<noteq> []"
proof -
  obtain run rs rp dir where r: "r = (run, rs, rp, dir)" by (cases r)
  have fresh: "run_ok (pre @ rn) (1, pa, prev, 0) [pa]" using assms(2) by (simp add: run_ok_def)
  have ok: "length rn = run" "rn = [] \<longrightarrow> pre = []" using assms(1) by (simp_all add: run_ok_def r)
  consider "run = 0" | "run \<noteq> 0" "dir = 0" "pa = rs + PAGE_SIZE"
    | "run \<noteq> 0" "dir = 0" "pa \<noteq> rs + PAGE_SIZE" "pa = rs - PAGE_SIZE"
    | "run \<noteq> 0" "dir \<noteq> 0" "pa = (if dir > 0 then rs + of_nat run * PAGE_SIZE else rs - of_nat run * PAGE_SIZE)"
    | "run \<noteq> 0" "dir = 0" "pa \<noteq> rs + PAGE_SIZE" "pa \<noteq> rs - PAGE_SIZE"
    | "run \<noteq> 0" "dir \<noteq> 0" "pa \<noteq> (if dir > 0 then rs + of_nat run * PAGE_SIZE else rs - of_nat run * PAGE_SIZE)"
    by blast
  then show ?thesis
  proof cases
    case 1
    then show ?thesis using fresh by (intro exI [of _ "pre @ rn"] exI [of _ "[pa]"]) (simp add: run_step_def r)
  next
    case 2
    then have "rn = [rs]" "rp = last (0 # pre)" using assms(1) ok by (auto simp: run_ok_def r)
    with 2 show ?thesis
      by (intro exI [of _ pre] exI [of _ "rn @ [pa]"]) (simp add: run_step_def r run_ok_def)
  next
    case 3
    then have "rn = [rs]" "rp = last (0 # pre)" using assms(1) ok by (auto simp: run_ok_def r)
    with 3 show ?thesis
      by (intro exI [of _ pre] exI [of _ "rn @ [pa]"]) (simp add: run_step_def r run_ok_def)
  next
    case 4
    then have "rn \<noteq> []" using ok by auto
    then have "rp = last (0 # pre)" "2 \<le> run"
      "rn = map (\<lambda>i. if dir > 0 then rs + of_nat i * PAGE_SIZE else rs - of_nat i * PAGE_SIZE) [0..<run]"
      using 4(2) assms(1) by (auto simp: run_ok_def r split: if_splits)
    with 4 show ?thesis
      by (intro exI [of _ pre] exI [of _ "rn @ [pa]"]) (auto simp: run_step_def r run_ok_def)
  next
    case 5
    then have "run_step prev pa r = (1, pa, prev, 0)" by (simp add: run_step_def r)
    then show ?thesis using fresh by (intro exI [of _ "pre @ rn"] exI [of _ "[pa]"]) simp
  next
    case 6
    then have "run_step prev pa r = (1, pa, prev, 0)" unfolding run_step_def r by simp
    then show ?thesis using fresh by (intro exI [of _ "pre @ rn"] exI [of _ "[pa]"]) simp
  qed
qed

text \<open>The addresses of a span of \<open>n\<close> frames from its low address.\<close>

definition frames_at :: "u64 \<Rightarrow> nat \<Rightarrow> u64 set" where
  "frames_at a n = (\<lambda>i. a + of_nat i * PAGE_SIZE) ` {..<n}"

lemma run_low:
  assumes "run_ok pre (n, rs, rp, dir) rn" and "n \<noteq> 0"
  shows "set rn = frames_at (if dir > 0 then rs else rs - of_nat (n - 1) * PAGE_SIZE) n"
proof -
  have rn: "rn \<noteq> []" "length rn = n" using assms by (auto simp: run_ok_def)
  consider "dir = 0" | "dir > 0" | "dir < 0" by linarith
  then show ?thesis
  proof cases
    case 1
    then have "rn = [rs]" using assms(1) rn by (auto simp: run_ok_def)
    with 1 rn show ?thesis by (auto simp: frames_at_def)
  next
    case 2
    then have "rn = map (\<lambda>i. rs + of_nat i * PAGE_SIZE) [0..<n]" using assms(1) rn by (auto simp: run_ok_def)
    with 2 show ?thesis by (auto simp: frames_at_def)
  next
    case 3
    then have e: "rn = map (\<lambda>i. rs - of_nat i * PAGE_SIZE) [0..<n]" using assms(1) rn by (auto simp: run_ok_def)
    have shift: "rs - of_nat (n - 1) * PAGE_SIZE + of_nat i * PAGE_SIZE = rs - of_nat (n - 1 - i) * PAGE_SIZE" if "i < n" for i
      using that by (simp add: of_nat_diff algebra_simps)
    have rev: "{..<n} = (\<lambda>i. n - 1 - i) ` {..<n}"
    proof (intro equalityI subsetI)
      fix i assume "i \<in> {..<n}"
      then show "i \<in> (\<lambda>i. n - 1 - i) ` {..<n}" by (intro image_eqI [of _ _ "n - 1 - i"]) auto
    qed auto
    have "set rn = (\<lambda>i. rs - of_nat i * PAGE_SIZE) ` {..<n}" unfolding e by (simp add: lessThan_atLeast0)
    also have "\<dots> = (\<lambda>i. rs - of_nat i * PAGE_SIZE) ` ((\<lambda>i. n - 1 - i) ` {..<n})" using rev by (rule arg_cong)
    also have "\<dots> = (\<lambda>i. rs - of_nat (n - 1 - i) * PAGE_SIZE) ` {..<n}" by (simp only: image_image)
    also have "\<dots> = frames_at (rs - of_nat (n - 1) * PAGE_SIZE) n"
      unfolding frames_at_def using shift by (intro image_cong) simp_all
    finally show ?thesis using 3 by simp
  qed
qed

lemma flist_head: "flist m h fs \<Longrightarrow> h = (case fs of [] \<Rightarrow> 0 | x # _ \<Rightarrow> x)"
  by (cases fs) auto

lemma flist_unlink:
  assumes "pmm_inv st (pre @ rn @ suf)" and "flist (ph_mem st) nxt suf" and "rn \<noteq> []"
  defines "st' \<equiv> (if last (0 # pre) \<noteq> 0 then st\<lparr>ph_mem := store64 (ph_mem st) (last (0 # pre)) nxt\<rparr> else st\<lparr>ph_head := nxt\<rparr>)"
  shows "pmm_inv (st'\<lparr>ph_free := ph_free st' - of_nat (length rn)\<rparr>) (pre @ suf)"
proof (cases pre rule: rev_cases)
  case Nil
  with assms show ?thesis by (simp add: pmm_inv_def)
next
  case (snoc ys y)
  have f: "flist (ph_mem st) (ph_head st) (ys @ y # rn @ suf)" and d: "distinct (ys @ y # rn @ suf)"
    using assms(1) snoc by (simp_all add: pmm_inv_def)
  have "y \<noteq> 0" using flist_aligned [OF f, of y] by simp
  then show ?thesis
    using flist_cut [OF f d assms(2)] d assms(1) snoc by (auto simp: st'_def pmm_inv_def)
qed

lemma contig_loop_gives:
  assumes "pmm_inv st (pre @ rn @ suf)" and "flist (ph_mem st) pa suf" and "run_ok pre r rn"
    and "prev = last (0 # pre @ rn)" and "0 < n"
  shows "\<exists>a st' fs'. contig_loop n st prev pa r = Some (a, st') \<and> pmm_inv st' fs' \<and>
    (if a = 0 then st' = st \<and> fs' = pre @ rn @ suf
     else frames_at a n \<subseteq> set (pre @ rn @ suf) \<and> set fs' = set (pre @ rn @ suf) - frames_at a n \<and>
       length (pre @ rn @ suf) = length fs' + n)"
  using assms
proof (induction suf arbitrary: pre rn pa r prev)
  case Nil
  then show ?case by (intro exI [of _ 0] exI [of _ st] exI [of _ "pre @ rn"]) (simp add: contig_loop.simps)
next
  case (Cons x suf)
  have x: "pa = x" "x \<noteq> 0" "flist (ph_mem st) (load64 (ph_mem st) x) suf" using Cons.prems(2) by simp_all
  obtain pre' rn' where r': "run_ok pre' (run_step prev x r) rn'" "pre @ rn @ [x] = pre' @ rn'" "rn' \<noteq> []"
    using run_step_ok [OF Cons.prems(3,4), of x] by blast
  have fs: "pre @ rn @ x # suf = pre' @ rn' @ suf" using r'(2) by (metis append.assoc append_Cons append_Nil)
  have inv: "pmm_inv st (pre' @ rn' @ suf)" using Cons.prems(1) unfolding fs .
  have lastx: "last (0 # pre' @ rn') = x" using r'(2) by (metis append_is_Nil_conv last.simps last_snoc snoc_eq_iff_butlast append.assoc)
  show ?case
  proof (cases "fst (run_step prev x r) = n")
    case False
    then have "contig_loop n st prev pa r = contig_loop n st x (load64 (ph_mem st) x) (run_step prev x r)"
      using x by (subst contig_loop.simps) (simp add: Let_def)
    moreover note Cons.IH [OF inv x(3) r'(1) lastx [symmetric] Cons.prems(5)]
    ultimately show ?thesis unfolding fs by simp
  next
    case True
    then obtain rs rp dir where st: "run_step prev x r = (n, rs, rp, dir)" by (metis prod.collapse)
    then have rp: "rp = last (0 # pre')" and len: "length rn' = n" using r'(1,3) by (auto simp: run_ok_def)
    let ?a = "if dir > 0 then rs else rs - of_nat (n - 1) * PAGE_SIZE"
    let ?st1 = "if rp \<noteq> 0 then st\<lparr>ph_mem := store64 (ph_mem st) rp (load64 (ph_mem st) x)\<rparr>
      else st\<lparr>ph_head := load64 (ph_mem st) x\<rparr>"
    have "contig_loop n st prev pa r = Some (?a, ?st1\<lparr>ph_free := ph_free ?st1 - of_nat n\<rparr>)"
      using x True st by (subst contig_loop.simps) (simp add: Let_def)
    moreover have "pmm_inv (?st1\<lparr>ph_free := ph_free ?st1 - of_nat n\<rparr>) (pre' @ suf)"
      using flist_unlink [OF inv x(3) r'(3)] unfolding rp len by blast
    moreover have set: "set rn' = frames_at ?a n" using run_low [of pre' n rs rp dir rn'] r'(1) st Cons.prems(5) by simp
    moreover have "distinct (pre' @ rn' @ suf)" using inv by (simp add: pmm_inv_def)
    then have "set (pre' @ suf) = set (pre' @ rn' @ suf) - set rn'" by auto
    moreover have "?a \<in> frames_at ?a n"
      unfolding frames_at_def using Cons.prems(5) by (intro image_eqI [of _ _ 0]) auto
    then have "?a \<in> set (pre' @ rn' @ suf)" using set by auto
    then have "?a \<noteq> 0" using flist_aligned inv unfolding pmm_inv_def by blast
    ultimately show ?thesis
      unfolding fs using len by (intro exI [of _ ?a] exI [of _ "?st1\<lparr>ph_free := ph_free ?st1 - of_nat n\<rparr>"] exI [of _ "pre' @ suf"]) auto
  qed
qed

section \<open>The contract of a frame pool\<close>

text \<open>What the clients of the frame allocator (shared memory, the heap, page tables) rely on:
  an allocation hands out a free frame and takes it out of the pool or reports that the pool
  is empty, and a release puts a frame back.\<close>

locale frame_pool =
  fixes inv :: "'s \<Rightarrow> bool"
    and pool :: "'s \<Rightarrow> u64 set"
    and alloc :: "'s \<Rightarrow> u64 \<times> 's"
    and release :: "u64 \<Rightarrow> 's \<Rightarrow> 's"
    and frame :: "u64 \<Rightarrow> bool"
  assumes alloc_empty: "inv s \<Longrightarrow> pool s = {} \<Longrightarrow> alloc s = (0, s)"
    and alloc_some: "inv s \<Longrightarrow> pool s \<noteq> {} \<Longrightarrow>
      \<exists>a s'. alloc s = (a, s') \<and> a \<noteq> 0 \<and> a \<in> pool s \<and> inv s' \<and> pool s' = pool s - {a}"
    and release_in: "inv s \<Longrightarrow> frame a \<Longrightarrow> a \<notin> pool s \<Longrightarrow> inv (release a s) \<and> pool (release a s) = insert a (pool s)"
    and pool_frame: "inv s \<Longrightarrow> a \<in> pool s \<Longrightarrow> a \<noteq> 0 \<and> frame a"
begin

lemma alloc_cases:
  assumes "inv s"
  obtains "pool s = {}" "alloc s = (0, s)"
  | a s' where "alloc s = (a, s')" "a \<noteq> 0" "frame a" "a \<in> pool s" "inv s'" "pool s' = pool s - {a}"
  using assms alloc_empty [of s] alloc_some [of s] pool_frame [of s] by blast

lemma alloc_zero_iff: "inv s \<Longrightarrow> fst (alloc s) = 0 \<longleftrightarrow> pool s = {}"
  by (erule alloc_cases) auto

end

definition free_frames :: "phys \<Rightarrow> u64 set" where
  "free_frames st = {x. \<exists>fs. pmm_inv st fs \<and> x \<in> set fs}"

lemma flist_unique: "flist m h fs \<Longrightarrow> flist m h gs \<Longrightarrow> fs = gs"
proof (induction fs arbitrary: h gs)
  case Nil
  then show ?case by (cases gs) auto
next
  case (Cons x fs)
  then show ?case by (cases gs) auto
qed

lemma free_frames_eq: "pmm_inv st fs \<Longrightarrow> free_frames st = set fs"
  using flist_unique by (auto simp: free_frames_def pmm_inv_def)

interpretation pmm_pool: frame_pool "\<lambda>st. \<exists>fs. pmm_inv st fs" free_frames pmm_alloc pmm_free
  "\<lambda>a. a \<noteq> 0 \<and> IS_ALIGNED a PAGE_SIZE"
proof
  fix s a assume "\<exists>fs. pmm_inv s fs"
  then obtain fs where fs: "pmm_inv s fs" by blast
  note f = free_frames_eq [OF fs]
  show "pmm_alloc s = (0, s)" if "free_frames s = {}"
    using pmm_alloc_gives(1) [OF fs] that f by simp
  show "\<exists>a s'. pmm_alloc s = (a, s') \<and> a \<noteq> 0 \<and> a \<in> free_frames s \<and> (\<exists>fs. pmm_inv s' fs) \<and> free_frames s' = free_frames s - {a}"
    if ne: "free_frames s \<noteq> {}"
  proof -
    obtain x xs where x: "fs = x # xs" using ne f by (cases fs) auto
    have i: "pmm_inv (snd (pmm_alloc s)) xs" by (rule pmm_alloc_gives(2) [OF fs x])
    have "x \<noteq> 0" "distinct fs" using fs x by (auto simp: pmm_inv_def)
    then show ?thesis
      using pmm_alloc_gives(1) [OF fs] x i f free_frames_eq [OF i] by auto
  qed
  show "a \<noteq> 0 \<and> a \<noteq> 0 \<and> IS_ALIGNED a PAGE_SIZE" if "a \<in> free_frames s"
    using that f fs flist_aligned [of "ph_mem s" "ph_head s" fs a] by (simp add: pmm_inv_def)
  show "(\<exists>fs. pmm_inv (pmm_free a s) fs) \<and> free_frames (pmm_free a s) = insert a (free_frames s)"
    if "a \<noteq> 0 \<and> IS_ALIGNED a PAGE_SIZE" "a \<notin> free_frames s"
    using pmm_free_gives [OF fs, of a] that f free_frames_eq by auto
qed

section \<open>Properties\<close>

text \<open>C29: \<open>pmm_init\<close> returns on every RAM range below the end of the address space that does
  not start at address zero, and leaves a well-formed free list that holds exactly the page
  frames of the range below the two-megabyte guard at the top that do not overlap the kernel
  image, each once, with a matching free count.\<close>

theorem pmm_init_builds_free_list:
  assumes "0 < ram_base" and "0 < ram_size" and "unat ram_base + unat ram_size < 2 ^ 64"
    and "unat ram_base + 4096 < 2 ^ 64"
  shows "\<exists>st' fs. pmm_init start fin ram_base ram_size st = Some st' \<and> pmm_inv st' fs \<and>
    set fs = {x. IS_ALIGNED x PAGE_SIZE \<and> ram_base \<le> x \<and>
      x < (if ram_base + ram_size > TOP_GUARD then ram_base + ram_size - TOP_GUARD else ram_base + ram_size) \<and>
      \<not> (ALIGN_DOWN start PAGE_SIZE \<le> x \<and> x < ALIGN_UP fin PAGE_SIZE)}"
  using pmm_init_gives [OF assms refl, of start fin st] by (simp add: usable_def)

definition no_phys :: phys where
  "no_phys = \<lparr>ph_mem = (\<lambda>_. 0), ph_head = 0, ph_total = 0, ph_reserved = 0, ph_free = 0\<rparr>"

theorem pmm_init_builds_free_list_witness:
  "\<exists>st' fs. pmm_init 0x40080000 0x40100123 0x40000000 0x8000000 no_phys = Some st' \<and> pmm_inv st' fs \<and>
     0x40000000 \<in> set fs \<and> 0x40100000 \<notin> set fs"
proof -
  obtain st' fs where r: "pmm_init 0x40080000 0x40100123 0x40000000 0x8000000 no_phys = Some st'" "pmm_inv st' fs"
    "set fs = {x. IS_ALIGNED x PAGE_SIZE \<and> 0x40000000 \<le> x \<and>
      x < (if (0x40000000 :: u64) + 0x8000000 > TOP_GUARD then 0x40000000 + 0x8000000 - TOP_GUARD else 0x40000000 + 0x8000000) \<and>
      \<not> (ALIGN_DOWN 0x40080000 PAGE_SIZE \<le> x \<and> x < ALIGN_UP 0x40100123 PAGE_SIZE)}"
    using pmm_init_builds_free_list [of "0x40000000" "0x8000000" "0x40080000" "0x40100123" no_phys] by auto
  have "0x40000000 \<in> set fs" "0x40100000 \<notin> set fs"
    unfolding r(3) by (simp_all add: IS_ALIGNED_def ALIGN_DOWN_def ALIGN_UP_def)
  with r show ?thesis by blast
qed

text \<open>On a well-formed free list the allocator is a stack of frames: \<open>pmm_free\<close> of a frame
  that is not free puts it on top and writes nothing but the frame's first eight bytes,
  \<open>pmm_alloc\<close> returns the top and changes no memory, and a free followed by an allocation
  gives the same frame and the same list back. No frame is handed out twice.\<close>

theorem pmm_alloc_free_lifo:
  assumes "pmm_inv st fs" and "pa \<noteq> 0" and "IS_ALIGNED pa PAGE_SIZE" and "pa \<notin> set fs"
  shows "pmm_inv (pmm_free pa st) (pa # fs) \<and>
    (\<forall>x. x \<notin> span pa 8 \<longrightarrow> ph_mem (pmm_free pa st) x = ph_mem st x) \<and>
    (\<exists>st'. pmm_alloc (pmm_free pa st) = (pa, st') \<and> pmm_inv st' fs \<and> ph_mem st' = ph_mem (pmm_free pa st) \<and>
      ph_head st' = ph_head st \<and> ph_free st' = ph_free st)"
proof (intro conjI allI impI)
  show inv: "pmm_inv (pmm_free pa st) (pa # fs)" by (rule pmm_free_gives [OF assms])
  show "ph_mem (pmm_free pa st) x = ph_mem st x" if "x \<notin> span pa 8" for x
    using that assms(2,3) by (simp add: pmm_free_def store64_def store_bytes_other)
  show "\<exists>st'. pmm_alloc (pmm_free pa st) = (pa, st') \<and> pmm_inv st' fs \<and> ph_mem st' = ph_mem (pmm_free pa st) \<and>
      ph_head st' = ph_head st \<and> ph_free st' = ph_free st"
    using pmm_alloc_gives [OF inv] assms(2,3) by (auto simp: pmm_free_def)
qed

theorem pmm_alloc_free_lifo_witness:
  "\<exists>st'. pmm_alloc (pmm_free 0x5000 no_phys) = (0x5000, st') \<and> pmm_inv st' []"
  using pmm_alloc_free_lifo [of no_phys "[]" "0x5000"] by (auto simp: no_phys_def pmm_inv_def IS_ALIGNED_def)

text \<open>C30: \<open>pmm_alloc_contig\<close> always returns; when it returns an address, the requested number of
  frames from there on are consecutive, were all free, and are exactly the frames taken off
  the list, which stays well formed; when it returns zero nothing has changed.\<close>

theorem pmm_alloc_contig_takes_span:
  assumes "pmm_inv st fs" and "0 < n"
  shows "\<exists>a st' fs'. pmm_alloc_contig n st = Some (a, st') \<and> pmm_inv st' fs' \<and>
    (if a = 0 then st' = st \<and> fs' = fs
     else frames_at a n \<subseteq> set fs \<and> set fs' = set fs - frames_at a n \<and> length fs = length fs' + n)"
proof -
  have "flist (ph_mem st) (ph_head st) fs" using assms(1) by (simp add: pmm_inv_def)
  moreover have "run_ok [] (0, 0, 0, 0) []" by (simp add: run_ok_def)
  ultimately have "\<exists>a st' fs'. contig_loop n st 0 (ph_head st) (0, 0, 0, 0) = Some (a, st') \<and> pmm_inv st' fs' \<and>
    (if a = 0 then st' = st \<and> fs' = [] @ [] @ fs
     else frames_at a n \<subseteq> set ([] @ [] @ fs) \<and> set fs' = set ([] @ [] @ fs) - frames_at a n \<and>
       length ([] @ [] @ fs) = length fs' + n)"
    using assms by (intro contig_loop_gives) simp_all
  moreover have "pmm_alloc_contig n st = contig_loop n st 0 (ph_head st) (0, 0, 0, 0)"
    using assms(2) by (simp add: pmm_alloc_contig_def)
  ultimately show ?thesis unfolding append_Nil by (simp only:)
qed

definition three_frames :: phys where
  "three_frames = pmm_free 0x3000 (pmm_free 0x2000 (pmm_free 0x7000 no_phys))"

lemma three_frames_inv: "pmm_inv three_frames [0x3000, 0x2000, 0x7000]"
proof -
  have "pmm_inv no_phys []" by (simp add: no_phys_def pmm_inv_def)
  then show ?thesis unfolding three_frames_def
    by (intro pmm_free_gives) (simp_all add: IS_ALIGNED_def)
qed

theorem pmm_alloc_contig_takes_span_witness:
  "\<exists>a st' fs'. pmm_alloc_contig 2 three_frames = Some (a, st') \<and> pmm_inv st' fs' \<and>
     (a = 0 \<or> frames_at a 2 \<subseteq> {0x3000, 0x2000, 0x7000})"
  using pmm_alloc_contig_takes_span [OF three_frames_inv, of 2] by force

end
