(* ===== verification/Kheap.thy ===== *)
theory Kheap
  imports Pmm
begin

text \<open>
  The kernel heap (\<open>mm/kheap.c\<close>) over the frame allocator's memory: size classes with free
  lists threaded through the chunks, dedicated page spans for large requests, a header
  before every block and a canary after it. \<open>None\<close> is a call that never returns, \<open>Inl\<close> a
  panic with its message.
\<close>

abbreviation HDR_MAGIC_ALLOC :: u32 where "HDR_MAGIC_ALLOC \<equiv> 0xA110C8ED"
abbreviation HDR_MAGIC_FREED :: u32 where "HDR_MAGIC_FREED \<equiv> 0xF7EEB1DE"
abbreviation CANARY_WORD :: u32 where "CANARY_WORD \<equiv> 0xCAFEF00D"
abbreviation POISON_BYTE :: u8 where "POISON_BYTE \<equiv> 0x5A"
abbreviation FILL_BYTE :: u8 where "FILL_BYTE \<equiv> 0xAA"
abbreviation HDR_SIZE :: u64 where "HDR_SIZE \<equiv> 16"
abbreviation KM_CLASSES :: nat where "KM_CLASSES \<equiv> 8"
abbreviation KM_LARGE_MAX :: u32 where "KM_LARGE_MAX \<equiv> 65536"

definition class_size :: "u64 list" where
  "class_size = [16, 32, 64, 128, 256, 512, 1024, 2048]"

record kheap =
  kh_phys :: phys
  kh_freelist :: "u64 list"
  kh_allocs :: u64
  kh_frees :: u64
  kh_bytes_current :: u64
  kh_bytes_peak :: u64
  kh_recent :: "(u64 \<times> u32) list"
  kh_recent_idx :: nat

definition upd_mem :: "(mem \<Rightarrow> mem) \<Rightarrow> kheap \<Rightarrow> kheap" where
  "upd_mem f k = k\<lparr>kh_phys := (kh_phys k)\<lparr>ph_mem := f (ph_mem (kh_phys k))\<rparr>\<rparr>"

abbreviation kmem :: "kheap \<Rightarrow> mem" where "kmem k \<equiv> ph_mem (kh_phys k)"

text \<open>\<open>memset\<close>: the \<open>n\<close> bytes from \<open>a\<close> on.\<close>

definition memset :: "u64 \<Rightarrow> u8 \<Rightarrow> u64 \<Rightarrow> mem \<Rightarrow> mem" where
  "memset a b n m = (\<lambda>x. if x - a < n then b else m x)"

text \<open>The fields of \<open>struct chunk_hdr\<close> at address \<open>h\<close>.\<close>

definition hdr_magic :: "mem \<Rightarrow> u64 \<Rightarrow> u32" where "hdr_magic m h = load32 m h"
definition hdr_req :: "mem \<Rightarrow> u64 \<Rightarrow> u32" where "hdr_req m h = load32 m (h + 4)"
definition hdr_cls :: "mem \<Rightarrow> u64 \<Rightarrow> u16" where "hdr_cls m h = load16 m (h + 8)"
definition hdr_npages :: "mem \<Rightarrow> u64 \<Rightarrow> u16" where "hdr_npages m h = load16 m (h + 10)"

definition write_hdr :: "u64 \<Rightarrow> u32 \<Rightarrow> u32 \<Rightarrow> u16 \<Rightarrow> u16 \<Rightarrow> mem \<Rightarrow> mem" where
  "write_hdr h mg rq cls np m =
    store16 (store16 (store32 (store32 m h mg) (h + 4) rq) (h + 8) cls) (h + 10) np"

section \<open>Slabs\<close>

fun carve :: "nat \<Rightarrow> u64 \<Rightarrow> u64 \<Rightarrow> nat \<Rightarrow> kheap \<Rightarrow> kheap" where
  "carve ci pa chunk 0 k = k"
| "carve ci pa chunk (Suc i) k =
    (let h = pa + of_nat i * chunk;
         k1 = upd_mem (write_hdr h HDR_MAGIC_FREED 0 (of_nat (ci + 1)) 0) k;
         k2 = upd_mem (\<lambda>m. store64 m (h + HDR_SIZE) (kh_freelist k1 ! ci)) k1
     in carve ci pa chunk i (k2\<lparr>kh_freelist := (kh_freelist k2)[ci := h + HDR_SIZE]\<rparr>))"

definition grow_slab :: "nat \<Rightarrow> kheap \<Rightarrow> bool \<times> kheap" where
  "grow_slab ci k =
    (let (pa, ph) = pmm_alloc (kh_phys k);
         k1 = k\<lparr>kh_phys := ph\<rparr>;
         chunk = HDR_SIZE + class_size ! ci
     in if pa = 0 then (False, k1)
        else (True, carve ci pa chunk (unat (PAGE_SIZE div chunk)) k1))"

section \<open>Allocation\<close>

text \<open>The size class: the first one that holds the request and four bytes more; the sum wraps
  at 64 bits.\<close>

definition class_for :: "u64 \<Rightarrow> nat" where
  "class_for sz = (case find (\<lambda>ci. sz + 4 \<le> class_size ! ci) [0..<KM_CLASSES] of Some ci \<Rightarrow> ci | None \<Rightarrow> KM_CLASSES)"

definition note_alloc :: "u64 \<Rightarrow> kheap \<Rightarrow> kheap" where
  "note_alloc sz k =
    (let cur = kh_bytes_current k + sz
     in k\<lparr>kh_allocs := kh_allocs k + 1, kh_bytes_current := cur,
          kh_bytes_peak := (if cur > kh_bytes_peak k then cur else kh_bytes_peak k)\<rparr>)"

definition kmalloc_large :: "u64 \<Rightarrow> kheap \<Rightarrow> (u64 \<times> kheap) option" where
  "kmalloc_large sz k =
    (let pages = (ucast (drop_bit 12 (HDR_SIZE + sz + PAGE_SIZE - 1)) :: u32)
     in if pages > KM_LARGE_MAX div 4096 then Some (0, k)
        else case pmm_alloc_contig (unat pages) (kh_phys k) of
          None \<Rightarrow> None
        | Some (spn, ph) \<Rightarrow>
            let k1 = k\<lparr>kh_phys := ph\<rparr>
            in if spn = 0 then Some (0, k1)
               else
                 let body = spn + HDR_SIZE;
                     k2 = upd_mem (write_hdr spn HDR_MAGIC_ALLOC (ucast sz) 0 (ucast pages)) k1;
                     k3 = (if (sz + HDR_SIZE) mod PAGE_SIZE \<le> PAGE_SIZE - 4
                           then upd_mem (\<lambda>m. store32 m (body + sz) CANARY_WORD) k2 else k2);
                     k4 = upd_mem (memset body FILL_BYTE sz) k3
                 in Some (body, note_alloc sz k4))"

text \<open>The fill loop of the slab path counts with a 32-bit index: it never ends for a size of
  \<open>2\<^sup>3\<^sup>2\<close> or more.\<close>

definition kmalloc_slab :: "nat \<Rightarrow> u64 \<Rightarrow> kheap \<Rightarrow> (u64 \<times> kheap) option" where
  "kmalloc_slab ci sz k =
    (let (ok, k1) = (if kh_freelist k ! ci = 0 then grow_slab ci k else (True, k))
     in if \<not> ok then Some (0, k1)
        else
          let body = kh_freelist k1 ! ci;
              k2 = k1\<lparr>kh_freelist := (kh_freelist k1)[ci := load64 (kmem k1) body]\<rparr>;
              h = body - HDR_SIZE;
              k3 = upd_mem (\<lambda>m. store32 (store32 m h HDR_MAGIC_ALLOC) (h + 4) (ucast sz)) k2;
              k4 = (if sz < class_size ! ci then upd_mem (\<lambda>m. store32 m (body + sz) CANARY_WORD) k3 else k3)
          in if 2 ^ 32 \<le> unat sz then None
             else
               let k5 = upd_mem (memset body FILL_BYTE sz) k4;
                   k6 = k5\<lparr>kh_recent := (kh_recent k5)[kh_recent_idx k5 := (body, ucast sz)],
                          kh_recent_idx := (kh_recent_idx k5 + 1) mod 16\<rparr>
               in Some (body, note_alloc sz k6))"

definition kmalloc :: "u64 \<Rightarrow> kheap \<Rightarrow> (u64 \<times> kheap) option" where
  "kmalloc size0 k =
    (let sz = (if size0 = 0 then 1 else size0);
         ci = class_for sz
     in if ci = KM_CLASSES then kmalloc_large sz k else kmalloc_slab ci sz k)"

definition kzalloc :: "u64 \<Rightarrow> kheap \<Rightarrow> (u64 \<times> kheap) option" where
  "kzalloc sz k =
    (case kmalloc sz k of
       None \<Rightarrow> None
     | Some (p, k1) \<Rightarrow> Some (p, if p \<noteq> 0 then upd_mem (memset p 0 sz) k1 else k1))"

section \<open>Release\<close>

text \<open>The loop that gives the pages of a large span back; the page count is read from the
  header again at every turn, and the index has sixteen bits.\<close>

partial_function (option) free_pages :: "u64 \<Rightarrow> u16 \<Rightarrow> phys \<Rightarrow> phys option" where
  "free_pages h pg ph =
    (if pg < hdr_npages (ph_mem ph) h
     then free_pages h (pg + 1) (pmm_free (h + push_bit 12 (ucast pg)) ph)
     else Some ph)"

definition kfree :: "u64 \<Rightarrow> kheap \<Rightarrow> (string + kheap) option" where
  "kfree ptr k =
    (if ptr = 0 then Some (Inl ''kfree(NULL)'')
     else
       let h = ptr - HDR_SIZE; m = kmem k; req = hdr_req m h; cls = hdr_cls m h
       in if hdr_magic m h = HDR_MAGIC_FREED then Some (Inl ''kfree: double free'')
          else if hdr_magic m h \<noteq> HDR_MAGIC_ALLOC then Some (Inl ''kfree: corrupted chunk header'')
          else
            let have_canary = (if cls \<noteq> 0 then req + 4 \<le> ucast (class_size ! (unat cls - 1))
                               else (ucast req + 16 :: u32) mod 4096 \<le> 4092)
            in if have_canary \<and> load32 m (ptr + ucast req) \<noteq> CANARY_WORD
               then Some (Inl ''kfree: buffer overrun detected'')
               else
                 let k1 = upd_mem (memset ptr POISON_BYTE (ucast req)) k;
                     k2 = k1\<lparr>kh_frees := kh_frees k1 + 1, kh_bytes_current := kh_bytes_current k1 - ucast req\<rparr>
                 in if cls \<noteq> 0
                    then
                      let ci = unat cls - 1;
                          k3 = upd_mem (\<lambda>m. store64 (store32 m h HDR_MAGIC_FREED) ptr (kh_freelist k2 ! ci)) k2
                      in Some (Inr (k3\<lparr>kh_freelist := (kh_freelist k3)[ci := ptr]\<rparr>))
                    else map_option (\<lambda>ph. Inr (k2\<lparr>kh_phys := ph\<rparr>)) (free_pages h 0 (kh_phys k2)))"

definition kheap_stats_get :: "kheap \<Rightarrow> u64 \<times> u64 \<times> u64 \<times> u64" where
  "kheap_stats_get k = (kh_allocs k, kh_frees k, kh_bytes_current k, kh_bytes_peak k)"

section \<open>Size classes\<close>

lemma memset_span: "memset a b n m x = (if x \<in> span a (unat n) then b else m x)"
proof -
  have "x - a < n \<longleftrightarrow> x \<in> span a (unat n)"
  proof
    assume "x - a < n"
    then have "unat (x - a) < unat n" by (simp add: word_less_nat_alt)
    then show "x \<in> span a (unat n)" unfolding span_def by (intro image_eqI [of _ _ "unat (x - a)"]) auto
  next
    assume "x \<in> span a (unat n)"
    then obtain i where i: "i < unat n" "x = a + of_nat i" by (auto simp: span_def)
    then have "i < 2 ^ 64" using unat_less_64 [of n] by simp
    with i show "x - a < n" by (simp add: word_less_nat_alt unat_of_nat_small)
  qed
  then show ?thesis by (simp add: memset_def)
qed

lemma length_class_size [simp]: "length class_size = KM_CLASSES"
  by (simp add: class_size_def)

lemma class_for_cases:
  assumes "unat sz < 2 ^ 32"
  shows "class_for sz \<le> KM_CLASSES"
    and "class_for sz < KM_CLASSES \<Longrightarrow> unat sz + 4 \<le> unat (class_size ! class_for sz)"
    and "class_for sz = KM_CLASSES \<longleftrightarrow> 2044 < unat sz"
proof -
  have u: "unat (sz + 4) = unat sz + 4" using unat_add_of_nat [of sz 4] assms by simp
  have cs: "\<And>ci. find (\<lambda>ci. sz + 4 \<le> class_size ! ci) [0..<KM_CLASSES] = Some ci \<Longrightarrow>
      ci < KM_CLASSES \<and> unat sz + 4 \<le> unat (class_size ! ci)"
    by (auto simp: find_Some_iff word_le_nat_alt u)
  show "class_for sz \<le> KM_CLASSES" using cs by (auto simp: class_for_def split: option.split)
  show "class_for sz < KM_CLASSES \<Longrightarrow> unat sz + 4 \<le> unat (class_size ! class_for sz)"
    using cs by (auto simp: class_for_def split: option.splits)
  have "class_for sz = KM_CLASSES \<longleftrightarrow> find (\<lambda>ci. sz + 4 \<le> class_size ! ci) [0..<KM_CLASSES] = None"
    using cs by (force simp: class_for_def split: option.split)
  also have "\<dots> \<longleftrightarrow> (\<forall>ci < KM_CLASSES. \<not> sz + 4 \<le> class_size ! ci)" by (auto simp: find_None_iff)
  also have "\<dots> \<longleftrightarrow> (\<forall>c \<in> set class_size. \<not> sz + 4 \<le> c)"
    by (simp add: all_set_conv_all_nth)
  also have "\<dots> \<longleftrightarrow> 2044 < unat sz" by (simp add: class_size_def word_le_nat_alt u) linarith
  finally show "class_for sz = KM_CLASSES \<longleftrightarrow> 2044 < unat sz" .
qed

section \<open>The canary of a large block\<close>

text \<open>For a large request whose size plus the header is a whole number of pages, the canary
  is written to the first word after the span that was allocated: \<open>kmalloc\<close> corrupts four bytes
  of the following frame, which may be in use or hold a free-list link.\<close>

theorem kmalloc_canary_past_span:
  assumes "kmalloc sz k = Some (p, k')" and "p \<noteq> 0" and "2044 < unat sz" and "unat sz < 2 ^ 32"
    and "(unat sz + 16) mod 4096 = 0"
  shows "load32 (ph_mem (kh_phys k')) (p + sz) = CANARY_WORD \<and> p + sz \<notin> span (p - HDR_SIZE) (unat sz + 16)"
proof
  have u: "unat (sz + HDR_SIZE) = unat sz + 16" using unat_add_of_nat [of sz 16] assms(4) by simp
  have "unat ((sz + HDR_SIZE) mod PAGE_SIZE) = 0" using assms(5) u by (simp add: unat_mod)
  then have canary: "(sz + HDR_SIZE) mod PAGE_SIZE \<le> PAGE_SIZE - 4" by (simp add: word_le_nat_alt)
  have "sz \<noteq> 0" using assms(3) by auto
  moreover have "class_for sz = KM_CLASSES" using class_for_cases(3) [OF assms(4)] assms(3) by blast
  ultimately have large: "kmalloc_large sz k = Some (p, k')" using assms(1) by (simp add: kmalloc_def)
  obtain m where m: "kmem k' = memset p FILL_BYTE sz (store32 m (p + sz) CANARY_WORD)"
    using large assms(2) canary
    by (auto simp: kmalloc_large_def Let_def note_alloc_def upd_mem_def split: option.splits if_splits)
  have "span p (unat sz) \<inter> span (p + sz) 4 = {}"
  proof (rule ccontr)
    assume "span p (unat sz) \<inter> span (p + sz) 4 \<noteq> {}"
    then obtain i j where ij: "i < unat sz" "j < 4" "p + of_nat i = p + sz + of_nat j" by (auto simp: span_def)
    then have "(of_nat i :: u64) = of_nat (unat sz + j)" by (simp add: add.assoc)
    then have "i = unat sz + j"
      using ij(1,2) assms(4) unat_of_nat_small [where 'a = 64, of i] unat_of_nat_small [where 'a = 64, of "unat sz + j"] by simp
    with ij(1) show False by simp
  qed
  then have "load32 (kmem k') (p + sz) = load32 (store32 m (p + sz) CANARY_WORD) (p + sz)"
    unfolding m by (intro load_cong) (auto simp: memset_span)
  then show "load32 (ph_mem (kh_phys k')) (p + sz) = CANARY_WORD" by simp
  show "p + sz \<notin> span (p - HDR_SIZE) (unat sz + 16)"
  proof
    assume "p + sz \<in> span (p - HDR_SIZE) (unat sz + 16)"
    then obtain i where i: "i < unat sz + 16" "p + sz = p - HDR_SIZE + of_nat i" by (auto simp: span_def)
    then have "(of_nat i :: u64) = of_nat (unat sz + 16)" by (simp add: algebra_simps)
    then have "i = unat sz + 16"
      using i(1) assms(4) unat_of_nat_small [where 'a = 64, of i] unat_of_nat_small [where 'a = 64, of "unat sz + 16"] by simp
    with i(1) show False by simp
  qed
qed

definition heap_demo :: kheap where
  "heap_demo = \<lparr>kh_phys = three_frames, kh_freelist = replicate 9 0, kh_allocs = 0, kh_frees = 0,
     kh_bytes_current = 0, kh_bytes_peak = 0, kh_recent = replicate 16 (0, 0), kh_recent_idx = 0\<rparr>"

lemma heap_demo_span: "\<exists>ph. pmm_alloc_contig 1 (kh_phys heap_demo) = Some (0x3000, ph)"
proof -
  have "ph_head three_frames = 0x3000" using three_frames_inv by (simp add: pmm_inv_def)
  then show ?thesis
    unfolding heap_demo_def pmm_alloc_contig_def
    by (simp, subst contig_loop.simps, simp add: run_step_def Let_def)
qed

theorem kmalloc_canary_past_span_witness:
  "\<exists>k'. kmalloc 4080 heap_demo = Some (0x3010, k') \<and> load32 (ph_mem (kh_phys k')) 0x4000 = CANARY_WORD"
proof -
  obtain ph where ph: "pmm_alloc_contig 1 (kh_phys heap_demo) = Some (0x3000, ph)" using heap_demo_span by blast
  have "class_for 4080 = KM_CLASSES" using class_for_cases(3) [of 4080] by simp
  moreover have "(ucast (drop_bit 12 (HDR_SIZE + 4080 + PAGE_SIZE - 1)) :: u32) = 1" by simp
  ultimately obtain k' where k': "kmalloc 4080 heap_demo = Some (0x3010, k')"
    using ph by (simp add: kmalloc_def kmalloc_large_def Let_def)
  then show ?thesis using kmalloc_canary_past_span [OF k'] by simp
qed

section \<open>A slab block from allocation to release\<close>

text \<open>The memory that a slab allocation of \<open>s\<close> bytes at \<open>h + 16\<close> leaves.\<close>

definition slab_mem :: "mem \<Rightarrow> u64 \<Rightarrow> u64 \<Rightarrow> mem" where
  "slab_mem m h sz =
    memset (h + 16) FILL_BYTE sz
      (store32 (store32 (store32 m h HDR_MAGIC_ALLOC) (h + 4) (ucast sz)) (h + 16 + sz) CANARY_WORD)"

lemma slab_spans:
  assumes "unat h + (20 + unat sz) \<le> 2 ^ 64"
  shows "span h 4 \<inter> span (h + 4) 4 = {}" "span h 4 \<inter> span (h + 16 + sz) 4 = {}" "span h 4 \<inter> span (h + 16) (unat sz) = {}"
    "span (h + 4) 4 \<inter> span (h + 16 + sz) 4 = {}" "span (h + 4) 4 \<inter> span (h + 16) (unat sz) = {}"
    "span (h + 8) 2 \<inter> span h 4 = {}" "span (h + 8) 2 \<inter> span (h + 4) 4 = {}"
    "span (h + 8) 2 \<inter> span (h + 16 + sz) 4 = {}" "span (h + 8) 2 \<inter> span (h + 16) (unat sz) = {}"
    "span (h + 16 + sz) 4 \<inter> span (h + 16) (unat sz) = {}"
proof -
  have e: "h + of_nat 0 = h" "h + of_nat 4 = h + 4" "h + of_nat 8 = h + 8" "h + of_nat 16 = h + 16"
    "h + of_nat (16 + unat sz) = h + 16 + sz" by (simp_all add: add.assoc)
  note d = span_offset_disjoint [where h = h, unfolded e]
  show "span h 4 \<inter> span (h + 4) 4 = {}" using d [of 0 4 4 4] assms unfolding e by simp
  show "span h 4 \<inter> span (h + 16 + sz) 4 = {}" using d [of 0 4 "16 + unat sz" 4] assms unfolding e by simp
  show "span h 4 \<inter> span (h + 16) (unat sz) = {}" using d [of 0 4 16 "unat sz"] assms unfolding e by simp
  show "span (h + 4) 4 \<inter> span (h + 16 + sz) 4 = {}" using d [of 4 4 "16 + unat sz" 4] assms unfolding e by simp
  show "span (h + 4) 4 \<inter> span (h + 16) (unat sz) = {}" using d [of 4 4 16 "unat sz"] assms unfolding e by simp
  show "span (h + 8) 2 \<inter> span h 4 = {}" using d [of 8 2 0 4] assms unfolding e by simp
  show "span (h + 8) 2 \<inter> span (h + 4) 4 = {}" using d [of 8 2 4 4] assms unfolding e by simp
  show "span (h + 8) 2 \<inter> span (h + 16 + sz) 4 = {}" using d [of 8 2 "16 + unat sz" 4] assms unfolding e by simp
  show "span (h + 8) 2 \<inter> span (h + 16) (unat sz) = {}" using d [of 8 2 16 "unat sz"] assms unfolding e by simp
  show "span (h + 16 + sz) 4 \<inter> span (h + 16) (unat sz) = {}" using d [of "16 + unat sz" 4 16 "unat sz"] assms unfolding e by simp
qed

text \<open>What the header and the canary read after the owner has written only into its block.\<close>

lemma slab_mem_reads:
  assumes "unat h + (20 + unat sz) \<le> 2 ^ 64"
    and m': "\<And>x. x \<notin> span (h + 16) (unat sz) \<Longrightarrow> m' x = slab_mem m h sz x"
  shows "hdr_magic m' h = HDR_MAGIC_ALLOC" and "hdr_req m' h = ucast sz" and "hdr_cls m' h = hdr_cls m h"
    and "load32 m' (h + 16 + sz) = CANARY_WORD"
proof -
  note s = slab_spans [OF assms(1)]
  let ?m1 = "store32 m h HDR_MAGIC_ALLOC" let ?m2 = "store32 ?m1 (h + 4) (ucast sz)"
  let ?m3 = "store32 ?m2 (h + 16 + sz) CANARY_WORD"
  have out: "m' x = ?m3 x" if "x \<notin> span (h + 16) (unat sz)" for x
    using m' [OF that] that by (simp add: slab_mem_def memset_span)
  have "load32 m' h = load32 ?m3 h" using s(3) by (intro load_cong out) blast
  also have "\<dots> = load32 ?m2 h" using s(2) by (intro load_cong store_other) blast
  also have "\<dots> = load32 ?m1 h" using s(1) by (intro load_cong store_other) blast
  finally show "hdr_magic m' h = HDR_MAGIC_ALLOC" by (simp add: hdr_magic_def)
  have "load32 m' (h + 4) = load32 ?m3 (h + 4)" using s(5) by (intro load_cong out) blast
  also have "\<dots> = load32 ?m2 (h + 4)" using s(4) by (intro load_cong store_other) blast
  finally show "hdr_req m' h = ucast sz" by (simp add: hdr_req_def)
  have "load16 m' (h + 8) = load16 ?m3 (h + 8)" using s(9) by (intro load_cong out) blast
  also have "\<dots> = load16 ?m2 (h + 8)" using s(8) by (intro load_cong store_other) blast
  also have "\<dots> = load16 ?m1 (h + 8)" using s(7) by (intro load_cong store_other) blast
  also have "\<dots> = load16 m (h + 8)" using s(6) by (intro load_cong store_other) blast
  finally show "hdr_cls m' h = hdr_cls m h" by (simp add: hdr_cls_def)
  have "load32 m' (h + 16 + sz) = load32 ?m3 (h + 16 + sz)" using s(10) by (intro load_cong out) blast
  then show "load32 m' (h + 16 + sz) = CANARY_WORD" by simp
qed

lemma unat_class_size: "ci < KM_CLASSES \<Longrightarrow> unat (class_size ! ci) \<le> 2048"
proof -
  have "\<forall>c \<in> set class_size. unat c \<le> 2048" by (simp add: class_size_def)
  then show "ci < KM_CLASSES \<Longrightarrow> unat (class_size ! ci) \<le> 2048" by simp
qed

text \<open>C31: A block of the slab path survives its life: take the head chunk of its class, write
  anything into the requested bytes, and \<open>kfree\<close> accepts it (no false double-free, header or
  overrun panic), puts the same chunk back at the head of its class with its old successor and
  restores the count of bytes in use.\<close>

theorem kmalloc_kfree_slab:
  assumes k: "kh_freelist k ! ci = p" "p \<noteq> 0" "16 \<le> unat p" "unat p + 2052 \<le> 2 ^ 64"
    and cls: "hdr_cls (kmem k) (p - HDR_SIZE) = of_nat (ci + 1)" and len: "length (kh_freelist k) = 9"
    and sz: "0 < sz" "unat sz < 2 ^ 32" "class_for sz = ci" "ci < KM_CLASSES"
  shows "\<exists>k1. kmalloc sz k = Some (p, k1) \<and>
    (\<forall>m'. (\<forall>x. x \<notin> span p (unat sz) \<longrightarrow> m' x = kmem k1 x) \<longrightarrow>
      (\<exists>k2. kfree p (upd_mem (\<lambda>_. m') k1) = Some (Inr k2) \<and> kh_freelist k2 = kh_freelist k \<and>
         load64 (kmem k2) p = load64 (kmem k) p \<and> kh_bytes_current k2 = kh_bytes_current k))"
proof -
  define h where "h = p - HDR_SIZE"
  have p: "p = h + 16" by (simp add: h_def)
  have fit: "unat sz + 4 \<le> unat (class_size ! ci)" "unat (class_size ! ci) \<le> 2048"
    using class_for_cases(2) [OF sz(2)] sz(3,4) unat_class_size by auto
  have "unat h = unat p - 16" using k(3) by (simp add: h_def unat_sub word_le_nat_alt)
  then have room: "unat h + (20 + unat sz) \<le> 2 ^ 64" using k(3,4) fit by simp
  have lt: "sz < class_size ! ci" using fit(1) by (simp add: word_less_nat_alt)
  have cast: "unat (ucast sz :: u32) = unat sz" using sz(2) by (simp add: unsigned_ucast_eq take_bit_nat_eq_self)
  have "\<exists>k1. kmalloc_slab ci sz k = Some (p, k1) \<and> kmem k1 = slab_mem (kmem k) h sz \<and>
      kh_freelist k1 = (kh_freelist k)[ci := load64 (kmem k) p] \<and> kh_bytes_current k1 = kh_bytes_current k + sz"
    using k lt sz(2)
    by (simp add: kmalloc_slab_def Let_def note_alloc_def upd_mem_def slab_mem_def h_def add.commute)
  then obtain k1 where k1: "kmalloc_slab ci sz k = Some (p, k1)" "kmem k1 = slab_mem (kmem k) h sz"
    "kh_freelist k1 = (kh_freelist k)[ci := load64 (kmem k) p]" "kh_bytes_current k1 = kh_bytes_current k + sz" by blast
  have "\<exists>k2. kfree p (upd_mem (\<lambda>_. m') k1) = Some (Inr k2) \<and> kh_freelist k2 = kh_freelist k \<and>
         load64 (kmem k2) p = load64 (kmem k) p \<and> kh_bytes_current k2 = kh_bytes_current k"
    if m': "\<forall>x. x \<notin> span p (unat sz) \<longrightarrow> m' x = kmem k1 x" for m'
  proof -
    have r: "hdr_magic m' h = HDR_MAGIC_ALLOC" "hdr_req m' h = ucast sz" "hdr_cls m' h = of_nat (ci + 1)"
      "load32 m' (p + sz) = CANARY_WORD"
      using slab_mem_reads [OF room, of m' "kmem k"] m' cls by (auto simp: k1(2) p)
    have c: "(of_nat (ci + 1) :: u16) \<noteq> 0" "unat (of_nat (ci + 1) :: u16) - 1 = ci"
      using sz(4) unat_of_nat_small [where 'a = 16, of "ci + 1"] by (auto simp: word_unat_eq_iff)
    have q: "(ucast (ucast sz :: u32) :: u64) = sz"
      using sz(2) by (intro word_unat_eq_iff [THEN iffD2]) (simp add: unsigned_ucast_eq unsigned_take_bit_eq take_bit_nat_eq_self)
    have "(kh_freelist k)[ci := p] = kh_freelist k" using k(1) list_update_id by metis
    then show ?thesis
      using r c q k(1,2) k1(3,4) len sz(4)
      by (simp add: kfree_def Let_def upd_mem_def h_def [symmetric])
  qed
  then show ?thesis
    using k1(1) sz by (intro exI [of _ k1]) (auto simp: kmalloc_def)
qed

lemma write_hdr_cls:
  assumes "unat h + 12 \<le> 2 ^ 64"
  shows "hdr_cls (write_hdr h mg rq c np m) h = c"
proof -
  have "span (h + 8) 2 \<inter> span (h + 10) 2 = {}"
    using span_offset_disjoint [of 8 2 10 2 h] assms by simp
  then have "load16 (write_hdr h mg rq c np m) (h + 8) = load16 (store16 (store32 (store32 m h mg) (h + 4) rq) (h + 8) c) (h + 8)"
    unfolding write_hdr_def by (intro load_cong store_other) blast
  then show ?thesis by (simp add: hdr_cls_def)
qed

definition slab_demo :: kheap where
  "slab_demo = (upd_mem (write_hdr 0x5000 HDR_MAGIC_FREED 0 1 0) heap_demo)\<lparr>kh_freelist := (replicate 9 0)[0 := 0x5010]\<rparr>"

theorem kmalloc_kfree_slab_witness:
  "\<exists>k1 k2. kmalloc 10 slab_demo = Some (0x5010, k1) \<and> kfree 0x5010 k1 = Some (Inr k2) \<and> kh_freelist k2 ! 0 = 0x5010"
proof -
  have c: "hdr_cls (kmem slab_demo) (0x5010 - HDR_SIZE) = of_nat (0 + 1)"
    using write_hdr_cls [of "0x5000" HDR_MAGIC_FREED 0 1 0 "kmem heap_demo"] by (simp add: slab_demo_def upd_mem_def)
  have ci: "class_for 10 = 0" by (simp add: class_for_def class_size_def upt_rec)
  have f: "kh_freelist slab_demo ! 0 = 0x5010" "length (kh_freelist slab_demo) = 9" by (simp_all add: slab_demo_def)
  obtain k1 where k1: "kmalloc 10 slab_demo = Some (0x5010, k1)"
    "\<forall>m'. (\<forall>x. x \<notin> span 0x5010 (unat (10 :: u64)) \<longrightarrow> m' x = kmem k1 x) \<longrightarrow>
      (\<exists>k2. kfree 0x5010 (upd_mem (\<lambda>_. m') k1) = Some (Inr k2) \<and> kh_freelist k2 = kh_freelist slab_demo \<and>
         load64 (kmem k2) 0x5010 = load64 (kmem slab_demo) 0x5010 \<and> kh_bytes_current k2 = kh_bytes_current slab_demo)"
    using kmalloc_kfree_slab [OF f(1) _ _ _ c f(2), of 10] ci by auto
  have "upd_mem (\<lambda>_. kmem k1) k1 = k1" by (simp add: upd_mem_def)
  with k1 f show ?thesis by metis
qed

end
