(* ===== verification/Vmm.thy ===== *)
theory Vmm
  imports Pmm
begin

text \<open>
  Page tables (\<open>mm/vmm.c\<close>): descriptors, the walks that map, unmap, translate and probe a
  page, address spaces of processes (root allocation, release, the deep copy of \<open>fork\<close>) and
  the tables built at start-up. Tables are frames of the byte memory of \<open>Pmm\<close>, touched through
  the identity map. The addresses of the statically allocated tables come from the linker and
  are an argument. Register writes, barriers and TLB maintenance have no effect on this state;
  the values that \<open>vmm_init\<close> writes to the registers are part of its result.
\<close>

section \<open>Descriptors\<close>

abbreviation VM_READ :: u32 where "VM_READ \<equiv> 1"
abbreviation VM_WRITE :: u32 where "VM_WRITE \<equiv> 2"
abbreviation VM_EXEC :: u32 where "VM_EXEC \<equiv> 4"
abbreviation VM_USER :: u32 where "VM_USER \<equiv> 8"
abbreviation VM_DEVICE :: u32 where "VM_DEVICE \<equiv> 16"

abbreviation PTE_VALID :: u64 where "PTE_VALID \<equiv> 1"
abbreviation PTE_TABLE :: u64 where "PTE_TABLE \<equiv> 2"
abbreviation PTE_SH_INNER :: u64 where "PTE_SH_INNER \<equiv> 0x300"
abbreviation PTE_AF :: u64 where "PTE_AF \<equiv> 0x400"
abbreviation PTE_NG :: u64 where "PTE_NG \<equiv> 0x800"
abbreviation PTE_PXN :: u64 where "PTE_PXN \<equiv> 0x20000000000000"
abbreviation PTE_UXN :: u64 where "PTE_UXN \<equiv> 0x40000000000000"
abbreviation ATTR_NORMAL :: u64 where "ATTR_NORMAL \<equiv> 0"
abbreviation ATTR_DEVICE :: u64 where "ATTR_DEVICE \<equiv> 1"
abbreviation PT_ENTRIES :: nat where "PT_ENTRIES \<equiv> 512"
abbreviation PT_ADDR_MASK :: u64 where "PT_ADDR_MASK \<equiv> 0xfffffffff000"

definition PTE_ATTR :: "u64 \<Rightarrow> u64" where
  "PTE_ATTR n = push_bit 2 n"

definition level_shift :: "nat list" where
  "level_shift = [39, 30, 21, 12]"

text \<open>\<open>L0_IDX\<close> to \<open>L3_IDX\<close>, by level.\<close>

definition pt_idx :: "nat \<Rightarrow> u64 \<Rightarrow> nat" where
  "pt_idx lvl va = unat (drop_bit (level_shift ! lvl) va AND 511)"

definition table_ptr :: "u64 \<Rightarrow> u64" where
  "table_ptr d = d AND PT_ADDR_MASK"

definition leaf_desc :: "u64 \<Rightarrow> u32 \<Rightarrow> u64" where
  "leaf_desc pa fl =
    (let ap = (if fl AND VM_USER \<noteq> 0
               then (if fl AND VM_WRITE \<noteq> 0 then push_bit 6 1 else push_bit 6 3)
               else (if fl AND VM_WRITE \<noteq> 0 then push_bit 6 0 else push_bit 6 2));
         xn = (if fl AND VM_EXEC = 0 then PTE_PXN OR PTE_UXN
               else if fl AND VM_USER \<noteq> 0 then PTE_PXN else PTE_UXN);
         attr = (if fl AND VM_DEVICE \<noteq> 0 then PTE_ATTR ATTR_DEVICE else PTE_ATTR ATTR_NORMAL);
         ng = (if fl AND VM_USER \<noteq> 0 then PTE_NG else 0)
     in PTE_VALID OR PTE_TABLE OR attr OR ap OR PTE_SH_INNER OR PTE_AF OR ng OR xn OR (pa AND NOT (PAGE_SIZE - 1)))"

definition block_desc :: "u64 \<Rightarrow> u32 \<Rightarrow> u64" where
  "block_desc pa fl = leaf_desc pa fl AND NOT PTE_TABLE"

definition table_desc :: "u64 \<Rightarrow> u64" where
  "table_desc pa = PTE_VALID OR PTE_TABLE OR pa"

definition vmm_decode_flags :: "u64 \<Rightarrow> u32" where
  "vmm_decode_flags d =
    (let ap = drop_bit 6 d AND 3
     in VM_READ
        OR (if ap AND 2 = 0 then VM_WRITE else 0)
        OR (if ap AND 1 \<noteq> 0 then VM_USER else 0)
        OR (if drop_bit 54 d AND 1 = 0 then VM_EXEC else 0)
        OR (if drop_bit 2 d AND 3 = ATTR_DEVICE then VM_DEVICE else 0))"

definition pte_valid :: "u64 \<Rightarrow> bool" where
  "pte_valid d \<longleftrightarrow> d AND PTE_VALID \<noteq> 0"

definition pte_table :: "u64 \<Rightarrow> bool" where
  "pte_table d \<longleftrightarrow> d AND PTE_TABLE \<noteq> 0"

section \<open>Tables in memory\<close>

definition entry_addr :: "u64 \<Rightarrow> nat \<Rightarrow> u64" where
  "entry_addr t i = t + of_nat (8 * i)"

definition entry :: "mem \<Rightarrow> u64 \<Rightarrow> nat \<Rightarrow> u64" where
  "entry m t i = load64 m (entry_addr t i)"

definition set_entry :: "u64 \<Rightarrow> nat \<Rightarrow> u64 \<Rightarrow> phys \<Rightarrow> phys" where
  "set_entry t i d st = st\<lparr>ph_mem := store64 (ph_mem st) (entry_addr t i) d\<rparr>"

text \<open>The indices that a loop over a table runs through.\<close>

definition pt_indices :: "nat list" where
  "pt_indices = [0..<PT_ENTRIES]"

definition zero_table :: "u64 \<Rightarrow> phys \<Rightarrow> phys" where
  "zero_table t st = fold (\<lambda>z. set_entry t z 0) pt_indices st"

text \<open>The tables in the kernel image.\<close>

record ktables =
  kt_lower_l0 :: u64
  kt_lower_l1 :: u64
  kt_upper_l0 :: u64
  kt_h_l1 :: u64
  kt_h_l2 :: u64
  kt_h_l3 :: u64

definition root_for :: "ktables \<Rightarrow> u64 \<Rightarrow> u64" where
  "root_for kt va = (if drop_bit 63 va \<noteq> 0 then kt_upper_l0 kt else kt_lower_l0 kt)"

section \<open>Mapping one page\<close>

text \<open>The walk through the levels above the last, with tables allocated on demand; an error
  code or the last-level table.\<close>

fun map_walk :: "nat list \<Rightarrow> u64 \<Rightarrow> u64 \<Rightarrow> phys \<Rightarrow> (int + u64) \<times> phys" where
  "map_walk [] t va st = (Inr t, st)"
| "map_walk (lvl # ls) t va st =
    (let idx = pt_idx lvl va; d = entry (ph_mem st) t idx
     in if \<not> pte_valid d then
          (case pmm_alloc st of (nt, st1) \<Rightarrow>
             if nt = 0 then (Inl (- 2), st1)
             else
               let st2 = set_entry t idx (table_desc nt) (zero_table nt st1)
               in map_walk ls (table_ptr (entry (ph_mem st2) t idx)) va st2)
        else if pte_table d then map_walk ls (table_ptr d) va st
        else (Inl (- 3), st))"

definition map_leaf :: "u64 \<Rightarrow> u64 \<Rightarrow> u32 \<Rightarrow> u64 \<Rightarrow> phys \<Rightarrow> int \<times> phys" where
  "map_leaf va pa fl t st =
    (if pte_valid (entry (ph_mem st) t (pt_idx 3 va)) then (- 4, st)
     else (0, set_entry t (pt_idx 3 va) (leaf_desc pa fl) st))"

definition vmm_map_at :: "u64 \<Rightarrow> u64 \<Rightarrow> u64 \<Rightarrow> u32 \<Rightarrow> phys \<Rightarrow> int \<times> phys" where
  "vmm_map_at root va pa fl st =
    (if \<not> IS_ALIGNED va PAGE_SIZE \<or> \<not> IS_ALIGNED pa PAGE_SIZE then (- 1, st)
     else case map_walk [0, 1, 2] root va st of
       (Inl e, st1) \<Rightarrow> (e, st1)
     | (Inr t, st1) \<Rightarrow> map_leaf va pa fl t st1)"

definition vmm_map :: "ktables \<Rightarrow> u64 \<Rightarrow> u64 \<Rightarrow> u32 \<Rightarrow> phys \<Rightarrow> int \<times> phys" where
  "vmm_map kt va pa fl st =
    (if \<not> IS_ALIGNED va PAGE_SIZE \<or> \<not> IS_ALIGNED pa PAGE_SIZE then (- 1, st)
     else case map_walk [0, 1, 2] (root_for kt va) va st of
       (Inl e, st1) \<Rightarrow> (e, st1)
     | (Inr t, st1) \<Rightarrow> map_leaf va pa fl t st1)"

section \<open>Looking a page up\<close>

text \<open>The walk shared by unmapping, translating and probing: the level, table and index of the
  descriptor that covers the address, if there is one.\<close>

fun leaf_walk :: "nat list \<Rightarrow> mem \<Rightarrow> u64 \<Rightarrow> u64 \<Rightarrow> (nat \<times> u64 \<times> nat) option" where
  "leaf_walk [] m t va =
    (if pte_valid (entry m t (pt_idx 3 va)) then Some (3, t, pt_idx 3 va) else None)"
| "leaf_walk (lvl # ls) m t va =
    (let d = entry m t (pt_idx lvl va)
     in if \<not> pte_valid d then None
        else if \<not> pte_table d then Some (lvl, t, pt_idx lvl va)
        else leaf_walk ls m (table_ptr d) va)"

definition vmm_unmap_at :: "u64 \<Rightarrow> u64 \<Rightarrow> phys \<Rightarrow> int \<times> phys" where
  "vmm_unmap_at root va st =
    (case leaf_walk [0, 1, 2] (ph_mem st) root va of
       None \<Rightarrow> (- 1, st)
     | Some (_, t, i) \<Rightarrow> (0, set_entry t i 0 st))"

definition vmm_unmap :: "ktables \<Rightarrow> u64 \<Rightarrow> phys \<Rightarrow> int \<times> phys" where
  "vmm_unmap kt va st =
    (case leaf_walk [0, 1, 2] (ph_mem st) (root_for kt va) va of
       None \<Rightarrow> (- 1, st)
     | Some (_, t, i) \<Rightarrow> (0, set_entry t i 0 st))"

text \<open>The address that a descriptor of some level gives for a virtual address.\<close>

definition leaf_pa :: "nat \<Rightarrow> u64 \<Rightarrow> u64 \<Rightarrow> u64" where
  "leaf_pa lvl d va = (d AND PT_ADDR_MASK) OR (va AND (push_bit (level_shift ! lvl) 1 - 1))"

definition vmm_translate :: "ktables \<Rightarrow> mem \<Rightarrow> u64 \<Rightarrow> u64 option" where
  "vmm_translate kt m va =
    map_option (\<lambda>(lvl, t, i). leaf_pa lvl (entry m t i) va) (leaf_walk [0, 1, 2] m (root_for kt va) va)"

definition vmm_probe :: "mem \<Rightarrow> u64 \<Rightarrow> u64 \<Rightarrow> (u64 \<times> u32) option" where
  "vmm_probe m root va =
    map_option (\<lambda>(lvl, t, i). (leaf_pa lvl (entry m t i) va, vmm_decode_flags (entry m t i)))
      (leaf_walk [0, 1, 2] m root va)"

section \<open>Address spaces of processes\<close>

definition vmm_kernel_root :: "ktables \<Rightarrow> u64" where
  "vmm_kernel_root kt = kt_lower_l0 kt"

definition vmm_shared_l1 :: "ktables \<Rightarrow> u64" where
  "vmm_shared_l1 kt = kt_lower_l1 kt"

definition vmm_root_alloc :: "ktables \<Rightarrow> phys \<Rightarrow> u64 \<times> phys" where
  "vmm_root_alloc kt st =
    (case pmm_alloc st of (pa, st1) \<Rightarrow>
       if pa = 0 then (0, st1)
       else (pa, set_entry pa (pt_idx 0 0) (table_desc (vmm_shared_l1 kt)) (zero_table pa st1)))"

text \<open>\<open>free_subtree\<close>: the entries still to visit, then the table itself. A descriptor below the
  last level that is no table, and every one of the last level, is a page or block.\<close>

function free_entries :: "nat \<Rightarrow> nat list \<Rightarrow> u64 \<Rightarrow> phys \<Rightarrow> phys" where
  "free_entries lvl [] t st = st"
| "free_entries lvl (i # is) t st =
    (let d = entry (ph_mem st) t i
     in if \<not> pte_valid d then free_entries lvl is t st
        else if lvl < 3 \<and> pte_table d
        then free_entries lvl is t
               (pmm_free (table_ptr d) (free_entries (Suc lvl) pt_indices (table_ptr d) st))
        else free_entries lvl is t (pmm_free (d AND PT_ADDR_MASK) st))"
  by pat_completeness auto
termination by (relation "measures [\<lambda>(lvl, is, t, st). 3 - lvl, \<lambda>(lvl, is, t, st). length is]") auto

definition free_subtree :: "u64 \<Rightarrow> nat \<Rightarrow> phys \<Rightarrow> phys" where
  "free_subtree t lvl st = pmm_free t (free_entries lvl pt_indices t st)"

fun release_loop :: "u64 \<Rightarrow> nat list \<Rightarrow> phys \<Rightarrow> phys" where
  "release_loop root [] st = st"
| "release_loop root (i # is) st =
    (let d = entry (ph_mem st) root i
     in if \<not> pte_valid d then release_loop root is st
        else release_loop root is (set_entry root i 0
               (if pte_table d then free_subtree (table_ptr d) 1 st else pmm_free (d AND PT_ADDR_MASK) st)))"

definition vmm_root_release :: "u64 \<Rightarrow> nat \<Rightarrow> nat \<Rightarrow> phys \<Rightarrow> phys" where
  "vmm_root_release root lo hi st =
    release_loop root [(if lo = 0 then 1 else lo)..<min hi PT_ENTRIES] st"

definition vmm_root_free :: "u64 \<Rightarrow> phys \<Rightarrow> phys" where
  "vmm_root_free root st = pmm_free root st"

section \<open>The copy of an address space\<close>

abbreviation VMM_ERR_NOMEM :: int where "VMM_ERR_NOMEM \<equiv> - 5"
abbreviation VMM_ERR_BLOCK :: int where "VMM_ERR_BLOCK \<equiv> - 6"

definition copy_page :: "u64 \<Rightarrow> u64 \<Rightarrow> phys \<Rightarrow> phys" where
  "copy_page dst src st = st\<lparr>ph_mem := store_bytes (ph_mem st) dst (load_bytes (ph_mem st) src 4096)\<rparr>"

function copy_level :: "nat \<Rightarrow> nat list \<Rightarrow> u64 \<Rightarrow> u64 \<Rightarrow> phys \<Rightarrow> int \<times> phys" where
  "copy_level lvl [] src dst st = (0, st)"
| "copy_level lvl (i # is) src dst st =
    (let d = entry (ph_mem st) src i
     in if \<not> pte_valid d then copy_level lvl is src dst (set_entry dst i 0 st)
        else if pte_table d \<and> lvl < 3 then
          (case pmm_alloc st of (nt, st1) \<Rightarrow>
             if nt = 0 then (- VMM_ERR_NOMEM, st1)
             else case copy_level (Suc lvl) pt_indices (table_ptr d) nt (zero_table nt st1) of (r, st2) \<Rightarrow>
               if r \<noteq> 0 then (r, pmm_free nt st2)
               else copy_level lvl is src dst (set_entry dst i (table_desc nt) st2))
        else if \<not> pte_table d then (- VMM_ERR_BLOCK, st)
        else
          (case pmm_alloc st of (np, st1) \<Rightarrow>
             if np = 0 then (- VMM_ERR_NOMEM, st1)
             else copy_level lvl is src dst
                    (set_entry dst i (leaf_desc np (vmm_decode_flags d)) (copy_page np (d AND PT_ADDR_MASK) st1))))"
  by pat_completeness auto
termination by (relation "measures [\<lambda>(lvl, is, src, dst, st). 3 - lvl, \<lambda>(lvl, is, src, dst, st). length is]") auto

fun copy_roots :: "nat list \<Rightarrow> u64 \<Rightarrow> u64 \<Rightarrow> phys \<Rightarrow> int \<times> phys" where
  "copy_roots [] src dst st = (0, st)"
| "copy_roots (i # is) src dst st =
    (let d = entry (ph_mem st) src i
     in if \<not> pte_valid d then copy_roots is src dst (set_entry dst i 0 st)
        else if \<not> pte_table d then (- VMM_ERR_BLOCK, st)
        else
          (case pmm_alloc st of (nt, st1) \<Rightarrow>
             if nt = 0 then (- VMM_ERR_NOMEM, st1)
             else case copy_level 1 pt_indices (table_ptr d) nt (zero_table nt st1) of (r, st2) \<Rightarrow>
               if r \<noteq> 0 then (r, pmm_free nt st2)
               else copy_roots is src dst (set_entry dst i (table_desc nt) st2)))"

definition vmm_copy_space :: "u64 \<Rightarrow> u64 \<Rightarrow> nat \<Rightarrow> nat \<Rightarrow> phys \<Rightarrow> int \<times> phys" where
  "vmm_copy_space dst src lo hi st = copy_roots [lo..<min hi PT_ENTRIES] src dst st"

section \<open>The tables built at start-up\<close>

abbreviation GB :: u64 where "GB \<equiv> 0x40000000"
abbreviation KERN_DMAP_BASE :: u64 where "KERN_DMAP_BASE \<equiv> 0xFFFF008000000000"
abbreviation KERN_HEAP_BASE :: u64 where "KERN_HEAP_BASE \<equiv> 0xFFFF020000000000"
abbreviation KERN_DEVICE_BASE :: u64 where "KERN_DEVICE_BASE \<equiv> 0xFFFF800000000000"
abbreviation HEAP_ARENA_PAGES :: nat where "HEAP_ARENA_PAGES \<equiv> 1024"

text \<open>A loop over gigabytes that stores one block per turn; it need not end when the bound is
  within a gigabyte of the end of the address space.\<close>

partial_function (option) block_loop ::
  "(u64 \<Rightarrow> bool) \<Rightarrow> u64 \<Rightarrow> u64 \<Rightarrow> u32 \<Rightarrow> u64 \<Rightarrow> phys \<Rightarrow> phys option" where
  "block_loop cont t base fl va st =
    (if cont va then block_loop cont t base fl (va + GB) (set_entry t (pt_idx 1 va) (block_desc (va - base) fl) st)
     else Some st)"

definition build_lower_identity :: "ktables \<Rightarrow> u64 \<Rightarrow> u64 \<Rightarrow> phys \<Rightarrow> phys option" where
  "build_lower_identity kt ram_base ram_size st =
    (let st1 = set_entry (kt_lower_l0 kt) (pt_idx 0 ram_base) (table_desc (kt_lower_l1 kt)) st;
         fin = ALIGN_UP (ram_base + ram_size) GB
     in Option.bind
          (block_loop (\<lambda>va. va < ram_base \<and> va < push_bit 30 4) (kt_lower_l1 kt) 0 (VM_READ OR VM_WRITE OR VM_DEVICE) 0 st1)
          (block_loop (\<lambda>va. va < fin) (kt_lower_l1 kt) 0 (VM_READ OR VM_WRITE OR VM_EXEC) ram_base))"

text \<open>The panic when no frame is left does not return: \<open>None\<close>.\<close>

definition build_upper_windows :: "ktables \<Rightarrow> u64 \<Rightarrow> u64 \<Rightarrow> phys \<Rightarrow> phys option" where
  "build_upper_windows kt ram_base ram_size st =
    (case pmm_alloc st of (l1_dmap, st1) \<Rightarrow> case pmm_alloc st1 of (l1_dev, st2) \<Rightarrow>
       if l1_dmap = 0 \<or> l1_dev = 0 then None
       else
         let st3 = set_entry (kt_upper_l0 kt) (pt_idx 0 KERN_DEVICE_BASE) (table_desc l1_dev)
               (set_entry (kt_upper_l0 kt) (pt_idx 0 KERN_DMAP_BASE) (table_desc l1_dmap) st2)
         in Option.bind
              (block_loop (\<lambda>va. va < ALIGN_UP (KERN_DMAP_BASE + ram_base + ram_size) GB)
                l1_dmap KERN_DMAP_BASE (VM_READ OR VM_WRITE) (KERN_DMAP_BASE + ram_base) st3)
              (\<lambda>st4. block_loop (\<lambda>va. va < ALIGN_UP (KERN_DEVICE_BASE + ram_base + ram_size) GB)
                l1_dev KERN_DEVICE_BASE (VM_READ OR VM_WRITE OR VM_DEVICE) (KERN_DEVICE_BASE + ram_base)
                (set_entry l1_dev (pt_idx 1 KERN_DEVICE_BASE) (block_desc 0 (VM_READ OR VM_WRITE OR VM_DEVICE)) st4)))"

fun heap_arena :: "ktables \<Rightarrow> nat list \<Rightarrow> phys \<Rightarrow> phys" where
  "heap_arena kt [] st = st"
| "heap_arena kt (pg # pgs) st =
    (case pmm_alloc st of (fr, st1) \<Rightarrow>
       heap_arena kt pgs
         (set_entry (if pg < PT_ENTRIES then kt_h_l3 kt else kt_h_l3 kt + PAGE_SIZE) (pg mod PT_ENTRIES)
           (leaf_desc fr (VM_READ OR VM_WRITE)) st1))"

text \<open>The registers that start-up writes, and what secondary processors load again.\<close>

record mmu_regs =
  mr_mair :: u64
  mr_tcr :: u64
  mr_ttbr0 :: u64
  mr_ttbr1 :: u64
  mr_sctlr :: u64

definition vmm_init :: "ktables \<Rightarrow> u64 \<Rightarrow> u64 \<Rightarrow> u64 \<Rightarrow> u64 \<Rightarrow> u64 \<Rightarrow> phys \<Rightarrow> (mmu_regs \<times> phys) option" where
  "vmm_init kt start fin ram_base ram_size sctlr st =
    Option.bind (pmm_init start fin ram_base ram_size st) (\<lambda>st1.
    Option.bind (build_lower_identity kt ram_base ram_size st1) (\<lambda>st2.
    Option.bind (build_upper_windows kt ram_base ram_size st2) (\<lambda>st3.
      let st4 = set_entry (kt_upper_l0 kt) (pt_idx 0 KERN_HEAP_BASE) (table_desc (kt_h_l1 kt)) st3;
          st5 = set_entry (kt_h_l1 kt) (pt_idx 1 KERN_HEAP_BASE) (table_desc (kt_h_l2 kt)) st4;
          st6 = set_entry (kt_h_l2 kt) 1 (table_desc (kt_h_l3 kt + PAGE_SIZE))
                  (set_entry (kt_h_l2 kt) 0 (table_desc (kt_h_l3 kt)) st5);
          st7 = heap_arena kt [0..<HEAP_ARENA_PAGES] st6;
          mair = 0xff OR push_bit 8 0x04;
          tcr = 16 OR push_bit 8 1 OR push_bit 10 1 OR push_bit 12 3 OR push_bit 16 16 OR push_bit 24 1 OR
                push_bit 26 1 OR push_bit 28 3 OR push_bit 30 2
      in Some (\<lparr>mr_mair = mair, mr_tcr = tcr, mr_ttbr0 = kt_lower_l0 kt, mr_ttbr1 = kt_upper_l0 kt,
                mr_sctlr = sctlr OR push_bit 12 1 OR push_bit 2 1 OR 1\<rparr>, st7))))"

text \<open>A secondary processor before \<open>vmm_init\<close> panics (\<open>None\<close>); after it, the saved values are
  loaded and its own control register is extended.\<close>

definition vmm_cpu_activate :: "mmu_regs option \<Rightarrow> u64 \<Rightarrow> mmu_regs option" where
  "vmm_cpu_activate saved sctlr =
    map_option (\<lambda>r. r\<lparr>mr_sctlr := sctlr OR push_bit 12 1 OR push_bit 2 1 OR 1\<rparr>) saved"

end
