(* ===== verification/Vmm_Map.thy ===== *)
theory Vmm_Map
  imports Vmm
begin

text \<open>
  Page tables as trees of frames: descriptors, entries in memory, the tree below a table, what
  the mapping walk and a store into a slot do to it, and the address space as a map from
  addresses to physical addresses and permissions.
\<close>

section \<open>Descriptors\<close>

definition frame_ok :: "u64 \<Rightarrow> bool" where
  "frame_ok f \<longleftrightarrow> f \<noteq> 0 \<and> f AND PT_ADDR_MASK = f"

lemma mask_aligned: "IS_ALIGNED (d AND PT_ADDR_MASK) PAGE_SIZE"
  by (simp add: IS_ALIGNED_def and.assoc)

lemma frame_ok_aligned: "frame_ok f \<Longrightarrow> IS_ALIGNED f PAGE_SIZE"
  using mask_aligned [of f] by (simp add: frame_ok_def)

lemma and_or_distrib: "(a OR b) AND (c :: 'a::len word) = (a AND c) OR (b AND c)"
  by (rule bit_word_eqI) (auto simp: bit_or_iff bit_and_iff)

lemma table_desc_bits:
  assumes "frame_ok f"
  shows "pte_valid (table_desc f)" and "pte_table (table_desc f)" and "table_ptr (table_desc f) = f"
  using assms by (simp_all add: pte_valid_def pte_table_def table_ptr_def table_desc_def frame_ok_def and_or_distrib)

lemma pt_idx_less [simp]: "pt_idx lvl va < 512"
proof -
  have "unat (drop_bit (level_shift ! lvl) va AND mask 9) = unat (drop_bit (level_shift ! lvl) va) mod 2 ^ 9"
    by (rule mask_and_eq_mod)
  then show ?thesis by (simp add: pt_idx_def mask_eq_exp_minus_1)
qed

lemma leaf_desc_bits:
  shows "pte_valid (leaf_desc pa fl)" and "pte_table (leaf_desc pa fl)"
  by (simp_all add: pte_valid_def pte_table_def leaf_desc_def Let_def and_or_distrib)

lemma leaf_desc_pa: "leaf_desc pa fl AND PT_ADDR_MASK = pa AND PT_ADDR_MASK"
  by (simp add: leaf_desc_def Let_def PTE_ATTR_def and_or_distrib and.assoc)

lemma and_bit_cases: "(w :: 'a::len word) AND 2 ^ n = (if bit w n then 2 ^ n else 0)"
  by (rule bit_word_eqI) (auto simp: bit_and_iff bit_exp_iff)

lemma flag_cases:
  "(fl :: u32) AND 2 = 0 \<or> fl AND 2 = 2"
  "fl AND 4 = 0 \<or> fl AND 4 = 4"
  "fl AND 8 = 0 \<or> fl AND 8 = 8"
  "fl AND 16 = 0 \<or> fl AND 16 = 16"
  using and_bit_cases [of fl 1] and_bit_cases [of fl 2] and_bit_cases [of fl 3] and_bit_cases [of fl 4]
  by (simp_all split: if_splits)

lemma pa_bits:
  assumes "pa AND PT_ADDR_MASK = (pa :: u64)"
  shows "drop_bit 6 pa AND 3 = 0" and "drop_bit 54 pa AND 1 = 0" and "drop_bit 2 pa AND 3 = 0"
proof -
  have "bit pa n \<Longrightarrow> 12 \<le> n \<and> n < 48" for n
  proof -
    assume "bit pa n"
    then have "bit (PT_ADDR_MASK :: u64) n" using assms by (metis bit_and_iff)
    moreover have "PT_ADDR_MASK = push_bit 12 (mask 36 :: u64)" by (simp add: mask_eq_exp_minus_1)
    ultimately show ?thesis by (auto simp: bit_push_bit_iff bit_mask_iff)
  qed
  note * = this
  have three: "(3 :: u64) = mask 2" "(1 :: u64) = mask 1" by (simp_all add: mask_eq_exp_minus_1)
  show "drop_bit 6 pa AND 3 = 0" "drop_bit 2 pa AND 3 = 0"
    unfolding three by (rule bit_word_eqI, use * in \<open>force simp: bit_and_iff bit_drop_bit_eq bit_mask_iff\<close>)+
  show "drop_bit 54 pa AND 1 = 0"
    unfolding three by (rule bit_word_eqI, use * in \<open>force simp: bit_and_iff bit_drop_bit_eq bit_mask_iff\<close>)
qed

lemma decode_leaf:
  assumes "pa AND PT_ADDR_MASK = pa"
  shows "vmm_decode_flags (leaf_desc pa fl) =
    VM_READ OR (fl AND VM_WRITE) OR (fl AND VM_USER) OR
    (if fl AND VM_EXEC \<noteq> 0 \<and> fl AND VM_USER \<noteq> 0 then VM_EXEC else 0) OR (fl AND VM_DEVICE)"
proof -
  have "pa AND (PT_ADDR_MASK AND NOT (PAGE_SIZE - 1)) = pa AND NOT (PAGE_SIZE - 1)"
    by (simp only: assms flip: and.assoc)
  then have "pa AND NOT (PAGE_SIZE - 1) = pa" using assms by simp
  then show ?thesis
    using flag_cases [of fl] pa_bits [OF assms]
    by (elim disjE) (simp_all add: vmm_decode_flags_def leaf_desc_def Let_def PTE_ATTR_def and_or_distrib drop_bit_or)
qed

section \<open>Entries\<close>

text \<open>\<open>same_frames m m' F\<close>: the two memories agree on the frames of \<open>F\<close>.\<close>

definition same_frames :: "mem \<Rightarrow> mem \<Rightarrow> u64 set \<Rightarrow> bool" where
  "same_frames m m' F \<longleftrightarrow> (\<forall>f\<in>F. \<forall>x\<in>span f 4096. m' x = m x)"

definition only_frames :: "mem \<Rightarrow> mem \<Rightarrow> u64 set \<Rightarrow> bool" where
  "only_frames m m' F \<longleftrightarrow> (\<forall>x. (\<forall>f\<in>F. x \<notin> span f 4096) \<longrightarrow> m' x = m x)"

lemma only_frames_refl: "only_frames m m F"
  by (simp add: only_frames_def)

lemma only_frames_trans:
  "only_frames m m1 F \<Longrightarrow> only_frames m1 m2 G \<Longrightarrow> F \<subseteq> H \<Longrightarrow> G \<subseteq> H \<Longrightarrow> only_frames m m2 H"
  unfolding only_frames_def by (metis subset_iff)

lemma only_same:
  assumes "only_frames m m' F" and "F \<inter> G = {}" and "\<And>f. f \<in> F \<union> G \<Longrightarrow> IS_ALIGNED f PAGE_SIZE"
  shows "same_frames m m' G"
  unfolding same_frames_def
proof (intro ballI)
  fix g x assume g: "g \<in> G" and x: "x \<in> span g 4096"
  have "x \<notin> span f 4096" if "f \<in> F" for f
  proof -
    have "f \<noteq> g" using that g assms(2) by auto
    then have "span f 4096 \<inter> span g 4096 = {}"
      using that g assms(3) by (intro frames_disjoint) auto
    with x show ?thesis by auto
  qed
  with assms(1) show "m' x = m x" by (simp add: only_frames_def)
qed

lemma span_mono: "m \<le> n \<Longrightarrow> span a m \<subseteq> span a n"
  by (auto simp: span_def)

lemma entry_span:
  assumes "i < 512"
  shows "span (entry_addr t i) 8 \<subseteq> span t 4096"
proof
  fix x assume "x \<in> span (entry_addr t i) 8"
  then obtain j where "j < 8" "x = t + of_nat (8 * i + j)" by (auto simp: span_def entry_addr_def)
  with assms show "x \<in> span t 4096" unfolding span_def by (intro image_eqI [of _ _ "8 * i + j"]) auto
qed

lemma entry_same: "same_frames m m' {t} \<Longrightarrow> i < 512 \<Longrightarrow> entry m' t i = entry m t i"
  unfolding entry_def by (rule load_cong(3)) (use entry_span [of i t] in \<open>auto simp: same_frames_def\<close>)

lemma entry_store_same:
  assumes "IS_ALIGNED t PAGE_SIZE" and "i < 512" and "j < 512"
  shows "entry (store64 m (entry_addr t i) d) t j = (if j = i then d else entry m t j)"
proof (cases "j = i")
  case False
  then have "8 * i + 8 \<le> 8 * j \<or> 8 * j + 8 \<le> 8 * i" by auto
  moreover have "unat t + 4095 < 2 ^ 64" by (rule aligned_room [OF assms(1)]) simp
  ultimately have "span (entry_addr t i) 8 \<inter> span (entry_addr t j) 8 = {}"
    unfolding entry_addr_def using assms(2,3) by (intro span_offset_disjoint) auto
  then show ?thesis using False by (simp add: entry_def load64_store64_disjoint)
qed (simp add: entry_def)

lemma store_only: "i < 512 \<Longrightarrow> only_frames m (store64 m (entry_addr t i) d) {t}"
  unfolding only_frames_def using entry_span [of i t] by (auto intro!: store_other)

lemma set_entry_simps [simp]:
  "ph_mem (set_entry t i d st) = store64 (ph_mem st) (entry_addr t i) d"
  "ph_head (set_entry t i d st) = ph_head st"
  "ph_free (set_entry t i d st) = ph_free st"
  by (simp_all add: set_entry_def)

lemma pt_indices_simps [simp]: "set pt_indices = {..<512}" "distinct pt_indices"
  by (auto simp: pt_indices_def)

lemma zero_fold:
  assumes "IS_ALIGNED t PAGE_SIZE" and "n \<le> 512"
  shows "\<exists>m'. fold (\<lambda>z. set_entry t z 0) [0..<n] st = st\<lparr>ph_mem := m'\<rparr> \<and> only_frames (ph_mem st) m' {t} \<and>
    (\<forall>j<512. entry m' t j = (if j < n then 0 else entry (ph_mem st) t j))"
  using assms(2)
proof (induction n)
  case 0
  show ?case by (intro exI [of _ "ph_mem st"]) (simp add: only_frames_refl)
next
  case (Suc n)
  then obtain m' where m': "fold (\<lambda>z. set_entry t z 0) [0..<n] st = st\<lparr>ph_mem := m'\<rparr>"
    "only_frames (ph_mem st) m' {t}" "\<forall>j<512. entry m' t j = (if j < n then 0 else entry (ph_mem st) t j)"
    by auto
  have "only_frames (ph_mem st) (store64 m' (entry_addr t n) 0) {t}"
    using only_frames_trans [OF m'(2) store_only [of n m' t 0]] Suc.prems by simp
  moreover have "set_entry t n 0 (st\<lparr>ph_mem := m'\<rparr>) = st\<lparr>ph_mem := store64 m' (entry_addr t n) 0\<rparr>"
    by (simp add: set_entry_def)
  ultimately show ?case
    using m' Suc.prems assms(1)
    by (intro exI [of _ "store64 m' (entry_addr t n) 0"]) (auto simp: entry_store_same)
qed

lemma zero_table_gives:
  assumes "IS_ALIGNED t PAGE_SIZE"
  shows "only_frames (ph_mem st) (ph_mem (zero_table t st)) {t}"
    and "j < 512 \<Longrightarrow> entry (ph_mem (zero_table t st)) t j = 0"
    and "ph_head (zero_table t st) = ph_head st" and "ph_free (zero_table t st) = ph_free st"
  using zero_fold [OF assms, of 512 st] by (auto simp: zero_table_def pt_indices_def simp del: upt_rec_numeral)

text \<open>Changing frames that are not free keeps the free list.\<close>

lemma pmm_inv_only:
  assumes "pmm_inv st fs" and "only_frames (ph_mem st) (ph_mem st') F" and "F \<inter> set fs = {}"
    and "\<And>f. f \<in> F \<Longrightarrow> IS_ALIGNED f PAGE_SIZE" and "ph_head st' = ph_head st" and "ph_free st' = ph_free st"
  shows "pmm_inv st' fs"
proof -
  have al: "IS_ALIGNED x PAGE_SIZE" if "x \<in> set fs" for x
    using assms(1) that flist_aligned by (auto simp: pmm_inv_def)
  have "same_frames (ph_mem st) (ph_mem st') (set fs)"
    using assms(4) al by (intro only_same [OF assms(2,3)]) auto
  then have "load64 (ph_mem st') x = load64 (ph_mem st) x" if "x \<in> set fs" for x
    using that span_mono [of 8 4096 x] by (intro load_cong(3)) (simp add: same_frames_def subset_iff)
  then have "flist (ph_mem st') (ph_head st) fs"
    using assms(1) flist_frame [of "ph_mem st"] by (simp add: pmm_inv_def)
  with assms(1,5,6) show ?thesis by (simp add: pmm_inv_def)
qed

section \<open>Trees\<close>

text \<open>\<open>k\<close> is the number of levels below a table, so the table is of level \<open>3 - k\<close>. The frames
  that hold its tables, the descriptor that covers an address with its level, and the slot
  where the walk for an address ends.\<close>

definition sub_desc :: "u64 \<Rightarrow> bool" where
  "sub_desc d \<longleftrightarrow> pte_valid d \<and> pte_table d"

definition kid_tabs :: "(u64 \<Rightarrow> u64 list) \<Rightarrow> mem \<Rightarrow> u64 \<Rightarrow> nat \<Rightarrow> u64 list" where
  "kid_tabs T m t i = (if sub_desc (entry m t i) then T (table_ptr (entry m t i)) else [])"

fun tabs :: "nat \<Rightarrow> mem \<Rightarrow> u64 \<Rightarrow> u64 list" where
  "tabs 0 m t = [t]"
| "tabs (Suc k) m t = t # concat (map (kid_tabs (tabs k m) m t) pt_indices)"

fun look :: "nat \<Rightarrow> mem \<Rightarrow> u64 \<Rightarrow> u64 \<Rightarrow> (nat \<times> u64) option" where
  "look 0 m t va = (if pte_valid (entry m t (pt_idx 3 va)) then Some (3, entry m t (pt_idx 3 va)) else None)"
| "look (Suc k) m t va =
    (let d = entry m t (pt_idx (2 - k) va)
     in if sub_desc d then look k m (table_ptr d) va
        else if pte_valid d then Some (2 - k, d) else None)"

fun slot :: "nat \<Rightarrow> mem \<Rightarrow> u64 \<Rightarrow> u64 \<Rightarrow> nat \<times> u64 \<times> nat" where
  "slot 0 m t va = (3, t, pt_idx 3 va)"
| "slot (Suc k) m t va =
    (let d = entry m t (pt_idx (2 - k) va)
     in if sub_desc d then slot k m (table_ptr d) va else (2 - k, t, pt_idx (2 - k) va))"

definition walk_levels :: "nat \<Rightarrow> nat list" where
  "walk_levels k = [3 - k..<3]"

lemma walk_levels_simps:
  "walk_levels 0 = []" "k < 3 \<Longrightarrow> walk_levels (Suc k) = (2 - k) # walk_levels k" "walk_levels 3 = [0, 1, 2]"
proof -
  have u: "k < 3 \<Longrightarrow> [2 - k..<3] = (2 - k) # [3 - k..<3]" for k
    by (subst upt_conv_Cons) (auto simp: Suc_diff_le numeral_eq_Suc)
  then show "k < 3 \<Longrightarrow> walk_levels (Suc k) = (2 - k) # walk_levels k"
    by (simp add: walk_levels_def numeral_eq_Suc)
qed (simp_all add: walk_levels_def upt_rec numeral_eq_Suc)

lemma leaf_walk_slot:
  assumes "k \<le> 3"
  shows "leaf_walk (walk_levels k) m t va =
      (if look k m t va = None then None else Some (slot k m t va))"
    and "look k m t va = (case slot k m t va of (l, t', i) \<Rightarrow>
      if pte_valid (entry m t' i) then Some (l, entry m t' i) else None)"
  using assms
proof (induction k arbitrary: t)
  case (Suc k)
  { case 1 with Suc.IH show ?case by (auto simp: walk_levels_simps Let_def sub_desc_def) }
  { case 2 with Suc.IH show ?case by (auto simp: Let_def sub_desc_def) }
qed (simp_all add: walk_levels_simps)

lemma concat_indices_cong: "(\<And>i. i < 512 \<Longrightarrow> f i = g i) \<Longrightarrow> concat (map f pt_indices) = concat (map g pt_indices)"
  by (rule arg_cong [of _ _ concat], rule map_cong) simp_all

lemma tabs_self: "t \<in> set (tabs k m t)"
  by (cases k) simp_all

lemma tabs_sub:
  assumes "i < 512" and "sub_desc (entry m t i)"
  shows "set (tabs k m (table_ptr (entry m t i))) \<subseteq> set (tabs (Suc k) m t)"
  using assms by (auto simp: kid_tabs_def)

lemma tabs_aligned: "IS_ALIGNED t PAGE_SIZE \<Longrightarrow> f \<in> set (tabs k m t) \<Longrightarrow> IS_ALIGNED f PAGE_SIZE"
proof (induction k arbitrary: t)
  case (Suc k)
  then show ?case using mask_aligned by (auto simp: table_ptr_def kid_tabs_def split: if_splits)
qed simp

text \<open>What a memory that agrees on the frames of a tree keeps.\<close>

lemma tabs_cong:
  assumes "same_frames m m' (set (tabs k m t))"
  shows "tabs k m' t = tabs k m t" and "look k m' t va = look k m t va" and "slot k m' t va = slot k m t va"
proof -
  have "tabs k m' t = tabs k m t \<and> look k m' t va = look k m t va \<and> slot k m' t va = slot k m t va"
    using assms
  proof (induction k arbitrary: t)
    case 0
    then show ?case by (simp add: entry_same)
  next
    case (Suc k)
    have e: "entry m' t i = entry m t i" if "i < 512" for i
      using Suc.prems that by (intro entry_same) (auto simp: same_frames_def)
    have IH: "tabs k m' (table_ptr (entry m t i)) = tabs k m (table_ptr (entry m t i)) \<and>
      look k m' (table_ptr (entry m t i)) va = look k m (table_ptr (entry m t i)) va \<and>
      slot k m' (table_ptr (entry m t i)) va = slot k m (table_ptr (entry m t i)) va"
      if "i < 512" "sub_desc (entry m t i)" for i
      using Suc.prems tabs_sub [OF that, of k] by (intro Suc.IH) (auto simp: same_frames_def)
    have "kid_tabs (tabs k m') m' t i = kid_tabs (tabs k m) m t i" if "i < 512" for i
      using that e IH by (simp add: kid_tabs_def)
    then have "tabs (Suc k) m' t = tabs (Suc k) m t" by (simp, intro concat_indices_cong)
    then show ?case using e IH by (simp add: Let_def)
  qed
  then show "tabs k m' t = tabs k m t" "look k m' t va = look k m t va" "slot k m' t va = slot k m t va" by blast+
qed

lemma distinct_concat_map:
  "distinct xs \<Longrightarrow> distinct (concat (map g xs)) \<longleftrightarrow>
    (\<forall>i\<in>set xs. distinct (g i)) \<and> (\<forall>i\<in>set xs. \<forall>j\<in>set xs. i \<noteq> j \<longrightarrow> set (g i) \<inter> set (g j) = {})"
  by (induction xs) fastforce+

definition tree_ok :: "nat \<Rightarrow> mem \<Rightarrow> u64 \<Rightarrow> bool" where
  "tree_ok k m t \<longleftrightarrow> IS_ALIGNED t PAGE_SIZE \<and> distinct (tabs k m t)"

lemma tree_ok_Suc:
  "tree_ok (Suc k) m t \<longleftrightarrow> IS_ALIGNED t PAGE_SIZE \<and>
    (\<forall>i<512. t \<notin> set (kid_tabs (tabs k m) m t i) \<and>
       (sub_desc (entry m t i) \<longrightarrow> tree_ok k m (table_ptr (entry m t i))) \<and>
       (\<forall>j<512. i \<noteq> j \<longrightarrow> set (kid_tabs (tabs k m) m t i) \<inter> set (kid_tabs (tabs k m) m t j) = {}))"
proof -
  have "distinct (kid_tabs (tabs k m) m t i) \<longleftrightarrow> (sub_desc (entry m t i) \<longrightarrow> tree_ok k m (table_ptr (entry m t i)))" for i
    using mask_aligned by (auto simp: kid_tabs_def tree_ok_def table_ptr_def)
  then show ?thesis
    unfolding tree_ok_def [of "Suc k"] tabs.simps distinct.simps
    by (simp add: distinct_concat_map Ball_def) blast
qed

lemma tree_kid:
  assumes "tree_ok (Suc k) m t" and "i < 512" and "sub_desc (entry m t i)"
  shows "tree_ok k m (table_ptr (entry m t i))"
    and "t \<notin> set (tabs k m (table_ptr (entry m t i)))"
  using assms by (auto simp: tree_ok_Suc kid_tabs_def)

lemma tree_kids:
  assumes "tree_ok (Suc k) m t" and "i < 512" and "j < 512" and "i \<noteq> j"
    and "sub_desc (entry m t i)" and "sub_desc (entry m t j)"
  shows "set (tabs k m (table_ptr (entry m t i))) \<inter> set (tabs k m (table_ptr (entry m t j))) = {}"
  using assms by (auto simp: tree_ok_Suc kid_tabs_def)

lemma tree_ok_aligned: "tree_ok k m t \<Longrightarrow> f \<in> set (tabs k m t) \<Longrightarrow> IS_ALIGNED f PAGE_SIZE"
  unfolding tree_ok_def using tabs_aligned by blast

text \<open>A change inside the frames of one child, or in a frame outside the tree, as seen from the
  parent.\<close>

lemma sibling_same:
  assumes "tree_ok (Suc k) m t" and "only_frames m m' F" and "\<And>f. f \<in> F \<Longrightarrow> IS_ALIGNED f PAGE_SIZE"
    and "j < 512" and "sub_desc (entry m t j)" and "F \<inter> set (tabs k m (table_ptr (entry m t j))) = {}"
  shows "same_frames m m' (set (tabs k m (table_ptr (entry m t j))))"
  using assms tree_ok_aligned [OF tree_kid(1) [OF assms(1,4,5)]] by (intro only_same [OF assms(2)]) auto

lemma parent_same:
  assumes "tree_ok (Suc k) m t" and "only_frames m m' F" and "\<And>f. f \<in> F \<Longrightarrow> IS_ALIGNED f PAGE_SIZE"
    and "t \<notin> F" and "j < 512"
  shows "entry m' t j = entry m t j"
  using assms by (intro entry_same only_same [OF assms(2)]) (auto simp: tree_ok_Suc)

definition same_path :: "nat \<Rightarrow> nat \<Rightarrow> u64 \<Rightarrow> u64 \<Rightarrow> bool" where
  "same_path a b va va' \<longleftrightarrow> (\<forall>l. a \<le> l \<and> l \<le> b \<longrightarrow> pt_idx l va' = pt_idx l va)"

lemma same_path_step: "k < 3 \<Longrightarrow> 3 - k \<le> l \<Longrightarrow>
  same_path (2 - k) l va va' \<longleftrightarrow> pt_idx (2 - k) va' = pt_idx (2 - k) va \<and> same_path (3 - k) l va va'"
  unfolding same_path_def
proof (intro iffI conjI allI impI)
  fix l' assume a: "pt_idx (2 - k) va' = pt_idx (2 - k) va \<and> (\<forall>la. 3 - k \<le> la \<and> la \<le> l \<longrightarrow> pt_idx la va' = pt_idx la va)"
    and k: "k < 3" and l': "2 - k \<le> l' \<and> l' \<le> l"
  then show "pt_idx l' va' = pt_idx l' va" by (cases "l' = 2 - k") auto
qed auto

lemma slot_bounds:
  "k \<le> 3 \<Longrightarrow> slot k m t va = (l, t', i) \<Longrightarrow> t' \<in> set (tabs k m t) \<and> i < 512 \<and> 3 - k \<le> l \<and> l \<le> 3 \<and> i = pt_idx l va"
proof (induction k arbitrary: t)
  case (Suc k)
  show ?case
  proof (cases "sub_desc (entry m t (pt_idx (2 - k) va))")
    case True
    with Suc show ?thesis using tabs_sub [of "pt_idx (2 - k) va" m t k] by (force simp: Let_def)
  next
    case False
    with Suc.prems show ?thesis by (auto simp: Let_def)
  qed
qed auto

text \<open>When a change touches only frames outside the other children, and of the table only the
  entry \<open>idx\<close>, all that is not below \<open>idx\<close> stays.\<close>

lemma other_kids:
  assumes "tree_ok (Suc k) m t" and "only_frames m m' F" and "\<forall>f\<in>F. IS_ALIGNED f PAGE_SIZE"
    and "\<forall>j<512. j \<noteq> idx \<longrightarrow> entry m' t j = entry m t j"
    and "\<forall>j<512. j \<noteq> idx \<longrightarrow> F \<inter> set (kid_tabs (tabs k m) m t j) = {}"
  shows "j < 512 \<Longrightarrow> j \<noteq> idx \<Longrightarrow> kid_tabs (tabs k m') m' t j = kid_tabs (tabs k m) m t j"
    and "pt_idx (2 - k) va \<noteq> idx \<Longrightarrow> look (Suc k) m' t va = look (Suc k) m t va"
proof -
  have same: "tabs k m' (table_ptr (entry m t j)) = tabs k m (table_ptr (entry m t j)) \<and>
      look k m' (table_ptr (entry m t j)) va = look k m (table_ptr (entry m t j)) va"
    if "j < 512" "sub_desc (entry m t j)" "j \<noteq> idx" for j
  proof -
    have "same_frames m m' (set (tabs k m (table_ptr (entry m t j))))"
      using that assms(5) assms(3) by (intro sibling_same [OF assms(1,2)]) (auto simp: kid_tabs_def)
    then show ?thesis using tabs_cong by blast
  qed
  show "j < 512 \<Longrightarrow> j \<noteq> idx \<Longrightarrow> kid_tabs (tabs k m') m' t j = kid_tabs (tabs k m) m t j"
    using same assms(4) by (simp add: kid_tabs_def)
  show "pt_idx (2 - k) va \<noteq> idx \<Longrightarrow> look (Suc k) m' t va = look (Suc k) m t va"
    using same assms(4) by (simp add: Let_def)
qed

text \<open>Writing a descriptor that is not a table into the slot of an address changes what that
  slot covers and nothing else.\<close>

lemma slot_store:
  assumes "k \<le> 3" and "tree_ok k m t" and "slot k m t va = (l, t', i)" and "l = 3 \<or> \<not> sub_desc d"
    and "m' = store64 m (entry_addr t' i) d"
  shows "tabs k m' t = tabs k m t \<and> look k m' t va' =
    (if same_path (3 - k) l va va' then if pte_valid d then Some (l, d) else None else look k m t va')"
  using assms
proof (induction k arbitrary: t)
  case 0
  then have "IS_ALIGNED t PAGE_SIZE" by (simp add: tree_ok_def)
  with 0 show ?case by (auto simp: entry_store_same same_path_def split: if_splits)
next
  case (Suc k)
  let ?idx = "pt_idx (2 - k) va"
  have k: "k < 3" and al: "IS_ALIGNED t PAGE_SIZE" using Suc.prems by (auto simp: tree_ok_def)
  have b: "i < 512" "\<forall>f\<in>{t'}. IS_ALIGNED f PAGE_SIZE"
    using slot_bounds [OF Suc.prems(1,3)] tree_ok_aligned [OF Suc.prems(2)] by blast+
  have only: "only_frames m m' {t'}" unfolding Suc.prems(5) by (rule store_only [OF b(1)])
  show ?case
  proof (cases "sub_desc (entry m t ?idx)")
    case True
    define c where "c = table_ptr (entry m t ?idx)"
    have s: "slot k m c va = (l, t', i)" using Suc.prems(3) True by (simp add: c_def)
    have ok: "tree_ok k m c" and nt: "t \<notin> set (tabs k m c)"
      using tree_kid [OF Suc.prems(2) pt_idx_less True] by (simp_all add: c_def)
    have IH: "tabs k m' c = tabs k m c \<and> look k m' c va' =
      (if same_path (3 - k) l va va' then if pte_valid d then Some (l, d) else None else look k m c va')"
      using Suc.IH [OF _ ok s Suc.prems(4,5)] k by simp
    have t': "t' \<in> set (tabs k m c)" and l: "3 - k \<le> l" using slot_bounds [OF _ s] k by auto
    have e: "entry m' t j = entry m t j" if "j < 512" for j
      using t' nt b(2) that by (intro parent_same [OF Suc.prems(2) only]) auto
    have dis: "\<forall>j<512. j \<noteq> ?idx \<longrightarrow> {t'} \<inter> set (kid_tabs (tabs k m) m t j) = {}"
      using tree_kids [OF Suc.prems(2) _ pt_idx_less _ _ True] t' by (auto simp: c_def kid_tabs_def)
    have "\<forall>j<512. j \<noteq> ?idx \<longrightarrow> entry m' t j = entry m t j" using e by simp
    note other = other_kids [OF Suc.prems(2) only b(2) this dis]
    have "kid_tabs (tabs k m') m' t ?idx = kid_tabs (tabs k m) m t ?idx"
      using e [OF pt_idx_less] IH by (simp add: kid_tabs_def c_def)
    then have "tabs (Suc k) m' t = tabs (Suc k) m t" using other(1) by (simp, intro concat_indices_cong) metis
    moreover have "look (Suc k) m' t va' = look k m' c va' \<and> look (Suc k) m t va' = look k m c va'"
      if "pt_idx (2 - k) va' = ?idx"
      using that True e [OF pt_idx_less] by (simp add: c_def)
    ultimately show ?thesis using other(2) [where va = va'] IH same_path_step [OF k l, of va va'] k
      by (cases "pt_idx (2 - k) va' = ?idx") (simp_all del: look.simps tabs.simps)
  next
    case False
    then have eq: "l = 2 - k" "t' = t" "i = ?idx" using Suc.prems(3) by auto
    then have d: "\<not> sub_desc d" using Suc.prems(4) by auto
    have e: "entry m' t j = (if j = ?idx then d else entry m t j)" if "j < 512" for j
      using that eq al by (simp add: Suc.prems(5) entry_store_same)
    have dis: "\<forall>j<512. j \<noteq> ?idx \<longrightarrow> {t'} \<inter> set (kid_tabs (tabs k m) m t j) = {}"
      using tree_kid(2) [OF Suc.prems(2)] eq by (simp add: kid_tabs_def)
    have "\<forall>j<512. j \<noteq> ?idx \<longrightarrow> entry m' t j = entry m t j" using e by simp
    note other = other_kids [OF Suc.prems(2) only b(2) this dis]
    have "kid_tabs (tabs k m') m' t ?idx = kid_tabs (tabs k m) m t ?idx"
      using e [OF pt_idx_less] False d by (simp add: kid_tabs_def)
    then have "tabs (Suc k) m' t = tabs (Suc k) m t" using other(1) e by (simp, intro concat_indices_cong) metis
    moreover have "same_path (2 - k) l va va' \<longleftrightarrow> pt_idx (2 - k) va' = ?idx"
      by (auto simp: eq same_path_def)
    ultimately show ?thesis
      using other(2) [where va = va'] e d eq(1) by (auto simp: Let_def)
  qed
qed

section \<open>Growing a tree\<close>

lemma set_tabs_Suc: "set (tabs (Suc k) m t) = insert t (\<Union>i<512. set (kid_tabs (tabs k m) m t i))"
  by auto

lemma set_tabs_split:
  assumes "idx < 512"
  shows "set (tabs (Suc k) m t) =
    set (kid_tabs (tabs k m) m t idx) \<union> insert t (\<Union>j\<in>{..<512} - {idx}. set (kid_tabs (tabs k m) m t j))"
proof -
  have "{..<512} = insert idx ({..<512} - {idx})" using assms by auto
  then have "(\<Union>j<512. set (kid_tabs (tabs k m) m t j)) =
    set (kid_tabs (tabs k m) m t idx) \<union> (\<Union>j\<in>{..<512} - {idx}. set (kid_tabs (tabs k m) m t j))"
    by (metis UN_insert)
  then show ?thesis unfolding set_tabs_Suc by simp
qed

text \<open>A new or changed subtree below the entry \<open>idx\<close>.\<close>

lemma graft:
  assumes T: "tree_ok (Suc k) m t" "only_frames m m' F" "\<forall>f\<in>F. IS_ALIGNED f PAGE_SIZE"
    and e: "\<forall>j<512. j \<noteq> idx \<longrightarrow> entry m' t j = entry m t j"
    and F: "\<forall>j<512. j \<noteq> idx \<longrightarrow> F \<inter> set (kid_tabs (tabs k m) m t j) = {}"
    and idx: "idx < 512" and new: "sub_desc (entry m' t idx)" "table_ptr (entry m' t idx) = c"
    and c: "tree_ok k m' c" "t \<notin> set (tabs k m' c)"
      "\<forall>j<512. j \<noteq> idx \<longrightarrow> set (tabs k m' c) \<inter> set (kid_tabs (tabs k m) m t j) = {}"
  shows "tree_ok (Suc k) m' t"
    and "set (tabs (Suc k) m' t) =
      set (tabs k m' c) \<union> insert t (\<Union>j\<in>{..<512} - {idx}. set (kid_tabs (tabs k m) m t j))"
    and "look (Suc k) m' t va =
      (if pt_idx (2 - k) va = idx then look k m' c va else look (Suc k) m t va)"
    and "pt_idx (2 - k) va = idx \<Longrightarrow> slot (Suc k) m' t va = slot k m' c va"
proof -
  note other = other_kids [OF T e F]
  have self: "kid_tabs (tabs k m') m' t idx = tabs k m' c" using new by (simp add: kid_tabs_def)
  have kid: "tree_ok k m' (table_ptr (entry m' t j))" if "j < 512" "sub_desc (entry m' t j)" for j
  proof (cases "j = idx")
    case False
    with that e have "sub_desc (entry m t j)" by simp
    moreover from this have "tabs k m' (table_ptr (entry m t j)) = tabs k m (table_ptr (entry m t j))"
      using other(1) [OF that(1) False] e that(1) False by (simp add: kid_tabs_def)
    ultimately show ?thesis
      using tree_kid(1) [OF T(1) that(1)] e that(1) False by (simp add: tree_ok_def)
  qed (use new c in simp)
  have "t \<notin> set (kid_tabs (tabs k m') m' t j)" if "j < 512" for j
    using that other(1) [of j] T(1) self c(2) by (cases "j = idx") (auto simp: tree_ok_Suc)
  moreover have "set (kid_tabs (tabs k m') m' t i) \<inter> set (kid_tabs (tabs k m') m' t j) = {}"
    if "i < 512" "j < 512" "i \<noteq> j" for i j
    using that other(1) [of i] other(1) [of j] T(1) self c(3) unfolding tree_ok_Suc
    by (cases "i = idx"; cases "j = idx") auto
  ultimately show "tree_ok (Suc k) m' t" using T(1) kid unfolding tree_ok_Suc by blast
  have "set (kid_tabs (tabs k m') m' t j) = (if j = idx then set (tabs k m' c) else set (kid_tabs (tabs k m) m t j))" if "j < 512" for j
    using that other(1) [of j] self by simp
  then have "(\<Union>j<512. set (kid_tabs (tabs k m') m' t j)) =
    set (tabs k m' c) \<union> (\<Union>j\<in>{..<512} - {idx}. set (kid_tabs (tabs k m) m t j))"
    using idx by (auto split: if_splits)
  then show "set (tabs (Suc k) m' t) =
      set (tabs k m' c) \<union> insert t (\<Union>j\<in>{..<512} - {idx}. set (kid_tabs (tabs k m) m t j))"
    unfolding set_tabs_Suc by simp
  show "look (Suc k) m' t va = (if pt_idx (2 - k) va = idx then look k m' c va else look (Suc k) m t va)"
    using other(2) new by (simp del: look.simps) (simp add: Let_def)
  show "pt_idx (2 - k) va = idx \<Longrightarrow> slot (Suc k) m' t va = slot k m' c va"
    using new by simp
qed

text \<open>A cleared frame is a tree of one table with nothing mapped.\<close>

lemma zero_tree:
  assumes "IS_ALIGNED t PAGE_SIZE" and "\<And>j. j < 512 \<Longrightarrow> entry m t j = 0"
  shows "tabs k m t = [t]" and "tree_ok k m t" and "look k m t va = None"
proof -
  have z: "\<not> sub_desc 0" "\<not> pte_valid 0" by (simp_all add: sub_desc_def pte_valid_def)
  have "concat (map (kid_tabs T m t) pt_indices) = []" for T
    using assms(2) z by (simp add: kid_tabs_def)
  then show tabs: "tabs k m t = [t]" by (cases k) simp_all
  show "tree_ok k m t" using tabs assms(1) by (simp add: tree_ok_def)
  show "look k m t va = None" using assms(2) z by (cases k) simp_all
qed

lemma look_invalid: "slot (Suc k) m t va = (l, t', i) \<Longrightarrow> \<not> pte_valid (entry m t (pt_idx (2 - k) va)) \<Longrightarrow> look (Suc k) m t va = None"
  by (simp add: sub_desc_def)

text \<open>Linking a fresh, cleared table into an empty entry: the step of the mapping walk.\<close>

definition link_table :: "u64 \<Rightarrow> nat \<Rightarrow> u64 \<Rightarrow> phys \<Rightarrow> phys" where
  "link_table t idx nt st = set_entry t idx (table_desc nt) (zero_table nt st)"

lemma link_table_gives:
  assumes "IS_ALIGNED t PAGE_SIZE" and "frame_ok nt" and "t \<noteq> nt" and "idx < 512"
    and "pmm_inv st fs" and "t \<notin> set fs" and "nt \<notin> set fs"
  shows "only_frames (ph_mem st) (ph_mem (link_table t idx nt st)) {t, nt}"
    and "j < 512 \<Longrightarrow> entry (ph_mem (link_table t idx nt st)) t j = (if j = idx then table_desc nt else entry (ph_mem st) t j)"
    and "j < 512 \<Longrightarrow> entry (ph_mem (link_table t idx nt st)) nt j = 0"
    and "pmm_inv (link_table t idx nt st) fs"
proof -
  have al: "IS_ALIGNED nt PAGE_SIZE" by (rule frame_ok_aligned [OF assms(2)])
  note z = zero_table_gives [OF al, where st = st]
  have s: "only_frames (ph_mem (zero_table nt st)) (ph_mem (link_table t idx nt st)) {t}"
    using store_only [OF assms(4)] by (simp add: link_table_def)
  show only: "only_frames (ph_mem st) (ph_mem (link_table t idx nt st)) {t, nt}"
    by (rule only_frames_trans [OF z(1) s]) auto
  have "same_frames (ph_mem st) (ph_mem (zero_table nt st)) {t}"
    using assms(1,3) al by (intro only_same [OF z(1)]) auto
  then show "entry (ph_mem (link_table t idx nt st)) t j = (if j = idx then table_desc nt else entry (ph_mem st) t j)" if "j < 512"
    using that assms(1,4) by (simp add: link_table_def entry_store_same entry_same)
  have "same_frames (ph_mem (zero_table nt st)) (ph_mem (link_table t idx nt st)) {nt}"
    using assms(1,3) al by (intro only_same [OF s]) auto
  then show "entry (ph_mem (link_table t idx nt st)) nt j = 0" if "j < 512"
    using that z(2) by (simp add: entry_same)
  show "pmm_inv (link_table t idx nt st) fs"
    using assms al z by (intro pmm_inv_only [OF assms(5) only]) (auto simp: link_table_def)
qed

section \<open>Mapping\<close>

text \<open>What the mapping walk does to a tree of \<open>k\<close> levels below \<open>t\<close>, whatever its result: it takes
  the frames \<open>gs\<close> off the free list, links them as empty tables, and changes no mapping.\<close>

definition grown :: "nat \<Rightarrow> u64 \<Rightarrow> phys \<Rightarrow> u64 list \<Rightarrow> phys \<Rightarrow> u64 list \<Rightarrow> u64 list \<Rightarrow> bool" where
  "grown k t st fs st' gs fs' \<longleftrightarrow>
    fs = gs @ fs' \<and> pmm_inv st' fs' \<and> tree_ok k (ph_mem st') t \<and>
    set (tabs k (ph_mem st') t) = set (tabs k (ph_mem st) t) \<union> set gs \<and>
    only_frames (ph_mem st) (ph_mem st') (set (tabs k (ph_mem st) t) \<union> set gs) \<and>
    (\<forall>va. look k (ph_mem st') t va = look k (ph_mem st) t va)"

text \<open>\<open>n\<close> bounds the frames that a walk out of memory had at its disposal.\<close>

definition walk_result :: "nat \<Rightarrow> nat \<Rightarrow> u64 \<Rightarrow> u64 \<Rightarrow> phys \<Rightarrow> int + u64 \<Rightarrow> phys \<Rightarrow> u64 list \<Rightarrow> bool" where
  "walk_result k n t va st r st' fs \<longleftrightarrow>
    (case r of
       Inl e \<Rightarrow> e = - 2 \<and> length fs < n \<and> look k (ph_mem st) t va = None \<or>
         e = - 3 \<and> (\<exists>l d. look k (ph_mem st) t va = Some (l, d) \<and> l < 3)
     | Inr t' \<Rightarrow> slot k (ph_mem st') t va = (3, t', pt_idx 3 va))"

lemma grown_refl: "tree_ok k (ph_mem st) t \<Longrightarrow> pmm_inv st fs \<Longrightarrow> grown k t st fs st [] fs"
  by (simp add: grown_def only_frames_refl)

text \<open>The parent of a child that has grown.\<close>

lemma grown_parent:
  assumes T: "tree_ok (Suc k) (ph_mem st) t" and sub: "sub_desc (entry (ph_mem st) t idx)" "idx < 512"
    and fs: "pmm_inv st fs" "set (tabs (Suc k) (ph_mem st) t) \<inter> set fs = {}"
    and g: "grown k (table_ptr (entry (ph_mem st) t idx)) st fs st' gs fs'"
  shows "grown (Suc k) t st fs st' gs fs'"
    and "pt_idx (2 - k) va = idx \<Longrightarrow> slot (Suc k) (ph_mem st') t va = slot k (ph_mem st') (table_ptr (entry (ph_mem st) t idx)) va"
proof -
  define c where "c = table_ptr (entry (ph_mem st) t idx)"
  let ?F = "set (tabs k (ph_mem st) c) \<union> set gs"
  note g' = g [folded c_def, unfolded grown_def]
  have c: "tree_ok k (ph_mem st) c" "t \<notin> set (tabs k (ph_mem st) c)" using tree_kid [OF T sub(2,1)] by (simp_all add: c_def)
  have gsfs: "set gs \<subseteq> set fs" using g' by auto
  have kid: "set (kid_tabs (tabs k (ph_mem st)) (ph_mem st) t j) \<subseteq> set (tabs (Suc k) (ph_mem st) t)" if "j < 512" for j
    using that unfolding set_tabs_Suc by blast
  have t: "t \<notin> ?F" using c(2) gsfs fs(2) tabs_self [of t "Suc k" "ph_mem st"] by blast
  have al: "\<forall>f\<in>?F. IS_ALIGNED f PAGE_SIZE"
    using tree_ok_aligned [OF c(1)] flist_aligned fs(1) gsfs by (auto simp: pmm_inv_def)
  have only: "only_frames (ph_mem st) (ph_mem st') ?F" using g' by blast
  have e: "entry (ph_mem st') t j = entry (ph_mem st) t j" if "j < 512" for j
    using al t that by (intro parent_same [OF T only]) auto
  have dis: "\<forall>j<512. j \<noteq> idx \<longrightarrow> ?F \<inter> set (kid_tabs (tabs k (ph_mem st)) (ph_mem st) t j) = {}"
  proof (intro allI impI)
    fix j assume j: "j < 512" "j \<noteq> idx"
    have "set (tabs k (ph_mem st) c) \<inter> set (kid_tabs (tabs k (ph_mem st)) (ph_mem st) t j) = {}"
      using tree_kids [OF T j(1) sub(2) j(2) _ sub(1)] by (auto simp: c_def kid_tabs_def)
    then show "?F \<inter> set (kid_tabs (tabs k (ph_mem st)) (ph_mem st) t j) = {}"
      using kid [OF j(1)] gsfs fs(2) by blast
  qed
  have tab: "set (tabs k (ph_mem st') c) = ?F" "tree_ok k (ph_mem st') c" using g' by blast+
  have "t \<notin> set (tabs k (ph_mem st') c)" using t tab(1) by simp
  note gr = graft [OF T only al _ dis sub(2) _ _ tab(2) this, unfolded tab(1), OF _ _ _ dis]
  have en: "\<forall>j<512. j \<noteq> idx \<longrightarrow> entry (ph_mem st') t j = entry (ph_mem st) t j"
    "sub_desc (entry (ph_mem st') t idx)" "table_ptr (entry (ph_mem st') t idx) = c"
    using e sub by (simp_all add: c_def)
  note gr = gr [OF en]
  have ki: "set (kid_tabs (tabs k (ph_mem st)) (ph_mem st) t idx) = set (tabs k (ph_mem st) c)"
    using sub by (simp add: kid_tabs_def c_def)
  have "set (tabs (Suc k) (ph_mem st') t) = set (tabs (Suc k) (ph_mem st) t) \<union> set gs"
    unfolding gr(2) set_tabs_split [OF sub(2), of k "ph_mem st"] ki by (simp only: Un_ac)
  moreover have "?F \<subseteq> set (tabs (Suc k) (ph_mem st) t) \<union> set gs" using ki kid [OF sub(2)] by blast
  moreover have "look (Suc k) (ph_mem st') t va = look (Suc k) (ph_mem st) t va" for va
    unfolding gr(3) using g' sub(1) by (simp add: c_def)
  ultimately show "grown (Suc k) t st fs st' gs fs'"
    unfolding grown_def using g' gr(1) only_frames_trans [OF only only_frames_refl] by blast
  show "pt_idx (2 - k) va = idx \<Longrightarrow> slot (Suc k) (ph_mem st') t va = slot k (ph_mem st') (table_ptr (entry (ph_mem st) t idx)) va"
    using gr(4) by (simp add: c_def del: slot.simps)
qed

lemma grown_trans:
  "grown k t st fs st1 gs fs1 \<Longrightarrow> grown k t st1 fs1 st2 gs' fs2 \<Longrightarrow> grown k t st fs st2 (gs @ gs') fs2"
  unfolding grown_def by (auto intro: only_frames_trans)

lemma grown_link:
  assumes T: "tree_ok (Suc k) (ph_mem st) t" and idx: "idx < 512" "\<not> pte_valid (entry (ph_mem st) t idx)"
    and fs: "pmm_inv st (x # xs)" "set (tabs (Suc k) (ph_mem st) t) \<inter> set (x # xs) = {}" "frame_ok x"
  shows "grown (Suc k) t st (x # xs) (link_table t idx x (snd (pmm_alloc st))) [x] xs"
    and "entry (ph_mem (link_table t idx x (snd (pmm_alloc st)))) t idx = table_desc x"
proof -
  define st1 where "st1 = snd (pmm_alloc st)"
  define m2 where "m2 = ph_mem (link_table t idx x st1)"
  have st1: "pmm_inv st1 xs" "ph_mem st1 = ph_mem st"
    using pmm_alloc_gives [OF fs(1)] by (simp_all add: st1_def)
  have t: "IS_ALIGNED t PAGE_SIZE" "t \<noteq> x" "t \<notin> set xs" "x \<notin> set xs"
    using T fs(1,2) tabs_self [of t "Suc k" "ph_mem st"] by (auto simp: tree_ok_def pmm_inv_def)
  note l = link_table_gives [OF t(1) fs(3) t(2) idx(1) st1(1) t(3,4), folded m2_def, unfolded st1(2)]
  have al: "\<forall>f\<in>{t, x}. IS_ALIGNED f PAGE_SIZE" using t(1) frame_ok_aligned [OF fs(3)] by simp
  have z: "tabs k m2 x = [x]" "tree_ok k m2 x" "look k m2 x va = None" for va
    using zero_tree [OF frame_ok_aligned [OF fs(3)] l(3)] by simp_all
  have kid: "set (kid_tabs (tabs k (ph_mem st)) (ph_mem st) t j) \<subseteq> set (tabs (Suc k) (ph_mem st) t) - {t}" if "j < 512" for j
    using that T unfolding set_tabs_Suc tree_ok_Suc by blast
  have dis: "\<forall>j<512. j \<noteq> idx \<longrightarrow> {t, x} \<inter> set (kid_tabs (tabs k (ph_mem st)) (ph_mem st) t j) = {}"
    using kid fs(2) by auto
  then have dis': "\<forall>j<512. j \<noteq> idx \<longrightarrow> set (tabs k m2 x) \<inter> set (kid_tabs (tabs k (ph_mem st)) (ph_mem st) t j) = {}"
    unfolding z by auto
  have en: "\<forall>j<512. j \<noteq> idx \<longrightarrow> entry m2 t j = entry (ph_mem st) t j" "sub_desc (entry m2 t idx)" "table_ptr (entry m2 t idx) = x"
    using l(2) idx(1) table_desc_bits [OF fs(3)] by (simp_all add: sub_desc_def)
  have nt: "t \<notin> set (tabs k m2 x)" using t(2) by (simp add: z)
  note gr = graft [OF T l(1) al en(1) dis idx(1) en(2,3) z(2) nt dis']
  have ns: "\<not> sub_desc (entry (ph_mem st) t idx)" using idx(2) by (simp add: sub_desc_def)
  then have "set (kid_tabs (tabs k (ph_mem st)) (ph_mem st) t idx) = {}" by (simp add: kid_tabs_def)
  then have tabs: "set (tabs (Suc k) m2 t) = set (tabs (Suc k) (ph_mem st) t) \<union> set [x]"
    unfolding gr(2) set_tabs_split [OF idx(1), of k "ph_mem st"] z by auto
  have "look (Suc k) m2 t va = look (Suc k) (ph_mem st) t va" for va
    unfolding gr(3) z using ns idx(2) by simp
  moreover have "only_frames (ph_mem st) m2 (set (tabs (Suc k) (ph_mem st) t) \<union> set [x])"
    by (rule only_frames_trans [OF l(1) only_frames_refl [of _ "{}"]]) simp_all
  ultimately show "grown (Suc k) t st (x # xs) (link_table t idx x (snd (pmm_alloc st))) [x] xs"
    unfolding grown_def using l(4) gr(1) tabs st1_def m2_def by simp
  show "entry (ph_mem (link_table t idx x (snd (pmm_alloc st)))) t idx = table_desc x"
    using l(2) [OF idx(1)] by (simp add: m2_def st1_def)
qed

lemma map_walk_gives:
  assumes "k \<le> 3" and "tree_ok k (ph_mem st) t" and "pmm_inv st fs" and "set (tabs k (ph_mem st) t) \<inter> set fs = {}"
    and "\<forall>f\<in>set fs. frame_ok f" and "map_walk (walk_levels k) t va st = (r, st')"
  shows "\<exists>gs fs'. grown k t st fs st' gs fs' \<and> walk_result k k t va st r st' fs"
  using assms
proof (induction k arbitrary: t st fs)
  case 0
  then show ?case using grown_refl by (fastforce simp: walk_levels_simps walk_result_def)
next
  case (Suc k)
  let ?idx = "pt_idx (2 - k) va"
  let ?d = "entry (ph_mem st) t ?idx"
  have k: "k < 3" using Suc.prems(1) by simp
  have sub: "\<exists>gs fs'. grown (Suc k) t s fs2 st' gs fs' \<and> walk_result (Suc k) k t va s r st' fs2"
    if p: "tree_ok (Suc k) (ph_mem s) t" "pmm_inv s fs2" "set (tabs (Suc k) (ph_mem s) t) \<inter> set fs2 = {}"
      "\<forall>f\<in>set fs2. frame_ok f" and d: "sub_desc (entry (ph_mem s) t ?idx)"
      and w: "map_walk (walk_levels k) (table_ptr (entry (ph_mem s) t ?idx)) va s = (r, st')" for s fs2
  proof -
    have "set (tabs k (ph_mem s) (table_ptr (entry (ph_mem s) t ?idx))) \<inter> set fs2 = {}"
      using p(3) tabs_sub [OF pt_idx_less d, of k] by blast
    from Suc.IH [OF _ tree_kid(1) [OF p(1) pt_idx_less d] p(2) this p(4) w]
    obtain gs fs' where g: "grown k (table_ptr (entry (ph_mem s) t ?idx)) s fs2 st' gs fs'"
      "walk_result k k (table_ptr (entry (ph_mem s) t ?idx)) va s r st' fs2"
      using k by auto
    note q = grown_parent [OF p(1) d pt_idx_less p(2,3) g(1)]
    have "walk_result (Suc k) k t va s r st' fs2"
      using g(2) q(2) [OF refl] d unfolding walk_result_def by (cases r) (simp_all del: slot.simps)
    with q(1) show ?thesis by blast
  qed
  consider (table) "sub_desc ?d" | (block) "\<not> sub_desc ?d" "pte_valid ?d" | (none) "\<not> pte_valid ?d" by blast
  then show ?case
  proof cases
    case table
    then have "\<exists>gs fs'. grown (Suc k) t st fs st' gs fs' \<and> walk_result (Suc k) k t va st r st' fs"
      using Suc.prems k by (intro sub) (simp_all add: walk_levels_simps sub_desc_def)
    then show ?thesis unfolding walk_result_def by (cases r) (simp_all del: look.simps slot.simps, blast intro: less_SucI)
  next
    case block
    with Suc.prems(6) k have "r = Inl (- 3)" "st' = st" by (auto simp: walk_levels_simps sub_desc_def)
    moreover have "look (Suc k) (ph_mem st) t va = Some (2 - k, ?d)" using block by simp
    ultimately show ?thesis using grown_refl [OF Suc.prems(2,3)] unfolding walk_result_def by fastforce
  next
    case none
    then have l: "look (Suc k) (ph_mem st) t va = None" by (simp add: sub_desc_def)
    show ?thesis
    proof (cases fs)
      case Nil
      then have "r = Inl (- 2)" "st' = st"
        using Suc.prems(6) k none pmm_alloc_gives(1) [OF Suc.prems(3)] by (auto simp: walk_levels_simps)
      then show ?thesis using grown_refl [OF Suc.prems(2,3)] l Nil unfolding walk_result_def by fastforce
    next
      case (Cons x xs)
      define s where "s = link_table t ?idx x (snd (pmm_alloc st))"
      have x: "frame_ok x" using Suc.prems(5) Cons by simp
      note link = grown_link [OF Suc.prems(2) pt_idx_less none Suc.prems(3) [unfolded Cons] Suc.prems(4) [unfolded Cons] x, folded s_def]
      have ok: "tree_ok (Suc k) (ph_mem s) t" "pmm_inv s xs" "set (tabs (Suc k) (ph_mem s) t) \<inter> set xs = {}"
        using link(1) Suc.prems(3,4) Cons unfolding grown_def by (auto simp: pmm_inv_def simp del: tabs.simps)
      have "pmm_alloc st = (x, snd (pmm_alloc st))" using pmm_alloc_gives(1) [OF Suc.prems(3)] Cons by simp
      then have "map_walk (walk_levels k) (table_ptr (entry (ph_mem s) t ?idx)) va s = (r, st')"
        using Suc.prems(6) k none x
        by (auto simp: walk_levels_simps s_def link_table_def frame_ok_def Let_def split: prod.splits)
      then obtain gs fs' where g: "grown (Suc k) t s xs st' gs fs'" "walk_result (Suc k) k t va s r st' xs"
        using sub [OF ok] Suc.prems(5) Cons link(2) table_desc_bits [OF x] by (auto simp: sub_desc_def simp del: tabs.simps)
      have "look (Suc k) (ph_mem s) t va = look (Suc k) (ph_mem st) t va" using link(1) unfolding grown_def by blast
      then have "walk_result (Suc k) (Suc k) t va st r st' (x # xs)" using g(2) unfolding walk_result_def by (cases r) (simp_all del: look.simps slot.simps)
      with grown_trans [OF link(1) g(1)] show ?thesis unfolding Cons by blast
    qed
  qed
qed

section \<open>Address spaces as maps\<close>

definition space_ok :: "phys \<Rightarrow> u64 \<Rightarrow> u64 list \<Rightarrow> bool" where
  "space_ok st root fs \<longleftrightarrow> pmm_inv st fs \<and> tree_ok 3 (ph_mem st) root \<and>
    set (tabs 3 (ph_mem st) root) \<inter> set fs = {} \<and> (\<forall>f\<in>set fs. frame_ok f)"

lemma probe_look:
  "vmm_probe m root va = map_option (\<lambda>(l, d). (leaf_pa l d va, vmm_decode_flags d)) (look 3 m root va)"
  using leaf_walk_slot [of 3 m root va]
  by (auto simp: vmm_probe_def walk_levels_simps split: prod.splits if_splits simp del: look.simps slot.simps)

lemma and_eq_iff: "(a :: 'a::len word) AND m = b AND m \<longleftrightarrow> (\<forall>n. bit m n \<longrightarrow> bit a n = bit b n)"
proof
  assume e: "a AND m = b AND m"
  then have "bit (a AND m) n = bit (b AND m) n" for n by simp
  then show "\<forall>n. bit m n \<longrightarrow> bit a n = bit b n" by (auto simp: bit_and_iff)
next
  assume "\<forall>n. bit m n \<longrightarrow> bit a n = bit b n"
  then show "a AND m = b AND m" by (intro bit_word_eqI) (auto simp: bit_and_iff)
qed

lemma pt_idx_eq_iff:
  "pt_idx l va' = pt_idx l va \<longleftrightarrow> (\<forall>n<9. bit va' (level_shift ! l + n) = bit va (level_shift ! l + n))"
proof -
  have m: "(511 :: u64) = mask 9" by (simp add: mask_eq_exp_minus_1)
  have "pt_idx l va' = pt_idx l va \<longleftrightarrow>
      drop_bit (level_shift ! l) va' AND mask 9 = drop_bit (level_shift ! l) va AND (mask 9 :: u64)"
    unfolding pt_idx_def m by (simp add: word_unat_eq_iff)
  also have "\<dots> \<longleftrightarrow> (\<forall>n<9. bit va' (level_shift ! l + n) = bit va (level_shift ! l + n))"
    unfolding and_eq_iff by (auto simp: bit_mask_iff bit_drop_bit_eq)
  finally show ?thesis .
qed

text \<open>Addresses with the same four indices are those of one page: they agree in bits 12 to 47.\<close>

lemma bit_page_mask: "bit (PT_ADDR_MASK :: u64) n \<longleftrightarrow> 12 \<le> n \<and> n < 48"
proof -
  have "PT_ADDR_MASK = push_bit 12 (mask 36 :: u64)" by (simp add: mask_eq_exp_minus_1)
  then have "bit (PT_ADDR_MASK :: u64) n = bit (push_bit 12 (mask 36 :: u64)) n" by (rule arg_cong)
  also have "\<dots> \<longleftrightarrow> 12 \<le> n \<and> n < 48" by (auto simp: bit_push_bit_iff bit_mask_iff)
  finally show ?thesis .
qed

lemma same_path_page: "same_path 0 3 va va' \<longleftrightarrow> va' AND PT_ADDR_MASK = va AND PT_ADDR_MASK"
proof -
  have "same_path 0 3 va va' \<longleftrightarrow> (\<forall>l\<in>{0, 1, 2, 3}. pt_idx l va' = pt_idx l va)"
    unfolding same_path_def by (rule iffI) (auto simp: le_Suc_eq numeral_eq_Suc)
  also have "\<dots> \<longleftrightarrow> (\<forall>s\<in>{12, 21, 30, 39}. \<forall>n<9. bit va' (s + n) = bit va (s + n))"
    by (auto simp: pt_idx_eq_iff level_shift_def)
  also have "\<dots> \<longleftrightarrow> (\<forall>n. 12 \<le> n \<and> n < 48 \<longrightarrow> bit va' n = bit va n)"
  proof (rule iffI, intro allI impI)
    fix n :: nat assume a: "\<forall>s\<in>{12, 21, 30, 39}. \<forall>n<9. bit va' (s + n) = bit va (s + n)" and n: "12 \<le> n \<and> n < 48"
    define s :: nat where "s = (if n < 21 then 12 else if n < 30 then 21 else if n < 39 then 30 else 39)"
    have "s \<in> {12, 21, 30, 39}" "s \<le> n" "n - s < 9" using n by (auto simp: s_def)
    with a have "bit va' (s + (n - s)) = bit va (s + (n - s))" by blast
    with \<open>s \<le> n\<close> show "bit va' n = bit va n" by simp
  qed auto
  also have "\<dots> \<longleftrightarrow> va' AND PT_ADDR_MASK = va AND PT_ADDR_MASK"
    unfolding and_eq_iff bit_page_mask by blast
  finally show ?thesis .
qed

lemma space_slot_store:
  assumes "space_ok st root fs" and "slot 3 (ph_mem st) root va = (l, t, i)" and "l = 3 \<or> \<not> sub_desc d"
  shows "space_ok (set_entry t i d st) root fs"
    and "look 3 (ph_mem (set_entry t i d st)) root va' =
      (if same_path 0 l va va' then if pte_valid d then Some (l, d) else None else look 3 (ph_mem st) root va')"
proof -
  have T: "tree_ok 3 (ph_mem st) root" using assms(1) by (simp add: space_ok_def)
  note b = slot_bounds [OF order_refl assms(2)]
  note s = slot_store [OF order_refl T assms(2,3) refl]
  have al: "IS_ALIGNED t PAGE_SIZE" using b tree_ok_aligned [OF T] by blast
  have only: "only_frames (ph_mem st) (ph_mem (set_entry t i d st)) {t}" using b store_only by simp
  have "pmm_inv (set_entry t i d st) fs"
    using assms(1) b al by (intro pmm_inv_only [OF _ only]) (auto simp: space_ok_def)
  then show "space_ok (set_entry t i d st) root fs"
    using assms(1) s by (simp add: space_ok_def tree_ok_def)
  show "look 3 (ph_mem (set_entry t i d st)) root va' =
      (if same_path 0 l va va' then if pte_valid d then Some (l, d) else None else look 3 (ph_mem st) root va')"
    using s [of va'] by simp
qed

text \<open>The outcomes of a mapping walk from the root.\<close>

lemma space_walk:
  assumes "space_ok st root fs" and "map_walk [0, 1, 2] root va st = (r, st1)"
  obtains fs1 where "space_ok st1 root fs1" "walk_result 3 3 root va st r st1 fs"
    "\<And>va'. look 3 (ph_mem st1) root va' = look 3 (ph_mem st) root va'"
proof -
  obtain gs fs1 where g: "grown 3 root st fs st1 gs fs1" and w: "walk_result 3 3 root va st r st1 fs"
    using map_walk_gives [of 3 st root fs va r st1] assms by (auto simp: space_ok_def walk_levels_simps)
  have "set gs \<inter> set fs1 = {}" using assms(1) g by (auto simp: space_ok_def grown_def pmm_inv_def)
  then have "space_ok st1 root fs1" using assms(1) g unfolding space_ok_def grown_def by auto
  with g w that show ?thesis unfolding grown_def by blast
qed

lemma map_at_look:
  assumes "space_ok st root fs" and "vmm_map_at root va pa fl st = (r, st')"
  obtains fs' where "space_ok st' root fs'"
    "(r = 0 \<and> IS_ALIGNED va PAGE_SIZE \<and> IS_ALIGNED pa PAGE_SIZE \<and> look 3 (ph_mem st) root va = None \<and>
      (\<forall>va'. look 3 (ph_mem st') root va' =
        (if same_path 0 3 va va' then Some (3, leaf_desc pa fl) else look 3 (ph_mem st) root va'))) \<or>
     (\<forall>va'. look 3 (ph_mem st') root va' = look 3 (ph_mem st) root va') \<and>
     (r = - 1 \<and> (\<not> IS_ALIGNED va PAGE_SIZE \<or> \<not> IS_ALIGNED pa PAGE_SIZE) \<or>
      r = - 2 \<and> length fs < 3 \<and> look 3 (ph_mem st) root va = None \<or>
      r \<in> {- 3, - 4} \<and> look 3 (ph_mem st) root va \<noteq> None)"
proof (cases "IS_ALIGNED va PAGE_SIZE \<and> IS_ALIGNED pa PAGE_SIZE")
  case False
  then show ?thesis using assms that [of fs] by (auto simp: vmm_map_at_def)
next
  case True
  obtain w st1 where w: "map_walk [0, 1, 2] root va st = (w, st1)" by fastforce
  obtain fs1 where s: "space_ok st1 root fs1" "walk_result 3 3 root va st w st1 fs"
    "\<And>va'. look 3 (ph_mem st1) root va' = look 3 (ph_mem st) root va'"
    using space_walk [OF assms(1) w] by blast
  show ?thesis
  proof (cases w)
    case (Inl e)
    then have "r = e" "st' = st1" using assms(2) True w by (auto simp: vmm_map_at_def)
    then show ?thesis using s Inl by (intro that [of fs1]) (auto simp: walk_result_def)
  next
    case (Inr t)
    then have sl: "slot 3 (ph_mem st1) root va = (3, t, pt_idx 3 va)" using s(2) by (simp add: walk_result_def)
    then have lk: "look 3 (ph_mem st) root va = (if pte_valid (entry (ph_mem st1) t (pt_idx 3 va)) then Some (3, entry (ph_mem st1) t (pt_idx 3 va)) else None)"
      using leaf_walk_slot(2) [of 3 "ph_mem st1" root va] s(3) by simp
    show ?thesis
    proof (cases "pte_valid (entry (ph_mem st1) t (pt_idx 3 va))")
      case valid: True
      then have "r = - 4" "st' = st1" using assms(2) True w Inr by (auto simp: vmm_map_at_def map_leaf_def)
      then show ?thesis using s lk valid by (intro that [of fs1]) auto
    next
      case False
      then have "r = 0" and st': "st' = set_entry t (pt_idx 3 va) (leaf_desc pa fl) st1"
        using assms(2) True w Inr by (auto simp: vmm_map_at_def map_leaf_def)
      moreover note u = space_slot_store [OF s(1) sl, of "leaf_desc pa fl", folded st']
      ultimately show ?thesis
        using True lk False s(3) leaf_desc_bits(1) [of pa fl] by (intro that [of fs1]) auto
    qed
  qed
qed

text \<open>What the users of an address space rely on: it is a map from addresses to a physical
  address with permissions, mapping a page is an update of that page or changes nothing, and
  a mapped page can be unmapped.\<close>

locale page_map =
  fixes inv :: "'s \<Rightarrow> bool"
    and lookup :: "'s \<Rightarrow> u64 \<Rightarrow> (u64 \<times> u32) option"
    and map_page :: "u64 \<Rightarrow> u64 \<Rightarrow> u32 \<Rightarrow> 's \<Rightarrow> int \<times> 's"
    and unmap_page :: "u64 \<Rightarrow> 's \<Rightarrow> int \<times> 's"
    and same_page :: "u64 \<Rightarrow> u64 \<Rightarrow> bool"
    and is_page :: "'s \<Rightarrow> u64 \<Rightarrow> bool"
    and target :: "u64 \<Rightarrow> u32 \<Rightarrow> u64 \<Rightarrow> u64 \<times> u32"
  assumes map_inv: "inv s \<Longrightarrow> map_page va pa fl s = (r, s') \<Longrightarrow> inv s'"
    and map_ok: "inv s \<Longrightarrow> map_page va pa fl s = (0, s') \<Longrightarrow> is_page s' va \<and>
      lookup s' x = (if same_page va x then Some (target pa fl x) else lookup s x)"
    and map_new: "inv s \<Longrightarrow> map_page va pa fl s = (0, s') \<Longrightarrow> same_page va x \<Longrightarrow> lookup s x = None"
    and map_fail: "inv s \<Longrightarrow> map_page va pa fl s = (r, s') \<Longrightarrow> r \<noteq> 0 \<Longrightarrow> lookup s' x = lookup s x"
    and unmap_ok: "inv s \<Longrightarrow> is_page s va \<Longrightarrow> \<exists>s'. unmap_page va s = (0, s') \<and> inv s' \<and>
      (\<forall>x. lookup s' x = (if same_page va x then None else lookup s x))"
    and same_refl: "same_page va va"
begin

lemma map_unmap:
  assumes "inv s" and "map_page va pa fl s = (0, s1)"
  shows "\<exists>s2. unmap_page va s1 = (0, s2) \<and> inv s2 \<and> (\<forall>x. lookup s2 x = lookup s x)"
proof -
  obtain s2 where "unmap_page va s1 = (0, s2)" "inv s2"
    "\<And>x. lookup s2 x = (if same_page va x then None else lookup s1 x)"
    using unmap_ok [OF map_inv [OF assms], of va] map_ok [OF assms] by auto
  then show ?thesis using map_ok [OF assms] map_new [OF assms] by auto
qed

lemma map_twice:
  assumes "inv s" and "map_page va pa fl s = (0, s1)" and "map_page va' pa' fl' s1 = (r, s2)" and "same_page va va'"
  shows "r \<noteq> 0"
  using map_new [OF map_inv [OF assms(1,2)], of va' pa' fl' s2 va'] map_ok [OF assms(1,2)] assms(3,4) same_refl by auto

end

lemma look_same_page:
  assumes "look 3 m root va = None" and "same_path 0 3 va x"
  shows "look 3 m root x = None"
proof -
  have "pt_idx l x = pt_idx l va" if "l \<le> 3" for l using assms(2) that by (simp add: same_path_def)
  then show ?thesis using assms(1) by (simp add: numeral_3_eq_3 Let_def split: if_splits)
qed

lemma unmap_look:
  assumes "space_ok st root fs" and "look 3 (ph_mem st) root va = Some (l, d)"
  obtains st' where "vmm_unmap_at root va st = (0, st')" "space_ok st' root fs"
    "\<And>x. look 3 (ph_mem st') root x = (if same_path 0 l va x then None else look 3 (ph_mem st) root x)"
proof -
  obtain t i where s: "slot 3 (ph_mem st) root va = (l, t, i)"
    using leaf_walk_slot(2) [OF order_refl, of "ph_mem st" root va] assms(2)
    by (auto split: prod.splits if_splits simp del: look.simps slot.simps)
  have "leaf_walk [0, 1, 2] (ph_mem st) root va = Some (l, t, i)"
    using leaf_walk_slot(1) [of 3 "ph_mem st" root va] s assms(2)
    by (simp add: walk_levels_simps del: look.simps slot.simps)
  then have "vmm_unmap_at root va st = (0, set_entry t i 0 st)" by (simp add: vmm_unmap_at_def)
  moreover have "l = 3 \<or> \<not> sub_desc 0" by (simp add: sub_desc_def pte_valid_def)
  note u = space_slot_store [OF assms(1) s this]
  have "\<not> pte_valid 0" by (simp add: pte_valid_def)
  ultimately show ?thesis using u that by simp
qed

interpretation user_space: page_map "\<lambda>st. \<exists>fs. space_ok st root fs" "\<lambda>st. vmm_probe (ph_mem st) root"
  "vmm_map_at root" "vmm_unmap_at root" "same_path 0 3" "\<lambda>st va. \<exists>d. look 3 (ph_mem st) root va = Some (3, d)"
  "\<lambda>pa fl va. (leaf_pa 3 (leaf_desc pa fl) va, vmm_decode_flags (leaf_desc pa fl))"
  for root
proof
  fix st va pa fl r st' x
  assume s: "\<exists>fs. space_ok st root fs"
  then obtain fs where fs: "space_ok st root fs" ..
  show "\<exists>fs. space_ok st' root fs" if "vmm_map_at root va pa fl st = (r, st')"
    by (rule map_at_look [OF fs that]) blast
  show "(\<exists>d. look 3 (ph_mem st') root va = Some (3, d)) \<and> vmm_probe (ph_mem st') root x =
      (if same_path 0 3 va x then Some (leaf_pa 3 (leaf_desc pa fl) x, vmm_decode_flags (leaf_desc pa fl))
       else vmm_probe (ph_mem st) root x)" if "vmm_map_at root va pa fl st = (0, st')"
    by (rule map_at_look [OF fs that]) (auto simp: probe_look same_path_def simp del: look.simps)
  show "vmm_probe (ph_mem st) root x = None" if "vmm_map_at root va pa fl st = (0, st')" "same_path 0 3 va x"
    by (rule map_at_look [OF fs that(1)]) (use look_same_page that(2) in \<open>auto simp: probe_look simp del: look.simps\<close>)
  show "vmm_probe (ph_mem st') root x = vmm_probe (ph_mem st) root x" if "vmm_map_at root va pa fl st = (r, st')" "r \<noteq> 0"
    by (rule map_at_look [OF fs that(1)]) (use that(2) in \<open>auto simp: probe_look simp del: look.simps\<close>)
  show "\<exists>s'. vmm_unmap_at root va st = (0, s') \<and> (\<exists>fs. space_ok s' root fs) \<and>
      (\<forall>x. vmm_probe (ph_mem s') root x = (if same_path 0 3 va x then None else vmm_probe (ph_mem st) root x))"
    if m: "\<exists>d. look 3 (ph_mem st) root va = Some (3, d)"
  proof -
    obtain d where "look 3 (ph_mem st) root va = Some (3, d)" using m ..
    then show ?thesis
      by (rule unmap_look [OF fs]) (auto simp: probe_look simp del: look.simps)
  qed
qed (simp add: same_path_def)

section \<open>Properties of mapping\<close>

text \<open>C9: In a well-formed address space \<open>vmm_map_at\<close> is an update of the map from addresses to
  physical pages and permissions: on success the page was unmapped, every address in it now
  leads to the given frame with the permissions that the flags encode, and every other address
  leads where it did; on an error no address changes, and the code says why (a misaligned
  argument, fewer than three free frames, or an address that is already covered). The
  address space stays a tree of distinct frames that are not free.\<close>

theorem vmm_map_at_updates:
  assumes "space_ok st root fs" and "vmm_map_at root va pa fl st = (r, st')" and "pa AND PT_ADDR_MASK = pa"
  shows "(\<exists>fs'. space_ok st' root fs') \<and>
    (if r = 0
     then IS_ALIGNED va PAGE_SIZE \<and> vmm_probe (ph_mem st) root va = None \<and>
       (\<forall>x. vmm_probe (ph_mem st') root x =
         (if x AND PT_ADDR_MASK = va AND PT_ADDR_MASK
          then Some (pa OR (x AND 0xfff),
            VM_READ OR (fl AND VM_WRITE) OR (fl AND VM_USER) OR
            (if fl AND VM_EXEC \<noteq> 0 \<and> fl AND VM_USER \<noteq> 0 then VM_EXEC else 0) OR (fl AND VM_DEVICE))
          else vmm_probe (ph_mem st) root x))
     else (\<forall>x. vmm_probe (ph_mem st') root x = vmm_probe (ph_mem st) root x) \<and>
       (r = - 1 \<and> \<not> (IS_ALIGNED va PAGE_SIZE \<and> IS_ALIGNED pa PAGE_SIZE) \<or>
        r = - 2 \<and> length fs < 3 \<and> vmm_probe (ph_mem st) root va = None \<or>
        r \<in> {- 3, - 4} \<and> vmm_probe (ph_mem st) root va \<noteq> None))"
proof -
  have p: "leaf_pa 3 (leaf_desc pa fl) x = pa OR (x AND 0xfff)" for x
    using leaf_desc_pa [of pa fl] assms(3) by (simp add: leaf_pa_def level_shift_def)
  show ?thesis
    by (rule map_at_look [OF assms(1,2)])
      (auto simp: probe_look same_path_page p decode_leaf [OF assms(3)] simp del: look.simps)
qed

text \<open>An address space with nothing mapped.\<close>

lemma empty_space:
  assumes "pmm_inv st fs" and "frame_ok root" and "root \<notin> set fs" and "\<forall>f\<in>set fs. frame_ok f"
  shows "space_ok (zero_table root st) root fs" and "vmm_probe (ph_mem (zero_table root st)) root va = None"
proof -
  have al: "IS_ALIGNED root PAGE_SIZE" by (rule frame_ok_aligned [OF assms(2)])
  note z = zero_table_gives [OF al, where st = st]
  have "pmm_inv (zero_table root st) fs"
    using assms al z by (intro pmm_inv_only [OF assms(1) z(1)]) auto
  then show "space_ok (zero_table root st) root fs"
    using zero_tree [OF al z(2)] assms by (simp add: space_ok_def)
  show "vmm_probe (ph_mem (zero_table root st)) root va = None"
    using zero_tree(3) [OF al z(2)] by (simp add: probe_look del: look.simps)
qed

definition demo_space :: phys where
  "demo_space = zero_table 0x9000 three_frames"

lemma demo_space_ok: "space_ok demo_space 0x9000 [0x3000, 0x2000, 0x7000]"
  unfolding demo_space_def by (rule empty_space(1) [OF three_frames_inv]) (auto simp: frame_ok_def)

lemma demo_space_empty: "vmm_probe (ph_mem demo_space) 0x9000 va = None"
  unfolding demo_space_def by (rule empty_space(2) [OF three_frames_inv]) (auto simp: frame_ok_def)

lemma demo_maps: "fst (vmm_map_at 0x9000 0x8000001000 0xb000 (VM_WRITE OR VM_USER) demo_space) = 0"
proof -
  obtain r st' where m: "vmm_map_at 0x9000 0x8000001000 0xb000 (VM_WRITE OR VM_USER) demo_space = (r, st')" by fastforce
  then have "r = 0"
    by (rule map_at_look [OF demo_space_ok])
      (use demo_space_empty in \<open>auto simp: IS_ALIGNED_def probe_look simp del: look.simps\<close>)
  with m show ?thesis by simp
qed

theorem vmm_map_at_updates_witness:
  "\<exists>st'. vmm_map_at 0x9000 0x8000001000 0xb000 (VM_WRITE OR VM_USER) demo_space = (0, st') \<and>
     vmm_probe (ph_mem st') 0x9000 0x8000001234 = Some (0xb234, VM_READ OR VM_WRITE OR VM_USER) \<and>
     vmm_probe (ph_mem st') 0x9000 0x8000002234 = None"
proof -
  obtain r st' where m: "vmm_map_at 0x9000 0x8000001000 0xb000 (VM_WRITE OR VM_USER) demo_space = (r, st')" by fastforce
  then have "r = 0" using demo_maps by simp
  with m vmm_map_at_updates [OF demo_space_ok m] show ?thesis by (simp add: demo_space_empty)
qed

text \<open>C10: Mapping a page and unmapping it again succeeds and leaves every address leading where it
  led before the mapping, with the address space still well formed (the tables that the
  mapping added stay).\<close>

theorem vmm_map_unmap_restores:
  assumes "space_ok st root fs" and "vmm_map_at root va pa fl st = (0, st1)"
  shows "\<exists>st2. vmm_unmap_at root va st1 = (0, st2) \<and> (\<exists>fs2. space_ok st2 root fs2) \<and>
    (\<forall>x. vmm_probe (ph_mem st2) root x = vmm_probe (ph_mem st) root x)"
  by (rule user_space.map_unmap [OF exI [of _ fs] assms(2)]) (rule assms(1))

theorem vmm_map_unmap_restores_witness:
  "\<exists>st1 st2. vmm_map_at 0x9000 0x8000001000 0xb000 (VM_WRITE OR VM_USER) demo_space = (0, st1) \<and>
     vmm_unmap_at 0x9000 0x8000001000 st1 = (0, st2) \<and> vmm_probe (ph_mem st2) 0x9000 0x8000001000 = None"
proof -
  obtain r st1 where m: "vmm_map_at 0x9000 0x8000001000 0xb000 (VM_WRITE OR VM_USER) demo_space = (r, st1)" by fastforce
  then have "r = 0" using demo_maps by simp
  with m vmm_map_unmap_restores [OF demo_space_ok, of "0x8000001000" "0xb000" "VM_WRITE OR VM_USER" st1]
  show ?thesis by (auto simp: demo_space_empty)
qed

end
