(* ===== verification/Vmm_Release.thy ===== *)
theory Vmm_Release
  imports Vmm_Map
begin

text \<open>
  The frames that an address space owns (its tables and its pages), and \<open>free_subtree\<close> and
  \<open>vmm_root_release\<close> giving them back to the free list.
\<close>

section \<open>Owned frames\<close>

text \<open>The frames below one entry: none, a subtree (\<open>T\<close> gives the frames of a table, at the last
  level there are none), or a page.\<close>

definition kid_frs :: "(u64 \<Rightarrow> u64 list) option \<Rightarrow> mem \<Rightarrow> u64 \<Rightarrow> nat \<Rightarrow> u64 list" where
  "kid_frs T m t i =
    (let d = entry m t i
     in if \<not> pte_valid d then []
        else case T of
          Some f \<Rightarrow> if pte_table d then f (table_ptr d) else [d AND PT_ADDR_MASK]
        | None \<Rightarrow> [d AND PT_ADDR_MASK])"

fun frs :: "nat \<Rightarrow> mem \<Rightarrow> u64 \<Rightarrow> u64 list" where
  "frs 0 m t = t # concat (map (kid_frs None m t) pt_indices)"
| "frs (Suc k) m t = t # concat (map (kid_frs (Some (frs k m)) m t) pt_indices)"

definition subs :: "nat \<Rightarrow> mem \<Rightarrow> (u64 \<Rightarrow> u64 list) option" where
  "subs k m = (case k of 0 \<Rightarrow> None | Suc k' \<Rightarrow> Some (frs k' m))"

definition kids :: "nat \<Rightarrow> mem \<Rightarrow> u64 \<Rightarrow> nat \<Rightarrow> u64 list" where
  "kids k m t i = kid_frs (subs k m) m t i"

lemma kids_simps:
  "\<not> pte_valid (entry m t i) \<Longrightarrow> kids k m t i = []"
  "pte_valid (entry m t i) \<Longrightarrow> k = 0 \<or> \<not> pte_table (entry m t i) \<Longrightarrow> kids k m t i = [entry m t i AND PT_ADDR_MASK]"
  "sub_desc (entry m t i) \<Longrightarrow> kids (Suc k) m t i = frs k m (table_ptr (entry m t i))"
  by (auto simp: kids_def kid_frs_def subs_def sub_desc_def split: nat.splits)

lemma frs_kids: "frs k m t = t # concat (map (kids k m t) pt_indices)"
proof -
  have "kids k m t = kid_frs (subs k m) m t" by (rule ext) (simp add: kids_def)
  then show ?thesis by (cases k) (simp_all add: subs_def)
qed

declare frs.simps [simp del]

lemma kids_nonempty: "pte_valid (entry m t i) \<Longrightarrow> kids k m t i \<noteq> []"
  by (cases "k = 0 \<or> \<not> pte_table (entry m t i)"; cases k) (auto simp: kids_simps(2) kids_simps(3) sub_desc_def frs_kids)

lemma set_frs: "set (frs k m t) = insert t (\<Union>i<512. set (kids k m t i))"
  by (simp add: frs_kids)

lemma kids_aligned: "f \<in> set (kids k m t i) \<Longrightarrow> IS_ALIGNED f PAGE_SIZE"
proof (induction k arbitrary: t i)
  case 0
  then show ?case using mask_aligned by (cases "pte_valid (entry m t i)") (auto simp: kids_simps)
next
  case (Suc k)
  then show ?case
    using mask_aligned [of "entry m t i"]
    by (cases "pte_valid (entry m t i)"; cases "pte_table (entry m t i)")
      (auto simp: kids_simps sub_desc_def set_frs table_ptr_def)
qed

lemma kids_in_frs: "j < 512 \<Longrightarrow> set (kids k m t j) \<subseteq> set (frs k m t)"
  by (auto simp: set_frs)

lemma same_frames_mono: "same_frames m m' G \<Longrightarrow> F \<subseteq> G \<Longrightarrow> same_frames m m' F"
  by (auto simp: same_frames_def)

text \<open>Memory that agrees on the frames below an entry, and has the same entry.\<close>

lemma kids_cong:
  assumes "entry m' t i = entry m t i" and "same_frames m m' (set (kids k m t i))"
  shows "kids k m' t i = kids k m t i"
  using assms
proof (induction k arbitrary: t i)
  case 0
  then show ?case by (cases "pte_valid (entry m t i)") (simp_all add: kids_simps)
next
  case (Suc k)
  show ?case
  proof (cases "sub_desc (entry m t i)")
    case True
    define c where "c = table_ptr (entry m t i)"
    have k: "kids (Suc k) m t i = frs k m c" using True by (simp add: kids_simps c_def)
    have "entry m' c j = entry m c j" if "j < 512" for j
      using Suc.prems(2) that by (intro entry_same) (auto simp: k set_frs same_frames_def)
    moreover have "same_frames m m' (set (kids k m c j))" if "j < 512" for j
      using Suc.prems(2) that by (auto simp: k set_frs same_frames_def)
    ultimately have "kids k m' c j = kids k m c j" if "j < 512" for j using Suc.IH that by blast
    then have "frs k m' c = frs k m c" unfolding frs_kids by (simp, intro concat_indices_cong)
    then show ?thesis using True Suc.prems(1) k by (simp add: kids_simps c_def)
  next
    case False
    then show ?thesis
      using Suc.prems(1) by (cases "pte_valid (entry m t i)") (auto simp: kids_simps sub_desc_def)
  qed
qed

lemma frs_cong:
  assumes "same_frames m m' (set (frs k m t))"
  shows "frs k m' t = frs k m t"
proof -
  have "same_frames m m' {t}" by (rule same_frames_mono [OF assms]) (simp add: set_frs)
  then have "kids k m' t j = kids k m t j" if "j < 512" for j
    using that by (intro kids_cong entry_same same_frames_mono [OF assms kids_in_frs])
  then show ?thesis unfolding frs_kids by (simp, intro concat_indices_cong)
qed

lemma tabs_frs: "set (tabs k m t) \<subseteq> set (frs k m t)"
proof (induction k arbitrary: t)
  case (Suc k)
  show ?case
  proof
    fix f assume "f \<in> set (tabs (Suc k) m t)"
    then consider "f = t" | i where "i < 512" "f \<in> set (kid_tabs (tabs k m) m t i)" unfolding set_tabs_Suc by auto
    then show "f \<in> set (frs (Suc k) m t)"
    proof cases
      case 2
      then have s: "sub_desc (entry m t i)" "f \<in> set (tabs k m (table_ptr (entry m t i)))"
        by (auto simp: kid_tabs_def split: if_splits)
      then have "f \<in> set (kids (Suc k) m t i)" using Suc.IH by (auto simp: kids_simps)
      with 2(1) show ?thesis by (auto simp: set_frs)
    qed (simp add: set_frs)
  qed
qed (simp add: set_frs)

text \<open>Looking up below one entry depends only on it and on the frames below it.\<close>

lemma look_kid_cong:
  assumes "k \<le> 3" and e: "entry m' t (pt_idx (3 - k) va) = entry m t (pt_idx (3 - k) va)"
    and s: "same_frames m m' (set (kids k m t (pt_idx (3 - k) va)))"
  shows "look k m' t va = look k m t va"
proof (cases k)
  case (Suc k')
  show ?thesis
  proof (cases "sub_desc (entry m t (pt_idx (3 - k) va))")
    case True
    then have "same_frames m m' (set (tabs k' m (table_ptr (entry m t (pt_idx (3 - k) va)))))"
      using s tabs_frs by (force simp: Suc kids_simps same_frames_def)
    then show ?thesis using tabs_cong(2) e True by (simp add: Suc)
  qed (use e in \<open>simp add: Suc\<close>)
qed (use e in simp)

lemma look_page_owned:
  assumes "look k m t va = Some (3, d)" and "k \<le> 3"
  shows "d AND PT_ADDR_MASK \<in> set (kids k m t (pt_idx (3 - k) va))"
  using assms
proof (induction k arbitrary: t)
  case 0
  then show ?case by (auto simp: kids_simps split: if_splits)
next
  case (Suc k)
  then have "sub_desc (entry m t (pt_idx (2 - k) va))" "look k m (table_ptr (entry m t (pt_idx (2 - k) va))) va = Some (3, d)"
    by (auto simp: Let_def split: if_splits)
  with Suc show ?case by (auto simp: kids_simps set_frs intro!: bexI [of _ "pt_idx (3 - k) va"])
qed

section \<open>Release\<close>

text \<open>The frames of a list of entries go back to the free list, each once.\<close>

lemma only_frames_mono: "only_frames m m' F \<Longrightarrow> F \<subseteq> G \<Longrightarrow> only_frames m m' G"
  by (auto simp: only_frames_def)

lemma pmm_free_only:
  assumes "IS_ALIGNED f PAGE_SIZE"
  shows "only_frames (ph_mem st) (ph_mem (pmm_free f st)) {f}"
  unfolding only_frames_def pmm_free_def using span_mono [of 8 4096 f] by (auto intro!: store_other)

definition given_back :: "phys \<Rightarrow> u64 list \<Rightarrow> u64 list \<Rightarrow> phys \<Rightarrow> bool" where
  "given_back st fs gs st' \<longleftrightarrow>
    (\<exists>hs. set hs = set gs \<and> length hs = length gs \<and> pmm_inv st' (hs @ fs)) \<and>
    only_frames (ph_mem st) (ph_mem st') (set gs)"

lemma given_back_refl: "pmm_inv st fs \<Longrightarrow> given_back st fs [] st"
  by (simp add: given_back_def only_frames_refl)

text \<open>One entry after another: what is left of the entries is not touched by the release of the first.\<close>

lemma kids_after:
  assumes "only_frames m m' (set gs)" and "IS_ALIGNED t PAGE_SIZE" and "\<forall>f\<in>set gs. IS_ALIGNED f PAGE_SIZE"
    and "t \<notin> set gs" and "j < 512" and "set gs \<inter> set (kids k m t j) = {}"
  shows "entry m' t j = entry m t j" and "kids k m' t j = kids k m t j"
proof -
  have "same_frames m m' {t}" using assms by (intro only_same [OF assms(1)]) auto
  then show e: "entry m' t j = entry m t j" using assms(5) by (rule entry_same)
  have "same_frames m m' (set (kids k m t j))"
    using assms(3,6) kids_aligned by (intro only_same [OF assms(1)]) auto
  with e show "kids k m' t j = kids k m t j" by (rule kids_cong)
qed

definition releasable :: "nat \<Rightarrow> nat list \<Rightarrow> u64 \<Rightarrow> phys \<Rightarrow> u64 list \<Rightarrow> bool" where
  "releasable k is t st fs \<longleftrightarrow> pmm_inv st fs \<and> IS_ALIGNED t PAGE_SIZE \<and> set is \<subseteq> {..<512} \<and>
    distinct (concat (map (kids k (ph_mem st) t) is) @ fs) \<and>
    (\<forall>i\<in>set is. t \<notin> set (kids k (ph_mem st) t i) \<and> 0 \<notin> set (kids k (ph_mem st) t i))"

lemma releasable_step:
  assumes r: "releasable k (i # is) t st fs" and g: "given_back st fs (kids k (ph_mem st) t i) st1"
  obtains hs where "set hs = set (kids k (ph_mem st) t i)" "length hs = length (kids k (ph_mem st) t i)"
    "releasable k is t st1 (hs @ fs)"
    "map (kids k (ph_mem st1) t) is = map (kids k (ph_mem st) t) is"
proof -
  let ?gs = "kids k (ph_mem st) t i"
  obtain hs where h: "set hs = set ?gs" "length hs = length ?gs" "pmm_inv st1 (hs @ fs)"
    and only: "only_frames (ph_mem st) (ph_mem st1) (set ?gs)"
    using g unfolding given_back_def by blast
  have "kids k (ph_mem st1) t j = kids k (ph_mem st) t j" if "j \<in> set is" for j
    using r that kids_aligned by (intro kids_after(2) [OF only]) (auto simp: releasable_def)
  then have m: "map (kids k (ph_mem st1) t) is = map (kids k (ph_mem st) t) is" by simp
  have "distinct (concat (map (kids k (ph_mem st1) t) is) @ hs @ fs)"
    using r h unfolding m releasable_def by (auto simp: pmm_inv_def)
  moreover have "\<forall>j\<in>set is. t \<notin> set (kids k (ph_mem st1) t j) \<and> 0 \<notin> set (kids k (ph_mem st1) t j)"
    using r m by (auto simp: releasable_def)
  ultimately have "releasable k is t st1 (hs @ fs)"
    using r h(3) unfolding releasable_def by auto
  with h m that show ?thesis by blast
qed

lemma given_back_trans:
  assumes "given_back st fs gs st1" and "set hs = set gs" and "length hs = length gs" and "given_back st1 (hs @ fs) gs' st2"
  shows "given_back st fs (gs @ gs') st2"
proof -
  obtain hs' where h: "set hs' = set gs'" "length hs' = length gs'" "pmm_inv st2 (hs' @ hs @ fs)"
    using assms(4) unfolding given_back_def by blast
  have "only_frames (ph_mem st) (ph_mem st2) (set (gs @ gs'))"
    using assms(1,4) unfolding given_back_def by (auto intro: only_frames_trans)
  moreover have "\<exists>hs. set hs = set (gs @ gs') \<and> length hs = length (gs @ gs') \<and> pmm_inv st2 (hs @ fs)"
    using h assms(2,3) by (intro exI [of _ "hs' @ hs"]) auto
  ultimately show ?thesis unfolding given_back_def by blast
qed

lemma given_back_free:
  assumes "given_back st fs gs st1" and "f \<noteq> 0" and "IS_ALIGNED f PAGE_SIZE" and "f \<notin> set fs" and "f \<notin> set gs"
  shows "given_back st fs (f # gs) (pmm_free f st1)"
proof -
  obtain hs where h: "set hs = set gs" "length hs = length gs" "pmm_inv st1 (hs @ fs)"
    using assms(1) unfolding given_back_def by blast
  have "pmm_inv (pmm_free f st1) (f # hs @ fs)"
    using assms h by (intro pmm_free_gives [OF h(3)]) auto
  then have "\<exists>hs. set hs = set (f # gs) \<and> length hs = length (f # gs) \<and> pmm_inv (pmm_free f st1) (hs @ fs)"
    using h by (intro exI [of _ "f # hs"]) simp
  moreover have "only_frames (ph_mem st) (ph_mem (pmm_free f st1)) (set (f # gs))"
  proof (rule only_frames_trans)
    show "only_frames (ph_mem st) (ph_mem st1) (set gs)" using assms(1) by (simp add: given_back_def)
    show "only_frames (ph_mem st1) (ph_mem (pmm_free f st1)) {f}" by (rule pmm_free_only [OF assms(3)])
  qed auto
  ultimately show ?thesis unfolding given_back_def by blast
qed

lemma given_back_kids:
  assumes "releasable k (i # is) t st fs" and "pte_valid (entry (ph_mem st) t i)"
    and "sub_desc (entry (ph_mem st) t i) \<Longrightarrow> k \<noteq> 0 \<Longrightarrow>
      given_back st fs (frs (k - 1) (ph_mem st) (table_ptr (entry (ph_mem st) t i))) st1"
    and "k = 0 \<or> \<not> sub_desc (entry (ph_mem st) t i) \<Longrightarrow> st1 = pmm_free (entry (ph_mem st) t i AND PT_ADDR_MASK) st"
  shows "given_back st fs (kids k (ph_mem st) t i) st1"
proof (cases "k \<noteq> 0 \<and> sub_desc (entry (ph_mem st) t i)")
  case True
  then show ?thesis using assms(3) by (cases k) (simp_all add: kids_simps)
next
  case False
  then have "kids k (ph_mem st) t i = [entry (ph_mem st) t i AND PT_ADDR_MASK]"
    using assms(2) by (intro kids_simps(2)) (auto simp: sub_desc_def)
  moreover from this have "given_back st fs [entry (ph_mem st) t i AND PT_ADDR_MASK] (pmm_free (entry (ph_mem st) t i AND PT_ADDR_MASK) st)"
    using assms(1) mask_aligned by (intro given_back_free [OF given_back_refl]) (auto simp: releasable_def)
  ultimately show ?thesis using assms(4) False by auto
qed

lemma releasable_sub:
  assumes "releasable (Suc k) (i # is) t st fs" and "sub_desc (entry (ph_mem st) t i)"
  shows "releasable k pt_indices (table_ptr (entry (ph_mem st) t i)) st fs"
    and "table_ptr (entry (ph_mem st) t i) \<noteq> 0"
    and "table_ptr (entry (ph_mem st) t i) \<notin> set fs \<union> set (concat (map (kids k (ph_mem st) (table_ptr (entry (ph_mem st) t i))) pt_indices))"
  using assms mask_aligned [of "entry (ph_mem st) t i"]
  by (auto simp: releasable_def kids_simps(3) frs_kids table_ptr_def)

lemma free_loop:
  assumes k: "k \<le> 3"
    and sub: "\<And>c st fs. k \<noteq> 0 \<Longrightarrow> releasable (k - 1) pt_indices c st fs \<Longrightarrow>
      given_back st fs (concat (map (kids (k - 1) (ph_mem st) c) pt_indices)) (free_entries (Suc (3 - k)) pt_indices c st)"
    and "releasable k is t st fs"
  shows "given_back st fs (concat (map (kids k (ph_mem st) t) is)) (free_entries (3 - k) is t st)"
  using assms(3)
proof (induction "is" arbitrary: st fs)
  case Nil
  then show ?case by (auto simp: releasable_def intro: given_back_refl)
next
  case (Cons i js)
  let ?d = "entry (ph_mem st) t i"
  obtain st1 where st1: "given_back st fs (kids k (ph_mem st) t i) st1"
    "free_entries (3 - k) (i # js) t st = free_entries (3 - k) js t st1"
  proof (cases "pte_valid ?d")
    case False
    then show ?thesis
      using that [of st] Cons.prems given_back_refl [of st fs] by (simp add: kids_simps(1) releasable_def)
  next
    case valid: True
    define st1 where "st1 = (if k \<noteq> 0 \<and> sub_desc ?d
      then pmm_free (table_ptr ?d) (free_entries (Suc (3 - k)) pt_indices (table_ptr ?d) st)
      else pmm_free (?d AND PT_ADDR_MASK) st)"
    have "given_back st fs (frs (k - 1) (ph_mem st) (table_ptr ?d)) st1" if d: "sub_desc ?d" "k \<noteq> 0"
    proof -
      obtain k' where k': "k = Suc k'" using d(2) by (cases k) auto
      note r = releasable_sub [OF Cons.prems [unfolded k'] d(1)]
      show ?thesis
        using given_back_free [OF sub [of "table_ptr ?d" st fs]] r d mask_aligned [of ?d]
        by (simp add: k' st1_def frs_kids table_ptr_def)
    qed
    then have "given_back st fs (kids k (ph_mem st) t i) st1"
      by (intro given_back_kids [OF Cons.prems valid]) (auto simp: st1_def)
    moreover have "free_entries (3 - k) (i # js) t st = free_entries (3 - k) js t st1"
      using valid k by (auto simp: st1_def sub_desc_def Let_def)
    ultimately show ?thesis by (rule that)
  qed
  obtain hs where hs: "set hs = set (kids k (ph_mem st) t i)" "length hs = length (kids k (ph_mem st) t i)"
    "releasable k js t st1 (hs @ fs)" "map (kids k (ph_mem st1) t) js = map (kids k (ph_mem st) t) js"
    by (rule releasable_step [OF Cons.prems st1(1)])
  show ?case
    using given_back_trans [OF st1(1) hs(1,2) Cons.IH [OF hs(3)]] hs(4) st1(2) by (simp del: free_entries.simps)
qed

lemma free_entries_gives:
  assumes "k \<le> 3" and "releasable k is t st fs"
  shows "given_back st fs (concat (map (kids k (ph_mem st) t) is)) (free_entries (3 - k) is t st)"
  using assms
proof (induction k arbitrary: "is" t st fs)
  case 0
  then show ?case by (intro free_loop) auto
next
  case (Suc k)
  have "Suc (3 - Suc k) = 3 - k" using Suc.prems(1) by simp
  then show ?case using Suc by (intro free_loop) auto
qed

lemma pmm_inv_set_entry:
  assumes "pmm_inv st fs" and "IS_ALIGNED t PAGE_SIZE" and "t \<notin> set fs" and "i < 512"
  shows "pmm_inv (set_entry t i d st) fs"
  using assms store_only [OF assms(4), of "ph_mem st" t d] by (intro pmm_inv_only [OF assms(1), of _ "{t}"]) auto

definition released :: "nat list \<Rightarrow> u64 \<Rightarrow> phys \<Rightarrow> u64 list \<Rightarrow> u64 list \<Rightarrow> phys \<Rightarrow> bool" where
  "released is root st fs gs st' \<longleftrightarrow>
    (\<exists>hs. set hs = set gs \<and> length hs = length gs \<and> pmm_inv st' (hs @ fs)) \<and>
    only_frames (ph_mem st) (ph_mem st') (insert root (set gs)) \<and>
    (\<forall>j<512. if j \<in> set is then \<not> pte_valid (entry (ph_mem st') root j)
      else entry (ph_mem st') root j = entry (ph_mem st) root j)"

lemma release_step:
  assumes "releasable 3 (i # js) root st fs" and "distinct (i # js)" and "root \<notin> set fs"
  obtains st2 hs where "release_loop root (i # js) st = release_loop root js st2"
    "set hs = set (kids 3 (ph_mem st) root i)" "length hs = length (kids 3 (ph_mem st) root i)"
    "releasable 3 js root st2 (hs @ fs)" "root \<notin> set (hs @ fs)"
    "map (kids 3 (ph_mem st2) root) js = map (kids 3 (ph_mem st) root) js"
    "only_frames (ph_mem st) (ph_mem st2) (insert root (set (kids 3 (ph_mem st) root i)))"
    "\<And>j. j < 512 \<Longrightarrow> entry (ph_mem st2) root j =
      (if j = i \<and> pte_valid (entry (ph_mem st) root i) then 0 else entry (ph_mem st) root j)"
proof -
  let ?d = "entry (ph_mem st) root i" and ?gs = "kids 3 (ph_mem st) root i"
  have al: "IS_ALIGNED root PAGE_SIZE" "i < 512" "root \<notin> set ?gs" using assms(1) by (auto simp: releasable_def)
  have three: "Suc 2 = 3" by simp
  define st1 where "st1 = (if \<not> pte_valid ?d then st
    else if pte_table ?d then free_subtree (table_ptr ?d) 1 st else pmm_free (?d AND PT_ADDR_MASK) st)"
  define st2 where "st2 = (if pte_valid ?d then set_entry root i 0 st1 else st1)"
  have step: "release_loop root (i # js) st = release_loop root js st2"
    by (simp add: st1_def st2_def Let_def)
  have g1: "given_back st fs ?gs st1"
  proof (cases "pte_valid ?d")
    case False
    then show ?thesis using assms(1) given_back_refl by (simp add: st1_def kids_simps(1) releasable_def)
  next
    case True
    have "given_back st fs (frs 2 (ph_mem st) (table_ptr ?d)) st1" if d: "sub_desc ?d"
    proof -
      note r = releasable_sub [of 2, OF assms(1) [folded three] d]
      have "given_back st fs (concat (map (kids 2 (ph_mem st) (table_ptr ?d)) pt_indices)) (free_entries 1 pt_indices (table_ptr ?d) st)"
        using free_entries_gives [OF _ r(1)] by simp
      then show ?thesis
        using given_back_free r d mask_aligned [of ?d]
        by (simp add: st1_def frs_kids table_ptr_def free_subtree_def sub_desc_def)
    qed
    then show ?thesis using True by (intro given_back_kids [OF assms(1)]) (auto simp: st1_def sub_desc_def)
  qed
  obtain hs where hs: "set hs = set ?gs" "length hs = length ?gs" "releasable 3 js root st1 (hs @ fs)"
    "map (kids 3 (ph_mem st1) root) js = map (kids 3 (ph_mem st) root) js"
    by (rule releasable_step [OF assms(1) g1])
  have only1: "only_frames (ph_mem st) (ph_mem st1) (set ?gs)" using g1 by (simp add: given_back_def)
  have gal: "\<forall>f\<in>set ?gs. IS_ALIGNED f PAGE_SIZE" using kids_aligned by blast
  have e1: "entry (ph_mem st1) root j = entry (ph_mem st) root j" if "j < 512" for j
    using only_same [OF only1, of "{root}"] al(1,3) gal that by (intro entry_same) auto
  have e2: "entry (ph_mem st2) root j = (if j = i \<and> pte_valid ?d then 0 else entry (ph_mem st) root j)" if "j < 512" for j
    using e1 [OF that] al(1,2) that by (cases "j = i") (simp_all add: st2_def entry_store_same)
  have only2: "only_frames (ph_mem st1) (ph_mem st2) {root}"
    using store_only [OF al(2)] by (simp add: st2_def only_frames_refl)
  have inv2: "pmm_inv st2 (hs @ fs)"
    using hs(1,3) al assms(3) pmm_inv_set_entry [of st1 "hs @ fs"] by (auto simp: st2_def releasable_def)
  have k2: "kids 3 (ph_mem st2) root j = kids 3 (ph_mem st) root j" if j: "j \<in> set js" for j
  proof -
    have k1: "kids 3 (ph_mem st1) root j = kids 3 (ph_mem st) root j" using hs(4) j by simp
    have "root \<notin> set (kids 3 (ph_mem st1) root j)" "j < 512" "j \<noteq> i"
      using assms(1,2) k1 j by (auto simp: releasable_def)
    then have "same_frames (ph_mem st1) (ph_mem st2) (set (kids 3 (ph_mem st1) root j))"
      using al(1) kids_aligned by (intro only_same [OF only2]) auto
    moreover have "entry (ph_mem st2) root j = entry (ph_mem st1) root j" using \<open>j < 512\<close> \<open>j \<noteq> i\<close> by (simp add: e1 e2)
    ultimately show ?thesis using kids_cong k1 by metis
  qed
  then have m2: "map (kids 3 (ph_mem st2) root) js = map (kids 3 (ph_mem st) root) js" by simp
  have rel2: "releasable 3 js root st2 (hs @ fs)" "distinct js" "root \<notin> set (hs @ fs)"
    using hs(1,3,4) inv2 k2 assms al(3) unfolding releasable_def by (auto simp: m2)
  have "only_frames (ph_mem st) (ph_mem st2) (insert root (set ?gs))"
    by (rule only_frames_trans [OF only1 only2]) auto
  then show ?thesis by (rule that [OF step hs(1,2) rel2(1,3) m2 _ e2])
qed

lemma release_loop_gives:
  assumes "releasable 3 is root st fs" and "distinct is" and "root \<notin> set fs"
  shows "released is root st fs (concat (map (kids 3 (ph_mem st) root) is)) (release_loop root is st)"
  using assms
proof (induction "is" arbitrary: st fs)
  case Nil
  then show ?case unfolding released_def by (auto simp: releasable_def only_frames_refl)
next
  case (Cons i js)
  obtain st2 hs where s: "release_loop root (i # js) st = release_loop root js st2"
    "set hs = set (kids 3 (ph_mem st) root i)" "length hs = length (kids 3 (ph_mem st) root i)"
    "releasable 3 js root st2 (hs @ fs)" "root \<notin> set (hs @ fs)"
    "map (kids 3 (ph_mem st2) root) js = map (kids 3 (ph_mem st) root) js"
    "only_frames (ph_mem st) (ph_mem st2) (insert root (set (kids 3 (ph_mem st) root i)))"
    "\<And>j. j < 512 \<Longrightarrow> entry (ph_mem st2) root j =
      (if j = i \<and> pte_valid (entry (ph_mem st) root i) then 0 else entry (ph_mem st) root j)"
    by (rule release_step [OF Cons.prems]) blast
  have IH: "released js root st2 (hs @ fs) (concat (map (kids 3 (ph_mem st2) root) js)) (release_loop root js st2)"
    using Cons.prems(2) by (intro Cons.IH [OF s(4) _ s(5)]) simp
  obtain hs' where h: "set hs' = set (concat (map (kids 3 (ph_mem st2) root) js))"
    "length hs' = length (concat (map (kids 3 (ph_mem st2) root) js))" "pmm_inv (release_loop root js st2) (hs' @ hs @ fs)"
    using IH unfolding released_def by blast
  have "\<exists>hs. set hs = set (concat (map (kids 3 (ph_mem st) root) (i # js))) \<and>
      length hs = length (concat (map (kids 3 (ph_mem st) root) (i # js))) \<and> pmm_inv (release_loop root js st2) (hs @ fs)"
    using h s(2,3,6) by (intro exI [of _ "hs' @ hs"]) (simp add: Un_commute)
  moreover have "only_frames (ph_mem st) (ph_mem (release_loop root js st2))
      (insert root (set (concat (map (kids 3 (ph_mem st) root) (i # js)))))"
    using IH s(6) unfolding released_def by (intro only_frames_trans [OF s(7)]) auto
  moreover have "if j \<in> set (i # js) then \<not> pte_valid (entry (ph_mem (release_loop root js st2)) root j)
      else entry (ph_mem (release_loop root js st2)) root j = entry (ph_mem st) root j" if "j < 512" for j
    using IH s(8) [OF that] Cons.prems(2) that pte_valid_def unfolding released_def by (auto split: if_splits)
  ultimately show ?case unfolding released_def s(1) by blast
qed

end
