(* ===== verification/Vmm_Fork.thy ===== *)
theory Vmm_Fork
  imports Vmm_Release
begin

text \<open>
  \<open>vmm_copy_space\<close>, the copy of an address space that \<open>fork\<close> makes: it is deep, total, and what it
  takes its release gives back.
\<close>

section \<open>The deep copy\<close>

text \<open>What the copy of one lookup is: a fresh page (of \<open>F\<close>) with the same bytes and permissions.\<close>

definition copied :: "u64 set \<Rightarrow> mem \<Rightarrow> mem \<Rightarrow> (nat \<times> u64) option \<Rightarrow> (nat \<times> u64) option \<Rightarrow> bool" where
  "copied F m m' x y \<longleftrightarrow>
    (case x of
       None \<Rightarrow> y = None
     | Some (l, d) \<Rightarrow> l = 3 \<and> (\<exists>np. y = Some (3, leaf_desc np (vmm_decode_flags d)) \<and> frame_ok np \<and> np \<in> F \<and>
         load_bytes m' np 4096 = load_bytes m (d AND PT_ADDR_MASK) 4096))"

text \<open>A descriptor that the copy refuses: valid, but neither a table nor a page.\<close>

fun blocked :: "nat \<Rightarrow> mem \<Rightarrow> u64 \<Rightarrow> nat \<Rightarrow> bool" where
  "blocked 0 m t i = (pte_valid (entry m t i) \<and> \<not> pte_table (entry m t i))"
| "blocked (Suc k) m t i = (pte_valid (entry m t i) \<and>
    (\<not> pte_table (entry m t i) \<or> (\<exists>j<512. blocked k m (table_ptr (entry m t i)) j)))"

lemma blocked_cong:
  assumes "entry m' t i = entry m t i" and "same_frames m m' (set (kids k m t i))"
  shows "blocked k m' t i = blocked k m t i"
  using assms
proof (induction k arbitrary: t i)
  case (Suc k)
  show ?case
  proof (cases "sub_desc (entry m t i)")
    case True
    define c where "c = table_ptr (entry m t i)"
    have s: "same_frames m m' (set (frs k m c))" using Suc.prems(2) True by (simp add: kids_simps c_def)
    have "blocked k m' c j = blocked k m c j" if "j < 512" for j
    proof (rule Suc.IH)
      show "entry m' c j = entry m c j" using s that by (intro entry_same) (auto simp: set_frs same_frames_def)
      show "same_frames m m' (set (kids k m c j))" by (rule same_frames_mono [OF s kids_in_frs [OF that]])
    qed
    then show ?thesis using Suc.prems(1) by (auto simp: c_def)
  next
    case False
    then show ?thesis using Suc.prems(1) by (auto simp: sub_desc_def)
  qed
qed simp

text \<open>The entries \<open>is\<close> of the table \<open>dst\<close> are copies of those of \<open>src\<close>, made of exactly the frames \<open>gs\<close>.\<close>

definition copied_ok :: "nat \<Rightarrow> nat list \<Rightarrow> u64 \<Rightarrow> u64 \<Rightarrow> mem \<Rightarrow> u64 list \<Rightarrow> mem \<Rightarrow> bool" where
  "copied_ok k is src dst m gs m' \<longleftrightarrow>
    only_frames m m' (insert dst (set gs)) \<and>
    (\<forall>j<512. j \<notin> set is \<longrightarrow> entry m' dst j = entry m dst j) \<and>
    distinct (concat (map (kids k m' dst) is)) \<and> set (concat (map (kids k m' dst) is)) = set gs \<and>
    length gs = length (concat (map (kids k m src) is)) \<and>
    (\<forall>va. pt_idx (3 - k) va \<in> set is \<longrightarrow> copied (set gs) m m' (look k m src va) (look k m' dst va))"

definition source_frames :: "nat \<Rightarrow> nat list \<Rightarrow> u64 \<Rightarrow> mem \<Rightarrow> u64 set" where
  "source_frames k is src m = insert src (\<Union>i\<in>set is. set (kids k m src i))"

lemma copied_None: "copied F m m' None y \<longleftrightarrow> y = None"
  by (simp add: copied_def)

lemma copied_mono:
  assumes "copied F m m1 x y" and "F \<subseteq> G" and "same_frames m1 m' F"
  shows "copied G m m' x y"
proof -
  have "load_bytes m' np 4096 = load_bytes m1 np 4096" if "np \<in> F" for np
    using assms(3) that by (intro load_bytes_cong) (auto simp: same_frames_def)
  then show ?thesis using assms(1,2) unfolding copied_def by (fastforce split: option.splits)
qed

lemma copied_from:
  assumes "copied F m1 m' x y" and "\<And>d. x = Some (3, d) \<Longrightarrow> same_frames m m1 {d AND PT_ADDR_MASK}"
  shows "copied F m m' x y"
proof -
  have "load_bytes m1 (d AND PT_ADDR_MASK) 4096 = load_bytes m (d AND PT_ADDR_MASK) 4096" if "x = Some (3, d)" for d
    using assms(2) [OF that] by (intro load_bytes_cong) (auto simp: same_frames_def)
  then show ?thesis using assms(1) unfolding copied_def by (auto split: option.splits)
qed

lemma copied_cons:
  assumes one: "copied_ok k [i] src dst m gs m1" and rest: "copied_ok k is src dst m1 gs' m'"
    and k: "k \<le> 3" and idx: "i < 512" "set is \<subseteq> {..<512}" "i \<notin> set is"
    and al: "IS_ALIGNED src PAGE_SIZE" "IS_ALIGNED dst PAGE_SIZE" "\<forall>f\<in>set gs \<union> set gs'. IS_ALIGNED f PAGE_SIZE"
    and dis: "set gs \<inter> set gs' = {}" "dst \<notin> set gs \<union> set gs'"
      "source_frames k (i # is) src m \<inter> insert dst (set gs \<union> set gs') = {}"
  shows "copied_ok k (i # is) src dst m (gs @ gs') m'"
proof -
  have only: "only_frames m m1 (insert dst (set gs))" "only_frames m1 m' (insert dst (set gs'))"
    using one rest by (simp_all add: copied_ok_def)
  have ki: "set (kids k m1 dst i) = set gs" "distinct (kids k m1 dst i)" using one by (simp_all add: copied_ok_def)
  have e1: "entry m' dst i = entry m1 dst i" using rest idx by (simp add: copied_ok_def)
  have s1: "same_frames m1 m' (set gs)" using al dis by (intro only_same [OF only(2)]) auto
  have k1: "kids k m' dst i = kids k m1 dst i" using kids_cong [OF e1] s1 ki by simp
  have src_al: "IS_ALIGNED f PAGE_SIZE" if "f \<in> source_frames k (i # is) src m" for f
    using that al(1) kids_aligned by (auto simp: source_frames_def)
  have s0: "same_frames m m1 (source_frames k (i # is) src m)"
    using src_al al dis(3) by (intro only_same [OF only(1)]) auto
  have src: "entry m1 src j = entry m src j" "same_frames m m1 (set (kids k m src j))" if "j \<in> set (i # is)" for j
  proof -
    have "j < 512" using idx that by auto
    then show "entry m1 src j = entry m src j" using s0 by (intro entry_same) (auto simp: source_frames_def same_frames_def)
    show "same_frames m m1 (set (kids k m src j))" using s0 that by (auto simp: source_frames_def same_frames_def)
  qed
  have look_i: "copied (set (gs @ gs')) m m' (look k m src va) (look k m' dst va)" if "pt_idx (3 - k) va = i" for va
  proof -
    have "copied (set gs) m m1 (look k m src va) (look k m1 dst va)" using one that by (simp add: copied_ok_def)
    moreover have "look k m' dst va = look k m1 dst va"
      using look_kid_cong [OF k, of m' dst va m1] that e1 s1 ki by simp
    ultimately show ?thesis using copied_mono [OF _ _ s1] by simp
  qed
  have look_js: "copied (set (gs @ gs')) m m' (look k m src va) (look k m' dst va)" if v: "pt_idx (3 - k) va \<in> set is" for va
  proof -
    have c: "copied (set gs') m1 m' (look k m1 src va) (look k m' dst va)" using rest v by (simp add: copied_ok_def)
    have l: "look k m1 src va = look k m src va" using look_kid_cong [OF k, of m1 src va m] src v by simp
    have "same_frames m m1 {d AND PT_ADDR_MASK}" if "look k m src va = Some (3, d)" for d
      using src(2) [of "pt_idx (3 - k) va"] look_page_owned [OF that k] v by (auto simp: same_frames_def)
    with c l have "copied (set gs') m m' (look k m src va) (look k m' dst va)" by (auto intro: copied_from)
    then show ?thesis by (rule copied_mono) (auto simp: same_frames_def)
  qed
  have "map (kids k m1 src) is = map (kids k m src) is" using kids_cong src by simp
  then have len: "length (gs @ gs') = length (concat (map (kids k m src) (i # is)))"
    using one rest unfolding copied_ok_def by (simp del: map_eq_conv)
  have "only_frames m m' (insert dst (set (gs @ gs')))" by (rule only_frames_trans [OF only]) auto
  moreover have "\<forall>j<512. j \<notin> set (i # is) \<longrightarrow> entry m' dst j = entry m dst j"
    using one rest by (simp add: copied_ok_def)
  moreover have "distinct (concat (map (kids k m' dst) (i # is)))" "set (concat (map (kids k m' dst) (i # is))) = set (gs @ gs')"
    using rest k1 ki dis(1) by (auto simp: copied_ok_def)
  ultimately show ?thesis using len look_i look_js unfolding copied_ok_def by simp
qed

lemma look_idx:
  assumes "k \<le> 3" and "pt_idx (3 - k) va = i"
  shows "look k m t va = (let d = entry m t i
    in if k \<noteq> 0 \<and> sub_desc d then look (k - 1) m (table_ptr d) va else if pte_valid d then Some (3 - k, d) else None)"
  using assms by (cases k) (auto simp: Let_def)

lemma copied_invalid:
  assumes "k \<le> 3" and "i < 512" and "IS_ALIGNED dst PAGE_SIZE" and "\<not> pte_valid (entry m src i)"
  shows "copied_ok k [i] src dst m [] (store64 m (entry_addr dst i) 0)"
proof -
  have e: "entry (store64 m (entry_addr dst i) 0) dst j = (if j = i then 0 else entry m dst j)" if "j < 512" for j
    by (rule entry_store_same [OF assms(3,2) that])
  have v: "\<not> pte_valid 0" "\<not> sub_desc 0" "\<not> sub_desc (entry m src i)" using assms(4) by (simp_all add: pte_valid_def sub_desc_def)
  have "kids k (store64 m (entry_addr dst i) 0) dst i = []" using e [OF assms(2)] v by (intro kids_simps(1)) simp
  moreover have "look k m src va = None" "look k (store64 m (entry_addr dst i) 0) dst va = None" if "pt_idx (3 - k) va = i" for va
    using look_idx [OF assms(1) that] e [OF assms(2)] v assms(4) by simp_all
  ultimately show ?thesis
    using store_only [OF assms(2), of m dst 0] e kids_simps(1) [OF assms(4)] unfolding copied_ok_def by (simp add: copied_None)
qed

lemma copied_leaf:
  assumes "i < 512" and "IS_ALIGNED dst PAGE_SIZE" and "frame_ok x" and "x \<noteq> dst" and "pte_valid (entry m src i)"
    and m1: "m1 = store_bytes m x (load_bytes m (entry m src i AND PT_ADDR_MASK) 4096)"
    and m2: "m2 = store64 m1 (entry_addr dst i) (leaf_desc x (vmm_decode_flags (entry m src i)))"
  shows "copied_ok 0 [i] src dst m [x] m2"
proof -
  let ?d = "entry m src i"
  have al: "IS_ALIGNED x PAGE_SIZE" by (rule frame_ok_aligned [OF assms(3)])
  have o1: "only_frames m m1 {x}" unfolding m1 only_frames_def by (auto intro!: store_bytes_other)
  have o2: "only_frames m1 m2 {dst}" unfolding m2 by (rule store_only [OF assms(1)])
  have s1: "same_frames m m1 {dst}" using assms(2,4) al by (intro only_same [OF o1]) auto
  have s2: "same_frames m1 m2 {x}" using assms(2,4) al by (intro only_same [OF o2]) auto
  have e: "entry m2 dst j = (if j = i then leaf_desc x (vmm_decode_flags ?d) else entry m dst j)" if "j < 512" for j
    using entry_store_same [OF assms(2,1) that] entry_same [OF s1 that] unfolding m2 by simp
  have kid: "kids 0 m2 dst i = [x]"
    using e [OF assms(1)] leaf_desc_bits [of x] leaf_desc_pa [of x] assms(3) by (subst kids_simps(2)) (simp_all add: frame_ok_def)
  have "load_bytes m2 x 4096 = load_bytes m1 x 4096" using s2 by (intro load_bytes_cong) (auto simp: same_frames_def)
  also have "\<dots> = load_bytes m (?d AND PT_ADDR_MASK) 4096"
    using load_store_bytes_same [of "load_bytes m (?d AND PT_ADDR_MASK) 4096" m x] by (simp add: m1)
  finally have bytes: "load_bytes m2 x 4096 = load_bytes m (?d AND PT_ADDR_MASK) 4096" .
  have "look 0 m src va = Some (3, ?d)" "look 0 m2 dst va = Some (3, leaf_desc x (vmm_decode_flags ?d))"
    if "pt_idx (3 - 0) va = i" for va
    using that e [OF assms(1)] assms(5) leaf_desc_bits by simp_all
  then have "copied {x} m m2 (look 0 m src va) (look 0 m2 dst va)" if "pt_idx (3 - 0) va = i" for va
    using that bytes assms(3) unfolding copied_def by auto
  moreover have "only_frames m m2 {dst, x}" by (rule only_frames_trans [OF o1 o2]) auto
  ultimately show ?thesis using e kid kids_simps(2) [OF assms(5), of 0] unfolding copied_ok_def by simp
qed

lemma copied_table:
  assumes k: "k < 3" and i: "i < 512" and d: "sub_desc (entry m src i)" "c = table_ptr (entry m src i)"
    and al: "IS_ALIGNED dst PAGE_SIZE" "frame_ok x" "\<forall>f\<in>set gs. IS_ALIGNED f PAGE_SIZE"
    and dis: "x \<noteq> dst" "x \<notin> set gs" "dst \<notin> set gs" "x \<notin> set (frs k m c)"
    and m0: "only_frames m m0 {x}" and sub: "copied_ok k pt_indices c x m0 gs m1"
    and m2: "m2 = store64 m1 (entry_addr dst i) (table_desc x)"
  shows "copied_ok (Suc k) [i] src dst m (x # gs) m2"
proof -
  have xal: "IS_ALIGNED x PAGE_SIZE" by (rule frame_ok_aligned [OF al(2)])
  have cal: "IS_ALIGNED f PAGE_SIZE" if "f \<in> set (frs k m c)" for f
    using that kids_aligned mask_aligned by (auto simp: set_frs d(2) table_ptr_def)
  have o1: "only_frames m0 m1 (insert x (set gs))" using sub by (simp add: copied_ok_def)
  have o2: "only_frames m1 m2 {dst}" unfolding m2 by (rule store_only [OF i])
  have o01: "only_frames m m1 (insert x (set gs))" by (rule only_frames_trans [OF m0 o1]) auto
  have s1: "same_frames m m1 {dst}" using al xal dis by (intro only_same [OF o01]) auto
  have s2: "same_frames m1 m2 (insert x (set gs))" using al xal dis by (intro only_same [OF o2]) auto
  have s0: "same_frames m m0 (set (frs k m c))" using xal dis cal by (intro only_same [OF m0]) auto
  have e: "entry m2 dst j = (if j = i then table_desc x else entry m dst j)" if "j < 512" for j
    using entry_store_same [OF al(1) i that] entry_same [OF s1 that] unfolding m2 by simp
  have fr: "set (concat (map (kids k m1 x) pt_indices)) = set gs" "distinct (concat (map (kids k m1 x) pt_indices))"
    using sub by (simp_all add: copied_ok_def)
  have kx: "kids k m2 x j = kids k m1 x j" if "j < 512" for j
    using that s2 fr(1) by (intro kids_cong entry_same) (auto simp: same_frames_def)
  then have "frs k m2 x = frs k m1 x" unfolding frs_kids by (simp, intro concat_indices_cong)
  then have "kids (Suc k) m2 dst i = frs k m1 x"
    using e [OF i] table_desc_bits [OF al(2)] by (subst kids_simps(3)) (simp_all add: sub_desc_def)
  then have kid: "distinct (kids (Suc k) m2 dst i)" "set (kids (Suc k) m2 dst i) = insert x (set gs)"
    using fr dis(2) by (simp_all only: frs_kids distinct.simps list.set simp_thms)
  have "copied (set (x # gs)) m m2 (look (Suc k) m src va) (look (Suc k) m2 dst va)" if v: "pt_idx (3 - Suc k) va = i" for va
  proof -
    let ?j = "pt_idx (3 - k) va"
    have c1: "copied (set gs) m0 m1 (look k m0 c va) (look k m1 x va)" using sub by (simp add: copied_ok_def)
    have "entry m0 c ?j = entry m c ?j" using s0 by (intro entry_same) (auto simp: set_frs same_frames_def)
    moreover have "same_frames m m0 (set (kids k m c ?j))" by (rule same_frames_mono [OF s0 kids_in_frs [OF pt_idx_less]])
    ultimately have l0: "look k m0 c va = look k m c va" using look_kid_cong [of k m0 c va m] k by simp
    have "same_frames m m0 {d' AND PT_ADDR_MASK}" if "look k m c va = Some (3, d')" for d'
    proof -
      have "d' AND PT_ADDR_MASK \<in> set (kids k m c ?j)" using look_page_owned [OF that] k by simp
      then show ?thesis using kids_in_frs [OF pt_idx_less, of k m c "3 - k" va] by (intro same_frames_mono [OF s0]) blast
    qed
    with c1 l0 have c2: "copied (set gs) m m1 (look k m c va) (look k m1 x va)" by (auto intro: copied_from)
    have "entry m2 x ?j = entry m1 x ?j" using s2 by (intro entry_same) (auto simp: same_frames_def)
    moreover have "same_frames m1 m2 (set (kids k m1 x ?j))" using s2 fr(1) by (force simp: same_frames_def)
    ultimately have "look k m2 x va = look k m1 x va" using look_kid_cong [of k m2 x va m1] k by simp
    moreover have "look (Suc k) m src va = look k m c va" "look (Suc k) m2 dst va = look k m2 x va"
      using look_idx [OF _ v] k d e [OF i] table_desc_bits [OF al(2)] by (simp_all add: sub_desc_def del: look.simps)
    moreover have "same_frames m1 m2 (set gs)" using s2 by (auto simp: same_frames_def)
    ultimately show ?thesis
      using copied_mono [OF c2, of "set (x # gs)" m2] by (simp add: subset_insertI del: look.simps)
  qed
  moreover have "only_frames m m2 (insert dst (set (x # gs)))" by (rule only_frames_trans [OF o01 o2]) auto
  moreover have "length (x # gs) = length (kids (Suc k) m src i)"
    using sub frs_cong [OF s0] by (simp add: copied_ok_def kids_simps(3) [OF d(1)] flip: d(2)) (simp add: frs_kids)
  ultimately show ?thesis using e kid unfolding copied_ok_def by simp
qed

definition copy_pre :: "nat \<Rightarrow> nat list \<Rightarrow> u64 \<Rightarrow> u64 \<Rightarrow> phys \<Rightarrow> u64 list \<Rightarrow> bool" where
  "copy_pre k is src dst st fs \<longleftrightarrow> pmm_inv st fs \<and> (\<forall>f\<in>set fs. frame_ok f) \<and>
    IS_ALIGNED src PAGE_SIZE \<and> IS_ALIGNED dst PAGE_SIZE \<and> dst \<notin> set fs \<and> set is \<subseteq> {..<512} \<and> distinct is \<and>
    source_frames k is src (ph_mem st) \<inter> insert dst (set fs) = {}"

text \<open>Why a copy failed: there were fewer free frames than the source owns, or it has a block.\<close>

definition copy_cause :: "nat \<Rightarrow> nat list \<Rightarrow> u64 \<Rightarrow> mem \<Rightarrow> u64 list \<Rightarrow> int \<Rightarrow> bool" where
  "copy_cause k is src m fs r \<longleftrightarrow>
    r = 5 \<and> length fs < length (concat (map (kids k m src) is)) \<or> r = 6 \<and> (\<exists>i\<in>set is. blocked k m src i)"

definition copy_post :: "nat \<Rightarrow> nat list \<Rightarrow> u64 \<Rightarrow> u64 \<Rightarrow> phys \<Rightarrow> u64 list \<Rightarrow> int \<Rightarrow> phys \<Rightarrow> bool" where
  "copy_post k is src dst st fs r st' \<longleftrightarrow>
    r = 0 \<and> (\<exists>gs fs'. fs = gs @ fs' \<and> pmm_inv st' fs' \<and> copied_ok k is src dst (ph_mem st) gs (ph_mem st')) \<or>
    copy_cause k is src (ph_mem st) fs r \<and>
      (\<exists>fs'. pmm_inv st' fs' \<and> set fs' \<subseteq> set fs \<and> only_frames (ph_mem st) (ph_mem st') (insert dst (set fs)))"

lemma copy_cause_nonzero: "copy_cause k is src m fs r \<Longrightarrow> r \<noteq> 0"
  by (auto simp: copy_cause_def)

text \<open>After the copy of one entry the rest can be copied, and the two make up the whole.\<close>

lemma copy_rest:
  assumes pre: "copy_pre k (i # js) src dst st fs" and k: "k \<le> 3"
    and one: "copied_ok k [i] src dst (ph_mem st) gs (ph_mem st1)" "fs = gs @ fs1" "pmm_inv st1 fs1"
  shows "copy_pre k js src dst st1 fs1"
    and "copy_post k js src dst st1 fs1 r st' \<Longrightarrow> copy_post k (i # js) src dst st fs r st'"
proof -
  have d: "distinct fs" using pre by (simp add: copy_pre_def pmm_inv_def)
  have al: "IS_ALIGNED f PAGE_SIZE" if "f \<in> set fs" for f using pre that frame_ok_aligned by (auto simp: copy_pre_def)
  have only: "only_frames (ph_mem st) (ph_mem st1) (insert dst (set gs))" using one by (simp add: copied_ok_def)
  have sal: "IS_ALIGNED f PAGE_SIZE" if "f \<in> source_frames k (i # js) src (ph_mem st)" for f
    using that pre kids_aligned by (auto simp: source_frames_def copy_pre_def)
  have s0: "same_frames (ph_mem st) (ph_mem st1) (source_frames k (i # js) src (ph_mem st))"
    using pre al sal one(2) by (intro only_same [OF only]) (auto simp: copy_pre_def)
  have e: "entry (ph_mem st1) src j = entry (ph_mem st) src j" "same_frames (ph_mem st) (ph_mem st1) (set (kids k (ph_mem st) src j))"
    if "j \<in> set js" for j
    using that pre s0 by (auto simp: copy_pre_def source_frames_def same_frames_def intro!: entry_same)
  have kj: "kids k (ph_mem st1) src j = kids k (ph_mem st) src j" if "j \<in> set js" for j
    using that by (intro kids_cong e)
  then have "source_frames k js src (ph_mem st1) \<subseteq> source_frames k (i # js) src (ph_mem st)"
    by (auto simp: source_frames_def)
  then show "copy_pre k js src dst st1 fs1"
    using pre one(2,3) unfolding copy_pre_def by auto
  assume post: "copy_post k js src dst st1 fs1 r st'"
  show "copy_post k (i # js) src dst st fs r st'"
  proof (cases "r = 0")
    case True
    then obtain gs' fs' where g: "fs1 = gs' @ fs'" "pmm_inv st' fs'" "copied_ok k js src dst (ph_mem st1) gs' (ph_mem st')"
      using post by (auto simp: copy_post_def dest: copy_cause_nonzero)
    have "copied_ok k (i # js) src dst (ph_mem st) (gs @ gs') (ph_mem st')"
      using pre d al one(2) g(1) by (intro copied_cons [OF one(1) g(3) k]) (auto simp: copy_pre_def)
    then show ?thesis
      using True g one(2) unfolding copy_post_def by (intro disjI1 conjI exI [of _ "gs @ gs'"] exI [of _ fs']) simp_all
  next
    case False
    then obtain fs' where g: "pmm_inv st' fs'" "set fs' \<subseteq> set fs1" "copy_cause k js src (ph_mem st1) fs1 r"
      "only_frames (ph_mem st1) (ph_mem st') (insert dst (set fs1))"
      using post by (auto simp: copy_post_def)
    have "map (kids k (ph_mem st1) src) js = map (kids k (ph_mem st) src) js" using kj by simp
    moreover have "length gs = length (kids k (ph_mem st) src i)" using one(1) by (simp add: copied_ok_def)
    moreover have "\<forall>j\<in>set js. blocked k (ph_mem st1) src j = blocked k (ph_mem st) src j" using blocked_cong e by blast
    ultimately have cause: "copy_cause k (i # js) src (ph_mem st) fs r"
      using g(3) one(2) unfolding copy_cause_def by (auto simp del: map_eq_conv)
    have "only_frames (ph_mem st) (ph_mem st') (insert dst (set fs))"
      using one(2) by (intro only_frames_trans [OF only g(4)]) auto
    then show ?thesis using g cause one(2) by (auto simp: copy_post_def)
  qed
qed

lemma copy_error:
  assumes "pmm_inv st' fs'" and "set fs' \<subseteq> set fs" and "only_frames (ph_mem st) (ph_mem st') (insert dst (set fs))"
    and "copy_cause k is src (ph_mem st) fs r"
  shows "copy_post k is src dst st fs r st'"
  using assms unfolding copy_post_def by blast

text \<open>The step at an entry that leads to a table.\<close>

lemma copy_sub_pre:
  assumes pre: "copy_pre (Suc k) (i # js) src dst st (x # xs)" and d: "sub_desc (entry (ph_mem st) src i)"
  defines "c \<equiv> table_ptr (entry (ph_mem st) src i)" and "st0 \<equiv> zero_table x (snd (pmm_alloc st))"
  shows "copy_pre k pt_indices c x st0 xs" and "only_frames (ph_mem st) (ph_mem st0) {x}"
    and "x \<notin> set (frs k (ph_mem st) c)"
    and "same_frames (ph_mem st) (ph_mem st0) (set (frs k (ph_mem st) c))"
proof -
  have inv: "pmm_inv st (x # xs)" "frame_ok x" "\<forall>f\<in>set xs. frame_ok f" using pre by (auto simp: copy_pre_def)
  have al: "IS_ALIGNED x PAGE_SIZE" by (rule frame_ok_aligned [OF inv(2)])
  note a = pmm_alloc_gives [OF inv(1)]
  have alloc: "pmm_inv (snd (pmm_alloc st)) xs" "ph_mem (snd (pmm_alloc st)) = ph_mem st" using a by simp_all
  note z = zero_table_gives [OF al, where st = "snd (pmm_alloc st)", folded st0_def, unfolded alloc(2)]
  show only: "only_frames (ph_mem st) (ph_mem st0) {x}" by (rule z(1))
  have xs: "x \<notin> set xs" using inv(1) by (simp add: pmm_inv_def)
  have inv0: "pmm_inv st0 xs"
    using z xs al alloc(2) by (intro pmm_inv_only [OF alloc(1), of _ "{x}"]) auto
  have fr: "set (frs k (ph_mem st) c) \<subseteq> source_frames (Suc k) (i # js) src (ph_mem st)"
    using d by (auto simp: source_frames_def kids_simps(3) c_def)
  then show nx: "x \<notin> set (frs k (ph_mem st) c)" using pre by (auto simp: copy_pre_def)
  have cal: "IS_ALIGNED f PAGE_SIZE" if "f \<in> set (frs k (ph_mem st) c)" for f
    using that kids_aligned mask_aligned by (auto simp: set_frs c_def table_ptr_def)
  show same: "same_frames (ph_mem st) (ph_mem st0) (set (frs k (ph_mem st) c))"
    using al nx cal by (intro only_same [OF only]) auto
  then have "source_frames k pt_indices c (ph_mem st0) = set (frs k (ph_mem st) c)"
    using frs_cong by (metis set_frs source_frames_def pt_indices_simps(1))
  then show "copy_pre k pt_indices c x st0 xs"
    using inv0 inv xs al cal [of c] fr pre unfolding copy_pre_def by (auto simp: set_frs)
qed

lemma copy_sub_cause:
  assumes d: "sub_desc (entry m src i)" and c: "copy_cause k pt_indices (table_ptr (entry m src i)) m0 xs r"
    and s: "same_frames m m0 (set (frs k m (table_ptr (entry m src i))))"
  shows "copy_cause (Suc k) (i # js) src m (x # xs) r"
proof -
  define t where "t = table_ptr (entry m src i)"
  note s' = s [folded t_def]
  have "length (concat (map (kids k m0 t) pt_indices)) = length (concat (map (kids k m t) pt_indices))"
    using frs_cong [OF s'] by (simp add: frs_kids)
  moreover have "length (kids (Suc k) m src i) = Suc (length (concat (map (kids k m t) pt_indices)))"
    using d by (simp add: kids_simps(3) t_def) (simp add: frs_kids)
  moreover have "blocked k m0 t j = blocked k m t j" if "j < 512" for j
  proof (rule blocked_cong)
    show "entry m0 t j = entry m t j" using s' that by (intro entry_same) (auto simp: set_frs same_frames_def)
    show "same_frames m m0 (set (kids k m t j))" by (rule same_frames_mono [OF s' kids_in_frs [OF that]])
  qed
  ultimately show ?thesis using c [folded t_def] d unfolding copy_cause_def
    by (auto simp: t_def sub_desc_def)
qed

lemma copy_sub:
  assumes pre: "copy_pre (Suc k) (i # js) src dst st (x # xs)" and k: "k < 3" and d: "sub_desc (entry (ph_mem st) src i)"
    and post: "copy_post k pt_indices (table_ptr (entry (ph_mem st) src i)) x (zero_table x (snd (pmm_alloc st))) xs r st1"
  shows "r \<noteq> 0 \<Longrightarrow> copy_post (Suc k) (i # js) src dst st (x # xs) r (pmm_free x st1)"
    and "r = 0 \<Longrightarrow> \<exists>gs fs1. xs = gs @ fs1 \<and> pmm_inv (set_entry dst i (table_desc x) st1) fs1 \<and>
      copied_ok (Suc k) [i] src dst (ph_mem st) (x # gs) (ph_mem (set_entry dst i (table_desc x) st1))"
proof -
  define c st0 where "c = table_ptr (entry (ph_mem st) src i)" and "st0 = zero_table x (snd (pmm_alloc st))"
  note p = copy_sub_pre [OF pre d, folded c_def st0_def]
  note post' = post [folded c_def st0_def]
  have fs: "frame_ok x" "x \<noteq> dst" "x \<notin> set xs" "x \<noteq> 0" "dst \<notin> set xs" "IS_ALIGNED dst PAGE_SIZE" "i < 512" "\<forall>f\<in>set xs. IS_ALIGNED f PAGE_SIZE"
    using pre frame_ok_aligned by (auto simp: copy_pre_def pmm_inv_def)
  have al: "IS_ALIGNED x PAGE_SIZE" by (rule frame_ok_aligned [OF fs(1)])
  { assume "r \<noteq> 0"
    then obtain fs' where f: "pmm_inv st1 fs'" "set fs' \<subseteq> set xs" "copy_cause k pt_indices c (ph_mem st0) xs r"
      "only_frames (ph_mem st0) (ph_mem st1) (insert x (set xs))"
      using post' by (auto simp: copy_post_def)
    have "pmm_inv (pmm_free x st1) (x # fs')" using f fs al by (intro pmm_free_gives) auto
    moreover have "only_frames (ph_mem st) (ph_mem (pmm_free x st1)) (insert dst (set (x # xs)))"
      by (rule only_frames_trans [OF only_frames_trans [OF p(2) f(4), of "insert x (set xs)"] pmm_free_only [OF al]]) auto
    moreover have "copy_cause (Suc k) (i # js) src (ph_mem st) (x # xs) r"
      by (rule copy_sub_cause [OF d f(3) [unfolded c_def] p(4) [unfolded c_def]])
    ultimately show "copy_post (Suc k) (i # js) src dst st (x # xs) r (pmm_free x st1)"
      using f by (intro copy_error) auto }
  assume "r = 0"
  then obtain gs fs1 where g: "xs = gs @ fs1" "pmm_inv st1 fs1" "copied_ok k pt_indices c x (ph_mem st0) gs (ph_mem st1)"
    using post' by (auto simp: copy_post_def dest: copy_cause_nonzero)
  have "copied_ok (Suc k) [i] src dst (ph_mem st) (x # gs) (ph_mem (set_entry dst i (table_desc x) st1))"
    using g(1) fs by (intro copied_table [OF k fs(7) d c_def fs(6,1) _ fs(2) _ _ p(3,2) g(3)]) auto
  moreover have "pmm_inv (set_entry dst i (table_desc x) st1) fs1"
    using g fs by (intro pmm_inv_set_entry) auto
  ultimately show "\<exists>gs fs1. xs = gs @ fs1 \<and> pmm_inv (set_entry dst i (table_desc x) st1) fs1 \<and>
      copied_ok (Suc k) [i] src dst (ph_mem st) (x # gs) (ph_mem (set_entry dst i (table_desc x) st1))"
    using g(1) by blast
qed

lemma copy_loop:
  assumes k: "k \<le> 3"
    and sub: "\<And>c x st fs r st'. k \<noteq> 0 \<Longrightarrow> copy_pre (k - 1) pt_indices c x st fs \<Longrightarrow>
      copy_level (Suc (3 - k)) pt_indices c x st = (r, st') \<Longrightarrow> copy_post (k - 1) pt_indices c x st fs r st'"
    and "copy_pre k is src dst st fs" and "copy_level (3 - k) is src dst st = (r, st')"
  shows "copy_post k is src dst st fs r st'"
  using assms(3,4)
proof (induction "is" arbitrary: st fs)
  case Nil
  have "only_frames (ph_mem st) (ph_mem st) {dst}" by (rule only_frames_refl)
  with Nil show ?case unfolding copy_post_def copied_ok_def
    by (intro disjI1 conjI exI [of _ "[]"] exI [of _ fs]) (auto simp: copy_pre_def)
next
  case (Cons i js)
  let ?d = "entry (ph_mem st) src i"
  note pre = Cons.prems(1) [unfolded copy_pre_def]
  have rest: "copy_post k (i # js) src dst st fs r st'"
    if "copied_ok k [i] src dst (ph_mem st) gs (ph_mem st1)" "fs = gs @ fs1" "pmm_inv st1 fs1"
      "copy_level (3 - k) js src dst st1 = (r, st')" for gs fs1 st1
    using copy_rest [OF Cons.prems(1) k that(1-3)] Cons.IH that(4) by blast
  have err: "copy_post k (i # js) src dst st fs r st'" if "st' = st" "copy_cause k (i # js) src (ph_mem st) fs r"
    using that pre by (intro copy_error) (auto simp: only_frames_refl)
  consider (invalid) "\<not> pte_valid ?d" | (table) "sub_desc ?d" "k \<noteq> 0" | (block) "pte_valid ?d" "\<not> pte_table ?d"
    | (page) "pte_valid ?d" "pte_table ?d" "k = 0" by (auto simp: sub_desc_def)
  then show ?case
  proof cases
    case invalid
    have "copied_ok k [i] src dst (ph_mem st) [] (ph_mem (set_entry dst i 0 st))"
      using copied_invalid [OF k _ _ invalid] pre by simp
    then show ?thesis
      using Cons.prems(2) invalid pre by (intro rest [of "[]" "set_entry dst i 0 st" fs]) (auto intro!: pmm_inv_set_entry)
  next
    case block
    then have "blocked k (ph_mem st) src i" by (cases k) simp_all
    with block show ?thesis using Cons.prems(2) by (intro err) (auto simp: copy_cause_def)
  next
    case page
    show ?thesis
    proof (cases fs)
      case Nil
      then show ?thesis
        using Cons.prems(2) page pmm_alloc_gives(1) [of st fs] pre by (intro err) (auto simp: Let_def copy_cause_def kids_simps(2))
    next
      case fs: (Cons x xs)
      define st1 where "st1 = set_entry dst i (leaf_desc x (vmm_decode_flags ?d))
        (copy_page x (?d AND PT_ADDR_MASK) (snd (pmm_alloc st)))"
      have x: "frame_ok x" "x \<noteq> dst" "x \<noteq> 0" "x \<notin> set xs" using pre fs by (auto simp: frame_ok_def pmm_inv_def)
      have inv: "pmm_inv st (x # xs)" using pre fs by simp
      note a = pmm_alloc_gives [OF inv]
      have alloc: "pmm_alloc st = (x, snd (pmm_alloc st))" "pmm_inv (snd (pmm_alloc st)) xs" "ph_mem (snd (pmm_alloc st)) = ph_mem st"
        using a by simp_all
      have "copied_ok k [i] src dst (ph_mem st) [x] (ph_mem st1)"
        using copied_leaf [of i dst x "ph_mem st" src, OF _ _ x(1,2) page(1) refl refl] pre page(3) alloc(3)
        by (simp add: st1_def copy_page_def)
      moreover have "pmm_inv (copy_page x (?d AND PT_ADDR_MASK) (snd (pmm_alloc st))) xs"
      proof (rule pmm_inv_only [OF alloc(2)])
        show "only_frames (ph_mem (snd (pmm_alloc st))) (ph_mem (copy_page x (?d AND PT_ADDR_MASK) (snd (pmm_alloc st)))) {x}"
          unfolding only_frames_def copy_page_def by (auto intro!: store_bytes_other)
      qed (use x frame_ok_aligned in \<open>auto simp: copy_page_def\<close>)
      then have "pmm_inv st1 xs" unfolding st1_def using pre fs by (intro pmm_inv_set_entry) auto
      moreover have "copy_level (3 - k) js src dst st1 = (r, st')"
        using Cons.prems(2) page alloc(1) x(3) by (auto simp: st1_def Let_def split: prod.splits)
      ultimately show ?thesis using fs by (intro rest [of "[x]" st1 xs]) auto
    qed
  next
    case table
    then obtain k' where k': "k = Suc k'" "k' < 3" using k by (cases k) auto
    show ?thesis
    proof (cases fs)
      case Nil
      then show ?thesis
        using Cons.prems(2) table k pmm_alloc_gives(1) [of st fs] pre by (intro err) (auto simp: sub_desc_def Let_def copy_cause_def dest: kids_nonempty)
    next
      case fs: (Cons x xs)
      define st0 where "st0 = zero_table x (snd (pmm_alloc st))"
      have x: "x \<noteq> 0" using pre fs by (auto simp: frame_ok_def)
      have alloc: "pmm_alloc st = (x, snd (pmm_alloc st))" using pmm_alloc_gives(1) [of st fs] pre fs by simp
      note pre' = Cons.prems(1) [unfolded k' fs]
      obtain r1 st1 where c: "copy_level (Suc (3 - k)) pt_indices (table_ptr ?d) x st0 = (r1, st1)" by fastforce
      have post: "copy_post k' pt_indices (table_ptr ?d) x st0 xs r1 st1"
        using sub [OF table(2) _ c] copy_sub_pre(1) [OF pre' table(1)] k' by (simp add: st0_def)
      note s = copy_sub [OF pre' k'(2) table(1) post [unfolded st0_def]]
      have step: "copy_level (3 - k) (i # js) src dst st =
        (if r1 \<noteq> 0 then (r1, pmm_free x st1) else copy_level (3 - k) js src dst (set_entry dst i (table_desc x) st1))"
        using table k x alloc c by (auto simp: sub_desc_def st0_def split: prod.splits)
      show ?thesis
      proof (cases "r1 = 0")
        case True
        then obtain gs fs1 where "xs = gs @ fs1" "pmm_inv (set_entry dst i (table_desc x) st1) fs1"
          "copied_ok (Suc k') [i] src dst (ph_mem st) (x # gs) (ph_mem (set_entry dst i (table_desc x) st1))"
          using s(2) by blast
        then show ?thesis using True Cons.prems(2) step fs k' by (intro rest [of "x # gs" _ fs1]) auto
      qed (use s(1) Cons.prems(2) step fs k' in auto)
    qed
  qed
qed

lemma copy_level_gives:
  "k \<le> 3 \<Longrightarrow> copy_pre k is src dst st fs \<Longrightarrow> copy_level (3 - k) is src dst st = (r, st') \<Longrightarrow>
    copy_post k is src dst st fs r st'"
proof (induction k arbitrary: "is" src dst st fs r st')
  case 0
  show ?case by (rule copy_loop [OF 0(1) _ 0(2,3)]) simp
next
  case (Suc k)
  have n: "Suc (3 - Suc k) = 3 - k" using Suc.prems(1) by simp
  show ?case
  proof (rule copy_loop [OF Suc.prems(1) _ Suc.prems(2,3)])
    fix c x st fs r st'
    assume "copy_pre (Suc k - 1) pt_indices c x st fs" "copy_level (Suc (3 - Suc k)) pt_indices c x st = (r, st')"
    then show "copy_post (Suc k - 1) pt_indices c x st fs r st'"
      using Suc.IH Suc.prems(1) unfolding n by simp
  qed
qed

section \<open>Properties of address spaces\<close>

lemma copy_roots_level: "copy_roots is src dst st = copy_level 0 is src dst st"
proof (induction "is" arbitrary: st)
  case (Cons i js)
  have "copy_roots js src dst = copy_level 0 js src dst" by (rule ext) (rule Cons.IH)
  then show ?case by (cases "pte_table (entry (ph_mem st) src i)") (simp_all add: Let_def split_def)
qed simp

lemma decode_copied:
  assumes "frame_ok np"
  shows "vmm_decode_flags (leaf_desc np (vmm_decode_flags d)) =
    (if vmm_decode_flags d AND VM_USER \<noteq> 0 then vmm_decode_flags d else vmm_decode_flags d AND NOT VM_EXEC)"
proof -
  have "np AND PT_ADDR_MASK = np" using assms by (simp add: frame_ok_def)
  note leaf = decode_leaf [OF this]
  obtain w u e v where "vmm_decode_flags d = VM_READ OR (if w then VM_WRITE else 0) OR (if u then VM_USER else 0)
      OR (if e then VM_EXEC else 0) OR (if v then VM_DEVICE else 0)"
    unfolding vmm_decode_flags_def Let_def by blast
  then show ?thesis unfolding leaf by (cases w; cases u; cases e; cases v) simp_all
qed

text \<open>An address space with one page: a table at each level, the page at \<open>0x8000005000\<close>.\<close>

definition fork_pool :: phys where
  "fork_pool = pmm_free 0x1000 (pmm_free 0x2000 (pmm_free 0x3000 (pmm_free 0x4000 no_phys)))"

definition fork_space :: phys where
  "fork_space = set_entry 0xc000 5 (leaf_desc 0xd000 (VM_WRITE OR VM_USER))
    (set_entry 0xb000 0 (table_desc 0xc000) (set_entry 0xa000 0 (table_desc 0xb000)
      (set_entry 0x9000 1 (table_desc 0xa000) fork_pool)))"

lemma fork_pool_inv: "pmm_inv fork_pool [0x1000, 0x2000, 0x3000, 0x4000]"
proof -
  have "pmm_inv no_phys []" by (simp add: no_phys_def pmm_inv_def)
  then show ?thesis unfolding fork_pool_def by (intro pmm_free_gives) (simp_all add: IS_ALIGNED_def)
qed

lemma fork_pool_zero:
  assumes "t \<in> {0x9000, 0xa000, 0xb000, 0xc000}" and "j < 512"
  shows "entry (ph_mem fork_pool) t j = 0"
proof -
  let ?F = "{0x1000, 0x2000, 0x3000, 0x4000} :: u64 set"
  have f: "only_frames (ph_mem st) (ph_mem (pmm_free f st)) ?F" if "f \<in> ?F" for f st
    by (rule only_frames_mono [OF pmm_free_only]) (use that in \<open>auto simp: IS_ALIGNED_def\<close>)
  note tr = only_frames_trans [where F = ?F and G = ?F and H = ?F, OF _ _ order_refl order_refl]
  have "only_frames (ph_mem no_phys) (ph_mem fork_pool) ?F"
    unfolding fork_pool_def by (rule tr [OF tr [OF tr [OF f f] f] f]) simp_all
  then have "same_frames (ph_mem no_phys) (ph_mem fork_pool) {t}"
    by (rule only_same) (use assms(1) in \<open>auto simp: IS_ALIGNED_def\<close>)
  then have "entry (ph_mem fork_pool) t j = entry (ph_mem no_phys) t j" by (rule entry_same [OF _ assms(2)])
  also have "\<dots> = 0" by (simp add: entry_def no_phys_def load64_def load_bytes_def upt_rec)
  finally show ?thesis .
qed

lemma entry_store:
  assumes "IS_ALIGNED t PAGE_SIZE" and "IS_ALIGNED t' PAGE_SIZE" and "i < 512" and "j < 512"
  shows "entry (store64 m (entry_addr t i) d) t' j = (if t' = t \<and> j = i then d else entry m t' j)"
proof (cases "t' = t")
  case False
  have "same_frames m (store64 m (entry_addr t i) d) {t'}"
    using assms(1,2) False by (intro only_same [OF store_only [OF assms(3)]]) auto
  then show ?thesis using False by (simp add: entry_same [OF _ assms(4)])
qed (use assms in \<open>simp add: entry_store_same\<close>)

lemma fork_entries:
  assumes "j < 512"
  shows "entry (ph_mem fork_space) 0x9000 j = (if j = 1 then table_desc 0xa000 else 0)"
    and "entry (ph_mem fork_space) 0xa000 j = (if j = 0 then table_desc 0xb000 else 0)"
    and "entry (ph_mem fork_space) 0xb000 j = (if j = 0 then table_desc 0xc000 else 0)"
    and "entry (ph_mem fork_space) 0xc000 j = (if j = 5 then leaf_desc 0xd000 (VM_WRITE OR VM_USER) else 0)"
  using assms by (simp_all add: fork_space_def entry_store fork_pool_zero IS_ALIGNED_def)

lemma only_kid:
  assumes "i < 512" and "\<And>j. j < 512 \<Longrightarrow> j \<noteq> i \<Longrightarrow> entry m t j = 0"
  shows "frs k m t = t # kids k m t i"
proof -
  have "kids k m t j = []" if "j < 512" "j \<noteq> i" for j
    using assms(2) [OF that] by (intro kids_simps(1)) (simp add: pte_valid_def)
  then have none: "concat (map (kids k m t) xs) = []" if "set xs \<subseteq> {..<512} - {i}" for xs using that by auto
  have ix: "pt_indices = [0..<i] @ i # [Suc i..<512]"
    using assms(1) upt_add_eq_append [of 0 i "512 - i"] upt_conv_Cons [of i 512]
    by (simp add: pt_indices_def del: upt_rec_numeral)
  have "concat (map (kids k m t) [0..<i]) = []" by (rule none) (use assms(1) in auto)
  moreover have "concat (map (kids k m t) [Suc i..<512]) = []" by (rule none) auto
  ultimately show ?thesis unfolding frs_kids ix map_append concat_append list.map concat.simps by (simp only: append_Nil append_Nil2)
qed

lemma fork_frame_ok: "frame_ok 0xa000" "frame_ok 0xb000" "frame_ok 0xc000"
  by (simp_all add: frame_ok_def)

lemmas fork_descs = table_desc_bits [OF fork_frame_ok(1)] table_desc_bits [OF fork_frame_ok(2)] table_desc_bits [OF fork_frame_ok(3)]
  leaf_desc_bits leaf_desc_pa sub_desc_def

lemma fork_kids: "kids 3 (ph_mem fork_space) 0x9000 1 = [0xa000, 0xb000, 0xc000, 0xd000]"
proof -
  have "kids 0 (ph_mem fork_space) 0xc000 5 = [0xd000]" by (subst kids_simps(2)) (simp_all add: fork_entries fork_descs)
  then have "frs 0 (ph_mem fork_space) 0xc000 = [0xc000, 0xd000]" by (subst only_kid [of 5]) (simp_all add: fork_entries)
  then have "kids (Suc 0) (ph_mem fork_space) 0xb000 0 = [0xc000, 0xd000]"
    by (subst kids_simps(3)) (simp_all add: fork_entries fork_descs)
  then have "frs (Suc 0) (ph_mem fork_space) 0xb000 = [0xb000, 0xc000, 0xd000]" by (subst only_kid [of 0]) (simp_all add: fork_entries)
  then have "kids (Suc (Suc 0)) (ph_mem fork_space) 0xa000 0 = [0xb000, 0xc000, 0xd000]"
    by (subst kids_simps(3)) (simp_all add: fork_entries fork_descs)
  then have "frs (Suc (Suc 0)) (ph_mem fork_space) 0xa000 = [0xa000, 0xb000, 0xc000, 0xd000]"
    by (subst only_kid [of 0]) (simp_all add: fork_entries)
  then show ?thesis unfolding numeral_3_eq_3 by (subst kids_simps(3)) (simp_all add: fork_entries fork_descs)
qed

lemma fork_unblocked: "\<not> blocked 3 (ph_mem fork_space) 0x9000 1"
proof -
  have z: "\<not> pte_valid 0" by (simp add: pte_valid_def)
  have "\<not> blocked 0 (ph_mem fork_space) 0xc000 j" if "j < 512" for j using that z by (simp add: fork_entries fork_descs)
  then have "\<not> blocked (Suc 0) (ph_mem fork_space) 0xb000 j" if "j < 512" for j
    using that z by (auto simp: fork_entries fork_descs simp del: blocked.simps(1))
  then have "\<not> blocked (Suc (Suc 0)) (ph_mem fork_space) 0xa000 j" if "j < 512" for j
    using that z by (subst blocked.simps) (auto simp: fork_entries fork_descs simp del: blocked.simps)
  then show ?thesis unfolding numeral_3_eq_3
    using z by (subst blocked.simps) (auto simp: fork_entries fork_descs simp del: blocked.simps)
qed

lemma fork_pre: "copy_pre 3 [1..<min 2 PT_ENTRIES] 0x9000 0x6000 fork_space [0x1000, 0x2000, 0x3000, 0x4000]"
proof -
  have "pmm_inv fork_space [0x1000, 0x2000, 0x3000, 0x4000]"
    unfolding fork_space_def by (intro pmm_inv_set_entry fork_pool_inv) (simp_all add: IS_ALIGNED_def)
  moreover have "source_frames 3 [1..<min 2 PT_ENTRIES] 0x9000 (ph_mem fork_space) = {0x9000, 0xa000, 0xb000, 0xc000, 0xd000}"
    using fork_kids by (simp add: source_frames_def upt_rec)
  ultimately show ?thesis by (auto simp: copy_pre_def frame_ok_def IS_ALIGNED_def)
qed

lemma fork_copies: "\<exists>st'. vmm_copy_space 0x6000 0x9000 1 2 fork_space = (0, st')"
proof -
  obtain r st' where c: "vmm_copy_space 0x6000 0x9000 1 2 fork_space = (r, st')" by fastforce
  then have "copy_post 3 [1..<min 2 PT_ENTRIES] 0x9000 0x6000 fork_space [0x1000, 0x2000, 0x3000, 0x4000] r st'"
    by (intro copy_level_gives [OF order_refl fork_pre]) (simp add: vmm_copy_space_def copy_roots_level)
  moreover have "\<not> copy_cause 3 [1..<min 2 PT_ENTRIES] 0x9000 (ph_mem fork_space) [0x1000, 0x2000, 0x3000, 0x4000] r"
    using fork_kids fork_unblocked by (simp add: copy_cause_def upt_rec del: blocked.simps)
  ultimately show ?thesis using c by (auto simp: copy_post_def)
qed

text \<open>C7: \<open>vmm_copy_space\<close>, the copy that \<open>fork\<close> makes, is total and deep. On success every
  address of the copied range leads in the copy to a fresh page, one of the frames taken off
  the free list, at the same offset and with the same permissions (execution is kept for user
  pages), whose 4096 bytes are those of the source page; what is unmapped in the source is
  unmapped in the copy; and no byte changes outside the new root and the frames taken. It
  fails only when fewer frames are free than the source range owns, or at a block descriptor,
  and a failure changes nothing outside the new root and frames that were free.\<close>

theorem vmm_copy_space_is_deep:
  assumes "copy_pre 3 [lo..<min hi PT_ENTRIES] src dst st fs" and "vmm_copy_space dst src lo hi st = (r, st')"
  shows "if r = 0
    then \<exists>gs fs'. fs = gs @ fs' \<and> pmm_inv st' fs' \<and> only_frames (ph_mem st) (ph_mem st') (insert dst (set gs)) \<and>
      (\<forall>va. lo \<le> pt_idx 0 va \<and> pt_idx 0 va < hi \<longrightarrow>
        (case vmm_probe (ph_mem st) src va of
           None \<Rightarrow> vmm_probe (ph_mem st') dst va = None
         | Some (pa, fl) \<Rightarrow> \<exists>np\<in>set gs.
             vmm_probe (ph_mem st') dst va =
               Some (np OR (va AND 0xfff), if fl AND VM_USER \<noteq> 0 then fl else fl AND NOT VM_EXEC) \<and>
             load_bytes (ph_mem st') np 4096 = load_bytes (ph_mem st) (pa AND PT_ADDR_MASK) 4096))
    else copy_cause 3 [lo..<min hi PT_ENTRIES] src (ph_mem st) fs r \<and>
      (\<exists>fs'. pmm_inv st' fs' \<and> set fs' \<subseteq> set fs \<and> only_frames (ph_mem st) (ph_mem st') (insert dst (set fs)))"
proof -
  have post: "copy_post 3 [lo..<min hi PT_ENTRIES] src dst st fs r st'"
    using assms(2) by (intro copy_level_gives [OF order_refl assms(1)]) (simp add: vmm_copy_space_def copy_roots_level)
  show ?thesis
  proof (cases "r = 0")
    case True
    then obtain gs fs' where g: "fs = gs @ fs'" "pmm_inv st' fs'"
      "copied_ok 3 [lo..<min hi PT_ENTRIES] src dst (ph_mem st) gs (ph_mem st')"
      using post by (auto simp: copy_post_def dest: copy_cause_nonzero)
    have off: "(x OR (va AND 0xfff)) AND PT_ADDR_MASK = x AND PT_ADDR_MASK" for x va :: u64
      by (simp add: and_or_distrib and.assoc)
    have "case vmm_probe (ph_mem st) src va of
           None \<Rightarrow> vmm_probe (ph_mem st') dst va = None
         | Some (pa, fl) \<Rightarrow> \<exists>np\<in>set gs.
             vmm_probe (ph_mem st') dst va =
               Some (np OR (va AND 0xfff), if fl AND VM_USER \<noteq> 0 then fl else fl AND NOT VM_EXEC) \<and>
             load_bytes (ph_mem st') np 4096 = load_bytes (ph_mem st) (pa AND PT_ADDR_MASK) 4096"
      if va: "lo \<le> pt_idx 0 va \<and> pt_idx 0 va < hi" for va
    proof -
      have c: "copied (set gs) (ph_mem st) (ph_mem st') (look 3 (ph_mem st) src va) (look 3 (ph_mem st') dst va)"
        using g(3) va unfolding copied_ok_def by simp
      show ?thesis
      proof (cases "look 3 (ph_mem st) src va")
        case None
        then show ?thesis using c by (simp add: probe_look copied_def del: look.simps)
      next
        case (Some ld)
        obtain l d where ld: "ld = (l, d)" by fastforce
        then obtain np where np: "l = 3" "look 3 (ph_mem st') dst va = Some (3, leaf_desc np (vmm_decode_flags d))"
          "frame_ok np" "np \<in> set gs" "load_bytes (ph_mem st') np 4096 = load_bytes (ph_mem st) (d AND PT_ADDR_MASK) 4096"
          using c Some by (auto simp: copied_def)
        have "leaf_pa 3 (leaf_desc np (vmm_decode_flags d)) va = np OR (va AND 0xfff)"
          using leaf_desc_pa [of np] np(3) by (simp add: leaf_pa_def level_shift_def frame_ok_def)
        moreover have "leaf_pa 3 d va AND PT_ADDR_MASK = d AND PT_ADDR_MASK"
          unfolding leaf_pa_def by (simp add: level_shift_def off)
        ultimately show ?thesis
          using np Some ld decode_copied [OF np(3), of d] by (auto simp: probe_look simp del: look.simps intro!: bexI [of _ np])
      qed
    qed
    then show ?thesis
      unfolding if_P [OF True] using g copied_ok_def by (intro exI [of _ gs] exI [of _ fs']) blast
  next
    case False
    then show ?thesis using post by (simp add: copy_post_def)
  qed
qed

theorem vmm_copy_space_is_deep_witness:
  "\<exists>st' np. vmm_copy_space 0x6000 0x9000 1 2 fork_space = (0, st') \<and>
     vmm_probe (ph_mem st') 0x6000 0x8000005234 = Some (np OR 0x234, VM_READ OR VM_WRITE OR VM_USER) \<and>
     np \<in> {0x1000, 0x2000, 0x3000, 0x4000} \<and>
     load_bytes (ph_mem st') np 4096 = load_bytes (ph_mem fork_space) 0xd000 4096"
proof -
  obtain st' where c: "vmm_copy_space 0x6000 0x9000 1 2 fork_space = (0, st')" using fork_copies by blast
  have idx: "pt_idx 0 0x8000005234 = 1" "pt_idx (Suc 0) 0x8000005234 = 0" "pt_idx 2 0x8000005234 = 0" "pt_idx 3 0x8000005234 = 5"
    by (simp_all add: pt_idx_def level_shift_def)
  have "look 0 (ph_mem fork_space) 0xc000 0x8000005234 = Some (3, leaf_desc 0xd000 (VM_WRITE OR VM_USER))"
    by (simp add: idx fork_entries fork_descs)
  then have "look (Suc 0) (ph_mem fork_space) 0xb000 0x8000005234 = Some (3, leaf_desc 0xd000 (VM_WRITE OR VM_USER))"
    by (subst look.simps) (simp add: idx fork_entries fork_descs del: look.simps)
  then have "look (Suc (Suc 0)) (ph_mem fork_space) 0xa000 0x8000005234 = Some (3, leaf_desc 0xd000 (VM_WRITE OR VM_USER))"
    by (subst look.simps) (simp add: idx fork_entries fork_descs del: look.simps)
  then have "look 3 (ph_mem fork_space) 0x9000 0x8000005234 = Some (3, leaf_desc 0xd000 (VM_WRITE OR VM_USER))"
    unfolding numeral_3_eq_3 by (subst look.simps) (simp add: idx fork_entries fork_descs del: look.simps)
  moreover have "(0xd000 :: u64) AND PT_ADDR_MASK = 0xd000" by simp
  ultimately have p: "vmm_probe (ph_mem fork_space) 0x9000 0x8000005234 = Some (0xd234, VM_READ OR VM_WRITE OR VM_USER)"
    using leaf_desc_pa [of "0xd000" "VM_WRITE OR VM_USER"] decode_leaf [of "0xd000" "VM_WRITE OR VM_USER"]
    by (simp add: probe_look leaf_pa_def level_shift_def del: look.simps)
  obtain gs fs' where g: "[0x1000, 0x2000, 0x3000, 0x4000] = gs @ fs'"
    "\<forall>va. 1 \<le> pt_idx 0 va \<and> pt_idx 0 va < 2 \<longrightarrow>
        (case vmm_probe (ph_mem fork_space) 0x9000 va of
           None \<Rightarrow> vmm_probe (ph_mem st') 0x6000 va = None
         | Some (pa, fl) \<Rightarrow> \<exists>np\<in>set gs.
             vmm_probe (ph_mem st') 0x6000 va =
               Some (np OR (va AND 0xfff), if fl AND VM_USER \<noteq> 0 then fl else fl AND NOT VM_EXEC) \<and>
             load_bytes (ph_mem st') np 4096 = load_bytes (ph_mem fork_space) (pa AND PT_ADDR_MASK) 4096)"
    using vmm_copy_space_is_deep [OF fork_pre c] by auto
  have "set gs \<subseteq> {0x1000, 0x2000, 0x3000, 0x4000}" using arg_cong [OF g(1), of set] by auto
  then show ?thesis using c g(2) [THEN spec, of "0x8000005234"] p idx(1) by auto
qed

text \<open>C8: The copy of an address space and its release cancel out: after a successful
  \<open>vmm_copy_space\<close>, \<open>vmm_root_release\<close> of the copied range gives every frame that the copy took
  back to the free list, exactly once, so the free frames are those from before, and nothing is
  mapped in the range any more.\<close>

theorem copy_then_release_leaks_nothing:
  assumes "copy_pre 3 [lo..<min hi PT_ENTRIES] src dst st fs" and "0 < lo" and "dst \<noteq> 0"
    and "vmm_copy_space dst src lo hi st = (0, st1)"
  shows "\<exists>fs2. pmm_inv (vmm_root_release dst lo hi st1) fs2 \<and> set fs2 = set fs \<and> length fs2 = length fs \<and>
    (\<forall>va. lo \<le> pt_idx 0 va \<and> pt_idx 0 va < hi \<longrightarrow> vmm_probe (ph_mem (vmm_root_release dst lo hi st1)) dst va = None)"
proof -
  let ?is = "[lo..<min hi PT_ENTRIES]"
  have "copy_post 3 ?is src dst st fs 0 st1"
    using assms(4) by (intro copy_level_gives [OF order_refl assms(1)]) (simp add: vmm_copy_space_def copy_roots_level)
  then obtain gs fs' where g: "fs = gs @ fs'" "pmm_inv st1 fs'" "copied_ok 3 ?is src dst (ph_mem st) gs (ph_mem st1)"
    by (auto simp: copy_post_def dest: copy_cause_nonzero)
  have own: "set (concat (map (kids 3 (ph_mem st1) dst) ?is)) = set gs" "distinct (concat (map (kids 3 (ph_mem st1) dst) ?is))"
    using g(3) by (simp_all add: copied_ok_def)
  have fs: "distinct fs" "\<forall>f\<in>set fs. f \<noteq> 0" "dst \<notin> set fs" "IS_ALIGNED dst PAGE_SIZE"
    using assms(1) by (auto simp: copy_pre_def pmm_inv_def frame_ok_def)
  have "set (kids 3 (ph_mem st1) dst i) \<subseteq> set gs" if "i \<in> set ?is" for i using own(1) that by auto
  then have "releasable 3 ?is dst st1 fs'"
    using g fs own unfolding releasable_def by (auto simp: subset_iff)
  then have rel: "released ?is dst st1 fs' (concat (map (kids 3 (ph_mem st1) dst) ?is)) (vmm_root_release dst lo hi st1)"
    using release_loop_gives [of ?is dst st1 fs'] fs(3) g(1) assms(2) by (simp add: vmm_root_release_def)
  then obtain hs where hs: "set hs = set gs" "length hs = length (concat (map (kids 3 (ph_mem st1) dst) ?is))"
    "pmm_inv (vmm_root_release dst lo hi st1) (hs @ fs')"
    unfolding released_def own(1) by blast
  have "distinct gs" using fs(1) g(1) by simp
  then have "length gs = length (concat (map (kids 3 (ph_mem st1) dst) ?is))"
    using own by (metis distinct_card)
  with hs g(1) have "set (hs @ fs') = set fs \<and> length (hs @ fs') = length fs" by simp
  moreover have "vmm_probe (ph_mem (vmm_root_release dst lo hi st1)) dst va = None"
    if "lo \<le> pt_idx 0 va \<and> pt_idx 0 va < hi" for va
  proof -
    have "\<not> pte_valid (entry (ph_mem (vmm_root_release dst lo hi st1)) dst (pt_idx 0 va))"
      using rel that unfolding released_def by (auto split: if_splits)
    then show ?thesis using look_idx [of 3 va "pt_idx 0 va"] by (simp add: probe_look sub_desc_def del: look.simps)
  qed
  ultimately show ?thesis using hs(3) by blast
qed

theorem copy_then_release_leaks_nothing_witness:
  "\<exists>st1 fs2. vmm_copy_space 0x6000 0x9000 1 2 fork_space = (0, st1) \<and>
     pmm_inv (vmm_root_release 0x6000 1 2 st1) fs2 \<and> set fs2 = {0x1000, 0x2000, 0x3000, 0x4000} \<and> length fs2 = 4"
proof -
  obtain st1 where c: "vmm_copy_space 0x6000 0x9000 1 2 fork_space = (0, st1)" using fork_copies by blast
  show ?thesis using copy_then_release_leaks_nothing [OF fork_pre _ _ c] c by auto
qed

end
