(* ===== verification/Block.thy ===== *)
theory Block
  imports Prelude
begin

text \<open>
  The block layer (\<open>drivers/block.c\<close>): little-endian readers, the table-driven CRC-32, the
  device registry, the direct-mapped write-through sector cache, whole-sector transfers with
  bounced tails, and MBR/GPT partition discovery. A device is a record with its capacity,
  its largest transfer, its cache (\<open>None\<close> while it is not registered, when \<open>cache_for\<close> finds
  nothing) and the state of its driver; the driver's two functions \<open>rd\<close> and \<open>wr\<close> are
  arguments, as the function pointers of \<open>struct block_device\<close> are. A read returns a status
  and the bytes it stored at the start of the buffer, even when it fails half way. Loops that
  do not end are \<open>None\<close>.
\<close>

abbreviation BLK_SECTOR_SIZE :: nat where "BLK_SECTOR_SIZE \<equiv> 512"
abbreviation CACHE_ENTRIES :: nat where "CACHE_ENTRIES \<equiv> 16"
abbreviation PART_MAX :: nat where "PART_MAX \<equiv> 24"
abbreviation PART_NAME_MAX :: nat where "PART_NAME_MAX \<equiv> 36"
abbreviation BLK_DEV_MAX :: nat where "BLK_DEV_MAX \<equiv> 4"

type_synonym 'd reader = "u64 \<Rightarrow> nat \<Rightarrow> 'd \<Rightarrow> int \<times> u8 list \<times> 'd"
type_synonym 'd writer = "u64 \<Rightarrow> u8 list \<Rightarrow> nat \<Rightarrow> 'd \<Rightarrow> int \<times> 'd"

record partition =
  pt_is_gpt :: bool
  pt_is_extended :: bool
  pt_mbr_type :: u8
  pt_lba_start :: u64
  pt_lba_nsect :: u64
  pt_name :: string

record cache_line =
  cl_valid :: bool
  cl_lba :: u64
  cl_data :: "u8 list"

record 'd block_device =
  bd_name :: string
  bd_capacity :: u64
  bd_max :: nat
  bd_cache :: "cache_line list option"
  bd_parts :: "partition list"
  bd_dev :: 'd

section \<open>Little-endian readers\<close>

definition rd16 :: "u8 list \<Rightarrow> nat \<Rightarrow> u16" where
  "rd16 p i = ucast (p ! i) OR push_bit 8 (ucast (p ! (i + 1)))"

definition rd32 :: "u8 list \<Rightarrow> nat \<Rightarrow> u32" where
  "rd32 p i = ucast (p ! i) OR push_bit 8 (ucast (p ! (i + 1))) OR
     push_bit 16 (ucast (p ! (i + 2))) OR push_bit 24 (ucast (p ! (i + 3)))"

definition rd64 :: "u8 list \<Rightarrow> nat \<Rightarrow> u64" where
  "rd64 p i = ucast (rd32 p i) OR push_bit 32 (ucast (rd32 p (i + 4)))"

section \<open>CRC-32\<close>

abbreviation CRC_POLY :: u32 where "CRC_POLY \<equiv> 0xEDB88320"

fun crc_entry :: "nat \<Rightarrow> u32 \<Rightarrow> u32" where
  "crc_entry 0 c = c"
| "crc_entry (Suc k) c = crc_entry k (if c AND 1 \<noteq> 0 then CRC_POLY XOR drop_bit 1 c else drop_bit 1 c)"

definition crc_init :: "u32 list" where
  "crc_init = map (\<lambda>i. crc_entry 8 (of_nat i)) [0..<256]"

definition crc32_update :: "u32 \<Rightarrow> u8 list \<Rightarrow> u32" where
  "crc32_update crc bs =
    fold (\<lambda>b crc. crc_init ! unat ((crc XOR ucast b) AND 0xff) XOR drop_bit 8 crc) bs crc"

section \<open>Registry\<close>

text \<open>\<open>ok\<close> says that the name and both driver functions are not null. A registered device gets
  the cache of its place in the registry.\<close>

definition empty_cache :: "cache_line list" where
  "empty_cache = replicate CACHE_ENTRIES \<lparr>cl_valid = False, cl_lba = 0, cl_data = replicate BLK_SECTOR_SIZE 0\<rparr>"

definition block_register :: "bool \<Rightarrow> 'd block_device \<Rightarrow> 'd block_device list \<Rightarrow> int \<times> 'd block_device list" where
  "block_register ok bd reg =
    (if \<not> ok \<or> bd_max bd = 0 \<or> bd_capacity bd = 0 then (- 1, reg)
     else if BLK_DEV_MAX \<le> length reg then (- 1, reg)
     else (0, reg @ [bd\<lparr>bd_cache := Some empty_cache\<rparr>]))"

definition block_find :: "string option \<Rightarrow> 'd block_device list \<Rightarrow> 'd block_device option" where
  "block_find name reg = (case name of None \<Rightarrow> None | Some n \<Rightarrow> find (\<lambda>b. bd_name b = n) reg)"

definition block_first :: "'d block_device list \<Rightarrow> 'd block_device option" where
  "block_first reg = (case reg of [] \<Rightarrow> None | b # _ \<Rightarrow> Some b)"

definition block_at :: "nat \<Rightarrow> 'd block_device list \<Rightarrow> 'd block_device option" where
  "block_at idx reg = (if idx < length reg then Some (reg ! idx) else None)"

definition block_device_count :: "'d block_device list \<Rightarrow> nat" where
  "block_device_count reg = length reg"

section \<open>Sector cache\<close>

definition cache_index :: "u64 \<Rightarrow> nat" where
  "cache_index lba = unat lba mod CACHE_ENTRIES"

text \<open>A miss reads straight into the line of the victim; the line's tag changes only when the
  read succeeds.\<close>

definition cache_read_sector :: "'d reader \<Rightarrow> cache_line list \<Rightarrow> u64 \<Rightarrow> 'd block_device \<Rightarrow> int \<times> u8 list \<times> 'd block_device" where
  "cache_read_sector rd c lba bd =
    (let idx = cache_index lba; cl = c ! idx
     in if cl_valid cl \<and> cl_lba cl = lba then (0, cl_data cl, bd)
        else
          let (r, bytes, dev) = rd lba 1 (bd_dev bd);
              dat = bytes @ drop (length bytes) (cl_data cl);
              cl' = (if r = 0 then \<lparr>cl_valid = True, cl_lba = lba, cl_data = dat\<rparr> else cl\<lparr>cl_data := dat\<rparr>)
          in (r, dat, bd\<lparr>bd_dev := dev, bd_cache := Some (c[idx := cl'])\<rparr>))"

definition cache_fill_write :: "u64 \<Rightarrow> u8 list \<Rightarrow> cache_line list \<Rightarrow> cache_line list" where
  "cache_fill_write lba dat c = c[cache_index lba := \<lparr>cl_valid = True, cl_lba = lba, cl_data = dat\<rparr>]"

section \<open>Transfers\<close>

partial_function (option) submit_read ::
  "'d reader \<Rightarrow> 'd block_device \<Rightarrow> u64 \<Rightarrow> nat \<Rightarrow> u8 list \<Rightarrow> (int \<times> u8 list \<times> 'd block_device) option" where
  "submit_read rd bd cur left buf =
    (if left = 0 then Some (0, buf, bd)
     else
       let chunk = (if left < bd_max bd then left else bd_max bd)
       in if chunk = 1 \<and> bd_cache bd \<noteq> None
          then
            let (rc, dat, bd1) = cache_read_sector rd (the (bd_cache bd)) cur bd
            in if rc = 0 then submit_read rd bd1 (cur + 1) (left - 1) (buf @ dat) else Some (rc, buf, bd1)
          else
            let (rc, bytes, dev) = rd cur chunk (bd_dev bd);
                bd1 = bd\<lparr>bd_dev := dev\<rparr>
            in if rc \<noteq> 0 then Some (rc, buf, bd1)
               else submit_read rd bd1 (cur + of_nat chunk) (left - chunk) (buf @ bytes))"

fun fill_writes :: "u64 \<Rightarrow> nat \<Rightarrow> u8 list \<Rightarrow> cache_line list \<Rightarrow> cache_line list" where
  "fill_writes cur 0 buf c = c"
| "fill_writes cur (Suc n) buf c =
    fill_writes (cur + 1) n (drop BLK_SECTOR_SIZE buf) (cache_fill_write cur (take BLK_SECTOR_SIZE buf) c)"

partial_function (option) submit_write ::
  "'d writer \<Rightarrow> 'd block_device \<Rightarrow> u64 \<Rightarrow> nat \<Rightarrow> u8 list \<Rightarrow> (int \<times> 'd block_device) option" where
  "submit_write wr bd cur left buf =
    (if left = 0 then Some (0, bd)
     else
       let chunk = (if left < bd_max bd then left else bd_max bd);
           (rc, dev) = wr cur (take (chunk * BLK_SECTOR_SIZE) buf) chunk (bd_dev bd);
           bd1 = bd\<lparr>bd_dev := dev\<rparr>
       in if rc \<noteq> 0 then Some (rc, bd1)
          else submit_write wr (bd1\<lparr>bd_cache := map_option (fill_writes cur chunk buf) (bd_cache bd1)\<rparr>)
                 (cur + of_nat chunk) (left - chunk) (drop (chunk * BLK_SECTOR_SIZE) buf))"

text \<open>One request: the data of a read or the data to write, the status and the device.\<close>

record blk_request =
  rq_lba :: u64
  rq_nsect :: nat
  rq_buf :: "u8 list"
  rq_write :: bool

definition block_submit ::
  "'d reader \<Rightarrow> 'd writer \<Rightarrow> blk_request \<Rightarrow> 'd block_device \<Rightarrow> (int \<times> u8 list \<times> 'd block_device) option" where
  "block_submit rd wr req bd =
    (if rq_write req
     then map_option (\<lambda>(rc, bd'). (rc, rq_buf req, bd')) (submit_write wr bd (rq_lba req) (rq_nsect req) (rq_buf req))
     else submit_read rd bd (rq_lba req) (rq_nsect req) [])"

text \<open>\<open>bd\<close> is not null; the range check adds modulo \<open>2\<^sup>6\<^sup>4\<close>.\<close>

definition block_read ::
  "'d reader \<Rightarrow> 'd writer \<Rightarrow> u64 \<Rightarrow> nat \<Rightarrow> 'd block_device \<Rightarrow> (int \<times> u8 list \<times> 'd block_device) option" where
  "block_read rd wr lba bytes bd =
    (let whole = bytes div BLK_SECTOR_SIZE; tail = bytes mod BLK_SECTOR_SIZE;
         sect = whole + (if tail \<noteq> 0 then 1 else 0)
     in if bytes = 0 then Some (- 1, [], bd)
        else if lba + of_nat sect > bd_capacity bd then Some (- 1, [], bd)
        else
          case (if whole \<noteq> 0 then block_submit rd wr \<lparr>rq_lba = lba, rq_nsect = whole, rq_buf = [], rq_write = False\<rparr> bd
                else Some (0, [], bd)) of
            None \<Rightarrow> None
          | Some (rc, buf, bd1) \<Rightarrow>
              if rc \<noteq> 0 then Some (- 1, buf, bd1)
              else if tail = 0 then Some (0, buf, bd1)
              else
                (case block_submit rd wr \<lparr>rq_lba = lba + of_nat whole, rq_nsect = 1, rq_buf = [], rq_write = False\<rparr> bd1 of
                   None \<Rightarrow> None
                 | Some (rc2, sec, bd2) \<Rightarrow>
                     if rc2 \<noteq> 0 then Some (- 1, buf, bd2) else Some (0, buf @ take tail sec, bd2)))"

definition block_write ::
  "'d reader \<Rightarrow> 'd writer \<Rightarrow> u64 \<Rightarrow> u8 list \<Rightarrow> 'd block_device \<Rightarrow> (int \<times> 'd block_device) option" where
  "block_write rd wr lba buf bd =
    (let bytes = length buf; whole = bytes div BLK_SECTOR_SIZE; tail = bytes mod BLK_SECTOR_SIZE;
         sect = whole + (if tail \<noteq> 0 then 1 else 0)
     in if bytes = 0 then Some (- 1, bd)
        else if lba + of_nat sect > bd_capacity bd then Some (- 1, bd)
        else
          case (if whole \<noteq> 0
                then block_submit rd wr \<lparr>rq_lba = lba, rq_nsect = whole, rq_buf = take (whole * BLK_SECTOR_SIZE) buf, rq_write = True\<rparr> bd
                else Some (0, [], bd)) of
            None \<Rightarrow> None
          | Some (rc, _, bd1) \<Rightarrow>
              if rc \<noteq> 0 then Some (- 1, bd1)
              else if tail = 0 then Some (0, bd1)
              else
                let sec = drop (whole * BLK_SECTOR_SIZE) buf @ replicate (BLK_SECTOR_SIZE - tail) 0
                in (case block_submit rd wr \<lparr>rq_lba = lba + of_nat whole, rq_nsect = 1, rq_buf = sec, rq_write = True\<rparr> bd1 of
                      None \<Rightarrow> None
                    | Some (rc2, _, bd2) \<Rightarrow> if rc2 \<noteq> 0 then Some (- 1, bd2) else Some (0, bd2)))"

section \<open>MBR\<close>

abbreviation MBR_SIG_OFF :: nat where "MBR_SIG_OFF \<equiv> 510"
abbreviation MBR_TABLE_OFF :: nat where "MBR_TABLE_OFF \<equiv> 446"
abbreviation MBR_ENT_SIZE :: nat where "MBR_ENT_SIZE \<equiv> 16"

definition ent_is_extended :: "u8 \<Rightarrow> bool" where
  "ent_is_extended t \<longleftrightarrow> t = 0x05 \<or> t = 0x0f \<or> t = 0x85"

definition mbr_signature_ok :: "u8 list \<Rightarrow> bool" where
  "mbr_signature_ok sec \<longleftrightarrow> sec ! MBR_SIG_OFF = 0x55 \<and> sec ! (MBR_SIG_OFF + 1) = 0xaa"

fun mbr_entries :: "u8 list \<Rightarrow> u64 \<Rightarrow> bool \<Rightarrow> nat list \<Rightarrow> u64 \<Rightarrow> partition list \<Rightarrow> u64 \<times> partition list" where
  "mbr_entries sec ext_base inside_ext [] link ps = (link, ps)"
| "mbr_entries sec ext_base inside_ext (i # is) link ps =
    (let e = MBR_TABLE_OFF + i * MBR_ENT_SIZE;
         typ = sec ! e;
         first = (ucast (rd32 sec (e + 8)) :: u64);
         total = (ucast (rd32 sec (e + 12)) :: u64)
     in if typ = 0 \<or> total = 0 then mbr_entries sec ext_base inside_ext is link ps
        else if ent_is_extended typ
        then mbr_entries sec ext_base inside_ext is (if inside_ext then link else ext_base + first) ps
        else if PART_MAX \<le> length ps then (link, ps)
        else mbr_entries sec ext_base inside_ext is link
               (ps @ [\<lparr>pt_is_gpt = False, pt_is_extended = False, pt_mbr_type = typ,
                       pt_lba_start = (if inside_ext then ext_base + first else first),
                       pt_lba_nsect = total, pt_name = ''''\<rparr>]))"

definition parse_mbr_sector :: "u8 list \<Rightarrow> u64 \<Rightarrow> bool \<Rightarrow> partition list \<Rightarrow> u64 \<times> partition list" where
  "parse_mbr_sector sec ext_base inside_ext ps =
    (if \<not> mbr_signature_ok sec then (0, ps)
     else mbr_entries sec ext_base inside_ext [0..<4] 0 ps)"

definition add_extended_marker :: "u64 \<Rightarrow> u64 \<Rightarrow> u8 \<Rightarrow> partition list \<Rightarrow> partition list" where
  "add_extended_marker start count typ ps =
    (if PART_MAX \<le> length ps then ps
     else ps @ [\<lparr>pt_is_gpt = False, pt_is_extended = True, pt_mbr_type = typ,
                 pt_lba_start = start, pt_lba_nsect = count, pt_name = ''''\<rparr>])"

definition find_extended :: "u8 list \<Rightarrow> u64 \<times> u64" where
  "find_extended sec =
    fold (\<lambda>i r. let e = MBR_TABLE_OFF + i * MBR_ENT_SIZE
                 in if ent_is_extended (sec ! e) \<and> rd32 sec (e + 12) \<noteq> 0
                    then (ucast (rd32 sec (e + 8)), ucast (rd32 sec (e + 12))) else r) [0..<4] (0, 0)"

text \<open>The walk along the extended boot records, at most 32 of them.\<close>

fun ebr_chain :: "'d reader \<Rightarrow> 'd writer \<Rightarrow> nat \<Rightarrow> u64 \<Rightarrow> u64 \<Rightarrow> 'd block_device \<Rightarrow> 'd block_device option" where
  "ebr_chain rd wr 0 ext_base ebr_lba bd = Some bd"
| "ebr_chain rd wr (Suc guard) ext_base ebr_lba bd =
    (if bd_capacity bd \<le> ebr_lba then Some bd
     else case block_read rd wr ebr_lba BLK_SECTOR_SIZE bd of
       None \<Rightarrow> None
     | Some (rc, sec, bd1) \<Rightarrow>
         if rc \<noteq> 0 then Some bd1
         else
           let (nxt, ps) = parse_mbr_sector sec ext_base True (bd_parts bd1);
               bd2 = bd1\<lparr>bd_parts := ps\<rparr>
           in if nxt = 0 \<or> nxt \<le> ebr_lba then Some bd2 else ebr_chain rd wr guard ext_base nxt bd2)"

definition scan_mbr :: "'d reader \<Rightarrow> 'd writer \<Rightarrow> 'd block_device \<Rightarrow> (nat \<times> 'd block_device) option" where
  "scan_mbr rd wr bd =
    (case block_read rd wr 0 BLK_SECTOR_SIZE bd of
       None \<Rightarrow> None
     | Some (rc, sec, bd1) \<Rightarrow>
         if rc \<noteq> 0 then Some (0, bd1)
         else if \<not> mbr_signature_ok sec then Some (0, bd1)
         else
           let (ext_base, ext_total) = find_extended sec;
               ps = snd (parse_mbr_sector sec 0 False (bd_parts bd1))
           in if ext_base = 0 then Some (length ps, bd1\<lparr>bd_parts := ps\<rparr>)
              else map_option (\<lambda>b. (length (bd_parts b), b))
                     (ebr_chain rd wr 32 ext_base ext_base
                       (bd1\<lparr>bd_parts := add_extended_marker ext_base ext_total 0x05 ps\<rparr>)))"

section \<open>GPT\<close>

abbreviation GPT_HDR_BYTES :: nat where "GPT_HDR_BYTES \<equiv> 92"

definition guid_zero :: "u8 list \<Rightarrow> nat \<Rightarrow> bool" where
  "guid_zero g off = list_all (\<lambda>i. g ! (off + i) = 0) [0..<16]"

text \<open>The label: at most \<open>maxch - 1\<close> of its 36 code units, anything but printable ASCII as a
  question mark.\<close>

fun name_chars :: "u8 list \<Rightarrow> nat \<Rightarrow> nat list \<Rightarrow> string" where
  "name_chars u off [] = ''''"
| "name_chars u off (i # is) =
    (let wc = rd16 u (off + 2 * i)
     in if wc = 0 then ''''
        else (if 0x20 \<le> wc \<and> wc < 0x7f then char_of (unat wc) else CHR ''?'') # name_chars u off is)"

definition gpt_name_decode :: "u8 list \<Rightarrow> nat \<Rightarrow> nat \<Rightarrow> string" where
  "gpt_name_decode utf16 off maxch = name_chars utf16 off [0..<min 36 (maxch - 1)]"

fun gpt_entries :: "u64 \<Rightarrow> u8 list \<Rightarrow> nat \<Rightarrow> nat list \<Rightarrow> nat \<Rightarrow> partition list \<Rightarrow> nat \<times> partition list" where
  "gpt_entries cap ents nentries [] eg ps = (eg, ps)"
| "gpt_entries cap ents nentries (off # offs) eg ps =
    (if nentries \<le> eg then (eg, ps)
     else if guid_zero ents off then gpt_entries cap ents nentries offs (eg + 1) ps
     else
       let first = rd64 ents (off + 32); lst = rd64 ents (off + 40)
       in if lst < first \<or> cap \<le> lst then gpt_entries cap ents nentries offs (eg + 1) ps
          else if PART_MAX \<le> length ps then (eg, ps)
          else gpt_entries cap ents nentries offs (eg + 1)
                 (ps @ [\<lparr>pt_is_gpt = True, pt_is_extended = False, pt_mbr_type = 0, pt_lba_start = first,
                         pt_lba_nsect = lst - first + 1, pt_name = gpt_name_decode ents (off + 56) PART_NAME_MAX\<rparr>]))"

function gpt_array :: "'d reader \<Rightarrow> 'd writer \<Rightarrow> u64 \<Rightarrow> nat \<Rightarrow> nat \<Rightarrow> nat \<Rightarrow> nat \<Rightarrow> u32 \<Rightarrow> nat \<Rightarrow> 'd block_device \<Rightarrow>
    (u32 \<times> 'd block_device) option" where
  "gpt_array rd wr entry_lba nentries esize tot consumed running eg bd =
    (if consumed < tot
     then
       let slot = entry_lba + of_nat (consumed div BLK_SECTOR_SIZE);
           tk = (if tot - consumed > BLK_SECTOR_SIZE then BLK_SECTOR_SIZE else tot - consumed)
       in if bd_capacity bd \<le> slot then Some (running, bd)
          else case block_read rd wr slot BLK_SECTOR_SIZE bd of
            None \<Rightarrow> None
          | Some (rc, ents, bd1) \<Rightarrow>
              if rc \<noteq> 0 then Some (running, bd1)
              else
                let (eg', ps) = gpt_entries (bd_capacity bd1) ents nentries (map (\<lambda>j. j * esize) [0..<tk div esize]) eg (bd_parts bd1)
                in gpt_array rd wr entry_lba nentries esize tot (consumed + tk)
                     (crc32_update running (take tk ents)) eg' (bd1\<lparr>bd_parts := ps\<rparr>)
     else Some (running, bd))"
  by pat_completeness auto
termination
  by (relation "measure (\<lambda>(rd, wr, e, n, es, tot, consumed, r, eg, bd). tot - consumed)") auto

declare gpt_array.simps [simp del]

definition scan_gpt :: "'d reader \<Rightarrow> 'd writer \<Rightarrow> 'd block_device \<Rightarrow> (nat \<times> 'd block_device) option" where
  "scan_gpt rd wr bd =
    (case block_read rd wr 1 BLK_SECTOR_SIZE bd of
       None \<Rightarrow> None
     | Some (rc, hdr, bd1) \<Rightarrow>
         if rc \<noteq> 0 then Some (0, bd1)
         else if rd64 hdr 0 \<noteq> 0x5452415020494645 then Some (0, bd1)
         else
           let stored = rd32 hdr 16;
               blank = hdr[16 := 0, 17 := 0, 18 := 0, 19 := 0];
               calc = NOT (crc32_update 0xffffffff (take GPT_HDR_BYTES blank));
               nentries = unat (rd32 hdr 80); esize = unat (rd32 hdr 84); entry_lba = rd64 hdr 72
           in if calc \<noteq> stored then Some (0, bd1)
              else if esize < 128 \<or> BLK_SECTOR_SIZE < esize \<or> nentries = 0 \<or> 128 < nentries then Some (0, bd1)
              else map_option (\<lambda>(r, b). (length (bd_parts b), b))
                     (gpt_array rd wr entry_lba nentries esize (nentries * esize) 0 0xffffffff 0 bd1))"

definition block_scan_partitions :: "'d reader \<Rightarrow> 'd writer \<Rightarrow> 'd block_device \<Rightarrow> (nat \<times> 'd block_device) option" where
  "block_scan_partitions rd wr bd =
    (case block_read rd wr 0 BLK_SECTOR_SIZE (bd\<lparr>bd_parts := []\<rparr>) of
       None \<Rightarrow> None
     | Some (rc, sec, bd1) \<Rightarrow>
         if rc = 0 \<and> mbr_signature_ok sec \<and>
            list_ex (\<lambda>i. sec ! (MBR_TABLE_OFF + i * MBR_ENT_SIZE) = 0xee) [0..<4]
         then scan_gpt rd wr bd1 else scan_mbr rd wr bd1)"

end
