(* ===== verification/Block_Props.thy ===== *)
theory Block_Props
  imports Block
begin

text \<open>
  The contract of a block driver, the coherence of the sector cache, and what the block layer
  promises over any driver that keeps the contract: it reads back what was written, of any
  length, through the cache or around it. The RAM disk of \<open>kernel/selftest_release.c\<close> keeps
  the contract.
\<close>

text \<open>The sectors that \<open>n\<close> bytes occupy, and the bytes padded with zeroes to whole sectors.\<close>

definition sectors :: "nat \<Rightarrow> nat" where
  "sectors n = n div BLK_SECTOR_SIZE + (if n mod BLK_SECTOR_SIZE \<noteq> 0 then 1 else 0)"

definition padded :: "u8 list \<Rightarrow> u8 list" where
  "padded buf = buf @ replicate (sectors (length buf) * BLK_SECTOR_SIZE - length buf) 0"

locale block_driver =
  fixes rd :: "'d reader"
    and wr :: "'d writer"
    and inv :: "'d \<Rightarrow> bool"
    and sec :: "'d \<Rightarrow> nat \<Rightarrow> u8 list"
    and cap :: nat
  assumes cap_small: "cap < 2 ^ 64"
    and sec_len: "inv d \<Longrightarrow> i < cap \<Longrightarrow> length (sec d i) = BLK_SECTOR_SIZE"
    and rd_ok: "inv d \<Longrightarrow> unat lba + n \<le> cap \<Longrightarrow> rd lba n d = (0, concat (map (sec d) [unat lba..<unat lba + n]), d)"
    and wr_ok: "inv d \<Longrightarrow> unat lba + n \<le> cap \<Longrightarrow> length bs = n * BLK_SECTOR_SIZE \<Longrightarrow>
      \<exists>d'. wr lba bs n d = (0, d') \<and> inv d' \<and>
        (\<forall>i. sec d' i = (if unat lba \<le> i \<and> i < unat lba + n
                          then take BLK_SECTOR_SIZE (drop ((i - unat lba) * BLK_SECTOR_SIZE) bs) else sec d i))"
begin

definition bytes_at :: "'d \<Rightarrow> nat \<Rightarrow> nat \<Rightarrow> u8 list" where
  "bytes_at d l n = concat (map (sec d) [l..<l + n])"

lemma bytes_at_append: "bytes_at d l (m + n) = bytes_at d l m @ bytes_at d (l + m) n"
proof -
  have "[l..<l + (m + n)] = [l..<l + m] @ [l + m..<l + m + n]"
    using upt_add_eq_append [of l "l + m" n] by (simp only: le_add1 simp_thms add.assoc)
  then show ?thesis by (simp add: bytes_at_def)
qed

lemma bytes_at_1: "bytes_at d l (Suc 0) = sec d l"
  by (simp add: bytes_at_def)

lemma length_bytes_at: "inv d \<Longrightarrow> l + n \<le> cap \<Longrightarrow> length (bytes_at d l n) = n * BLK_SECTOR_SIZE"
proof (induction n)
  case 0
  then show ?case by (simp add: bytes_at_def)
next
  case (Suc n)
  then show ?case using bytes_at_append [of d l n 1] by (simp add: bytes_at_1 sec_len)
qed

definition coherent :: "'d \<Rightarrow> cache_line list \<Rightarrow> bool" where
  "coherent d c \<longleftrightarrow> length c = CACHE_ENTRIES \<and>
     (\<forall>i < CACHE_ENTRIES. cl_valid (c ! i) \<longrightarrow>
        cache_index (cl_lba (c ! i)) = i \<and> unat (cl_lba (c ! i)) < cap \<and>
        cl_data (c ! i) = sec d (unat (cl_lba (c ! i)))) \<and>
     (\<forall>i < CACHE_ENTRIES. length (cl_data (c ! i)) = BLK_SECTOR_SIZE)"

definition dev_ok :: "'d block_device \<Rightarrow> bool" where
  "dev_ok bd \<longleftrightarrow> inv (bd_dev bd) \<and> 0 < bd_max bd \<and> unat (bd_capacity bd) = cap \<and>
     (\<forall>c. bd_cache bd = Some c \<longrightarrow> coherent (bd_dev bd) c)"

lemma cache_index_less [simp]: "cache_index lba < CACHE_ENTRIES"
  by (simp add: cache_index_def)

lemma coherent_set:
  assumes "coherent d c" and "unat lba < cap" and "dat = sec d (unat lba)" and "inv d"
  shows "coherent d (c[cache_index lba := \<lparr>cl_valid = True, cl_lba = lba, cl_data = dat\<rparr>])"
  using assms by (auto simp: coherent_def nth_list_update_if sec_len)

lemma cache_read_ok:
  assumes "dev_ok bd" and "bd_cache bd = Some c" and "unat lba < cap"
  shows "\<exists>bd'. cache_read_sector rd c lba bd = (0, sec (bd_dev bd) (unat lba), bd') \<and> dev_ok bd' \<and>
    bd_dev bd' = bd_dev bd \<and> bd_max bd' = bd_max bd \<and> bd_parts bd' = bd_parts bd"
proof (cases "cl_valid (c ! cache_index lba) \<and> cl_lba (c ! cache_index lba) = lba")
  case True
  with assms show ?thesis by (auto simp: cache_read_sector_def dev_ok_def coherent_def Let_def)
next
  case False
  have inv: "inv (bd_dev bd)" and co: "coherent (bd_dev bd) c" using assms(1,2) by (simp_all add: dev_ok_def)
  have r: "rd lba 1 (bd_dev bd) = (0, sec (bd_dev bd) (unat lba), bd_dev bd)"
    using rd_ok [OF inv, of lba 1] assms(3) by simp
  have dat: "sec (bd_dev bd) (unat lba) @ drop (length (sec (bd_dev bd) (unat lba))) (cl_data (c ! cache_index lba)) = sec (bd_dev bd) (unat lba)"
    using co sec_len [OF inv assms(3)] by (simp add: coherent_def)
  show ?thesis
    using False r dat coherent_set [OF co assms(3) refl inv] assms(1)
    unfolding cache_read_sector_def Let_def dev_ok_def if_not_P [OF False] by simp
qed

lemma submit_read_ok:
  assumes "dev_ok bd" and "unat cur + left \<le> cap"
  shows "\<exists>bd'. submit_read rd bd cur left buf = Some (0, buf @ bytes_at (bd_dev bd) (unat cur) left, bd') \<and>
    dev_ok bd' \<and> bd_dev bd' = bd_dev bd \<and> bd_max bd' = bd_max bd \<and> bd_parts bd' = bd_parts bd"
  using assms
proof (induction left arbitrary: bd cur buf rule: less_induct)
  case (less left)
  show ?case
  proof (cases "left = 0")
    case True
    with less.prems show ?thesis by (simp add: submit_read.simps bytes_at_def)
  next
    case False
    define chunk where "chunk = (if left < bd_max bd then left else bd_max bd)"
    have ch: "0 < chunk" "chunk \<le> left" using False less.prems(1) by (auto simp: chunk_def dev_ok_def)
    have cur: "unat (cur + of_nat chunk) = unat cur + chunk"
      by (rule unat_add_of_nat) (use ch less.prems(2) cap_small in simp)
    have "\<exists>bd1. submit_read rd bd cur left buf =
        submit_read rd bd1 (cur + of_nat chunk) (left - chunk) (buf @ bytes_at (bd_dev bd) (unat cur) chunk) \<and>
        dev_ok bd1 \<and> bd_dev bd1 = bd_dev bd \<and> bd_max bd1 = bd_max bd \<and> bd_parts bd1 = bd_parts bd"
    proof (cases "chunk = 1 \<and> bd_cache bd \<noteq> None")
      case True
      then obtain c where c: "bd_cache bd = Some c" by auto
      have "unat cur < cap" using less.prems(2) False by simp
      from cache_read_ok [OF less.prems(1) c this] obtain bd1 where
        b: "cache_read_sector rd c cur bd = (0, sec (bd_dev bd) (unat cur), bd1)" "dev_ok bd1"
          "bd_dev bd1 = bd_dev bd" "bd_max bd1 = bd_max bd" "bd_parts bd1 = bd_parts bd" by blast
      have "bytes_at (bd_dev bd) (unat cur) chunk = sec (bd_dev bd) (unat cur)" using True by (simp add: bytes_at_1)
      then show ?thesis
        using False True b c by (intro exI [of _ bd1]) (subst submit_read.simps, simp add: chunk_def [symmetric] Let_def)
    next
      case ne: False
      have r: "rd cur chunk (bd_dev bd) = (0, bytes_at (bd_dev bd) (unat cur) chunk, bd_dev bd)"
        using rd_ok [of "bd_dev bd" cur chunk] less.prems ch by (simp add: dev_ok_def bytes_at_def)
      have "submit_read rd bd cur left buf =
          submit_read rd (bd\<lparr>bd_dev := bd_dev bd\<rparr>) (cur + of_nat chunk) (left - chunk) (buf @ bytes_at (bd_dev bd) (unat cur) chunk)"
        using False r by (subst submit_read.simps) (simp only: chunk_def [symmetric] Let_def if_not_P [OF ne], simp)
      then show ?thesis using less.prems(1) by (intro exI [of _ bd]) simp
    qed
    then obtain bd1 where b1: "submit_read rd bd cur left buf =
        submit_read rd bd1 (cur + of_nat chunk) (left - chunk) (buf @ bytes_at (bd_dev bd) (unat cur) chunk)"
        "dev_ok bd1" "bd_dev bd1 = bd_dev bd" "bd_max bd1 = bd_max bd" "bd_parts bd1 = bd_parts bd" by blast
    have "left - chunk < left" and "unat (cur + of_nat chunk) + (left - chunk) \<le> cap" using ch cur less.prems(2) by simp_all
    from less.IH [OF this(1) b1(2) this(2), of "buf @ bytes_at (bd_dev bd) (unat cur) chunk"] b1 show ?thesis
      using bytes_at_append [of "bd_dev bd" "unat cur" chunk "left - chunk"] ch(2) by (simp add: cur)
  qed
qed

text \<open>Coherence outside a range of sectors that are being overwritten.\<close>

definition coherent_but :: "nat \<Rightarrow> nat \<Rightarrow> 'd \<Rightarrow> cache_line list \<Rightarrow> bool" where
  "coherent_but lo hi d c \<longleftrightarrow> length c = CACHE_ENTRIES \<and>
     (\<forall>i < CACHE_ENTRIES. cl_valid (c ! i) \<longrightarrow>
        cache_index (cl_lba (c ! i)) = i \<and> unat (cl_lba (c ! i)) < cap \<and>
        (lo \<le> unat (cl_lba (c ! i)) \<and> unat (cl_lba (c ! i)) < hi \<or> cl_data (c ! i) = sec d (unat (cl_lba (c ! i))))) \<and>
     (\<forall>i < CACHE_ENTRIES. length (cl_data (c ! i)) = BLK_SECTOR_SIZE)"

lemma coherent_but_empty: "coherent_but lo lo d c = coherent d c"
  by (auto simp: coherent_but_def coherent_def)

lemma coherent_but_fill:
  assumes "coherent_but (unat cur) hi d c" and "unat cur < cap" and "inv d"
  shows "coherent_but (Suc (unat cur)) hi d (cache_fill_write cur (sec d (unat cur)) c)"
  unfolding coherent_but_def
proof (intro conjI allI impI)
  let ?c = "cache_fill_write cur (sec d (unat cur)) c"
  have c: "?c ! i = (if cache_index cur = i then \<lparr>cl_valid = True, cl_lba = cur, cl_data = sec d (unat cur)\<rparr> else c ! i)"
    if "i < CACHE_ENTRIES" for i
    using assms(1) that by (simp add: cache_fill_write_def coherent_but_def nth_list_update_if)
  show "length ?c = CACHE_ENTRIES" using assms(1) by (simp add: cache_fill_write_def coherent_but_def)
  fix i assume i: "i < CACHE_ENTRIES"
  show "length (cl_data (?c ! i)) = BLK_SECTOR_SIZE"
    using assms i sec_len c [OF i] by (simp add: coherent_but_def)
  assume v: "cl_valid (?c ! i)"
  show "cache_index (cl_lba (?c ! i)) = i" "unat (cl_lba (?c ! i)) < cap"
    using assms i v c [OF i] by (auto simp: coherent_but_def split: if_splits)
  show "Suc (unat cur) \<le> unat (cl_lba (?c ! i)) \<and> unat (cl_lba (?c ! i)) < hi \<or>
      cl_data (?c ! i) = sec d (unat (cl_lba (?c ! i)))"
  proof (cases "cache_index cur = i")
    case False
    then have "cl_lba (c ! i) \<noteq> cur" using assms(1) i v c [OF i] by (auto simp: coherent_but_def)
    then have "unat (cl_lba (c ! i)) \<noteq> unat cur" by (simp add: word_unat_eq_iff)
    with False show ?thesis using assms(1) i v c [OF i] by (auto simp: coherent_but_def)
  qed (use c [OF i] in simp)
qed

lemma fill_writes_coherent:
  assumes "coherent_but (unat cur) (unat cur + n) d c" and "unat cur + n \<le> cap" and "inv d"
    and "\<And>i. i < n \<Longrightarrow> take BLK_SECTOR_SIZE (drop (i * BLK_SECTOR_SIZE) buf) = sec d (unat cur + i)"
  shows "coherent d (fill_writes cur n buf c)"
  using assms
proof (induction cur n buf c rule: fill_writes.induct)
  case (1 cur buf c)
  then show ?case by (simp add: coherent_but_empty)
next
  case (2 cur n buf c)
  have nx: "unat (cur + 1) = Suc (unat cur)"
    using unat_add_of_nat [of cur 1] "2.prems"(2) cap_small by simp
  have "take BLK_SECTOR_SIZE buf = sec d (unat cur)" using "2.prems"(4) [of 0] by simp
  moreover have "coherent_but (Suc (unat cur)) (unat cur + Suc n) d (cache_fill_write cur (sec d (unat cur)) c)"
    by (rule coherent_but_fill) (use "2.prems" in auto)
  moreover have "take BLK_SECTOR_SIZE (drop (i * BLK_SECTOR_SIZE) (drop BLK_SECTOR_SIZE buf)) = sec d (unat (cur + 1) + i)" if "i < n" for i
    using "2.prems"(4) [of "Suc i"] that nx by (simp add: add.commute)
  ultimately show ?case using "2.IH" "2.prems" nx by simp
qed

lemma submit_write_ok:
  assumes "dev_ok bd" and "unat cur + left \<le> cap" and "length buf = left * BLK_SECTOR_SIZE"
  shows "\<exists>bd'. submit_write wr bd cur left buf = Some (0, bd') \<and> dev_ok bd' \<and> bd_max bd' = bd_max bd \<and> bd_parts bd' = bd_parts bd \<and>
    (\<forall>i. sec (bd_dev bd') i = (if unat cur \<le> i \<and> i < unat cur + left
        then take BLK_SECTOR_SIZE (drop ((i - unat cur) * BLK_SECTOR_SIZE) buf) else sec (bd_dev bd) i))"
  using assms
proof (induction left arbitrary: bd cur buf rule: less_induct)
  case (less left)
  show ?case
  proof (cases "left = 0")
    case True
    with less.prems show ?thesis by (auto simp: submit_write.simps)
  next
    case False
    define chunk where "chunk = (if left < bd_max bd then left else bd_max bd)"
    have ch: "0 < chunk" "chunk \<le> left" using False less.prems(1) by (auto simp: chunk_def dev_ok_def)
    have cur: "unat (cur + of_nat chunk) = unat cur + chunk"
      by (rule unat_add_of_nat) (use ch less.prems(2) cap_small in simp)
    let ?bs = "take (chunk * BLK_SECTOR_SIZE) buf" and ?rest = "drop (chunk * BLK_SECTOR_SIZE) buf"
    have inv: "inv (bd_dev bd)" using less.prems(1) by (simp add: dev_ok_def)
    have bl: "length ?bs = chunk * BLK_SECTOR_SIZE" using less.prems(3) ch by simp
    obtain d' where d': "wr cur ?bs chunk (bd_dev bd) = (0, d')" "inv d'"
      "\<And>i. sec d' i = (if unat cur \<le> i \<and> i < unat cur + chunk then take BLK_SECTOR_SIZE (drop ((i - unat cur) * BLK_SECTOR_SIZE) ?bs)
          else sec (bd_dev bd) i)"
      using wr_ok [OF inv _ bl, of cur] less.prems(2) ch by auto
    have piece: "take BLK_SECTOR_SIZE (drop (i * BLK_SECTOR_SIZE) ?bs) = take BLK_SECTOR_SIZE (drop (i * BLK_SECTOR_SIZE) buf)" if "i < chunk" for i
    proof -
      have "i * BLK_SECTOR_SIZE + BLK_SECTOR_SIZE \<le> chunk * BLK_SECTOR_SIZE" using that by simp
      then show ?thesis by (simp add: drop_take min_def)
    qed
    let ?bd1 = "bd\<lparr>bd_dev := d', bd_cache := map_option (fill_writes cur chunk buf) (bd_cache bd)\<rparr>"
    have "coherent d' (fill_writes cur chunk buf c)" if c: "bd_cache bd = Some c" for c
    proof (rule fill_writes_coherent)
      have "coherent (bd_dev bd) c" using less.prems(1) c by (simp add: dev_ok_def)
      then show "coherent_but (unat cur) (unat cur + chunk) d' c" by (auto simp: coherent_but_def coherent_def d'(3))
      show "take BLK_SECTOR_SIZE (drop (i * BLK_SECTOR_SIZE) buf) = sec d' (unat cur + i)" if "i < chunk" for i
        using that piece [OF that] d'(3) [of "unat cur + i"] by simp
    qed (use less.prems(2) ch d'(2) in simp_all)
    then have ok1: "dev_ok ?bd1" using less.prems(1) d'(2) by (auto simp: dev_ok_def)
    have "left - chunk < left" "unat (cur + of_nat chunk) + (left - chunk) \<le> cap" "length ?rest = (left - chunk) * BLK_SECTOR_SIZE"
      using ch cur less.prems(2,3) by (simp_all add: diff_mult_distrib)
    from less.IH [OF this(1) ok1 this(2,3)] obtain bd' where
      b: "submit_write wr ?bd1 (cur + of_nat chunk) (left - chunk) ?rest = Some (0, bd')" "dev_ok bd'"
        "bd_max bd' = bd_max bd" "bd_parts bd' = bd_parts bd"
        "\<And>i. sec (bd_dev bd') i = (if unat cur + chunk \<le> i \<and> i < unat cur + chunk + (left - chunk)
          then take BLK_SECTOR_SIZE (drop ((i - (unat cur + chunk)) * BLK_SECTOR_SIZE) ?rest) else sec d' i)"
      unfolding cur by auto
    have "submit_write wr bd cur left buf = Some (0, bd')"
      using False d'(1) b(1) by (subst submit_write.simps) (simp add: chunk_def [symmetric] Let_def)
    moreover have "sec (bd_dev bd') i = (if unat cur \<le> i \<and> i < unat cur + left
        then take BLK_SECTOR_SIZE (drop ((i - unat cur) * BLK_SECTOR_SIZE) buf) else sec (bd_dev bd) i)" for i
    proof (cases "unat cur + chunk \<le> i \<and> i < unat cur + left")
      case True
      then have "(i - (unat cur + chunk)) * BLK_SECTOR_SIZE + chunk * BLK_SECTOR_SIZE = (i - unat cur) * BLK_SECTOR_SIZE"
        by (simp add: algebra_simps diff_mult_distrib)
      with True ch b(5) [of i] show ?thesis by simp
    next
      case outside: False
      then show ?thesis using b(5) [of i] d'(3) [of i] piece [of "i - unat cur"] ch by auto
    qed
    ultimately show ?thesis using b by blast
  qed
qed

lemma in_range:
  assumes "dev_ok bd" and "unat lba + k \<le> cap"
  shows "\<not> lba + of_nat k > bd_capacity bd" and "unat (lba + of_nat k) = unat lba + k"
proof -
  show u: "unat (lba + of_nat k) = unat lba + k" by (rule unat_add_of_nat) (use assms(2) cap_small in simp)
  show "\<not> lba + of_nat k > bd_capacity bd" using assms by (simp add: word_less_nat_alt u dev_ok_def)
qed

lemma block_read_ok:
  assumes ok: "dev_ok bd" and n: "0 < n" and fits: "unat lba + sectors n \<le> cap"
  shows "\<exists>bd'. block_read rd wr lba n bd = Some (0, take n (bytes_at (bd_dev bd) (unat lba) (sectors n)), bd') \<and>
    dev_ok bd' \<and> bd_dev bd' = bd_dev bd \<and> bd_parts bd' = bd_parts bd"
proof -
  let ?w = "n div BLK_SECTOR_SIZE" and ?t = "n mod BLK_SECTOR_SIZE"
  have inv: "inv (bd_dev bd)" using ok by (simp add: dev_ok_def)
  have w: "unat lba + ?w \<le> cap" using fits by (simp add: sectors_def)
  obtain bd1 where b1: "submit_read rd bd lba ?w [] = Some (0, bytes_at (bd_dev bd) (unat lba) ?w, bd1)" "dev_ok bd1"
    "bd_dev bd1 = bd_dev bd" "bd_parts bd1 = bd_parts bd"
    using submit_read_ok [OF ok w, of "[]"] by auto
  have z: "bytes_at (bd_dev bd) (unat lba) 0 = []" by (simp add: bytes_at_def)
  have first: "(if ?w \<noteq> 0 then block_submit rd wr \<lparr>rq_lba = lba, rq_nsect = ?w, rq_buf = [], rq_write = False\<rparr> bd else Some (0, [], bd)) =
      Some (0, bytes_at (bd_dev bd) (unat lba) ?w, if ?w \<noteq> 0 then bd1 else bd)"
    using b1(1) z by (simp add: block_submit_def)
  let ?bd = "if ?w \<noteq> 0 then bd1 else bd"
  have ok1: "dev_ok ?bd" "bd_dev ?bd = bd_dev bd" "bd_parts ?bd = bd_parts bd" using b1 ok by auto
  have lenw: "length (bytes_at (bd_dev bd) (unat lba) ?w) = ?w * BLK_SECTOR_SIZE" by (rule length_bytes_at [OF inv w])
  have n_eq: "?w * BLK_SECTOR_SIZE + ?t = n" by simp
  show ?thesis
  proof (cases "?t = 0")
    case True
    then have "take n (bytes_at (bd_dev bd) (unat lba) (sectors n)) = bytes_at (bd_dev bd) (unat lba) ?w"
      using lenw n_eq by (simp add: sectors_def)
    then show ?thesis
      using True n first in_range(1) [OF ok fits] ok1
      by (simp add: block_read_def Let_def sectors_def [symmetric]) (simp add: sectors_def)
  next
    case False
    then have s: "sectors n = ?w + 1" by (simp add: sectors_def)
    have u: "unat (lba + of_nat ?w) = unat lba + ?w" by (rule in_range(2) [OF ok w])
    obtain bd2 where b2: "submit_read rd ?bd (lba + of_nat ?w) 1 [] = Some (0, sec (bd_dev bd) (unat lba + ?w), bd2)"
      "dev_ok bd2" "bd_dev bd2 = bd_dev bd" "bd_parts bd2 = bd_parts bd"
      using submit_read_ok [OF ok1(1), of "lba + of_nat ?w" 1 "[]"] fits s u ok1 by (auto simp: bytes_at_1)
    have "take n (bytes_at (bd_dev bd) (unat lba) (sectors n)) =
        bytes_at (bd_dev bd) (unat lba) ?w @ take ?t (sec (bd_dev bd) (unat lba + ?w))"
      unfolding s bytes_at_append using lenw n_eq by (simp add: bytes_at_1 minus_div_mult_eq_mod)
    then show ?thesis
      using False n first b2 in_range(1) [OF ok fits]
      unfolding block_read_def Let_def sectors_def [symmetric] by (simp add: block_submit_def del: One_nat_def)
  qed
qed

lemma length_padded: "length (padded buf) = sectors (length buf) * BLK_SECTOR_SIZE"
proof -
  let ?n = "length buf"
  have "?n \<le> sectors ?n * BLK_SECTOR_SIZE"
    using div_mult_mod_eq [of ?n BLK_SECTOR_SIZE] mod_less_divisor [of BLK_SECTOR_SIZE ?n]
    by (auto simp: sectors_def algebra_simps)
  then show ?thesis by (simp add: padded_def)
qed

lemma bytes_at_sectors:
  assumes "\<And>i. i < k \<Longrightarrow> sec d (l + i) = take BLK_SECTOR_SIZE (drop (i * BLK_SECTOR_SIZE) p)"
  shows "bytes_at d l k = take (k * BLK_SECTOR_SIZE) p"
  using assms
proof (induction k)
  case 0
  then show ?case by (simp add: bytes_at_def)
next
  case (Suc k)
  then have "bytes_at d l k = take (k * BLK_SECTOR_SIZE) p" by simp
  moreover have "take (Suc k * BLK_SECTOR_SIZE) p = take (k * BLK_SECTOR_SIZE) p @ take BLK_SECTOR_SIZE (drop (k * BLK_SECTOR_SIZE) p)"
    by (simp add: take_add [symmetric] add.commute)
  ultimately show ?case using bytes_at_append [of d l k 1] Suc.prems [of k] by (simp add: bytes_at_1)
qed

lemma block_write_ok:
  assumes ok: "dev_ok bd" and n: "buf \<noteq> []" and fits: "unat lba + sectors (length buf) \<le> cap"
  shows "\<exists>bd'. block_write rd wr lba buf bd = Some (0, bd') \<and> dev_ok bd' \<and> bd_parts bd' = bd_parts bd \<and>
    (\<forall>i. sec (bd_dev bd') i = (if unat lba \<le> i \<and> i < unat lba + sectors (length buf)
        then take BLK_SECTOR_SIZE (drop ((i - unat lba) * BLK_SECTOR_SIZE) (padded buf)) else sec (bd_dev bd) i))"
proof -
  let ?n = "length buf" let ?w = "?n div BLK_SECTOR_SIZE" and ?t = "?n mod BLK_SECTOR_SIZE"
  let ?head = "take (?w * BLK_SECTOR_SIZE) buf"
  have w: "unat lba + ?w \<le> cap" using fits by (simp add: sectors_def)
  have hl: "length ?head = ?w * BLK_SECTOR_SIZE" by simp
  have n_eq: "?w * BLK_SECTOR_SIZE + ?t = ?n" by simp
  obtain bd1 where b1: "submit_write wr bd lba ?w ?head = Some (0, bd1)" "dev_ok bd1" "bd_parts bd1 = bd_parts bd"
    "\<And>i. sec (bd_dev bd1) i = (if unat lba \<le> i \<and> i < unat lba + ?w
        then take BLK_SECTOR_SIZE (drop ((i - unat lba) * BLK_SECTOR_SIZE) ?head) else sec (bd_dev bd) i)"
    using submit_write_ok [OF ok w hl] by auto
  let ?bd = "if ?w \<noteq> 0 then bd1 else bd"
  have first: "(if ?w \<noteq> 0 then block_submit rd wr \<lparr>rq_lba = lba, rq_nsect = ?w, rq_buf = ?head, rq_write = True\<rparr> bd else Some (0, [], bd)) =
      Some (0, if ?w \<noteq> 0 then ?head else [], ?bd)"
    using b1(1) by (simp add: block_submit_def)
  have ok1: "dev_ok ?bd" "bd_parts ?bd = bd_parts bd" using b1 ok by auto
  have sec1: "sec (bd_dev ?bd) i = (if unat lba \<le> i \<and> i < unat lba + ?w
        then take BLK_SECTOR_SIZE (drop ((i - unat lba) * BLK_SECTOR_SIZE) (padded buf)) else sec (bd_dev bd) i)" for i
  proof (cases "unat lba \<le> i \<and> i < unat lba + ?w")
    case True
    then have "Suc (i - unat lba) \<le> ?w" by arith
    then have "Suc (i - unat lba) * BLK_SECTOR_SIZE \<le> ?w * BLK_SECTOR_SIZE" by (rule mult_le_mono1)
    then have le: "(i - unat lba) * BLK_SECTOR_SIZE + BLK_SECTOR_SIZE \<le> ?w * BLK_SECTOR_SIZE" by simp
    then have "BLK_SECTOR_SIZE \<le> ?w * BLK_SECTOR_SIZE - (i - unat lba) * BLK_SECTOR_SIZE" by linarith
    then have "take BLK_SECTOR_SIZE (drop ((i - unat lba) * BLK_SECTOR_SIZE) ?head) = take BLK_SECTOR_SIZE (drop ((i - unat lba) * BLK_SECTOR_SIZE) buf)"
      by (simp only: drop_take take_take min_absorb1)
    moreover have "take BLK_SECTOR_SIZE (drop ((i - unat lba) * BLK_SECTOR_SIZE) (padded buf)) =
        take BLK_SECTOR_SIZE (drop ((i - unat lba) * BLK_SECTOR_SIZE) buf)"
      using le n_eq by (simp add: padded_def)
    ultimately show ?thesis using True b1(4) [of i] by auto
  qed (use b1(4) [of i] in auto)
  show ?thesis
  proof (cases "?t = 0")
    case True
    then show ?thesis
      using n first in_range(1) [OF ok fits] ok1 sec1
      unfolding block_write_def Let_def sectors_def [symmetric] by (simp add: sectors_def)
  next
    case False
    then have s: "sectors ?n = ?w + 1" by (simp add: sectors_def)
    define sc where "sc = drop (?w * BLK_SECTOR_SIZE) buf @ replicate (BLK_SECTOR_SIZE - ?t) 0"
    have u: "unat (lba + of_nat ?w) = unat lba + ?w" by (rule in_range(2) [OF ok w])
    have sl: "length sc = 1 * BLK_SECTOR_SIZE" using n_eq mod_less_divisor [of BLK_SECTOR_SIZE ?n] by (simp add: sc_def minus_div_mult_eq_mod)
    have "unat (lba + of_nat ?w) + 1 \<le> cap" using fits s u by simp
    from submit_write_ok [OF ok1(1) this sl] obtain bd2 where
      b2: "submit_write wr ?bd (lba + of_nat ?w) 1 sc = Some (0, bd2)" "dev_ok bd2" "bd_parts bd2 = bd_parts bd" and
      q: "\<And>i. sec (bd_dev bd2) i = (if unat lba + ?w \<le> i \<and> i < unat lba + ?w + 1
          then take BLK_SECTOR_SIZE (drop ((i - (unat lba + ?w)) * BLK_SECTOR_SIZE) sc) else sec (bd_dev ?bd) i)"
      unfolding u using ok1(2) by metis
    have secs: "sec (bd_dev bd2) i = (if i = unat lba + ?w then sc else sec (bd_dev ?bd) i)" for i
    proof (cases "i = unat lba + ?w")
      case True
      then show ?thesis using q [of i] sl by simp
    next
      case False
      then have "\<not> (unat lba + ?w \<le> i \<and> i < unat lba + ?w + 1)" by linarith
      with False show ?thesis using q [of i] by (simp only: if_False)
    qed
    have "sectors ?n * BLK_SECTOR_SIZE = ?w * BLK_SECTOR_SIZE + BLK_SECTOR_SIZE" using s by simp
    then have pad: "sectors ?n * BLK_SECTOR_SIZE - ?n = BLK_SECTOR_SIZE - ?t" using n_eq by linarith
    have "drop (?w * BLK_SECTOR_SIZE) (padded buf) = sc" unfolding padded_def pad sc_def using n_eq by simp
    then have last: "take BLK_SECTOR_SIZE (drop (?w * BLK_SECTOR_SIZE) (padded buf)) = sc" using sl by simp
    have "block_write rd wr lba buf bd = Some (0, bd2)"
      using False n first b2(1) in_range(1) [OF ok fits]
      unfolding block_write_def Let_def sectors_def [symmetric] by (simp add: block_submit_def sc_def [symmetric] del: One_nat_def)
    moreover have "sec (bd_dev bd2) i = (if unat lba \<le> i \<and> i < unat lba + sectors ?n
        then take BLK_SECTOR_SIZE (drop ((i - unat lba) * BLK_SECTOR_SIZE) (padded buf)) else sec (bd_dev bd) i)" for i
      using secs [of i] sec1 [of i] last s by auto
    ultimately show ?thesis using b2 by blast
  qed
qed

lemma write_then_read_bytes:
  assumes ok: "dev_ok bd" and n: "buf \<noteq> []" and fits: "unat lba + sectors (length buf) \<le> cap"
  shows "\<exists>bd1. block_write rd wr lba buf bd = Some (0, bd1) \<and> dev_ok bd1 \<and>
    take (length buf) (bytes_at (bd_dev bd1) (unat lba) (sectors (length buf))) = buf"
proof -
  let ?k = "sectors (length buf)"
  obtain bd1 where b1: "block_write rd wr lba buf bd = Some (0, bd1)" "dev_ok bd1"
    "\<And>i. sec (bd_dev bd1) i = (if unat lba \<le> i \<and> i < unat lba + ?k
        then take BLK_SECTOR_SIZE (drop ((i - unat lba) * BLK_SECTOR_SIZE) (padded buf)) else sec (bd_dev bd) i)"
    using block_write_ok [OF assms] by blast
  have "bytes_at (bd_dev bd1) (unat lba) ?k = take (?k * BLK_SECTOR_SIZE) (padded buf)"
    by (rule bytes_at_sectors) (simp add: b1(3))
  then have "take (length buf) (bytes_at (bd_dev bd1) (unat lba) ?k) = buf"
    using length_padded [of buf] by (simp add: padded_def)
  with b1 show ?thesis by blast
qed

lemma write_then_read:
  assumes ok: "dev_ok bd" and n: "buf \<noteq> []" and fits: "unat lba + sectors (length buf) \<le> cap"
  shows "\<exists>bd1 bd2. block_write rd wr lba buf bd = Some (0, bd1) \<and> block_read rd wr lba (length buf) bd1 = Some (0, buf, bd2)"
  using write_then_read_bytes [OF assms] block_read_ok [of _ "length buf" lba] n fits by fastforce

end

section \<open>The RAM disk\<close>

definition rd_read :: "u64 \<Rightarrow> nat \<Rightarrow> u8 list \<Rightarrow> int \<times> u8 list \<times> u8 list" where
  "rd_read lba nsect st =
    (if lba + of_nat nsect > 64 then (- 1, [], st)
     else (0, take (nsect * BLK_SECTOR_SIZE) (drop (unat lba * BLK_SECTOR_SIZE) st), st))"

definition rd_write :: "u64 \<Rightarrow> u8 list \<Rightarrow> nat \<Rightarrow> u8 list \<Rightarrow> int \<times> u8 list" where
  "rd_write lba buf nsect st =
    (if lba + of_nat nsect > 64 then (- 1, st)
     else (0, take (unat lba * BLK_SECTOR_SIZE) st @ take (nsect * BLK_SECTOR_SIZE) buf @
              drop ((unat lba + nsect) * BLK_SECTOR_SIZE) st))"

definition rd_dev :: "u8 list \<Rightarrow> u8 list block_device" where
  "rd_dev st = \<lparr>bd_name = ''abtest'', bd_capacity = 64, bd_max = 32, bd_cache = None, bd_parts = [], bd_dev = st\<rparr>"

definition disk_sector :: "u8 list \<Rightarrow> nat \<Rightarrow> u8 list" where
  "disk_sector st i = take BLK_SECTOR_SIZE (drop (i * BLK_SECTOR_SIZE) st)"

lemma concat_disk_sectors:
  "concat (map (disk_sector st) [l..<l + n]) = take (n * BLK_SECTOR_SIZE) (drop (l * BLK_SECTOR_SIZE) st)"
proof (induction n)
  case (Suc n)
  have "Suc n * BLK_SECTOR_SIZE = n * BLK_SECTOR_SIZE + BLK_SECTOR_SIZE" by simp
  then have "take (Suc n * BLK_SECTOR_SIZE) (drop (l * BLK_SECTOR_SIZE) st) =
      take (n * BLK_SECTOR_SIZE) (drop (l * BLK_SECTOR_SIZE) st) @ take BLK_SECTOR_SIZE (drop (n * BLK_SECTOR_SIZE) (drop (l * BLK_SECTOR_SIZE) st))"
    by (simp only: take_add)
  moreover have "disk_sector st (l + n) = take BLK_SECTOR_SIZE (drop (n * BLK_SECTOR_SIZE) (drop (l * BLK_SECTOR_SIZE) st))"
    by (simp add: disk_sector_def algebra_simps)
  ultimately show ?case using Suc by simp
qed simp

lemma take_drop_sector:
  assumes "Suc i \<le> k"
  shows "take BLK_SECTOR_SIZE (drop (i * BLK_SECTOR_SIZE) (take (k * BLK_SECTOR_SIZE) xs)) = take BLK_SECTOR_SIZE (drop (i * BLK_SECTOR_SIZE) xs)"
proof -
  have "Suc i * BLK_SECTOR_SIZE \<le> k * BLK_SECTOR_SIZE" using assms by (rule mult_le_mono1)
  then have "BLK_SECTOR_SIZE \<le> k * BLK_SECTOR_SIZE - i * BLK_SECTOR_SIZE" by simp
  then show ?thesis by (simp only: drop_take take_take min_absorb1)
qed

lemma rd_write_sectors:
  assumes "length st = 64 * BLK_SECTOR_SIZE" and "l + n \<le> 64" and "length bs = n * BLK_SECTOR_SIZE"
  defines "st' \<equiv> take (l * BLK_SECTOR_SIZE) st @ bs @ drop ((l + n) * BLK_SECTOR_SIZE) st"
  shows "length st' = 64 * BLK_SECTOR_SIZE"
    and "disk_sector st' i = (if l \<le> i \<and> i < l + n then take BLK_SECTOR_SIZE (drop ((i - l) * BLK_SECTOR_SIZE) bs) else disk_sector st i)"
proof -
  have ln: "(l + n) * BLK_SECTOR_SIZE \<le> 64 * BLK_SECTOR_SIZE" using assms(2) by (rule mult_le_mono1)
  then have len1: "length (take (l * BLK_SECTOR_SIZE) st) = l * BLK_SECTOR_SIZE" using assms(1) by (simp add: algebra_simps)
  show "length st' = 64 * BLK_SECTOR_SIZE" using assms(1,3) len1 ln by (simp add: st'_def algebra_simps)
  consider "i < l" | "l \<le> i" "i < l + n" | "l + n \<le> i" by linarith
  then show "disk_sector st' i = (if l \<le> i \<and> i < l + n then take BLK_SECTOR_SIZE (drop ((i - l) * BLK_SECTOR_SIZE) bs) else disk_sector st i)"
  proof cases
    case 1
    then have "Suc i * BLK_SECTOR_SIZE \<le> l * BLK_SECTOR_SIZE" by (intro mult_le_mono1) simp
    then have "disk_sector st' i = disk_sector (take (l * BLK_SECTOR_SIZE) st) i"
      using len1 by (simp add: disk_sector_def st'_def del: length_take)
    also have "\<dots> = disk_sector st i" unfolding disk_sector_def by (rule take_drop_sector) (use 1 in simp)
    finally show ?thesis using 1 by simp
  next
    case 2
    then obtain j where j: "i = l + j" "j < n" using le_Suc_ex by fastforce
    have "Suc j * BLK_SECTOR_SIZE \<le> n * BLK_SECTOR_SIZE" using j(2) by (intro mult_le_mono1) simp
    then have "disk_sector st' i = take BLK_SECTOR_SIZE (drop (j * BLK_SECTOR_SIZE) bs)"
      using len1 assms(3) by (simp add: disk_sector_def st'_def j(1) algebra_simps del: length_take)
    with 2 j(1) show ?thesis by simp
  next
    case 3
    then obtain j where j: "i = l + n + j" using le_Suc_ex by blast
    have "disk_sector st' i = take BLK_SECTOR_SIZE (drop (j * BLK_SECTOR_SIZE) (drop ((l + n) * BLK_SECTOR_SIZE) st))"
      using len1 assms(3) by (simp add: disk_sector_def st'_def j algebra_simps del: length_take)
    also have "\<dots> = disk_sector st i" by (simp add: disk_sector_def j algebra_simps)
    finally show ?thesis using 3 by simp
  qed
qed

interpretation ramdisk: block_driver rd_read rd_write "\<lambda>st. length st = 64 * BLK_SECTOR_SIZE" disk_sector 64
proof
  fix st :: "u8 list" and lba :: u64 and n :: nat assume st: "length st = 64 * BLK_SECTOR_SIZE"
  show "length (disk_sector st i) = BLK_SECTOR_SIZE" if "i < 64" for i
    using st that by (simp add: disk_sector_def)
  assume fits: "unat lba + n \<le> 64"
  then have "unat (lba + of_nat n) = unat lba + n" by (intro unat_add_of_nat) simp
  then have in64: "\<not> lba + of_nat n > 64" using fits by (simp add: word_less_nat_alt)
  show "rd_read lba n st = (0, concat (map (disk_sector st) [unat lba..<unat lba + n]), st)"
    using in64 by (simp add: rd_read_def concat_disk_sectors)
  fix bs :: "u8 list" assume bs: "length bs = n * BLK_SECTOR_SIZE"
  show "\<exists>d'. rd_write lba bs n st = (0, d') \<and> length d' = 64 * BLK_SECTOR_SIZE \<and>
      (\<forall>i. disk_sector d' i = (if unat lba \<le> i \<and> i < unat lba + n
        then take BLK_SECTOR_SIZE (drop ((i - unat lba) * BLK_SECTOR_SIZE) bs) else disk_sector st i))"
  proof -
    let ?d = "take (unat lba * BLK_SECTOR_SIZE) st @ bs @ drop ((unat lba + n) * BLK_SECTOR_SIZE) st"
    have "rd_write lba bs n st = (0, ?d)" using in64 bs by (simp add: rd_write_def)
    then show ?thesis using rd_write_sectors [OF st fits bs] by blast
  qed
qed simp

section \<open>Properties of transfers\<close>

text \<open>C32: Over any driver that keeps the driver contract, on a device whose cache agrees with the
  disk, the block layer reads back exactly what it wrote, for every length and every position
  inside the capacity, whatever mixture of cached single sectors, chunked runs and bounced
  partial sectors the two transfers use.\<close>

theorem block_write_then_read:
  fixes rd :: "'d reader" and wr :: "'d writer" and dinv :: "'d \<Rightarrow> bool" and dsec :: "'d \<Rightarrow> nat \<Rightarrow> u8 list"
  assumes "block_driver rd wr dinv dsec cap" and "block_driver.dev_ok dinv dsec cap bd" and "buf \<noteq> []"
    and "unat lba + sectors (length buf) \<le> cap"
  shows "\<exists>bd1 bd2. block_write rd wr lba buf bd = Some (0, bd1) \<and>
    block_read rd wr lba (length buf) bd1 = Some (0, buf, bd2)"
  by (rule block_driver.write_then_read [OF assms])

definition ram_dev :: "u8 list block_device" where
  "ram_dev = hd (snd (block_register True (rd_dev (replicate (64 * BLK_SECTOR_SIZE) 0)) []))"

lemma ram_dev_ok: "ramdisk.dev_ok ram_dev"
  unfolding ramdisk.dev_ok_def ramdisk.coherent_def
  by (simp add: ram_dev_def block_register_def rd_dev_def empty_cache_def)

theorem block_write_then_read_witness:
  "\<exists>bd1 bd2. block_write rd_read rd_write 8 (replicate 700 7) ram_dev = Some (0, bd1) \<and>
     block_read rd_read rd_write 8 700 bd1 = Some (0, replicate 700 7, bd2)"
  using block_write_then_read [OF ramdisk.block_driver_axioms ram_dev_ok, of "replicate 700 7" 8]
  by (simp add: sectors_def)

text \<open>A read through the block layer returns the bytes of the disk: on a device whose cache
  agrees with the disk, \<open>block_read\<close> of \<open>n\<close> bytes gives the first \<open>n\<close> bytes of the sectors
  from there on, leaves the disk alone and keeps the cache in agreement with it.\<close>

theorem block_read_gives_disk:
  fixes rd :: "'d reader" and wr :: "'d writer" and dinv :: "'d \<Rightarrow> bool" and dsec :: "'d \<Rightarrow> nat \<Rightarrow> u8 list"
  assumes "block_driver rd wr dinv dsec cap" and "block_driver.dev_ok dinv dsec cap bd" and "0 < n"
    and "unat lba + sectors n \<le> cap"
  shows "\<exists>bd'. block_read rd wr lba n bd =
      Some (0, take n (concat (map (dsec (bd_dev bd)) [unat lba..<unat lba + sectors n])), bd') \<and>
    block_driver.dev_ok dinv dsec cap bd' \<and> bd_dev bd' = bd_dev bd"
  using block_driver.block_read_ok [OF assms] unfolding block_driver.bytes_at_def [OF assms(1)] by blast

theorem block_read_gives_disk_witness:
  "\<exists>bd'. block_read rd_read rd_write 3 5 ram_dev = Some (0, replicate 5 0, bd')"
proof -
  have "take 5 (disk_sector (bd_dev ram_dev) 3) = replicate 5 0"
    by (simp add: disk_sector_def ram_dev_def block_register_def rd_dev_def)
  moreover have "[unat (3 :: u64)..<unat (3 :: u64) + sectors 5] = [3]" by (simp add: sectors_def upt_rec)
  ultimately show ?thesis
    using block_read_gives_disk [OF ramdisk.block_driver_axioms ram_dev_ok, of 5 3] by (auto simp: sectors_def)
qed

section \<open>Partition discovery\<close>

text \<open>What a partition list keeps: at most \<open>PART_MAX\<close> entries, and every GPT entry names a
  non-empty run of sectors inside the device.\<close>

definition parts_ok :: "nat \<Rightarrow> partition list \<Rightarrow> bool" where
  "parts_ok cap ps \<longleftrightarrow> length ps \<le> PART_MAX \<and>
     (\<forall>p \<in> set ps. pt_is_gpt p \<longrightarrow> 0 < unat (pt_lba_nsect p) \<and> unat (pt_lba_start p) + unat (pt_lba_nsect p) \<le> cap)"

lemma parts_ok_Nil [simp]: "parts_ok cap []"
  by (simp add: parts_ok_def)

lemma parts_ok_snoc:
  assumes "parts_ok cap ps" and "length ps < PART_MAX"
    and "pt_is_gpt p \<Longrightarrow> 0 < unat (pt_lba_nsect p) \<and> unat (pt_lba_start p) + unat (pt_lba_nsect p) \<le> cap"
  shows "parts_ok cap (ps @ [p])"
  using assms by (auto simp: parts_ok_def)

lemma mbr_entries_parts: "parts_ok cap ps \<Longrightarrow> parts_ok cap (snd (mbr_entries sec base ext is link ps))"
proof (induction "is" arbitrary: link ps)
  case (Cons i "is")
  have "parts_ok cap (ps @ [p])" if "\<not> PART_MAX \<le> length ps" "\<not> pt_is_gpt p" for p
    by (rule parts_ok_snoc [OF Cons.prems]) (use that in simp_all)
  then show ?case using Cons by (cases ext) (simp_all add: Let_def)
qed simp

lemma parse_mbr_parts: "parts_ok cap ps \<Longrightarrow> parts_ok cap (snd (parse_mbr_sector sec base ext ps))"
  by (simp add: parse_mbr_sector_def mbr_entries_parts)

lemma add_marker_parts: "parts_ok cap ps \<Longrightarrow> parts_ok cap (add_extended_marker start count typ ps)"
  by (auto simp: add_extended_marker_def intro: parts_ok_snoc)

lemma unat_run_length:
  assumes "\<not> (lst :: u64) < first" and "unat lst < cap" and "cap < 2 ^ 64"
  shows "0 < unat (lst - first + 1) \<and> unat first + unat (lst - first + 1) \<le> cap"
proof -
  have le: "unat first \<le> unat lst" using assms(1) by (simp add: word_less_nat_alt)
  then have "unat (lst - first) = unat lst - unat first" by (simp add: unat_sub word_le_nat_alt)
  then have "unat (lst - first + of_nat 1) = unat lst - unat first + 1"
    using assms(2,3) by (subst unat_add_of_nat) simp_all
  then show ?thesis using le assms(2) by simp
qed

lemma gpt_entries_parts:
  "parts_ok (unat capw) ps \<Longrightarrow> parts_ok (unat capw) (snd (gpt_entries capw ents n offs eg ps))"
proof (induction offs arbitrary: eg ps)
  case (Cons off offs)
  let ?first = "rd64 ents (off + 32)" and ?lst = "rd64 ents (off + 40)"
  have run: "0 < unat (?lst - ?first + 1) \<and> unat ?first + unat (?lst - ?first + 1) \<le> unat capw"
    if "\<not> ?lst < ?first" "\<not> capw \<le> ?lst"
    by (rule unat_run_length [OF that(1)]) (use that unat_less_64 [of capw] in \<open>simp_all add: word_le_nat_alt\<close>)
  show ?case
    using Cons.prems run by (simp add: Let_def Cons.IH parts_ok_snoc)
qed simp

context block_driver
begin

text \<open>One sector read where the scanner reads: inside the device, or one of the first two sectors.\<close>

lemma block_read_returns:
  assumes ok: "dev_ok bd" and lba: "unat lba < cap \<or> lba = 0 \<or> lba = 1"
  shows "\<exists>rc bytes bd'. block_read rd wr lba BLK_SECTOR_SIZE bd = Some (rc, bytes, bd') \<and> dev_ok bd' \<and>
    bd_parts bd' = bd_parts bd \<and> bd_capacity bd' = bd_capacity bd"
proof (cases "unat lba < cap")
  case True
  then show ?thesis using block_read_ok [OF ok, of BLK_SECTOR_SIZE lba] ok
    by (auto simp: sectors_def dev_ok_def word_unat_eq_iff)
next
  case False
  with lba have "unat lba = 0 \<or> unat lba = 1" by auto
  then have "unat (lba + 1) = unat lba + 1" using unat_add_of_nat [of lba 1] by auto
  then have "lba + 1 > bd_capacity bd" using False ok by (simp add: word_less_nat_alt dev_ok_def)
  then have "block_read rd wr lba BLK_SECTOR_SIZE bd = Some (- 1, [], bd)"
    unfolding block_read_def Let_def by simp
  then show ?thesis using ok by blast
qed

definition scan_ok :: "'d block_device \<Rightarrow> bool" where
  "scan_ok bd \<longleftrightarrow> dev_ok bd \<and> parts_ok cap (bd_parts bd)"

lemma scan_ok_parts: "scan_ok bd \<Longrightarrow> parts_ok cap ps \<Longrightarrow> scan_ok (bd\<lparr>bd_parts := ps\<rparr>)"
  by (simp add: scan_ok_def dev_ok_def)

lemma scan_read:
  assumes "scan_ok bd" and "unat lba < cap \<or> lba = 0 \<or> lba = 1"
  obtains rc bytes bd' where "block_read rd wr lba BLK_SECTOR_SIZE bd = Some (rc, bytes, bd')" and "scan_ok bd'"
    and "bd_parts bd' = bd_parts bd" and "bd_capacity bd' = bd_capacity bd"
  using block_read_returns [OF _ assms(2), of bd] assms(1) by (auto simp: scan_ok_def)

lemma below_capacity: "scan_ok bd \<Longrightarrow> \<not> bd_capacity bd \<le> lba \<Longrightarrow> unat lba < cap"
  by (auto simp: scan_ok_def dev_ok_def word_le_nat_alt)

lemma ebr_chain_ok: "scan_ok bd \<Longrightarrow> \<exists>bd'. ebr_chain rd wr g base lba bd = Some bd' \<and> scan_ok bd'"
proof (induction g arbitrary: lba bd)
  case (Suc g)
  show ?case
  proof (cases "bd_capacity bd \<le> lba")
    case False
    obtain rc bytes b1 where r: "block_read rd wr lba BLK_SECTOR_SIZE bd = Some (rc, bytes, b1)" and b1: "scan_ok b1"
      using scan_read [OF Suc.prems, of lba] below_capacity [OF Suc.prems False] by blast
    obtain nxt ps where p: "parse_mbr_sector bytes base True (bd_parts b1) = (nxt, ps)" by fastforce
    then have "parts_ok cap ps" using parse_mbr_parts [of cap "bd_parts b1" bytes base True] b1 by (simp add: scan_ok_def)
    then have "scan_ok (b1\<lparr>bd_parts := ps\<rparr>)" by (rule scan_ok_parts [OF b1])
    from Suc.IH [OF this, of nxt] this b1 False r p show ?thesis by (auto simp: Let_def)
  qed (use Suc.prems in simp)
qed simp

lemma scan_mbr_ok:
  assumes "scan_ok bd"
  shows "\<exists>n bd'. scan_mbr rd wr bd = Some (n, bd') \<and> scan_ok bd' \<and> (n = length (bd_parts bd') \<or> n = 0)"
proof -
  obtain rc bytes b1 where r: "block_read rd wr 0 BLK_SECTOR_SIZE bd = Some (rc, bytes, b1)" and b1: "scan_ok b1"
    using scan_read [OF assms, of 0] by blast
  obtain base tot where e: "find_extended bytes = (base, tot)" by fastforce
  let ?ps = "snd (parse_mbr_sector bytes 0 False (bd_parts b1))"
  have ps: "parts_ok cap ?ps" using b1 by (simp add: scan_ok_def parse_mbr_parts)
  let ?b2 = "b1\<lparr>bd_parts := add_extended_marker base tot 0x05 ?ps\<rparr>"
  obtain b3 where b3: "ebr_chain rd wr 32 base base ?b2 = Some b3" "scan_ok b3"
    using ebr_chain_ok [OF scan_ok_parts [OF b1 add_marker_parts [OF ps]]] by blast
  show ?thesis
    unfolding scan_mbr_def r using b1 e b3 scan_ok_parts [OF b1 ps] by (auto simp: Let_def)
qed

lemma gpt_array_ok:
  "scan_ok bd \<Longrightarrow> \<exists>r bd'. gpt_array rd wr elba n es tot consumed running eg bd = Some (r, bd') \<and> scan_ok bd'"
proof (induction "tot - consumed" arbitrary: consumed running eg bd rule: less_induct)
  case less
  define slot where "slot = elba + of_nat (consumed div BLK_SECTOR_SIZE)"
  define tk where "tk = (if tot - consumed > BLK_SECTOR_SIZE then BLK_SECTOR_SIZE else tot - consumed)"
  note step = gpt_array.simps [of rd wr elba n es tot consumed running eg bd, unfolded Let_def, folded slot_def tk_def]
  show ?case
  proof (cases "consumed < tot \<and> \<not> bd_capacity bd \<le> slot")
    case True
    then have "unat slot < cap" using below_capacity [OF less.prems] by blast
    then obtain rc bytes b1 where r: "block_read rd wr slot BLK_SECTOR_SIZE bd = Some (rc, bytes, b1)" and b1: "scan_ok b1"
      using scan_read [OF less.prems, of slot] by metis
    let ?g = "gpt_entries (bd_capacity b1) bytes n (map (\<lambda>j. j * es) [0..<tk div es]) eg (bd_parts b1)"
    obtain eg' ps where g: "?g = (eg', ps)" by fastforce
    have cap: "unat (bd_capacity b1) = cap" using b1 by (simp add: scan_ok_def dev_ok_def)
    have "parts_ok (unat (bd_capacity b1)) (snd ?g)"
      by (rule gpt_entries_parts) (use b1 cap in \<open>simp add: scan_ok_def\<close>)
    then have "parts_ok cap ps" unfolding g cap by simp
    then have "scan_ok (b1\<lparr>bd_parts := ps\<rparr>)" by (rule scan_ok_parts [OF b1])
    moreover have "tot - (consumed + tk) < tot - consumed" using True by (auto simp: tk_def)
    ultimately have IH: "\<exists>r bd'. gpt_array rd wr elba n es tot (consumed + tk) (crc32_update running (take tk bytes)) eg' (b1\<lparr>bd_parts := ps\<rparr>) =
        Some (r, bd') \<and> scan_ok bd'" using less.hyps by blast
    then show ?thesis using True b1 unfolding step r by (simp add: g)
  next
    case False
    then show ?thesis using less.prems unfolding step by auto
  qed
qed

lemma scan_gpt_ok:
  assumes "scan_ok bd"
  shows "\<exists>n bd'. scan_gpt rd wr bd = Some (n, bd') \<and> scan_ok bd' \<and> (n = length (bd_parts bd') \<or> n = 0)"
proof -
  obtain rc hdr b1 where r: "block_read rd wr 1 BLK_SECTOR_SIZE bd = Some (rc, hdr, b1)" and b1: "scan_ok b1"
    using scan_read [OF assms, of 1] by blast
  obtain r2 b2 where "gpt_array rd wr (rd64 hdr 72) (unat (rd32 hdr 80)) (unat (rd32 hdr 84))
      (unat (rd32 hdr 80) * unat (rd32 hdr 84)) 0 0xffffffff 0 b1 = Some (r2, b2)" "scan_ok b2"
    using gpt_array_ok [OF b1] by blast
  then show ?thesis unfolding scan_gpt_def r Let_def using b1 by simp
qed

lemma block_scan_partitions_ok:
  assumes "dev_ok bd"
  shows "\<exists>n bd'. block_scan_partitions rd wr bd = Some (n, bd') \<and> scan_ok bd' \<and> (n = length (bd_parts bd') \<or> n = 0)"
proof -
  have "scan_ok (bd\<lparr>bd_parts := []\<rparr>)" using assms by (simp add: scan_ok_def dev_ok_def)
  then obtain rc bytes b1 where r: "block_read rd wr 0 BLK_SECTOR_SIZE (bd\<lparr>bd_parts := []\<rparr>) = Some (rc, bytes, b1)" and b1: "scan_ok b1"
    using scan_read [of _ 0] by metis
  show ?thesis unfolding block_scan_partitions_def r using scan_gpt_ok [OF b1] scan_mbr_ok [OF b1] by simp
qed

end

text \<open>C33: Scanning a device for partitions always returns, whatever bytes the disk holds: at most
  \<open>PART_MAX\<close> partitions are recorded, the count returned is the number recorded (or 0 when the
  table is rejected), every GPT partition is a non-empty run of sectors inside the device, and
  the sector cache still agrees with the disk.\<close>

theorem block_scan_partitions_bounds:
  fixes rd :: "'d reader" and wr :: "'d writer" and dinv :: "'d \<Rightarrow> bool" and dsec :: "'d \<Rightarrow> nat \<Rightarrow> u8 list"
  assumes "block_driver rd wr dinv dsec cap" and "block_driver.dev_ok dinv dsec cap bd"
  shows "\<exists>n bd'. block_scan_partitions rd wr bd = Some (n, bd') \<and> block_driver.dev_ok dinv dsec cap bd' \<and>
    (n = length (bd_parts bd') \<or> n = 0) \<and> length (bd_parts bd') \<le> PART_MAX \<and>
    (\<forall>p. p \<in> set (bd_parts bd') \<longrightarrow> pt_is_gpt p \<longrightarrow>
       0 < unat (pt_lba_nsect p) \<and> unat (pt_lba_start p) + unat (pt_lba_nsect p) \<le> cap)"
  using block_driver.block_scan_partitions_ok [OF assms]
  unfolding block_driver.scan_ok_def [OF assms(1)] parts_ok_def by blast

theorem block_scan_partitions_bounds_witness:
  "\<exists>n bd'. block_scan_partitions rd_read rd_write ram_dev = Some (n, bd') \<and> length (bd_parts bd') \<le> PART_MAX"
  using block_scan_partitions_bounds [OF ramdisk.block_driver_axioms ram_dev_ok] by blast

text \<open>The MBR parser takes a partition's type from the first byte of its entry, which in the
  MBR format is the status byte (the type is the fifth byte). So of a table whose entries all
  carry the usual status 0, it finds no partition, whatever the type, start and length bytes are.\<close>

theorem parse_mbr_reads_status_byte:
  assumes "\<And>i. i < 4 \<Longrightarrow> sct ! (MBR_TABLE_OFF + i * MBR_ENT_SIZE) = 0"
  shows "parse_mbr_sector sct base ext ps = (0, ps)"
proof -
  have "mbr_entries sct base ext is 0 ps = (0, ps)" if "set is \<subseteq> {0..<4}" for "is"
    using that by (induction "is") (simp_all add: assms)
  then show ?thesis by (simp add: parse_mbr_sector_def)
qed

theorem parse_mbr_reads_status_byte_witness:
  "parse_mbr_sector (replicate 446 0 @ [0, 0, 0, 0, 0x83, 0, 0, 0, 0, 8, 0, 0, 0, 16, 0, 0] @ replicate 48 0 @ [0x55, 0xaa]) 0 False [] = (0, [])"
proof (rule parse_mbr_reads_status_byte)
  fix i :: nat assume "i < 4"
  then consider "i = 0" | "i = 1" | "i = 2" | "i = 3" by linarith
  then show "(replicate 446 0 @ [0, 0, 0, 0, 0x83, 0, 0, 0, 0, 8, 0, 0, 0, 16, 0, 0] @ replicate 48 0 @ [0x55, 0xaa]) ! (MBR_TABLE_OFF + i * MBR_ENT_SIZE) = (0 :: u8)"
    by cases (simp_all add: nth_append)
qed

end
