(* ===== verification/Abmgr.thy ===== *)
theory Abmgr
  imports Block_Props
begin

text \<open>
  The A/B update slot manager (\<open>kernel/abmgr.c\<close>): the bitwise CRC-32, the slot table with its
  layout in the table sector (padding bytes of \<open>struct ab_slot\<close> included, since the checksum
  covers them), attaching and formatting, sealing, and the boot life cycle with the rollback.
  The manager owns the state of the block device it is attached to; results are \<open>None\<close> only
  where the block layer does not return.
\<close>

abbreviation AB_MAGIC :: u32 where "AB_MAGIC \<equiv> 0x41424d47"
abbreviation AB_TABLE_VERSION :: u32 where "AB_TABLE_VERSION \<equiv> 1"
abbreviation AB_SLOTS :: nat where "AB_SLOTS \<equiv> 2"
abbreviation AB_MAX_ATTEMPTS :: nat where "AB_MAX_ATTEMPTS \<equiv> 3"

section \<open>Data\<close>

record ab_slot =
  sl_crc :: u32
  sl_seq :: u32
  sl_lba :: u64
  sl_nsect :: u64
  sl_boot_attempts :: u8
  sl_confirmed :: u8
  sl_active :: u8
  sl_valid :: u8
  sl_pad :: u32

record ab_table =
  tb_magic :: u32
  tb_version :: u32
  tb_slots :: "ab_slot list"
  tb_rollbacks :: u32
  tb_crc :: u32

record ab_stats =
  st_active :: int
  st_rollbacks :: u32
  st_confirms :: u32
  st_switches :: u32

record 'd abmgr =
  am_abd :: "'d block_device option"
  am_table_lba :: u64
  am_tbl :: ab_table
  am_loaded :: bool
  am_stats :: ab_stats

definition zero_slot :: ab_slot where
  "zero_slot = \<lparr>sl_crc = 0, sl_seq = 0, sl_lba = 0, sl_nsect = 0, sl_boot_attempts = 0, sl_confirmed = 0,
     sl_active = 0, sl_valid = 0, sl_pad = 0\<rparr>"

definition zero_table :: ab_table where
  "zero_table = \<lparr>tb_magic = 0, tb_version = 0, tb_slots = replicate AB_SLOTS zero_slot, tb_rollbacks = 0, tb_crc = 0\<rparr>"

definition abmgr_boot :: "'d abmgr" where
  "abmgr_boot = \<lparr>am_abd = None, am_table_lba = 0, am_tbl = zero_table, am_loaded = False,
     am_stats = \<lparr>st_active = 0, st_rollbacks = 0, st_confirms = 0, st_switches = 0\<rparr>\<rparr>"

text \<open>The object representation of \<open>struct ab_slot\<close> (32 bytes) and \<open>struct ab_table\<close> (80 bytes).\<close>

definition slot_bytes :: "ab_slot \<Rightarrow> u8 list" where
  "slot_bytes s = le_bytes 4 (sl_crc s) @ le_bytes 4 (sl_seq s) @ le_bytes 8 (sl_lba s) @ le_bytes 8 (sl_nsect s) @
     [sl_boot_attempts s, sl_confirmed s, sl_active s, sl_valid s] @ le_bytes 4 (sl_pad s)"

definition table_bytes :: "ab_table \<Rightarrow> u8 list" where
  "table_bytes t = le_bytes 4 (tb_magic t) @ le_bytes 4 (tb_version t) @ concat (map slot_bytes (tb_slots t)) @
     le_bytes 4 (tb_rollbacks t) @ le_bytes 4 (tb_crc t)"

definition slot_of_bytes :: "u8 list \<Rightarrow> ab_slot" where
  "slot_of_bytes bs = \<lparr>sl_crc = from_le (take 4 bs), sl_seq = from_le (take 4 (drop 4 bs)),
     sl_lba = from_le (take 8 (drop 8 bs)), sl_nsect = from_le (take 8 (drop 16 bs)),
     sl_boot_attempts = bs ! 24, sl_confirmed = bs ! 25, sl_active = bs ! 26, sl_valid = bs ! 27,
     sl_pad = from_le (take 4 (drop 28 bs))\<rparr>"

definition table_of_bytes :: "u8 list \<Rightarrow> ab_table" where
  "table_of_bytes bs = \<lparr>tb_magic = from_le (take 4 bs), tb_version = from_le (take 4 (drop 4 bs)),
     tb_slots = [slot_of_bytes (take 32 (drop 8 bs)), slot_of_bytes (take 32 (drop 40 bs))],
     tb_rollbacks = from_le (take 4 (drop 72 bs)), tb_crc = from_le (take 4 (drop 76 bs))\<rparr>"

abbreviation AB_TABLE_SIZE :: nat where "AB_TABLE_SIZE \<equiv> 80"

section \<open>Checksums\<close>

fun crc_shift :: "nat \<Rightarrow> u32 \<Rightarrow> u32" where
  "crc_shift 0 crc = crc"
| "crc_shift (Suc b) crc = crc_shift b (drop_bit 1 crc XOR (0xedb88320 AND (0 - (crc AND 1))))"

definition crc32_calc :: "u8 list \<Rightarrow> u32" where
  "crc32_calc bs = fold (\<lambda>b crc. crc_shift 8 (crc XOR ucast b)) bs 0xffffffff XOR 0xffffffff"

definition table_crc :: "ab_table \<Rightarrow> u32" where
  "table_crc t = crc32_calc (take (AB_TABLE_SIZE - 4) (table_bytes t))"

definition table_valid :: "ab_table \<Rightarrow> bool" where
  "table_valid t \<longleftrightarrow> tb_magic t = AB_MAGIC \<and> tb_version t = AB_TABLE_VERSION \<and> tb_crc t = table_crc t"

section \<open>Table input and output\<close>

definition table_write :: "'d reader \<Rightarrow> 'd writer \<Rightarrow> 'd abmgr \<Rightarrow> (int \<times> 'd abmgr) option" where
  "table_write rd wr s =
    (let t = (am_tbl s)\<lparr>tb_crc := table_crc (am_tbl s)\<rparr>
     in case am_abd s of
          None \<Rightarrow> Some (- 1, s\<lparr>am_tbl := t\<rparr>)
        | Some bd \<Rightarrow>
            map_option (\<lambda>(r, bd'). (r, s\<lparr>am_tbl := t, am_abd := Some bd'\<rparr>))
              (block_write rd wr (am_table_lba s) (table_bytes t) bd))"

definition table_write_checked :: "'d reader \<Rightarrow> 'd writer \<Rightarrow> 'd abmgr \<Rightarrow> (int \<times> 'd abmgr) option" where
  "table_write_checked rd wr s =
    (if \<not> am_loaded s then Some (- ENODEV, s)
     else map_option (\<lambda>(r, s'). (if r \<noteq> 0 then - EIO else 0, s')) (table_write rd wr s))"

text \<open>\<open>tb\<close> is the content of \<open>tbl\<close> after the read: the read stores into it only when it
  succeeds, because the table is shorter than a sector.\<close>

definition abmgr_attach :: "'d reader \<Rightarrow> 'd writer \<Rightarrow> 'd block_device option \<Rightarrow> u64 \<Rightarrow> 'd abmgr \<Rightarrow> (int \<times> 'd abmgr) option" where
  "abmgr_attach rd wr dev lba s =
    (case dev of
       None \<Rightarrow> Some (- ENODEV, s)
     | Some bd \<Rightarrow>
         (case block_read rd wr lba AB_TABLE_SIZE bd of
            None \<Rightarrow> None
          | Some (rc, bytes, bd1) \<Rightarrow>
              let s1 = s\<lparr>am_abd := Some bd1, am_table_lba := lba, am_loaded := False\<rparr>;
                  tb = (if rc = 0 then table_of_bytes bytes else am_tbl s)
              in if rc = 0 \<and> table_valid tb
                 then Some (0, s1\<lparr>am_tbl := tb, am_loaded := True,
                        am_stats := (am_stats s)
                          \<lparr>st_active := (if sl_active (tb_slots tb ! 0) \<noteq> 0 then 0 else if sl_active (tb_slots tb ! 1) \<noteq> 0 then 1 else - 1),
                           st_rollbacks := tb_rollbacks tb\<rparr>\<rparr>)
                 else
                   (case table_write rd wr (s1\<lparr>am_tbl := zero_table\<lparr>tb_magic := AB_MAGIC, tb_version := AB_TABLE_VERSION\<rparr>\<rparr>) of
                      None \<Rightarrow> None
                    | Some (r, s2) \<Rightarrow>
                        if r \<noteq> 0 then Some (- EIO, s2)
                        else Some (0, s2\<lparr>am_loaded := True, am_stats := (am_stats s)\<lparr>st_active := - 1, st_rollbacks := 0\<rparr>\<rparr>))))"

definition abmgr_active :: "'d abmgr \<Rightarrow> int" where
  "abmgr_active s = (if am_loaded s then st_active (am_stats s) else - 1)"

section \<open>Sealing\<close>

text \<open>The sectors of the payload window, one checksum each; an unreadable sector stops the loop.
  The byte count \<open>nsect * 512\<close> wraps, so \<open>k\<close> counts its whole sectors.\<close>

fun seal_loop :: "'d reader \<Rightarrow> 'd writer \<Rightarrow> u64 \<Rightarrow> nat \<Rightarrow> u32 \<Rightarrow> 'd block_device \<Rightarrow> (u32 option \<times> 'd block_device) option" where
  "seal_loop rd wr lba 0 crc bd = Some (Some crc, bd)"
| "seal_loop rd wr lba (Suc k) crc bd =
    (case block_read rd wr lba BLK_SECTOR_SIZE bd of
       None \<Rightarrow> None
     | Some (rc, buf, bd1) \<Rightarrow>
         if rc \<noteq> 0 then Some (None, bd1)
         else seal_loop rd wr (lba + 1) k (crc32_calc buf XOR push_bit 1 crc XOR crc) bd1)"

definition upd_slot :: "nat \<Rightarrow> (ab_slot \<Rightarrow> ab_slot) \<Rightarrow> ab_table \<Rightarrow> ab_table" where
  "upd_slot i f t = t\<lparr>tb_slots := (tb_slots t)[i := f (tb_slots t ! i)]\<rparr>"

definition abmgr_slot_seal :: "'d reader \<Rightarrow> 'd writer \<Rightarrow> nat \<Rightarrow> u64 \<Rightarrow> u64 \<Rightarrow> u32 \<Rightarrow> 'd abmgr \<Rightarrow> (int \<times> 'd abmgr) option" where
  "abmgr_slot_seal rd wr idx lba nsect sq s =
    (if \<not> am_loaded s \<or> AB_SLOTS \<le> idx \<or> nsect = 0 then Some (- EINVAL, s)
     else case seal_loop rd wr lba (unat (nsect * 512) div BLK_SECTOR_SIZE) 0xffffffff (the (am_abd s)) of
       None \<Rightarrow> None
     | Some (None, bd) \<Rightarrow> Some (- EIO, s\<lparr>am_abd := Some bd\<rparr>)
     | Some (Some crc, bd) \<Rightarrow>
         table_write_checked rd wr
           (s\<lparr>am_abd := Some bd,
              am_tbl := upd_slot idx (\<lambda>sl. sl\<lparr>sl_crc := crc XOR 0xdeadc0de * ucast nsect, sl_seq := sq, sl_lba := lba,
                 sl_nsect := nsect, sl_boot_attempts := 0, sl_confirmed := 0, sl_active := 0, sl_valid := 1\<rparr>) (am_tbl s)\<rparr>))"

section \<open>Boot life cycle\<close>

definition abmgr_boot_begin :: "'d reader \<Rightarrow> 'd writer \<Rightarrow> 'd abmgr \<Rightarrow> (int \<times> 'd abmgr) option" where
  "abmgr_boot_begin rd wr s =
    (if \<not> am_loaded s \<or> st_active (am_stats s) < 0 then Some (- ENODEV, s)
     else table_write_checked rd wr
       (s\<lparr>am_tbl := upd_slot (nat (st_active (am_stats s)))
            (\<lambda>sl. if sl_boot_attempts sl < 255 then sl\<lparr>sl_boot_attempts := sl_boot_attempts sl + 1\<rparr> else sl) (am_tbl s)\<rparr>))"

definition abmgr_confirm :: "'d reader \<Rightarrow> 'd writer \<Rightarrow> 'd abmgr \<Rightarrow> (int \<times> 'd abmgr) option" where
  "abmgr_confirm rd wr s =
    (if \<not> am_loaded s \<or> st_active (am_stats s) < 0 then Some (- ENODEV, s)
     else table_write_checked rd wr
       (s\<lparr>am_tbl := upd_slot (nat (st_active (am_stats s)))
            (\<lambda>sl. sl\<lparr>sl_confirmed := 1, sl_boot_attempts := 0, sl_seq := sl_seq sl + 1\<rparr>) (am_tbl s),
          am_stats := (am_stats s)\<lparr>st_confirms := st_confirms (am_stats s) + 1\<rparr>\<rparr>))"

definition switch_to :: "'d reader \<Rightarrow> 'd writer \<Rightarrow> nat \<Rightarrow> 'd abmgr \<Rightarrow> (int \<times> 'd abmgr) option" where
  "switch_to rd wr other s =
    table_write_checked rd wr
      (s\<lparr>am_tbl := upd_slot other (\<lambda>sl. sl\<lparr>sl_active := 1, sl_boot_attempts := 0\<rparr>) (am_tbl s),
         am_stats := (am_stats s)\<lparr>st_active := int other, st_switches := st_switches (am_stats s) + 1\<rparr>\<rparr>)"

definition abmgr_switch :: "'d reader \<Rightarrow> 'd writer \<Rightarrow> 'd abmgr \<Rightarrow> (int \<times> 'd abmgr) option" where
  "abmgr_switch rd wr s =
    (let act = st_active (am_stats s); slots = tb_slots (am_tbl s)
     in if \<not> am_loaded s then Some (- ENODEV, s)
        else if act < 0
        then if sl_valid (slots ! 0) \<noteq> 0 then switch_to rd wr 0 s
             else if sl_valid (slots ! 1) \<noteq> 0 then switch_to rd wr 1 s
             else Some (- EINVAL, s)
        else if sl_valid (slots ! (1 - nat act)) = 0 then Some (- EINVAL, s)
        else switch_to rd wr (1 - nat act) (s\<lparr>am_tbl := upd_slot (nat act) (\<lambda>sl. sl\<lparr>sl_active := 0\<rparr>) (am_tbl s)\<rparr>))"

definition abmgr_evaluate :: "'d reader \<Rightarrow> 'd writer \<Rightarrow> 'd abmgr \<Rightarrow> (int \<times> 'd abmgr) option" where
  "abmgr_evaluate rd wr s =
    (if \<not> am_loaded s \<or> st_active (am_stats s) < 0 then Some (- ENODEV, s)
     else
       let sl = tb_slots (am_tbl s) ! nat (st_active (am_stats s));
           n = st_rollbacks (am_stats s) + 1
       in if sl_confirmed sl \<noteq> 0 \<or> unat (sl_boot_attempts sl) < AB_MAX_ATTEMPTS then Some (0, s)
          else case table_write_checked rd wr
                 (s\<lparr>am_stats := (am_stats s)\<lparr>st_rollbacks := n\<rparr>, am_tbl := (am_tbl s)\<lparr>tb_rollbacks := n\<rparr>\<rparr>) of
              None \<Rightarrow> None
            | Some (_, s1) \<Rightarrow> map_option (\<lambda>(r, s2). (if r < 0 then r else 1, s2)) (abmgr_switch rd wr s1))"

section \<open>Direct access\<close>

definition abmgr_table_get :: "'d abmgr \<Rightarrow> int + ab_table" where
  "abmgr_table_get s = (if am_loaded s then Inr (am_tbl s) else Inl (- ENODEV))"

definition abmgr_table_put :: "'d reader \<Rightarrow> 'd writer \<Rightarrow> ab_table option \<Rightarrow> 'd abmgr \<Rightarrow> (int \<times> 'd abmgr) option" where
  "abmgr_table_put rd wr tin s =
    (case tin of
       None \<Rightarrow> Some (- EINVAL, s)
     | Some t \<Rightarrow>
         if \<not> am_loaded s \<or> \<not> table_valid t then Some (- EINVAL, s)
         else table_write_checked rd wr (s\<lparr>am_tbl := t\<rparr>))"

end
