(* ===== verification/Abmgr_Props.thy ===== *)
theory Abmgr_Props
  imports Abmgr
begin

text \<open>
  What the slot manager promises: its bitwise checksum is the table-driven one of the block
  layer, a table that was written is the table a later attach finds, and an active slot that
  is never confirmed is rolled back after three boots. Two theorems show where the in-memory
  active slot and the table part.
\<close>

section \<open>The two checksums agree\<close>

lemma crc_step_eq:
  "drop_bit 1 c XOR (CRC_POLY AND (0 - (c AND 1))) = (if c AND 1 \<noteq> 0 then CRC_POLY XOR drop_bit 1 c else drop_bit 1 (c :: u32))"
  by (simp add: and_one_eq odd_iff_mod_2_eq_one xor.commute)

lemma crc_shift_eq_entry: "crc_shift n c = crc_entry n c"
  by (induction n arbitrary: c) (simp_all only: crc_shift.simps crc_entry.simps crc_step_eq)

lemma crc_entry_xor: "crc_entry n (a XOR b) = crc_entry n a XOR crc_entry n b"
proof (induction n arbitrary: a b)
  case (Suc n)
  let ?f = "\<lambda>c :: u32. if c AND 1 \<noteq> 0 then CRC_POLY XOR drop_bit 1 c else drop_bit 1 c"
  have "?f (a XOR b) = ?f a XOR ?f b"
    by (simp add: and_one_eq odd_iff_mod_2_eq_one [symmetric] even_xor_iff drop_bit_xor xor.assoc xor.left_commute)
  then show ?case by (simp only: crc_entry.simps Suc.IH)
qed simp

lemma crc_entry_high: "take_bit n x = 0 \<Longrightarrow> crc_entry n x = drop_bit n x"
proof (induction n arbitrary: x)
  case (Suc n)
  then have low: "\<not> bit x i" if "i < Suc n" for i
    using that by (metis bit_0_eq bit_take_bit_iff bot_apply bot_bool_def)
  then have "x AND 1 = 0" using low [of 0] by (simp add: and_one_eq bit_0 even_iff_mod_2_eq_zero)
  moreover have "take_bit n (drop_bit 1 x) = 0"
    by (rule bit_word_eqI) (simp add: bit_take_bit_iff bit_drop_bit_eq low)
  ultimately show ?case using Suc.IH [of "drop_bit 1 x"] by (simp add: drop_bit_drop_bit)
qed simp

lemma crc_byte:
  fixes b :: u8
  shows "crc_shift 8 (crc XOR ucast b) = crc_init ! unat ((crc XOR ucast b) AND 0xff) XOR drop_bit 8 crc"
proof -
  let ?x = "crc XOR ucast b" and ?lo = "(crc XOR ucast b) AND 0xff" and ?hi = "push_bit 8 (drop_bit 8 crc)"
  have mask: "(0xff :: u32) = mask 8" by (simp add: mask_eq_exp_minus_1)
  have b8: "bit b n \<Longrightarrow> n < 8" for n using bit_imp_le_length [of b n] by simp
  have c32: "bit crc n \<Longrightarrow> n < 32" for n using bit_imp_le_length [of crc n] by simp
  have "?x = ?lo XOR ?hi"
    by (rule bit_word_eqI)
      (auto simp: mask bit_xor_iff bit_and_iff bit_mask_iff bit_push_bit_iff bit_drop_bit_eq bit_ucast_iff dest: b8)
  then have "crc_shift 8 ?x = crc_entry 8 ?lo XOR crc_entry 8 ?hi"
    by (simp only: crc_shift_eq_entry crc_entry_xor [symmetric])
  moreover have "crc_entry 8 ?hi = drop_bit 8 crc"
  proof -
    have "take_bit 8 ?hi = 0" by (rule bit_word_eqI) (simp add: bit_take_bit_iff bit_push_bit_iff)
    moreover have "drop_bit 8 ?hi = drop_bit 8 crc"
    proof (rule bit_word_eqI)
      fix n
      show "bit (drop_bit 8 ?hi) n = bit (drop_bit 8 crc) n"
        using c32 [of "8 + n"] by (auto simp: bit_push_bit_iff bit_drop_bit_eq)
    qed
    ultimately show ?thesis by (simp add: crc_entry_high)
  qed
  moreover have "unat ?lo < 256" unfolding mask mask_and_eq_mod by simp
  then have "crc_init ! unat ?lo = crc_entry 8 ?lo" by (simp add: crc_init_def del: crc_entry.simps)
  ultimately show ?thesis by simp
qed

lemma xor_all_ones: "x XOR 0xffffffff = NOT (x :: u32)"
proof -
  have ones: "(0xffffffff :: u32) = - 1" by simp
  show ?thesis unfolding ones by (rule bit.xor_one_right)
qed

text \<open>The bitwise CRC-32 of the slot manager and the table-driven CRC-32 of the block layer
  compute the same checksum of every byte string: feeding the bytes through the table from all
  ones and complementing gives what \<open>crc32_calc\<close> gives.\<close>

theorem crc32_calc_is_crc32_update: "crc32_calc bs = NOT (crc32_update 0xffffffff bs)"
  unfolding crc32_calc_def crc32_update_def crc_byte by (rule xor_all_ones)

section \<open>The table in its sector\<close>

lemma length_slot_bytes [simp]: "length (slot_bytes s) = 32"
  by (simp add: slot_bytes_def)

lemma slot_round_trip: "slot_of_bytes (slot_bytes s) = s"
  by (simp add: slot_of_bytes_def slot_bytes_def from_le_le_bytes nth_append)

lemma two_slots: "length xs = AB_SLOTS \<Longrightarrow> xs = [xs ! 0, xs ! 1]"
  by (cases xs; cases "tl xs") auto

lemma length_table_bytes: "length (tb_slots t) = AB_SLOTS \<Longrightarrow> length (table_bytes t) = AB_TABLE_SIZE"
  by (subst table_bytes_def, subst two_slots) simp_all

lemma table_round_trip:
  assumes "length (tb_slots t) = AB_SLOTS"
  shows "table_of_bytes (table_bytes t) = t"
proof -
  obtain a b where "tb_slots t = [a, b]" using two_slots [OF assms] by blast
  then show ?thesis
    by (cases t) (simp add: table_of_bytes_def table_bytes_def from_le_le_bytes slot_round_trip)
qed

lemma field_bytes:
  assumes "length bs = n" and "LENGTH('a::len) = 8 * n"
  shows "le_bytes n (from_le bs :: 'a word) = bs"
  using le_bytes_from_le [of bs, where 'a = 'a] assms by simp

lemma slot_bytes_of:
  assumes "length bs = 32"
  shows "slot_bytes (slot_of_bytes bs) = bs"
proof -
  have flags: "[bs ! 24, bs ! 25, bs ! 26, bs ! 27] @ take 4 (drop 28 bs) = drop 24 bs"
    using assms Cons_nth_drop_Suc [of 24 bs] Cons_nth_drop_Suc [of 25 bs] Cons_nth_drop_Suc [of 26 bs] Cons_nth_drop_Suc [of 27 bs] by simp
  have "slot_bytes (slot_of_bytes bs) = take 4 bs @ take 4 (drop 4 bs) @ take 8 (drop 8 bs) @ take 8 (drop 16 bs) @ drop 24 bs"
    using assms flags by (simp add: slot_bytes_def slot_of_bytes_def field_bytes)
  also have "\<dots> = bs"
    using append_take_drop_id [of 4 bs] append_take_drop_id [of 4 "drop 4 bs"] append_take_drop_id [of 8 "drop 8 bs"]
      append_take_drop_id [of 8 "drop 16 bs"] by simp
  finally show ?thesis .
qed

lemma table_bytes_of:
  assumes "length bs = AB_TABLE_SIZE"
  shows "table_bytes (table_of_bytes bs) = bs"
proof -
  have "table_bytes (table_of_bytes bs) = take 4 bs @ take 4 (drop 4 bs) @ take 32 (drop 8 bs) @ take 32 (drop 40 bs) @ take 4 (drop 72 bs) @ take 4 (drop 76 bs)"
    using assms by (simp add: table_bytes_def table_of_bytes_def field_bytes slot_bytes_of)
  also have "\<dots> = bs"
    using append_take_drop_id [of 4 bs] append_take_drop_id [of 4 "drop 4 bs"] append_take_drop_id [of 32 "drop 8 bs"]
      append_take_drop_id [of 32 "drop 40 bs"] append_take_drop_id [of 4 "drop 72 bs"] assms by simp
  finally show ?thesis .
qed

lemma table_crc_upd [simp]: "length (tb_slots t) = AB_SLOTS \<Longrightarrow> table_crc (t\<lparr>tb_crc := c\<rparr>) = table_crc t"
proof -
  assume "length (tb_slots t) = AB_SLOTS"
  then obtain a b where "tb_slots t = [a, b]" using two_slots by blast
  then show ?thesis by (simp add: table_crc_def table_bytes_def)
qed

lemma length_upd_slot [simp]: "length (tb_slots (upd_slot i f t)) = length (tb_slots t)"
  by (simp add: upd_slot_def)

lemma upd_slot_fields [simp]: "tb_magic (upd_slot i f t) = tb_magic t" "tb_version (upd_slot i f t) = tb_version t"
    "tb_rollbacks (upd_slot i f t) = tb_rollbacks t"
    "tb_slots (upd_slot i f t) = (tb_slots t)[i := f (tb_slots t ! i)]"
  by (simp_all add: upd_slot_def)

section \<open>Operations as steps\<close>

text \<open>\<open>Put\<close> hands over the bytes of a table.\<close>

datatype ab_op = Seal nat u64 u64 u32 | Boot_Begin | Confirm | Switch | Evaluate | Put "u8 list"

fun ab_exec :: "'d reader \<Rightarrow> 'd writer \<Rightarrow> ab_op \<Rightarrow> 'd abmgr \<Rightarrow> (int \<times> 'd abmgr) option" where
  "ab_exec rd wr (Seal i lba n sq) s = abmgr_slot_seal rd wr i lba n sq s"
| "ab_exec rd wr Boot_Begin s = abmgr_boot_begin rd wr s"
| "ab_exec rd wr Confirm s = abmgr_confirm rd wr s"
| "ab_exec rd wr Switch s = abmgr_switch rd wr s"
| "ab_exec rd wr Evaluate s = abmgr_evaluate rd wr s"
| "ab_exec rd wr (Put bs) s = abmgr_table_put rd wr (Some (table_of_bytes bs)) s"

text \<open>The last sector of a window has a 64-bit number and is not the very last of these, whose end wraps to zero.\<close>

fun ab_window :: "ab_op \<Rightarrow> bool" where
  "ab_window (Seal i lba n sq) \<longleftrightarrow> unat lba + unat n < 2 ^ 64"
| "ab_window _ \<longleftrightarrow> True"

text \<open>The operations that keep memory and table in agreement about the active slot: all but sealing the
  slot that is running and putting a valid table.\<close>

fun ab_keeps :: "ab_op \<Rightarrow> 'd abmgr \<Rightarrow> bool" where
  "ab_keeps (Seal i lba n sq) s \<longleftrightarrow> int i \<noteq> st_active (am_stats s)"
| "ab_keeps (Put bs) s \<longleftrightarrow> \<not> table_valid (table_of_bytes bs)"
| "ab_keeps _ s \<longleftrightarrow> True"

text \<open>Any sequence of operations; the flag says whether all of them were of this kind.\<close>

inductive ab_reach :: "'d reader \<Rightarrow> 'd writer \<Rightarrow> 'd abmgr \<Rightarrow> bool \<Rightarrow> 'd abmgr \<Rightarrow> bool"
  for rd wr s0 where
  start: "ab_reach rd wr s0 True s0"
| step: "ab_reach rd wr s0 b s \<Longrightarrow> ab_window op \<Longrightarrow> ab_exec rd wr op s = Some (r, s') \<Longrightarrow>
    ab_reach rd wr s0 (b \<and> ab_keeps op s) s'"

text \<open>The slot a table marks active, as \<open>abmgr_attach\<close> reads it, and tables that mark at most one.\<close>

definition table_active :: "ab_table \<Rightarrow> int" where
  "table_active t = (if sl_active (tb_slots t ! 0) \<noteq> 0 then 0 else if sl_active (tb_slots t ! 1) \<noteq> 0 then 1 else - 1)"

definition one_active :: "ab_table \<Rightarrow> bool" where
  "one_active t \<longleftrightarrow> sl_active (tb_slots t ! 0) = 0 \<or> sl_active (tb_slots t ! 1) = 0"

text \<open>The state after the table has been written.\<close>

definition written :: "'d abmgr \<Rightarrow> 'd block_device \<Rightarrow> 'd abmgr" where
  "written s bd = s\<lparr>am_tbl := (am_tbl s)\<lparr>tb_crc := table_crc (am_tbl s)\<rparr>, am_abd := Some bd\<rparr>"

lemma written_fields [simp]:
  "am_stats (written s bd) = am_stats s" "am_table_lba (written s bd) = am_table_lba s" "am_loaded (written s bd) = am_loaded s"
  "am_abd (written s bd) = Some bd" "tb_slots (am_tbl (written s bd)) = tb_slots (am_tbl s)"
  "tb_magic (am_tbl (written s bd)) = tb_magic (am_tbl s)" "tb_version (am_tbl (written s bd)) = tb_version (am_tbl s)"
  "tb_rollbacks (am_tbl (written s bd)) = tb_rollbacks (am_tbl s)"
  by (simp_all add: written_def)

context block_driver
begin

definition core :: "'d abmgr \<Rightarrow> bool" where
  "core s \<longleftrightarrow> am_loaded s \<and> (\<exists>bd. am_abd s = Some bd \<and> dev_ok bd) \<and> unat (am_table_lba s) < cap \<and>
     tb_magic (am_tbl s) = AB_MAGIC \<and> tb_version (am_tbl s) = AB_TABLE_VERSION \<and> length (tb_slots (am_tbl s)) = AB_SLOTS"

definition on_disk :: "'d abmgr \<Rightarrow> bool" where
  "on_disk s \<longleftrightarrow> tb_crc (am_tbl s) = table_crc (am_tbl s) \<and>
     (\<forall>bd. am_abd s = Some bd \<longrightarrow> take AB_TABLE_SIZE (sec (bd_dev bd) (unat (am_table_lba s))) = table_bytes (am_tbl s))"

definition agree :: "'d abmgr \<Rightarrow> bool" where
  "agree s \<longleftrightarrow> st_active (am_stats s) = table_active (am_tbl s) \<and> one_active (am_tbl s) \<and>
     st_rollbacks (am_stats s) = tb_rollbacks (am_tbl s)"

definition synced :: "'d abmgr \<Rightarrow> bool" where
  "synced s \<longleftrightarrow> core s \<and> on_disk s \<and> agree s"

text \<open>What every operation keeps, agreement apart.\<close>

definition stored :: "'d abmgr \<Rightarrow> bool" where
  "stored s \<longleftrightarrow> core s \<and> on_disk s \<and> st_active (am_stats s) < int AB_SLOTS"

lemma synced_stored: "synced s \<Longrightarrow> stored s"
  by (auto simp: synced_def stored_def agree_def table_active_def)

lemma table_write_ok:
  assumes "am_abd s = Some bd" and "dev_ok bd" and "unat (am_table_lba s) < cap" and "length (tb_slots (am_tbl s)) = AB_SLOTS"
  shows "\<exists>bd'. table_write rd wr s = Some (0, written s bd') \<and>
    dev_ok bd' \<and> on_disk (written s bd')"
proof -
  let ?t = "(am_tbl s)\<lparr>tb_crc := table_crc (am_tbl s)\<rparr>"
  have len: "length (table_bytes ?t) = AB_TABLE_SIZE" using assms(4) by (simp add: length_table_bytes)
  then have sct: "sectors (length (table_bytes ?t)) = 1" by (simp add: sectors_def)
  then obtain bd' where "block_write rd wr (am_table_lba s) (table_bytes ?t) bd = Some (0, bd')" "dev_ok bd'"
    "take AB_TABLE_SIZE (bytes_at (bd_dev bd') (unat (am_table_lba s)) 1) = table_bytes ?t"
    using write_then_read_bytes [OF assms(2), of "table_bytes ?t" "am_table_lba s"] assms(3) len by fastforce
  then show ?thesis
    using assms by (auto simp: table_write_def Let_def on_disk_def bytes_at_1 written_def)
qed

lemma table_write_checked_ok:
  assumes "core s"
  shows "\<exists>bd'. table_write_checked rd wr s = Some (0, written s bd') \<and>
    core (written s bd') \<and>
    on_disk (written s bd')"
proof -
  obtain bd where bd: "am_abd s = Some bd" "dev_ok bd" using assms by (auto simp: core_def)
  from table_write_ok [OF this] assms obtain bd' where
    "table_write rd wr s = Some (0, written s bd')" "dev_ok bd'"
    "on_disk (written s bd')" by (auto simp: core_def)
  then show ?thesis using assms by (auto simp: table_write_checked_def core_def)
qed

lemma agree_written [simp]: "agree (written s bd') = agree s"
  by (simp add: agree_def table_active_def one_active_def)

text \<open>The write that ends every operation makes an agreeing state synchronised.\<close>

lemma write_syncs:
  assumes "core s" and "agree s"
  shows "\<exists>bd'. table_write_checked rd wr s = Some (0, written s bd') \<and>
    synced (written s bd')"
  using table_write_checked_ok [OF assms(1)] assms(2) by (auto simp: synced_def)

lemma write_stores:
  assumes "core s" and "st_active (am_stats s) < int AB_SLOTS"
  shows "\<exists>s'. table_write_checked rd wr s = Some (0, s') \<and> stored s' \<and> am_stats s' = am_stats s"
  using table_write_checked_ok [OF assms(1)] assms(2) by (auto simp: stored_def)

lemma read_table:
  assumes "dev_ok bd" and "unat lba < cap"
  shows "\<exists>bd'. block_read rd wr lba AB_TABLE_SIZE bd = Some (0, take AB_TABLE_SIZE (sec (bd_dev bd) (unat lba)), bd') \<and>
    dev_ok bd' \<and> bd_dev bd' = bd_dev bd"
  using block_read_ok [OF assms(1), of AB_TABLE_SIZE lba] assms(2) by (auto simp: sectors_def bytes_at_1)

lemma attach_stored:
  assumes "stored s"
  shows "\<exists>s'. abmgr_attach rd wr (am_abd s) (am_table_lba s) s0 = Some (0, s') \<and> am_tbl s' = am_tbl s \<and>
    st_active (am_stats s') = table_active (am_tbl s) \<and> st_rollbacks (am_stats s') = tb_rollbacks (am_tbl s) \<and> am_loaded s'"
proof -
  obtain bd where bd: "am_abd s = Some bd" "dev_ok bd" and c: "core s" using assms by (auto simp: stored_def core_def)
  from read_table [OF bd(2), of "am_table_lba s"] c obtain bd' where
    r: "block_read rd wr (am_table_lba s) AB_TABLE_SIZE bd = Some (0, table_bytes (am_tbl s), bd')"
    using assms bd by (auto simp: stored_def core_def on_disk_def)
  have t: "table_of_bytes (table_bytes (am_tbl s)) = am_tbl s" using c by (simp add: table_round_trip core_def)
  moreover have "table_valid (am_tbl s)" using assms by (simp add: table_valid_def stored_def core_def on_disk_def)
  ultimately show ?thesis using r bd by (simp add: abmgr_attach_def table_active_def Let_def)
qed

lemma attach_synced:
  assumes "synced s"
  shows "\<exists>s'. abmgr_attach rd wr (am_abd s) (am_table_lba s) s0 = Some (0, s') \<and> am_tbl s' = am_tbl s \<and>
    st_active (am_stats s') = st_active (am_stats s) \<and> st_rollbacks (am_stats s') = st_rollbacks (am_stats s) \<and> am_loaded s'"
  using attach_stored [OF synced_stored [OF assms], of s0] assms by (simp add: synced_def agree_def)

lemma attach_syncs:
  fixes bd :: "'d block_device" and s0 :: "'d abmgr"
  assumes "dev_ok bd" and "unat lba < cap"
    and one: "let t = table_of_bytes (take AB_TABLE_SIZE (sec (bd_dev bd) (unat lba))) in table_valid t \<longrightarrow> one_active t"
  shows "\<exists>s. abmgr_attach rd wr (Some bd) lba s0 = Some (0, s) \<and> synced s"
proof -
  let ?b = "take AB_TABLE_SIZE (sec (bd_dev bd) (unat lba))"
  obtain bd1 where r: "block_read rd wr lba AB_TABLE_SIZE bd = Some (0, ?b, bd1)" "dev_ok bd1" "bd_dev bd1 = bd_dev bd"
    using read_table [OF assms(1,2)] by blast
  show ?thesis
  proof (cases "table_valid (table_of_bytes ?b)")
    case True
    have "length ?b = AB_TABLE_SIZE" using assms by (simp add: dev_ok_def sec_len)
    then have "table_bytes (table_of_bytes ?b) = ?b" by (rule table_bytes_of)
    with True r one assms show ?thesis
      by (simp add: abmgr_attach_def synced_def core_def on_disk_def agree_def table_valid_def table_active_def Let_def)
        (simp add: table_of_bytes_def)
  next
    case False
    let ?s = "s0\<lparr>am_abd := Some bd1, am_table_lba := lba, am_loaded := False,
      am_tbl := zero_table\<lparr>tb_magic := AB_MAGIC, tb_version := AB_TABLE_VERSION\<rparr>\<rparr>"
    have "length (tb_slots (am_tbl ?s)) = AB_SLOTS" by (simp add: zero_table_def)
    with table_write_ok [of ?s bd1] r(2) assms(2) obtain bd' where
      w: "table_write rd wr ?s = Some (0, written ?s bd')" "dev_ok bd'"
      "on_disk (written ?s bd')" by auto
    then show ?thesis using False r(1) assms(2)
      by (simp add: written_def abmgr_attach_def synced_def core_def on_disk_def agree_def table_active_def one_active_def Let_def zero_table_def zero_slot_def numeral_2_eq_2)
  qed
qed

lemma core_upd: "core s \<Longrightarrow> core (s\<lparr>am_tbl := upd_slot i f (am_tbl s)\<rparr>)"
    "core s \<Longrightarrow> core (s\<lparr>am_stats := st\<rparr>)"
    "core s \<Longrightarrow> core (s\<lparr>am_tbl := (am_tbl s)\<lparr>tb_rollbacks := n\<rparr>\<rparr>)"
    "core s \<Longrightarrow> dev_ok bd \<Longrightarrow> core (s\<lparr>am_abd := Some bd\<rparr>)"
  by (auto simp: core_def)

lemma agree_upd:
  assumes "core s" and "agree s" and "sl_active (f (tb_slots (am_tbl s) ! i)) = sl_active (tb_slots (am_tbl s) ! i)" and "i < AB_SLOTS"
  shows "agree (s\<lparr>am_tbl := upd_slot i f (am_tbl s)\<rparr>)"
  using assms by (auto simp: agree_def table_active_def one_active_def core_def nth_list_update_if less_2_cases_iff)

lemma active_cases:
  assumes "synced s" and "\<not> st_active (am_stats s) < 0"
  obtains i where "i < AB_SLOTS" and "st_active (am_stats s) = int i" and "sl_active (tb_slots (am_tbl s) ! i) \<noteq> 0"
    and "sl_active (tb_slots (am_tbl s) ! (1 - i)) = 0"
  using assms by (auto simp: synced_def agree_def table_active_def one_active_def split: if_splits)

text \<open>Sealing reads the window and leaves the disk alone.\<close>

lemma seal_loop_ok:
  "dev_ok bd \<Longrightarrow> unat lba + k < 2 ^ 64 \<Longrightarrow>
    \<exists>res bd'. seal_loop rd wr lba k crc bd = Some (res, bd') \<and> dev_ok bd' \<and> bd_dev bd' = bd_dev bd \<and>
      (unat lba + k \<le> cap \<longrightarrow> res \<noteq> None)"
proof (induction k arbitrary: lba crc bd)
  case (Suc k)
  have next1: "unat (lba + 1) = unat lba + 1" using unat_add_of_nat [of lba 1] Suc.prems(2) by simp
  show ?case
  proof (cases "unat lba < cap")
    case True
    obtain buf b1 where r: "block_read rd wr lba BLK_SECTOR_SIZE bd = Some (0, buf, b1)" "dev_ok b1" "bd_dev b1 = bd_dev bd"
      using block_read_ok [OF Suc.prems(1), of BLK_SECTOR_SIZE lba] True by (auto simp: sectors_def)
    have "unat (lba + 1) + k < 2 ^ 64" using Suc.prems(2) next1 by simp
    from Suc.IH [OF r(2) this] r next1 show ?thesis by fastforce
  next
    case False
    then have "lba + 1 > bd_capacity bd" using next1 Suc.prems(1) by (simp add: word_less_nat_alt dev_ok_def)
    then have "block_read rd wr lba BLK_SECTOR_SIZE bd = Some (- 1, [], bd)" by (simp add: block_read_def)
    with False Suc.prems(1) show ?thesis by simp
  qed
qed simp

lemma seal_ok:
  assumes s: "stored s" and win: "unat lba + unat n < 2 ^ 64"
  shows "\<exists>r s'. abmgr_slot_seal rd wr i lba n sq s = Some (r, s') \<and> stored s' \<and> (synced s \<and> int i \<noteq> st_active (am_stats s) \<longrightarrow> synced s') \<and>
    (0 < unat n \<and> i < AB_SLOTS \<and> unat lba + unat n \<le> cap \<longrightarrow> r = 0 \<and> am_stats s' = am_stats s \<and> am_table_lba s' = am_table_lba s \<and>
      (\<forall>j. j < AB_SLOTS \<longrightarrow> sl_active (tb_slots (am_tbl s') ! j) = (if j = i then 0 else sl_active (tb_slots (am_tbl s) ! j))))"
proof (cases "AB_SLOTS \<le> i \<or> n = 0")
  case True
  then show ?thesis using s by (auto simp: abmgr_slot_seal_def)
next
  case False
  have c: "core s" and act: "st_active (am_stats s) < int AB_SLOTS" using s by (auto simp: stored_def)
  then obtain bd where bd: "am_abd s = Some bd" "dev_ok bd" by (auto simp: core_def)
  have k: "unat (n * 512) div BLK_SECTOR_SIZE \<le> unat n"
    by (simp add: unat_word_ariths)
  obtain res bd1 where l: "seal_loop rd wr lba (unat (n * 512) div BLK_SECTOR_SIZE) 0xffffffff bd = Some (res, bd1)"
    "dev_ok bd1" "bd_dev bd1 = bd_dev bd" "unat lba + unat n \<le> cap \<longrightarrow> res \<noteq> None"
    using seal_loop_ok [OF bd(2), of lba "unat (n * 512) div BLK_SECTOR_SIZE" "0xffffffff"] k win by fastforce
  have len: "length (tb_slots (am_tbl s)) = AB_SLOTS" "am_loaded s" using c by (auto simp: core_def)
  show ?thesis
  proof (cases res)
    case None
    have "on_disk (s\<lparr>am_abd := Some bd1\<rparr>)" using s l(3) bd(1) by (auto simp: stored_def on_disk_def)
    then have "stored (s\<lparr>am_abd := Some bd1\<rparr>)" "synced s \<Longrightarrow> synced (s\<lparr>am_abd := Some bd1\<rparr>)"
      using core_upd(4) [OF c l(2)] act by (simp_all add: stored_def synced_def agree_def)
    moreover have "abmgr_slot_seal rd wr i lba n sq s = Some (- EIO, s\<lparr>am_abd := Some bd1\<rparr>)"
      using l(1) bd(1) len(2) False None by (simp add: abmgr_slot_seal_def)
    ultimately show ?thesis using l(4) None by simp
  next
    case (Some crc)
    define f :: "ab_slot \<Rightarrow> ab_slot" where "f = (\<lambda>sl. sl\<lparr>sl_crc := crc XOR 0xdeadc0de * ucast n, sl_seq := sq, sl_lba := lba,
       sl_nsect := n, sl_boot_attempts := 0, sl_confirmed := 0, sl_active := 0, sl_valid := 1\<rparr>)"
    have f: "sl_active (f sl) = 0" for sl by (simp add: f_def)
    let ?s = "s\<lparr>am_abd := Some bd1, am_tbl := upd_slot i f (am_tbl s)\<rparr>"
    have c1: "core ?s" using core_upd(1) [OF core_upd(4) [OF c l(2)], of i f] by simp
    obtain bd' where w: "table_write_checked rd wr ?s = Some (0, written ?s bd')"
      "core (written ?s bd')"
      "on_disk (written ?s bd')"
      using table_write_checked_ok [OF c1] by blast
    have ag: "agree ?s" if "int i \<noteq> st_active (am_stats s)" "synced s"
      using that False len by (auto simp: synced_def agree_def table_active_def one_active_def nth_list_update_if f split: if_splits)
    have "abmgr_slot_seal rd wr i lba n sq s = table_write_checked rd wr ?s"
      using l(1) bd(1) len(2) False Some by (simp add: abmgr_slot_seal_def f_def)
    then show ?thesis
      using w ag len False act by (auto simp: synced_def stored_def nth_list_update_if f)
  qed
qed

lemma boot_begin_ok:
  assumes s: "synced s"
  shows "\<exists>r s'. abmgr_boot_begin rd wr s = Some (r, s') \<and> synced s' \<and>
    (st_active (am_stats s) \<ge> 0 \<longrightarrow> r = 0 \<and> am_stats s' = am_stats s \<and>
      (let i = nat (st_active (am_stats s)); sl = tb_slots (am_tbl s) ! i
       in tb_slots (am_tbl s') = (tb_slots (am_tbl s))[i := sl\<lparr>sl_boot_attempts :=
            (if sl_boot_attempts sl < 255 then sl_boot_attempts sl + 1 else sl_boot_attempts sl)\<rparr>]))"
proof (cases "st_active (am_stats s) < 0")
  case True
  then show ?thesis using s by (simp add: abmgr_boot_begin_def)
next
  case False
  then obtain i where i: "i < AB_SLOTS" "st_active (am_stats s) = int i" using active_cases [OF s] by metis
  define f :: "ab_slot \<Rightarrow> ab_slot" where "f = (\<lambda>sl. if sl_boot_attempts sl < 255 then sl\<lparr>sl_boot_attempts := sl_boot_attempts sl + 1\<rparr> else sl)"
  have f: "f sl = sl\<lparr>sl_boot_attempts := (if sl_boot_attempts sl < 255 then sl_boot_attempts sl + 1 else sl_boot_attempts sl)\<rparr>"
    for sl :: ab_slot by (simp add: f_def)
  let ?s = "s\<lparr>am_tbl := upd_slot i f (am_tbl s)\<rparr>"
  have c: "core s" "agree s" using s by (simp_all add: synced_def)
  from write_syncs [OF core_upd(1) [OF c(1)] agree_upd [OF c, of f i]] i(1)
  obtain bd' where w: "table_write_checked rd wr ?s = Some (0, written ?s bd')"
    "synced (written ?s bd')" by (auto simp: f)
  have "am_loaded s" using c by (simp add: core_def)
  then have "abmgr_boot_begin rd wr s = table_write_checked rd wr ?s" using i(2) by (simp add: abmgr_boot_begin_def f_def)
  then show ?thesis using i w by (simp add: Let_def f)
qed

lemma confirm_ok:
  assumes s: "synced s"
  shows "\<exists>r s'. abmgr_confirm rd wr s = Some (r, s') \<and> synced s' \<and>
    (st_active (am_stats s) \<ge> 0 \<longrightarrow> r = 0 \<and> st_active (am_stats s') = st_active (am_stats s) \<and>
       sl_confirmed (tb_slots (am_tbl s') ! nat (st_active (am_stats s))) = 1)"
proof (cases "st_active (am_stats s) < 0")
  case True
  then show ?thesis using s by (simp add: abmgr_confirm_def)
next
  case False
  then obtain i where i: "i < AB_SLOTS" "st_active (am_stats s) = int i" using active_cases [OF s] by metis
  let ?f = "\<lambda>sl. sl\<lparr>sl_confirmed := 1, sl_boot_attempts := 0, sl_seq := sl_seq sl + 1\<rparr>"
  let ?s = "s\<lparr>am_tbl := upd_slot i ?f (am_tbl s), am_stats := (am_stats s)\<lparr>st_confirms := st_confirms (am_stats s) + 1\<rparr>\<rparr>"
  have c: "core s" "agree s" using s by (simp_all add: synced_def)
  have "agree ?s" using agree_upd [OF c, of ?f i] i(1) by (simp add: agree_def)
  from write_syncs [OF core_upd(2) [OF core_upd(1) [OF c(1)]] this]
  obtain bd' where "table_write_checked rd wr ?s = Some (0, written ?s bd')"
    "synced (written ?s bd')" by auto
  then show ?thesis using i c by (auto simp: abmgr_confirm_def core_def)
qed

text \<open>Activating one slot of a table in which no slot is active any more.\<close>

lemma switch_to_ok:
  assumes "core s" and "k < AB_SLOTS" and "sl_active (tb_slots (am_tbl s) ! (1 - k)) = 0"
    and "st_rollbacks (am_stats s) = tb_rollbacks (am_tbl s)"
  shows "\<exists>s'. switch_to rd wr k s = Some (0, s') \<and> synced s' \<and> st_active (am_stats s') = int k \<and>
    st_rollbacks (am_stats s') = st_rollbacks (am_stats s)"
proof -
  let ?f = "\<lambda>sl. sl\<lparr>sl_active := 1, sl_boot_attempts := 0\<rparr>"
  let ?s = "s\<lparr>am_tbl := upd_slot k ?f (am_tbl s), am_stats := (am_stats s)\<lparr>st_active := int k, st_switches := st_switches (am_stats s) + 1\<rparr>\<rparr>"
  have "agree ?s" using assms
    by (auto simp: agree_def table_active_def one_active_def core_def nth_list_update_if less_2_cases_iff)
  from write_syncs [OF core_upd(2) [OF core_upd(1) [OF assms(1)]] this] obtain bd' where
    "table_write_checked rd wr ?s = Some (0, written ?s bd')"
    "synced (written ?s bd')" by auto
  then show ?thesis by (auto simp: switch_to_def)
qed

lemma switch_ok:
  assumes s: "synced s"
  shows "\<exists>r s'. abmgr_switch rd wr s = Some (r, s') \<and> synced s' \<and> st_rollbacks (am_stats s') = st_rollbacks (am_stats s) \<and>
    (st_active (am_stats s) \<ge> 0 \<and> sl_valid (tb_slots (am_tbl s) ! (1 - nat (st_active (am_stats s)))) \<noteq> 0 \<longrightarrow>
       r = 0 \<and> st_active (am_stats s') = 1 - st_active (am_stats s))"
proof (cases "st_active (am_stats s) < 0")
  case True
  have c: "core s" "agree s" using s by (simp_all add: synced_def)
  then have none: "sl_active (tb_slots (am_tbl s) ! 0) = 0" "sl_active (tb_slots (am_tbl s) ! 1) = 0"
    using True by (auto simp: agree_def table_active_def split: if_splits)
  have rb: "st_rollbacks (am_stats s) = tb_rollbacks (am_tbl s)" using c by (simp add: agree_def)
  show ?thesis
    using True s switch_to_ok [OF c(1), of 0] switch_to_ok [OF c(1), of 1] none rb c
    by (auto simp: abmgr_switch_def Let_def core_def)
next
  case False
  obtain i where i: "i < AB_SLOTS" "st_active (am_stats s) = int i" "sl_active (tb_slots (am_tbl s) ! (1 - i)) = 0"
    using active_cases [OF s False] by metis
  have c: "core s" "agree s" using s by (simp_all add: synced_def)
  let ?s = "s\<lparr>am_tbl := upd_slot i (\<lambda>sl. sl\<lparr>sl_active := 0\<rparr>) (am_tbl s)\<rparr>"
  have len: "length (tb_slots (am_tbl s)) = AB_SLOTS" using c(1) by (simp add: core_def)
  have "\<exists>s'. switch_to rd wr (1 - i) ?s = Some (0, s') \<and> synced s' \<and> st_active (am_stats s') = int (1 - i) \<and>
    st_rollbacks (am_stats s') = st_rollbacks (am_stats ?s)"
    by (rule switch_to_ok [OF core_upd(1) [OF c(1)]]) (use i c(2) len in \<open>auto simp: agree_def\<close>)
  then show ?thesis using i s c(1) by (auto simp: abmgr_switch_def Let_def core_def)
qed

lemma evaluate_ok:
  assumes s: "synced s"
  shows "\<exists>r s'. abmgr_evaluate rd wr s = Some (r, s') \<and> synced s' \<and>
    (let i = nat (st_active (am_stats s)); sl = tb_slots (am_tbl s) ! i
     in st_active (am_stats s) \<ge> 0 \<longrightarrow>
        (if sl_confirmed sl \<noteq> 0 \<or> unat (sl_boot_attempts sl) < AB_MAX_ATTEMPTS then r = 0 \<and> s' = s
         else st_rollbacks (am_stats s') = st_rollbacks (am_stats s) + 1 \<and>
              (sl_valid (tb_slots (am_tbl s) ! (1 - i)) \<noteq> 0 \<longrightarrow> r = 1 \<and> st_active (am_stats s') = 1 - st_active (am_stats s))))"
proof -
  have c: "core s" "agree s" using s by (simp_all add: synced_def)
  let ?n = "st_rollbacks (am_stats s) + 1"
  let ?s = "s\<lparr>am_stats := (am_stats s)\<lparr>st_rollbacks := ?n\<rparr>, am_tbl := (am_tbl s)\<lparr>tb_rollbacks := ?n\<rparr>\<rparr>"
  have c1: "core ?s" using c(1) by (auto simp: core_def)
  have a1: "agree ?s" using c(2) by (simp add: agree_def table_active_def one_active_def)
  obtain bd' where w: "table_write_checked rd wr ?s = Some (0, written ?s bd')" "synced (written ?s bd')"
    using write_syncs [OF c1 a1] by blast
  obtain r s2 where sw: "abmgr_switch rd wr (written ?s bd') = Some (r, s2)" "synced s2" "st_rollbacks (am_stats s2) = ?n"
    "st_active (am_stats s) \<ge> 0 \<and> sl_valid (tb_slots (am_tbl s) ! (1 - nat (st_active (am_stats s)))) \<noteq> 0 \<longrightarrow>
       r = 0 \<and> st_active (am_stats s2) = 1 - st_active (am_stats s)"
    using switch_ok [OF w(2)] by auto
  have l: "am_loaded s" using c(1) by (simp add: core_def)
  show ?thesis using sw w s l unfolding abmgr_evaluate_def Let_def by auto
qed

text \<open>Every operation returns and leaves the table of memory on the disk, whatever the flags say.\<close>

lemma core_slot: "stored s \<Longrightarrow> core (s\<lparr>am_tbl := upd_slot i f (am_tbl s)\<rparr>)"
  using core_upd(1) by (simp add: stored_def)

lemma boot_begin_stored: "stored s \<Longrightarrow> \<exists>r s'. abmgr_boot_begin rd wr s = Some (r, s') \<and> stored s'"
  using write_stores [OF core_slot [of s]] by (fastforce simp: abmgr_boot_begin_def stored_def)

lemma confirm_stored:
  assumes s: "stored s"
  shows "\<exists>r s'. abmgr_confirm rd wr s = Some (r, s') \<and> stored s'"
proof -
  let ?i = "nat (st_active (am_stats s))" and ?f = "\<lambda>sl. sl\<lparr>sl_confirmed := 1, sl_boot_attempts := 0, sl_seq := sl_seq sl + 1\<rparr>"
  let ?s = "s\<lparr>am_tbl := upd_slot ?i ?f (am_tbl s), am_stats := (am_stats s)\<lparr>st_confirms := st_confirms (am_stats s) + 1\<rparr>\<rparr>"
  have "core ?s" by (rule core_upd(2) [OF core_slot [OF s]])
  then obtain s' where "table_write_checked rd wr ?s = Some (0, s')" "stored s'"
    using write_stores [of ?s] s by (auto simp: stored_def)
  then show ?thesis using s by (simp add: abmgr_confirm_def stored_def)
qed

lemma switch_to_stored:
  assumes "core s" and "k < AB_SLOTS"
  shows "\<exists>s'. switch_to rd wr k s = Some (0, s') \<and> stored s'"
proof -
  let ?s = "s\<lparr>am_tbl := upd_slot k (\<lambda>sl. sl\<lparr>sl_active := 1, sl_boot_attempts := 0\<rparr>) (am_tbl s),
    am_stats := (am_stats s)\<lparr>st_active := int k, st_switches := st_switches (am_stats s) + 1\<rparr>\<rparr>"
  have "core ?s" by (rule core_upd(2) [OF core_upd(1) [OF assms(1)]])
  then show ?thesis using write_stores [of ?s] assms(2) by (auto simp: switch_to_def)
qed

lemma switch_stored:
  assumes s: "stored s"
  shows "\<exists>r s'. abmgr_switch rd wr s = Some (r, s') \<and> stored s'"
proof -
  have c: "core s" using s by (simp add: stored_def)
  let ?s = "s\<lparr>am_tbl := upd_slot (nat (st_active (am_stats s))) (\<lambda>sl. sl\<lparr>sl_active := 0\<rparr>) (am_tbl s)\<rparr>"
  have "\<exists>s'. switch_to rd wr (1 - nat (st_active (am_stats s))) ?s = Some (0, s') \<and> stored s'"
    by (rule switch_to_stored [OF core_slot [OF s]]) simp
  with s switch_to_stored [OF c, of 0] switch_to_stored [OF c, of 1] show ?thesis
    unfolding abmgr_switch_def Let_def by auto
qed

lemma evaluate_stored:
  assumes s: "stored s"
  shows "\<exists>r s'. abmgr_evaluate rd wr s = Some (r, s') \<and> stored s'"
proof -
  let ?n = "st_rollbacks (am_stats s) + 1"
  let ?s = "s\<lparr>am_stats := (am_stats s)\<lparr>st_rollbacks := ?n\<rparr>, am_tbl := (am_tbl s)\<lparr>tb_rollbacks := ?n\<rparr>\<rparr>"
  have "core ?s" "st_active (am_stats ?s) < int AB_SLOTS" using s by (auto simp: stored_def core_def)
  from write_stores [OF this] obtain s1 where s1: "table_write_checked rd wr ?s = Some (0, s1)" "stored s1" by blast
  from switch_stored [OF s1(2)] obtain r s2 where "abmgr_switch rd wr s1 = Some (r, s2)" "stored s2" by blast
  with s1(1) s show ?thesis unfolding abmgr_evaluate_def Let_def by simp
qed

lemma put_stored:
  assumes s: "stored s"
  shows "\<exists>r s'. abmgr_table_put rd wr (Some (table_of_bytes bs)) s = Some (r, s') \<and> stored s' \<and>
    (\<not> table_valid (table_of_bytes bs) \<longrightarrow> s' = s)"
proof (cases "table_valid (table_of_bytes bs)")
  case True
  have "length (tb_slots (table_of_bytes bs)) = AB_SLOTS" by (simp add: table_of_bytes_def numeral_2_eq_2)
  then have "core (s\<lparr>am_tbl := table_of_bytes bs\<rparr>)" using s True by (auto simp: stored_def core_def table_valid_def)
  from write_stores [OF this] s True show ?thesis by (auto simp: abmgr_table_put_def stored_def core_def)
qed (use s in \<open>simp add: abmgr_table_put_def\<close>)

lemma step_stored: "stored s \<Longrightarrow> ab_window op \<Longrightarrow> \<exists>r s'. ab_exec rd wr op s = Some (r, s') \<and> stored s'"
proof (cases op)
  case (Seal i lba n sq)
  assume "stored s" "ab_window op"
  then show ?thesis using seal_ok [of s lba n i sq] Seal by auto
next
  case (Put bs)
  assume "stored s"
  then show ?thesis using put_stored [of s bs] Put by auto
qed (use boot_begin_stored confirm_stored switch_stored evaluate_stored in \<open>simp_all\<close>)

lemma step_ok: "synced s \<Longrightarrow> ab_window op \<Longrightarrow> ab_keeps op s \<Longrightarrow> ab_exec rd wr op s = Some (r, s') \<Longrightarrow> synced s'"
proof (cases op)
  case (Seal i lba n sq)
  assume s: "synced s" "ab_window op" "ab_keeps op s" "ab_exec rd wr op s = Some (r, s')"
  from seal_ok [OF synced_stored [OF s(1)], of lba n i sq] s Seal show ?thesis by auto
next
  case (Put bs)
  assume s: "synced s" "ab_keeps op s" "ab_exec rd wr op s = Some (r, s')"
  from put_stored [OF synced_stored [OF s(1)], of bs] s Put show ?thesis by auto
qed (use boot_begin_ok confirm_ok switch_ok evaluate_ok in \<open>fastforce\<close>)+

lemma reach_stored: "ab_reach rd wr s0 b s \<Longrightarrow> synced s0 \<Longrightarrow> stored s \<and> (b \<longrightarrow> synced s)"
proof (induction rule: ab_reach.induct)
  case (step b s op r s')
  then have s: "stored s" "b \<longrightarrow> synced s" by blast+
  from step_stored [OF s(1) step.hyps(2)] step.hyps(3) have "stored s'" by auto
  with step_ok [OF _ step.hyps(2) _ step.hyps(3)] s(2) show ?case by blast
qed (simp add: synced_stored)

lemma boot_counts:
  assumes s: "synced s" and i: "st_active (am_stats s) = int i" "i < AB_SLOTS"
    and a: "unat (sl_boot_attempts (tb_slots (am_tbl s) ! i)) = a" "a < 255"
  shows "\<exists>s'. abmgr_boot_begin rd wr s = Some (0, s') \<and> synced s' \<and> am_stats s' = am_stats s \<and>
    unat (sl_boot_attempts (tb_slots (am_tbl s') ! i)) = a + 1 \<and>
    sl_confirmed (tb_slots (am_tbl s') ! i) = sl_confirmed (tb_slots (am_tbl s) ! i) \<and>
    tb_slots (am_tbl s') ! (1 - i) = tb_slots (am_tbl s) ! (1 - i)"
proof -
  let ?n = "sl_boot_attempts (tb_slots (am_tbl s) ! i)"
  have len: "length (tb_slots (am_tbl s)) = AB_SLOTS" using s by (simp add: synced_def core_def)
  have ne: "Suc 0 - i \<noteq> i" by arith
  have lt: "?n < 255" using a by (simp add: word_less_nat_alt)
  have "unat (?n + of_nat 1) = a + 1" by (subst unat_add_of_nat) (use a in simp_all)
  then show ?thesis using boot_begin_ok [OF s] i len lt ne by (auto simp: Let_def nth_list_update_if)
qed

lemma three_boots_roll_back:
  assumes s: "synced s" and i: "st_active (am_stats s) = int i" "i < AB_SLOTS"
    and c: "sl_confirmed (tb_slots (am_tbl s) ! i) = 0" and b: "sl_boot_attempts (tb_slots (am_tbl s) ! i) = 0"
    and v: "sl_valid (tb_slots (am_tbl s) ! (1 - i)) \<noteq> 0"
  shows "\<exists>s1 s2 s3 s4. abmgr_boot_begin rd wr s = Some (0, s1) \<and> abmgr_evaluate rd wr s1 = Some (0, s1) \<and>
    abmgr_boot_begin rd wr s1 = Some (0, s2) \<and> abmgr_evaluate rd wr s2 = Some (0, s2) \<and>
    abmgr_boot_begin rd wr s2 = Some (0, s3) \<and> abmgr_evaluate rd wr s3 = Some (1, s4) \<and>
    synced s4 \<and> abmgr_active s4 = 1 - int i \<and> st_rollbacks (am_stats s4) = st_rollbacks (am_stats s) + 1"
proof -
  let ?P = "\<lambda>k s'. synced s' \<and> am_stats s' = am_stats s \<and> unat (sl_boot_attempts (tb_slots (am_tbl s') ! i)) = k \<and>
    sl_confirmed (tb_slots (am_tbl s') ! i) = 0 \<and> tb_slots (am_tbl s') ! (1 - i) = tb_slots (am_tbl s) ! (1 - i)"
  have boot: "\<exists>s''. abmgr_boot_begin rd wr s' = Some (0, s'') \<and> ?P (k + 1) s''" if "?P k s'" "k < 255" for k s'
    using boot_counts [of s' i k] that i by fastforce
  have keep: "abmgr_evaluate rd wr s' = Some (0, s')" if "?P k s'" "k < AB_MAX_ATTEMPTS" for k s'
    using evaluate_ok [of s'] that i by (auto simp: Let_def)
  obtain s1 where s1: "abmgr_boot_begin rd wr s = Some (0, s1)" "?P 1 s1" using boot [where k = 0 and s' = s] s b c by auto
  obtain s2 where s2: "abmgr_boot_begin rd wr s1 = Some (0, s2)" "?P 2 s2" using boot [OF s1(2)] by (auto simp: numeral_2_eq_2)
  obtain s3 where s3: "abmgr_boot_begin rd wr s2 = Some (0, s3)" "?P 3 s3" using boot [OF s2(2)] by (auto simp: numeral_3_eq_3 numeral_2_eq_2)
  obtain s4 where s4: "abmgr_evaluate rd wr s3 = Some (1, s4)" "synced s4" "st_active (am_stats s4) = 1 - int i"
    "st_rollbacks (am_stats s4) = st_rollbacks (am_stats s) + 1"
    using evaluate_ok [of s3] s3(2) i v by (auto simp: Let_def)
  have "abmgr_active s4 = 1 - int i" using s4(2,3) by (simp add: abmgr_active_def synced_def core_def)
  then show ?thesis using s1 s2 s3 s4 keep [OF s1(2)] keep [OF s2(2)] by auto
qed

lemma seal_active_forgets:
  assumes s: "synced s" and i: "st_active (am_stats s) = int i" "i < AB_SLOTS"
    and w: "unat lba + unat n \<le> cap" "n \<noteq> 0"
  shows "\<exists>s1 s2. abmgr_slot_seal rd wr i lba n sq s = Some (0, s1) \<and> abmgr_active s1 = int i \<and>
    abmgr_attach rd wr (am_abd s1) (am_table_lba s1) s0 = Some (0, s2) \<and> abmgr_active s2 = - 1"
proof -
  obtain bd where "dev_ok bd" using s by (auto simp: synced_def core_def)
  then have "cap < 2 ^ 64" using unsigned_less [of "bd_capacity bd"] by (auto simp: dev_ok_def)
  then have win: "unat lba + unat n < 2 ^ 64" using w(1) by simp
  obtain s1 where s1: "abmgr_slot_seal rd wr i lba n sq s = Some (0, s1)" "core s1" "on_disk s1" "am_stats s1 = am_stats s"
    "\<And>j. j < AB_SLOTS \<Longrightarrow> sl_active (tb_slots (am_tbl s1) ! j) = (if j = i then 0 else sl_active (tb_slots (am_tbl s) ! j))"
    using seal_ok [OF synced_stored [OF s] win, of i sq] i(2) w by (auto simp: unat_gt_0 stored_def)
  have "sl_active (tb_slots (am_tbl s) ! (1 - i)) = 0" using active_cases [OF s] i by (metis of_nat_eq_iff of_nat_less_0_iff)
  then have none: "sl_active (tb_slots (am_tbl s1) ! 0) = 0" "sl_active (tb_slots (am_tbl s1) ! Suc 0) = 0"
    using s1(5) [of 0] s1(5) [of 1] i(2) by (auto simp: less_2_cases_iff)
  define s1' where "s1' = s1\<lparr>am_stats := (am_stats s1)\<lparr>st_active := - 1, st_rollbacks := tb_rollbacks (am_tbl s1)\<rparr>\<rparr>"
  have "synced s1'" using s1(2,3) none
    by (auto simp: s1'_def synced_def core_def on_disk_def agree_def table_active_def one_active_def)
  from attach_synced [OF this, of s0] show ?thesis
    using s1 i by (auto simp: s1'_def abmgr_active_def core_def)
qed

end

section \<open>Properties of the slot manager\<close>

text \<open>C34: The slot table survives a reboot at every moment. Attach the manager to a device whose sector
  holds no valid table or a table with at most one active slot, and run any sequence of seals, of any slot
  and any window whose end is a 64-bit sector number,
  boots, confirms, switches, evaluations and puts of any table. Then the attach succeeded, every further operation returns,
  and a manager that attaches afresh finds the same table as the running one has. As long as no call
  sealed the slot that was running and no valid table was put, at most one slot of the table is active, and the fresh manager
  also finds the same active slot and the same rollback count. With such a call it need not:
  \<open>sealing_active_slot_loses_it\<close>.\<close>

theorem abmgr_survives_reboot:
  fixes rd :: "'d reader" and wr :: "'d writer" and dinv :: "'d \<Rightarrow> bool" and dsec :: "'d \<Rightarrow> nat \<Rightarrow> u8 list"
  assumes "block_driver rd wr dinv dsec cap" and "block_driver.dev_ok dinv dsec cap bd" and "unat lba < cap"
    and "let t = table_of_bytes (take AB_TABLE_SIZE (dsec (bd_dev bd) (unat lba))) in table_valid t \<longrightarrow> one_active t"
  shows "\<exists>s0. abmgr_attach rd wr (Some bd) lba s = Some (0, s0) \<and>
    (\<forall>b s1. ab_reach rd wr s0 b s1 \<longrightarrow>
      (\<forall>op. ab_window op \<longrightarrow> ab_exec rd wr op s1 \<noteq> None) \<and>
      (\<exists>s2. abmgr_attach rd wr (am_abd s1) (am_table_lba s1) s = Some (0, s2) \<and> am_tbl s2 = am_tbl s1 \<and>
         (b \<longrightarrow> one_active (am_tbl s1) \<and> abmgr_active s2 = abmgr_active s1 \<and>
            st_rollbacks (am_stats s2) = st_rollbacks (am_stats s1))))"
proof -
  note D = assms(1)
  obtain s0 where s0: "abmgr_attach rd wr (Some bd) lba s = Some (0, s0)" "block_driver.synced dinv dsec cap s0"
    using block_driver.attach_syncs [OF assms] by blast
  have "(\<forall>op. ab_window op \<longrightarrow> ab_exec rd wr op s1 \<noteq> None) \<and>
      (\<exists>s2. abmgr_attach rd wr (am_abd s1) (am_table_lba s1) s = Some (0, s2) \<and> am_tbl s2 = am_tbl s1 \<and>
         (b \<longrightarrow> one_active (am_tbl s1) \<and> abmgr_active s2 = abmgr_active s1 \<and>
            st_rollbacks (am_stats s2) = st_rollbacks (am_stats s1)))"
    if "ab_reach rd wr s0 b s1" for b s1
  proof -
    have y: "block_driver.stored dinv dsec cap s1" "b \<longrightarrow> block_driver.synced dinv dsec cap s1"
      using block_driver.reach_stored [OF D that s0(2)] by blast+
    obtain s2 where s2: "abmgr_attach rd wr (am_abd s1) (am_table_lba s1) s = Some (0, s2)" "am_tbl s2 = am_tbl s1"
      "st_active (am_stats s2) = table_active (am_tbl s1)" "st_rollbacks (am_stats s2) = tb_rollbacks (am_tbl s1)" "am_loaded s2"
      using block_driver.attach_stored [OF D y(1), of s] by blast
    have "\<forall>op. ab_window op \<longrightarrow> ab_exec rd wr op s1 \<noteq> None"
      using block_driver.step_stored [OF D y(1)] by fastforce
    moreover have "b \<longrightarrow> one_active (am_tbl s1) \<and> abmgr_active s2 = abmgr_active s1 \<and> st_rollbacks (am_stats s2) = st_rollbacks (am_stats s1)"
      using y(2) s2(3-5)
      by (auto simp: abmgr_active_def block_driver.synced_def [OF D] block_driver.core_def [OF D] block_driver.agree_def [OF D])
    ultimately show ?thesis using s2(1,2) by blast
  qed
  with s0(1) show ?thesis by blast
qed

lemma zero_table_invalid: "\<not> table_valid (table_of_bytes (replicate AB_TABLE_SIZE 0))"
  by (simp add: table_valid_def table_of_bytes_def numeral_eq_Suc)

lemma ram_dev_blank: "take AB_TABLE_SIZE (disk_sector (bd_dev ram_dev) 8) = replicate AB_TABLE_SIZE 0"
  by (simp add: disk_sector_def ram_dev_def block_register_def rd_dev_def)

theorem abmgr_survives_reboot_witness:
  "\<exists>s0. abmgr_attach rd_read rd_write (Some ram_dev) 8 abmgr_boot = Some (0, s0) \<and>
     (\<exists>s2. abmgr_attach rd_read rd_write (am_abd s0) (am_table_lba s0) abmgr_boot = Some (0, s2) \<and> am_tbl s2 = am_tbl s0 \<and>
        abmgr_active s2 = abmgr_active s0)"
proof -
  from abmgr_survives_reboot [OF ramdisk.block_driver_axioms ram_dev_ok, of 8 abmgr_boot] ram_dev_blank zero_table_invalid
  obtain s0 where s0: "abmgr_attach rd_read rd_write (Some ram_dev) 8 abmgr_boot = Some (0, s0)"
    and r: "\<And>b s1. ab_reach rd_read rd_write s0 b s1 \<Longrightarrow>
      \<exists>s2. abmgr_attach rd_read rd_write (am_abd s1) (am_table_lba s1) abmgr_boot = Some (0, s2) \<and> am_tbl s2 = am_tbl s1 \<and>
        (b \<longrightarrow> abmgr_active s2 = abmgr_active s1)"
    by (auto simp: Let_def) blast
  from r [OF ab_reach.start] s0 show ?thesis by auto
qed

text \<open>C35: An update that is never confirmed is undone. From a synchronised state whose active slot
  \<open>i\<close> is fresh (no boot counted, not confirmed) and whose other slot is sealed, two counted boots
  leave the slot active, and after the third \<open>abmgr_evaluate\<close> reports the rollback, the other slot
  is active, the rollback counter went up by one, and the table on the disk says so too.\<close>

theorem unconfirmed_slot_rolls_back:
  fixes rd :: "'d reader" and wr :: "'d writer" and dinv :: "'d \<Rightarrow> bool" and dsec :: "'d \<Rightarrow> nat \<Rightarrow> u8 list"
  assumes "block_driver rd wr dinv dsec cap" and "block_driver.synced dinv dsec cap s"
    and "st_active (am_stats s) = int i" and "i < AB_SLOTS"
    and "sl_confirmed (tb_slots (am_tbl s) ! i) = 0" and "sl_boot_attempts (tb_slots (am_tbl s) ! i) = 0"
    and "sl_valid (tb_slots (am_tbl s) ! (1 - i)) \<noteq> 0"
  shows "\<exists>s1 s2 s3 s4. abmgr_boot_begin rd wr s = Some (0, s1) \<and> abmgr_evaluate rd wr s1 = Some (0, s1) \<and>
    abmgr_boot_begin rd wr s1 = Some (0, s2) \<and> abmgr_evaluate rd wr s2 = Some (0, s2) \<and>
    abmgr_boot_begin rd wr s2 = Some (0, s3) \<and> abmgr_evaluate rd wr s3 = Some (1, s4) \<and>
    block_driver.synced dinv dsec cap s4 \<and> abmgr_active s4 = 1 - int i \<and>
    st_rollbacks (am_stats s4) = st_rollbacks (am_stats s) + 1"
  by (rule block_driver.three_boots_roll_back [OF assms])

definition two_slots_boot :: "u8 list abmgr" where
  "two_slots_boot = \<lparr>am_abd = Some ram_dev, am_table_lba = 8,
     am_tbl = \<lparr>tb_magic = AB_MAGIC, tb_version = AB_TABLE_VERSION,
       tb_slots = [zero_slot\<lparr>sl_valid := 1, sl_active := 1\<rparr>, zero_slot\<lparr>sl_valid := 1\<rparr>], tb_rollbacks = 0, tb_crc = 0\<rparr>,
     am_loaded = True, am_stats = \<lparr>st_active = 0, st_rollbacks = 0, st_confirms = 0, st_switches = 0\<rparr>\<rparr>"

lemma two_slots_synced:
  "\<exists>bd. ramdisk.synced (written two_slots_boot bd) \<and> am_tbl (written two_slots_boot bd) = (am_tbl two_slots_boot)\<lparr>tb_crc := table_crc (am_tbl two_slots_boot)\<rparr>"
proof -
  have "ramdisk.core two_slots_boot" "ramdisk.agree two_slots_boot"
    unfolding ramdisk.core_def ramdisk.agree_def using ram_dev_ok
    by (simp_all add: two_slots_boot_def table_active_def one_active_def zero_slot_def)
  from ramdisk.write_syncs [OF this] show ?thesis by (auto simp: written_def)
qed

theorem unconfirmed_slot_rolls_back_witness:
  "\<exists>s s1 s2 s3 s4. abmgr_active s = 0 \<and> abmgr_boot_begin rd_read rd_write s = Some (0, s1) \<and>
    abmgr_boot_begin rd_read rd_write s1 = Some (0, s2) \<and> abmgr_boot_begin rd_read rd_write s2 = Some (0, s3) \<and>
    abmgr_evaluate rd_read rd_write s3 = Some (1, s4) \<and> abmgr_active s4 = 1"
proof -
  obtain bd where "ramdisk.synced (written two_slots_boot bd)" using two_slots_synced by blast
  from unconfirmed_slot_rolls_back [OF ramdisk.block_driver_axioms this, of 0]
  obtain s1 s2 s3 s4 where "abmgr_boot_begin rd_read rd_write (written two_slots_boot bd) = Some (0, s1)"
    "abmgr_boot_begin rd_read rd_write s1 = Some (0, s2)" "abmgr_boot_begin rd_read rd_write s2 = Some (0, s3)"
    "abmgr_evaluate rd_read rd_write s3 = Some (1, s4)" "abmgr_active s4 = 1"
    by (auto simp: two_slots_boot_def zero_slot_def)
  moreover have "abmgr_active (written two_slots_boot bd) = 0" by (simp add: abmgr_active_def two_slots_boot_def)
  ultimately show ?thesis by blast
qed

text \<open>Sealing the running slot makes memory and table disagree: \<open>abmgr_slot_seal\<close> clears the
  active mark of the slot it seals, but the manager goes on reporting the slot as active, and
  after the next attach no slot is active any more.\<close>

theorem sealing_active_slot_loses_it:
  fixes rd :: "'d reader" and wr :: "'d writer" and dinv :: "'d \<Rightarrow> bool" and dsec :: "'d \<Rightarrow> nat \<Rightarrow> u8 list"
  assumes "block_driver rd wr dinv dsec cap" and "block_driver.synced dinv dsec cap s"
    and "st_active (am_stats s) = int i" and "i < AB_SLOTS" and "unat lba + unat n \<le> cap" and "n \<noteq> 0"
  shows "\<exists>s1 s2. abmgr_slot_seal rd wr i lba n sq s = Some (0, s1) \<and> abmgr_active s1 = int i \<and>
    abmgr_attach rd wr (am_abd s1) (am_table_lba s1) s0 = Some (0, s2) \<and> abmgr_active s2 = - 1"
  by (rule block_driver.seal_active_forgets [OF assms])

theorem sealing_active_slot_loses_it_witness:
  "\<exists>s s1 s2. abmgr_slot_seal rd_read rd_write 0 16 32 7 s = Some (0, s1) \<and> abmgr_active s1 = 0 \<and>
    abmgr_attach rd_read rd_write (am_abd s1) (am_table_lba s1) s = Some (0, s2) \<and> abmgr_active s2 = - 1"
proof -
  obtain bd where "ramdisk.synced (written two_slots_boot bd)" using two_slots_synced by blast
  from sealing_active_slot_loses_it [OF ramdisk.block_driver_axioms this, of 0 16 32 7 "written two_slots_boot bd"]
  obtain s1 s2 where "abmgr_slot_seal rd_read rd_write 0 16 32 7 (written two_slots_boot bd) = Some (0, s1)" "abmgr_active s1 = 0"
    "abmgr_attach rd_read rd_write (am_abd s1) (am_table_lba s1) (written two_slots_boot bd) = Some (0, s2)" "abmgr_active s2 = - 1"
    by (auto simp: two_slots_boot_def)
  then show ?thesis by blast
qed

end
