(* ===== verification/Sms.thy ===== *)
theory Sms
  imports Prelude
begin

text \<open>
  Short messages (\<open>drivers/sms.c\<close>): the 7-bit alphabet, septet packing and unpacking, BCD
  addresses, SMS-SUBMIT and SMS-DELIVER units, and the text format of the message store. C
  strings are byte lists without their terminator. An index outside its object is \<open>None\<close>:
  packing into a buffer never leaves it, but unpacking and the unit builder can.
\<close>

type_synonym bytes = "u8 list"

section \<open>The 7-bit alphabet\<close>

definition char_to_gsm :: "u8 \<Rightarrow> u8" where
  "char_to_gsm c =
    (if c = 0x40 then 0x00 else if c = 0x24 then 0x02 else if c = 0x0a then 0x0a else if c = 0x0d then 0x0d
     else if 0x20 \<le> c \<and> c \<le> 0x5f then c - 0x20 + 0x20
     else if 0x61 \<le> c \<and> c \<le> 0x7a then c - 0x61 + 0x61
     else 0x20)"

definition gsm_to_char :: "u8 \<Rightarrow> u8" where
  "gsm_to_char g =
    (if g = 0x00 then 0x40 else if g = 0x02 then 0x24 else if g = 0x0a then 0x0a else if g = 0x0d then 0x0d
     else if 0x20 \<le> g \<and> g \<le> 0x5f then 0x20 + g - 0x20
     else if 0x61 \<le> g \<and> g \<le> 0x7a then 0x61 + g - 0x61
     else 0x20)"

section \<open>Septets\<close>

text \<open>One septet goes to bit offset \<open>bitpos\<close>: its low part into one byte, the rest into the next
  byte when that is inside the buffer.\<close>

definition put_septet :: "nat \<Rightarrow> u8 \<Rightarrow> bytes \<Rightarrow> bytes" where
  "put_septet bitpos g out =
    (let byte = bitpos div 8; shift = bitpos mod 8;
         out1 = out[byte := out ! byte OR push_bit shift g]
     in if shift \<noteq> 0 \<and> byte + 1 < length out
        then out1[byte + 1 := out1 ! (byte + 1) OR drop_bit (8 - shift) g] else out1)"

fun encode_loop :: "bytes \<Rightarrow> nat \<Rightarrow> bytes \<Rightarrow> int \<times> bytes" where
  "encode_loop [] bitpos out = (int ((bitpos + 7) div 8), out)"
| "encode_loop (c # cs) bitpos out =
    (if length out \<le> bitpos div 8 then (- 1, out)
     else encode_loop cs (bitpos + 7) (put_septet bitpos (char_to_gsm c) out))"

text \<open>\<open>out\<close> is not null.\<close>

definition sms_encode_7bit :: "bytes \<Rightarrow> nat \<Rightarrow> int \<times> bytes" where
  "sms_encode_7bit text cap = (if cap = 0 then (- 1, []) else encode_loop text 0 (replicate cap 0))"

definition get_septet :: "nat \<Rightarrow> bytes \<Rightarrow> u8 option" where
  "get_septet bitpos inp =
    (let byte = bitpos div 8; shift = bitpos mod 8
     in if length inp \<le> byte then None
        else if shift = 0 then Some (drop_bit shift (inp ! byte) AND 0x7f)
        else if length inp \<le> byte + 1 then None
        else Some ((drop_bit shift (inp ! byte) OR push_bit (8 - shift) (inp ! (byte + 1))) AND 0x7f))"

fun decode_loop :: "nat \<Rightarrow> bytes \<Rightarrow> nat \<Rightarrow> nat \<Rightarrow> bytes \<Rightarrow> bytes option" where
  "decode_loop 0 inp bitpos cap out = Some out"
| "decode_loop (Suc k) inp bitpos cap out =
    (if cap \<le> length out + 1 then Some out
     else case get_septet bitpos inp of
       None \<Rightarrow> None
     | Some g \<Rightarrow> decode_loop k inp (bitpos + 7) cap (out @ [gsm_to_char g]))"

definition sms_decode_7bit :: "bytes \<Rightarrow> nat \<Rightarrow> nat \<Rightarrow> bytes option" where
  "sms_decode_7bit inp septets cap = decode_loop septets inp 0 cap []"

section \<open>Addresses\<close>

fun addr_bcd_loop :: "bytes \<Rightarrow> nat \<Rightarrow> bytes \<Rightarrow> bytes option" where
  "addr_bcd_loop [] cap out = Some out"
| "addr_bcd_loop (d # ds) cap out =
    (let lo = d - 0x30; hi = (case ds of [] \<Rightarrow> 0x0f | e # _ \<Rightarrow> e - 0x30)
     in if cap \<le> length out then None
        else addr_bcd_loop (tl ds) cap
          (out @ [(if lo > 9 then 0 else lo) OR push_bit 4 (if hi > 9 then 0x0f else hi)]))"

definition addr_bcd :: "bytes \<Rightarrow> nat \<Rightarrow> bytes option" where
  "addr_bcd digits cap = addr_bcd_loop digits cap []"

fun addr_decode_loop :: "bytes \<Rightarrow> nat list \<Rightarrow> nat \<Rightarrow> bytes \<Rightarrow> bytes" where
  "addr_decode_loop inp [] cap out = out"
| "addr_decode_loop inp (i # is) cap out =
    (if cap \<le> length out + 1 then out
     else
       let b = inp ! (i div 2); nib = (if odd i then drop_bit 4 b else b AND 0x0f)
       in if nib > 9 then out else addr_decode_loop inp is cap (out @ [0x30 + nib]))"

definition addr_bcd_decode :: "bytes \<Rightarrow> nat \<Rightarrow> nat \<Rightarrow> bytes" where
  "addr_bcd_decode inp ndigits cap = addr_decode_loop inp [0..<ndigits] cap []"

section \<open>Protocol units\<close>

text \<open>The builder writes the unit byte by byte; \<open>None\<close> is a store behind the end of the buffer of
  \<open>cap\<close> bytes or a read behind the 160 bytes of \<open>ud\<close>.\<close>

definition sms_build_submit_pdu :: "bytes \<Rightarrow> bytes \<Rightarrow> nat \<Rightarrow> (int \<times> bytes) option" where
  "sms_build_submit_pdu to text cap =
    (if cap < 32 then Some (- 1, [])
     else
       let (ud_bytes, ud) = sms_encode_7bit text 160;
           head = [0x00, 0x01, 0x00, of_nat (length to), 0x81]
       in if ud_bytes < 0 then Some (- 1, [])
          else case addr_bcd to (cap - 5) of
            None \<Rightarrow> Some (- 1, head)
          | Some ab \<Rightarrow>
              let pdu = head @ ab @ [0x00, 0x00, of_nat (length text)]
              in if cap < length pdu then None
                 else if cap < length pdu + nat ud_bytes then Some (- 1, pdu)
                 else if 160 < nat ud_bytes then None
                 else Some (int (length pdu + nat ud_bytes), pdu @ take (nat ud_bytes) ud))"

text \<open>Result: status, sender and text; the outer \<open>None\<close> is a read behind the unit.\<close>

definition sms_parse_deliver_pdu :: "bytes \<Rightarrow> nat \<Rightarrow> nat \<Rightarrow> (int \<times> bytes \<times> bytes) option" where
  "sms_parse_deliver_pdu pdu sender_cap text_cap =
    (let len = length pdu
     in if len < 2 then Some (- 1, [], [])
        else
          let oa_digits = unat (pdu ! 1); oa = (oa_digits + 1) div 2
          in if len < 3 + oa + 2 + 7 + 1 then Some (- 1, [], [])
             else
               let sender = addr_bcd_decode (drop 3 pdu) oa_digits sender_cap;
                   o1 = 3 + oa + 2 + 7; udl = unat (pdu ! o1)
               in if len < o1 + 1 + (udl * 7 + 7) div 8 then Some (- 1, sender, [])
                  else map_option (\<lambda>t. (0, sender, t)) (sms_decode_7bit (drop (o1 + 1) pdu) udl text_cap))"

section \<open>The message store\<close>

text \<open>Path and line of a stored message, and how a line of at most 191 bytes is taken apart.
  The file operations between the two belong to the virtual file system.\<close>

fun num_digits :: "nat \<Rightarrow> nat \<Rightarrow> bytes" where
  "num_digits 0 v = []"
| "num_digits (Suc k) v = of_nat (48 + v mod 10) # (if v div 10 = 0 then [] else num_digits k (v div 10))"

definition msg_path :: "u32 \<Rightarrow> bytes" where
  "msg_path sq = map (\<lambda>c. of_nat (of_char c)) ''/sms/msg'' @ rev (num_digits 10 (unat sq))"

definition FROM :: bytes where
  "FROM = [0x46, 0x52, 0x4f, 0x4d, 0x20]"

definition msg_line :: "bytes \<Rightarrow> bytes \<Rightarrow> bytes" where
  "msg_line sender text = FROM @ sender @ [0x0a] @ text"

definition msg_split :: "bytes \<Rightarrow> nat \<Rightarrow> nat \<Rightarrow> (bytes \<times> bytes) option" where
  "msg_split file sender_cap text_cap =
    (let buf = take 191 file; str = takeWhile (\<lambda>c. c \<noteq> 0) buf; rest = drop 5 str
     in if buf = [] then None
        else if take 5 str \<noteq> FROM then None
        else if 0x0a \<notin> set rest then None
        else
          let snd = takeWhile (\<lambda>c. c \<noteq> 0x0a) rest; txt = drop (length snd + 1) rest
          in Some (take (sender_cap - 1) snd, take (text_cap - 1) txt))"

end
