(* ===== verification/Sms_Props.thy ===== *)
theory Sms_Props
  imports Sms
begin

text \<open>
  Packing and unpacking are inverse on the alphabet: both are described by the bit stream of a
  buffer, in which septet \<open>j\<close> occupies the bits \<open>7 * j\<close> to \<open>7 * j + 6\<close>. Addresses survive
  their BCD form, a delivered unit is taken apart into the sender and the text it was made of,
  and a stored line into its two parts. One theorem gives the inputs on which the code leaves
  its buffers.
\<close>

section \<open>The bit stream of a buffer\<close>

definition sbit :: "bytes \<Rightarrow> nat \<Rightarrow> bool" where
  "sbit buf p \<longleftrightarrow> p div 8 < length buf \<and> bit (buf ! (p div 8)) (p mod 8)"

lemma bit_u8_less: "bit (w :: u8) n \<Longrightarrow> n < 8"
  using bit_imp_le_length [of w n] by simp

lemma char_to_gsm_7bit: "bit (char_to_gsm c) n \<Longrightarrow> n < 7"
proof -
  assume b: "bit (char_to_gsm c) n"
  have "unat (char_to_gsm c) < 2 ^ 7"
    by (auto simp: char_to_gsm_def word_le_nat_alt)
  then have "take_bit 7 (unat (char_to_gsm c)) = unat (char_to_gsm c)" by (rule take_bit_nat_eq_self)
  moreover have "bit (unat (char_to_gsm c)) n" using b by (simp add: bit_unsigned_iff)
  ultimately show "n < 7" by (metis bit_take_bit_iff)
qed

lemma length_put_septet [simp]: "length (put_septet p g out) = length out"
  by (simp add: put_septet_def Let_def)

lemma sbit_at: "r < 8 \<Longrightarrow> sbit buf (8 * k + r) \<longleftrightarrow> k < length buf \<and> bit (buf ! k) r"
  by (simp add: sbit_def)

lemma sbit_put_septet:
  assumes "p div 8 < length out"
  shows "sbit (put_septet p g out) q \<longleftrightarrow> q div 8 < length out \<and> (sbit out q \<or> p \<le> q \<and> q < p + 8 \<and> bit g (q - p))"
proof -
  obtain b s where p: "p = 8 * b + s" "s < 8" by (metis div_mod_decomp mod_less_divisor mult.commute zero_less_numeral)
  obtain c r where q: "q = 8 * c + r" "r < 8" by (metis div_mod_decomp mod_less_divisor mult.commute zero_less_numeral)
  have ps: "p div 8 = b" "p mod 8 = s" and qs: "q div 8 = c" "q mod 8 = r" using p q by auto
  have b: "b < length out" using assms ps by simp
  consider "c = b" | "c = b + 1" | "c \<noteq> b" "c \<noteq> b + 1" by blast
  then show ?thesis
  proof cases
    case 1
    have "(p \<le> q \<and> q < p + 8 \<and> bit g (q - p)) \<longleftrightarrow> s \<le> r \<and> bit g (r - s)" using 1 p q by auto
    moreover have "sbit (put_septet p g out) q \<longleftrightarrow> bit (out ! b) r \<or> s \<le> r \<and> bit g (r - s)"
      using 1 p(2) q(2) b unfolding sbit_def qs put_septet_def ps Let_def by (simp add: bit_or_iff bit_push_bit_iff nth_list_update_if)
    ultimately show ?thesis using 1 b unfolding sbit_def qs by blast
  next
    case 2
    have "(p \<le> q \<and> q < p + 8 \<and> bit g (q - p)) \<longleftrightarrow> r < s \<and> bit g (8 - s + r)" using 2 p q by auto
    moreover have "bit g (8 - s + r) \<longrightarrow> r < s" using bit_u8_less [of g "8 - s + r"] p(2) by auto
    moreover have "sbit (put_septet p g out) q \<longleftrightarrow> c < length out \<and> (bit (out ! c) r \<or> s \<noteq> 0 \<and> bit g (8 - s + r))"
      using 2 p(2) b unfolding sbit_def qs put_septet_def ps Let_def by (auto simp: bit_or_iff bit_drop_bit_eq nth_list_update_if)
    moreover have "r < s \<longrightarrow> s \<noteq> 0" by simp
    ultimately show ?thesis unfolding sbit_def qs by blast
  next
    case 3
    then have "\<not> (p \<le> q \<and> q < p + 8)" using p q by auto
    moreover have "sbit (put_septet p g out) q = sbit out q"
      using 3 qs by (simp add: sbit_def put_septet_def ps Let_def)
    ultimately show ?thesis by (auto simp: sbit_def)
  qed
qed

definition septet_stream :: "bytes \<Rightarrow> nat \<Rightarrow> bool" where
  "septet_stream gs q \<longleftrightarrow> q div 7 < length gs \<and> bit (gs ! (q div 7)) (q mod 7)"

lemma encode_loop_stream:
  assumes "\<And>q. sbit out q \<longleftrightarrow> q div 8 < length out \<and> septet_stream (map char_to_gsm done) q"
    and "7 * length (done @ cs) \<le> 8 * length out"
  shows "\<exists>buf. encode_loop cs (7 * length done) out = (int ((7 * length (done @ cs) + 7) div 8), buf) \<and> length buf = length out \<and>
    (\<forall>q. sbit buf q \<longleftrightarrow> q div 8 < length out \<and> septet_stream (map char_to_gsm (done @ cs)) q)"
  using assms
proof (induction cs arbitrary: out "done")
  case (Cons c cs)
  let ?p = "7 * length done" and ?g = "char_to_gsm c"
  let ?out = "put_septet ?p ?g out"
  have p: "?p div 8 < length out" using Cons.prems(2) by (simp add: less_mult_imp_div_less)
  have g7: "bit ?g n \<Longrightarrow> n < 7" for n by (rule char_to_gsm_7bit)
  have "sbit ?out q \<longleftrightarrow> q div 8 < length ?out \<and> septet_stream (map char_to_gsm (done @ [c])) q" for q
  proof -
    have "(?p \<le> q \<and> q < ?p + 8 \<and> bit ?g (q - ?p)) \<longleftrightarrow> q div 7 = length done \<and> bit ?g (q mod 7)"
    proof
      assume a: "?p \<le> q \<and> q < ?p + 8 \<and> bit ?g (q - ?p)"
      then obtain d where "q = ?p + d" using le_Suc_ex by blast
      with a g7 [of d] show "q div 7 = length done \<and> bit ?g (q mod 7)" by simp
    next
      assume a: "q div 7 = length done \<and> bit ?g (q mod 7)"
      then have "q = ?p + q mod 7" by (metis mult_div_mod_eq)
      then obtain d where "q = ?p + d" "d < 7" "bit ?g d" using a by (metis mod_less_divisor zero_less_numeral)
      then show "?p \<le> q \<and> q < ?p + 8 \<and> bit ?g (q - ?p)" by simp
    qed
    then show ?thesis
      unfolding sbit_put_septet [OF p] Cons.prems(1)
      by (auto simp: septet_stream_def nth_append less_Suc_eq)
  qed
  moreover have "7 * length ((done @ [c]) @ cs) \<le> 8 * length ?out" using Cons.prems(2) by simp
  ultimately have "\<exists>buf. encode_loop cs (7 * length (done @ [c])) ?out = (int ((7 * length ((done @ [c]) @ cs) + 7) div 8), buf) \<and> length buf = length ?out \<and>
    (\<forall>q. sbit buf q \<longleftrightarrow> q div 8 < length ?out \<and> septet_stream (map char_to_gsm ((done @ [c]) @ cs)) q)"
    by (rule Cons.IH)
  then show ?case using p by (simp add: add.commute [of 7])
qed simp

lemma get_septet_bits:
  assumes "p div 8 + 1 < length inp"
  shows "\<exists>g. get_septet p inp = Some g \<and> (\<forall>n. bit g n \<longleftrightarrow> n < 7 \<and> sbit inp (p + n))"
proof -
  obtain b s where p: "p = 8 * b + s" "s < 8" by (metis div_mod_decomp mod_less_divisor mult.commute zero_less_numeral)
  have ps: "p div 8 = b" "p mod 8 = s" using p by auto
  have b: "b + 1 < length inp" using assms ps by simp
  let ?w = "drop_bit s (inp ! b) OR (if s = 0 then 0 else push_bit (8 - s) (inp ! (b + 1)))"
  have mask: "(0x7f :: u8) = mask 7" by (simp add: mask_eq_exp_minus_1)
  have "get_septet p inp = Some (?w AND 0x7f)" using b by (simp add: get_septet_def ps Let_def)
  moreover have "bit (?w AND 0x7f) n \<longleftrightarrow> n < 7 \<and> sbit inp (p + n)" for n
  proof (cases "n < 7")
    case True
    show ?thesis
    proof (cases "s + n < 8")
      case True
      have e: "p + n = 8 * b + (s + n)" using p by simp
      have "\<not> 8 - s \<le> n" using True by simp
      then show ?thesis using \<open>n < 7\<close> b unfolding e sbit_at [OF True]
        by (auto simp: mask bit_and_iff bit_or_iff bit_mask_iff bit_drop_bit_eq bit_push_bit_iff)
    next
      case False
      then obtain k where k: "s + n = 8 + k" "k < 7" using p(2) True le_Suc_ex [of 8 "s + n"] by auto
      then have e: "p + n = 8 * (b + 1) + k" using p by simp
      have "n = 8 - s + k" "s \<noteq> 0" using k True p(2) by auto
      moreover have "\<not> bit (inp ! b) (s + n)" using False bit_u8_less [of "inp ! b" "s + n"] by blast
      moreover have k8: "k < 8" using k by simp
      ultimately show ?thesis using \<open>n < 7\<close> b p(2) unfolding e sbit_at [OF k8]
        by (auto simp: mask bit_and_iff bit_or_iff bit_mask_iff bit_drop_bit_eq bit_push_bit_iff)
    qed
  qed (simp add: mask bit_and_iff bit_mask_iff)
  ultimately show ?thesis by blast
qed

lemma decode_loop_stream:
  assumes "\<And>q. q < 7 * length gs \<Longrightarrow> sbit inp q \<longleftrightarrow> septet_stream gs q"
    and "\<And>g n. g \<in> set gs \<Longrightarrow> bit g n \<Longrightarrow> n < 7"
    and "7 * length gs + 8 \<le> 8 * length inp"
  shows "gs = pre @ post \<Longrightarrow> length out + length post < cap \<Longrightarrow>
    decode_loop (length post) inp (7 * length pre) cap out = Some (out @ map gsm_to_char post)"
proof (induction post arbitrary: pre out)
  case (Cons g post)
  let ?p = "7 * length pre"
  have "?p < (length inp - 1) * 8" using assms(3) Cons.prems(1) by simp
  then have "?p div 8 < length inp - 1" by (rule less_mult_imp_div_less)
  then have "?p div 8 + 1 < length inp" by simp
  from get_septet_bits [OF this] obtain h where h: "get_septet ?p inp = Some h" "\<And>n. bit h n \<longleftrightarrow> n < 7 \<and> sbit inp (?p + n)" by blast
  have "bit h n = bit g n" for n
  proof (cases "n < 7")
    case True
    then have "septet_stream gs (?p + n) = bit g n" unfolding septet_stream_def Cons.prems(1) by (simp add: nth_append)
    moreover have "?p + n < 7 * length gs" using True Cons.prems(1) by simp
    ultimately show ?thesis using h(2) True assms(1) by blast
  qed (use h(2) assms(2) Cons.prems(1) in auto)
  then have hg: "h = g" by (intro bit_word_eqI) blast
  have "decode_loop (length post) inp (7 * length (pre @ [g])) cap (out @ [gsm_to_char g]) = Some ((out @ [gsm_to_char g]) @ map gsm_to_char post)"
    by (rule Cons.IH) (use Cons.prems in simp_all)
  then show ?case using h(1) hg Cons.prems(2) by (simp add: add.commute [of 7])
qed simp

lemma septets_round_trip:
  assumes "7 * length text + 8 \<le> 8 * cap" and "length text < ocap"
  shows "\<exists>buf. sms_encode_7bit text cap = (int ((7 * length text + 7) div 8), buf) \<and> length buf = cap \<and>
    sms_decode_7bit buf (length text) ocap = Some (map (gsm_to_char \<circ> char_to_gsm) text)"
proof -
  have z: "sbit (replicate cap 0) q \<longleftrightarrow> q div 8 < length (replicate cap (0 :: u8)) \<and> septet_stream (map char_to_gsm []) q" for q
    by (simp add: sbit_def septet_stream_def)
  have "\<exists>buf. encode_loop text (7 * length ([] :: bytes)) (replicate cap 0) = (int ((7 * length ([] @ text) + 7) div 8), buf) \<and>
      length buf = length (replicate cap (0 :: u8)) \<and>
      (\<forall>q. sbit buf q \<longleftrightarrow> q div 8 < length (replicate cap (0 :: u8)) \<and> septet_stream (map char_to_gsm ([] @ text)) q)"
    by (rule encode_loop_stream [OF z]) (use assms in simp)
  then obtain buf where buf: "encode_loop text 0 (replicate cap 0) = (int ((7 * length text + 7) div 8), buf)" "length buf = cap"
    "\<And>q. sbit buf q \<longleftrightarrow> q div 8 < cap \<and> septet_stream (map char_to_gsm text) q" by auto
  have "decode_loop (length (map char_to_gsm text)) buf (7 * length ([] :: bytes)) ocap [] = Some ([] @ map gsm_to_char (map char_to_gsm text))"
  proof (rule decode_loop_stream [where gs = "map char_to_gsm text"])
    fix q assume "q < 7 * length (map char_to_gsm text)"
    then have "q div 8 < cap" using assms(1) by (intro less_mult_imp_div_less) simp
    then show "sbit buf q = septet_stream (map char_to_gsm text) q" using buf(3) by simp
  qed (use buf(2) assms char_to_gsm_7bit in auto)
  then show ?thesis using buf assms(1) by (auto simp: sms_encode_7bit_def sms_decode_7bit_def)
qed

section \<open>Addresses\<close>

definition nib :: "bytes \<Rightarrow> nat \<Rightarrow> u8" where
  "nib bs i = (if odd i then drop_bit 4 (bs ! (i div 2)) else bs ! (i div 2) AND 0x0f)"

definition digit :: "u8 \<Rightarrow> bool" where
  "digit d \<longleftrightarrow> 0x30 \<le> d \<and> d \<le> 0x39"

lemma digit_value: "digit d \<Longrightarrow> d - 0x30 \<le> 9 \<and> 0x30 + (d - 0x30) = d"
  by (auto simp: digit_def word_le_nat_alt unat_sub)

lemma nibbles:
  assumes "lo \<le> (0xf :: u8)" and "hi \<le> 0xf"
  shows "(lo OR push_bit 4 hi) AND 0x0f = lo" and "drop_bit 4 (lo OR push_bit 4 hi) = hi"
proof -
  have low: "bit x n \<Longrightarrow> n < 4" if "x \<le> 0xf" for x :: u8 and n
  proof -
    assume "bit x n"
    then have "bit (unat x) n" by (simp add: bit_unsigned_iff)
    moreover have "take_bit 4 (unat x) = unat x" using that by (intro take_bit_nat_eq_self) (simp add: word_le_nat_alt)
    ultimately show "n < 4" by (metis bit_take_bit_iff)
  qed
  have mask: "(0x0f :: u8) = mask 4" by (simp add: mask_eq_exp_minus_1)
  show "(lo OR push_bit 4 hi) AND 0x0f = lo"
    by (rule bit_word_eqI) (auto simp: mask bit_and_iff bit_or_iff bit_mask_iff bit_push_bit_iff dest: low [OF assms(1)])
  show "drop_bit 4 (lo OR push_bit 4 hi) = hi"
    by (rule bit_word_eqI) (auto simp: bit_drop_bit_eq bit_or_iff bit_push_bit_iff dest: low [OF assms(1)] low [OF assms(2)])
qed

lemma addr_bcd_loop_ok:
  "length out + (length ds + 1) div 2 \<le> cap \<Longrightarrow> \<exists>bs. addr_bcd_loop ds cap out = Some (out @ bs) \<and> length bs = (length ds + 1) div 2 \<and>
     (list_all digit ds \<longrightarrow> (\<forall>i < length ds. nib bs i = ds ! i - 0x30))"
proof (induction ds cap out rule: addr_bcd_loop.induct)
  case (2 d ds cap out)
  define lo where "lo = (if d - 0x30 > 9 then 0 else d - 0x30)"
  define hi where "hi = (let h = (case ds of [] \<Rightarrow> 0x0f | e # _ \<Rightarrow> e - 0x30) in if h > (9 :: u8) then 0x0f else h)"
  have le: "lo \<le> 0xf" "hi \<le> 0xf" by (auto simp: lo_def hi_def Let_def word_le_nat_alt word_less_nat_alt split: list.splits)
  have fits: "\<not> cap \<le> length out" and fits': "length (out @ [lo OR push_bit 4 hi]) + (length (tl ds) + 1) div 2 \<le> cap"
    using 2(2) by (cases ds; simp)+
  obtain bs where bs: "addr_bcd_loop (tl ds) cap (out @ [lo OR push_bit 4 hi]) = Some ((out @ [lo OR push_bit 4 hi]) @ bs)"
    "length bs = (length (tl ds) + 1) div 2" "list_all digit (tl ds) \<longrightarrow> (\<forall>i < length (tl ds). nib bs i = tl ds ! i - 0x30)"
    using 2(1) [OF refl refl fits] fits' unfolding lo_def hi_def Let_def by blast
  have "nib ((lo OR push_bit 4 hi) # bs) i = (d # ds) ! i - 0x30" if dig: "list_all digit (d # ds)" and i: "i < length (d # ds)" for i
  proof -
    have n01: "nib ((lo OR push_bit 4 hi) # bs) 0 = lo" "nib ((lo OR push_bit 4 hi) # bs) 1 = hi"
      using nibbles [OF le] by (simp_all add: nib_def)
    consider "i = 0" | "i = 1" | k where "i = Suc (Suc k)" by (metis One_nat_def not0_implies_Suc)
    then show ?thesis
    proof cases
      case 1
      then show ?thesis using dig digit_value [of d] n01(1) by (auto simp: lo_def)
    next
      case 2
      then show ?thesis using dig i digit_value [of "hd ds"] n01(2) by (cases ds) (auto simp: hi_def Let_def)
    next
      case 3
      then have "nib ((lo OR push_bit 4 hi) # bs) i = nib bs k" by (simp add: nib_def)
      with 3 show ?thesis using dig i bs(3) by (cases ds) auto
    qed
  qed
  moreover have "addr_bcd_loop (d # ds) cap out = Some (out @ (lo OR push_bit 4 hi) # bs)"
    using fits bs(1) by (simp add: lo_def hi_def Let_def)
  moreover have "length ((lo OR push_bit 4 hi) # bs) = (length (d # ds) + 1) div 2" using bs(2) by (cases ds) simp_all
  ultimately show ?case by blast
qed simp

lemma addr_decode_loop_ok:
  "(\<And>i. i \<in> set is \<Longrightarrow> nib inp i \<le> 9) \<Longrightarrow> length out + length is < cap \<Longrightarrow>
    addr_decode_loop inp is cap out = out @ map (\<lambda>i. 0x30 + nib inp i) is"
  by (induction inp "is" cap out rule: addr_decode_loop.induct) (auto simp: Let_def nib_def not_less)

lemma addr_round_trip:
  assumes "list_all digit ds" and "(length ds + 1) div 2 \<le> cap" and "length ds < ocap"
  shows "\<exists>bs. addr_bcd ds cap = Some bs \<and> length bs = (length ds + 1) div 2 \<and> addr_bcd_decode (bs @ rest) (length ds) ocap = ds"
proof -
  obtain bs where bs: "addr_bcd ds cap = Some bs" "length bs = (length ds + 1) div 2" "\<forall>i < length ds. nib bs i = ds ! i - 0x30"
    using addr_bcd_loop_ok [of "[]" ds cap] assms(1,2) by (auto simp: addr_bcd_def)
  have nib: "nib (bs @ rest) i = ds ! i - 0x30" "digit (ds ! i)" if "i < length ds" for i
  proof -
    have "i div 2 < length bs" using that bs(2) by simp
    then have "nib (bs @ rest) i = nib bs i" by (simp add: nib_def nth_append)
    with that bs(3) show "nib (bs @ rest) i = ds ! i - 0x30" by simp
    show "digit (ds ! i)" using assms(1) that by (simp add: list_all_length)
  qed
  have "addr_bcd_decode (bs @ rest) (length ds) ocap = map (\<lambda>i. 0x30 + nib (bs @ rest) i) [0..<length ds]"
    unfolding addr_bcd_decode_def by (subst addr_decode_loop_ok) (use nib digit_value assms(3) in auto)
  also have "\<dots> = ds" by (rule nth_equalityI) (use nib digit_value in auto)
  finally show ?thesis using bs by blast
qed

section \<open>The message store\<close>

lemma msg_round_trip:
  assumes "0 \<notin> set sender" and "0x0a \<notin> set sender" and "0 \<notin> set text"
    and "length (msg_line sender text) \<le> 191" and "length sender < scap" and "length text < tcap"
  shows "msg_split (msg_line sender text) scap tcap = Some (sender, text)"
proof -
  let ?l = "msg_line sender text"
  have "0 \<notin> set ?l" using assms by (auto simp: msg_line_def FROM_def)
  then have str: "takeWhile (\<lambda>c. c \<noteq> 0) (take 191 ?l) = ?l" using assms(4) by (auto simp: takeWhile_eq_all_conv)
  have rest: "drop 5 ?l = sender @ 0x0a # text" "take 5 ?l = FROM" "?l \<noteq> []" by (simp_all add: msg_line_def FROM_def)
  have "takeWhile (\<lambda>c. c \<noteq> 0x0a) (sender @ 0x0a # text) = sender" using assms(2) by (subst takeWhile_append2) auto
  then show ?thesis using assms(4-6) unfolding msg_split_def str rest Let_def by (simp add: rest(3))
qed

section \<open>Properties of short messages\<close>

definition representable :: "u8 \<Rightarrow> bool" where
  "representable c \<longleftrightarrow> c = 0x0a \<or> c = 0x0d \<or> 0x20 \<le> c \<and> c \<le> 0x5f \<or> 0x61 \<le> c \<and> c \<le> 0x7a"

lemma alphabet_round_trip: "representable c \<Longrightarrow> gsm_to_char (char_to_gsm c) = c"
  by (auto simp: representable_def char_to_gsm_def gsm_to_char_def)

lemma map_alphabet: "list_all representable text \<Longrightarrow> map (gsm_to_char \<circ> char_to_gsm) text = text"
  by (induction "text") (auto simp: alphabet_round_trip)

text \<open>C36: Septet packing loses nothing: every text over the alphabet, packed into a buffer that has
  one byte to spare, takes \<open>(7 * n + 7) div 8\<close> bytes and is unpacked to itself.\<close>

theorem sms_septet_roundtrip:
  assumes "list_all representable text" and "7 * length text + 8 \<le> 8 * cap" and "length text < ocap"
  shows "\<exists>buf. sms_encode_7bit text cap = (int ((7 * length text + 7) div 8), buf) \<and> length buf = cap \<and>
    sms_decode_7bit buf (length text) ocap = Some text"
  using septets_round_trip [OF assms(2,3)] map_alphabet [OF assms(1)] by simp

theorem sms_septet_roundtrip_witness:
  "\<exists>buf. sms_encode_7bit [0x48, 0x49, 0x21] 160 = (3, buf) \<and> sms_decode_7bit buf 3 161 = Some [0x48, 0x49, 0x21]"
  using sms_septet_roundtrip [of "[0x48, 0x49, 0x21]" 160 161] by (auto simp: representable_def numeral_3_eq_3)

text \<open>A delivered unit is taken apart into what it was made of: from a flag octet, the address
  of a digit string in BCD, protocol and time fields of nine octets, the septet count and the
  packed text (with one octet behind it), \<open>sms_parse_deliver_pdu\<close> gives back the digits and the
  text.\<close>

theorem sms_deliver_roundtrip:
  assumes "list_all digit ds" and "length ds < 256" and "(length ds + 1) div 2 \<le> acap" and "length ds < scap"
    and "list_all representable text" and "length text < 256" and "7 * length text + 8 \<le> 8 * cap" and "length text < tcap"
    and "length skip = 9"
  shows "\<exists>bs n buf. addr_bcd ds acap = Some bs \<and> sms_encode_7bit text cap = (n, buf) \<and>
    sms_parse_deliver_pdu ([fl, of_nat (length ds), ty] @ bs @ skip @ [of_nat (length text)] @ buf) scap tcap = Some (0, ds, text)"
proof -
  obtain buf where buf: "sms_encode_7bit text cap = (int ((7 * length text + 7) div 8), buf)" "length buf = cap"
    "sms_decode_7bit buf (length text) tcap = Some text"
    using septets_round_trip [OF assms(7,8)] map_alphabet [OF assms(5)] by auto
  let ?rest = "skip @ [of_nat (length text)] @ buf"
  obtain bs where bs: "addr_bcd ds acap = Some bs" "length bs = (length ds + 1) div 2"
    "addr_bcd_decode (bs @ ?rest) (length ds) scap = ds"
    using addr_round_trip [OF assms(1,3,4)] by blast
  let ?pdu = "[fl, of_nat (length ds), ty] @ bs @ ?rest"
  have u: "unat (of_nat (length ds) :: u8) = length ds" "unat (of_nat (length text) :: u8) = length text"
    using assms(2,6) by (simp_all add: unat_of_nat_small)
  have o1: "3 + (length ds + 1) div 2 + 2 + 7 = 3 + length bs + length skip" using bs(2) assms(9) by simp
  have at: "?pdu ! (3 + length bs + length skip) = of_nat (length text)" "drop (3 + length bs + length skip + 1) ?pdu = buf"
    by (simp_all add: nth_append numeral_eq_Suc)
  have fits: "(length text * 7 + 7) div 8 \<le> cap" using assms(7) by simp
  have "sms_parse_deliver_pdu ?pdu scap tcap = Some (0, ds, text)"
    unfolding sms_parse_deliver_pdu_def Let_def using u o1 at fits bs(2,3) buf(2,3) assms(9) by simp
  then show ?thesis using bs(1) buf(1) by blast
qed

theorem sms_deliver_roundtrip_witness:
  "\<exists>bs n buf. addr_bcd [0x35, 0x35, 0x31] 10 = Some bs \<and> sms_encode_7bit [0x4f, 0x4b] 160 = (n, buf) \<and>
    sms_parse_deliver_pdu ([4, of_nat (length [0x35, 0x35, 0x31 :: u8]), 0x81] @ bs @ replicate 9 0 @ [of_nat (length [0x4f, 0x4b :: u8])] @ buf) 24 161 =
      Some (0, [0x35, 0x35, 0x31], [0x4f, 0x4b])"
  by (rule sms_deliver_roundtrip) (simp_all add: digit_def representable_def)

lemma decode_loop_overread:
  "get_septet (bitpos + 7 * k) inp = None \<Longrightarrow> length out + k + 1 < cap \<Longrightarrow> decode_loop (Suc k) inp bitpos cap out = None"
proof (induction k arbitrary: bitpos out)
  case (Suc k)
  then have "get_septet ((bitpos + 7) + 7 * k) inp = None" by (simp add: algebra_simps)
  from Suc.IH [OF this] Suc.prems(2) show ?case by (subst decode_loop.simps) (auto split: option.split simp del: decode_loop.simps)
qed simp

text \<open>The message code leaves its buffers. Unpacking a multiple of eight septets from the
  bytes they fill exactly reads one byte behind them; and the submit builder checks the room for
  the text but not for the three octets before it, so an address that nearly fills the buffer
  makes it store behind the buffer.\<close>

theorem sms_buffers_overrun:
  assumes "0 < m" and "length body = 7 * m" and "8 * m < ocap"
    and "32 \<le> cap" and "cap - 8 < (length to + 1) div 2" and "(length to + 1) div 2 \<le> cap - 5" and "7 * length text + 8 \<le> 8 * 160"
  shows "sms_decode_7bit body (8 * m) ocap = None \<and> sms_build_submit_pdu to text cap = None"
proof
  obtain k where k: "8 * m = Suc k" using assms(1) by (cases "8 * m") auto
  then have p: "7 * k = 8 * (7 * m - 1) + 1" using assms(1) by simp
  have pd: "(7 * k) div 8 = 7 * m - 1" "(7 * k) mod 8 = 1" unfolding p by simp_all
  have "get_septet (7 * k) body = None" using assms(1,2) by (simp add: get_septet_def Let_def pd)
  then show "sms_decode_7bit body (8 * m) ocap = None"
    unfolding sms_decode_7bit_def k by (intro decode_loop_overread) (use k assms(3) in simp_all)
  obtain buf where "sms_encode_7bit text 160 = (int ((7 * length text + 7) div 8), buf)"
    using septets_round_trip [OF assms(7), of "length text + 1"] by auto
  moreover obtain bs where "addr_bcd to (cap - 5) = Some bs" "length bs = (length to + 1) div 2"
    using addr_bcd_loop_ok [of "[]" to "cap - 5"] assms(6) by (auto simp: addr_bcd_def)
  ultimately show "sms_build_submit_pdu to text cap = None"
    using assms(4,5) by (auto simp: sms_build_submit_pdu_def Let_def)
qed

theorem sms_buffers_overrun_witness:
  "sms_decode_7bit (replicate 7 0) 8 161 = None \<and> sms_build_submit_pdu (replicate 54 0x31) [0x4f, 0x4b] 32 = None"
  using sms_buffers_overrun [of 1 "replicate 7 0" 161 32 "replicate 54 0x31" "[0x4f, 0x4b]"] by simp

end
