(* ===== verification/Ramfs.thy ===== *)
theory Ramfs
  imports Prelude
begin

text \<open>
  The in-memory file system (\<open>fs/ramfs.c\<close>). A file system is the set of its allocated nodes,
  by address; the sibling chain of a directory is the list of its children, first one first.
  A \<open>vnode\<close> shell is a value that names its node; a node counts its live shells. Whether an
  allocation succeeds is an argument of the operation that allocates: the address of the new
  node, and whether there is memory for a shell or a buffer. The buffer of a file has its
  capacity as its length. Offsets and lengths are 64 bits wide and wrap; an access outside the
  buffer is \<open>None\<close>.
\<close>

datatype vtype = V_NONE | V_FILE | V_DIR | V_CHARDEV | V_BLOCKDEV | V_PIPE | V_SOCK

abbreviation VFS_NAME_MAX :: nat where "VFS_NAME_MAX \<equiv> 64"
abbreviation RAMFS_MAX_FILE :: u64 where "RAMFS_MAX_FILE \<equiv> 262144"
abbreviation GROW_MIN :: nat where "GROW_MIN \<equiv> 128"
abbreviation GROW_MAX :: nat where "GROW_MAX \<equiv> 65536"

abbreviation DT_DIR :: u8 where "DT_DIR \<equiv> 4"
abbreviation DT_REG :: u8 where "DT_REG \<equiv> 8"

type_synonym node_id = nat

record ram_node =
  rn_name :: string
  rn_type :: vtype
  rn_children :: "node_id list"
  rn_parent :: "node_id option"
  rn_data :: "u8 list"
  rn_len :: nat
  rn_ino :: u64
  rn_orphan :: bool
  rn_vn_live :: nat

record ram_fs =
  rf_nodes :: "node_id \<Rightarrow> ram_node option"
  rf_root :: node_id
  rf_next_ino :: u64

record vnode =
  vn_type :: vtype
  vn_priv :: node_id
  vn_ino :: u64

definition node :: "ram_fs \<Rightarrow> node_id \<Rightarrow> ram_node" where
  "node fs n = the (rf_nodes fs n)"

definition set_node :: "node_id \<Rightarrow> ram_node \<Rightarrow> ram_fs \<Rightarrow> ram_fs" where
  "set_node n x fs = fs\<lparr>rf_nodes := (rf_nodes fs)(n \<mapsto> x)\<rparr>"

definition free_node :: "node_id \<Rightarrow> ram_fs \<Rightarrow> ram_fs" where
  "free_node n fs = fs\<lparr>rf_nodes := (rf_nodes fs)(n := None)\<rparr>"

section \<open>Shells\<close>

definition shell_make :: "bool \<Rightarrow> node_id \<Rightarrow> ram_fs \<Rightarrow> vnode option \<times> ram_fs" where
  "shell_make mem n fs =
    (if \<not> mem then (None, fs)
     else (Some \<lparr>vn_type = rn_type (node fs n), vn_priv = n, vn_ino = rn_ino (node fs n)\<rparr>,
           set_node n ((node fs n)\<lparr>rn_vn_live := rn_vn_live (node fs n) + 1\<rparr>) fs))"

definition ramfs_destroy :: "vnode \<Rightarrow> ram_fs \<Rightarrow> ram_fs" where
  "ramfs_destroy vn fs =
    (let n = vn_priv vn; x = (node fs n)\<lparr>rn_vn_live := rn_vn_live (node fs n) - 1\<rparr>
     in if rn_vn_live x = 0 \<and> rn_orphan x then free_node n fs else set_node n x fs)"

section \<open>Directories\<close>

definition find_child :: "ram_fs \<Rightarrow> node_id \<Rightarrow> string \<Rightarrow> node_id option" where
  "find_child fs d name = find (\<lambda>c. rn_name (node fs c) = name) (rn_children (node fs d))"

text \<open>A lookup that finds the name but no memory for the shell reports success with a null
  shell, as the code does.\<close>

definition ramfs_lookup :: "bool \<Rightarrow> vnode \<Rightarrow> string \<Rightarrow> ram_fs \<Rightarrow> int \<times> vnode option \<times> ram_fs" where
  "ramfs_lookup mem dir name fs =
    (if name = '''' then (- ENOENT, None, fs)
     else case find_child fs (vn_priv dir) name of
       None \<Rightarrow> (- ENOENT, None, fs)
     | Some c \<Rightarrow> let (vn, fs') = shell_make mem c fs in (0, vn, fs'))"

definition ramfs_create :: "node_id option \<Rightarrow> bool \<Rightarrow> vnode \<Rightarrow> string \<Rightarrow> vtype \<Rightarrow> ram_fs \<Rightarrow> int \<times> vnode option \<times> ram_fs" where
  "ramfs_create fresh mem dir name t fs =
    (if VFS_NAME_MAX \<le> length name then (- ENAMETOOLONG, None, fs)
     else case fresh of
       None \<Rightarrow> (- ENOMEM, None, fs)
     | Some n \<Rightarrow>
         let d = vn_priv dir
         in if find_child fs d name \<noteq> None then (- EEXIST, None, fs)
            else
              let ino = rf_next_ino fs + 1;
                  x = \<lparr>rn_name = name, rn_type = t, rn_children = [], rn_parent = Some d, rn_data = [], rn_len = 0,
                       rn_ino = ino, rn_orphan = False, rn_vn_live = 0\<rparr>;
                  fs1 = set_node d ((node fs d)\<lparr>rn_children := n # rn_children (node fs d)\<rparr>)
                          (set_node n x (fs\<lparr>rf_next_ino := ino\<rparr>));
                  (vn, fs2) = shell_make mem n fs1
              in (if vn = None then - ENOMEM else 0, vn, fs2))"

definition drop_node :: "node_id \<Rightarrow> ram_fs \<Rightarrow> ram_fs" where
  "drop_node n fs = (if rn_orphan (node fs n) \<and> rn_vn_live (node fs n) = 0 then free_node n fs else fs)"

definition ramfs_unlink :: "vnode \<Rightarrow> string \<Rightarrow> ram_fs \<Rightarrow> int \<times> ram_fs" where
  "ramfs_unlink dir name fs =
    (let d = vn_priv dir
     in case find_child fs d name of
          None \<Rightarrow> (- ENOENT, fs)
        | Some c \<Rightarrow>
            if rn_type (node fs c) = V_DIR \<and> rn_children (node fs c) \<noteq> [] then (- ENOTEMPTY, fs)
            else
              let fs1 = set_node d ((node fs d)\<lparr>rn_children := remove1 c (rn_children (node fs d))\<rparr>) fs;
                  fs2 = set_node c ((node fs1 c)\<lparr>rn_parent := None, rn_orphan := True\<rparr>) fs1
              in (0, drop_node c fs2))"

definition ramfs_readdir :: "vnode \<Rightarrow> nat \<Rightarrow> ram_fs \<Rightarrow> int \<times> (string \<times> u8) option" where
  "ramfs_readdir dir idx fs =
    (let cs = rn_children (node fs (vn_priv dir))
     in if idx < length cs
        then (0, Some (rn_name (node fs (cs ! idx)), if rn_type (node fs (cs ! idx)) = V_DIR then DT_DIR else DT_REG))
        else (- ENOENT, None))"

section \<open>File data\<close>

text \<open>Reading gives the bytes copied; \<open>None\<close> is a copy from outside the buffer.\<close>

definition ramfs_read :: "vnode \<Rightarrow> u64 \<Rightarrow> u64 \<Rightarrow> ram_fs \<Rightarrow> (int \<times> u8 list) option" where
  "ramfs_read vn off len fs =
    (let x = node fs (vn_priv vn); flen = of_nat (rn_len x)
     in if vn_type vn \<noteq> V_FILE then Some (- EISDIR, [])
        else if flen \<le> off then Some (0, [])
        else
          let n = (if flen < off + len then flen - off else len)
          in if length (rn_data x) < unat off + unat n then None
             else Some (int (unat n), take (unat n) (drop (unat off) (rn_data x))))"

function grow_cap :: "nat \<Rightarrow> nat \<Rightarrow> nat" where
  "grow_cap want cap = (if 0 < cap \<and> cap < want \<and> cap < GROW_MAX then grow_cap want (cap * 2) else cap)"
  by pat_completeness auto
termination
  by (relation "measure (\<lambda>(want, cap). want - cap)") auto

declare grow_cap.simps [simp del]

text \<open>A larger buffer holds the old contents and zeroes behind them; the old buffer is given up.\<close>

definition grow_data :: "nat \<Rightarrow> ram_node \<Rightarrow> u8 list" where
  "grow_data want x =
    (let cap0 = (if rn_data x = [] then GROW_MIN else length (rn_data x));
         cap1 = grow_cap want cap0; cap = (if cap1 < want then want else cap1)
     in take (rn_len x) (rn_data x) @ replicate (cap - rn_len x) 0)"

definition write_at :: "nat \<Rightarrow> u8 list \<Rightarrow> u8 list \<Rightarrow> u8 list" where
  "write_at off buf dat = take off dat @ buf @ drop (off + length buf) dat"

text \<open>The zeroes for a hole, then the bytes. With a sum that wraps, the copy leaves the buffer.\<close>

definition ramfs_write :: "bool \<Rightarrow> vnode \<Rightarrow> u64 \<Rightarrow> u8 list \<Rightarrow> ram_fs \<Rightarrow> (int \<times> ram_fs) option" where
  "ramfs_write mem vn off buf fs =
    (let n = vn_priv vn; x = node fs n; len = (of_nat (length buf) :: u64)
     in if vn_type vn \<noteq> V_FILE then Some (- EISDIR, fs)
        else if len = 0 \<and> off = 0 then Some (0, set_node n (x\<lparr>rn_len := 0\<rparr>) fs)
        else if RAMFS_MAX_FILE < off + len then Some (- ENOSPC, fs)
        else if of_nat (length (rn_data x)) < off + len \<and> \<not> mem then Some (- ENOMEM, fs)
        else
          let dat = (if of_nat (length (rn_data x)) < off + len then grow_data (unat (off + len)) x else rn_data x);
              o1 = unat off
          in if length dat < o1 + length buf then None
             else
               let dat1 = (if rn_len x < o1 then write_at (rn_len x) (replicate (o1 - rn_len x) 0) dat else dat)
               in Some (int (length buf),
                    set_node n (x\<lparr>rn_data := write_at o1 buf dat1,
                      rn_len := (if of_nat (rn_len x) < off + len then unat (off + len) else rn_len x)\<rparr>) fs))"

definition ramfs_getattr :: "vnode \<Rightarrow> ram_fs \<Rightarrow> nat" where
  "ramfs_getattr vn fs = (let x = node fs (vn_priv vn) in if rn_type x = V_FILE then rn_len x else 0)"

section \<open>Mounting\<close>

definition ramfs_mount :: "node_id option \<Rightarrow> bool \<Rightarrow> int \<times> (vnode \<times> ram_fs) option" where
  "ramfs_mount fresh mem =
    (case fresh of
       None \<Rightarrow> (- ENOMEM, None)
     | Some r \<Rightarrow>
         let x = \<lparr>rn_name = '''', rn_type = V_DIR, rn_children = [], rn_parent = None, rn_data = [], rn_len = 0,
                  rn_ino = 0, rn_orphan = False, rn_vn_live = 0\<rparr>;
             fs = \<lparr>rf_nodes = [r \<mapsto> x], rf_root = r, rf_next_ino = 1\<rparr>;
             (vn, fs1) = shell_make mem r fs
         in (case vn of None \<Rightarrow> (- ENOMEM, None) | Some v \<Rightarrow> (0, Some (v, fs1))))"

end
