(* ===== verification/Vfs.thy ===== *)
theory Vfs
  imports Ramfs "HOL-Library.Monad_Syntax"
begin

text \<open>
  The virtual file system (\<open>fs/vfs.c\<close>, \<open>include/vfs.h\<close>): the registry of file-system types, the
  mount table, path resolution, open files and descriptor tables. A vnode is an address with a
  shell (operation table, type, reference count, private data of its file system); the operation
  tables act on the whole state, as the function pointers of the source do, and an absent entry
  is a null pointer. Memory for a new file or table is an argument: its address, or \<open>None\<close>.
  Every critical section is one step of the model. \<open>None\<close> as the result of an operation is a
  fault: a null or freed pointer, a counter below zero, a store behind a buffer, a panic.
\<close>

section \<open>State\<close>

abbreviation VFS_PATH_MAX :: nat where "VFS_PATH_MAX \<equiv> 160"
abbreviation VFS_MOUNT_MAX :: nat where "VFS_MOUNT_MAX \<equiv> 8"
abbreviation VFS_COMPS_MAX :: nat where "VFS_COMPS_MAX \<equiv> 24"
abbreviation FSTYPES_MAX :: nat where "FSTYPES_MAX \<equiv> 8"
abbreviation PROC_FD_MAX :: nat where "PROC_FD_MAX \<equiv> 16"

abbreviation O_RDONLY :: u32 where "O_RDONLY \<equiv> 0"
abbreviation O_WRONLY :: u32 where "O_WRONLY \<equiv> 1"
abbreviation O_RDWR :: u32 where "O_RDWR \<equiv> 2"
abbreviation O_ACCMODE :: u32 where "O_ACCMODE \<equiv> 3"
abbreviation O_CREAT :: u32 where "O_CREAT \<equiv> 0x40"
abbreviation O_EXCL :: u32 where "O_EXCL \<equiv> 0x80"
abbreviation O_TRUNC :: u32 where "O_TRUNC \<equiv> 0x200"
abbreviation O_APPEND :: u32 where "O_APPEND \<equiv> 0x400"

type_synonym vn = nat
type_synonym file_id = nat
type_synonym table_id = nat
type_synonym proc_id = nat

record 'p vshell =
  sh_ops :: "nat option"
  sh_type :: vtype
  sh_refs :: nat
  sh_priv :: 'p

record mount =
  mo_fstype :: string
  mo_bd :: "nat option"
  mo_part_lba :: u64
  mo_part_nsect :: u64
  mo_root :: "vn option"
  mo_active :: bool
  mo_path :: string

record open_file =
  fi_vn :: vn
  fi_off :: u64
  fi_flags :: u32
  fi_refs :: nat

type_synonym fd_table = "file_id option list"

record ('p, 'w) vfs =
  v_shells :: "vn \<Rightarrow> 'p vshell option"
  v_world :: 'w
  v_fstypes :: "(string \<times> nat) list"
  v_mounts :: "mount list"
  v_have_root :: bool
  v_files :: "file_id \<Rightarrow> open_file option"
  v_tables :: "table_id \<Rightarrow> fd_table option"
  v_fds :: "proc_id \<Rightarrow> table_id option"

record ('p, 'w) vnode_ops =
  op_lookup :: "(vn \<Rightarrow> string \<Rightarrow> ('p, 'w) vfs \<Rightarrow> (int \<times> vn option \<times> ('p, 'w) vfs) option) option"
  op_create :: "(vn \<Rightarrow> string \<Rightarrow> vtype \<Rightarrow> ('p, 'w) vfs \<Rightarrow> (int \<times> vn option \<times> ('p, 'w) vfs) option) option"
  op_unlink :: "(vn \<Rightarrow> string \<Rightarrow> ('p, 'w) vfs \<Rightarrow> (int \<times> ('p, 'w) vfs) option) option"
  op_readdir :: "(vn \<Rightarrow> nat \<Rightarrow> ('p, 'w) vfs \<Rightarrow> (int \<times> string \<times> u8) option) option"
  op_read :: "(vn \<Rightarrow> u64 \<Rightarrow> u64 \<Rightarrow> ('p, 'w) vfs \<Rightarrow> (int \<times> u8 list \<times> ('p, 'w) vfs) option) option"
  op_write :: "(vn \<Rightarrow> u64 \<Rightarrow> u8 list \<Rightarrow> ('p, 'w) vfs \<Rightarrow> (int \<times> ('p, 'w) vfs) option) option"
  op_getattr :: "(vn \<Rightarrow> ('p, 'w) vfs \<Rightarrow> int \<times> vtype \<times> u64) option"
  op_destroy :: "(vn \<Rightarrow> ('p, 'w) vfs \<Rightarrow> ('p, 'w) vfs option) option"

text \<open>What the core calls: the operation tables and mounting functions by address, and the
  console shell of \<open>vfs.c\<close> with the table that \<open>devfs\<close> gives to character devices.\<close>

record ('p, 'w) fs_env =
  en_ops :: "nat \<Rightarrow> ('p, 'w) vnode_ops"
  en_mount :: "nat \<Rightarrow> nat \<Rightarrow> ('p, 'w) vfs \<Rightarrow> (int \<times> ('p, 'w) vfs) option"
  en_console :: vn
  en_char_ops :: nat

definition set_refs :: "vn \<Rightarrow> (nat \<Rightarrow> nat) \<Rightarrow> ('p, 'w) vfs \<Rightarrow> ('p, 'w) vfs" where
  "set_refs v f st =
    st\<lparr>v_shells := (v_shells st)(v := map_option (\<lambda>s. s\<lparr>sh_refs := f (sh_refs s)\<rparr>) (v_shells st v))\<rparr>"

definition set_file :: "file_id \<Rightarrow> open_file option \<Rightarrow> ('p, 'w) vfs \<Rightarrow> ('p, 'w) vfs" where
  "set_file f x st = st\<lparr>v_files := (v_files st)(f := x)\<rparr>"

definition set_table :: "table_id \<Rightarrow> fd_table option \<Rightarrow> ('p, 'w) vfs \<Rightarrow> ('p, 'w) vfs" where
  "set_table t x st = st\<lparr>v_tables := (v_tables st)(t := x)\<rparr>"

section \<open>References\<close>

definition vn_ref :: "vn option \<Rightarrow> ('p, 'w) vfs \<Rightarrow> ('p, 'w) vfs option" where
  "vn_ref vo st =
    (case vo of
       None \<Rightarrow> Some st
     | Some v \<Rightarrow> if v_shells st v = None then None else Some (set_refs v (\<lambda>n. n + 1) st))"

definition vn_unref :: "('p, 'w) fs_env \<Rightarrow> vn option \<Rightarrow> ('p, 'w) vfs \<Rightarrow> ('p, 'w) vfs option" where
  "vn_unref E vo st =
    (case vo of
       None \<Rightarrow> Some st
     | Some v \<Rightarrow> do {
         s \<leftarrow> v_shells st v;
         if sh_refs s = 0 then None
         else
           let st1 = set_refs v (\<lambda>n. n - 1) st
           in (if sh_refs s = 1
               then (case sh_ops s of
                       None \<Rightarrow> Some st1
                     | Some k \<Rightarrow> (case op_destroy (en_ops E k) of None \<Rightarrow> Some st1 | Some d \<Rightarrow> d v st1))
               else Some st1) })"

section \<open>Wrappers of the operations\<close>

definition vfs_getattr :: "('p, 'w) fs_env \<Rightarrow> vn option \<Rightarrow> ('p, 'w) vfs \<Rightarrow> (int \<times> vtype \<times> u64) option" where
  "vfs_getattr E vo st =
    (case vo of
       None \<Rightarrow> Some (- EINVAL, V_NONE, 0)
     | Some v \<Rightarrow> do {
         s \<leftarrow> v_shells st v;
         case Option.bind (sh_ops s) (\<lambda>k. op_getattr (en_ops E k)) of
           None \<Rightarrow> Some (0, sh_type s, 0)
         | Some g \<Rightarrow> Some (g v st) })"

definition vfs_lookup_at :: "('p, 'w) fs_env \<Rightarrow> vn option \<Rightarrow> string \<Rightarrow> ('p, 'w) vfs \<Rightarrow> (int \<times> vn option \<times> ('p, 'w) vfs) option" where
  "vfs_lookup_at E dir name st =
    (case dir of
       None \<Rightarrow> Some (- EINVAL, None, st)
     | Some d \<Rightarrow> do {
         s \<leftarrow> v_shells st d;
         if sh_type s \<noteq> V_DIR then Some (- ENOTDIR, None, st)
         else do {
           k \<leftarrow> sh_ops s;
           case op_lookup (en_ops E k) of
             None \<Rightarrow> Some (- EPERM, None, st)
           | Some l \<Rightarrow> do {
               (r, out, st1) \<leftarrow> l d name st;
               Some (if r = 0 \<and> out = None then - ENOENT else r, out, st1) } } })"

definition vfs_create_at :: "('p, 'w) fs_env \<Rightarrow> vn option \<Rightarrow> string \<Rightarrow> vtype \<Rightarrow> ('p, 'w) vfs \<Rightarrow> (int \<times> vn option \<times> ('p, 'w) vfs) option" where
  "vfs_create_at E dir name t st =
    (case dir of
       None \<Rightarrow> Some (- EINVAL, None, st)
     | Some d \<Rightarrow> do {
         s \<leftarrow> v_shells st d;
         if sh_type s \<noteq> V_DIR then Some (- ENOTDIR, None, st)
         else if t \<noteq> V_FILE \<and> t \<noteq> V_DIR then Some (- EINVAL, None, st)
         else do {
           k \<leftarrow> sh_ops s;
           case op_create (en_ops E k) of None \<Rightarrow> Some (- EPERM, None, st) | Some c \<Rightarrow> c d name t st } })"

definition vfs_unlink_at :: "('p, 'w) fs_env \<Rightarrow> vn option \<Rightarrow> string \<Rightarrow> ('p, 'w) vfs \<Rightarrow> (int \<times> ('p, 'w) vfs) option" where
  "vfs_unlink_at E dir name st =
    (case dir of
       None \<Rightarrow> Some (- EINVAL, st)
     | Some d \<Rightarrow> do {
         s \<leftarrow> v_shells st d;
         if sh_type s \<noteq> V_DIR then Some (- ENOTDIR, st)
         else do {
           k \<leftarrow> sh_ops s;
           case op_unlink (en_ops E k) of None \<Rightarrow> Some (- EPERM, st) | Some u \<Rightarrow> u d name st } })"

definition vfs_readdir_at :: "('p, 'w) fs_env \<Rightarrow> vn option \<Rightarrow> nat \<Rightarrow> ('p, 'w) vfs \<Rightarrow> (int \<times> string \<times> u8) option" where
  "vfs_readdir_at E dir idx st =
    (case dir of
       None \<Rightarrow> Some (- EINVAL, '''', 0)
     | Some d \<Rightarrow> do {
         s \<leftarrow> v_shells st d;
         if sh_type s \<noteq> V_DIR then Some (- ENOTDIR, '''', 0)
         else do {
           k \<leftarrow> sh_ops s;
           case op_readdir (en_ops E k) of None \<Rightarrow> Some (- EPERM, '''', 0) | Some rd \<Rightarrow> rd d idx st } })"

section \<open>Types and mounts\<close>

definition vfs_register_fs :: "string option \<Rightarrow> nat option \<Rightarrow> ('p, 'w) vfs \<Rightarrow> int \<times> ('p, 'w) vfs" where
  "vfs_register_fs name fn st =
    (case (name, fn) of
       (Some n, Some f) \<Rightarrow>
         if n \<in> fst ` set (v_fstypes st) then (- EEXIST, st)
         else if FSTYPES_MAX \<le> length (v_fstypes st) then (- ENOMEM, st)
         else (0, st\<lparr>v_fstypes := v_fstypes st @ [(n, f)]\<rparr>)
     | _ \<Rightarrow> (- EINVAL, st))"

definition vfs_mount_count :: "('p, 'w) vfs \<Rightarrow> nat" where
  "vfs_mount_count st = length (v_mounts st)"

definition find_mountpoint :: "string \<Rightarrow> ('p, 'w) vfs \<Rightarrow> mount option" where
  "find_mountpoint path st = find (\<lambda>m. mo_active m \<and> mo_path m = path) (v_mounts st)"

definition vfs_path_is_mounted :: "string \<Rightarrow> ('p, 'w) vfs \<Rightarrow> bool" where
  "vfs_path_is_mounted path st = list_ex (\<lambda>m. mo_active m \<and> mo_path m = path) (v_mounts st)"

text \<open>One report record: type name and path, cut to the sizes of the record's fields.\<close>

definition vfs_mountinfo_fill :: "nat \<Rightarrow> ('p, 'w) vfs \<Rightarrow> (string \<times> string) list" where
  "vfs_mountinfo_fill n st =
    take n (map (\<lambda>m. (take 15 (mo_fstype m), take (VFS_PATH_MAX - 1) (mo_path m))) (filter mo_active (v_mounts st)))"

definition vfs_root :: "('p, 'w) vfs \<Rightarrow> (vn option \<times> ('p, 'w) vfs) option" where
  "vfs_root st =
    (if v_have_root st
     then do { r \<leftarrow> mo_root (v_mounts st ! 0); st1 \<leftarrow> vn_ref (Some r) st; Some (Some r, st1) }
     else Some (None, st))"

text \<open>The mounting function gets the slot and must leave a root there, otherwise the kernel
  panics. A failure takes back the last slot, whichever it is by then.\<close>

definition mount_slot :: "('p, 'w) fs_env \<Rightarrow> string \<times> nat \<Rightarrow> string \<Rightarrow> nat option \<Rightarrow> u64 \<Rightarrow> u64 \<Rightarrow> ('p, 'w) vfs \<Rightarrow> (int \<times> ('p, 'w) vfs) option" where
  "mount_slot E ft path bd lba nsect st =
    (let is_root = (path = ''/''); slot = length (v_mounts st);
         m = \<lparr>mo_fstype = fst ft, mo_bd = bd, mo_part_lba = lba, mo_part_nsect = nsect, mo_root = None,
              mo_active = True, mo_path = path\<rparr>
     in do {
       (r, st1) \<leftarrow> en_mount E (snd ft) slot
                     (st\<lparr>v_mounts := v_mounts st @ [m], v_have_root := is_root \<or> v_have_root st\<rparr>);
       if r \<noteq> 0
       then Some (r, st1\<lparr>v_mounts := take (length (v_mounts st1) - 1)
                     ((v_mounts st1)[slot := (v_mounts st1 ! slot)\<lparr>mo_active := False\<rparr>]),
                   v_have_root := \<not> is_root \<and> v_have_root st1\<rparr>)
       else if mo_root (v_mounts st1 ! slot) = None then None
       else Some (0, st1) })"

definition vfs_mount :: "('p, 'w) fs_env \<Rightarrow> string \<Rightarrow> string \<Rightarrow> nat option \<Rightarrow> u64 \<Rightarrow> u64 \<Rightarrow> ('p, 'w) vfs \<Rightarrow> (int \<times> ('p, 'w) vfs) option" where
  "vfs_mount E fstype path bd lba nsect st =
    (if path = '''' \<or> hd path \<noteq> CHR ''/'' \<or> VFS_PATH_MAX \<le> length path then Some (- EINVAL, st)
     else case find (\<lambda>ft. fst ft = fstype) (v_fstypes st) of
       None \<Rightarrow> Some (- ENODEV, st)
     | Some ft \<Rightarrow>
         let is_root = (path = ''/'')
         in if is_root \<and> v_have_root st \<or> \<not> is_root \<and> \<not> v_have_root st
            then Some (if is_root then - EBUSY else - ENOENT, st)
            else if find_mountpoint path st \<noteq> None then Some (- EBUSY, st)
            else if VFS_MOUNT_MAX \<le> length (v_mounts st) then Some (- ENOMEM, st)
            else mount_slot E ft path bd lba nsect st)"

section \<open>Path resolution\<close>

text \<open>Joining goes through a buffer of 160 bytes; a component that does not fit is left out,
  and with a prefix of 159 bytes even the closing zero is stored behind the buffer.\<close>

definition path_join :: "nat \<Rightarrow> string \<Rightarrow> string \<Rightarrow> string option" where
  "path_join capa base leaf =
    (let bl = length base; cl = (if capa < bl + 1 + length leaf + 1 then 0 else length leaf)
     in if VFS_PATH_MAX < bl + 1 + cl + 1 then None else Some (base @ ''/'' @ take cl leaf))"

definition last_slash :: "string \<Rightarrow> nat option" where
  "last_slash s = (if CHR ''/'' \<in> set s then Some (length s - 1 - length (takeWhile (\<lambda>c. c \<noteq> CHR ''/'') (rev s))) else None)"

function norm_loop :: "string list \<Rightarrow> string \<Rightarrow> int + string list" where
  "norm_loop acc s =
    (let s1 = dropWhile (\<lambda>c. c = CHR ''/'') s
     in if s1 = '''' then Inr acc
        else
          let w = takeWhile (\<lambda>c. c \<noteq> CHR ''/'') s1; rest = dropWhile (\<lambda>c. c \<noteq> CHR ''/'') s1
          in if w = ''.'' then norm_loop acc rest
             else if w = ''..'' then norm_loop (butlast acc) rest
             else if VFS_COMPS_MAX \<le> length acc then Inl (- ENAMETOOLONG)
             else norm_loop (acc @ [take (VFS_NAME_MAX - 1) w]) rest)"
  by pat_completeness auto
termination
proof (relation "measure (\<lambda>(acc, s). length s)")
  fix s s1 :: string
  assume s1: "s1 = dropWhile (\<lambda>c. c = CHR ''/'') s" and ne: "\<not> s1 = ''''"
  have h: "hd s1 \<noteq> CHR ''/''" using hd_dropWhile [of "\<lambda>c. c = CHR ''/''" s] s1 ne by simp
  have "length (dropWhile (\<lambda>c. c \<noteq> CHR ''/'') s1) < length s1"
    using h ne by (cases s1) (auto simp: le_imp_less_Suc length_dropWhile_le)
  also have "length s1 \<le> length s" unfolding s1 by (rule length_dropWhile_le)
  finally have less: "length (dropWhile (\<lambda>c. c \<noteq> CHR ''/'') s1) < length s" .
  fix acc :: "string list" and w rest :: string
  assume "rest = dropWhile (\<lambda>c. c \<noteq> CHR ''/'') s1"
  with less show "((acc, rest), acc, s) \<in> measure (\<lambda>(acc, s). length s)"
    and "((butlast acc, rest), acc, s) \<in> measure (\<lambda>(acc, s). length s)"
    and "((acc @ [take (VFS_NAME_MAX - 1) w], rest), acc, s) \<in> measure (\<lambda>(acc, s). length s)"
    by simp_all
qed simp

declare norm_loop.simps [simp del]

definition normalize_path :: "string \<Rightarrow> int + string list" where
  "normalize_path path = norm_loop [] path"

text \<open>The walk from a directory: a mountpoint is entered by its path, everything else is
  looked up; the reference to the next vnode is taken before the one to the directory goes.\<close>

fun walk :: "('p, 'w) fs_env \<Rightarrow> string list \<Rightarrow> vn \<Rightarrow> string \<Rightarrow> ('p, 'w) vfs \<Rightarrow> (int \<times> vn option \<times> ('p, 'w) vfs) option" where
  "walk E [] cur cur_path st = Some (0, Some cur, st)"
| "walk E (c # cs) cur cur_path st = do {
     s \<leftarrow> v_shells st cur;
     if sh_type s \<noteq> V_DIR then do { st1 \<leftarrow> vn_unref E (Some cur) st; Some (- ENOTDIR, None, st1) }
     else do {
       trial \<leftarrow> path_join VFS_PATH_MAX cur_path c;
       case find_mountpoint trial st of
         Some x \<Rightarrow> do {
           nxt \<leftarrow> mo_root x;
           st1 \<leftarrow> vn_ref (Some nxt) st;
           st2 \<leftarrow> vn_unref E (Some cur) st1;
           walk E cs nxt trial st2 }
       | None \<Rightarrow> do {
           (r, out, st1) \<leftarrow> vfs_lookup_at E (Some cur) c st;
           if r \<noteq> 0 then do { st2 \<leftarrow> vn_unref E (Some cur) st1; Some (r, None, st2) }
           else do {
             joined \<leftarrow> path_join VFS_PATH_MAX cur_path c;
             nxt \<leftarrow> out;
             st2 \<leftarrow> vn_unref E (Some cur) st1;
             walk E cs nxt joined st2 } } } }"

definition vfs_resolve :: "('p, 'w) fs_env \<Rightarrow> string \<Rightarrow> ('p, 'w) vfs \<Rightarrow> (int \<times> vn option \<times> ('p, 'w) vfs) option" where
  "vfs_resolve E path st =
    (if path = '''' \<or> hd path \<noteq> CHR ''/'' then Some (- EINVAL, None, st)
     else case normalize_path path of
       Inl e \<Rightarrow> Some (e, None, st)
     | Inr comps \<Rightarrow> do {
         (cur, st1) \<leftarrow> vfs_root st;
         case cur of None \<Rightarrow> Some (- ENOENT, None, st1) | Some v \<Rightarrow> walk E comps v '''' st1 })"

section \<open>Whole-path operations\<close>

definition split_parent :: "string \<Rightarrow> int + string \<times> string" where
  "split_parent path =
    (case last_slash path of
       None \<Rightarrow> Inl (- EINVAL)
     | Some i \<Rightarrow>
         let plen = (if i = 0 then 1 else i); leaf = drop (i + 1) path
         in if VFS_PATH_MAX \<le> plen \<or> VFS_NAME_MAX \<le> length leaf then Inl (- ENAMETOOLONG)
            else if leaf = '''' then Inl (- EINVAL)
            else Inr (take plen path, leaf))"

definition bad_leaf_name :: "string \<Rightarrow> bool" where
  "bad_leaf_name base \<longleftrightarrow> base = '''' \<or> base = ''.'' \<or> base = ''..''"

definition file_alloc :: "file_id option \<Rightarrow> vn \<Rightarrow> u32 \<Rightarrow> ('p, 'w) vfs \<Rightarrow> file_id option \<times> ('p, 'w) vfs" where
  "file_alloc fresh v flags st =
    (case fresh of
       None \<Rightarrow> (None, st)
     | Some f \<Rightarrow> (Some f, set_file f (Some \<lparr>fi_vn = v, fi_off = 0, fi_flags = flags, fi_refs = 1\<rparr>) st))"

text \<open>The first half of opening: the vnode of the path, made on the way when asked to.\<close>

definition open_vnode :: "('p, 'w) fs_env \<Rightarrow> string \<Rightarrow> u32 \<Rightarrow> ('p, 'w) vfs \<Rightarrow> (int \<times> vn option \<times> ('p, 'w) vfs) option" where
  "open_vnode E path flags st = do {
     (r, vo, st1) \<leftarrow> vfs_resolve E path st;
     if r = - ENOENT \<and> flags AND O_CREAT \<noteq> 0
     then (case split_parent path of
             Inl e \<Rightarrow> Some (e, None, st1)
           | Inr (parent, base) \<Rightarrow>
               if bad_leaf_name base then Some (- EEXIST, None, st1)
               else do {
                 (r2, pdir, st2) \<leftarrow> vfs_resolve E parent st1;
                 if r2 \<noteq> 0 then Some (r2, None, st2)
                 else do {
                   (r3, vo3, st3) \<leftarrow> vfs_create_at E pdir base V_FILE st2;
                   st4 \<leftarrow> vn_unref E pdir st3;
                   Some (r3, vo3, st4) } })
     else Some (r, vo, st1) }"

definition vfs_open :: "('p, 'w) fs_env \<Rightarrow> file_id option \<Rightarrow> string \<Rightarrow> u32 \<Rightarrow> ('p, 'w) vfs \<Rightarrow> (int \<times> file_id option \<times> ('p, 'w) vfs) option" where
  "vfs_open E fresh path flags st =
    (let amode = flags AND O_ACCMODE
     in if amode = 3 then Some (- EINVAL, None, st)
        else do {
          (r, vo, st1) \<leftarrow> open_vnode E path flags st;
          if r \<noteq> 0 then Some (r, None, st1)
          else if flags AND O_CREAT \<noteq> 0 \<and> flags AND O_EXCL \<noteq> 0
          then do { st2 \<leftarrow> vn_unref E vo st1; Some (- EEXIST, None, st2) }
          else do {
            (ra, ty, _) \<leftarrow> vfs_getattr E vo st1;
            if ra \<noteq> 0 then do { st2 \<leftarrow> vn_unref E vo st1; Some (- EIO, None, st2) }
            else if ty = V_DIR \<and> amode \<noteq> O_RDONLY
            then do { st2 \<leftarrow> vn_unref E vo st1; Some (- EISDIR, None, st2) }
            else do {
              v \<leftarrow> vo;
              s \<leftarrow> v_shells st1 v;
              st2 \<leftarrow> (case Option.bind (sh_ops s) (\<lambda>k. op_write (en_ops E k)) of
                        None \<Rightarrow> Some st1
                      | Some w \<Rightarrow> if flags AND O_TRUNC \<noteq> 0 \<and> ty \<noteq> V_DIR then map_option snd (w v 0 [] st1) else Some st1);
              case file_alloc fresh v flags st2 of
                (Some f, st3) \<Rightarrow> Some (0, Some f, st3)
              | (None, st3) \<Rightarrow> do { st4 \<leftarrow> vn_unref E vo st3; Some (- ENOMEM, None, st4) } } } })"

definition vfs_unlink :: "('p, 'w) fs_env \<Rightarrow> string \<Rightarrow> ('p, 'w) vfs \<Rightarrow> (int \<times> ('p, 'w) vfs) option" where
  "vfs_unlink E path st =
    (if path = '''' \<or> hd path \<noteq> CHR ''/'' then Some (- EINVAL, st)
     else case split_parent path of
       Inl e \<Rightarrow> Some (e, st)
     | Inr (parent, base) \<Rightarrow>
         if bad_leaf_name base then Some (- EINVAL, st)
         else do {
           (r, pdir, st1) \<leftarrow> vfs_resolve E parent st;
           if r \<noteq> 0 then Some (r, st1)
           else do {
             (r2, st2) \<leftarrow> vfs_unlink_at E pdir base st1;
             st3 \<leftarrow> vn_unref E pdir st2;
             Some (r2, st3) } })"

definition path_create_dir :: "('p, 'w) fs_env \<Rightarrow> string \<Rightarrow> vtype \<Rightarrow> ('p, 'w) vfs \<Rightarrow> (int \<times> ('p, 'w) vfs) option" where
  "path_create_dir E path t st =
    (if path = '''' \<or> hd path \<noteq> CHR ''/'' then Some (- EINVAL, st)
     else case split_parent path of
       Inl e \<Rightarrow> Some (e, st)
     | Inr (parent, base) \<Rightarrow>
         if bad_leaf_name base then Some (- EEXIST, st)
         else do {
           (r, pdir, st1) \<leftarrow> vfs_resolve E parent st;
           if r \<noteq> 0 then Some (r, st1)
           else do {
             (r2, made, st2) \<leftarrow> vfs_create_at E pdir base t st1;
             st3 \<leftarrow> vn_unref E made st2;
             st4 \<leftarrow> vn_unref E pdir st3;
             Some (r2, st4) } })"

definition vfs_mkdir :: "('p, 'w) fs_env \<Rightarrow> string \<Rightarrow> ('p, 'w) vfs \<Rightarrow> (int \<times> ('p, 'w) vfs) option" where
  "vfs_mkdir E path st = path_create_dir E path V_DIR st"

definition vfs_rmdir :: "('p, 'w) fs_env \<Rightarrow> string \<Rightarrow> ('p, 'w) vfs \<Rightarrow> (int \<times> ('p, 'w) vfs) option" where
  "vfs_rmdir E path st = do {
     (r, vo, st1) \<leftarrow> vfs_resolve E path st;
     if r \<noteq> 0 then Some (r, st1)
     else do {
       v \<leftarrow> vo;
       s \<leftarrow> v_shells st1 v;
       st2 \<leftarrow> vn_unref E vo st1;
       if sh_type s \<noteq> V_DIR then Some (- ENOTDIR, st2) else vfs_unlink E path st2 } }"

section \<open>Open files\<close>

definition file_close :: "('p, 'w) fs_env \<Rightarrow> file_id option \<Rightarrow> ('p, 'w) vfs \<Rightarrow> ('p, 'w) vfs option" where
  "file_close E fo st =
    (case fo of
       None \<Rightarrow> Some st
     | Some f \<Rightarrow> do {
         x \<leftarrow> v_files st f;
         if fi_refs x = 0 then None
         else if fi_refs x = 1
         then do { st1 \<leftarrow> vn_unref E (Some (fi_vn x)) (set_file f (Some (x\<lparr>fi_refs := 0\<rparr>)) st); Some (set_file f None st1) }
         else Some (set_file f (Some (x\<lparr>fi_refs := fi_refs x - 1\<rparr>)) st) })"

definition f_read :: "('p, 'w) fs_env \<Rightarrow> file_id option \<Rightarrow> u64 \<Rightarrow> ('p, 'w) vfs \<Rightarrow> (int \<times> u8 list \<times> ('p, 'w) vfs) option" where
  "f_read E fo len st =
    (case fo of
       None \<Rightarrow> Some (- EINVAL, [], st)
     | Some f \<Rightarrow> do {
         x \<leftarrow> v_files st f;
         if fi_flags x AND O_ACCMODE = O_WRONLY then Some (- EBADF, [], st)
         else do {
           s \<leftarrow> v_shells st (fi_vn x);
           case Option.bind (sh_ops s) (\<lambda>k. op_read (en_ops E k)) of
             None \<Rightarrow> Some (- EINVAL, [], st)
           | Some rd \<Rightarrow> rd (fi_vn x) (fi_off x) len st } })"

definition f_write :: "('p, 'w) fs_env \<Rightarrow> file_id option \<Rightarrow> u8 list \<Rightarrow> ('p, 'w) vfs \<Rightarrow> (int \<times> ('p, 'w) vfs) option" where
  "f_write E fo buf st =
    (case fo of
       None \<Rightarrow> Some (- EINVAL, st)
     | Some f \<Rightarrow> do {
         x \<leftarrow> v_files st f;
         if fi_flags x AND O_ACCMODE = O_RDONLY then Some (- EBADF, st)
         else do {
           s \<leftarrow> v_shells st (fi_vn x);
           case Option.bind (sh_ops s) (\<lambda>k. op_write (en_ops E k)) of
             None \<Rightarrow> Some (- EINVAL, st)
           | Some w \<Rightarrow> do {
               (ra, _, sz) \<leftarrow> (if fi_flags x AND O_APPEND \<noteq> 0 then vfs_getattr E (Some (fi_vn x)) st
                                 else Some (0, V_NONE, fi_off x));
               if ra \<noteq> 0 then Some (- EIO, st)
               else do {
                 (r, st1) \<leftarrow> w (fi_vn x) sz buf (set_file f (Some (x\<lparr>fi_off := sz\<rparr>)) st);
                 x1 \<leftarrow> v_files st1 f;
                 Some (r, if 0 < r then set_file f (Some (x1\<lparr>fi_off := fi_off x1 + word_of_int r\<rparr>)) st1 else st1) } } } })"

datatype whence = SEEK_SET | SEEK_CUR | SEEK_END | SEEK_OTHER

definition f_lseek :: "('p, 'w) fs_env \<Rightarrow> file_id option \<Rightarrow> u64 \<Rightarrow> whence \<Rightarrow> ('p, 'w) vfs \<Rightarrow> (int \<times> u64 option \<times> ('p, 'w) vfs) option" where
  "f_lseek E fo off wh st =
    (case fo of
       None \<Rightarrow> Some (- EINVAL, None, st)
     | Some f \<Rightarrow> do {
         x \<leftarrow> v_files st f;
         s \<leftarrow> v_shells st (fi_vn x);
         if sh_type s = V_DIR then Some (- EISDIR, None, st)
         else if sh_type s = V_PIPE \<or> sh_type s = V_SOCK then Some (- ESPIPE, None, st)
         else if wh = SEEK_OTHER then Some (- EINVAL, None, st)
         else do {
           (r, base) \<leftarrow> (case wh of
               SEEK_CUR \<Rightarrow> Some (0, fi_off x)
             | SEEK_END \<Rightarrow> do { (ra, _, sz) \<leftarrow> vfs_getattr E (Some (fi_vn x)) st; Some (ra, sz) }
             | _ \<Rightarrow> Some (0, 0));
           if r \<noteq> 0 then Some (r, None, st)
           else
             let pos = base + off
             in if sint pos < 0 then Some (- EINVAL, None, st)
                else Some (0, Some pos, set_file f (Some (x\<lparr>fi_off := pos\<rparr>)) st) } })"

text \<open>Directory records: the length in two bytes, the type, the name with its zero, and padding
  that the code leaves as it finds it.\<close>

definition ux_dirent_len :: "string \<Rightarrow> nat" where
  "ux_dirent_len name = (3 + length name + 1 + 7) div 8 * 8"

definition dirent_bytes :: "string \<Rightarrow> u8 \<Rightarrow> u8 list" where
  "dirent_bytes name dtype =
    le_bytes 2 (of_nat (ux_dirent_len name) :: u16) @ [dtype] @ map of_char name @ [0]"

function getdents_loop :: "('p, 'w) fs_env \<Rightarrow> file_id \<Rightarrow> nat \<Rightarrow> nat \<Rightarrow> u8 list \<Rightarrow> ('p, 'w) vfs \<Rightarrow> (int \<times> u8 list \<times> ('p, 'w) vfs) option" where
  "getdents_loop E f buflen used buf st =
    (if \<not> used < buflen then Some (int used, buf, st)
     else do {
       x \<leftarrow> v_files st f;
       (r, name, dtype) \<leftarrow> vfs_readdir_at E (Some (fi_vn x)) (unat (ucast (fi_off x) :: u32)) st;
       if r = - ENOENT then Some (int used, buf, st)
       else if r \<noteq> 0 then Some (r, buf, st)
       else if buflen < used + ux_dirent_len name then Some (int used, buf, st)
       else getdents_loop E f buflen (used + ux_dirent_len name) (write_at used (dirent_bytes name dtype) buf)
              (set_file f (Some (x\<lparr>fi_off := fi_off x + 1\<rparr>)) st) })"
  by pat_completeness auto
termination
  by (relation "measure (\<lambda>(E, f, buflen, used, buf, st). buflen - used)") (auto simp: ux_dirent_len_def)

declare getdents_loop.simps [simp del]

definition f_getdents :: "('p, 'w) fs_env \<Rightarrow> file_id option \<Rightarrow> u8 list \<Rightarrow> ('p, 'w) vfs \<Rightarrow> (int \<times> u8 list \<times> ('p, 'w) vfs) option" where
  "f_getdents E fo buf st =
    (case fo of
       None \<Rightarrow> Some (- EINVAL, buf, st)
     | Some f \<Rightarrow> do {
         x \<leftarrow> v_files st f;
         s \<leftarrow> v_shells st (fi_vn x);
         if sh_type s \<noteq> V_DIR then Some (- ENOTDIR, buf, st)
         else getdents_loop E f (length buf) 0 buf st })"

section \<open>Descriptor tables\<close>

definition vfs_fd_install :: "table_id option \<Rightarrow> file_id option \<Rightarrow> ('p, 'w) vfs \<Rightarrow> (int \<times> ('p, 'w) vfs) option" where
  "vfs_fd_install tb fo st =
    (case (tb, fo) of
       (Some t, Some f) \<Rightarrow> do {
         xs \<leftarrow> v_tables st t;
         case find (\<lambda>i. xs ! i = None) [0..<PROC_FD_MAX] of
           Some fd \<Rightarrow> Some (int fd, set_table t (Some (xs[fd := Some f])) st)
         | None \<Rightarrow> Some (- EMFILE, st) }
     | _ \<Rightarrow> Some (- EINVAL, st))"

definition bad_fd :: "int \<Rightarrow> bool" where
  "bad_fd fd \<longleftrightarrow> fd < 0 \<or> int PROC_FD_MAX \<le> fd"

definition vfs_fd_get :: "table_id option \<Rightarrow> int \<Rightarrow> ('p, 'w) vfs \<Rightarrow> (file_id option \<times> ('p, 'w) vfs) option" where
  "vfs_fd_get tb fd st =
    (case tb of
       None \<Rightarrow> Some (None, st)
     | Some t \<Rightarrow>
         if bad_fd fd then Some (None, st)
         else do {
           xs \<leftarrow> v_tables st t;
           case xs ! nat fd of
             None \<Rightarrow> Some (None, st)
           | Some f \<Rightarrow> do {
               x \<leftarrow> v_files st f;
               Some (Some f, set_file f (Some (x\<lparr>fi_refs := fi_refs x + 1\<rparr>)) st) } })"

definition vfs_fd_put :: "('p, 'w) fs_env \<Rightarrow> table_id option \<Rightarrow> int \<Rightarrow> ('p, 'w) vfs \<Rightarrow> ('p, 'w) vfs option" where
  "vfs_fd_put E tb fd st =
    (case tb of
       None \<Rightarrow> Some st
     | Some t \<Rightarrow>
         if bad_fd fd then Some st
         else do {
           xs \<leftarrow> v_tables st t;
           file_close E (xs ! nat fd) (set_table t (Some (xs[nat fd := None])) st) })"

text \<open>\<open>cur\<close> is the process of the running task, \<open>None\<close> outside a process.\<close>

definition vfs_vnode_of_fd :: "('p, 'w) fs_env \<Rightarrow> proc_id option \<Rightarrow> int \<Rightarrow> ('p, 'w) vfs \<Rightarrow> (vn option \<times> ('p, 'w) vfs) option" where
  "vfs_vnode_of_fd E cur fd st =
    (case Option.bind cur (v_fds st) of
       None \<Rightarrow> Some (None, st)
     | Some t \<Rightarrow>
         if bad_fd fd then Some (None, st)
         else do {
           (fo, st1) \<leftarrow> vfs_fd_get (Some t) fd st;
           case fo of
             None \<Rightarrow> Some (None, st1)
           | Some f \<Rightarrow> do { x \<leftarrow> v_files st1 f; st2 \<leftarrow> file_close E (Some f) st1; Some (Some (fi_vn x), st2) } })"

text \<open>Standard streams. \<open>cd\<close> is the private data for the console device, \<open>None\<close> when the
  character-device registry has no console yet.\<close>

definition console_file :: "('p, 'w) fs_env \<Rightarrow> 'p option \<Rightarrow> file_id option \<Rightarrow> u32 \<Rightarrow> ('p, 'w) vfs \<Rightarrow> (file_id option \<times> ('p, 'w) vfs) option" where
  "console_file E cd fresh accmode st =
    (case cd of
       None \<Rightarrow> Some (None, st)
     | Some p \<Rightarrow>
         let c = en_console E;
             s = (case v_shells st c of
                    None \<Rightarrow> \<lparr>sh_ops = Some (en_char_ops E), sh_type = V_CHARDEV, sh_refs = 1, sh_priv = p\<rparr>
                  | Some s0 \<Rightarrow> s0\<lparr>sh_priv := p\<rparr>)
         in do {
           st1 \<leftarrow> vn_ref (Some c) (st\<lparr>v_shells := (v_shells st)(c \<mapsto> s)\<rparr>);
           Some (file_alloc fresh c accmode st1) })"

fun attach_stdio :: "('p, 'w) fs_env \<Rightarrow> 'p option \<Rightarrow> table_id \<Rightarrow> (u32 \<times> file_id option) list \<Rightarrow> ('p, 'w) vfs \<Rightarrow> ('p, 'w) vfs option" where
  "attach_stdio E cd t [] st = Some st"
| "attach_stdio E cd t ((accmode, fresh) # rest) st = do {
     (std, st1) \<leftarrow> console_file E cd fresh accmode st;
     st2 \<leftarrow> (if std = None then Some st1
             else do {
               (fd, st1') \<leftarrow> vfs_fd_install (Some t) std st1;
               if fd < 0 then file_close E std st1' else Some st1' });
     attach_stdio E cd t rest st2 }"

definition vfs_proc_fds_init :: "('p, 'w) fs_env \<Rightarrow> 'p option \<Rightarrow> table_id option \<Rightarrow> file_id option list \<Rightarrow> proc_id \<Rightarrow> ('p, 'w) vfs \<Rightarrow> (int \<times> ('p, 'w) vfs) option" where
  "vfs_proc_fds_init E cd tmem fmem p st =
    (case tmem of
       None \<Rightarrow> Some (- ENOMEM, st)
     | Some t \<Rightarrow> do {
         st1 \<leftarrow> attach_stdio E cd t (zip [O_RDONLY, O_WRONLY, O_WRONLY] fmem)
                  (set_table t (Some (replicate PROC_FD_MAX None)) st);
         Some (0, st1\<lparr>v_fds := (v_fds st1)(p := Some t)\<rparr>) })"

definition vfs_install_vnode :: "('p, 'w) fs_env \<Rightarrow> 'p option \<Rightarrow> table_id option \<Rightarrow> file_id option list \<Rightarrow> file_id option \<Rightarrow> proc_id option \<Rightarrow> vn option \<Rightarrow> ('p, 'w) vfs \<Rightarrow> (int \<times> ('p, 'w) vfs) option" where
  "vfs_install_vnode E cd tmem fmem fresh cur vo st =
    (case (cur, vo) of
       (Some p, Some v) \<Rightarrow> do {
         (r, st1) \<leftarrow> (if v_fds st p = None then vfs_proc_fds_init E cd tmem fmem p st else Some (0, st));
         if r \<noteq> 0 then Some (- 1, st1)
         else
           (case file_alloc fresh v O_RDWR st1 of
              (None, st2) \<Rightarrow> Some (- 1, st2)
            | (Some f, st2) \<Rightarrow> do {
                (fd, st3) \<leftarrow> vfs_fd_install (v_fds st2 p) (Some f) st2;
                if fd < 0 then do { st4 \<leftarrow> file_close E (Some f) st3; Some (fd, st4) } else Some (fd, st3) }) }
     | _ \<Rightarrow> Some (- 1, st))"

text \<open>Sharing the open files of the parent takes one reference for each used slot.\<close>

fun ref_slots :: "fd_table \<Rightarrow> ('p, 'w) vfs \<Rightarrow> ('p, 'w) vfs option" where
  "ref_slots [] st = Some st"
| "ref_slots (None # xs) st = ref_slots xs st"
| "ref_slots (Some f # xs) st = do {
     x \<leftarrow> v_files st f;
     ref_slots xs (set_file f (Some (x\<lparr>fi_refs := fi_refs x + 1\<rparr>)) st) }"

definition vfs_proc_fds_inherit :: "table_id option \<Rightarrow> proc_id \<Rightarrow> proc_id option \<Rightarrow> ('p, 'w) vfs \<Rightarrow> ('p, 'w) vfs option" where
  "vfs_proc_fds_inherit tmem child parent st =
    (case Option.bind parent (v_fds st) of
       None \<Rightarrow> Some st
     | Some pt \<Rightarrow>
         (case tmem of
            None \<Rightarrow> Some st
          | Some ct \<Rightarrow> do {
              xs \<leftarrow> v_tables st pt;
              st1 \<leftarrow> ref_slots xs st;
              let st2 = set_table ct (Some xs) st1;
              Some (st2\<lparr>v_fds := (v_fds st2)(child := Some ct)\<rparr>) }))"

fun put_all :: "('p, 'w) fs_env \<Rightarrow> table_id \<Rightarrow> nat list \<Rightarrow> ('p, 'w) vfs \<Rightarrow> ('p, 'w) vfs option" where
  "put_all E t [] st = Some st"
| "put_all E t (fd # fds) st = do { st1 \<leftarrow> vfs_fd_put E (Some t) (int fd) st; put_all E t fds st1 }"

definition vfs_proc_fds_release :: "('p, 'w) fs_env \<Rightarrow> proc_id \<Rightarrow> ('p, 'w) vfs \<Rightarrow> ('p, 'w) vfs option" where
  "vfs_proc_fds_release E p st =
    (case v_fds st p of
       None \<Rightarrow> Some st
     | Some t \<Rightarrow> do {
         st1 \<leftarrow> put_all E t [0..<PROC_FD_MAX] (st\<lparr>v_fds := (v_fds st)(p := None)\<rparr>);
         Some (set_table t None st1) })"

end
