(* ===== verification/Vfs_Path.thy ===== *)
theory Vfs_Path
  imports Vfs
begin

text \<open>
  Path normalisation against a reference: the segments between slashes, folded from the left
  with \<open>.\<close> skipped and \<open>..\<close> dropping the last component. The scan over characters is first
  shown to be a scan over segments; then bounds, shape and idempotence follow by induction on
  the segments.
\<close>

section \<open>The reference\<close>

fun split_slash :: "string \<Rightarrow> string list" where
  "split_slash [] = [[]]"
| "split_slash (c # s) = (if c = CHR ''/'' then [] # split_slash s else (c # hd (split_slash s)) # tl (split_slash s))"

definition segments :: "string \<Rightarrow> string list" where
  "segments s = filter (\<lambda>w. w \<noteq> []) (split_slash s)"

definition lex_step :: "string list \<Rightarrow> string \<Rightarrow> string list" where
  "lex_step acc w = (if w = ''.'' then acc else if w = ''..'' then butlast acc else acc @ [w])"

definition lexical :: "string \<Rightarrow> string list" where
  "lexical s = foldl lex_step [] (segments s)"

definition too_deep :: "string \<Rightarrow> bool" where
  "too_deep s = (\<exists>k \<le> length (segments s). VFS_COMPS_MAX < length (foldl lex_step [] (take k (segments s))))"

definition cut :: "string \<Rightarrow> string" where
  "cut w = take (VFS_NAME_MAX - 1) w"

definition good_name :: "string \<Rightarrow> bool" where
  "good_name c \<longleftrightarrow> c \<noteq> [] \<and> length c < VFS_NAME_MAX \<and> CHR ''/'' \<notin> set c \<and> c \<noteq> ''.'' \<and> c \<noteq> ''..''"

definition render :: "string list \<Rightarrow> string" where
  "render cs = concat (map (\<lambda>c. CHR ''/'' # c) cs)"

section \<open>Segments\<close>

lemma split_slash_not_Nil [simp]: "split_slash s \<noteq> []"
  by (induction s) auto

lemma split_slash_word:
  "CHR ''/'' \<notin> set w \<Longrightarrow> split_slash (w @ CHR ''/'' # s) = w # split_slash s"
  "CHR ''/'' \<notin> set w \<Longrightarrow> split_slash w = [w]"
  by (induction w) auto

lemma segments_slash [simp]: "segments (CHR ''/'' # s) = segments s"
  by (simp add: segments_def)

lemma segments_Nil [simp]: "segments [] = []"
  by (simp add: segments_def)

lemma segments_word:
  assumes "w \<noteq> []" and "CHR ''/'' \<notin> set w" and "s = [] \<or> hd s = CHR ''/''"
  shows "segments (w @ s) = w # segments s"
proof (cases s)
  case Nil
  with assms show ?thesis by (simp add: segments_def split_slash_word)
next
  case (Cons c t)
  with assms have "s = CHR ''/'' # t" by simp
  with assms(1,2) show ?thesis by (simp add: split_slash_word) (simp add: segments_def split_slash_word)
qed

lemma segments_dropWhile: "segments (dropWhile (\<lambda>c. c = CHR ''/'') s) = segments s"
  by (induction s) auto

lemma segments_scan:
  fixes s :: string
  defines "s1 \<equiv> dropWhile (\<lambda>c. c = CHR ''/'') s"
  assumes "s1 \<noteq> []"
  shows "segments s = takeWhile (\<lambda>c. c \<noteq> CHR ''/'') s1 # segments (dropWhile (\<lambda>c. c \<noteq> CHR ''/'') s1)"
proof -
  let ?w = "takeWhile (\<lambda>c. c \<noteq> CHR ''/'') s1" and ?r = "dropWhile (\<lambda>c. c \<noteq> CHR ''/'') s1"
  have "hd s1 \<noteq> CHR ''/''" using hd_dropWhile [of "\<lambda>c. c = CHR ''/''" s] assms by simp
  then have "?w \<noteq> []" using assms(2) by (cases s1) auto
  moreover have "CHR ''/'' \<notin> set ?w" by (auto dest: set_takeWhileD)
  moreover have "?r = [] \<or> hd ?r = CHR ''/''" using hd_dropWhile [of "\<lambda>c. c \<noteq> CHR ''/''" s1] by auto
  ultimately have "segments (?w @ ?r) = ?w # segments ?r" by (rule segments_word)
  then show ?thesis by (simp add: s1_def segments_dropWhile)
qed

lemma segments_shape: "w \<in> set (segments s) \<Longrightarrow> w \<noteq> [] \<and> CHR ''/'' \<notin> set w"
proof -
  have "\<forall>w \<in> set (split_slash s). CHR ''/'' \<notin> set w"
  proof (induction s)
    case (Cons c s)
    then have "CHR ''/'' \<notin> set (hd (split_slash s))" and "\<forall>w \<in> set (tl (split_slash s)). CHR ''/'' \<notin> set w"
      by (cases "split_slash s"; simp)+
    with Cons show ?case by auto
  qed simp
  then show "w \<in> set (segments s) \<Longrightarrow> w \<noteq> [] \<and> CHR ''/'' \<notin> set w" by (auto simp: segments_def)
qed

lemma segments_length: "sum_list (map (\<lambda>w. Suc (length w)) (segments s)) \<le> Suc (length s)"
proof -
  have "sum_list (map (\<lambda>w. Suc (length w)) (split_slash s)) = Suc (length s)"
  proof (induction s)
    case (Cons c s)
    then show ?case by (cases "split_slash s") auto
  qed simp
  moreover have "sum_list (map (\<lambda>w. Suc (length w)) (filter (\<lambda>w. w \<noteq> []) ws)) \<le> sum_list (map (\<lambda>w. Suc (length w)) ws)" for ws :: "string list"
    by (induction ws) auto
  ultimately show ?thesis unfolding segments_def by (metis (no_types))
qed

section \<open>The scan over segments\<close>

fun norm_segs :: "string list \<Rightarrow> string list \<Rightarrow> int + string list" where
  "norm_segs acc [] = Inr acc"
| "norm_segs acc (w # ws) =
    (if w = ''.'' then norm_segs acc ws
     else if w = ''..'' then norm_segs (butlast acc) ws
     else if VFS_COMPS_MAX \<le> length acc then Inl (- ENAMETOOLONG)
     else norm_segs (acc @ [cut w]) ws)"

lemma norm_loop_segs: "norm_loop acc s = norm_segs acc (segments s)"
proof (induction acc s rule: norm_loop.induct)
  case (1 acc s)
  define s1 where "s1 = dropWhile (\<lambda>c. c = CHR ''/'') s"
  note IH = 1 [folded s1_def, OF refl _ refl refl]
  note step = norm_loop.simps [of acc s, folded s1_def]
  show ?case
  proof (cases "s1 = []")
    case True
    have "segments s = []" using segments_dropWhile [of s, folded s1_def] unfolding True by simp
    with True show ?thesis unfolding step by (simp only: Let_def norm_segs.simps simp_thms if_True)
  next
    case False
    note scan = segments_scan [of s, folded s1_def, OF False]
    show ?thesis unfolding step scan using IH False by (simp add: Let_def cut_def)
  qed
qed

lemma map_butlast_cut: "map cut (butlast acc) = butlast (map cut acc)"
  by (simp add: map_butlast)

lemma norm_segs_spec:
  "length acc \<le> VFS_COMPS_MAX \<Longrightarrow>
    norm_segs (map cut acc) ws =
      (if \<exists>k \<le> length ws. VFS_COMPS_MAX < length (foldl lex_step acc (take k ws)) then Inl (- ENAMETOOLONG)
       else Inr (map cut (foldl lex_step acc ws)))"
proof (induction ws arbitrary: acc)
  case (Cons w ws)
  have split: "(\<exists>k \<le> length (w # ws). VFS_COMPS_MAX < length (foldl lex_step acc (take k (w # ws)))) \<longleftrightarrow>
    (\<exists>k \<le> length ws. VFS_COMPS_MAX < length (foldl lex_step (lex_step acc w) (take k ws)))" (is "?L \<longleftrightarrow> ?R")
  proof
    assume ?L
    then obtain k where k: "k \<le> length (w # ws)" "VFS_COMPS_MAX < length (foldl lex_step acc (take k (w # ws)))" by blast
    with Cons.prems obtain j where "k = Suc j" by (cases k) auto
    with k show ?R by auto
  next
    assume ?R
    then obtain k where k: "k \<le> length ws" "VFS_COMPS_MAX < length (foldl lex_step (lex_step acc w) (take k ws))" by blast
    show ?L by (rule exI [of _ "Suc k"]) (use k in simp)
  qed
  show ?case
  proof (cases "length (lex_step acc w) \<le> VFS_COMPS_MAX")
    case True
    then have "norm_segs (map cut acc) (w # ws) = norm_segs (map cut (lex_step acc w)) ws"
      using Cons.prems by (auto simp: lex_step_def map_butlast_cut)
    then show ?thesis unfolding split foldl_Cons by (simp only: Cons.IH [OF True])
  next
    case False
    then have "norm_segs (map cut acc) (w # ws) = Inl (- ENAMETOOLONG)"
      using Cons.prems by (auto simp: lex_step_def split: if_splits)
    moreover have "\<exists>k \<le> length ws. VFS_COMPS_MAX < length (foldl lex_step (lex_step acc w) (take k ws))"
      using False by (intro exI [of _ 0]) simp
    ultimately show ?thesis unfolding split by (simp only: if_True)
  qed
qed simp

text \<open>C20: Normalising a path computes the reference fold over its segments, with every component cut
  to 63 characters, and fails with \<open>-ENAMETOOLONG\<close> exactly when some prefix of the path is more
  than 24 components deep.\<close>
theorem normalize_path_is_lexical:
  "normalize_path p = (if too_deep p then Inl (- ENAMETOOLONG) else Inr (map cut (lexical p)))"
  using norm_segs_spec [of "[]" "segments p"]
  by (simp add: normalize_path_def norm_loop_segs too_deep_def lexical_def)

lemma norm_segs_good:
  assumes "norm_segs acc ws = Inr cs" and "\<forall>w \<in> set ws. w \<noteq> [] \<and> CHR ''/'' \<notin> set w"
    and "\<forall>c \<in> set acc. good_name c" and "length acc \<le> VFS_COMPS_MAX"
  shows "(\<forall>c \<in> set cs. good_name c) \<and> length cs \<le> VFS_COMPS_MAX"
  using assms
proof (induction acc ws rule: norm_segs.induct)
  case (2 acc w ws)
  have "\<not> w = ''.'' \<Longrightarrow> \<not> w = ''..'' \<Longrightarrow> good_name (cut w)"
  proof -
    assume ne: "\<not> w = ''.''" "\<not> w = ''..''"
    have w: "w \<noteq> []" "CHR ''/'' \<notin> set w" using 2 by auto
    have "length w < VFS_NAME_MAX \<Longrightarrow> cut w = w" by (simp add: cut_def)
    moreover have "\<not> length w < VFS_NAME_MAX \<Longrightarrow> length (cut w) = 63" by (simp add: cut_def)
    moreover have "set (cut w) \<subseteq> set w" by (simp add: cut_def set_take_subset)
    ultimately show ?thesis using w ne
      by (cases "length w < VFS_NAME_MAX") (auto simp: good_name_def)
  qed
  moreover have "\<forall>x \<in> set (butlast acc). good_name x" using 2 by (auto dest: in_set_butlastD)
  moreover have "length (butlast acc) \<le> VFS_COMPS_MAX" using 2 by simp
  ultimately show ?case using 2 by (auto split: if_splits)
qed simp

lemma norm_segs_length:
  "norm_segs acc ws = Inr cs \<Longrightarrow>
    sum_list (map (\<lambda>w. Suc (length w)) cs) \<le> sum_list (map (\<lambda>w. Suc (length w)) acc) + sum_list (map (\<lambda>w. Suc (length w)) ws)"
proof (induction acc ws rule: norm_segs.induct)
  case (2 acc w ws)
  have "sum_list (map (\<lambda>w. Suc (length w)) (butlast acc)) \<le> sum_list (map (\<lambda>w. Suc (length w)) acc)"
    by (cases acc rule: rev_cases) auto
  moreover have "length (cut w) \<le> length w" by (simp add: cut_def)
  ultimately show ?case using 2 by (fastforce split: if_splits)
qed simp

lemma length_render: "length (render cs) = sum_list (map (\<lambda>w. Suc (length w)) cs)"
  by (induction cs) (auto simp: render_def)

lemma normalize_path_good:
  assumes "normalize_path p = Inr cs"
  shows "\<forall>c \<in> set cs. good_name c" and "length cs \<le> VFS_COMPS_MAX"
  using norm_segs_good [of "[]" "segments p" cs] assms segments_shape
  by (auto simp: normalize_path_def norm_loop_segs)

lemma normalize_path_length:
  assumes "normalize_path p = Inr cs" and "p \<noteq> []" and "hd p = CHR ''/''"
  shows "length (render cs) \<le> length p"
proof -
  obtain q where q: "p = CHR ''/'' # q" using assms(2,3) by (cases p) auto
  have "length (render cs) \<le> sum_list (map (\<lambda>w. Suc (length w)) (segments p))"
    using norm_segs_length [of "[]" "segments p" cs] assms(1)
    by (simp add: normalize_path_def norm_loop_segs length_render)
  also have "\<dots> \<le> length p" using segments_length [of q] by (simp add: q)
  finally show ?thesis .
qed

lemma segments_render: "\<forall>c \<in> set cs. good_name c \<Longrightarrow> segments (render cs) = cs"
proof (induction cs)
  case (Cons c cs)
  have "render cs = [] \<or> hd (render cs) = CHR ''/''" by (cases cs) (auto simp: render_def)
  with Cons have "segments (c @ render cs) = c # segments (render cs)"
    by (intro segments_word) (auto simp: good_name_def)
  with Cons show ?case by (simp add: render_def)
qed (simp add: render_def)

lemma norm_segs_same:
  "\<forall>c \<in> set cs. good_name c \<Longrightarrow> length acc + length cs \<le> VFS_COMPS_MAX \<Longrightarrow> norm_segs acc cs = Inr (acc @ cs)"
  by (induction cs arbitrary: acc) (auto simp: good_name_def cut_def)

text \<open>C21: The components that normalising yields fit their 24 fields of 64 bytes and are proper
  names (not empty, without a slash, neither \<open>.\<close> nor \<open>..\<close>), the path written back from them is
  no longer than the one given, and normalising it again gives the same components.\<close>
theorem normalize_path_names:
  assumes "normalize_path p = Inr cs"
  shows "length cs \<le> VFS_COMPS_MAX \<and> (\<forall>c \<in> set cs. good_name c) \<and>
    (p \<noteq> [] \<and> hd p = CHR ''/'' \<longrightarrow> length (render cs) \<le> length p) \<and> normalize_path (render cs) = Inr cs"
proof (intro conjI)
  note good = normalize_path_good [OF assms]
  show "length cs \<le> VFS_COMPS_MAX" and "\<forall>c \<in> set cs. good_name c" by (fact good)+
  show "p \<noteq> [] \<and> hd p = CHR ''/'' \<longrightarrow> length (render cs) \<le> length p"
    using normalize_path_length [OF assms] by blast
  show "normalize_path (render cs) = Inr cs"
    using good norm_segs_same [of cs "[]"] by (simp add: normalize_path_def norm_loop_segs segments_render)
qed

lemma normalize_path_names_witness:
  "normalize_path (render [''a'', ''c'']) = Inr [''a'', ''c'']"
proof -
  have "normalize_path ''/a/./b/..//c'' = Inr [''a'', ''c'']"
    by (simp add: normalize_path_def norm_loop.simps)
  from normalize_path_names [OF this] show ?thesis by blast
qed

section \<open>Joining\<close>

lemma path_join_fits:
  "length base + 1 + length c < VFS_PATH_MAX \<Longrightarrow> path_join VFS_PATH_MAX base c = Some (base @ CHR ''/'' # c)"
  by (simp add: path_join_def Let_def)

end
