(* ===== verification/Vfs_Refs.thy ===== *)
theory Vfs_Refs
  imports Vfs_Path
begin

text \<open>
  Reference accounting of the virtual file system. Every vnode reference is held by an open
  file, by a mount, or by running kernel code (\<open>kv\<close>); every file reference is held by a
  descriptor slot or by running kernel code (\<open>kf\<close>). The locale \<open>file_systems\<close> states what the
  core expects of the operation tables: what a lookup, a creation, a destruction and a mount do
  to the counts and what they leave alone. Inside it, every path operation is shown to run
  without a fault and to keep the accounts.
\<close>

section \<open>The accounts\<close>

definition vrefs :: "('p, 'w) vfs \<Rightarrow> vn \<Rightarrow> nat" where
  "vrefs st v = (case v_shells st v of None \<Rightarrow> 0 | Some s \<Rightarrow> sh_refs s)"

definition frefs :: "('p, 'w) vfs \<Rightarrow> file_id \<Rightarrow> nat" where
  "frefs st f = (case v_files st f of None \<Rightarrow> 0 | Some x \<Rightarrow> fi_refs x)"

definition holders :: "('p, 'w) vfs \<Rightarrow> vn \<Rightarrow> nat" where
  "holders st v = card {f. \<exists>x. v_files st f = Some x \<and> fi_vn x = v}"

definition root_refs :: "('p, 'w) vfs \<Rightarrow> vn \<Rightarrow> nat" where
  "root_refs st v = count_list (map mo_root (v_mounts st)) (Some v)"

definition slots :: "('p, 'w) vfs \<Rightarrow> file_id \<Rightarrow> nat" where
  "slots st f = (\<Sum>t \<in> dom (v_tables st). count_list (the (v_tables st t)) (Some f))"

definition core_same :: "('p, 'w) vfs \<Rightarrow> ('p, 'w) vfs \<Rightarrow> bool" where
  "core_same st st1 \<longleftrightarrow>
    v_fstypes st1 = v_fstypes st \<and> v_mounts st1 = v_mounts st \<and> v_have_root st1 = v_have_root st \<and>
    v_files st1 = v_files st \<and> v_tables st1 = v_tables st \<and> v_fds st1 = v_fds st"

definition dirs_ok :: "('p, 'w) vfs \<Rightarrow> bool" where
  "dirs_ok st \<longleftrightarrow> (\<forall>v s. v_shells st v = Some s \<and> sh_type s = V_DIR \<longrightarrow> sh_ops s \<noteq> None)"

definition refs_ok :: "(vn \<Rightarrow> nat) \<Rightarrow> ('p, 'w) vfs \<Rightarrow> bool" where
  "refs_ok kv st \<longleftrightarrow> (\<forall>v. vrefs st v = kv v + holders st v + root_refs st v)"

definition files_ok :: "(file_id \<Rightarrow> nat) \<Rightarrow> ('p, 'w) vfs \<Rightarrow> bool" where
  "files_ok kf st \<longleftrightarrow>
    finite (dom (v_files st)) \<and> finite (dom (v_tables st)) \<and>
    (\<forall>f. frefs st f = kf f + slots st f) \<and>
    (\<forall>f x. v_files st f = Some x \<longrightarrow> 0 < fi_refs x) \<and>
    (\<forall>t xs. v_tables st t = Some xs \<longrightarrow> length xs = PROC_FD_MAX) \<and>
    (v_have_root st \<longrightarrow> v_mounts st \<noteq> []) \<and> (\<forall>m \<in> set (v_mounts st). mo_root m \<noteq> None) \<and>
    (\<forall>p t. v_fds st p = Some t \<longrightarrow> v_tables st t \<noteq> None) \<and> inj_on (v_fds st) (dom (v_fds st))"

definition vfs_ok :: "(vn \<Rightarrow> nat) \<Rightarrow> (file_id \<Rightarrow> nat) \<Rightarrow> ('p, 'w) vfs \<Rightarrow> bool" where
  "vfs_ok kv kf st \<longleftrightarrow> files_ok kf st \<and> refs_ok kv st \<and> dirs_ok st"

definition add_ref :: "'a option \<Rightarrow> ('a \<Rightarrow> nat) \<Rightarrow> 'a \<Rightarrow> nat" where
  "add_ref out kv = (case out of None \<Rightarrow> kv | Some v \<Rightarrow> kv(v := kv v + 1))"

text \<open>What an operation of a file system may do to the state of the core: hand out a reference
  to \<open>out\<close>, and nothing else.\<close>

definition gives :: "('p, 'w) vfs \<Rightarrow> vn option \<Rightarrow> ('p, 'w) vfs \<Rightarrow> bool" where
  "gives st out st1 \<longleftrightarrow> core_same st st1 \<and> dirs_ok st1 \<and> vrefs st1 = add_ref out (vrefs st)"

named_theorems account_simps "effect of the state updates on the counts"

lemma add_ref_None [simp]: "add_ref None kv = kv"
  by (simp add: add_ref_def)

lemma add_ref_Some [account_simps]: "add_ref (Some v) kv = kv(v := kv v + 1)"
  by (simp add: add_ref_def)

lemma add_ref_commute: "add_ref a (add_ref b kv) = add_ref b (add_ref a kv)"
  by (cases a; cases b) (auto simp: add_ref_def fun_eq_iff)

lemma core_same_refl [simp]: "core_same st st"
  by (simp add: core_same_def)

lemma core_same_trans: "core_same st st1 \<Longrightarrow> core_same st1 st2 \<Longrightarrow> core_same st st2"
  by (simp add: core_same_def)

lemma core_same_counts:
  assumes "core_same st st1"
  shows "frefs st1 = frefs st" and "holders st1 = holders st" and "root_refs st1 = root_refs st"
    and "slots st1 = slots st" and "files_ok kf st1 = files_ok kf st"
    and "find_mountpoint p st1 = find_mountpoint p st"
  using assms by (simp_all add: core_same_def frefs_def [abs_def] holders_def [abs_def] root_refs_def [abs_def] slots_def [abs_def]
      files_ok_def find_mountpoint_def)

lemma gives_ok: "vfs_ok kv kf st \<Longrightarrow> gives st out st1 \<Longrightarrow> vfs_ok (add_ref out kv) kf st1"
  by (cases out) (auto simp: gives_def vfs_ok_def refs_ok_def core_same_counts account_simps)

lemma set_refs_core [simp]: "core_same st (set_refs v f st)"
  by (simp add: core_same_def set_refs_def)

lemma vrefs_set_refs [account_simps]:
  "vrefs (set_refs v g st) u = (if u = v \<and> v_shells st v \<noteq> None then g (vrefs st v) else vrefs st u)"
  by (cases "v_shells st v") (auto simp: vrefs_def set_refs_def)

lemma dirs_ok_set_refs [simp]: "dirs_ok st \<Longrightarrow> dirs_ok (set_refs v g st)"
  by (cases "v_shells st v") (auto simp: dirs_ok_def set_refs_def)

lemma vrefs_shell: "0 < vrefs st v \<Longrightarrow> \<exists>s. v_shells st v = Some s \<and> sh_refs s = vrefs st v"
  by (cases "v_shells st v") (auto simp: vrefs_def)

lemma vn_ref_gives:
  assumes "0 < vrefs st v" and "dirs_ok st"
  shows "\<exists>st1. vn_ref (Some v) st = Some st1 \<and> gives st (Some v) st1"
  using vrefs_shell [OF assms(1)] assms(2)
  by (auto simp: vn_ref_def gives_def fun_eq_iff account_simps)

section \<open>What the core expects of a file system\<close>

locale file_systems =
  fixes E :: "('p, 'w) fs_env"
  assumes lookup_law: "op_lookup (en_ops E k) = Some l \<Longrightarrow> dirs_ok st \<Longrightarrow> v_shells st d \<noteq> None \<Longrightarrow>
      \<exists>r out st1. l d name st = Some (r, out, st1) \<and> gives st out st1 \<and> (r \<noteq> 0 \<longrightarrow> out = None)"
    and create_law: "op_create (en_ops E k) = Some c \<Longrightarrow> dirs_ok st \<Longrightarrow> v_shells st d \<noteq> None \<Longrightarrow>
      \<exists>r out st1. c d name t st = Some (r, out, st1) \<and> gives st out st1 \<and> (r \<noteq> 0 \<longrightarrow> out = None)"
    and unlink_law: "op_unlink (en_ops E k) = Some u \<Longrightarrow> dirs_ok st \<Longrightarrow> v_shells st d \<noteq> None \<Longrightarrow>
      \<exists>r st1. u d name st = Some (r, st1) \<and> gives st None st1"
    and read_law: "op_read (en_ops E k) = Some rd \<Longrightarrow> dirs_ok st \<Longrightarrow> rd v off len st = Some (r, bs, st1) \<Longrightarrow> gives st None st1"
    and write_law: "op_write (en_ops E k) = Some w \<Longrightarrow> dirs_ok st \<Longrightarrow> w v off buf st = Some (r, st1) \<Longrightarrow> gives st None st1"
    and truncate_law: "op_write (en_ops E k) = Some w \<Longrightarrow> v_shells st v \<noteq> None \<Longrightarrow> w v 0 [] st \<noteq> None"
    and destroy_law: "op_destroy (en_ops E k) = Some de \<Longrightarrow> dirs_ok st \<Longrightarrow> v_shells st v = Some s \<Longrightarrow> sh_refs s = 0 \<Longrightarrow>
      \<exists>st1. de v st = Some st1 \<and> gives st None st1"
    and mount_law: "dirs_ok st \<Longrightarrow> slot < length (v_mounts st) \<Longrightarrow>
      \<exists>r st1. en_mount E fn slot st = Some (r, st1) \<and>
        (if r = 0 then \<exists>v. gives (st\<lparr>v_mounts := (v_mounts st)[slot := (v_mounts st ! slot)\<lparr>mo_root := Some v\<rparr>]\<rparr>) (Some v) st1
         else gives st None st1)"
begin

lemma unref_gives:
  assumes "0 < vrefs st v" and "dirs_ok st"
  shows "\<exists>st1. vn_unref E (Some v) st = Some st1 \<and> core_same st st1 \<and> dirs_ok st1 \<and>
    vrefs st1 = (vrefs st)(v := vrefs st v - 1)"
proof -
  obtain s where s: "v_shells st v = Some s" "sh_refs s = vrefs st v" using vrefs_shell [OF assms(1)] by blast
  let ?st1 = "set_refs v (\<lambda>n. n - 1) st"
  have r: "vrefs ?st1 = (vrefs st)(v := vrefs st v - 1)" by (auto simp: account_simps s fun_eq_iff)
  show ?thesis
  proof (cases "sh_refs s = 1 \<and> (\<exists>k d. sh_ops s = Some k \<and> op_destroy (en_ops E k) = Some d)")
    case True
    then obtain k d where k: "sh_refs s = 1" "sh_ops s = Some k" "op_destroy (en_ops E k) = Some d" by blast
    have sh: "v_shells ?st1 v = Some (s\<lparr>sh_refs := 0\<rparr>)" using s k by (simp add: set_refs_def)
    from destroy_law [OF k(3) dirs_ok_set_refs [OF assms(2)] sh] obtain st1
      where st1: "d v ?st1 = Some st1" "gives ?st1 None st1" by auto
    then have "vn_unref E (Some v) st = Some st1" using s k by (simp add: vn_unref_def Let_def)
    with st1(2) r show ?thesis by (auto simp: gives_def intro: core_same_trans [OF set_refs_core])
  next
    case False
    have "vn_unref E (Some v) st = Some ?st1"
      using s assms(1) False by (auto simp: vn_unref_def Let_def split: option.splits)
    with r assms(2) show ?thesis by auto
  qed
qed

lemma unref_ok:
  assumes "vfs_ok (add_ref out kv) kf st"
  shows "\<exists>st1. vn_unref E out st = Some st1 \<and> vfs_ok kv kf st1 \<and> core_same st st1"
proof (cases out)
  case (Some v)
  from assms Some have "0 < vrefs st v" and "dirs_ok st" by (auto simp: vfs_ok_def refs_ok_def account_simps)
  from unref_gives [OF this] obtain st1 where st1: "vn_unref E (Some v) st = Some st1" "core_same st st1" "dirs_ok st1"
    "vrefs st1 = (vrefs st)(v := vrefs st v - 1)" by blast
  with assms Some have "vfs_ok kv kf st1"
    by (auto simp: vfs_ok_def refs_ok_def core_same_counts account_simps split: if_splits)
  with st1 Some show ?thesis by blast
qed (use assms in \<open>simp add: vn_unref_def\<close>)

lemma ref_ok:
  assumes "vfs_ok kv kf st" and "0 < vrefs st v"
  shows "\<exists>st1. vn_ref (Some v) st = Some st1 \<and> vfs_ok (add_ref (Some v) kv) kf st1 \<and> core_same st st1"
  using vn_ref_gives [OF assms(2)] gives_ok [OF assms(1)] assms(1) by (auto simp: vfs_ok_def gives_def)

lemma held_shell:
  assumes "vfs_ok (add_ref (Some v) kv) kf st"
  shows "\<exists>s. v_shells st v = Some s \<and> (sh_type s = V_DIR \<longrightarrow> sh_ops s \<noteq> None)"
proof -
  from assms have "0 < vrefs st v" by (auto simp: vfs_ok_def refs_ok_def account_simps)
  from vrefs_shell [OF this] assms show ?thesis by (auto simp: vfs_ok_def dirs_ok_def)
qed

lemma lookup_at_ok:
  assumes "vfs_ok (add_ref (Some d) kv) kf st"
  shows "\<exists>r out st1. vfs_lookup_at E (Some d) name st = Some (r, out, st1) \<and>
    vfs_ok (add_ref (Some d) (add_ref out kv)) kf st1 \<and> core_same st st1 \<and> (r = 0 \<longleftrightarrow> out \<noteq> None)"
proof -
  from held_shell [OF assms] obtain s where s: "v_shells st d = Some s" "sh_type s = V_DIR \<longrightarrow> sh_ops s \<noteq> None" by blast
  have dirs: "dirs_ok st" and live: "v_shells st d \<noteq> None" using assms s by (simp_all add: vfs_ok_def)
  show ?thesis
  proof (cases "sh_type s = V_DIR \<and> op_lookup (en_ops E (the (sh_ops s))) \<noteq> None")
    case True
    with s obtain k l where k: "sh_type s = V_DIR" "sh_ops s = Some k" "op_lookup (en_ops E k) = Some l" by auto
    from lookup_law [OF k(3) dirs live, of name] obtain r out st1
      where l: "l d name st = Some (r, out, st1)" "gives st out st1" "r \<noteq> 0 \<longrightarrow> out = None" by blast
    have "vfs_ok (add_ref out (add_ref (Some d) kv)) kf st1" by (rule gives_ok [OF assms l(2)])
    with l s k show ?thesis by (auto simp: vfs_lookup_at_def gives_def add_ref_commute)
  next
    case False
    with s assms show ?thesis by (auto simp: vfs_lookup_at_def)
  qed
qed

lemma create_at_ok:
  assumes "vfs_ok (add_ref (Some d) kv) kf st"
  shows "\<exists>r out st1. vfs_create_at E (Some d) name t st = Some (r, out, st1) \<and>
    vfs_ok (add_ref (Some d) (add_ref out kv)) kf st1 \<and> core_same st st1 \<and> (r \<noteq> 0 \<longrightarrow> out = None)"
proof -
  from held_shell [OF assms] obtain s where s: "v_shells st d = Some s" "sh_type s = V_DIR \<longrightarrow> sh_ops s \<noteq> None" by blast
  have dirs: "dirs_ok st" and live: "v_shells st d \<noteq> None" using assms s by (simp_all add: vfs_ok_def)
  show ?thesis
  proof (cases "sh_type s = V_DIR \<and> (t = V_FILE \<or> t = V_DIR) \<and> op_create (en_ops E (the (sh_ops s))) \<noteq> None")
    case True
    with s obtain k c where k: "sh_type s = V_DIR" "sh_ops s = Some k" "op_create (en_ops E k) = Some c" by auto
    from create_law [OF k(3) dirs live, of name t] obtain r out st1
      where l: "c d name t st = Some (r, out, st1)" "gives st out st1" "r \<noteq> 0 \<longrightarrow> out = None" by blast
    have "vfs_ok (add_ref out (add_ref (Some d) kv)) kf st1" by (rule gives_ok [OF assms l(2)])
    with l s k True show ?thesis by (auto simp: vfs_create_at_def gives_def add_ref_commute)
  next
    case False
    with s assms show ?thesis by (auto simp: vfs_create_at_def)
  qed
qed

lemma unlink_at_ok:
  assumes "vfs_ok (add_ref (Some d) kv) kf st"
  shows "\<exists>r st1. vfs_unlink_at E (Some d) name st = Some (r, st1) \<and> vfs_ok (add_ref (Some d) kv) kf st1 \<and> core_same st st1"
proof -
  from held_shell [OF assms] obtain s where s: "v_shells st d = Some s" "sh_type s = V_DIR \<longrightarrow> sh_ops s \<noteq> None" by blast
  have dirs: "dirs_ok st" and live: "v_shells st d \<noteq> None" using assms s by (simp_all add: vfs_ok_def)
  show ?thesis
  proof (cases "sh_type s = V_DIR \<and> op_unlink (en_ops E (the (sh_ops s))) \<noteq> None")
    case True
    with s obtain k u where k: "sh_type s = V_DIR" "sh_ops s = Some k" "op_unlink (en_ops E k) = Some u" by auto
    from unlink_law [OF k(3) dirs live, of name] obtain r st1
      where l: "u d name st = Some (r, st1)" "gives st None st1" by blast
    have "vfs_ok (add_ref None (add_ref (Some d) kv)) kf st1" by (rule gives_ok [OF assms l(2)])
    with l s k show ?thesis by (auto simp: vfs_unlink_at_def gives_def)
  next
    case False
    with s assms show ?thesis by (auto simp: vfs_unlink_at_def)
  qed
qed

section \<open>Resolution\<close>

lemma root_live:
  assumes "vfs_ok kv kf st" and "m \<in> set (v_mounts st)"
  shows "\<exists>v. mo_root m = Some v \<and> 0 < vrefs st v"
proof -
  from assms obtain v where v: "mo_root m = Some v" by (auto simp: vfs_ok_def files_ok_def)
  with assms(2) have "Some v \<in> set (map mo_root (v_mounts st))" by force
  then have "0 < root_refs st v" unfolding root_refs_def by (metis count_list_0_iff gr0I)
  with assms(1) v show ?thesis by (auto simp: vfs_ok_def refs_ok_def)
qed

lemma walk_ok:
  assumes "vfs_ok (add_ref (Some cur) kv) kf st"
    and "length cp + length (render cs) < VFS_PATH_MAX"
  shows "\<exists>r out st1. walk E cs cur cp st = Some (r, out, st1) \<and> vfs_ok (add_ref out kv) kf st1 \<and> core_same st st1 \<and>
    (r = 0 \<longleftrightarrow> out \<noteq> None)"
  using assms
proof (induction cs arbitrary: cur cp st)
  case (Cons c cs)
  from held_shell [OF Cons.prems(1)] obtain s where s: "v_shells st cur = Some s" by blast
  have len: "length (cp @ CHR ''/'' # c) + length (render cs) < VFS_PATH_MAX"
    using Cons.prems(2) by (simp add: length_render)
  then have join: "path_join VFS_PATH_MAX cp c = Some (cp @ CHR ''/'' # c)" by (intro path_join_fits) simp
  consider (nodir) "sh_type s \<noteq> V_DIR" | (mp) x where "sh_type s = V_DIR" "find_mountpoint (cp @ CHR ''/'' # c) st = Some x"
    | (look) "sh_type s = V_DIR" "find_mountpoint (cp @ CHR ''/'' # c) st = None" by (cases "find_mountpoint (cp @ CHR ''/'' # c) st") auto
  then show ?case
  proof cases
    case nodir
    with unref_ok [OF Cons.prems(1)] s show ?thesis by fastforce
  next
    case (mp x)
    then have "x \<in> set (v_mounts st)" by (auto simp: find_mountpoint_def find_Some_iff in_set_conv_nth)
    from root_live [OF Cons.prems(1) this] obtain v where v: "mo_root x = Some v" "0 < vrefs st v" by blast
    from ref_ok [OF Cons.prems(1) v(2)] obtain st1 where st1: "vn_ref (Some v) st = Some st1"
      "vfs_ok (add_ref (Some cur) (add_ref (Some v) kv)) kf st1" "core_same st st1"
      unfolding add_ref_commute [of "Some cur"] by blast
    from unref_ok [OF st1(2)] obtain st2 where st2: "vn_unref E (Some cur) st1 = Some st2"
      "vfs_ok (add_ref (Some v) kv) kf st2" "core_same st1 st2" by blast
    from Cons.IH [OF st2(2) len] s mp join v st1 st2 show ?thesis
      by (auto intro: core_same_trans [OF core_same_trans [OF st1(3) st2(3)]])
  next
    case look
    from lookup_at_ok [OF Cons.prems(1), of c] obtain r out st1
      where l: "vfs_lookup_at E (Some cur) c st = Some (r, out, st1)"
        "vfs_ok (add_ref (Some cur) (add_ref out kv)) kf st1" "core_same st st1" "r = 0 \<longleftrightarrow> out \<noteq> None" by blast
    from unref_ok [OF l(2)] obtain st2 where st2: "vn_unref E (Some cur) st1 = Some st2"
      "vfs_ok (add_ref out kv) kf st2" "core_same st1 st2" by blast
    note same = core_same_trans [OF l(3) st2(3)]
    show ?thesis
    proof (cases out)
      case None
      with l st2 s look join same show ?thesis by simp
    next
      case (Some v)
      from Cons.IH [OF st2(2) [unfolded Some] len] l st2 s look join Some same
      show ?thesis by (auto intro: core_same_trans)
    qed
  qed
qed simp

lemma resolve_ok:
  assumes "vfs_ok kv kf st" and "length path < VFS_PATH_MAX"
  shows "\<exists>r out st1. vfs_resolve E path st = Some (r, out, st1) \<and> vfs_ok (add_ref out kv) kf st1 \<and> core_same st st1 \<and>
    (r = 0 \<longleftrightarrow> out \<noteq> None)"
proof (cases "path = '''' \<or> hd path \<noteq> CHR ''/''")
  case True
  with assms show ?thesis by (auto simp: vfs_resolve_def)
next
  case False
  show ?thesis
  proof (cases "normalize_path path")
    case (Inl e)
    then have "e \<noteq> 0" by (auto simp: normalize_path_def norm_loop_segs norm_segs_spec [of "[]", simplified] split: if_splits)
    with Inl False assms show ?thesis by (auto simp: vfs_resolve_def)
  next
    case (Inr comps)
    with assms(2) False have len: "length '''' + length (render comps) < VFS_PATH_MAX"
      using normalize_path_length [OF Inr] by auto
    show ?thesis
    proof (cases "v_have_root st")
      case True
      with assms(1) have "v_mounts st ! 0 \<in> set (v_mounts st)" by (auto simp: vfs_ok_def files_ok_def)
      from root_live [OF assms(1) this] obtain v where v: "mo_root (v_mounts st ! 0) = Some v" "0 < vrefs st v" by blast
      from ref_ok [OF assms(1) v(2)] obtain st1 where st1: "vn_ref (Some v) st = Some st1"
        "vfs_ok (add_ref (Some v) kv) kf st1" "core_same st st1" by blast
      from walk_ok [OF st1(2) len] True False Inr v st1 show ?thesis
        by (auto simp: vfs_resolve_def vfs_root_def intro: core_same_trans)
    next
      case nr: False
      with False Inr assms show ?thesis by (auto simp: vfs_resolve_def vfs_root_def)
    qed
  qed
qed

end

end
