(* ===== verification/Vfs_Props.thy ===== *)
theory Vfs_Props
  imports Vfs_Refs
begin

text \<open>
  The whole-path operations, open files and descriptor tables under the accounts of
  \<open>Vfs_Refs\<close>: each runs without a fault and hands every reference on or gives it back, on its
  error paths as well. Updates of files and tables change the counts by the laws collected in
  \<open>account_simps\<close>.
\<close>

section \<open>Counting through updates\<close>

definition holds :: "open_file option \<Rightarrow> vn \<Rightarrow> nat" where
  "holds xo v = (case xo of None \<Rightarrow> 0 | Some x \<Rightarrow> if fi_vn x = v then 1 else 0)"

definition slot_count :: "fd_table option \<Rightarrow> file_id \<Rightarrow> nat" where
  "slot_count tb f = (case tb of None \<Rightarrow> 0 | Some xs \<Rightarrow> count_list xs (Some f))"

lemma holds_simps [simp]: "holds None v = 0" "holds (Some x) v = (if fi_vn x = v then 1 else 0)"
  by (simp_all add: holds_def)

lemma slot_count_simps [simp]: "slot_count None f = 0" "slot_count (Some xs) f = count_list xs (Some f)"
  by (simp_all add: slot_count_def)

lemma holders_set_file:
  assumes "finite (dom (v_files st))"
  shows "holders (set_file f y st) v + holds (v_files st f) v = holders st v + holds y v"
proof -
  let ?H = "\<lambda>s. {g. \<exists>x. v_files s g = Some x \<and> fi_vn x = v}"
  define S where "S = ?H st - {f}"
  have fin: "finite S" unfolding S_def by (rule finite_subset [OF _ assms]) (auto simp: dom_def)
  have notin: "f \<notin> S" by (simp add: S_def)
  have old: "?H st = (if holds (v_files st f) v = 1 then insert f S else S)"
    by (auto simp: S_def holds_def split: option.splits if_splits)
  have new: "?H (set_file f y st) = (if holds y v = 1 then insert f S else S)"
    by (auto simp: S_def holds_def set_file_def split: option.splits if_splits)
  have "card (?H st) = card S + holds (v_files st f) v"
    unfolding old using fin notin by (auto simp: holds_def split: option.splits)
  moreover have "card (?H (set_file f y st)) = card S + holds y v"
    unfolding new using fin notin by (auto simp: holds_def split: option.splits)
  ultimately show ?thesis by (simp add: holders_def)
qed

lemma slots_superset:
  assumes "finite A" and "dom (v_tables st) \<subseteq> A"
  shows "slots st f = (\<Sum>t \<in> A. slot_count (v_tables st t) f)"
proof -
  have "slots st f = (\<Sum>t \<in> dom (v_tables st). slot_count (v_tables st t) f)"
    unfolding slots_def by (rule sum.cong) auto
  also have "\<dots> = (\<Sum>t \<in> A. slot_count (v_tables st t) f)"
    by (rule sum.mono_neutral_left [OF assms]) (auto simp: domIff)
  finally show ?thesis .
qed

lemma slots_set_table:
  assumes "finite (dom (v_tables st))"
  shows "slots (set_table t y st) f + slot_count (v_tables st t) f = slots st f + slot_count y f"
proof -
  let ?A = "insert t (dom (v_tables st))"
  have fin: "finite ?A" using assms by simp
  have *: "slots s f = slot_count (v_tables s t) f + (\<Sum>u \<in> ?A - {t}. slot_count (v_tables s u) f)"
    if "dom (v_tables s) \<subseteq> ?A" for s :: "('a, 'b) vfs"
    using slots_superset [OF fin that] sum.remove [OF fin, of t] by simp
  have "(\<Sum>u \<in> ?A - {t}. slot_count (v_tables (set_table t y st) u) f) = (\<Sum>u \<in> ?A - {t}. slot_count (v_tables st u) f)"
    by (rule sum.cong) (auto simp: set_table_def)
  moreover have "slots st f = slot_count (v_tables st t) f + (\<Sum>u \<in> ?A - {t}. slot_count (v_tables st u) f)"
    by (rule *) auto
  moreover have "slots (set_table t y st) f =
      slot_count (v_tables (set_table t y st) t) f + (\<Sum>u \<in> ?A - {t}. slot_count (v_tables (set_table t y st) u) f)"
    by (rule *) (auto simp: set_table_def)
  moreover have "v_tables (set_table t y st) t = y" by (simp add: set_table_def)
  ultimately show ?thesis by simp
qed

lemma count_list_update:
  "i < length xs \<Longrightarrow> count_list (xs[i := y]) z + (if xs ! i = z then 1 else 0) = count_list xs z + (if y = z then 1 else 0)"
proof (induction xs arbitrary: i)
  case (Cons x xs)
  show ?case
  proof (cases i)
    case (Suc j)
    with Cons.IH [of j] Cons.prems show ?thesis by auto
  qed simp
qed simp

lemma set_file_frame [account_simps]:
  "vrefs (set_file f y st) = vrefs st" "slots (set_file f y st) = slots st" "root_refs (set_file f y st) = root_refs st"
  "frefs (set_file f y st) g = (if g = f then (case y of None \<Rightarrow> 0 | Some x \<Rightarrow> fi_refs x) else frefs st g)"
  "dirs_ok (set_file f y st) = dirs_ok st"
  by (auto simp: set_file_def vrefs_def [abs_def] slots_def [abs_def] root_refs_def [abs_def] frefs_def dirs_ok_def)

lemma set_table_frame [account_simps]:
  "vrefs (set_table t y st) = vrefs st" "holders (set_table t y st) = holders st" "root_refs (set_table t y st) = root_refs st"
  "frefs (set_table t y st) = frefs st" "dirs_ok (set_table t y st) = dirs_ok st"
  by (auto simp: set_table_def vrefs_def [abs_def] holders_def [abs_def] root_refs_def [abs_def] frefs_def [abs_def] dirs_ok_def)

lemma set_fields [simp]:
  "v_files (set_file f y st) = (v_files st)(f := y)" "v_tables (set_file f y st) = v_tables st" "v_fds (set_file f y st) = v_fds st"
  "v_mounts (set_file f y st) = v_mounts st" "v_have_root (set_file f y st) = v_have_root st" "v_shells (set_file f y st) = v_shells st"
  "v_files (set_table t z st) = v_files st" "v_tables (set_table t z st) = (v_tables st)(t := z)" "v_fds (set_table t z st) = v_fds st"
  "v_mounts (set_table t z st) = v_mounts st" "v_have_root (set_table t z st) = v_have_root st" "v_shells (set_table t z st) = v_shells st"
  by (simp_all add: set_file_def set_table_def)

text \<open>A change of the number of references to one file, matched by the kernel's share.\<close>

definition tables_same :: "('p, 'w) vfs \<Rightarrow> ('p, 'w) vfs \<Rightarrow> bool" where
  "tables_same st st1 \<longleftrightarrow> v_tables st1 = v_tables st \<and> v_fds st1 = v_fds st \<and> v_mounts st1 = v_mounts st \<and> v_have_root st1 = v_have_root st"

lemma tables_same_trans: "tables_same st st1 \<Longrightarrow> tables_same st1 st2 \<Longrightarrow> tables_same st st2"
  by (simp add: tables_same_def)

lemma tables_same_simps [simp]: "tables_same st st" "tables_same st (set_file f y st)"
  by (simp_all add: tables_same_def)

lemma core_tables_same: "core_same st st1 \<Longrightarrow> tables_same st st1"
  by (simp add: core_same_def tables_same_def)

lemma files_ok_tables:
  "files_ok kf st \<Longrightarrow> v_fds st p = Some t \<Longrightarrow> \<exists>xs. v_tables st t = Some xs \<and> length xs = PROC_FD_MAX"
  unfolding files_ok_def by blast

lemma unused_file:
  assumes "files_ok kf st" and "v_files st f = None"
  shows "kf f = 0" and "slots st f = 0"
proof -
  have "frefs st f = kf f + slots st f" using assms(1) by (simp add: files_ok_def)
  then show "kf f = 0" and "slots st f = 0" using assms(2) by (simp_all add: frefs_def)
qed

lemma held_file:
  assumes "files_ok kf st" and "0 < kf f + slots st f"
  shows "\<exists>x. v_files st f = Some x \<and> fi_refs x = kf f + slots st f"
proof -
  have "frefs st f = kf f + slots st f" using assms(1) by (simp add: files_ok_def)
  with assms(2) show ?thesis by (cases "v_files st f") (auto simp: frefs_def)
qed

lemma slot_file:
  assumes "files_ok kf st" and "v_tables st t = Some xs" and "Some f \<in> set xs"
  shows "\<exists>x. v_files st f = Some x \<and> fi_refs x = kf f + slots st f \<and> 0 < slots st f"
proof -
  have fin: "finite (dom (v_tables st))" using assms(1) by (simp add: files_ok_def)
  have "slot_count (v_tables st t) f \<le> slots st f"
    unfolding slots_superset [OF fin order_refl]
    by (rule member_le_sum) (use assms(2) fin in auto)
  moreover have "0 < slot_count (v_tables st t) f" using assms(2,3) by (simp add: count_list_0_iff zero_less_iff_neq_zero)
  ultimately have "0 < slots st f" by simp
  with held_file [OF assms(1), of f] show ?thesis by auto
qed

lemma files_ok_set_refs:
  assumes "files_ok kf st" and "v_files st f = Some x" and "0 < n" and "n + kf f = fi_refs x + kf' f"
    and "\<forall>g. g \<noteq> f \<longrightarrow> kf' g = kf g"
  shows "files_ok kf' (set_file f (Some (x\<lparr>fi_refs := n\<rparr>)) st)"
proof -
  have "frefs (set_file f (Some (x\<lparr>fi_refs := n\<rparr>)) st) g = kf' g + slots (set_file f (Some (x\<lparr>fi_refs := n\<rparr>)) st) g" for g
  proof -
    have "frefs st g = kf g + slots st g" using assms(1) by (simp add: files_ok_def)
    with assms(2,4,5) show ?thesis by (cases "g = f") (auto simp: account_simps, simp add: frefs_def)
  qed
  with assms(1,3) show ?thesis by (auto simp: files_ok_def)
qed

lemma refs_ok_same_vnode:
  assumes "refs_ok kv st" and "finite (dom (v_files st))" and "v_files st f = Some x" and "fi_vn y = fi_vn x"
  shows "refs_ok kv (set_file f (Some y) st)"
proof -
  have "holders (set_file f (Some y) st) v = holders st v" for v
    using holders_set_file [OF assms(2), of f "Some y" v] assms(3,4) by simp
  with assms(1) show ?thesis by (simp add: refs_ok_def account_simps)
qed

lemma vfs_ok_set_refs:
  assumes "vfs_ok kv kf st" and "v_files st f = Some x" and "0 < n" and "n + kf f = fi_refs x + kf' f"
    and "\<forall>g. g \<noteq> f \<longrightarrow> kf' g = kf g"
  shows "vfs_ok kv kf' (set_file f (Some (x\<lparr>fi_refs := n\<rparr>)) st)"
  using assms files_ok_set_refs [OF _ assms(2-5)] refs_ok_same_vnode [OF _ _ assms(2), of kv "x\<lparr>fi_refs := n\<rparr>"]
  by (auto simp: vfs_ok_def account_simps files_ok_def)

lemma vfs_ok_same_counts:
  assumes "vfs_ok kv kf st" and "v_files st f = Some x" and "fi_vn y = fi_vn x" and "fi_refs y = fi_refs x"
  shows "vfs_ok kv kf (set_file f (Some y) st)"
proof -
  have "frefs (set_file f (Some y) st) = frefs st" using assms(2,4) by (auto simp: fun_eq_iff frefs_def)
  with assms have "files_ok kf (set_file f (Some y) st)" by (auto simp: vfs_ok_def files_ok_def account_simps)
  with assms refs_ok_same_vnode [OF _ _ assms(2,3), of kv] show ?thesis
    by (auto simp: vfs_ok_def account_simps files_ok_def)
qed

lemma file_alloc_ok:
  assumes "vfs_ok (add_ref (Some v) kv) kf st" and "v_files st f = None"
  shows "vfs_ok kv (add_ref (Some f) kf) (snd (file_alloc (Some f) v flags st))"
proof -
  let ?x = "\<lparr>fi_vn = v, fi_off = 0, fi_flags = flags, fi_refs = 1\<rparr>"
  have fo: "files_ok kf st" and fin: "finite (dom (v_files st))" using assms(1) by (auto simp: vfs_ok_def files_ok_def)
  have "holders (set_file f (Some ?x) st) u = holders st u + (if u = v then 1 else 0)" for u
    using holders_set_file [OF fin, of f "Some ?x" u] assms(2) by auto
  then have "refs_ok kv (set_file f (Some ?x) st)"
    using assms(1) by (auto simp: vfs_ok_def refs_ok_def account_simps split: if_splits)
  moreover have "files_ok (add_ref (Some f) kf) (set_file f (Some ?x) st)"
    using fo unused_file [OF fo assms(2)] by (auto simp: files_ok_def account_simps)
  ultimately show ?thesis using assms(1) by (auto simp: file_alloc_def vfs_ok_def account_simps)
qed

text \<open>Moving a reference between the kernel and a slot.\<close>

lemma vfs_ok_set_slot:
  assumes "vfs_ok kv kf st" and "v_tables st t = Some xs" and "i < PROC_FD_MAX"
    and "add_ref y kf' = add_ref (xs ! i) kf"
  shows "vfs_ok kv kf' (set_table t (Some (xs[i := y])) st)"
proof -
  have fo: "files_ok kf st" and fin: "finite (dom (v_tables st))" and len: "length xs = PROC_FD_MAX"
    using assms(1,2) by (auto simp: vfs_ok_def files_ok_def)
  have "frefs (set_table t (Some (xs[i := y])) st) f = kf' f + slots (set_table t (Some (xs[i := y])) st) f" for f
  proof -
    have "slots (set_table t (Some (xs[i := y])) st) f + count_list xs (Some f) = slots st f + count_list (xs[i := y]) (Some f)"
      using slots_set_table [OF fin, of t "Some (xs[i := y])" f] assms(2) by simp
    moreover have "count_list (xs[i := y]) (Some f) + (if xs ! i = Some f then 1 else 0) = count_list xs (Some f) + (if y = Some f then 1 else 0)"
      using count_list_update [of i xs y "Some f"] assms(3) len by simp
    moreover have "kf' f + (if y = Some f then 1 else 0) = kf f + (if xs ! i = Some f then 1 else 0)"
      using fun_cong [OF assms(4), of f] by (auto simp: add_ref_def split: option.splits if_splits)
    moreover have "frefs st f = kf f + slots st f" using fo by (simp add: files_ok_def)
    ultimately show ?thesis by (simp add: account_simps)
  qed
  then have "files_ok kf' (set_table t (Some (xs[i := y])) st)"
    using fo len by (auto simp: files_ok_def)
  with assms(1) show ?thesis by (auto simp: vfs_ok_def refs_ok_def account_simps)
qed

lemma find_SomeD: "find P ys = Some y \<Longrightarrow> P y" "find P ys = Some y \<Longrightarrow> y \<in> set ys"
  by (auto simp: find_Some_iff in_set_conv_nth)

section \<open>Files and descriptors\<close>

context file_systems
begin

lemma file_close_ok:
  assumes "vfs_ok kv (add_ref fo kf) st"
  shows "\<exists>st1. file_close E fo st = Some st1 \<and> vfs_ok kv kf st1 \<and> tables_same st st1"
proof (cases fo)
  case None
  with assms show ?thesis by (simp add: file_close_def)
next
  case (Some f)
  have fo: "files_ok (add_ref fo kf) st" and ro: "refs_ok kv st" and dirs: "dirs_ok st" using assms by (auto simp: vfs_ok_def)
  obtain x where x: "v_files st f = Some x" "fi_refs x = kf f + 1 + slots st f"
    using held_file [OF fo, of f] Some by (auto simp: account_simps)
  show ?thesis
  proof (cases "fi_refs x = 1")
    case False
    let ?st1 = "set_file f (Some (x\<lparr>fi_refs := fi_refs x - 1\<rparr>)) st"
    have "file_close E fo st = Some ?st1" using x False Some by (auto simp: file_close_def)
    moreover have "vfs_ok kv kf ?st1"
      by (rule vfs_ok_set_refs [OF assms x(1)]) (use x False Some in \<open>auto simp: account_simps\<close>)
    ultimately show ?thesis by auto
  next
    case True
    then have zero: "kf f = 0" "slots st f = 0" using x by auto
    let ?v = "fi_vn x" and ?st0 = "set_file f (Some (x\<lparr>fi_refs := 0\<rparr>)) st"
    have fin: "finite (dom (v_files st))" using fo by (auto simp: files_ok_def)
    have hold: "holders (set_file f None st) u + (if u = ?v then 1 else 0) = holders st u" for u
      using holders_set_file [OF fin, of f None u] x(1) by auto
    have "0 < vrefs ?st0 ?v" using ro hold [of ?v] by (simp add: refs_ok_def account_simps)
    from unref_gives [OF this] dirs obtain st1 where st1: "vn_unref E (Some ?v) ?st0 = Some st1"
      "core_same ?st0 st1" "dirs_ok st1" "vrefs st1 = (vrefs st)(?v := vrefs st ?v - 1)" by (auto simp: account_simps)
    let ?st2 = "set_file f None st1"
    have eq: "holders ?st2 = holders (set_file f None st)" "slots ?st2 = slots st" "root_refs ?st2 = root_refs st"
      "root_refs st1 = root_refs st" "slots st1 = slots st"
      using st1(2) by (simp_all add: core_same_def holders_def [abs_def] account_simps slots_def [abs_def] root_refs_def [abs_def])
    have "refs_ok kv ?st2" unfolding refs_ok_def
    proof
      fix u
      show "vrefs ?st2 u = kv u + holders ?st2 u + root_refs ?st2 u"
        using ro hold [of u] by (auto simp: refs_ok_def eq account_simps st1(4))
    qed
    moreover have "files_ok kf ?st2"
    proof -
      have "frefs ?st2 g = kf g + slots ?st2 g" for g
      proof (cases "g = f")
        case False
        have "frefs ?st2 g = frefs st g" using st1(2) False by (simp add: account_simps core_same_counts)
        with False fo Some show ?thesis by (simp add: eq files_ok_def account_simps)
      qed (simp add: account_simps eq zero)
      moreover have "v_files ?st2 = (v_files st)(f := None)" "tables_same st ?st2"
        using st1(2) by (auto simp: core_same_def tables_same_def)
      ultimately show ?thesis using fo by (auto simp: files_ok_def tables_same_def)
    qed
    moreover have "file_close E fo st = Some ?st2" using x True st1(1) Some by (simp add: file_close_def)
    moreover have "tables_same st ?st2" using st1(2) by (auto simp: core_same_def tables_same_def)
    ultimately show ?thesis using st1(3) by (auto simp: vfs_ok_def account_simps)
  qed
qed

lemma fd_install_ok:
  assumes "vfs_ok kv (add_ref (Some f) kf) st" and "v_tables st t = Some xs"
  shows "(\<exists>i. i < PROC_FD_MAX \<and> xs ! i = None \<and>
        vfs_fd_install (Some t) (Some f) st = Some (int i, set_table t (Some (xs[i := Some f])) st) \<and>
        vfs_ok kv kf (set_table t (Some (xs[i := Some f])) st)) \<or>
      vfs_fd_install (Some t) (Some f) st = Some (- EMFILE, st)"
proof (cases "find (\<lambda>i. xs ! i = None) [0..<PROC_FD_MAX]")
  case (Some i)
  then have i: "i < PROC_FD_MAX" "xs ! i = None"
    using find_SomeD [OF Some] by (simp_all only: set_upt atLeastLessThan_iff)
  have "vfs_ok kv kf (set_table t (Some (xs[i := Some f])) st)"
    by (rule vfs_ok_set_slot [OF assms i(1)]) (simp add: i(2))
  moreover have "vfs_fd_install (Some t) (Some f) st = Some (int i, set_table t (Some (xs[i := Some f])) st)"
    unfolding vfs_fd_install_def using assms(2) Some by (simp del: upt_rec_numeral)
  ultimately show ?thesis using i by blast
next
  case None
  then show ?thesis unfolding vfs_fd_install_def using assms(2) by (simp del: upt_rec_numeral)
qed

lemma fd_install_room:
  assumes "v_tables st t = Some xs" and "length xs = PROC_FD_MAX" and "0 < count_list xs None"
  shows "\<exists>i. vfs_fd_install (Some t) (Some f) st = Some (int i, set_table t (Some (xs[i := Some f])) st)"
proof -
  obtain i where i: "i < length xs" "xs ! i = None"
    using assms(3) by (metis count_list_0_iff in_set_conv_nth less_numeral_extra(3))
  have "i \<in> set [0..<PROC_FD_MAX]" using i(1) unfolding assms(2) set_upt atLeastLessThan_iff by simp
  then have "find (\<lambda>i. xs ! i = None) [0..<PROC_FD_MAX] \<noteq> None" using i(2) unfolding find_None_iff by blast
  then show ?thesis unfolding vfs_fd_install_def using assms(1) by (auto simp del: upt_rec_numeral)
qed

lemma fd_get_ok:
  assumes "vfs_ok kv kf st" and "v_tables st t = Some xs"
  shows "\<exists>fo st1. vfs_fd_get (Some t) fd st = Some (fo, st1) \<and> vfs_ok kv (add_ref fo kf) st1 \<and> tables_same st st1 \<and>
    fo = (if bad_fd fd then None else xs ! nat fd)"
proof (cases "\<not> bad_fd fd \<and> xs ! nat fd \<noteq> None")
  case True
  then obtain f where f: "xs ! nat fd = Some f" by auto
  have fo: "files_ok kf st" and len: "length xs = PROC_FD_MAX" using assms by (auto simp: vfs_ok_def files_ok_def)
  from True len have "nat fd < length xs" by (auto simp: bad_fd_def)
  with f have "Some f \<in> set xs" by (metis nth_mem)
  from slot_file [OF fo assms(2) this] obtain x where x: "v_files st f = Some x" "fi_refs x = kf f + slots st f" by blast
  have "vfs_ok kv (add_ref (Some f) kf) (set_file f (Some (x\<lparr>fi_refs := fi_refs x + 1\<rparr>)) st)"
    by (rule vfs_ok_set_refs [OF assms(1) x(1)]) (auto simp: account_simps)
  with f x True assms(2) show ?thesis by (auto simp: vfs_fd_get_def)
next
  case False
  with assms show ?thesis by (auto simp: vfs_fd_get_def)
qed

lemma fd_put_ok:
  assumes "vfs_ok kv kf st" and "v_tables st t = Some xs"
  shows "\<exists>st1. vfs_fd_put E (Some t) fd st = Some st1 \<and> vfs_ok kv kf st1 \<and> v_fds st1 = v_fds st \<and>
    v_tables st1 = (v_tables st)(t \<mapsto> if bad_fd fd then xs else xs[nat fd := None])"
proof (cases "bad_fd fd")
  case True
  with assms show ?thesis by (auto simp: vfs_fd_put_def)
next
  case False
  then have "nat fd < PROC_FD_MAX" by (auto simp: bad_fd_def)
  from vfs_ok_set_slot [OF assms this, of None "add_ref (xs ! nat fd) kf"]
  have "vfs_ok kv (add_ref (xs ! nat fd) kf) (set_table t (Some (xs[nat fd := None])) st)" by simp
  from file_close_ok [OF this] False assms(2) show ?thesis by (auto simp: vfs_fd_put_def tables_same_def)
qed

lemma ref_slots_ok:
  assumes "vfs_ok kv kf st" and "\<forall>f. Some f \<in> set xs \<longrightarrow> v_files st f \<noteq> None"
  shows "\<exists>st1. ref_slots xs st = Some st1 \<and> vfs_ok kv (\<lambda>f. kf f + count_list xs (Some f)) st1 \<and> tables_same st st1"
  using assms
proof (induction xs arbitrary: kf st)
  case (Cons y xs)
  show ?case
  proof (cases y)
    case None
    with Cons show ?thesis by (auto cong: if_cong)
  next
    case (Some f)
    with Cons.prems(2) obtain x where x: "v_files st f = Some x" by auto
    let ?st1 = "set_file f (Some (x\<lparr>fi_refs := fi_refs x + 1\<rparr>)) st"
    have ok: "vfs_ok kv (add_ref (Some f) kf) ?st1"
      by (rule vfs_ok_set_refs [OF Cons.prems(1) x]) (auto simp: account_simps)
    have "\<forall>g. Some g \<in> set xs \<longrightarrow> v_files ?st1 g \<noteq> None" using Cons.prems(2) by auto
    from Cons.IH [OF ok this] obtain st2 where st2: "ref_slots xs ?st1 = Some st2"
      "vfs_ok kv (\<lambda>g. add_ref (Some f) kf g + count_list xs (Some g)) st2" "tables_same ?st1 st2" by blast
    have "(\<lambda>g. add_ref (Some f) kf g + count_list xs (Some g)) = (\<lambda>g. kf g + count_list (y # xs) (Some g))"
      by (auto simp: fun_eq_iff account_simps Some)
    with st2 x Some show ?thesis by (auto simp: tables_same_def)
  qed
qed simp

lemma vfs_ok_set_table:
  assumes "vfs_ok kv (\<lambda>f. kf f + slot_count (Some xs) f) st" and "v_tables st t = None" and "length xs = PROC_FD_MAX"
  shows "vfs_ok kv kf (set_table t (Some xs) st)"
proof -
  have fo: "files_ok (\<lambda>f. kf f + slot_count (Some xs) f) st" using assms(1) by (simp add: vfs_ok_def)
  then have fin: "finite (dom (v_tables st))" by (simp add: files_ok_def)
  have "frefs (set_table t (Some xs) st) f = kf f + slots (set_table t (Some xs) st) f" for f
    using slots_set_table [OF fin, of t "Some xs" f] assms(2) fo by (simp add: files_ok_def account_simps)
  then have "files_ok kf (set_table t (Some xs) st)" using fo assms(3) by (auto simp: files_ok_def)
  with assms(1) show ?thesis by (auto simp: vfs_ok_def refs_ok_def account_simps)
qed

lemma vfs_ok_fds:
  assumes "vfs_ok kv kf st" and "\<forall>p t. m p = Some t \<longrightarrow> v_tables st t \<noteq> None" and "inj_on m (dom m)"
  shows "vfs_ok kv kf (st\<lparr>v_fds := m\<rparr>)"
proof -
  let ?st1 = "st\<lparr>v_fds := m\<rparr>"
  have eq: "vrefs ?st1 = vrefs st" "holders ?st1 = holders st" "root_refs ?st1 = root_refs st" "frefs ?st1 = frefs st"
    "slots ?st1 = slots st" "dirs_ok ?st1 = dirs_ok st"
    by (simp_all add: vrefs_def [abs_def] holders_def [abs_def] root_refs_def [abs_def] frefs_def [abs_def] slots_def [abs_def] dirs_ok_def)
  show ?thesis using assms by (simp add: vfs_ok_def refs_ok_def eq) (simp add: files_ok_def eq)
qed

lemma fds_inj: "vfs_ok kv kf st \<Longrightarrow> v_fds st p = Some t \<Longrightarrow> v_fds st q = Some t \<Longrightarrow> p = q"
  unfolding vfs_ok_def files_ok_def by (auto dest!: inj_onD [where x = p and y = q])

lemma vfs_ok_set_fds:
  assumes "vfs_ok kv kf st" and "v_tables st t \<noteq> None" and "t \<notin> ran (v_fds st)"
  shows "vfs_ok kv kf (st\<lparr>v_fds := (v_fds st)(p := Some t)\<rparr>)"
proof (rule vfs_ok_fds [OF assms(1)])
  show "inj_on ((v_fds st)(p := Some t)) (dom ((v_fds st)(p := Some t)))"
    using assms(3) fds_inj [OF assms(1)] by (auto simp: inj_on_def ran_def)
  show "\<forall>q u. ((v_fds st)(p := Some t)) q = Some u \<longrightarrow> v_tables st u \<noteq> None"
    using assms(1,2) by (auto simp: vfs_ok_def files_ok_def)
qed

lemma fds_inherit_ok:
  assumes "vfs_ok kv kf st" and "\<forall>ct. tmem = Some ct \<longrightarrow> v_tables st ct = None"
  shows "\<exists>st1. vfs_proc_fds_inherit tmem child parent st = Some st1 \<and> vfs_ok kv kf st1 \<and>
    (case (Option.bind parent (v_fds st), tmem) of
       (Some pt, Some ct) \<Rightarrow> v_tables st1 = (v_tables st)(ct := v_tables st pt) \<and> v_fds st1 = (v_fds st)(child \<mapsto> ct)
     | _ \<Rightarrow> st1 = st)"
proof (cases "Option.bind parent (v_fds st) \<noteq> None \<and> tmem \<noteq> None")
  case True
  then obtain pt ct where pt: "Option.bind parent (v_fds st) = Some pt" and ct: "tmem = Some ct" by auto
  then obtain p where "v_fds st p = Some pt" by (auto simp: bind_eq_Some_conv)
  with assms(1) obtain xs where xs: "v_tables st pt = Some xs" "length xs = PROC_FD_MAX"
    using files_ok_tables unfolding vfs_ok_def by blast
  have fo: "files_ok kf st" using assms(1) by (simp add: vfs_ok_def)
  have "\<forall>f. Some f \<in> set xs \<longrightarrow> v_files st f \<noteq> None" using slot_file [OF fo xs(1)] by fastforce
  from ref_slots_ok [OF assms(1) this] obtain st1 where st1: "ref_slots xs st = Some st1"
    "vfs_ok kv (\<lambda>f. kf f + count_list xs (Some f)) st1" "tables_same st st1" by blast
  have new: "v_tables st1 ct = None" using st1(3) ct assms(2) by (simp add: tables_same_def)
  have ok: "vfs_ok kv kf (set_table ct (Some xs) st1)"
    by (rule vfs_ok_set_table) (use st1(2) new xs(2) in simp_all)
  have "ct \<notin> ran (v_fds st1)" using st1(2) new by (force simp: vfs_ok_def files_ok_def ran_def)
  then have "vfs_ok kv kf ((set_table ct (Some xs) st1)\<lparr>v_fds := (v_fds (set_table ct (Some xs) st1))(child := Some ct)\<rparr>)"
    by (intro vfs_ok_set_fds [OF ok]) auto
  with pt ct xs st1 show ?thesis by (auto simp: vfs_proc_fds_inherit_def tables_same_def Let_def)
next
  case False
  with assms(1) show ?thesis by (auto simp: vfs_proc_fds_inherit_def split: option.splits)
qed

lemma put_all_ok:
  assumes "vfs_ok kv kf st" and "v_tables st t = Some xs" and "\<forall>i \<in> set is. i < PROC_FD_MAX"
  shows "\<exists>st1. put_all E t is st = Some st1 \<and> vfs_ok kv kf st1 \<and> v_fds st1 = v_fds st \<and>
    v_tables st1 = (v_tables st)(t \<mapsto> foldl (\<lambda>ys i. ys[i := None]) xs is)"
  using assms
proof (induction "is" arbitrary: st xs)
  case (Cons i "is")
  from fd_put_ok [OF Cons.prems(1,2), of "int i"] Cons.prems(3) obtain st1
    where st1: "vfs_fd_put E (Some t) (int i) st = Some st1" "vfs_ok kv kf st1" "v_fds st1 = v_fds st"
      "v_tables st1 = (v_tables st)(t \<mapsto> xs[i := None])" by (auto simp: bad_fd_def)
  have t: "v_tables st1 t = Some (xs[i := None])" using st1(4) by simp
  have "\<forall>j \<in> set is. j < PROC_FD_MAX" using Cons.prems(3) by simp
  from Cons.IH [OF st1(2) t this] obtain st2 where st2: "put_all E t is st1 = Some st2" "vfs_ok kv kf st2" "v_fds st2 = v_fds st1"
      "v_tables st2 = (v_tables st1)(t \<mapsto> foldl (\<lambda>ys i. ys[i := None]) (xs[i := None]) is)" by blast
  show ?case by (rule exI [of _ st2]) (simp add: st1 st2)
qed (auto simp: fun_upd_idem)

lemma clear_all: "length xs = n \<Longrightarrow> foldl (\<lambda>ys i. ys[i := None]) xs [0..<n] = replicate n None"
proof -
  have "k \<le> n \<Longrightarrow> length xs = n \<Longrightarrow> foldl (\<lambda>ys i. ys[i := None]) xs [0..<k] = replicate k None @ drop k xs" for k
  proof (induction k)
    case (Suc k)
    then show ?case
      by (simp add: list_update_append replicate_append_same [symmetric] Cons_nth_drop_Suc [symmetric] del: replicate_append_same)
  qed simp
  from this [of n] show "length xs = n \<Longrightarrow> ?thesis" by simp
qed

lemma fds_release_ok:
  assumes "vfs_ok kv kf st"
  shows "\<exists>st1. vfs_proc_fds_release E p st = Some st1 \<and> vfs_ok kv kf st1 \<and> v_fds st1 = (v_fds st)(p := None) \<and>
    v_tables st1 = (case v_fds st p of None \<Rightarrow> v_tables st | Some t \<Rightarrow> (v_tables st)(t := None))"
proof (cases "v_fds st p")
  case None
  with assms show ?thesis by (auto simp: vfs_proc_fds_release_def fun_upd_idem)
next
  case (Some t)
  with assms obtain xs where xs: "v_tables st t = Some xs" "length xs = PROC_FD_MAX"
    using files_ok_tables unfolding vfs_ok_def by blast
  let ?st0 = "st\<lparr>v_fds := (v_fds st)(p := None)\<rparr>"
  have ok: "vfs_ok kv kf ?st0"
    by (rule vfs_ok_fds [OF assms]) (use assms fds_inj [OF assms] in \<open>auto simp: vfs_ok_def files_ok_def inj_on_def\<close>)
  from put_all_ok [OF ok, of t xs "[0..<PROC_FD_MAX]"] xs(1) obtain st1
    where st1: "put_all E t [0..<PROC_FD_MAX] ?st0 = Some st1" "vfs_ok kv kf st1" "v_fds st1 = v_fds ?st0"
      "v_tables st1 = (v_tables ?st0)(t \<mapsto> foldl (\<lambda>ys i. ys[i := None]) xs [0..<PROC_FD_MAX])" by auto
  have tb: "v_tables st1 t = Some (replicate PROC_FD_MAX None)" using st1(4) clear_all [OF xs(2)] by simp
  have fo: "files_ok kf st1" using st1(2) by (simp add: vfs_ok_def)
  then have fin: "finite (dom (v_tables st1))" by (simp add: files_ok_def)
  have "count_list (replicate PROC_FD_MAX None) (Some f) = 0" for f :: file_id by (simp add: count_list_0_iff)
  then have slots: "slots (set_table t None st1) f = slots st1 f" for f
    using slots_set_table [OF fin, of t None f] tb by simp
  have free: "v_fds st1 q \<noteq> Some t" for q
    using st1(3) fds_inj [OF assms Some, of q] by auto
  have "files_ok kf (set_table t None st1)"
    using fo free by (auto simp: files_ok_def account_simps slots)
  with st1(2) have "vfs_ok kv kf (set_table t None st1)" by (auto simp: vfs_ok_def refs_ok_def account_simps)
  with st1 Some show ?thesis by (auto simp: vfs_proc_fds_release_def)
qed

end

end
