(* ===== verification/Vfs_Ops.thy ===== *)
theory Vfs_Ops
  imports Vfs_Props
begin

text \<open>
  The whole-path operations of the virtual file system and its hooks for processes (start, fork,
  exit) under the accounts: each returns, hands every reference on or gives it back, and leaves
  alone what it does not name.
\<close>

context file_systems
begin

section \<open>Whole-path operations\<close>

lemma split_parent_short: "split_parent path = Inr (parent, base) \<Longrightarrow> length parent < VFS_PATH_MAX"
  by (auto simp: split_parent_def Let_def split: option.splits if_splits)

lemma open_vnode_ok:
  assumes "vfs_ok kv kf st" and "length path < VFS_PATH_MAX"
  shows "\<exists>r vo st1. open_vnode E path flags st = Some (r, vo, st1) \<and> vfs_ok (add_ref vo kv) kf st1 \<and> core_same st st1 \<and>
    (r \<noteq> 0 \<longrightarrow> vo = None)"
proof -
  from resolve_ok [OF assms] obtain r vo st1 where r: "vfs_resolve E path st = Some (r, vo, st1)"
    "vfs_ok (add_ref vo kv) kf st1" "core_same st st1" "r = 0 \<longleftrightarrow> vo \<noteq> None" by blast
  show ?thesis
  proof (cases "r = - ENOENT \<and> flags AND O_CREAT \<noteq> 0")
    case False
    with r show ?thesis by (auto simp: open_vnode_def)
  next
    case True
    with r have ok1: "vfs_ok kv kf st1" by auto
    show ?thesis
    proof (cases "split_parent path")
      case (Inl e)
      then have "e \<noteq> 0" by (auto simp: split_parent_def Let_def split: option.splits if_splits)
      with Inl True r ok1 show ?thesis by (auto simp: open_vnode_def)
    next
      case (Inr pb)
      obtain parent base where pb: "pb = (parent, base)" by fastforce
      show ?thesis
      proof (cases "bad_leaf_name base")
        case True
        with \<open>r = - ENOENT \<and> flags AND O_CREAT \<noteq> 0\<close> Inr pb r ok1 show ?thesis by (auto simp: open_vnode_def)
      next
        case False
        from resolve_ok [OF ok1 split_parent_short [OF Inr [unfolded pb]]] obtain r2 pd st2
          where r2: "vfs_resolve E parent st1 = Some (r2, pd, st2)" "vfs_ok (add_ref pd kv) kf st2" "core_same st1 st2"
            "r2 = 0 \<longleftrightarrow> pd \<noteq> None" by blast
        note same12 = core_same_trans [OF r(3) r2(3)]
        show ?thesis
        proof (cases pd)
          case None
          with True False Inr pb r r2 same12 show ?thesis by (auto simp: open_vnode_def)
        next
          case (Some d)
          from create_at_ok [OF r2(2) [unfolded Some], of base V_FILE] obtain r3 vo3 st3
            where r3: "vfs_create_at E (Some d) base V_FILE st2 = Some (r3, vo3, st3)"
              "vfs_ok (add_ref (Some d) (add_ref vo3 kv)) kf st3" "core_same st2 st3" "r3 \<noteq> 0 \<longrightarrow> vo3 = None" by blast
          from unref_ok [OF r3(2)] obtain st4 where st4: "vn_unref E (Some d) st3 = Some st4"
            "vfs_ok (add_ref vo3 kv) kf st4" "core_same st3 st4" by blast
          from core_same_trans [OF core_same_trans [OF same12 r3(3)] st4(3)] True False Inr pb r r2 r3 st4 Some
          show ?thesis by (auto simp: open_vnode_def)
        qed
      qed
    qed
  qed
qed

lemma truncate_gives:
  assumes "vfs_ok (add_ref (Some v) kv) kf st" and "v_shells st v = Some s"
  shows "\<exists>st1. (case Option.bind (sh_ops s) (\<lambda>k. op_write (en_ops E k)) of
        None \<Rightarrow> Some st
      | Some w \<Rightarrow> if b then map_option snd (w v 0 [] st) else Some st) = Some st1 \<and>
    vfs_ok (add_ref (Some v) kv) kf st1 \<and> core_same st st1"
proof (cases "Option.bind (sh_ops s) (\<lambda>k. op_write (en_ops E k)) \<noteq> None \<and> b")
  case True
  then obtain k w where k: "sh_ops s = Some k" "op_write (en_ops E k) = Some w" by (auto simp: bind_eq_Some_conv)
  obtain r st1 where w: "w v 0 [] st = Some (r, st1)" using truncate_law [OF k(2), of st v] assms(2) by auto
  have "dirs_ok st" using assms(1) by (simp add: vfs_ok_def)
  from write_law [OF k(2) this w] have "gives st None st1" .
  with gives_ok [OF assms(1) this] k w True show ?thesis by (auto simp: gives_def)
qed (use assms in \<open>auto split: option.splits\<close>)

lemma open_ok:
  assumes "vfs_ok kv kf st" and "length path < VFS_PATH_MAX" and fresh: "\<forall>f. fresh = Some f \<longrightarrow> v_files st f = None"
  shows "\<exists>r out st1. vfs_open E fresh path flags st = Some (r, out, st1) \<and>
    vfs_ok kv (add_ref out kf) st1 \<and> tables_same st st1 \<and> (r = 0 \<longleftrightarrow> out \<noteq> None) \<and> (out \<noteq> None \<longrightarrow> out = fresh) \<and>
    (\<forall>f. out \<noteq> Some f \<longrightarrow> v_files st1 f = v_files st f)"
proof (cases "flags AND O_ACCMODE = 3")
  case True
  with assms show ?thesis by (auto simp: vfs_open_def)
next
  case acc: False
  from open_vnode_ok [OF assms(1,2)] obtain r vo st1 where r: "open_vnode E path flags st = Some (r, vo, st1)"
    "vfs_ok (add_ref vo kv) kf st1" "core_same st st1" "r \<noteq> 0 \<longrightarrow> vo = None" by blast
  from unref_ok [OF r(2)] obtain st2 where st2: "vn_unref E vo st1 = Some st2" "vfs_ok kv kf st2" "core_same st1 st2" by blast
  have t2: "tables_same st st2" "v_files st2 = v_files st"
    using core_same_trans [OF r(3) st2(3)] core_tables_same by (auto simp: core_same_def)
  show ?thesis
  proof (cases vo)
    case None
    with acc r st2 t2 core_tables_same [OF r(3)] show ?thesis
      by (cases "r = 0") (auto simp: vfs_open_def vfs_getattr_def vn_unref_def Let_def core_same_def)
  next
    case (Some v)
    then have r0: "r = 0" using r(4) by auto
    from held_shell [OF r(2) [unfolded Some]] obtain s where s: "v_shells st1 v = Some s" by blast
    then have "vfs_getattr E vo st1 \<noteq> None"
      by (cases "Option.bind (sh_ops s) (\<lambda>k. op_getattr (en_ops E k))") (simp_all add: vfs_getattr_def Some)
    then obtain ra ty sz where ga: "vfs_getattr E vo st1 = Some (ra, ty, sz)"
      by (metis not_None_eq prod_cases3)
    define b where "b = (flags AND O_TRUNC \<noteq> 0 \<and> ty \<noteq> V_DIR)"
    from truncate_gives [OF r(2) [unfolded Some] s, of b] obtain st3
      where st3: "(case Option.bind (sh_ops s) (\<lambda>k. op_write (en_ops E k)) of None \<Rightarrow> Some st1
          | Some w \<Rightarrow> if b then map_option snd (w v 0 [] st1) else Some st1) = Some st3"
        "vfs_ok (add_ref (Some v) kv) kf st3" "core_same st1 st3" by blast
    note same3 = core_same_trans [OF r(3) st3(3)]
    from unref_ok [OF st3(2)] obtain st4 where st4: "vn_unref E (Some v) st3 = Some st4" "vfs_ok kv kf st4" "core_same st3 st4" by blast
    have t4: "tables_same st st4" "v_files st4 = v_files st"
      using core_same_trans [OF same3 st4(3)] core_tables_same by (auto simp: core_same_def)
    let ?stop = "flags AND O_CREAT \<noteq> 0 \<and> flags AND O_EXCL \<noteq> 0 \<or> ra \<noteq> 0 \<or> ty = V_DIR \<and> flags AND O_ACCMODE \<noteq> O_RDONLY"
    show ?thesis
    proof (cases ?stop)
      case True
      then have "\<exists>e. e \<noteq> 0 \<and> vfs_open E fresh path flags st = Some (e, None, st2)"
        using acc r(1) r0 ga st2(1) by (auto simp: vfs_open_def Let_def)
      with st2(2) t2 show ?thesis by auto
    next
      case False
      have tr: "(case Option.bind (sh_ops s) (\<lambda>k. op_write (en_ops E k)) of None \<Rightarrow> Some st1
          | Some w \<Rightarrow> if flags AND O_TRUNC \<noteq> 0 \<and> ty \<noteq> V_DIR then map_option snd (w v 0 [] st1) else Some st1) = Some st3"
        using st3(1) unfolding b_def .
      have body: "vfs_open E fresh path flags st =
          (case file_alloc fresh v flags st3 of (Some f, st5) \<Rightarrow> Some (0, Some f, st5)
           | (None, st5) \<Rightarrow> do { st6 \<leftarrow> vn_unref E vo st5; Some (- ENOMEM, None, st6) })"
        unfolding vfs_open_def Let_def r(1) using acc False
        by (simp only: if_False r0 bind.bind_lunit prod.case simp_thms ga) (auto simp: Some s tr)
      show ?thesis
      proof (cases fresh)
        case None
        with body st4 t4 Some show ?thesis by (simp add: file_alloc_def)
      next
        case (Some f)
        have "v_files st3 f = None" using fresh Some same3 by (simp add: core_same_def)
        from file_alloc_ok [OF st3(2) this, of flags] body Some same3 show ?thesis
          by (auto simp: file_alloc_def tables_same_def core_same_def)
      qed
    qed
  qed
qed

lemma vfs_unlink_ok:
  assumes "vfs_ok kv kf st"
  shows "\<exists>r st1. vfs_unlink E path st = Some (r, st1) \<and> vfs_ok kv kf st1 \<and> core_same st st1"
proof (cases "path = '''' \<or> hd path \<noteq> CHR ''/'' \<or> (\<exists>e. split_parent path = Inl e) \<or> (\<exists>p b. split_parent path = Inr (p, b) \<and> bad_leaf_name b)")
  case True
  with assms show ?thesis by (auto simp: vfs_unlink_def split: sum.splits)
next
  case False
  then obtain parent base where pb: "split_parent path = Inr (parent, base)" "\<not> bad_leaf_name base"
    by (cases "split_parent path") auto
  from resolve_ok [OF assms split_parent_short [OF pb(1)]] obtain r pd st1
    where r: "vfs_resolve E parent st = Some (r, pd, st1)" "vfs_ok (add_ref pd kv) kf st1" "core_same st st1"
      "r = 0 \<longleftrightarrow> pd \<noteq> None" by blast
  show ?thesis
  proof (cases pd)
    case None
    with False pb r show ?thesis by (auto simp: vfs_unlink_def)
  next
    case (Some d)
    from unlink_at_ok [OF r(2) [unfolded Some], of base] obtain r2 st2
      where r2: "vfs_unlink_at E (Some d) base st1 = Some (r2, st2)" "vfs_ok (add_ref (Some d) kv) kf st2" "core_same st1 st2" by blast
    from unref_ok [OF r2(2)] obtain st3 where st3: "vn_unref E (Some d) st2 = Some st3" "vfs_ok kv kf st3" "core_same st2 st3" by blast
    from core_same_trans [OF core_same_trans [OF r(3) r2(3)] st3(3)] False pb r r2 st3 Some
    show ?thesis by (auto simp: vfs_unlink_def)
  qed
qed

lemma create_dir_ok:
  assumes "vfs_ok kv kf st"
  shows "\<exists>r st1. path_create_dir E path t st = Some (r, st1) \<and> vfs_ok kv kf st1 \<and> core_same st st1"
proof (cases "path = '''' \<or> hd path \<noteq> CHR ''/'' \<or> (\<exists>e. split_parent path = Inl e) \<or> (\<exists>p b. split_parent path = Inr (p, b) \<and> bad_leaf_name b)")
  case True
  with assms show ?thesis by (auto simp: path_create_dir_def split: sum.splits)
next
  case False
  then obtain parent base where pb: "split_parent path = Inr (parent, base)" "\<not> bad_leaf_name base"
    by (cases "split_parent path") auto
  from resolve_ok [OF assms split_parent_short [OF pb(1)]] obtain r pd st1
    where r: "vfs_resolve E parent st = Some (r, pd, st1)" "vfs_ok (add_ref pd kv) kf st1" "core_same st st1"
      "r = 0 \<longleftrightarrow> pd \<noteq> None" by blast
  show ?thesis
  proof (cases pd)
    case None
    with False pb r show ?thesis by (auto simp: path_create_dir_def)
  next
    case (Some d)
    from create_at_ok [OF r(2) [unfolded Some], of base t] obtain r2 made st2
      where r2: "vfs_create_at E (Some d) base t st1 = Some (r2, made, st2)"
        "vfs_ok (add_ref made (add_ref (Some d) kv)) kf st2" "core_same st1 st2"
      unfolding add_ref_commute [of "Some d"] by blast
    from unref_ok [OF r2(2)] obtain st3 where st3: "vn_unref E made st2 = Some st3"
      "vfs_ok (add_ref (Some d) kv) kf st3" "core_same st2 st3" by blast
    from unref_ok [OF st3(2)] obtain st4 where st4: "vn_unref E (Some d) st3 = Some st4" "vfs_ok kv kf st4" "core_same st3 st4" by blast
    from core_same_trans [OF core_same_trans [OF core_same_trans [OF r(3) r2(3)] st3(3)] st4(3)] False pb r r2 st3 st4 Some
    show ?thesis by (auto simp: path_create_dir_def)
  qed
qed

lemma rmdir_ok:
  assumes "vfs_ok kv kf st" and "length path < VFS_PATH_MAX"
  shows "\<exists>r st1. vfs_rmdir E path st = Some (r, st1) \<and> vfs_ok kv kf st1 \<and> core_same st st1"
proof -
  from resolve_ok [OF assms] obtain r vo st1 where r: "vfs_resolve E path st = Some (r, vo, st1)"
    "vfs_ok (add_ref vo kv) kf st1" "core_same st st1" "r = 0 \<longleftrightarrow> vo \<noteq> None" by blast
  show ?thesis
  proof (cases vo)
    case None
    with r show ?thesis by (auto simp: vfs_rmdir_def)
  next
    case (Some v)
    from held_shell [OF r(2) [unfolded Some]] obtain s where s: "v_shells st1 v = Some s" by blast
    from unref_ok [OF r(2)] obtain st2 where st2: "vn_unref E vo st1 = Some st2" "vfs_ok kv kf st2" "core_same st1 st2" by blast
    from vfs_unlink_ok [OF st2(2), of path] obtain r3 st3 where st3: "vfs_unlink E path st2 = Some (r3, st3)"
      "vfs_ok kv kf st3" "core_same st2 st3" by blast
    note same = core_same_trans [OF r(3) st2(3)]
    from core_same_trans [OF same st3(3)] same r s st2 st3 Some show ?thesis by (auto simp: vfs_rmdir_def)
  qed
qed

end

section \<open>Standard streams\<close>

definition console_extra :: "('p, 'w) fs_env \<Rightarrow> 'p option \<Rightarrow> file_id option list \<Rightarrow> ('p, 'w) vfs \<Rightarrow> nat" where
  "console_extra E cd fs st =
    (if cd = None then 0
     else (if v_shells st (en_console E) = None \<and> fs \<noteq> [] then 1 else 0) + length (filter (\<lambda>f. f = None) fs))"

definition fresh_files :: "file_id option list \<Rightarrow> ('p, 'w) vfs \<Rightarrow> bool" where
  "fresh_files fs st \<longleftrightarrow> (\<forall>f. Some f \<in> set fs \<longrightarrow> v_files st f = None) \<and> distinct (filter (\<lambda>f. f \<noteq> None) fs)"

context file_systems
begin

lemma console_file_ok:
  assumes "vfs_ok kv kf st" and "\<forall>f. fresh = Some f \<longrightarrow> v_files st f = None"
  defines "c \<equiv> en_console E"
  shows "\<exists>st1. console_file E (Some p) fresh acc st = Some (fresh, st1) \<and>
    vfs_ok (kv(c := kv c + console_extra E (Some p) [fresh] st)) (add_ref fresh kf) st1 \<and>
    tables_same st st1 \<and> v_shells st1 c \<noteq> None \<and> (\<forall>f. fresh \<noteq> Some f \<longrightarrow> v_files st1 f = v_files st f)"
proof -
  define s where "s = (case v_shells st c of
      None \<Rightarrow> \<lparr>sh_ops = Some (en_char_ops E), sh_type = V_CHARDEV, sh_refs = 1, sh_priv = p\<rparr>
    | Some s0 \<Rightarrow> s0\<lparr>sh_priv := p\<rparr>)"
  define floor where "floor = (if v_shells st c = None then 1 else 0 :: nat)"
  let ?st0 = "st\<lparr>v_shells := (v_shells st)(c \<mapsto> s)\<rparr>"
  define st1 where "st1 = set_refs c (\<lambda>n. n + 1) ?st0"
  have core: "core_same st st1" by (simp add: st1_def core_same_def set_refs_def)
  have dirs: "dirs_ok st" using assms(1) by (simp add: vfs_ok_def)
  then have "dirs_ok ?st0" by (auto simp: dirs_ok_def s_def split: option.splits if_splits)
  then have dirs1: "dirs_ok st1" by (simp add: st1_def)
  have vr: "vrefs st1 = (vrefs st)(c := vrefs st c + floor + 1)"
    by (auto simp: st1_def vrefs_def set_refs_def s_def floor_def fun_eq_iff split: option.splits)
  have ok: "vfs_ok (add_ref (Some c) (kv(c := kv c + floor))) kf st1"
    using assms(1) core dirs1 by (auto simp: vfs_ok_def refs_ok_def core_same_counts vr account_simps)
  have run: "console_file E (Some p) fresh acc st = Some (file_alloc fresh c acc st1)"
    by (simp add: console_file_def Let_def vn_ref_def st1_def s_def c_def)
  have live: "v_shells st1 c \<noteq> None" by (simp add: st1_def set_refs_def)
  show ?thesis
  proof (cases fresh)
    case None
    have "add_ref (Some c) (kv(c := kv c + floor)) = kv(c := kv c + console_extra E (Some p) [fresh] st)"
      by (auto simp: account_simps console_extra_def floor_def None c_def)
    with ok run live core None show ?thesis by (auto simp: file_alloc_def core_tables_same core_same_def)
  next
    case (Some f)
    have "kv(c := kv c + floor) = kv(c := kv c + console_extra E (Some p) [fresh] st)"
      by (auto simp: console_extra_def floor_def Some c_def)
    moreover have "v_files st1 f = None" using assms(2) Some core by (simp add: core_same_def)
    ultimately show ?thesis using file_alloc_ok [OF ok, of f acc] run live core Some
      by (auto simp: file_alloc_def tables_same_def core_same_def)
  qed
qed

lemma attach_one_ok:
  assumes "vfs_ok kv kf st" and "v_tables st t = Some ys" and "\<forall>f. fresh = Some f \<longrightarrow> v_files st f = None"
    and room: "0 < count_list ys None"
  defines "c \<equiv> en_console E"
  shows "\<exists>st2 zs. attach_stdio E (Some p) t ((acc, fresh) # xs) st = attach_stdio E (Some p) t xs st2 \<and>
    vfs_ok (kv(c := kv c + console_extra E (Some p) [fresh] st)) kf st2 \<and> v_fds st2 = v_fds st \<and> v_shells st2 c \<noteq> None \<and>
    v_tables st2 = (v_tables st)(t \<mapsto> zs) \<and> count_list ys None \<le> Suc (count_list zs None) \<and>
    (\<forall>f. fresh \<noteq> Some f \<longrightarrow> v_files st2 f = v_files st f)"
proof -
  from console_file_ok [OF assms(1,3), of p acc] obtain st1
    where st1: "console_file E (Some p) fresh acc st = Some (fresh, st1)"
      "vfs_ok (kv(c := kv c + console_extra E (Some p) [fresh] st)) (add_ref fresh kf) st1"
      "tables_same st st1" "v_shells st1 c \<noteq> None" "\<forall>f. fresh \<noteq> Some f \<longrightarrow> v_files st1 f = v_files st f"
    unfolding c_def by blast
  have tb: "v_tables st1 t = Some ys" "v_tables st1 = v_tables st" "v_fds st1 = v_fds st"
    using st1(3) assms(2) by (simp_all add: tables_same_def)
  show ?thesis
  proof (cases fresh)
    case None
    have "v_tables st1 = (v_tables st)(t \<mapsto> ys)" using tb assms(2) by (simp add: fun_upd_idem)
    with None st1 tb show ?thesis by (intro exI [of _ st1] exI [of _ ys]) auto
  next
    case (Some f)
    have len: "length ys = PROC_FD_MAX" using assms(1,2) by (auto simp: vfs_ok_def files_ok_def)
    have "vfs_fd_install (Some t) (Some f) st1 \<noteq> Some (- EMFILE, st1)"
      using fd_install_room [OF tb(1) len room, of f] by auto
    with fd_install_ok [OF st1(2) [unfolded Some] tb(1)] obtain i
      where i: "i < PROC_FD_MAX" "vfs_fd_install (Some t) (Some f) st1 = Some (int i, set_table t (Some (ys[i := Some f])) st1)"
        "vfs_ok (kv(c := kv c + console_extra E (Some p) [Some f] st)) kf (set_table t (Some (ys[i := Some f])) st1)"
      by blast
    have "count_list ys None \<le> Suc (count_list (ys[i := Some f]) None)"
      using count_list_update [of i ys "Some f" None] i(1) len by (simp split: if_splits)
    with i st1 tb Some show ?thesis
      by (intro exI [of _ "set_table t (Some (ys[i := Some f])) st1"] exI [of _ "ys[i := Some f]"]) auto
  qed
qed

lemma attach_stdio_ok:
  assumes "vfs_ok kv kf st" and "v_tables st t = Some ys" and "fresh_files (map snd xs) st" and "length xs \<le> count_list ys None"
  defines "c \<equiv> en_console E"
  shows "\<exists>st1 zs. attach_stdio E cd t xs st = Some st1 \<and>
    vfs_ok (kv(c := kv c + console_extra E cd (map snd xs) st)) kf st1 \<and> v_fds st1 = v_fds st \<and>
    v_tables st1 = (v_tables st)(t \<mapsto> zs)"
  using assms(1-4)
proof (induction xs arbitrary: kv st ys)
  case Nil
  then show ?case by (intro exI [of _ st] exI [of _ ys]) (auto simp: console_extra_def fun_upd_idem)
next
  case (Cons x xs)
  obtain acc fresh where x: "x = (acc, fresh)" by fastforce
  show ?case
  proof (cases cd)
    case None
    have "attach_stdio E None t zs st = Some st" for zs by (induction zs) (auto simp: console_file_def)
    with None Cons.prems(1,2) show ?thesis by (intro exI [of _ st] exI [of _ ys]) (auto simp: console_extra_def fun_upd_idem)
  next
    case (Some p)
    have fr: "\<forall>f. fresh = Some f \<longrightarrow> v_files st f = None" using Cons.prems(3) x by (auto simp: fresh_files_def)
    have room: "0 < count_list ys None" using Cons.prems(4) by simp
    let ?kv1 = "kv(c := kv c + console_extra E (Some p) [fresh] st)"
    from attach_one_ok [OF Cons.prems(1,2) fr room, of p acc xs] obtain st2 zs
      where st2: "attach_stdio E (Some p) t ((acc, fresh) # xs) st = attach_stdio E (Some p) t xs st2"
        "vfs_ok ?kv1 kf st2" "v_fds st2 = v_fds st" "v_shells st2 c \<noteq> None"
        "v_tables st2 = (v_tables st)(t \<mapsto> zs)" "count_list ys None \<le> Suc (count_list zs None)"
        "\<forall>f. fresh \<noteq> Some f \<longrightarrow> v_files st2 f = v_files st f" unfolding c_def by blast
    have ff: "fresh_files (map snd xs) st2"
    proof -
      have "v_files st2 f = None" if "Some f \<in> set (map snd xs)" for f
      proof -
        have "fresh \<noteq> Some f" using Cons.prems(3) x that by (force simp: fresh_files_def)
        then show ?thesis using st2(7) Cons.prems(3) that by (auto simp: fresh_files_def)
      qed
      then show ?thesis using Cons.prems(3) by (auto simp: fresh_files_def split: if_splits)
    qed
    have tb: "v_tables st2 t = Some zs" using st2(5) by simp
    have "length xs \<le> count_list zs None" using Cons.prems(4) st2(6) by simp
    from Cons.IH [OF st2(2) tb ff this] obtain st3 ws
      where st3: "attach_stdio E cd t xs st2 = Some st3"
        "vfs_ok (?kv1(c := ?kv1 c + console_extra E cd (map snd xs) st2)) kf st3" "v_fds st3 = v_fds st2"
        "v_tables st3 = (v_tables st2)(t \<mapsto> ws)" by blast
    have "?kv1(c := ?kv1 c + console_extra E cd (map snd xs) st2) = kv(c := kv c + console_extra E cd (map snd (x # xs)) st)"
      using st2(4) Some by (auto simp: x console_extra_def c_def fun_eq_iff)
    moreover have "v_tables st3 = (v_tables st)(t \<mapsto> ws)" using st3(4) st2(5) by (simp add: fun_eq_iff)
    ultimately show ?thesis using st3 st2 x Some by (intro exI [of _ st3] exI [of _ ws]) (simp del: fun_upd_apply)
  qed
qed

lemma fds_init_ok:
  assumes "vfs_ok kv kf st" and "\<forall>t. tmem = Some t \<longrightarrow> v_tables st t = None" and "fresh_files fmem st" and "length fmem = 3"
  defines "c \<equiv> en_console E"
  shows "\<exists>r st1. vfs_proc_fds_init E cd tmem fmem p st = Some (r, st1) \<and>
    (case tmem of
       None \<Rightarrow> r = - ENOMEM \<and> st1 = st
     | Some t \<Rightarrow> r = 0 \<and> vfs_ok (kv(c := kv c + console_extra E cd fmem st)) kf st1 \<and> v_fds st1 = (v_fds st)(p \<mapsto> t) \<and>
         (\<exists>zs. v_tables st1 = (v_tables st)(t \<mapsto> zs)))"
proof (cases tmem)
  case (Some t)
  let ?st0 = "set_table t (Some (replicate PROC_FD_MAX None)) st" and ?xs = "zip [O_RDONLY, O_WRONLY, O_WRONLY] fmem"
  have none: "count_list (replicate PROC_FD_MAX None) (Some f) = 0" for f :: file_id by (simp add: count_list_0_iff)
  have ok: "vfs_ok kv kf ?st0"
    by (rule vfs_ok_set_table) (use assms(1,2) Some none in \<open>simp_all\<close>)
  have map: "map snd ?xs = fmem" using assms(4) by (simp add: map_snd_zip)
  have "count_list (replicate n None) (None :: file_id option) = n" for n by (induction n) auto
  then have room: "length ?xs \<le> count_list (replicate PROC_FD_MAX None) (None :: file_id option)" using assms(4) by (simp)
  have ff: "fresh_files (map snd ?xs) ?st0" using assms(3) by (simp add: map fresh_files_def)
  have tb: "v_tables ?st0 t = Some (replicate PROC_FD_MAX None)" by simp
  have extra: "console_extra E cd (map snd ?xs) ?st0 = console_extra E cd fmem st" by (simp add: map console_extra_def)
  from attach_stdio_ok [OF ok tb ff room, of cd, unfolded extra] obtain st1 zs where st1: "attach_stdio E cd t ?xs ?st0 = Some st1"
    "vfs_ok (kv(c := kv c + console_extra E cd fmem st)) kf st1" "v_fds st1 = v_fds st"
    "v_tables st1 = (v_tables ?st0)(t \<mapsto> zs)" unfolding c_def by auto
  have "t \<notin> ran (v_fds st)" using assms(1,2) Some by (force simp: vfs_ok_def files_ok_def ran_def)
  then have "vfs_ok (kv(c := kv c + console_extra E cd fmem st)) kf (st1\<lparr>v_fds := (v_fds st1)(p := Some t)\<rparr>)"
    by (intro vfs_ok_set_fds [OF st1(2)]) (simp_all add: st1(3,4))
  moreover have "v_tables st1 = (v_tables st)(t \<mapsto> zs)" using st1(4) by (simp add: fun_eq_iff)
  ultimately show ?thesis using st1 Some by (auto simp: vfs_proc_fds_init_def simp del: fun_upd_apply)
qed (simp add: vfs_proc_fds_init_def)

end

section \<open>Mounting\<close>

context file_systems
begin

lemma root_refs_append: "root_refs (st\<lparr>v_mounts := v_mounts st @ [m]\<rparr>) v = root_refs st v + (if mo_root m = Some v then 1 else 0)"
  by (simp add: root_refs_def)

lemma vrefs_mounts: "vrefs (st\<lparr>v_mounts := x\<rparr>) = vrefs st"
  by (simp add: vrefs_def [abs_def])

lemma mount_cases:
  "(\<exists>e. e \<noteq> 0 \<and> vfs_mount E fstype path bd lba nsect st = Some (e, st)) \<or>
   (\<exists>ft. \<not> (path = ''/'' \<and> v_have_root st \<or> path \<noteq> ''/'' \<and> \<not> v_have_root st) \<and>
      vfs_mount E fstype path bd lba nsect st = mount_slot E ft path bd lba nsect st)"
proof (cases "path = '''' \<or> hd path \<noteq> CHR ''/'' \<or> VFS_PATH_MAX \<le> length path \<or> find (\<lambda>ft. fst ft = fstype) (v_fstypes st) = None")
  case True
  then show ?thesis by (auto simp: vfs_mount_def)
next
  case False
  then obtain ft where ft: "find (\<lambda>ft. fst ft = fstype) (v_fstypes st) = Some ft" by auto
  show ?thesis
  proof (cases "path = ''/'' \<and> v_have_root st \<or> path \<noteq> ''/'' \<and> \<not> v_have_root st \<or> find_mountpoint path st \<noteq> None \<or> VFS_MOUNT_MAX \<le> length (v_mounts st)")
    case True
    with False ft show ?thesis by (intro disjI1) (auto simp: vfs_mount_def Let_def)
  next
    case no: False
    have "vfs_mount E fstype path bd lba nsect st = mount_slot E ft path bd lba nsect st"
      using False ft no by (auto simp: vfs_mount_def Let_def)
    with no show ?thesis by blast
  qed
qed

lemma vfs_mount_ok:
  assumes "vfs_ok kv kf st"
  shows "\<exists>r st1. vfs_mount E fstype path bd lba nsect st = Some (r, st1) \<and> vfs_ok kv kf st1 \<and>
    v_files st1 = v_files st \<and> v_tables st1 = v_tables st \<and> v_fds st1 = v_fds st \<and>
    (if r = 0 then \<exists>m. v_mounts st1 = v_mounts st @ [m] \<and> mo_path m = path \<and> mo_active m else v_mounts st1 = v_mounts st)"
proof -
  let ?is_root = "path = ''/''"
  consider (refused) e where "e \<noteq> 0" "vfs_mount E fstype path bd lba nsect st = Some (e, st)"
    | (go) ft where "\<not> (?is_root \<and> v_have_root st \<or> \<not> ?is_root \<and> \<not> v_have_root st)"
      "vfs_mount E fstype path bd lba nsect st = mount_slot E ft path bd lba nsect st"
    using mount_cases [of fstype path bd lba nsect st] by blast
  then show ?thesis
  proof cases
    case refused
    with assms show ?thesis by auto
  next
    case go
    define m where "m = \<lparr>mo_fstype = fst ft, mo_bd = bd, mo_part_lba = lba, mo_part_nsect = nsect, mo_root = None,
                  mo_active = True, mo_path = path\<rparr>"
    let ?n = "length (v_mounts st)"
    define st0 where "st0 = st\<lparr>v_mounts := v_mounts st @ [m], v_have_root := ?is_root \<or> v_have_root st\<rparr>"
    note run = go(2) [unfolded mount_slot_def Let_def, folded m_def, folded st0_def]
    have fo: "files_ok kf st" and ro: "refs_ok kv st" and dirs: "dirs_ok st" using assms by (auto simp: vfs_ok_def)
    have dirs0: "dirs_ok st0" and vr0: "vrefs st0 = vrefs st" using dirs by (simp_all add: st0_def dirs_ok_def vrefs_def [abs_def])
    have "?n < length (v_mounts st0)" by (simp add: st0_def)
    from mount_law [OF dirs0 this, of "snd ft"] obtain r st1 where st1: "en_mount E (snd ft) ?n st0 = Some (r, st1)"
      "if r = 0 then \<exists>v. gives (st0\<lparr>v_mounts := (v_mounts st0)[?n := (v_mounts st0 ! ?n)\<lparr>mo_root := Some v\<rparr>]\<rparr>) (Some v) st1
       else gives st0 None st1" by blast
    show ?thesis
    proof (cases "r = 0")
      case True
      with st1(2) obtain v where g: "gives (st0\<lparr>v_mounts := (v_mounts st0)[?n := (v_mounts st0 ! ?n)\<lparr>mo_root := Some v\<rparr>]\<rparr>) (Some v) st1" by auto
      have mounts: "v_mounts st1 = v_mounts st @ [m\<lparr>mo_root := Some v\<rparr>]"
        using g by (simp add: gives_def core_same_def st0_def)
      have core: "v_files st1 = v_files st" "v_tables st1 = v_tables st" "v_fds st1 = v_fds st" "v_have_root st1 = (?is_root \<or> v_have_root st)"
        using g by (simp_all add: gives_def core_same_def st0_def)
      have vr: "vrefs st1 = (vrefs st)(v := vrefs st v + 1)"
        using g by (simp add: gives_def account_simps vrefs_mounts vr0 del: fun_upd_apply)
      have eq: "holders st1 = holders st" "frefs st1 = frefs st" "slots st1 = slots st"
        using core by (simp_all add: holders_def [abs_def] frefs_def [abs_def] slots_def [abs_def])
      have roots: "root_refs st1 u = root_refs st u + (if u = v then 1 else 0)" for u
        by (simp add: root_refs_def mounts)
      have "refs_ok kv st1" unfolding refs_ok_def using ro by (auto simp: refs_ok_def vr eq roots)
      moreover have "files_ok kf st1" using fo by (simp add: files_ok_def core eq mounts)
      moreover have "dirs_ok st1" using g by (simp add: gives_def)
      moreover have "vfs_mount E fstype path bd lba nsect st = Some (0, st1)" using run st1(1) True mounts by simp
      ultimately show ?thesis using core mounts by (intro exI [of _ 0] exI [of _ st1]) (simp add: vfs_ok_def, simp add: m_def)
    next
      case False
      with st1(2) have g: "gives st0 None st1" by simp
      let ?st2 = "st1\<lparr>v_mounts := take (length (v_mounts st1) - 1) ((v_mounts st1)[?n := (v_mounts st1 ! ?n)\<lparr>mo_active := False\<rparr>]),
                       v_have_root := \<not> ?is_root \<and> v_have_root st1\<rparr>"
      have core: "core_same st ?st2" using g go(1) by (auto simp: gives_def core_same_def st0_def)
      have "vrefs ?st2 = vrefs st" "dirs_ok ?st2" using g vr0 by (auto simp: gives_def vrefs_def [abs_def] dirs_ok_def)
      with core assms have "vfs_ok kv kf ?st2" by (simp add: vfs_ok_def refs_ok_def core_same_counts)
      with run st1(1) False core show ?thesis by (auto simp: core_same_def)
    qed
  qed
qed

end

end
