(* ===== verification/Vfs_Sys.thy ===== *)
theory Vfs_Sys
  imports Vfs_Ops
begin

text \<open>
  The file system calls (\<open>kernel/syscall.c\<close>) on top of the virtual file system, and the accounts
  over any sequence of them. User memory is reached through a record of the three \<open>uaccess.c\<close>
  routines; the console uart is the pair of the bytes received and sent. Memory that a call may
  need for a file, a table and the standard streams is granted by an argument. \<open>cur\<close> is the
  calling process; the result \<open>None\<close> is a fault or a panic.
\<close>

section \<open>The calls\<close>

abbreviation IO_CHUNK :: nat where "IO_CHUNK \<equiv> 256"
abbreviation GETDENTS_MAX :: nat where "GETDENTS_MAX \<equiv> 512"

record 'u user_access =
  ua_strnlen :: "u64 \<Rightarrow> nat \<Rightarrow> 'u \<Rightarrow> int"
  ua_in :: "u64 \<Rightarrow> nat \<Rightarrow> 'u \<Rightarrow> u8 list option"
  ua_out :: "u64 \<Rightarrow> u8 list \<Rightarrow> 'u \<Rightarrow> 'u option"

record 'p grant =
  gr_file :: "file_id option"
  gr_table :: "table_id option"
  gr_std :: "file_id option list"
  gr_console :: "'p option"

record uart =
  u_rx :: "u8 list"
  u_tx :: "u8 list"

definition path_copy_in :: "'u user_access \<Rightarrow> u64 \<Rightarrow> 'u \<Rightarrow> int + string" where
  "path_copy_in U upath u =
    (let nl = ua_strnlen U upath (VFS_PATH_MAX - 1) u
     in if nl \<le> 0 then Inl (if nl < 0 then - EFAULT else - ENOENT)
        else case ua_in U upath (nat nl) u of None \<Rightarrow> Inl (- EFAULT) | Some bs \<Rightarrow> Inr (map (\<lambda>b. char_of (unat b)) bs))"

definition sys_open :: "('p, 'w) fs_env \<Rightarrow> 'u user_access \<Rightarrow> 'p grant \<Rightarrow> proc_id option \<Rightarrow> u64 \<Rightarrow> u64 \<Rightarrow> 'u \<Rightarrow> ('p, 'w) vfs \<Rightarrow> (int \<times> ('p, 'w) vfs) option" where
  "sys_open E U G cur uname flags u st =
    (case cur of
       None \<Rightarrow> None
     | Some p \<Rightarrow>
         (case path_copy_in U uname u of
            Inl e \<Rightarrow> Some (e, st)
          | Inr kpath \<Rightarrow> do {
              (r, fo, st1) \<leftarrow> vfs_open E (gr_file G) kpath (ucast flags) st;
              if r \<noteq> 0 then Some (r, st1)
              else do {
                (r2, st2) \<leftarrow> (if v_fds st1 p = None then vfs_proc_fds_init E (gr_console G) (gr_table G) (gr_std G) p st1
                               else Some (0, st1));
                if r2 \<noteq> 0 then do { st3 \<leftarrow> file_close E fo st2; Some (r2, st3) }
                else do {
                  (fd, st3) \<leftarrow> vfs_fd_install (v_fds st2 p) fo st2;
                  if fd < 0 then do { st4 \<leftarrow> file_close E fo st3; Some (fd, st4) } else Some (fd, st3) } } }))"

definition proc_table :: "proc_id option \<Rightarrow> ('p, 'w) vfs \<Rightarrow> table_id option" where
  "proc_table cur st = Option.bind cur (v_fds st)"

text \<open>The \<open>(int)fd\<close> of a call: the low 32 bits, signed.\<close>

definition int_fd :: "u64 \<Rightarrow> int" where
  "int_fd fd = sint (ucast fd :: u32)"

definition sys_close :: "('p, 'w) fs_env \<Rightarrow> proc_id option \<Rightarrow> u64 \<Rightarrow> ('p, 'w) vfs \<Rightarrow> (int \<times> ('p, 'w) vfs) option" where
  "sys_close E cur fd st =
    (if proc_table cur st = None \<or> of_nat PROC_FD_MAX \<le> fd then Some (- EBADF, st)
     else do {
       (fo, st1) \<leftarrow> vfs_fd_get (proc_table cur st) (int_fd fd) st;
       if fo = None then Some (- EBADF, st1)
       else do {
         st2 \<leftarrow> file_close E fo st1;
         st3 \<leftarrow> vfs_fd_put E (proc_table cur st) (int_fd fd) st2;
         Some (0, st3) } })"

definition sys_dup :: "proc_id option \<Rightarrow> u64 \<Rightarrow> ('p, 'w) vfs \<Rightarrow> (int \<times> ('p, 'w) vfs) option" where
  "sys_dup cur fd st =
    (if proc_table cur st = None \<or> of_nat PROC_FD_MAX \<le> fd then Some (- EBADF, st)
     else do {
       (fo, st1) \<leftarrow> vfs_fd_get (proc_table cur st) (int_fd fd) st;
       if fo = None then Some (- EBADF, st1) else vfs_fd_install (proc_table cur st) fo st1 })"

definition sys_lseek :: "('p, 'w) fs_env \<Rightarrow> proc_id option \<Rightarrow> u64 \<Rightarrow> u64 \<Rightarrow> whence \<Rightarrow> ('p, 'w) vfs \<Rightarrow> (int \<times> ('p, 'w) vfs) option" where
  "sys_lseek E cur fd off wh st =
    (if proc_table cur st = None then Some (- EBADF, st)
     else do {
       (fo, st1) \<leftarrow> vfs_fd_get (proc_table cur st) (int_fd fd) st;
       if fo = None then Some (- EBADF, st1)
       else do {
         (r, pos, st2) \<leftarrow> f_lseek E fo off wh st1;
         st3 \<leftarrow> file_close E fo st2;
         Some (if r \<noteq> 0 then r else sint (the pos), st3) } })"

text \<open>The buffer of the record calls lies on the kernel stack, with what the stack holds.\<close>

definition sys_getdents :: "('p, 'w) fs_env \<Rightarrow> 'u user_access \<Rightarrow> u8 list \<Rightarrow> proc_id option \<Rightarrow> u64 \<Rightarrow> u64 \<Rightarrow> u64 \<Rightarrow> 'u \<Rightarrow> ('p, 'w) vfs \<Rightarrow> (int \<times> 'u \<times> ('p, 'w) vfs) option" where
  "sys_getdents E U stk cur fd ubuf buflen u st =
    (if proc_table cur st = None then Some (- EBADF, u, st)
     else do {
       (fo, st1) \<leftarrow> vfs_fd_get (proc_table cur st) (int_fd fd) st;
       if fo = None then Some (- EBADF, u, st1)
       else do {
         (r, buf, st2) \<leftarrow> f_getdents E fo (take (min (unat buflen) GETDENTS_MAX) stk) st1;
         st3 \<leftarrow> file_close E fo st2;
         if r \<le> 0 then Some (r, u, st3)
         else case ua_out U ubuf (take (nat r) buf) u of
           None \<Rightarrow> Some (- EFAULT, u, st3)
         | Some u1 \<Rightarrow> Some (r, u1, st3) } })"

definition sys_read :: "('p, 'w) fs_env \<Rightarrow> 'u user_access \<Rightarrow> proc_id option \<Rightarrow> u64 \<Rightarrow> u64 \<Rightarrow> u64 \<Rightarrow> uart \<Rightarrow> 'u \<Rightarrow> ('p, 'w) vfs \<Rightarrow> (int \<times> uart \<times> 'u \<times> ('p, 'w) vfs) option" where
  "sys_read E U cur fd ubuf len con u st =
    (let n = min (unat len) IO_CHUNK
     in if proc_table cur st = None
        then if fd \<noteq> 0 then Some (- EBADF, con, u, st)
             else
               let got = take n (u_rx con); con1 = con\<lparr>u_rx := drop n (u_rx con)\<rparr>
               in if got = [] then Some (- EAGAIN, con1, u, st)
                  else if cur = None then None
                  else case ua_out U ubuf got u of
                    None \<Rightarrow> Some (- EFAULT, con1, u, st)
                  | Some u1 \<Rightarrow> Some (int (length got), con1, u1, st)
        else do {
          (fo, st1) \<leftarrow> vfs_fd_get (proc_table cur st) (int_fd fd) st;
          if fo = None then Some (- EBADF, con, u, st1)
          else do {
            (r, bs, st2) \<leftarrow> f_read E fo (of_nat n) st1;
            st3 \<leftarrow> file_close E fo st2;
            if r \<le> 0 then Some (if r \<noteq> 0 then r else - EAGAIN, con, u, st3)
            else case ua_out U ubuf bs u of
              None \<Rightarrow> Some (- EFAULT, con, u, st3)
            | Some u1 \<Rightarrow> Some (r, con, u1, st3) } })"

function console_write_raw :: "'u user_access \<Rightarrow> u64 \<Rightarrow> nat \<Rightarrow> 'u \<Rightarrow> uart \<Rightarrow> int \<times> uart" where
  "console_write_raw U addr left u con =
    (if left = 0 then (0, con)
     else
       let chunk = min left IO_CHUNK
       in case ua_in U addr chunk u of
            None \<Rightarrow> (- EFAULT, con)
          | Some bs \<Rightarrow> console_write_raw U (addr + of_nat chunk) (left - chunk) u (con\<lparr>u_tx := u_tx con @ bs\<rparr>))"
  by pat_completeness auto
termination
  by (relation "measure (\<lambda>(U, addr, left, u, con). left)") auto

declare console_write_raw.simps [simp del]

text \<open>The loop of a write through a descriptor. A file system that reports more bytes than it
  was given is a fault.\<close>

function write_loop :: "('p, 'w) fs_env \<Rightarrow> 'u user_access \<Rightarrow> file_id \<Rightarrow> u64 \<Rightarrow> nat \<Rightarrow> int \<Rightarrow> 'u \<Rightarrow> ('p, 'w) vfs \<Rightarrow> (int \<times> ('p, 'w) vfs) option" where
  "write_loop E U f addr left acc u st =
    (if left = 0 then Some (acc, st)
     else
       let chunk = min left IO_CHUNK
       in case ua_in U addr chunk u of
            None \<Rightarrow> Some (if acc \<noteq> 0 then acc else - EFAULT, st)
          | Some bs \<Rightarrow> do {
              (r, st1) \<leftarrow> f_write E (Some f) bs st;
              if r \<le> 0 then Some (if acc = 0 then (if r \<noteq> 0 then r else - EIO) else acc, st1)
              else if int chunk < r then None
              else if r < int chunk then Some (acc + r, st1)
              else write_loop E U f (addr + of_nat chunk) (left - chunk) (acc + r) u st1 })"
  by pat_completeness auto
termination
  by (relation "measure (\<lambda>(E, U, f, addr, left, acc, u, st). left)") auto

declare write_loop.simps [simp del]

definition sys_write :: "('p, 'w) fs_env \<Rightarrow> 'u user_access \<Rightarrow> proc_id option \<Rightarrow> u64 \<Rightarrow> u64 \<Rightarrow> u64 \<Rightarrow> uart \<Rightarrow> 'u \<Rightarrow> ('p, 'w) vfs \<Rightarrow> (int \<times> uart \<times> ('p, 'w) vfs) option" where
  "sys_write E U cur fd ubuf len con u st =
    (if proc_table cur st = None \<or> 2 < fd
     then if fd \<noteq> 1 \<and> fd \<noteq> 2 then Some (- EBADF, con, st)
          else if cur = None \<and> len \<noteq> 0 then None
          else (case console_write_raw U ubuf (unat len) u con of
                  (r, con1) \<Rightarrow> Some (if r \<noteq> 0 then r else int (unat len), con1, st))
     else do {
       (fo, st1) \<leftarrow> vfs_fd_get (proc_table cur st) (int_fd fd) st;
       case fo of
         None \<Rightarrow> Some (- EBADF, con, st1)
       | Some f \<Rightarrow> do {
           (acc, st2) \<leftarrow> write_loop E U f ubuf (unat len) 0 u st1;
           st3 \<leftarrow> file_close E (Some f) st2;
           Some (acc, con, st3) } })"

definition sys_mkdir :: "('p, 'w) fs_env \<Rightarrow> 'u user_access \<Rightarrow> u64 \<Rightarrow> 'u \<Rightarrow> ('p, 'w) vfs \<Rightarrow> (int \<times> ('p, 'w) vfs) option" where
  "sys_mkdir E U uname u st = (case path_copy_in U uname u of Inl e \<Rightarrow> Some (e, st) | Inr kpath \<Rightarrow> vfs_mkdir E kpath st)"

definition sys_rmdir :: "('p, 'w) fs_env \<Rightarrow> 'u user_access \<Rightarrow> u64 \<Rightarrow> 'u \<Rightarrow> ('p, 'w) vfs \<Rightarrow> (int \<times> ('p, 'w) vfs) option" where
  "sys_rmdir E U uname u st = (case path_copy_in U uname u of Inl e \<Rightarrow> Some (e, st) | Inr kpath \<Rightarrow> vfs_rmdir E kpath st)"

definition sys_unlink :: "('p, 'w) fs_env \<Rightarrow> 'u user_access \<Rightarrow> u64 \<Rightarrow> 'u \<Rightarrow> ('p, 'w) vfs \<Rightarrow> (int \<times> ('p, 'w) vfs) option" where
  "sys_unlink E U uname u st = (case path_copy_in U uname u of Inl e \<Rightarrow> Some (e, st) | Inr kpath \<Rightarrow> vfs_unlink E kpath st)"

text \<open>The vnode behind a descriptor for \<open>ioctl\<close>. The reference that the lookup takes is not given
  back.\<close>

definition fd_vnode_of :: "proc_id option \<Rightarrow> int \<Rightarrow> ('p, 'w) vfs \<Rightarrow> (vn option \<times> ('p, 'w) vfs) option" where
  "fd_vnode_of cur fd st =
    (if proc_table cur st = None \<or> bad_fd fd then Some (None, st)
     else do {
       (fo, st1) \<leftarrow> vfs_fd_get (proc_table cur st) fd st;
       case fo of None \<Rightarrow> Some (None, st1) | Some f \<Rightarrow> do { x \<leftarrow> v_files st1 f; Some (Some (fi_vn x), st1) } })"

section \<open>Sequences of calls\<close>

definition grant_ok :: "'p grant \<Rightarrow> ('p, 'w) vfs \<Rightarrow> bool" where
  "grant_ok G st \<longleftrightarrow> length (gr_std G) = 3 \<and> fresh_files (gr_file G # gr_std G) st \<and>
    (\<forall>t. gr_table G = Some t \<longrightarrow> v_tables st t = None)"

text \<open>What the calls use of \<open>uaccess.c\<close>: a scan stays within its bound, a copy has the length asked for.\<close>

definition access_ok :: "'u user_access \<Rightarrow> bool" where
  "access_ok U \<longleftrightarrow> (\<forall>a n u. ua_strnlen U a n u \<le> int n) \<and> (\<forall>a n u bs. ua_in U a n u = Some bs \<longrightarrow> length bs = n)"

text \<open>The open file that a descriptor of a process names.\<close>

definition fd_file :: "proc_id \<Rightarrow> u64 \<Rightarrow> ('p, 'w) vfs \<Rightarrow> file_id option" where
  "fd_file p fd st =
    (if bad_fd (int_fd fd) then None
     else do { t \<leftarrow> v_fds st p; ys \<leftarrow> v_tables st t; ys ! nat (int_fd fd) })"

text \<open>One call of some process, on the file system, user memory and console. The first argument
  names the open file whose reference the call takes and never gives back: a \<open>dup\<close> into a full
  table loses that of the file it was to copy, an \<open>ioctl\<close> that of the file it looks at, whatever it
  then does. No other call loses one.\<close>

inductive call :: "('p, 'w) fs_env \<Rightarrow> 'u user_access \<Rightarrow> file_id option \<Rightarrow> ('p, 'w) vfs \<times> 'u \<times> uart \<Rightarrow> ('p, 'w) vfs \<times> 'u \<times> uart \<Rightarrow> bool"
  for E :: "('p, 'w) fs_env" and U :: "'u user_access" where
  c_open: "grant_ok G st \<Longrightarrow> sys_open E U G (Some p) a fl u st = Some (r, st') \<Longrightarrow> call E U None (st, u, con) (st', u, con)"
| c_close: "sys_close E (Some p) fd st = Some (r, st') \<Longrightarrow> call E U None (st, u, con) (st', u, con)"
| c_dup: "sys_dup (Some p) fd st = Some (r, st') \<Longrightarrow>
    call E U (if r = - EMFILE then fd_file p fd st else None) (st, u, con) (st', u, con)"
| c_ioctl: "fd_vnode_of (Some p) (int_fd fd) st = Some (vo, st') \<Longrightarrow> call E U (fd_file p fd st) (st, u, con) (st', u', con')"
| c_lseek: "sys_lseek E (Some p) fd off wh st = Some (r, st') \<Longrightarrow> call E U None (st, u, con) (st', u, con)"
| c_getdents: "sys_getdents E U stk (Some p) fd a n u st = Some (r, u', st') \<Longrightarrow> call E U None (st, u, con) (st', u', con)"
| c_read: "sys_read E U (Some p) fd a n con u st = Some (r, con', u', st') \<Longrightarrow> call E U None (st, u, con) (st', u', con')"
| c_write: "sys_write E U (Some p) fd a n con u st = Some (r, con', st') \<Longrightarrow> call E U None (st, u, con) (st', u, con')"
| c_mkdir: "sys_mkdir E U a u st = Some (r, st') \<Longrightarrow> call E U None (st, u, con) (st', u, con)"
| c_rmdir: "sys_rmdir E U a u st = Some (r, st') \<Longrightarrow> call E U None (st, u, con) (st', u, con)"
| c_unlink: "sys_unlink E U a u st = Some (r, st') \<Longrightarrow> call E U None (st, u, con) (st', u, con)"
| c_user: "call E U None (st, u, con) (st, u', con')"
| c_spawn: "v_fds st p = None \<Longrightarrow> \<forall>t. tm = Some t \<longrightarrow> v_tables st t = None \<Longrightarrow> fresh_files fm st \<Longrightarrow> length fm = 3 \<Longrightarrow>
    vfs_proc_fds_init E cd tm fm p st = Some (r, st') \<Longrightarrow> call E U None (st, u, con) (st', u, con)"
| c_fork: "v_fds st q = None \<Longrightarrow> \<forall>t. tm = Some t \<longrightarrow> v_tables st t = None \<Longrightarrow> vfs_proc_fds_inherit tm q (Some p) st = Some st' \<Longrightarrow>
    call E U None (st, u, con) (st', u, con)"
| c_exit: "vfs_proc_fds_release E p st = Some st' \<Longrightarrow> call E U None (st, u, con) (st', u, con)"

text \<open>A sequence of calls, with the files whose references were lost, one entry for each time.\<close>

inductive calls :: "('p, 'w) fs_env \<Rightarrow> 'u user_access \<Rightarrow> file_id list \<Rightarrow> ('p, 'w) vfs \<times> 'u \<times> uart \<Rightarrow> ('p, 'w) vfs \<times> 'u \<times> uart \<Rightarrow> bool"
  for E :: "('p, 'w) fs_env" and U :: "'u user_access" where
  no_call: "calls E U [] s s"
| calls_then: "calls E U lost s s1 \<Longrightarrow> call E U l s1 s2 \<Longrightarrow> calls E U (case l of None \<Rightarrow> lost | Some f \<Rightarrow> f # lost) s s2"

end
