(* ===== verification/Vfs_Sys_Props.thy ===== *)
theory Vfs_Sys_Props
  imports Vfs_Sys
begin

text \<open>
  The accounts over sequences of system calls: between calls no reference is held by running
  code, so every open file has one reference for each descriptor that names it and one for each
  time that a call lost one, and every vnode has one for each open file and mount. When the last
  process has gone, so have all open files but the lost ones.
\<close>

section \<open>One call at a time\<close>

definition sys_ok :: "(vn \<Rightarrow> nat) \<Rightarrow> (file_id \<Rightarrow> nat) \<Rightarrow> ('p, 'w) vfs \<Rightarrow> bool" where
  "sys_ok kv kf st \<longleftrightarrow> vfs_ok kv kf st \<and> dom (v_tables st) = ran (v_fds st)"

text \<open>Up to references of the console shell, which is never freed.\<close>

definition sys_ok_from :: "vn \<Rightarrow> (vn \<Rightarrow> nat) \<Rightarrow> (file_id \<Rightarrow> nat) \<Rightarrow> ('p, 'w) vfs \<Rightarrow> bool" where
  "sys_ok_from c kv kf st \<longleftrightarrow> (\<exists>k. sys_ok (kv(c := kv c + k)) kf st)"

lemma sys_ok_fromI: "sys_ok kv kf st \<Longrightarrow> sys_ok_from c kv kf st"
  unfolding sys_ok_from_def by (rule exI [of _ 0]) simp

lemma sys_ok_from_trans: "sys_ok_from c (kv(c := kv c + k)) kf st \<Longrightarrow> sys_ok_from c kv kf st"
  unfolding sys_ok_from_def by (simp only: fun_upd_same fun_upd_upd add.assoc) blast

lemma sys_ok_same: "sys_ok kv kf st \<Longrightarrow> vfs_ok kv kf st1 \<Longrightarrow> tables_same st st1 \<Longrightarrow> sys_ok kv kf st1"
  by (simp add: sys_ok_def tables_same_def)

lemma path_copy_in_short:
  assumes "access_ok U" and "path_copy_in U a u = Inr path"
  shows "length path < VFS_PATH_MAX"
proof -
  from assms(2) obtain bs where "ua_in U a (nat (ua_strnlen U a (VFS_PATH_MAX - 1) u)) u = Some bs" and "length path = length bs"
    by (auto simp: path_copy_in_def Let_def split: if_splits option.splits)
  moreover have "ua_strnlen U a (VFS_PATH_MAX - 1) u \<le> int (VFS_PATH_MAX - 1)"
    using assms(1) unfolding access_ok_def by blast
  ultimately show ?thesis using assms(1) by (auto simp: access_ok_def)
qed

context file_systems
begin

lemma f_read_ok:
  assumes "vfs_ok kv kf st" and "f_read E fo len st = Some (r, bs, st1)"
  shows "vfs_ok kv kf st1 \<and> core_same st st1"
proof -
  have "dirs_ok st" using assms(1) by (simp add: vfs_ok_def)
  with assms(2) have "st1 = st \<or> gives st None st1"
    by (auto simp: f_read_def bind_eq_Some_conv split: option.splits if_splits dest: read_law)
  with assms(1) gives_ok [OF assms(1)] show ?thesis by (fastforce simp: gives_def)
qed

lemma f_write_ok:
  assumes "vfs_ok kv kf st" and "f_write E (Some f) buf st = Some (r, st1)"
  shows "vfs_ok kv kf st1 \<and> tables_same st st1"
proof -
  obtain x where x: "v_files st f = Some x" using assms(2) by (auto simp: f_write_def bind_eq_Some_conv)
  define sz where "sz = (if fi_flags x AND O_APPEND \<noteq> 0 then vfs_getattr E (Some (fi_vn x)) st else Some (0, V_NONE, fi_off x))"
  consider "st1 = st"
    | w sz st2 r2 where "\<exists>k. op_write (en_ops E k) = Some w" "w (fi_vn x) sz buf (set_file f (Some (x\<lparr>fi_off := sz\<rparr>)) st) = Some (r2, st2)"
      "\<exists>x1. v_files st2 f = Some x1 \<and> (st1 = st2 \<or> (\<exists>y. st1 = set_file f (Some (x1\<lparr>fi_off := y\<rparr>)) st2))"
  proof (cases "fi_flags x AND O_ACCMODE = O_RDONLY")
    case True
    with assms(2) x that(1) show ?thesis by (simp add: f_write_def)
  next
    case rw: False
    with assms(2) x obtain s where s: "v_shells st (fi_vn x) = Some s" by (auto simp: f_write_def bind_eq_Some_conv)
    show ?thesis
    proof (cases "Option.bind (sh_ops s) (\<lambda>k. op_write (en_ops E k))")
      case None
      with assms(2) x rw s that(1) show ?thesis by (simp add: f_write_def)
    next
      case w: (Some w)
      with assms(2) x rw s have run: "do {
          (ra, _, n) \<leftarrow> sz;
          if ra \<noteq> 0 then Some (- EIO, st)
          else do {
            (r, st1) \<leftarrow> w (fi_vn x) n buf (set_file f (Some (x\<lparr>fi_off := n\<rparr>)) st);
            x1 \<leftarrow> v_files st1 f;
            Some (r, if 0 < r then set_file f (Some (x1\<lparr>fi_off := fi_off x1 + word_of_int r\<rparr>)) st1 else st1) } } = Some (r, st1)"
        unfolding sz_def by (simp add: f_write_def)
      then obtain ra ty n where n: "sz = Some (ra, ty, n)" by (cases sz) auto
      show ?thesis
      proof (cases "ra = 0")
        case False
        with run n that(1) show ?thesis by simp
      next
        case True
        with run n obtain r2 st2 where st2: "w (fi_vn x) n buf (set_file f (Some (x\<lparr>fi_off := n\<rparr>)) st) = Some (r2, st2)"
          by (auto simp: bind_eq_Some_conv)
        have k: "\<exists>k. op_write (en_ops E k) = Some w" using w by (auto simp: bind_eq_Some_conv)
        from run n True st2 have "\<exists>x1. v_files st2 f = Some x1 \<and> (st1 = st2 \<or> (\<exists>y. st1 = set_file f (Some (x1\<lparr>fi_off := y\<rparr>)) st2))"
          by (auto simp: bind_eq_Some_conv)
        with that(2) k st2 show ?thesis by blast
      qed
    qed
  qed
  then show ?thesis
  proof cases
    case 1
    with assms show ?thesis by simp
  next
    case (2 w sz st2 r2)
    let ?st0 = "set_file f (Some (x\<lparr>fi_off := sz\<rparr>)) st"
    have ok0: "vfs_ok kv kf ?st0" by (rule vfs_ok_same_counts [OF assms(1) x]) simp_all
    then have "dirs_ok ?st0" by (simp add: vfs_ok_def)
    with 2(1,2) have g: "gives ?st0 None st2" by (auto dest: write_law)
    from gives_ok [OF ok0 g] have ok2: "vfs_ok kv kf st2" by simp
    have t2: "tables_same st st2" using g by (auto simp: gives_def core_same_def tables_same_def)
    from 2(3) obtain x1 where x1: "v_files st2 f = Some x1" "st1 = st2 \<or> (\<exists>y. st1 = set_file f (Some (x1\<lparr>fi_off := y\<rparr>)) st2)" by blast
    from x1(2) show ?thesis
    proof (elim disjE exE)
      fix y
      assume "st1 = set_file f (Some (x1\<lparr>fi_off := y\<rparr>)) st2"
      with vfs_ok_same_counts [OF ok2 x1(1), of "x1\<lparr>fi_off := y\<rparr>"] t2 show ?thesis by (simp add: tables_same_def)
    qed (use ok2 t2 in simp)
  qed
qed

lemma write_loop_ok:
  "vfs_ok kv kf st \<Longrightarrow> write_loop E U f addr left acc u st = Some (r, st1) \<Longrightarrow> vfs_ok kv kf st1 \<and> tables_same st st1"
proof (induction left arbitrary: addr acc st rule: less_induct)
  case (less left)
  let ?chunk = "min left IO_CHUNK"
  show ?case
  proof (cases "left = 0 \<or> ua_in U addr ?chunk u = None")
    case True
    with less.prems show ?thesis
      unfolding write_loop.simps [of E U f addr left acc u st] Let_def by (auto split: if_splits)
  next
    case False
    then obtain bs where bs: "left \<noteq> 0" "ua_in U addr ?chunk u = Some bs" by auto
    note run = less.prems(2) [unfolded write_loop.simps [of E U f addr left acc u st] Let_def]
    from run bs obtain r1 st0 where w: "f_write E (Some f) bs st = Some (r1, st0)"
      by (auto simp: bind_eq_Some_conv)
    note ok0 = f_write_ok [OF less.prems(1) w]
    have "st1 = st0 \<or> write_loop E U f (addr + of_nat ?chunk) (left - ?chunk) (acc + r1) u st0 = Some (r, st1)"
      using run bs w by (auto split: if_splits)
    moreover have "left - ?chunk < left" using bs(1) by simp
    ultimately show ?thesis using ok0 less.IH tables_same_trans by blast
  qed
qed

lemma getdents_loop_ok:
  "vfs_ok kv kf st \<Longrightarrow> getdents_loop E f n used buf st = Some (r, buf1, st1) \<Longrightarrow> vfs_ok kv kf st1 \<and> tables_same st st1"
proof (induction "n - used" arbitrary: used buf st rule: less_induct)
  case less
  show ?case
  proof (cases "used < n")
    case False
    with less.prems show ?thesis by (simp add: getdents_loop.simps [of E f n used])
  next
    case True
    with less.prems(2) obtain x re name ty where x: "v_files st f = Some x"
      "vfs_readdir_at E (Some (fi_vn x)) (unat (ucast (fi_off x) :: u32)) st = Some (re, name, ty)"
      by (auto simp: getdents_loop.simps [of E f n used] bind_eq_Some_conv)
    let ?st0 = "set_file f (Some (x\<lparr>fi_off := fi_off x + 1\<rparr>)) st"
    have ok0: "vfs_ok kv kf ?st0" by (rule vfs_ok_same_counts [OF less.prems(1) x(1)]) simp_all
    have "st1 = st \<or> getdents_loop E f n (used + ux_dirent_len name) (write_at used (dirent_bytes name ty) buf) ?st0 = Some (r, buf1, st1)"
      using less.prems(2) x True by (auto simp: getdents_loop.simps [of E f n used] split: if_splits)
    moreover have "n - (used + ux_dirent_len name) < n - used" using True by (simp add: ux_dirent_len_def)
    ultimately show ?thesis using less.hyps [OF _ ok0] less.prems(1) by (auto simp: tables_same_def)
  qed
qed

lemma f_getdents_ok:
  assumes "vfs_ok kv kf st" and "f_getdents E fo buf st = Some (r, buf1, st1)"
  shows "vfs_ok kv kf st1 \<and> tables_same st st1"
proof (cases fo)
  case None
  with assms show ?thesis by (simp add: f_getdents_def)
next
  case (Some f)
  with assms(2) have "st1 = st \<or> getdents_loop E f (length buf) 0 buf st = Some (r, buf1, st1)"
    by (auto simp: f_getdents_def bind_eq_Some_conv split: if_splits)
  with getdents_loop_ok [OF assms(1)] assms(1) show ?thesis by auto
qed

lemma f_lseek_ok:
  assumes "vfs_ok kv kf st" and "f_lseek E fo off wh st = Some (r, pos, st1)"
  shows "vfs_ok kv kf st1 \<and> tables_same st st1"
proof (cases fo)
  case None
  with assms show ?thesis by (simp add: f_lseek_def)
next
  case (Some f)
  with assms(2) obtain x where x: "v_files st f = Some x" by (auto simp: f_lseek_def bind_eq_Some_conv)
  have "st1 = st \<or> (\<exists>y. st1 = set_file f (Some (x\<lparr>fi_off := y\<rparr>)) st)"
    using assms(2) Some x by (auto simp: f_lseek_def bind_eq_Some_conv Let_def split: if_splits prod.splits)
  with vfs_ok_same_counts [OF assms(1) x] assms(1) show ?thesis by fastforce
qed

text \<open>What the calls on a descriptor have in common: take a reference, work, give it back.\<close>

lemma with_fd_ok:
  assumes "sys_ok kv kf st" and "vfs_fd_get (proc_table cur st) fd st = Some (Some f, st1)"
  shows "vfs_ok kv (add_ref (Some f) kf) st1 \<and> tables_same st st1"
    and "vfs_ok kv (add_ref (Some f) kf) st2 \<Longrightarrow> tables_same st1 st2 \<Longrightarrow> file_close E (Some f) st2 = Some st3 \<Longrightarrow> sys_ok kv kf st3"
proof -
  from assms(2) obtain t where t: "proc_table cur st = Some t" by (cases "proc_table cur st") (auto simp: vfs_fd_get_def)
  have ok: "vfs_ok kv kf st" using assms(1) by (simp add: sys_ok_def)
  with t obtain xs where xs: "v_tables st t = Some xs"
    using files_ok_tables unfolding vfs_ok_def proc_table_def by (fastforce simp: bind_eq_Some_conv)
  from fd_get_ok [OF ok xs, of fd] assms(2) t
  show one: "vfs_ok kv (add_ref (Some f) kf) st1 \<and> tables_same st st1" by auto
  assume "vfs_ok kv (add_ref (Some f) kf) st2" and same: "tables_same st1 st2" and cl: "file_close E (Some f) st2 = Some st3"
  from file_close_ok [OF this(1)] cl have "vfs_ok kv kf st3 \<and> tables_same st2 st3" by simp
  with one same sys_ok_same [OF assms(1)] show "sys_ok kv kf st3" by (blast intro: tables_same_trans)
qed

lemma fd_get_none:
  assumes "sys_ok kv kf st" and "vfs_fd_get (proc_table cur st) fd st = Some (None, st1)"
  shows "sys_ok kv kf st1"
proof -
  have "st1 = st" using assms(2) by (auto simp: vfs_fd_get_def bind_eq_Some_conv split: option.splits if_splits)
  with assms(1) show ?thesis by simp
qed

lemma sys_lseek_ok: "sys_ok kv kf st \<Longrightarrow> sys_lseek E cur fd off wh st = Some (r, st') \<Longrightarrow> sys_ok kv kf st'"
proof -
  assume ok: "sys_ok kv kf st" and run: "sys_lseek E cur fd off wh st = Some (r, st')"
  show ?thesis
  proof (cases "proc_table cur st = None")
    case True
    with run ok show ?thesis by (auto simp: sys_lseek_def Let_def split: if_splits option.splits prod.splits)
  next
    case False
    with run obtain fo st1 where g: "vfs_fd_get (proc_table cur st) (int_fd fd) st = Some (fo, st1)"
      by (auto simp: sys_lseek_def Let_def bind_eq_Some_conv)
    show ?thesis
    proof (cases fo)
      case None
      with False run g have "st' = st1" by (auto simp: sys_lseek_def Let_def)
      with fd_get_none [OF ok] g None show ?thesis by simp
    next
      case (Some f)
      with False run g obtain r1 pos st2 where s: "f_lseek E (Some f) off wh st1 = Some (r1, pos, st2)"
        by (auto simp: sys_lseek_def Let_def bind_eq_Some_conv)
      with False run g Some have "file_close E (Some f) st2 = Some st'"
        by (auto simp: sys_lseek_def Let_def bind_eq_Some_conv split: if_splits option.splits)
      with with_fd_ok [OF ok g [unfolded Some]] f_lseek_ok [OF _ s] show ?thesis by blast
    qed
  qed
qed

lemma sys_getdents_ok: "sys_ok kv kf st \<Longrightarrow> sys_getdents E U stk cur fd a n u st = Some (r, u', st') \<Longrightarrow> sys_ok kv kf st'"
proof -
  assume ok: "sys_ok kv kf st" and run: "sys_getdents E U stk cur fd a n u st = Some (r, u', st')"
  show ?thesis
  proof (cases "proc_table cur st = None")
    case True
    with run ok show ?thesis by (auto simp: sys_getdents_def Let_def split: if_splits option.splits prod.splits)
  next
    case False
    with run obtain fo st1 where g: "vfs_fd_get (proc_table cur st) (int_fd fd) st = Some (fo, st1)"
      by (auto simp: sys_getdents_def Let_def bind_eq_Some_conv)
    show ?thesis
    proof (cases fo)
      case None
      with False run g have "st' = st1" by (auto simp: sys_getdents_def Let_def)
      with fd_get_none [OF ok] g None show ?thesis by simp
    next
      case (Some f)
      with False run g obtain r1 buf st2 where s: "f_getdents E (Some f) (take (min (unat n) GETDENTS_MAX) stk) st1 = Some (r1, buf, st2)"
        by (auto simp: sys_getdents_def Let_def bind_eq_Some_conv)
      with False run g Some have "file_close E (Some f) st2 = Some st'"
        by (auto simp: sys_getdents_def Let_def bind_eq_Some_conv split: if_splits option.splits)
      with with_fd_ok [OF ok g [unfolded Some]] f_getdents_ok [OF _ s] show ?thesis by blast
    qed
  qed
qed

lemma sys_read_ok: "sys_ok kv kf st \<Longrightarrow> sys_read E U cur fd a n con u st = Some (r, con', u', st') \<Longrightarrow> sys_ok kv kf st'"
proof -
  assume ok: "sys_ok kv kf st" and run: "sys_read E U cur fd a n con u st = Some (r, con', u', st')"
  show ?thesis
  proof (cases "proc_table cur st = None")
    case True
    with run ok show ?thesis by (auto simp: sys_read_def Let_def split: if_splits option.splits prod.splits)
  next
    case False
    with run obtain fo st1 where g: "vfs_fd_get (proc_table cur st) (int_fd fd) st = Some (fo, st1)"
      by (auto simp: sys_read_def Let_def bind_eq_Some_conv)
    show ?thesis
    proof (cases fo)
      case None
      with False run g have "st' = st1" by (auto simp: sys_read_def Let_def)
      with fd_get_none [OF ok] g None show ?thesis by simp
    next
      case (Some f)
      with False run g obtain r1 bs st2 where s: "f_read E (Some f) (of_nat (min (unat n) IO_CHUNK)) st1 = Some (r1, bs, st2)"
        by (auto simp: sys_read_def Let_def bind_eq_Some_conv)
      with False run g Some have "file_close E (Some f) st2 = Some st'"
        by (auto simp: sys_read_def Let_def bind_eq_Some_conv split: if_splits option.splits)
      with with_fd_ok [OF ok g [unfolded Some]] f_read_ok [OF _ s] core_tables_same show ?thesis by blast
    qed
  qed
qed

lemma sys_write_ok: "sys_ok kv kf st \<Longrightarrow> sys_write E U cur fd a n con u st = Some (r, con', st') \<Longrightarrow> sys_ok kv kf st'"
proof -
  assume ok: "sys_ok kv kf st" and run: "sys_write E U cur fd a n con u st = Some (r, con', st')"
  show ?thesis
  proof (cases "proc_table cur st = None \<or> 2 < fd")
    case True
    with run ok show ?thesis by (auto simp: sys_write_def Let_def split: if_splits option.splits prod.splits)
  next
    case False
    with run obtain fo st1 where g: "vfs_fd_get (proc_table cur st) (int_fd fd) st = Some (fo, st1)"
      by (auto simp: sys_write_def Let_def bind_eq_Some_conv)
    show ?thesis
    proof (cases fo)
      case None
      with False run g have "st' = st1" by (auto simp: sys_write_def Let_def)
      with fd_get_none [OF ok] g None show ?thesis by simp
    next
      case (Some f)
      with False run g obtain r1 st2 where s: "write_loop E U f a (unat n) 0 u st1 = Some (r1, st2)"
        by (auto simp: sys_write_def Let_def bind_eq_Some_conv)
      with False run g Some have "file_close E (Some f) st2 = Some st'"
        by (auto simp: sys_write_def Let_def bind_eq_Some_conv split: if_splits option.splits)
      with with_fd_ok [OF ok g [unfolded Some]] write_loop_ok [OF _ s] show ?thesis by blast
    qed
  qed
qed

lemma core_same_sys: "sys_ok kv kf st \<Longrightarrow> vfs_ok kv kf st1 \<Longrightarrow> core_same st st1 \<Longrightarrow> sys_ok kv kf st1"
  using sys_ok_same core_tables_same by blast

lemma path_calls_ok:
  assumes "sys_ok kv kf st"
  shows "sys_mkdir E U a u st = Some (r, st') \<Longrightarrow> sys_ok kv kf st'"
    and "sys_unlink E U a u st = Some (r, st') \<Longrightarrow> sys_ok kv kf st'"
    and "access_ok U \<Longrightarrow> sys_rmdir E U a u st = Some (r, st') \<Longrightarrow> sys_ok kv kf st'"
proof -
  have ok: "vfs_ok kv kf st" using assms by (simp add: sys_ok_def)
  show "sys_ok kv kf st'" if "sys_mkdir E U a u st = Some (r, st')"
  proof (cases "path_copy_in U a u")
    case (Inr path)
    from create_dir_ok [OF ok, of path V_DIR] core_same_sys [OF assms] that Inr show ?thesis
      by (auto simp: sys_mkdir_def vfs_mkdir_def)
  qed (use that assms in \<open>simp add: sys_mkdir_def\<close>)
  show "sys_ok kv kf st'" if "sys_unlink E U a u st = Some (r, st')"
  proof (cases "path_copy_in U a u")
    case (Inr path)
    from vfs_unlink_ok [OF ok, of path] core_same_sys [OF assms] that Inr show ?thesis by (auto simp: sys_unlink_def)
  qed (use that assms in \<open>simp add: sys_unlink_def\<close>)
  assume "access_ok U" and run: "sys_rmdir E U a u st = Some (r, st')"
  show "sys_ok kv kf st'"
  proof (cases "path_copy_in U a u")
    case (Inr path)
    have "length path < VFS_PATH_MAX" by (rule path_copy_in_short [OF \<open>access_ok U\<close> Inr])
    from rmdir_ok [OF ok this] core_same_sys [OF assms] run Inr show ?thesis by (auto simp: sys_rmdir_def)
  qed (use run assms in \<open>simp add: sys_rmdir_def\<close>)
qed

end

section \<open>Opening, closing, processes\<close>

lemma ran_upd_new: "p \<notin> dom m \<Longrightarrow> ran (m(p \<mapsto> t)) = insert t (ran m)"
  by (auto simp: ran_def)

lemma ran_remove: "inj_on m (dom m) \<Longrightarrow> m p = Some t \<Longrightarrow> ran (m(p := None)) = ran m - {t}"
  by (auto simp: ran_def inj_on_def dom_def) (metis option.inject)+

context file_systems
begin

lemma init_sys_ok:
  assumes "vfs_ok kv kf st" and "dom (v_tables st) = ran (v_fds st)" and "v_fds st p = None"
    and "\<forall>t. tmem = Some t \<longrightarrow> v_tables st t = None" and "fresh_files fmem st" and "length fmem = 3"
  shows "\<exists>r st1 k. vfs_proc_fds_init E cd tmem fmem p st = Some (r, st1) \<and>
    vfs_ok (kv(en_console E := kv (en_console E) + k)) kf st1 \<and> dom (v_tables st1) = ran (v_fds st1) \<and>
    (if r = 0 then v_fds st1 p \<noteq> None else st1 = st)"
proof -
  from fds_init_ok [OF assms(1,4-6), of cd p] obtain r st1 where
    run: "vfs_proc_fds_init E cd tmem fmem p st = Some (r, st1)" and
    res: "case tmem of None \<Rightarrow> r = - ENOMEM \<and> st1 = st
     | Some t \<Rightarrow> r = 0 \<and> vfs_ok (kv(en_console E := kv (en_console E) + console_extra E cd fmem st)) kf st1 \<and>
         v_fds st1 = (v_fds st)(p \<mapsto> t) \<and> (\<exists>zs. v_tables st1 = (v_tables st)(t \<mapsto> zs))" by blast
  show ?thesis
  proof (cases tmem)
    case None
    have "kv(en_console E := kv (en_console E) + 0) = kv" by simp
    with None run res assms(1,2) show ?thesis by (intro exI [of _ r] exI [of _ st1] exI [of _ 0]) simp
  next
    case (Some t)
    have p: "p \<notin> dom (v_fds st)" using assms(3) by auto
    from res Some obtain zs where "v_fds st1 = (v_fds st)(p \<mapsto> t)" "v_tables st1 = (v_tables st)(t \<mapsto> zs)" by auto
    with assms(2) have "dom (v_tables st1) = ran (v_fds st1)" by (simp add: ran_upd_new [OF p] del: fun_upd_apply)
    with Some run res show ?thesis
      by (intro exI [of _ r] exI [of _ st1] exI [of _ "console_extra E cd fmem st"]) (auto simp del: fun_upd_apply, simp)
  qed
qed

lemma install_sys_ok:
  assumes "vfs_ok kv (add_ref (Some f) kf) st" and "dom (v_tables st) = ran (v_fds st)" and "v_fds st p = Some t"
  shows "\<exists>r st'. do {
      (fd, st3) \<leftarrow> vfs_fd_install (v_fds st p) (Some f) st;
      if fd < 0 then do { st4 \<leftarrow> file_close E (Some f) st3; Some (fd, st4) } else Some (fd, st3) } = Some (r, st') \<and> sys_ok kv kf st' \<and> v_fds st' = v_fds st"
proof -
  from assms(1,3) obtain xs where xs: "v_tables st t = Some xs" "length xs = PROC_FD_MAX"
    using files_ok_tables unfolding vfs_ok_def by blast
  from fd_install_ok [OF assms(1) xs(1)] show ?thesis
  proof (elim disjE exE conjE)
    fix i
    let ?st1 = "set_table t (Some (xs[i := Some f])) st"
    assume i: "vfs_fd_install (Some t) (Some f) st = Some (int i, ?st1)" "vfs_ok kv kf ?st1"
    have "dom (v_tables ?st1) = ran (v_fds ?st1)" using assms(2) xs(1) by auto
    with i assms(3) show ?thesis by (simp add: sys_ok_def)
  next
    assume full: "vfs_fd_install (Some t) (Some f) st = Some (- EMFILE, st)"
    from file_close_ok [OF assms(1)] obtain st1 where "file_close E (Some f) st = Some st1" "vfs_ok kv kf st1" "tables_same st st1" by blast
    with full assms(2,3) show ?thesis by (simp add: sys_ok_def tables_same_def)
  qed
qed

lemma sys_open_ok:
  assumes ok: "sys_ok kv kf st" and "access_ok U" and grant: "grant_ok G st"
  shows "\<exists>r st'. sys_open E U G (Some p) a fl u st = Some (r, st') \<and> sys_ok_from (en_console E) kv kf st' \<and>
    (v_fds st p \<noteq> None \<longrightarrow> v_fds st' = v_fds st)"
proof (cases "path_copy_in U a u")
  case (Inl e)
  with sys_ok_fromI [OF ok] show ?thesis by (simp add: sys_open_def)
next
  case (Inr path)
  have len: "length path < VFS_PATH_MAX" by (rule path_copy_in_short [OF assms(2) Inr])
  have vok: "vfs_ok kv kf st" and dom: "dom (v_tables st) = ran (v_fds st)" using ok by (auto simp: sys_ok_def)
  have fr: "\<forall>f. gr_file G = Some f \<longrightarrow> v_files st f = None" using grant by (auto simp: grant_ok_def fresh_files_def)
  from open_ok [OF vok len fr, of "ucast fl"] obtain r fo st1 where o1: "vfs_open E (gr_file G) path (ucast fl) st = Some (r, fo, st1)"
    "vfs_ok kv (add_ref fo kf) st1" "tables_same st st1" "r = 0 \<longleftrightarrow> fo \<noteq> None" "fo \<noteq> None \<longrightarrow> fo = gr_file G"
    "\<forall>f. fo \<noteq> Some f \<longrightarrow> v_files st1 f = v_files st f" by blast
  have dom1: "dom (v_tables st1) = ran (v_fds st1)" using o1(3) dom by (simp add: tables_same_def)
  show ?thesis
  proof (cases fo)
    case None
    with o1 dom1 sys_ok_fromI [of kv kf st1] Inr show ?thesis by (auto simp: sys_open_def sys_ok_def tables_same_def)
  next
    case (Some f)
    show ?thesis
    proof (cases "v_fds st1 p")
      case t: (Some t)
      have "v_fds st1 = v_fds st" using o1(3) by (simp add: tables_same_def)
      with install_sys_ok [OF o1(2) [unfolded Some] dom1 t] sys_ok_fromI o1(1,4) Inr Some t show ?thesis
        by (fastforce simp: sys_open_def)
    next
      case None
      have "f \<notin> {g. Some g \<in> set (gr_std G)}" using grant Some o1(5) by (auto simp: grant_ok_def fresh_files_def)
      then have std: "fresh_files (gr_std G) st1"
        using grant o1(6) Some by (auto simp: grant_ok_def fresh_files_def split: if_splits)
      have tab: "\<forall>t. gr_table G = Some t \<longrightarrow> v_tables st1 t = None" and "length (gr_std G) = 3"
        using grant o1(3) by (auto simp: grant_ok_def tables_same_def)
      from init_sys_ok [OF o1(2) dom1 None tab std this(2), of "gr_console G"] obtain r2 st2 k where
        i: "vfs_proc_fds_init E (gr_console G) (gr_table G) (gr_std G) p st1 = Some (r2, st2)"
          "vfs_ok (kv(en_console E := kv (en_console E) + k)) (add_ref fo kf) st2" "dom (v_tables st2) = ran (v_fds st2)"
          "if r2 = 0 then v_fds st2 p \<noteq> None else st2 = st1" by blast
      have none: "v_fds st p = None" using None o1(3) by (simp add: tables_same_def)
      show ?thesis
      proof (cases "r2 = 0")
        case True
        with i(4) obtain t where t: "v_fds st2 p = Some t" by auto
        from install_sys_ok [OF i(2) [unfolded Some] i(3) t] obtain r3 st' where
          "do { (fd, st3) \<leftarrow> vfs_fd_install (v_fds st2 p) (Some f) st2;
            if fd < 0 then do { st4 \<leftarrow> file_close E (Some f) st3; Some (fd, st4) } else Some (fd, st3) } = Some (r3, st')"
          "sys_ok (kv(en_console E := kv (en_console E) + k)) kf st'" by blast
        moreover from this(2) have "sys_ok_from (en_console E) kv kf st'" unfolding sys_ok_from_def by blast
        ultimately show ?thesis using o1(1,4) Inr Some None none i(1) True by (simp add: sys_open_def)
      next
        case False
        from file_close_ok [OF i(2)] obtain st3 where c: "file_close E fo st2 = Some st3"
          "vfs_ok (kv(en_console E := kv (en_console E) + k)) kf st3" "tables_same st2 st3" by blast
        then have "sys_ok_from (en_console E) kv kf st3" using i(3) unfolding sys_ok_from_def sys_ok_def tables_same_def by auto
        with o1(1,4) Inr Some None none i(1) False c(1) show ?thesis by (simp add: sys_open_def)
      qed
    qed
  qed
qed

lemma proc_table_of:
  assumes "sys_ok kv kf st" and "proc_table cur st = Some t"
  shows "\<exists>xs. v_tables st t = Some xs \<and> length xs = PROC_FD_MAX"
  using assms files_ok_tables unfolding sys_ok_def vfs_ok_def proc_table_def by (fastforce simp: bind_eq_Some_conv)

lemma sys_close_ok:
  assumes ok: "sys_ok kv kf st"
  shows "\<exists>r st'. sys_close E cur fd st = Some (r, st') \<and> sys_ok kv kf st'"
proof (cases "proc_table cur st = None \<or> of_nat PROC_FD_MAX \<le> fd")
  case True
  with ok show ?thesis by (auto simp: sys_close_def)
next
  case False
  then obtain t where t: "proc_table cur st = Some t" by auto
  from proc_table_of [OF ok t] obtain xs where xs: "v_tables st t = Some xs" "length xs = PROC_FD_MAX" by blast
  have vok: "vfs_ok kv kf st" using ok by (simp add: sys_ok_def)
  from fd_get_ok [OF vok xs(1), of "int_fd fd"] obtain fo st1 where g: "vfs_fd_get (Some t) (int_fd fd) st = Some (fo, st1)"
    "vfs_ok kv (add_ref fo kf) st1" "tables_same st st1" by blast
  show ?thesis
  proof (cases fo)
    case None
    with g t False fd_get_none [OF ok, of cur "int_fd fd" st1] show ?thesis by (auto simp: sys_close_def)
  next
    case (Some f)
    from file_close_ok [OF g(2)] obtain st2 where c: "file_close E fo st1 = Some st2" "vfs_ok kv kf st2" "tables_same st1 st2" by blast
    note same = tables_same_trans [OF g(3) c(3)]
    have xs2: "v_tables st2 t = Some xs" using same xs(1) by (simp add: tables_same_def)
    from fd_put_ok [OF c(2) xs2, of "int_fd fd"] obtain st3 where p: "vfs_fd_put E (Some t) (int_fd fd) st2 = Some st3"
      "vfs_ok kv kf st3" "v_fds st3 = v_fds st2"
      "v_tables st3 = (v_tables st2)(t \<mapsto> if bad_fd (int_fd fd) then xs else xs[nat (int_fd fd) := None])" by blast
    have "dom (v_tables st3) = dom (v_tables st2)" using p(4) xs2 by auto
    then have "sys_ok kv kf st3" using ok p(2,3) same by (simp add: sys_ok_def tables_same_def)
    with g c p t False Some show ?thesis by (auto simp: sys_close_def)
  qed
qed

text \<open>A \<open>dup\<close> into a full table keeps the reference it took.\<close>

lemma sys_dup_ok:
  assumes ok: "sys_ok kv kf st"
  shows "\<exists>r st'. sys_dup (Some p) fd st = Some (r, st') \<and>
    sys_ok kv (add_ref (if r = - EMFILE then fd_file p fd st else None) kf) st'"
proof (cases "proc_table (Some p) st = None \<or> of_nat PROC_FD_MAX \<le> fd")
  case True
  with ok show ?thesis by (auto simp: sys_dup_def)
next
  case False
  then obtain t where t: "proc_table (Some p) st = Some t" by auto
  then have tp: "v_fds st p = Some t" by (simp add: proc_table_def)
  from proc_table_of [OF ok t] obtain xs where xs: "v_tables st t = Some xs" "length xs = PROC_FD_MAX" by blast
  have vok: "vfs_ok kv kf st" using ok by (simp add: sys_ok_def)
  from fd_get_ok [OF vok xs(1), of "int_fd fd"] obtain fo st1 where g: "vfs_fd_get (Some t) (int_fd fd) st = Some (fo, st1)"
    "vfs_ok kv (add_ref fo kf) st1" "tables_same st st1" "fo = (if bad_fd (int_fd fd) then None else xs ! nat (int_fd fd))" by blast
  have fo: "fd_file p fd st = fo" using tp xs(1) g(4) by (simp add: fd_file_def)
  show ?thesis
  proof (cases fo)
    case None
    with g t False fd_get_none [OF ok, of "Some p" "int_fd fd" st1] show ?thesis by (auto simp: sys_dup_def)
  next
    case (Some f)
    have xs1: "v_tables st1 t = Some xs" using g(3) xs(1) by (simp add: tables_same_def)
    from fd_install_ok [OF g(2) [unfolded Some] xs1] show ?thesis
    proof (elim disjE exE conjE)
      fix i
      let ?st2 = "set_table t (Some (xs[i := Some f])) st1"
      assume i: "vfs_fd_install (Some t) (Some f) st1 = Some (int i, ?st2)" "vfs_ok kv kf ?st2"
      have "dom (v_tables ?st2) = ran (v_fds ?st2)" using ok g(3) xs1 by (auto simp: sys_ok_def tables_same_def)
      with i g t False Some show ?thesis by (auto simp: sys_dup_def sys_ok_def)
    next
      assume "vfs_fd_install (Some t) (Some f) st1 = Some (- EMFILE, st1)"
      with g t False Some fo ok show ?thesis by (auto simp: sys_dup_def sys_ok_def tables_same_def)
    qed
  qed
qed

text \<open>So does every look at a descriptor by \<open>ioctl\<close>.\<close>

lemma fd_vnode_of_ok:
  assumes ok: "sys_ok kv kf st"
  shows "\<exists>vo st'. fd_vnode_of (Some p) (int_fd fd) st = Some (vo, st') \<and> sys_ok kv (add_ref (fd_file p fd st) kf) st'"
proof (cases "v_fds st p = None \<or> bad_fd (int_fd fd)")
  case True
  with ok show ?thesis by (auto simp: fd_vnode_of_def fd_file_def proc_table_def)
next
  case False
  then obtain t where tp: "v_fds st p = Some t" by auto
  then have t: "proc_table (Some p) st = Some t" by (simp add: proc_table_def)
  from proc_table_of [OF ok t] obtain xs where xs: "v_tables st t = Some xs" by blast
  have vok: "vfs_ok kv kf st" using ok by (simp add: sys_ok_def)
  from fd_get_ok [OF vok xs, of "int_fd fd"] obtain fo st1 where g: "vfs_fd_get (Some t) (int_fd fd) st = Some (fo, st1)"
    "vfs_ok kv (add_ref fo kf) st1" "tables_same st st1" "fo = (if bad_fd (int_fd fd) then None else xs ! nat (int_fd fd))" by blast
  have fo: "fd_file p fd st = fo" using tp xs g(4) by (simp add: fd_file_def)
  have ok1: "sys_ok kv (add_ref fo kf) st1" using ok g(2,3) by (simp add: sys_ok_def tables_same_def)
  have "f \<in> dom (v_files st1)" if "fo = Some f" for f
    using g(2) that by (force simp: vfs_ok_def files_ok_def frefs_def account_simps split: option.splits if_splits)
  with g(1) t False ok1 fo show ?thesis by (cases fo) (auto simp: fd_vnode_of_def)
qed

lemma fork_ok:
  assumes ok: "sys_ok kv kf st" and "v_fds st q = None" and "\<forall>t. tm = Some t \<longrightarrow> v_tables st t = None"
  shows "\<exists>st'. vfs_proc_fds_inherit tm q par st = Some st' \<and> sys_ok kv kf st'"
proof -
  have vok: "vfs_ok kv kf st" and dom: "dom (v_tables st) = ran (v_fds st)" using ok by (auto simp: sys_ok_def)
  from fds_inherit_ok [OF vok assms(3), of q par] obtain st1 where st1: "vfs_proc_fds_inherit tm q par st = Some st1"
    "vfs_ok kv kf st1" "case (Option.bind par (v_fds st), tm) of
       (Some pt, Some ct) \<Rightarrow> v_tables st1 = (v_tables st)(ct := v_tables st pt) \<and> v_fds st1 = (v_fds st)(q \<mapsto> ct)
     | _ \<Rightarrow> st1 = st"
    by blast
  have "dom (v_tables st1) = ran (v_fds st1)"
  proof (cases "Option.bind par (v_fds st)"; cases tm)
    fix pt t
    assume pt: "Option.bind par (v_fds st) = Some pt" and t: "tm = Some t"
    then have "v_tables st pt \<noteq> None" using vok by (auto simp: bind_eq_Some_conv vfs_ok_def files_ok_def)
    then obtain xs where "v_tables st pt = Some xs" by auto
    with st1(3) pt t dom assms(2) show ?thesis by (simp add: ran_upd_new domIff del: fun_upd_apply)
  qed (use st1(3) dom in simp_all)
  with st1 show ?thesis by (auto simp: sys_ok_def)
qed

lemma exit_ok:
  assumes ok: "sys_ok kv kf st"
  shows "\<exists>st'. vfs_proc_fds_release E p st = Some st' \<and> sys_ok kv kf st' \<and> v_fds st' = (v_fds st)(p := None)"
proof -
  have vok: "vfs_ok kv kf st" and dom: "dom (v_tables st) = ran (v_fds st)" using ok by (auto simp: sys_ok_def)
  from fds_release_ok [OF vok, of p] obtain st1 where st1: "vfs_proc_fds_release E p st = Some st1" "vfs_ok kv kf st1"
    "v_fds st1 = (v_fds st)(p := None)"
    "v_tables st1 = (case v_fds st p of None \<Rightarrow> v_tables st | Some t \<Rightarrow> (v_tables st)(t := None))" by blast
  have "dom (v_tables st1) = ran (v_fds st1)"
  proof (cases "v_fds st p")
    case None
    with st1(3,4) dom show ?thesis by (simp add: fun_upd_idem)
  next
    case (Some t)
    have "inj_on (v_fds st) (dom (v_fds st))" using vok by (simp add: vfs_ok_def files_ok_def)
    from ran_remove [OF this Some] st1(3,4) dom Some show ?thesis by auto
  qed
  with st1 show ?thesis by (auto simp: sys_ok_def)
qed

section \<open>Any sequence\<close>

lemma call_ok:
  assumes "call E U l s s'" and acc: "access_ok U" and ok: "sys_ok kv kf (fst s)"
  shows "sys_ok_from (en_console E) kv (add_ref l kf) (fst s')"
  using assms(1)
proof cases
  case (c_open G st p a fl u r st' con)
  with sys_open_ok [OF _ acc c_open(4), of kv kf p a fl u] ok show ?thesis by fastforce
next
  case (c_spawn st p tm fm cd r st' u con)
  have vok: "vfs_ok kv kf st" and dom: "dom (v_tables st) = ran (v_fds st)" using ok c_spawn(2) by (auto simp: sys_ok_def)
  from init_sys_ok [OF vok dom c_spawn(4-7), of cd] c_spawn(1,3,8) show ?thesis
    unfolding sys_ok_from_def sys_ok_def by fastforce
next
  case (c_dup p fd st r st' u con)
  with sys_dup_ok [of kv kf st p fd] ok show ?thesis by (auto intro: sys_ok_fromI)
next
  case (c_ioctl p fd st vo st' u con u' con')
  with fd_vnode_of_ok [of kv kf st p fd] ok show ?thesis by (auto intro: sys_ok_fromI)
next
  case (c_fork st q tm p st' u con)
  with fork_ok [OF _ c_fork(4,5), of kv kf "Some p"] ok show ?thesis by (auto intro: sys_ok_fromI)
next
  case (c_exit p st st' u con)
  with exit_ok [of kv kf st p] ok show ?thesis by (auto intro: sys_ok_fromI)
next
  case (c_close p fd st r st' u con)
  with sys_close_ok [of kv kf st "Some p" fd] ok show ?thesis by (auto intro: sys_ok_fromI)
qed (use ok acc in \<open>auto intro!: sys_ok_fromI intro: sys_lseek_ok sys_getdents_ok sys_read_ok sys_write_ok path_calls_ok\<close>)

lemma add_lost: "add_ref l (\<lambda>f. kf f + count_list lost f) =
    (\<lambda>f. kf f + count_list (case l of None \<Rightarrow> lost | Some f \<Rightarrow> f # lost) f)"
  by (cases l) (auto simp: account_simps)

lemma calls_ok:
  "calls E U lost s s' \<Longrightarrow> access_ok U \<Longrightarrow> sys_ok kv kf (fst s) \<Longrightarrow>
    sys_ok_from (en_console E) kv (\<lambda>f. kf f + count_list lost f) (fst s')"
proof (induction rule: calls.induct)
  case (calls_then lost s s1 l s2)
  then obtain k where "sys_ok (kv(en_console E := kv (en_console E) + k)) (\<lambda>f. kf f + count_list lost f) (fst s1)"
    unfolding sys_ok_from_def by blast
  from call_ok [OF calls_then.hyps(2) calls_then.prems(1) this] show ?case
    unfolding add_lost by (rule sys_ok_from_trans)
qed (simp add: sys_ok_fromI)

end

end
