(* ===== verification/Vfs_Ramfs.thy ===== *)
theory Vfs_Ramfs
  imports Vfs_Sys_Props
begin

text \<open>
  The in-memory file system below the virtual one: the table \<open>ramfs_ops\<close> and \<open>ramfs_mount\<close> as
  the core calls them. A shell names its mount slot and its node; the heap is the list of the
  addresses that it hands out, and an address that is still in use, or an empty list, stands for
  a failed allocation. With them \<open>ramfs\<close> keeps the contract \<open>file_systems\<close>.
\<close>

section \<open>The operations as the core calls them\<close>

type_synonym ram_priv = "nat \<times> vnode"

record ram_world =
  rw_fs :: "nat \<Rightarrow> ram_fs"
  rw_heap :: "nat list"

type_synonym ram_vfs = "(ram_priv, ram_world) vfs"

definition set_world :: "nat \<Rightarrow> ram_fs \<Rightarrow> nat \<Rightarrow> ram_vfs \<Rightarrow> ram_vfs" where
  "set_world m fs used st =
    st\<lparr>v_world := \<lparr>rw_fs = (rw_fs (v_world st))(m := fs), rw_heap = drop used (rw_heap (v_world st))\<rparr>\<rparr>"

text \<open>The \<open>i\<close>-th allocation from now, when its address is free.\<close>

definition heap_at :: "nat \<Rightarrow> ram_vfs \<Rightarrow> nat option" where
  "heap_at i st = (let h = rw_heap (v_world st) in if i < length h then Some (h ! i) else None)"

definition shell_at :: "nat \<Rightarrow> ram_vfs \<Rightarrow> vn option" where
  "shell_at i st = Option.bind (heap_at i st) (\<lambda>a. if v_shells st a = None then Some a else None)"

definition node_at :: "nat \<Rightarrow> ram_fs \<Rightarrow> ram_vfs \<Rightarrow> node_id option" where
  "node_at i fs st = Option.bind (heap_at i st) (\<lambda>a. if rf_nodes fs a = None then Some a else None)"

definition publish :: "nat \<Rightarrow> vnode option \<Rightarrow> vn option \<Rightarrow> ram_vfs \<Rightarrow> vn option \<times> ram_vfs" where
  "publish m vo ao st =
    (case (vo, ao) of
       (Some v, Some a) \<Rightarrow>
         (Some a, st\<lparr>v_shells := (v_shells st)(a \<mapsto> \<lparr>sh_ops = Some 0, sh_type = vn_type v, sh_refs = 1, sh_priv = (m, v)\<rparr>)\<rparr>)
     | _ \<Rightarrow> (None, st))"

definition ro_lookup :: "vn \<Rightarrow> string \<Rightarrow> ram_vfs \<Rightarrow> (int \<times> vn option \<times> ram_vfs) option" where
  "ro_lookup d name st = do {
     s \<leftarrow> v_shells st d;
     case sh_priv s of (m, dv) \<Rightarrow>
       (case ramfs_lookup (shell_at 0 st \<noteq> None) dv name (rw_fs (v_world st) m) of (r, vo, fs) \<Rightarrow>
          (case publish m vo (shell_at 0 st) (set_world m fs (if vo = None then 0 else 1) st) of (out, st1) \<Rightarrow> Some (r, out, st1))) }"

definition ro_create :: "vn \<Rightarrow> string \<Rightarrow> vtype \<Rightarrow> ram_vfs \<Rightarrow> (int \<times> vn option \<times> ram_vfs) option" where
  "ro_create d name t st = do {
     s \<leftarrow> v_shells st d;
     case sh_priv s of (m, dv) \<Rightarrow>
       let fs0 = rw_fs (v_world st) m
       in (case ramfs_create (node_at 0 fs0 st) (shell_at 1 st \<noteq> None) dv name t fs0 of (r, vo, fs) \<Rightarrow>
             (case publish m vo (shell_at 1 st) (set_world m fs 2 st) of (out, st1) \<Rightarrow> Some (r, out, st1))) }"

definition ro_unlink :: "vn \<Rightarrow> string \<Rightarrow> ram_vfs \<Rightarrow> (int \<times> ram_vfs) option" where
  "ro_unlink d name st = do {
     s \<leftarrow> v_shells st d;
     case sh_priv s of (m, dv) \<Rightarrow>
       (case ramfs_unlink dv name (rw_fs (v_world st) m) of (r, fs) \<Rightarrow> Some (r, set_world m fs 0 st)) }"

definition ro_readdir :: "vn \<Rightarrow> nat \<Rightarrow> ram_vfs \<Rightarrow> (int \<times> string \<times> u8) option" where
  "ro_readdir d idx st = do {
     s \<leftarrow> v_shells st d;
     case sh_priv s of (m, dv) \<Rightarrow>
       (case ramfs_readdir dv idx (rw_fs (v_world st) m) of
          (r, Some (name, ty)) \<Rightarrow> Some (r, name, ty)
        | (r, None) \<Rightarrow> Some (r, '''', 0)) }"

definition ro_read :: "vn \<Rightarrow> u64 \<Rightarrow> u64 \<Rightarrow> ram_vfs \<Rightarrow> (int \<times> u8 list \<times> ram_vfs) option" where
  "ro_read v off len st = do {
     s \<leftarrow> v_shells st v;
     case sh_priv s of (m, x) \<Rightarrow> do {
       (r, bs) \<leftarrow> ramfs_read x off len (rw_fs (v_world st) m);
       Some (r, bs, st) } }"

definition ro_write :: "vn \<Rightarrow> u64 \<Rightarrow> u8 list \<Rightarrow> ram_vfs \<Rightarrow> (int \<times> ram_vfs) option" where
  "ro_write v off buf st = do {
     s \<leftarrow> v_shells st v;
     case sh_priv s of (m, x) \<Rightarrow> do {
       (r, fs) \<leftarrow> ramfs_write (heap_at 0 st \<noteq> None) x off buf (rw_fs (v_world st) m);
       Some (r, set_world m fs 1 st) } }"

definition ro_getattr :: "vn \<Rightarrow> ram_vfs \<Rightarrow> int \<times> vtype \<times> u64" where
  "ro_getattr v st =
    (case v_shells st v of
       None \<Rightarrow> (0, V_NONE, 0)
     | Some s \<Rightarrow> (case sh_priv s of (m, x) \<Rightarrow> (0, sh_type s, of_nat (ramfs_getattr x (rw_fs (v_world st) m)))))"

definition ro_destroy :: "vn \<Rightarrow> ram_vfs \<Rightarrow> ram_vfs option" where
  "ro_destroy v st = do {
     s \<leftarrow> v_shells st v;
     case sh_priv s of (m, x) \<Rightarrow>
       Some ((set_world m (ramfs_destroy x (rw_fs (v_world st) m)) 0 st)\<lparr>v_shells := (v_shells st)(v := None)\<rparr>) }"

definition ramfs_ops :: "(ram_priv, ram_world) vnode_ops" where
  "ramfs_ops = \<lparr>op_lookup = Some ro_lookup, op_create = Some ro_create, op_unlink = Some ro_unlink,
     op_readdir = Some ro_readdir, op_read = Some ro_read, op_write = Some ro_write,
     op_getattr = Some ro_getattr, op_destroy = Some ro_destroy\<rparr>"

text \<open>Mounting in a slot; any other mounting function is absent from this environment.\<close>

definition rm_mount :: "nat \<Rightarrow> nat \<Rightarrow> ram_vfs \<Rightarrow> (int \<times> ram_vfs) option" where
  "rm_mount fn slot st =
    (if fn \<noteq> 0 then Some (- ENODEV, st)
     else case ramfs_mount (heap_at 0 st) (shell_at 1 st \<noteq> None) of
       (r, None) \<Rightarrow> Some (r, st)
     | (r, Some (v, fs)) \<Rightarrow>
         (case publish slot (Some v) (shell_at 1 st) (set_world slot fs 2 st) of (out, st1) \<Rightarrow>
            Some (r, st1\<lparr>v_mounts := (v_mounts st1)[slot := (v_mounts st1 ! slot)\<lparr>mo_root := out\<rparr>]\<rparr>)))"

text \<open>The console device has no file operations here; its table is entry 1.\<close>

definition ram_env :: "(ram_priv, ram_world) fs_env" where
  "ram_env = \<lparr>en_ops = (\<lambda>k. if k = 0 then ramfs_ops
       else \<lparr>op_lookup = None, op_create = None, op_unlink = None, op_readdir = None, op_read = None, op_write = None,
             op_getattr = None, op_destroy = None\<rparr>),
     en_mount = rm_mount, en_console = 0, en_char_ops = 1\<rparr>"

section \<open>The contract\<close>

lemma set_world_core [simp]: "core_same st (set_world m fs k st)" "dirs_ok (set_world m fs k st) = dirs_ok st"
  "vrefs (set_world m fs k st) = vrefs st" "v_shells (set_world m fs k st) = v_shells st" "v_mounts (set_world m fs k st) = v_mounts st"
  by (simp_all add: core_same_def set_world_def dirs_ok_def vrefs_def [abs_def])

lemma set_world_gives [simp]: "dirs_ok st \<Longrightarrow> gives st None (set_world m fs k st)"
  by (simp add: gives_def)

lemma shell_at_new: "shell_at i st = Some a \<Longrightarrow> v_shells st a = None"
  by (auto simp: shell_at_def bind_eq_Some_conv split: if_splits)

lemma publish_gives:
  assumes "dirs_ok st" and "\<forall>a. ao = Some a \<longrightarrow> v_shells st a = None" and "publish m vo ao (set_world m fs k st) = (out, st1)"
  shows "gives st out st1 \<and> (out = None \<longleftrightarrow> vo = None \<or> ao = None)"
proof (cases "vo = None \<or> ao = None")
  case True
  then have "out = None" "st1 = set_world m fs k st" using assms(3) by (auto simp: publish_def split: option.splits)
  with True assms(1) show ?thesis by auto
next
  case False
  then obtain v a where va: "vo = Some v" "ao = Some a" by auto
  define s where "s = \<lparr>sh_ops = Some (0::nat), sh_type = vn_type v, sh_refs = 1, sh_priv = (m, v)\<rparr>"
  have out: "out = Some a" and st1: "st1 = (set_world m fs k st)\<lparr>v_shells := (v_shells st)(a \<mapsto> s)\<rparr>"
    using assms(3) va by (auto simp: publish_def s_def)
  have "core_same st st1" by (simp add: st1 core_same_def set_world_def)
  moreover have "dirs_ok st1" using assms(1) by (auto simp: st1 dirs_ok_def s_def)
  moreover have "vrefs st1 = (vrefs st)(a := vrefs st a + 1)"
    using assms(2) va by (auto simp: st1 vrefs_def s_def fun_eq_iff set_world_def)
  ultimately show ?thesis using out va by (simp add: gives_def account_simps)
qed

lemma lookup_shell: "ramfs_lookup mem dv name fs0 = (r, vo, fs) \<Longrightarrow> r \<noteq> 0 \<Longrightarrow> vo = None"
  by (auto simp: ramfs_lookup_def split: if_splits option.splits prod.splits)

lemma create_shell: "ramfs_create n mem dv name t fs0 = (r, vo, fs) \<Longrightarrow> r \<noteq> 0 \<Longrightarrow> vo = None"
  by (auto simp: ramfs_create_def Let_def split: if_splits option.splits prod.splits)

lemma ro_lookup_gives:
  assumes "dirs_ok st" and "v_shells st d \<noteq> None"
  shows "\<exists>r out st1. ro_lookup d name st = Some (r, out, st1) \<and> gives st out st1 \<and> (r \<noteq> 0 \<longrightarrow> out = None)"
proof -
  obtain s m dv where s: "v_shells st d = Some s" "sh_priv s = (m, dv)" using assms(2) by (cases "v_shells st d") (auto, metis surj_pair)
  obtain r vo fs where l: "ramfs_lookup (shell_at 0 st \<noteq> None) dv name (rw_fs (v_world st) m) = (r, vo, fs)" by (metis prod_cases3)
  obtain out st1 where p: "publish m vo (shell_at 0 st) (set_world m fs (if vo = None then 0 else 1) st) = (out, st1)" by fastforce
  have "gives st out st1 \<and> (out = None \<longleftrightarrow> vo = None \<or> shell_at 0 st = None)"
    by (rule publish_gives [OF assms(1) _ p]) (simp add: shell_at_new)
  with s l p lookup_shell [OF l] show ?thesis by (auto simp: ro_lookup_def)
qed

lemma ro_create_gives:
  assumes "dirs_ok st" and "v_shells st d \<noteq> None"
  shows "\<exists>r out st1. ro_create d name t st = Some (r, out, st1) \<and> gives st out st1 \<and> (r \<noteq> 0 \<longrightarrow> out = None)"
proof -
  obtain s m dv where s: "v_shells st d = Some s" "sh_priv s = (m, dv)" using assms(2) by (cases "v_shells st d") (auto, metis surj_pair)
  let ?fs0 = "rw_fs (v_world st) m"
  obtain r vo fs where l: "ramfs_create (node_at 0 ?fs0 st) (shell_at 1 st \<noteq> None) dv name t ?fs0 = (r, vo, fs)" by (metis prod_cases3)
  obtain out st1 where p: "publish m vo (shell_at 1 st) (set_world m fs 2 st) = (out, st1)" by fastforce
  have "gives st out st1 \<and> (out = None \<longleftrightarrow> vo = None \<or> shell_at 1 st = None)"
    by (rule publish_gives [OF assms(1) _ p]) (simp add: shell_at_new)
  with s l p create_shell [OF l] show ?thesis by (auto simp: ro_create_def)
qed

lemma ro_unlink_gives:
  assumes "dirs_ok st" and "v_shells st d \<noteq> None"
  shows "\<exists>r st1. ro_unlink d name st = Some (r, st1) \<and> gives st None st1"
  using assms by (auto simp: ro_unlink_def split: prod.splits)

lemma ro_write_gives: "dirs_ok st \<Longrightarrow> ro_write v off buf st = Some (r, st1) \<Longrightarrow> gives st None st1"
  by (auto simp: ro_write_def bind_eq_Some_conv split_beta)

lemma ro_read_gives: "dirs_ok st \<Longrightarrow> ro_read v off len st = Some (r, bs, st1) \<Longrightarrow> gives st None st1 \<and> st1 = st"
  by (auto simp: ro_read_def bind_eq_Some_conv gives_def split_beta)

lemma ro_truncate: "v_shells st v \<noteq> None \<Longrightarrow> ro_write v 0 [] st \<noteq> None"
  by (auto simp: ro_write_def ramfs_write_def Let_def split: prod.splits)

lemma ro_destroy_gives:
  assumes "dirs_ok st" and "v_shells st v = Some s" and "sh_refs s = 0"
  shows "\<exists>st1. ro_destroy v st = Some st1 \<and> gives st None st1"
proof -
  obtain m x where p: "sh_priv s = (m, x)" by fastforce
  let ?fs = "ramfs_destroy x (rw_fs (v_world st) m)"
  let ?st1 = "(set_world m ?fs 0 st)\<lparr>v_shells := (v_shells st)(v := None)\<rparr>"
  have "gives st None ?st1"
    using assms by (auto simp: gives_def core_same_def set_world_def dirs_ok_def vrefs_def fun_eq_iff)
  with assms(2) p show ?thesis by (auto simp: ro_destroy_def)
qed

lemma rm_mount_gives:
  assumes "dirs_ok st" and "slot < length (v_mounts st)"
  shows "\<exists>r st1. rm_mount fn slot st = Some (r, st1) \<and>
    (if r = 0 then \<exists>v. gives (st\<lparr>v_mounts := (v_mounts st)[slot := (v_mounts st ! slot)\<lparr>mo_root := Some v\<rparr>]\<rparr>) (Some v) st1
     else gives st None st1)"
proof (cases "fn = 0 \<and> heap_at 0 st \<noteq> None \<and> shell_at 1 st \<noteq> None")
  case False
  have "gives st None st" using assms(1) by (simp add: gives_def)
  moreover have "\<exists>r. r \<noteq> 0 \<and> rm_mount fn slot st = Some (r, st)"
    using False by (auto simp: rm_mount_def ramfs_mount_def shell_make_def Let_def split: option.splits)
  ultimately show ?thesis by auto
next
  case True
  then obtain n a where na: "heap_at 0 st = Some n" "shell_at 1 st = Some a" by auto
  obtain v fs where m: "ramfs_mount (Some n) True = (0, Some (v, fs))"
    by (simp add: ramfs_mount_def shell_make_def Let_def)
  obtain out st1 where p: "publish slot (Some v) (Some a) (set_world slot fs 2 st) = (out, st1)" by fastforce
  have g: "gives st out st1 \<and> (out = None \<longleftrightarrow> Some v = None \<or> Some a = None)"
    by (rule publish_gives [OF assms(1) _ p]) (use shell_at_new na in auto)
  then obtain u where u: "out = Some u" by auto
  let ?st2 = "st1\<lparr>v_mounts := (v_mounts st1)[slot := (v_mounts st1 ! slot)\<lparr>mo_root := out\<rparr>]\<rparr>"
  have run: "rm_mount fn slot st = Some (0, ?st2)" using True na m p by (simp add: rm_mount_def)
  have "gives (st\<lparr>v_mounts := (v_mounts st)[slot := (v_mounts st ! slot)\<lparr>mo_root := Some u\<rparr>]\<rparr>) (Some u) ?st2"
    using g u by (auto simp: gives_def core_same_def dirs_ok_def vrefs_def [abs_def])
  with run show ?thesis by auto
qed

interpretation ram: file_systems ram_env
proof
  fix k and st :: ram_vfs and d :: vn and name :: string and t
  have ops: "en_ops ram_env 0 = ramfs_ops" by (simp add: ram_env_def)
  show "\<exists>r out st1. l d name st = Some (r, out, st1) \<and> gives st out st1 \<and> (r \<noteq> 0 \<longrightarrow> out = None)"
    if "op_lookup (en_ops ram_env k) = Some l" "dirs_ok st" "v_shells st d \<noteq> None" for l
    using that ro_lookup_gives by (auto simp: ram_env_def ramfs_ops_def split: if_splits)
  show "\<exists>r out st1. c d name t st = Some (r, out, st1) \<and> gives st out st1 \<and> (r \<noteq> 0 \<longrightarrow> out = None)"
    if "op_create (en_ops ram_env k) = Some c" "dirs_ok st" "v_shells st d \<noteq> None" for c
    using that ro_create_gives by (auto simp: ram_env_def ramfs_ops_def split: if_splits)
  show "\<exists>r st1. u d name st = Some (r, st1) \<and> gives st None st1"
    if "op_unlink (en_ops ram_env k) = Some u" "dirs_ok st" "v_shells st d \<noteq> None" for u
    using that ro_unlink_gives by (auto simp: ram_env_def ramfs_ops_def split: if_splits)
  show "gives st None st1" if "op_read (en_ops ram_env k) = Some rd" "dirs_ok st" "rd v off len st = Some (r, bs, st1)" for rd v off len r bs st1
    using that ro_read_gives by (auto simp: ram_env_def ramfs_ops_def split: if_splits)
  show "gives st None st1" if "op_write (en_ops ram_env k) = Some w" "dirs_ok st" "w v off buf st = Some (r, st1)" for w v off buf r st1
    using that ro_write_gives by (auto simp: ram_env_def ramfs_ops_def split: if_splits)
  show "w v 0 [] st \<noteq> None" if "op_write (en_ops ram_env k) = Some w" "v_shells st v \<noteq> None" for w v
    using that ro_truncate by (auto simp: ram_env_def ramfs_ops_def split: if_splits)
  show "\<exists>st1. de v st = Some st1 \<and> gives st None st1"
    if "op_destroy (en_ops ram_env k) = Some de" "dirs_ok st" "v_shells st v = Some s" "sh_refs s = 0" for de v s
    using that ro_destroy_gives by (auto simp: ram_env_def ramfs_ops_def split: if_splits)
  show "\<exists>r st1. en_mount ram_env fn slot st = Some (r, st1) \<and>
        (if r = 0 then \<exists>v. gives (st\<lparr>v_mounts := (v_mounts st)[slot := (v_mounts st ! slot)\<lparr>mo_root := Some v\<rparr>]\<rparr>) (Some v) st1
         else gives st None st1)"
    if "dirs_ok st" "slot < length (v_mounts st)" for fn slot
    using rm_mount_gives [OF that] by (simp add: ram_env_def)
qed

end
