(* ===== verification/Vfs_Claims.thy ===== *)
theory Vfs_Claims
  imports Vfs_Ramfs
begin

text \<open>
  The properties of the virtual file system that users of it rely on. They hold for every
  environment with the contract \<open>file_systems\<close>; the witnesses run them on \<open>ramfs\<close> mounted at the
  root.
\<close>

section \<open>A machine with a root file system\<close>

definition vfs_empty :: "nat list \<Rightarrow> ram_vfs" where
  "vfs_empty heap = \<lparr>v_shells = (\<lambda>_. None),
     v_world = \<lparr>rw_fs = (\<lambda>_. \<lparr>rf_nodes = (\<lambda>_. None), rf_root = 0, rf_next_ino = 0\<rparr>), rw_heap = heap\<rparr>,
     v_fstypes = [], v_mounts = [], v_have_root = False, v_files = (\<lambda>_. None), v_tables = (\<lambda>_. None), v_fds = (\<lambda>_. None)\<rparr>"

definition vfs_booted :: "nat list \<Rightarrow> ram_vfs" where
  "vfs_booted heap = snd (the (vfs_mount ram_env ''ramfs'' ''/'' None 0 0 (snd (vfs_register_fs (Some ''ramfs'') (Some 0) (vfs_empty heap)))))"

lemma booted_ok: "vfs_ok (\<lambda>_. 0) (\<lambda>_. 0) (vfs_booted heap)" "v_files (vfs_booted heap) = (\<lambda>_. None)"
  "v_tables (vfs_booted heap) = (\<lambda>_. None)" "v_fds (vfs_booted heap) = (\<lambda>_. None)"
proof -
  let ?st = "snd (vfs_register_fs (Some ''ramfs'') (Some 0) (vfs_empty heap))"
  have "vfs_ok (\<lambda>_. 0) (\<lambda>_. 0) ?st"
    by (simp add: vfs_register_fs_def vfs_empty_def vfs_ok_def files_ok_def refs_ok_def dirs_ok_def vrefs_def holders_def root_refs_def
        frefs_def slots_def)
  from ram.vfs_mount_ok [OF this, of "''ramfs''" "''/''" None 0 0]
  show "vfs_ok (\<lambda>_. 0) (\<lambda>_. 0) (vfs_booted heap)" "v_files (vfs_booted heap) = (\<lambda>_. None)"
    "v_tables (vfs_booted heap) = (\<lambda>_. None)" "v_fds (vfs_booted heap) = (\<lambda>_. None)"
    unfolding vfs_booted_def by (auto simp: vfs_register_fs_def vfs_empty_def)
qed

lemma booted_sys_ok: "sys_ok (\<lambda>_. 0) (\<lambda>_. 0) (vfs_booted heap)"
  using booted_ok [of heap] by (simp add: sys_ok_def)

section \<open>Opening and the name space\<close>

text \<open>Opening a path below 160 bytes always returns, whatever the file systems answer, and keeps
  the accounts: on success the new file, with the one reference that the caller gets, has taken
  over the reference to its vnode; on every error path all references are given back.\<close>
theorem vfs_open_accounts:
  assumes "file_systems E" and "vfs_ok kv kf st" and "length path < VFS_PATH_MAX"
    and "\<forall>f. fresh = Some f \<longrightarrow> v_files st f = None"
  shows "\<exists>r out st1. vfs_open E fresh path flags st = Some (r, out, st1) \<and> vfs_ok kv (add_ref out kf) st1 \<and>
    (r = 0 \<longleftrightarrow> out \<noteq> None) \<and> (\<forall>f. out = Some f \<longrightarrow> fresh = Some f) \<and> tables_same st st1"
  using file_systems.open_ok [OF assms, of flags] by auto

lemma vfs_open_accounts_witness:
  "\<exists>st1. vfs_open ram_env (Some 9) ''/a'' (O_CREAT OR O_RDWR) (vfs_booted [1, 2, 3, 4, 5, 6]) = Some (0, Some 9, st1) \<and>
    vfs_ok (\<lambda>_. 0) (add_ref (Some 9) (\<lambda>_. 0)) st1"
proof -
  have "map_option fst (vfs_open ram_env (Some 9) ''/a'' (O_CREAT OR O_RDWR) (vfs_booted [1, 2, 3, 4, 5, 6])) = Some 0"
    by code_simp
  then show ?thesis
    using vfs_open_accounts [OF ram.file_systems_axioms booted_ok(1) [of "[1, 2, 3, 4, 5, 6]"], of "''/a''" "Some 9" "O_CREAT OR O_RDWR"]
    by (force simp: booted_ok)
qed

text \<open>Making and removing names and mounting always return and leave the accounts as they were,
  on success and on every error: nothing is leaked and nothing is dropped twice. A mount adds
  one entry to the table on success only.\<close>
theorem vfs_namespace_accounts:
  assumes "file_systems E" and "vfs_ok kv kf st"
  shows "(\<exists>r st1. vfs_mkdir E path st = Some (r, st1) \<and> vfs_ok kv kf st1 \<and> core_same st st1) \<and>
    (\<exists>r st1. vfs_unlink E path st = Some (r, st1) \<and> vfs_ok kv kf st1 \<and> core_same st st1) \<and>
    (length path < VFS_PATH_MAX \<longrightarrow> (\<exists>r st1. vfs_rmdir E path st = Some (r, st1) \<and> vfs_ok kv kf st1 \<and> core_same st st1)) \<and>
    (\<exists>r st1. vfs_mount E fstype path bd lba nsect st = Some (r, st1) \<and> vfs_ok kv kf st1 \<and>
      (if r = 0 then \<exists>m. v_mounts st1 = v_mounts st @ [m] \<and> mo_path m = path \<and> mo_active m else v_mounts st1 = v_mounts st))"
  using file_systems.create_dir_ok [OF assms, of path V_DIR] file_systems.vfs_unlink_ok [OF assms, of path]
    file_systems.rmdir_ok [OF assms, of path] file_systems.vfs_mount_ok [OF assms, of fstype path bd lba nsect]
  unfolding vfs_mkdir_def by blast

lemma vfs_namespace_accounts_witness:
  "(\<exists>st1. vfs_mkdir ram_env ''/d'' (vfs_booted [1, 2, 3, 4, 5, 6]) = Some (0, st1) \<and> vfs_ok (\<lambda>_. 0) (\<lambda>_. 0) st1)"
proof -
  have "map_option fst (vfs_mkdir ram_env ''/d'' (vfs_booted [1, 2, 3, 4, 5, 6])) = Some 0" by code_simp
  then show ?thesis
    using vfs_namespace_accounts [OF ram.file_systems_axioms booted_ok(1) [of "[1, 2, 3, 4, 5, 6]"], of "''/d''"] by auto
qed

text \<open>C22: With \<open>O_CREAT\<close> and \<open>O_EXCL\<close> together an open never succeeds: the check for an existing
  file runs after the file has been made.\<close>
theorem exclusive_create_fails:
  assumes "flags AND O_CREAT \<noteq> 0" and "flags AND O_EXCL \<noteq> 0"
    and "vfs_open E fresh path flags st = Some (r, out, st1)"
  shows "r \<noteq> 0 \<and> out = None"
proof (cases "flags AND O_ACCMODE = 3")
  case True
  with assms(3) show ?thesis by (simp add: vfs_open_def)
next
  case False
  with assms(3) obtain r0 vo st0 where "open_vnode E path flags st = Some (r0, vo, st0)"
    by (auto simp: vfs_open_def bind_eq_Some_conv)
  with False assms show ?thesis by (auto simp: vfs_open_def bind_eq_Some_conv split: if_splits)
qed

lemma exclusive_create_fails_witness:
  "\<exists>r out st1. vfs_open ram_env (Some 9) ''/a'' (O_CREAT OR O_EXCL OR O_RDWR) (vfs_booted [1, 2, 3, 4, 5, 6]) = Some (r, out, st1) \<and>
    r \<noteq> 0 \<and> map_option fst (vfs_resolve ram_env ''/a'' st1) = Some 0"
proof -
  let ?run = "vfs_open ram_env (Some 9) ''/a'' (O_CREAT OR O_EXCL OR O_RDWR) (vfs_booted [1, 2, 3, 4, 5, 6])"
  have "map_option (\<lambda>(r, out, st1). map_option fst (vfs_resolve ram_env ''/a'' st1)) ?run = Some (Some 0)" by code_simp
  then obtain r out st1 where run: "?run = Some (r, out, st1)" "map_option fst (vfs_resolve ram_env ''/a'' st1) = Some 0" by auto
  from exclusive_create_fails [OF _ _ run(1)] run show ?thesis by auto
qed

section \<open>Sequences of calls\<close>

lemma fd_vnode_of_fds: "fd_vnode_of cur fd st = Some (vo, st1) \<Longrightarrow> v_fds st1 = v_fds st"
  by (auto simp: fd_vnode_of_def vfs_fd_get_def bind_eq_Some_conv split: if_splits option.splits)

lemma lost_open: "files_ok (\<lambda>f. count_list lost f) st \<Longrightarrow> f \<in> set lost \<Longrightarrow> v_files st f \<noteq> None"
  by (auto simp: files_ok_def frefs_def count_list_0_iff dest!: spec [of _ f] split: option.splits)


text \<open>A user memory that is one string, and a process that starts, opens a file and forks; its child makes an ioctl
  on the console, and both exit.\<close>

definition line_access :: "u8 list user_access" where
  "line_access = \<lparr>ua_strnlen = (\<lambda>_ n u. if length u \<le> n then int (length u) else - EFAULT),
     ua_in = (\<lambda>_ n u. if n \<le> length u then Some (take n u) else None), ua_out = (\<lambda>_ bs u. Some bs)\<rparr>"

lemma line_access_ok: "access_ok line_access"
  by (auto simp: access_ok_def line_access_def)

definition demo_start :: "ram_vfs \<times> u8 list \<times> uart" where
  "demo_start = (vfs_booted [101, 102, 103, 104, 105, 106], map of_char ''/a'', \<lparr>u_rx = [], u_tx = []\<rparr>)"

definition demo_grant :: "ram_priv grant" where
  "demo_grant = \<lparr>gr_file = Some 13, gr_table = None, gr_std = [None, None, None], gr_console = None\<rparr>"

definition demo_spawned :: ram_vfs where
  "demo_spawned = snd (the (vfs_proc_fds_init ram_env (Some (0, \<lparr>vn_type = V_CHARDEV, vn_priv = 0, vn_ino = 0\<rparr>)) (Some 50)
     [Some 10, Some 11, Some 12] 1 (fst demo_start)))"

definition demo_opened :: ram_vfs where
  "demo_opened = snd (the (sys_open ram_env line_access demo_grant (Some 1) 0 0x42 (map of_char ''/a'') demo_spawned))"

definition demo_forked :: ram_vfs where
  "demo_forked = the (vfs_proc_fds_inherit (Some 51) 2 (Some 1) demo_opened)"

definition demo_looked :: ram_vfs where
  "demo_looked = snd (the (fd_vnode_of (Some 2) (int_fd 0) demo_forked))"

definition demo_one_left :: ram_vfs where
  "demo_one_left = the (vfs_proc_fds_release ram_env 1 demo_looked)"

definition demo_none_left :: ram_vfs where
  "demo_none_left = the (vfs_proc_fds_release ram_env 2 demo_one_left)"

lemma demo_steps:
  "calls ram_env line_access [10] demo_start (demo_looked, snd demo_start)"
  "calls ram_env line_access [10] demo_start (demo_none_left, snd demo_start)"
  "map_option fi_refs (v_files demo_looked 10) = Some 3"
  "map_option fi_refs (v_files demo_forked 13) = Some 2"
  "v_fds demo_none_left = (\<lambda>_. None)"
proof -
  let ?u = "map of_char ''/a'' :: u8 list" and ?con = "\<lparr>u_rx = [], u_tx = []\<rparr>"
  have ok0: "sys_ok (\<lambda>_. 0) (\<lambda>_. 0) (fst demo_start)" by (simp add: demo_start_def booted_sys_ok)
  have empty: "v_files (fst demo_start) = (\<lambda>_. None)" "v_tables (fst demo_start) = (\<lambda>_. None)" "v_fds (fst demo_start) = (\<lambda>_. None)"
    by (simp_all add: demo_start_def booted_ok)
  let ?cd = "Some (0, \<lparr>vn_type = V_CHARDEV, vn_priv = 0, vn_ino = 0\<rparr>) :: ram_priv option"
  have ff: "fresh_files [Some 10, Some 11, Some 12] (fst demo_start)" by (simp add: fresh_files_def empty)
  from ram.fds_init_ok [OF ok0 [unfolded sys_ok_def, THEN conjunct1] _ ff, of "Some 50" ?cd 1] obtain r where
    r: "vfs_proc_fds_init ram_env ?cd (Some 50) [Some 10, Some 11, Some 12] 1 (fst demo_start) = Some (r, demo_spawned)"
      "v_fds demo_spawned = (\<lambda>_. None)(1 \<mapsto> 50)"
    by (auto simp: demo_spawned_def empty simp del: fun_upd_apply)
  have s1: "call ram_env line_access None demo_start (demo_spawned, ?u, ?con)"
    using call.c_spawn [OF _ _ ff _ r(1), of line_access ?u ?con] empty
    by (simp add: demo_start_def)
  have "sys_ok_from 0 (\<lambda>_. 0) (\<lambda>_. 0) demo_spawned"
    using ram.call_ok [OF s1 line_access_ok ok0] by (simp add: ram_env_def)
  then obtain k1 where ok1: "sys_ok ((\<lambda>_. 0)(0 := 0 + k1)) (\<lambda>_. 0) demo_spawned" unfolding sys_ok_from_def by blast
  have "map_option (\<lambda>st. v_files st 13 = None) (Some demo_spawned) = Some True" by code_simp
  then have grant: "grant_ok demo_grant demo_spawned" by (simp add: grant_ok_def demo_grant_def fresh_files_def)
  from ram.sys_open_ok [OF ok1 line_access_ok grant, of 1 0 "0x42" ?u] obtain r2 where
    r2: "sys_open ram_env line_access demo_grant (Some 1) 0 0x42 ?u demo_spawned = Some (r2, demo_opened)"
      "sys_ok_from 0 ((\<lambda>_. 0)(0 := 0 + k1)) (\<lambda>_. 0) demo_opened" "v_fds demo_opened = v_fds demo_spawned"
    by (auto simp: demo_opened_def r(2) ram_env_def)
  have s2: "call ram_env line_access None (demo_spawned, ?u, ?con) (demo_opened, ?u, ?con)" by (rule call.c_open [OF grant r2(1)])
  from r2(2) obtain kv2 where ok2: "sys_ok kv2 (\<lambda>_. 0) demo_opened" unfolding sys_ok_from_def by blast
  have "dom (v_tables demo_opened) = {50}" using ok2 r2(3) r(2) by (simp add: sys_ok_def)
  then have "51 \<notin> dom (v_tables demo_opened)" by simp
  then have new: "v_tables demo_opened 51 = None" by blast
  then have t51: "\<forall>t. Some 51 = Some t \<longrightarrow> v_tables demo_opened t = None" by blast
  from ram.fork_ok [OF ok2 _ t51, of 2 "Some 1"] r2(3) r(2) have r3: "vfs_proc_fds_inherit (Some 51) 2 (Some 1) demo_opened = Some demo_forked"
    "sys_ok kv2 (\<lambda>_. 0) demo_forked" by (auto simp: demo_forked_def)
  have s3: "call ram_env line_access None (demo_opened, ?u, ?con) (demo_forked, ?u, ?con)"
    by (rule call.c_fork [OF _ t51 r3(1)]) (simp add: r2(3) r(2))
  have bind: "Option.bind (Some 1) (v_fds demo_opened) = Some 50" using r2(3) r(2) by simp
  have fds3: "v_fds demo_forked = (\<lambda>_. None)(1 \<mapsto> 50, 2 \<mapsto> 51)"
    using ram.fds_inherit_ok [OF ok2 [unfolded sys_ok_def, THEN conjunct1], of "Some 51" 2 "Some 1"] new r3(1) r2(3) r(2)
    unfolding bind by (auto simp del: fun_upd_apply)
  from ram.fd_vnode_of_ok [OF r3(2), of 2 0] obtain vo kf2 where r6: "fd_vnode_of (Some 2) (int_fd 0) demo_forked = Some (vo, demo_looked)"
    "sys_ok kv2 kf2 demo_looked" by (auto simp: demo_looked_def)
  have fds6: "v_fds demo_looked = v_fds demo_forked"
    by (rule fd_vnode_of_fds [OF r6(1)])
  have "fd_file 2 0 demo_forked = Some 10" by code_simp
  then have s6: "call ram_env line_access (Some 10) (demo_forked, ?u, ?con) (demo_looked, ?u, ?con)"
    using call.c_ioctl [OF r6(1), of ram_env line_access ?u ?con ?u ?con] by simp
  from ram.exit_ok [OF r6(2), of 1] have r4: "vfs_proc_fds_release ram_env 1 demo_looked = Some demo_one_left" "sys_ok kv2 kf2 demo_one_left"
    "v_fds demo_one_left = (v_fds demo_looked)(1 := None)" by (auto simp: demo_one_left_def)
  from ram.exit_ok [OF r4(2), of 2] have r5: "vfs_proc_fds_release ram_env 2 demo_one_left = Some demo_none_left"
    "v_fds demo_none_left = (v_fds demo_one_left)(2 := None)" by (auto simp: demo_none_left_def)
  have s4: "call ram_env line_access None (demo_looked, ?u, ?con) (demo_one_left, ?u, ?con)" by (rule call.c_exit [OF r4(1)])
  have s5: "call ram_env line_access None (demo_one_left, ?u, ?con) (demo_none_left, ?u, ?con)" by (rule call.c_exit [OF r5(1)])
  note then_none = calls_then [where l = None, simplified] and then_some = calls_then [where l = "Some f" for f, simplified]
  from then_some [OF then_none [OF then_none [OF then_none [OF no_call s1] s2] s3] s6]
  have run: "calls ram_env line_access [10] demo_start (demo_looked, ?u, ?con)" .
  from run show "calls ram_env line_access [10] demo_start (demo_looked, snd demo_start)" by (simp add: demo_start_def)
  from then_none [OF then_none [OF run s4] s5]
  show "calls ram_env line_access [10] demo_start (demo_none_left, snd demo_start)" by (simp add: demo_start_def)
  show "map_option fi_refs (v_files demo_looked 10) = Some 3" by code_simp
  show "v_fds demo_none_left = (\<lambda>_. None)" by (simp add: r5(2) r4(3) fds6 fds3 fun_eq_iff)
  show "map_option fi_refs (v_files demo_forked 13) = Some 2" by code_simp
qed




section \<open>What a process can do with a descriptor\<close>

text \<open>C23: A read through a descriptor of a file in memory leaves the file system exactly as it was, the
  offset of the open file included, so the next read returns the same bytes; and a write through
  any descriptor above 2 fails with \<open>-EBADF\<close> and does nothing.\<close>
theorem descriptor_io_limits:
  assumes "sys_ok kv kf st"
  shows "(sys_read ram_env U cur fd a n con u st = Some (r, con1, u1, st1) \<longrightarrow> st1 = st) \<and>
    (2 < fd \<longrightarrow> sys_write ram_env U cur fd a n con u st = Some (- EBADF, con, st))"
proof (intro conjI impI)
  assume run: "sys_read ram_env U cur fd a n con u st = Some (r, con1, u1, st1)"
  show "st1 = st"
  proof (cases "proc_table cur st")
    case None
    with run show ?thesis by (auto simp: sys_read_def Let_def split: if_splits option.splits)
  next
    case (Some t)
    with run obtain fo st0 where g: "vfs_fd_get (Some t) (int_fd fd) st = Some (fo, st0)"
      by (auto simp: sys_read_def Let_def bind_eq_Some_conv)
    show ?thesis
    proof (cases fo)
      case None
      with g have "st0 = st" by (auto simp: vfs_fd_get_def bind_eq_Some_conv split: option.splits if_splits)
      with None run g Some show ?thesis by (auto simp: sys_read_def Let_def)
    next
      case f: (Some f)
      with g obtain x where x: "v_files st f = Some x" "st0 = set_file f (Some (x\<lparr>fi_refs := fi_refs x + 1\<rparr>)) st"
        by (auto simp: vfs_fd_get_def bind_eq_Some_conv split: option.splits if_splits)
      have pos: "0 < fi_refs x" using assms x(1) by (auto simp: sys_ok_def vfs_ok_def files_ok_def)
      have dirs: "dirs_ok st0" using assms x(2) by (simp add: sys_ok_def vfs_ok_def account_simps)
      from run g f Some obtain r2 bs st2 where rd: "f_read ram_env (Some f) (of_nat (min (unat n) IO_CHUNK)) st0 = Some (r2, bs, st2)"
        by (auto simp: sys_read_def Let_def bind_eq_Some_conv)
      then have st2: "st2 = st0"
        using ro_read_gives [OF dirs]
        by (auto simp: f_read_def ram_env_def ramfs_ops_def bind_eq_Some_conv split: if_splits option.splits)
      have "file_close ram_env (Some f) st0 = Some (set_file f (Some x) st0)"
        using pos x(2) by (simp add: file_close_def)
      moreover have "set_file f (Some x) st0 = st" by (simp add: x set_file_def fun_upd_idem)
      ultimately show ?thesis
        using run g f Some rd st2 by (auto simp: sys_read_def Let_def split: if_splits option.splits)
    qed
  qed
next
  assume "2 < fd"
  moreover from this have "fd \<noteq> 1" "fd \<noteq> 2" by auto
  ultimately show "sys_write ram_env U cur fd a n con u st = Some (- EBADF, con, st)" by (simp add: sys_write_def)
qed

lemma descriptor_io_limits_witness:
  "sys_write ram_env line_access (Some 1) 3 0 5 \<lparr>u_rx = [], u_tx = []\<rparr> [] (vfs_booted [1, 2]) =
    Some (- EBADF, \<lparr>u_rx = [], u_tx = []\<rparr>, vfs_booted [1, 2])"
  using descriptor_io_limits [OF booted_sys_ok [of "[1, 2]"], of line_access "Some 1" 3 0 5 "\<lparr>u_rx = [], u_tx = []\<rparr>" "[]"] by simp

end
