(* ===== verification/Ramfs_Props.thy ===== *)
theory Ramfs_Props
  imports Ramfs
begin

text \<open>
  What the in-memory file system promises: a file is a byte string that a write splices into and
  a read takes a piece of; a directory is a finite map from names to nodes; and no shell and no
  directory ever names a node whose memory has been given back, while an unlinked node is kept
  exactly as long as a shell names it.
\<close>

section \<open>File contents\<close>

definition node_wf :: "ram_node \<Rightarrow> bool" where
  "node_wf x \<longleftrightarrow> rn_len x \<le> length (rn_data x) \<and> length (rn_data x) \<le> 262144"

definition content :: "ram_node \<Rightarrow> u8 list" where
  "content x = take (rn_len x) (rn_data x)"

text \<open>The specification of a write: zeroes up to the offset, then the bytes, then what was behind.\<close>

definition spliced :: "nat \<Rightarrow> u8 list \<Rightarrow> u8 list \<Rightarrow> u8 list" where
  "spliced off buf c = take off (c @ replicate (off - length c) 0) @ buf @ drop (off + length buf) c"

lemma grow_cap_bounds: "0 < cap \<Longrightarrow> cap \<le> 262144 \<Longrightarrow> cap \<le> grow_cap want cap \<and> grow_cap want cap \<le> 262144"
proof (induction want cap rule: grow_cap.induct)
  case (1 want cap)
  show ?case
  proof (cases "cap < want \<and> cap < GROW_MAX")
    case True
    then have "grow_cap want cap = grow_cap want (cap * 2)" using 1(2) by (subst grow_cap.simps) simp
    with 1(1) True 1(2) show ?thesis by fastforce
  next
    case False
    then have "grow_cap want cap = cap" by (subst grow_cap.simps) auto
    with 1(3) show ?thesis by simp
  qed
qed

lemma grow_data_ok:
  assumes "node_wf x" and "length (rn_data x) < want" and "want \<le> 262144"
  shows "want \<le> length (grow_data want x)" and "length (grow_data want x) \<le> 262144"
    and "take (rn_len x) (grow_data want x) = content x"
proof -
  define cap0 where "cap0 = (if rn_data x = [] then GROW_MIN else length (rn_data x))"
  define cap where "cap = (if grow_cap want cap0 < want then want else grow_cap want cap0)"
  have "0 < cap0" "cap0 \<le> 262144" using assms by (auto simp: cap0_def node_wf_def)
  from grow_cap_bounds [OF this, of want] have cap: "want \<le> cap" "cap \<le> 262144" using assms(3) by (auto simp: cap_def)
  have g: "grow_data want x = content x @ replicate (cap - rn_len x) 0"
    by (simp add: grow_data_def cap_def cap0_def Let_def content_def)
  have len: "length (content x) = rn_len x" "rn_len x \<le> cap" using assms cap by (auto simp: content_def node_wf_def)
  show "want \<le> length (grow_data want x)" "length (grow_data want x) \<le> 262144" using cap len by (simp_all add: g)
  show "take (rn_len x) (grow_data want x) = content x" using len by (simp add: g)
qed

lemma length_write_at: "off + length buf \<le> length dat \<Longrightarrow> length (write_at off buf dat) = length dat"
  by (simp add: write_at_def)

lemma write_content:
  assumes c: "take l dat = c" and l: "length c = l" and fits: "off + length buf \<le> length dat"
  defines "dat1 \<equiv> (if l < off then write_at l (replicate (off - l) 0) dat else dat)"
  shows "take (max l (off + length buf)) (write_at off buf dat1) = spliced off buf c" and "length (write_at off buf dat1) = length dat"
proof -
  have ld: "length dat1 = length dat" using fits l c by (simp add: dat1_def length_write_at)
  then show "length (write_at off buf dat1) = length dat" using fits by (simp add: length_write_at)
  have t: "take off dat1 = take off (c @ replicate (off - length c) 0)"
    using fits l c [symmetric] by (auto simp: dat1_def write_at_def min_def)
  show "take (max l (off + length buf)) (write_at off buf dat1) = spliced off buf c"
  proof (cases "l \<le> off + length buf")
    case True
    have "length (take off dat1) = off" using fits ld by simp
    then have "take (off + length buf) (write_at off buf dat1) = take off dat1 @ buf" by (simp add: write_at_def)
    with True t l show ?thesis by (simp add: spliced_def max_def)
  next
    case False
    then have "dat1 = dat" "take off dat = take off c" using c by (auto simp: dat1_def min_def)
    then show ?thesis using False c fits by (auto simp: write_at_def spliced_def max_def min_def drop_take)
  qed
qed

lemma unat_sum: "unat (off :: u64) + n \<le> 262144 \<Longrightarrow> unat (off + of_nat n) = unat off + n"
  by (rule unat_add_of_nat) simp

lemma word_le_limit: "unat (w :: u64) \<le> 262144 \<Longrightarrow> \<not> RAMFS_MAX_FILE < w"
  by (simp add: word_less_nat_alt)

lemma of_nat_less_word: "n < 2 ^ 64 \<Longrightarrow> of_nat n < (w :: u64) \<longleftrightarrow> n < unat w"
  by (simp add: word_less_nat_alt unat_of_nat_small)

lemma ramfs_write_ok:
  assumes x: "rf_nodes fs (vn_priv vn) = Some x" and wf: "node_wf x" and f: "vn_type vn = V_FILE"
    and fits: "unat off + length buf \<le> 262144" and nz: "buf \<noteq> [] \<or> off \<noteq> 0"
  shows "\<exists>y. ramfs_write True vn off buf fs = Some (int (length buf), set_node (vn_priv vn) y fs) \<and>
    content y = spliced (unat off) buf (content x) \<and> node_wf y \<and> y = x\<lparr>rn_data := rn_data y, rn_len := rn_len y\<rparr>"
proof -
  let ?want = "unat off + length buf"
  define w where "w = off + of_nat (length buf)"
  have w: "unat w = ?want" using fits unfolding w_def by (rule unat_sum)
  have xn: "node fs (vn_priv vn) = x" using x by (simp add: node_def)
  have small: "rn_len x < 2 ^ 64" "length (rn_data x) < 2 ^ 64" "length buf < 2 ^ 64" using wf fits by (auto simp: node_wf_def)
  have len0: "(of_nat (length buf) :: u64) = 0 \<longleftrightarrow> buf = []" using small(3) by (simp add: word_unat_eq_iff unat_of_nat_small)
  define dat where "dat = (if length (rn_data x) < ?want then grow_data ?want x else rn_data x)"
  have dat: "take (rn_len x) dat = content x" "?want \<le> length dat" "length dat \<le> 262144"
    using grow_data_ok [OF wf, of ?want] fits wf by (auto simp: dat_def content_def node_wf_def)
  define dat1 where "dat1 = (if rn_len x < unat off then write_at (rn_len x) (replicate (unat off - rn_len x) 0) dat else dat)"
  define y where "y = x\<lparr>rn_data := write_at (unat off) buf dat1, rn_len := max (rn_len x) ?want\<rparr>"
  have cl: "length (content x) = rn_len x" using wf by (simp add: content_def node_wf_def)
  note wc = write_content [OF dat(1) cl dat(2), folded dat1_def]
  have maxe: "(if rn_len x < ?want then ?want else rn_len x) = max (rn_len x) ?want" by simp
  have "ramfs_write True vn off buf fs = Some (int (length buf), set_node (vn_priv vn) y fs)"
    using f nz len0 dat(2) word_le_limit [of w] fits w
    unfolding ramfs_write_def Let_def xn w_def [symmetric] of_nat_less_word [OF small(1)] of_nat_less_word [OF small(2)] w
      dat_def [symmetric] dat1_def [symmetric] maxe y_def by auto
  moreover have "content y = spliced (unat off) buf (content x)" using wc(1) by (simp add: y_def content_def)
  moreover have "rn_len x \<le> length dat" using arg_cong [OF dat(1), of length] cl by simp
  then have "node_wf y" using wc(2) dat by (simp add: y_def node_wf_def)
  ultimately show ?thesis by (auto simp: y_def)
qed

lemma ramfs_read_ok:
  assumes x: "rf_nodes fs (vn_priv vn) = Some x" and wf: "node_wf x" and f: "vn_type vn = V_FILE"
    and nowrap: "unat off + unat len < 2 ^ 64"
  shows "ramfs_read vn off len fs =
    Some (int (length (take (unat len) (drop (unat off) (content x)))), take (unat len) (drop (unat off) (content x)))"
proof -
  have xn: "node fs (vn_priv vn) = x" using x by (simp add: node_def)
  have small: "rn_len x < 2 ^ 64" using wf by (auto simp: node_wf_def)
  let ?fl = "of_nat (rn_len x) :: u64"
  have fl: "unat ?fl = rn_len x" using small by (simp add: unat_of_nat_small)
  have sum: "unat (off + len) = unat off + unat len" using nowrap by (simp add: unat_add_small)
  show ?thesis
  proof (cases "rn_len x \<le> unat off")
    case True
    then have "?fl \<le> off" using fl by (simp add: word_le_nat_alt)
    then show ?thesis using True f by (simp add: ramfs_read_def xn Let_def content_def)
  next
    case False
    then have nle: "\<not> ?fl \<le> off" using fl by (simp add: word_le_nat_alt)
    define n where "n = (if ?fl < off + len then ?fl - off else len)"
    have n: "unat n = min (unat len) (rn_len x - unat off)"
      using False fl sum by (auto simp: n_def word_less_nat_alt unat_sub word_le_nat_alt)
    have "unat off + unat n \<le> length (rn_data x)" using n False wf by (auto simp: node_wf_def)
    then have "ramfs_read vn off len fs = Some (int (unat n), take (unat n) (drop (unat off) (rn_data x)))"
      using f nle unfolding ramfs_read_def Let_def xn n_def [symmetric] by auto
    moreover have "take (unat n) (drop (unat off) (rn_data x)) = take (unat len) (drop (unat off) (content x))"
      using n by (simp add: content_def drop_take take_take)
    moreover have "length (take (unat len) (drop (unat off) (content x))) = unat n"
      using n wf by (simp add: content_def node_wf_def)
    ultimately show ?thesis by simp
  qed
qed

section \<open>Shells, directories and nodes\<close>

abbreviation live :: "node_id \<Rightarrow> vnode list \<Rightarrow> nat" where
  "live n sh \<equiv> length (filter (\<lambda>v. vn_priv v = n) sh)"

text \<open>The invariant of a file system and the shells that the rest of the kernel holds.\<close>

definition child_ok :: "ram_fs \<Rightarrow> node_id \<Rightarrow> node_id \<Rightarrow> bool" where
  "child_ok fs d c \<longleftrightarrow> c \<noteq> d \<and> (\<exists>y. rf_nodes fs c = Some y \<and> \<not> rn_orphan y \<and> rn_parent y = Some d)"

definition node_ok :: "ram_fs \<Rightarrow> vnode list \<Rightarrow> node_id \<Rightarrow> ram_node \<Rightarrow> bool" where
  "node_ok fs sh n x \<longleftrightarrow> node_wf x \<and> rn_vn_live x = live n sh \<and> (rn_orphan x \<longrightarrow> 0 < live n sh) \<and>
     distinct (rn_children x) \<and> distinct (map (\<lambda>c. rn_name (node fs c)) (rn_children x)) \<and>
     (\<forall>c \<in> set (rn_children x). child_ok fs n c)"

definition fs_ok :: "ram_fs \<Rightarrow> vnode list \<Rightarrow> bool" where
  "fs_ok fs sh \<longleftrightarrow> (\<forall>v \<in> set sh. rf_nodes fs (vn_priv v) \<noteq> None) \<and>
     (\<forall>n x. rf_nodes fs n = Some x \<longrightarrow> node_ok fs sh n x) \<and>
     (\<exists>x. rf_nodes fs (rf_root fs) = Some x \<and> \<not> rn_orphan x \<and> rn_parent x = None)"

lemma set_node_simps [simp]:
  "rf_nodes (set_node n x fs) = (rf_nodes fs)(n \<mapsto> x)" "rf_root (set_node n x fs) = rf_root fs"
  "node (set_node n x fs) m = (if m = n then x else node fs m)"
  "rf_nodes (free_node n fs) = (rf_nodes fs)(n := None)" "rf_root (free_node n fs) = rf_root fs"
  by (simp_all add: set_node_def free_node_def node_def)

lemma node_free [simp]: "m \<noteq> n \<Longrightarrow> node (free_node n fs) m = node fs m"
  by (simp add: free_node_def node_def)

lemma fs_okD:
  assumes "fs_ok fs sh" and "rf_nodes fs n = Some x"
  shows "node_wf x" and "rn_vn_live x = live n sh" and "rn_orphan x \<Longrightarrow> 0 < live n sh" and "distinct (rn_children x)"
    and "distinct (map (\<lambda>c. rn_name (node fs c)) (rn_children x))" and "c \<in> set (rn_children x) \<Longrightarrow> child_ok fs n c"
    and "node fs n = x"
  using assms by (auto simp: fs_ok_def node_ok_def node_def)

lemma shell_node: "fs_ok fs sh \<Longrightarrow> v \<in> set sh \<Longrightarrow> \<exists>x. rf_nodes fs (vn_priv v) = Some x \<and> node fs (vn_priv v) = x"
  by (auto simp: fs_ok_def node_def)

text \<open>Changing one node in its data or its shell count, with the shells changing along.\<close>

lemma fs_ok_change:
  assumes ok: "fs_ok fs sh" and n: "rf_nodes fs n = Some x"
    and y: "rn_name y = rn_name x" "rn_children y = rn_children x" "rn_parent y = rn_parent x" "rn_orphan y = rn_orphan x"
    and wf: "node_wf y" and l: "rn_vn_live y = live n sh'" "rn_orphan y \<Longrightarrow> 0 < live n sh'"
    and sh: "\<And>m. m \<noteq> n \<Longrightarrow> live m sh' = live m sh" "\<And>v. v \<in> set sh' \<Longrightarrow> vn_priv v = n \<or> v \<in> set sh"
  shows "fs_ok (set_node n y fs) sh'"
proof -
  have names: "rn_name (node (set_node n y fs) c) = rn_name (node fs c)" for c using y(1) n by (simp add: node_def)
  have child: "child_ok fs d c \<Longrightarrow> child_ok (set_node n y fs) d c" for d c using y n by (auto simp: child_ok_def)
  have "node_ok (set_node n y fs) sh' m z" if "rf_nodes (set_node n y fs) m = Some z" for m z
  proof (cases "m = n")
    case True
    then show ?thesis using that fs_okD [OF ok n] wf l y child unfolding node_ok_def names by auto
  next
    case False
    then have "rf_nodes fs m = Some z" using that by simp
    from fs_okD [OF ok this] False show ?thesis using sh(1) child unfolding node_ok_def names by auto
  qed
  moreover have "\<exists>z. rf_nodes (set_node n y fs) (rf_root (set_node n y fs)) = Some z \<and> \<not> rn_orphan z \<and> rn_parent z = None"
    using ok n y(3,4) by (auto simp: fs_ok_def)
  ultimately show ?thesis using ok sh(2) by (fastforce simp: fs_ok_def)
qed

lemma shell_make_ok:
  assumes ok: "fs_ok fs sh" and n: "rf_nodes fs n = Some x" and m: "shell_make mem n fs = (r, fs')"
  shows "fs_ok fs' (case r of None \<Rightarrow> sh | Some v \<Rightarrow> v # sh)" and "r = Some v \<Longrightarrow> vn_priv v = n"
proof -
  have x: "node fs n = x" using n by (simp add: node_def)
  show "r = Some v \<Longrightarrow> vn_priv v = n" using m by (auto simp: shell_make_def split: if_splits)
  show "fs_ok fs' (case r of None \<Rightarrow> sh | Some v \<Rightarrow> v # sh)"
  proof (cases mem)
    case True
    then obtain v where r: "r = Some v" "vn_priv v = n" and fs': "fs' = set_node n (x\<lparr>rn_vn_live := rn_vn_live x + 1\<rparr>) fs"
      using m x by (auto simp: shell_make_def)
    show ?thesis unfolding r(1) fs' option.case
      by (rule fs_ok_change [OF ok n]) (use fs_okD [OF ok n] r(2) in \<open>auto simp: node_wf_def\<close>)
  qed (use m ok in \<open>auto simp: shell_make_def\<close>)
qed

lemma live_pos: "v \<in> set sh \<Longrightarrow> 0 < live (vn_priv v) sh"
  by (induction sh) auto

lemma live_remove1: "v \<in> set sh \<Longrightarrow> live n (remove1 v sh) = (if vn_priv v = n then live n sh - 1 else live n sh)"
proof (induction sh)
  case (Cons w sh)
  then show ?case using live_pos [of v sh] by auto
qed simp

lemma destroy_ok:
  assumes ok: "fs_ok fs sh" and v: "v \<in> set sh"
  shows "fs_ok (ramfs_destroy v fs) (remove1 v sh)"
proof -
  let ?n = "vn_priv v"
  obtain x where x: "rf_nodes fs ?n = Some x" "node fs ?n = x" using shell_node [OF ok v] by blast
  let ?y = "x\<lparr>rn_vn_live := rn_vn_live x - 1\<rparr>"
  have lv: "rn_vn_live ?y = live ?n (remove1 v sh)" using fs_okD(2) [OF ok x(1)] v by (simp add: live_remove1)
  show ?thesis
  proof (cases "rn_vn_live ?y = 0 \<and> rn_orphan x")
    case False
    then have "ramfs_destroy v fs = set_node ?n ?y fs" using x by (auto simp: ramfs_destroy_def Let_def)
    moreover have "fs_ok (set_node ?n ?y fs) (remove1 v sh)"
      by (rule fs_ok_change [OF ok x(1)])
        (use fs_okD [OF ok x(1)] lv False v live_remove1 [OF v] in \<open>auto simp: node_wf_def dest: notin_set_remove1\<close>)
    ultimately show ?thesis by simp
  next
    case True
    then have fs': "ramfs_destroy v fs = free_node ?n fs" using x by (auto simp: ramfs_destroy_def Let_def)
    have none: "vn_priv w \<noteq> ?n" if "w \<in> set (remove1 v sh)" for w using True lv that live_pos [OF that] by auto
    have notchild: "c \<noteq> ?n" if "rf_nodes fs m = Some z" "c \<in> set (rn_children z)" for m z c
      using fs_okD(6) [OF ok that] True x by (auto simp: child_ok_def)
    have "node_ok (free_node ?n fs) (remove1 v sh) m z" if "rf_nodes fs m = Some z" "m \<noteq> ?n" for m z
    proof -
      have e: "map (\<lambda>c. rn_name (node (free_node ?n fs) c)) (rn_children z) = map (\<lambda>c. rn_name (node fs c)) (rn_children z)"
        using notchild [OF that(1)] by simp
      have "distinct (map (\<lambda>c. rn_name (node (free_node ?n fs) c)) (rn_children z))"
        unfolding e by (rule fs_okD(5) [OF ok that(1)])
      moreover have "\<forall>c \<in> set (rn_children z). child_ok (free_node ?n fs) m c"
        using fs_okD(6) [OF ok that(1)] notchild [OF that(1)] by (auto simp: child_ok_def)
      ultimately show ?thesis using fs_okD [OF ok that(1)] that(2) live_remove1 [OF v, of m] unfolding node_ok_def by auto
    qed
    moreover have "rf_root fs \<noteq> ?n" using ok True x by (auto simp: fs_ok_def)
    moreover have "rf_nodes fs (vn_priv w) \<noteq> None" if "w \<in> set (remove1 v sh)" for w
      using ok that notin_set_remove1 by (fastforce simp: fs_ok_def)
    ultimately show ?thesis using ok none unfolding fs' fs_ok_def by (auto split: if_splits)
  qed
qed

lemma lookup_ok:
  assumes ok: "fs_ok fs sh" and v: "v \<in> set sh" and l: "ramfs_lookup mem v name fs = (r, vo, fs')"
  shows "fs_ok fs' (case vo of None \<Rightarrow> sh | Some w \<Rightarrow> w # sh)"
proof -
  obtain x where x: "rf_nodes fs (vn_priv v) = Some x" "node fs (vn_priv v) = x" using shell_node [OF ok v] by blast
  show ?thesis
  proof (cases "name = [] \<or> find_child fs (vn_priv v) name = None")
    case True
    then show ?thesis using l ok by (auto simp: ramfs_lookup_def split: if_splits)
  next
    case False
    then obtain c where c: "find_child fs (vn_priv v) name = Some c" by blast
    then have "c \<in> set (rn_children x)" using x(2) by (auto simp: find_child_def find_Some_iff)
    then obtain y where "rf_nodes fs c = Some y" using fs_okD(6) [OF ok x(1)] by (auto simp: child_ok_def)
    moreover have "shell_make mem c fs = (vo, fs')" using l c False by (auto simp: ramfs_lookup_def split: prod.splits)
    ultimately show ?thesis using shell_make_ok [OF ok] by blast
  qed
qed

lemma find_child_None: "find_child fs d name = None \<longleftrightarrow> name \<notin> (\<lambda>c. rn_name (node fs c)) ` set (rn_children (node fs d))"
  by (auto simp: find_child_def find_None_iff)

text \<open>Linking a new node in front of the children of a directory.\<close>

lemma link_ok:
  assumes ok: "fs_ok fs sh" and d: "rf_nodes fs d = Some x" and fresh: "rf_nodes fs n = None"
    and new: "find_child fs d name = None"
    and y: "y = \<lparr>rn_name = name, rn_type = t, rn_children = [], rn_parent = Some d, rn_data = [], rn_len = 0,
                  rn_ino = ino, rn_orphan = False, rn_vn_live = 0\<rparr>"
    and fs1: "fs1 = set_node d (x\<lparr>rn_children := n # rn_children x\<rparr>) (set_node n y (fs\<lparr>rf_next_ino := i\<rparr>))"
  shows "fs_ok fs1 sh"
proof -
  have nodes: "rf_nodes fs1 = (rf_nodes fs)(n \<mapsto> y, d \<mapsto> x\<lparr>rn_children := n # rn_children x\<rparr>)"
    by (simp add: fs1 set_node_def)
  have nd: "n \<noteq> d" using fresh d by auto
  have noshell: "live n sh = 0" using ok fresh by (auto simp: fs_ok_def filter_empty_conv)
  have name: "rn_name (node fs1 c) = rn_name (node fs c)" if "c \<noteq> n" for c using that d by (simp add: node_def nodes)
  have child: "child_ok fs e c \<Longrightarrow> child_ok fs1 e c" for e c using fresh d nd by (auto simp: child_ok_def nodes)
  have notn: "c \<noteq> n" if "rf_nodes fs m = Some z" "c \<in> set (rn_children z)" for m z c
    using fs_okD(6) [OF ok that] fresh by (auto simp: child_ok_def)
  have names: "map (\<lambda>c. rn_name (node fs1 c)) (rn_children z) = map (\<lambda>c. rn_name (node fs c)) (rn_children z)"
    if "rf_nodes fs m = Some z" for m z using notn [OF that] name by simp
  have other: "node_ok fs1 sh m z" if "rf_nodes fs m = Some z" "m \<noteq> d" for m z
    using fs_okD [OF ok that(1)] child unfolding node_ok_def names [OF that(1)] by auto
  have dir: "node_ok fs1 sh d (x\<lparr>rn_children := n # rn_children x\<rparr>)"
  proof -
    have "rn_name (node fs1 n) = name" using nd by (simp add: node_def nodes y)
    moreover have "name \<notin> set (map (\<lambda>c. rn_name (node fs c)) (rn_children x))" using new d by (simp add: find_child_None node_def)
    ultimately have "distinct (map (\<lambda>c. rn_name (node fs1 c)) (n # rn_children x))"
      using fs_okD(5) [OF ok d] by (simp only: list.map distinct.simps names [OF d] simp_thms)
    moreover have "distinct (n # rn_children x)" using fs_okD(4) [OF ok d] notn [OF d] by auto
    moreover have "child_ok fs1 d n" using nd by (simp add: child_ok_def nodes y)
    ultimately show ?thesis using fs_okD [OF ok d] child unfolding node_ok_def by (auto simp: node_wf_def)
  qed
  have "node_ok fs1 sh n y" using noshell by (simp add: node_ok_def y node_wf_def)
  with other dir have "node_ok fs1 sh m z" if "rf_nodes fs1 m = Some z" for m z
    using that nd by (auto simp: nodes split: if_splits)
  moreover have "rf_root fs1 = rf_root fs" by (simp add: fs1 set_node_def)
  ultimately show ?thesis using ok d fresh unfolding fs_ok_def by (auto simp: nodes)
qed

lemma create_ok:
  assumes ok: "fs_ok fs sh" and v: "v \<in> set sh" and fresh: "\<And>n. fresh = Some n \<Longrightarrow> rf_nodes fs n = None"
    and c: "ramfs_create fresh mem v name t fs = (r, vo, fs')"
  shows "fs_ok fs' (case vo of None \<Rightarrow> sh | Some w \<Rightarrow> w # sh)"
proof -
  obtain x where x: "rf_nodes fs (vn_priv v) = Some x" "node fs (vn_priv v) = x" using shell_node [OF ok v] by blast
  show ?thesis
  proof (cases "VFS_NAME_MAX \<le> length name \<or> fresh = None \<or> find_child fs (vn_priv v) name \<noteq> None")
    case True
    then show ?thesis using c ok by (auto simp: ramfs_create_def Let_def split: option.splits if_splits)
  next
    case False
    then obtain n where n: "fresh = Some n" by auto
    let ?y = "\<lparr>rn_name = name, rn_type = t, rn_children = [], rn_parent = Some (vn_priv v), rn_data = [], rn_len = 0,
                  rn_ino = rf_next_ino fs + 1, rn_orphan = False, rn_vn_live = 0\<rparr>"
    define fs1 where "fs1 = set_node (vn_priv v) (x\<lparr>rn_children := n # rn_children x\<rparr>) (set_node n ?y (fs\<lparr>rf_next_ino := rf_next_ino fs + 1\<rparr>))"
    have ok1: "fs_ok fs1 sh" by (rule link_ok [OF ok x(1) fresh [OF n] _ refl fs1_def]) (use False in blast)
    have "rf_nodes fs1 n = Some ?y" using fresh [OF n] x by (auto simp: fs1_def set_node_def)
    moreover have "shell_make mem n fs1 = (vo, fs')" using c False n x
      by (auto simp: ramfs_create_def Let_def fs1_def split: prod.splits)
    ultimately show ?thesis using shell_make_ok [OF ok1] by blast
  qed
qed

text \<open>Taking a child out of its directory and marking it unlinked.\<close>

lemma detach_ok:
  assumes ok: "fs_ok fs sh" and d: "rf_nodes fs d = Some x" and c: "c \<in> set (rn_children x)"
    and y: "rf_nodes fs c = Some y"
    and fs1: "fs1 = set_node c (y\<lparr>rn_parent := None, rn_orphan := True\<rparr>) (set_node d (x\<lparr>rn_children := remove1 c (rn_children x)\<rparr>) fs)"
  shows "fs_ok (drop_node c fs1) sh"
proof -
  let ?y = "y\<lparr>rn_parent := None, rn_orphan := True\<rparr>" and ?x = "x\<lparr>rn_children := remove1 c (rn_children x)\<rparr>"
  have nodes: "rf_nodes fs1 = (rf_nodes fs)(d \<mapsto> ?x, c \<mapsto> ?y)" by (simp add: fs1)
  have yp: "rn_parent y = Some d" and dc: "d \<noteq> c" using fs_okD(6) [OF ok d c] y by (auto simp: child_ok_def)
  have root: "c \<noteq> rf_root fs" using ok y yp by (auto simp: fs_ok_def)
  have name: "rn_name (node fs1 e) = rn_name (node fs e)" for e using d y by (simp add: node_def nodes)
  have child: "child_ok fs1 m e" if "child_ok fs m e" "e \<noteq> c" for m e using that d by (auto simp: child_ok_def nodes)
  have notc: "e \<noteq> c" if "rf_nodes fs m = Some z" "e \<in> set (rn_children z)" "m \<noteq> d" for m z e
    using fs_okD(6) [OF ok that(1,2)] y yp that(3) by (auto simp: child_ok_def)
  have others: "node_wf z \<and> rn_vn_live z = live m sh \<and> distinct (rn_children z) \<and>
      distinct (map (\<lambda>e. rn_name (node fs1 e)) (rn_children z)) \<and> (\<forall>e \<in> set (rn_children z). child_ok fs1 m e \<and> e \<noteq> c)"
    if "rf_nodes fs m = Some z" "m \<noteq> d" for m z
    using fs_okD [OF ok that(1)] child notc [OF that(1) _ that(2)] unfolding name by auto
  have dir: "node_ok fs1 sh d ?x" "c \<notin> set (rn_children ?x)"
    using fs_okD [OF ok d] child unfolding node_ok_def name by (auto simp: node_wf_def distinct_remove1 distinct_map inj_on_def)
  have rest: "node_ok fs1 sh m z" if "rf_nodes fs1 m = Some z" "m \<noteq> c" for m z
    using that dc dir others [of m z] fs_okD(3) [OF ok, of m z] by (auto simp: nodes node_ok_def split: if_splits)
  have kids: "e \<noteq> c" if "rf_nodes fs1 m = Some z" "m \<noteq> c" "e \<in> set (rn_children z)" for m z e
    using that dc dir(2) others [of m z] by (auto simp: nodes split: if_splits)
  have rt: "rf_root fs1 = rf_root fs" "\<exists>z. rf_nodes fs1 (rf_root fs) = Some z \<and> \<not> rn_orphan z \<and> rn_parent z = None"
    using ok root d by (auto simp: fs_ok_def nodes fs1)
  have sh: "rf_nodes fs1 (vn_priv w) \<noteq> None" if "w \<in> set sh" for w using ok that by (auto simp: fs_ok_def nodes)
  show ?thesis
  proof (cases "live c sh = 0")
    case False
    then have "drop_node c fs1 = fs1" using fs_okD(2) [OF ok y] by (simp add: drop_node_def node_def nodes)
    moreover have "node_ok fs1 sh c ?y" using others [OF y dc [symmetric]] False by (auto simp: node_ok_def node_wf_def)
    ultimately show ?thesis using rest rt sh y by (auto simp: fs_ok_def nodes)
  next
    case True
    then have fr: "drop_node c fs1 = free_node c fs1" using fs_okD(2) [OF ok y] by (simp add: drop_node_def node_def nodes)
    have "node_ok (free_node c fs1) sh m z" if z: "rf_nodes fs1 m = Some z" "m \<noteq> c" for m z
    proof -
      have e: "map (\<lambda>e. rn_name (node (free_node c fs1) e)) (rn_children z) = map (\<lambda>e. rn_name (node fs1 e)) (rn_children z)"
        using kids [OF z] by simp
      have "\<forall>e \<in> set (rn_children z). child_ok fs1 m e \<longrightarrow> child_ok (free_node c fs1) m e"
        using kids [OF z] by (auto simp: child_ok_def)
      then show ?thesis using rest [OF z] unfolding node_ok_def e by blast
    qed
    moreover have "vn_priv w \<noteq> c" if "w \<in> set sh" for w using True live_pos [OF that] by auto
    ultimately show ?thesis using rt sh root unfolding fr fs_ok_def by (auto split: if_splits)
  qed
qed

lemma unlink_ok:
  assumes ok: "fs_ok fs sh" and v: "v \<in> set sh" and u: "ramfs_unlink v name fs = (r, fs')"
  shows "fs_ok fs' sh"
proof -
  obtain x where x: "rf_nodes fs (vn_priv v) = Some x" "node fs (vn_priv v) = x" using shell_node [OF ok v] by blast
  show ?thesis
  proof (cases "find_child fs (vn_priv v) name")
    case (Some c)
    then have c: "c \<in> set (rn_children x)" using x(2) by (auto simp: find_child_def find_Some_iff)
    then obtain y where y: "rf_nodes fs c = Some y" "c \<noteq> vn_priv v" using fs_okD(6) [OF ok x(1)] by (auto simp: child_ok_def)
    have yn: "node fs c = y" using y by (simp add: node_def)
    show ?thesis using detach_ok [OF ok x(1) c y(1) refl] ok y(2) u by (auto simp: ramfs_unlink_def Some x(2) yn Let_def split: if_splits)
  qed (use ok u in \<open>simp add: ramfs_unlink_def\<close>)
qed

lemma write_memory:
  assumes "ramfs_write mem vn off buf fs = Some (r, fs')"
  shows "fs' = fs \<or> ramfs_write True vn off buf fs = Some (r, fs')"
proof (cases mem)
  case False
  then show ?thesis using assms unfolding ramfs_write_def Let_def by (auto split: if_splits)
qed (use assms in simp)

lemma write_ok:
  assumes ok: "fs_ok fs sh" and v: "v \<in> set sh" and nowrap: "unat off + length buf < 2 ^ 64"
    and w: "ramfs_write mem v off buf fs = Some (r, fs')"
  shows "fs_ok fs' sh"
proof -
  obtain x where x: "rf_nodes fs (vn_priv v) = Some x" "node fs (vn_priv v) = x" using shell_node [OF ok v] by blast
  have wf: "node_wf x" by (rule fs_okD(1) [OF ok x(1)])
  have keep: "fs_ok (set_node (vn_priv v) (x\<lparr>rn_data := dt, rn_len := l\<rparr>) fs) sh" if "node_wf (x\<lparr>rn_data := dt, rn_len := l\<rparr>)" for dt l
    by (rule fs_ok_change [OF ok x(1) _ _ _ _ that]) (use fs_okD [OF ok x(1)] in auto)
  have sum: "unat (off + of_nat (length buf)) = unat off + length buf" using nowrap by (intro unat_add_of_nat) simp
  have l0: "(of_nat (length buf) :: u64) = 0 \<longleftrightarrow> buf = []" using nowrap by (simp add: word_unat_eq_iff unat_of_nat_small)
  consider "fs' = fs" | "buf = []" "off = 0" "vn_type v = V_FILE" | "unat off + length buf \<le> 262144" "buf \<noteq> [] \<or> off \<noteq> 0" "vn_type v = V_FILE"
  proof (cases "vn_type v \<noteq> V_FILE \<or> (\<not> (buf = [] \<and> off = 0) \<and> RAMFS_MAX_FILE < off + of_nat (length buf))")
    case True
    then show ?thesis using w l0 that(1) unfolding ramfs_write_def Let_def by (auto split: if_splits)
  next
    case False
    then show ?thesis using that(2,3) sum by (cases "buf = [] \<and> off = 0") (auto simp: word_less_nat_alt not_less)
  qed
  then show ?thesis
  proof cases
    case 2
    then have "fs' = set_node (vn_priv v) (x\<lparr>rn_data := rn_data x, rn_len := 0\<rparr>) fs" using w x(2) by (simp add: ramfs_write_def Let_def)
    then show ?thesis using keep [where dt = "rn_data x" and l = 0] wf by (simp add: node_wf_def)
  next
    case 3
    from ramfs_write_ok [OF x(1) wf 3(3,1,2)] obtain y where
      y: "ramfs_write True v off buf fs = Some (int (length buf), set_node (vn_priv v) y fs)" "node_wf y" "y = x\<lparr>rn_data := rn_data y, rn_len := rn_len y\<rparr>"
      by blast
    from write_memory [OF w] y(1) have "fs' = fs \<or> fs' = set_node (vn_priv v) y fs" by auto
    then show ?thesis using ok keep [where dt = "rn_data y" and l = "rn_len y"] y(2,3) by auto
  qed (simp add: ok)
qed

section \<open>Reachable file systems\<close>

text \<open>The rest of the kernel holds shells, calls the operations on shells that it holds, and gives
  shells back. Reading, listing and attribute calls change nothing.\<close>

inductive ramfs_step :: "ram_fs \<times> vnode list \<Rightarrow> ram_fs \<times> vnode list \<Rightarrow> bool" where
  lookup: "v \<in> set sh \<Longrightarrow> ramfs_lookup mem v name fs = (r, vo, fs') \<Longrightarrow>
    ramfs_step (fs, sh) (fs', case vo of None \<Rightarrow> sh | Some w \<Rightarrow> w # sh)"
| create: "v \<in> set sh \<Longrightarrow> (\<And>n. fresh = Some n \<Longrightarrow> rf_nodes fs n = None) \<Longrightarrow> ramfs_create fresh mem v name t fs = (r, vo, fs') \<Longrightarrow>
    ramfs_step (fs, sh) (fs', case vo of None \<Rightarrow> sh | Some w \<Rightarrow> w # sh)"
| unlink: "v \<in> set sh \<Longrightarrow> ramfs_unlink v name fs = (r, fs') \<Longrightarrow> ramfs_step (fs, sh) (fs', sh)"
| "write": "v \<in> set sh \<Longrightarrow> unat off + length buf < 2 ^ 64 \<Longrightarrow> ramfs_write mem v off buf fs = Some (r, fs') \<Longrightarrow>
    ramfs_step (fs, sh) (fs', sh)"
| destroy: "v \<in> set sh \<Longrightarrow> ramfs_step (fs, sh) (ramfs_destroy v fs, remove1 v sh)"

inductive_cases ramfs_stepE: "ramfs_step (fs, sh) s'"

lemma step_fs_ok: "ramfs_step (fs, sh) (fs', sh') \<Longrightarrow> fs_ok fs sh \<Longrightarrow> fs_ok fs' sh'"
  by (erule ramfs_stepE) (auto intro: lookup_ok create_ok write_ok destroy_ok unlink_ok)

lemma mount_ok: "ramfs_mount fresh mem = (0, Some (v, fs)) \<Longrightarrow> fs_ok fs [v] \<and> vn_priv v = rf_root fs"
  by (auto simp: ramfs_mount_def shell_make_def Let_def fs_ok_def node_ok_def node_wf_def node_def split: option.splits if_splits)

lemma reachable_fs_ok: "ramfs_step\<^sup>*\<^sup>* (fs0, [v]) s \<Longrightarrow> ramfs_mount fresh mem = (0, Some (v, fs0)) \<Longrightarrow> fs_ok (fst s) (snd s)"
proof (induction rule: rtranclp_induct)
  case base
  then show ?case using mount_ok by simp
next
  case (step s s')
  then show ?case using step_fs_ok [of "fst s" "snd s" "fst s'" "snd s'"] by simp
qed

section \<open>Directories are maps\<close>

lemma find_remove1:
  "distinct (map f xs) \<Longrightarrow> c \<in> set xs \<Longrightarrow>
    find (\<lambda>e. f e = nm) (remove1 c xs) = (if nm = f c then None else find (\<lambda>e. f e = nm) xs)"
proof (induction xs)
  case (Cons a xs)
  show ?case
  proof (cases "c = a")
    case True
    have "find (\<lambda>e. f e = f a) xs = None" using Cons.prems(1) by (auto simp: find_None_iff image_iff)
    with True show ?thesis by auto
  next
    case False
    then have "f a \<noteq> f c" using Cons.prems by auto
    with False Cons show ?thesis by auto
  qed
qed simp

lemma find_cong_names: "(\<And>e. e \<in> set xs \<Longrightarrow> f e = g e) \<Longrightarrow> find (\<lambda>e. f e = nm) xs = find (\<lambda>e. g e = nm) xs"
  by (induction xs) auto

text \<open>The whole outcome of a creation, by the name, the memory and the directory.\<close>

lemma create_map:
  assumes ok: "fs_ok fs sh" and v: "v \<in> set sh" and fresh: "\<forall>n. new = Some n \<longrightarrow> rf_nodes fs n = None"
    and c: "ramfs_create new mem v name t fs = (r, w, fs')"
  shows "if VFS_NAME_MAX \<le> length name then r = - ENAMETOOLONG \<and> w = None \<and> fs' = fs
    else case new of
      None \<Rightarrow> r = - ENOMEM \<and> w = None \<and> fs' = fs
    | Some n \<Rightarrow>
        if find_child fs (vn_priv v) name \<noteq> None then r = - EEXIST \<and> w = None \<and> fs' = fs
        else find_child fs' (vn_priv v) = (find_child fs (vn_priv v))(name \<mapsto> n) \<and>
          (\<forall>e. e \<noteq> vn_priv v \<and> rf_nodes fs e \<noteq> None \<longrightarrow> find_child fs' e = find_child fs e) \<and>
          (if mem then r = 0 \<and> map_option vn_priv w = Some n else r = - ENOMEM \<and> w = None)"
proof (cases "VFS_NAME_MAX \<le> length name \<or> new = None \<or> find_child fs (vn_priv v) name \<noteq> None")
  case True
  with c show ?thesis by (cases new) (auto simp: ramfs_create_def Let_def split: if_splits)
next
  case False
  then obtain n where n: "new = Some n" "rf_nodes fs n = None" "\<not> VFS_NAME_MAX \<le> length name" "find_child fs (vn_priv v) name = None"
    using fresh by auto
  let ?d = "vn_priv v"
  obtain x where x: "rf_nodes fs ?d = Some x" "node fs ?d = x" using shell_node [OF ok v] by blast
  have nd: "n \<noteq> ?d" using n(2) x by auto
  have kids: "rn_children (node fs' ?d) = n # rn_children x" "rn_name (node fs' n) = name"
    "\<And>e. e \<noteq> n \<Longrightarrow> rn_name (node fs' e) = rn_name (node fs e)" "\<And>e. e \<noteq> n \<Longrightarrow> e \<noteq> ?d \<Longrightarrow> rn_children (node fs' e) = rn_children (node fs e)"
    "if mem then r = 0 \<and> map_option vn_priv w = Some n else r = - ENOMEM \<and> w = None"
    using c n x(2) nd by (auto simp: ramfs_create_def shell_make_def Let_def node_def set_node_def split: if_splits)
  have new: "e \<noteq> n" if "rf_nodes fs d = Some y" "e \<in> set (rn_children y)" for d e y
    using fs_okD(6) [OF ok that] n(2) by (auto simp: child_ok_def)
  have same: "find (\<lambda>e. rn_name (node fs' e) = nm) (rn_children y) = find (\<lambda>e. rn_name (node fs e) = nm) (rn_children y)"
    if "rf_nodes fs d = Some y" for d y nm
    using kids(3) new [OF that] by (intro find_cong_names) auto
  have "find_child fs' ?d nm = ((find_child fs ?d)(name \<mapsto> n)) nm" for nm
    using same [OF x(1)] kids(1,2) x(2) by (simp add: find_child_def)
  moreover have "find_child fs' e nm = find_child fs e nm" if "e \<noteq> ?d" "rf_nodes fs e \<noteq> None" for e nm
  proof -
    from that(2) obtain y where y: "rf_nodes fs e = Some y" by auto
    then have "e \<noteq> n" using n(2) by auto
    with same [OF y] kids(4) [OF _ that(1)] fs_okD(7) [OF ok y] show ?thesis by (simp add: find_child_def)
  qed
  ultimately show ?thesis using n kids(5) by auto
qed

text \<open>The whole outcome of an unlink.\<close>

lemma unlink_map:
  assumes ok: "fs_ok fs sh" and v: "v \<in> set sh" and u: "ramfs_unlink v name fs = (r, fs')"
  shows "case find_child fs (vn_priv v) name of
      None \<Rightarrow> r = - ENOENT \<and> fs' = fs
    | Some c \<Rightarrow>
        if rn_type (node fs c) = V_DIR \<and> rn_children (node fs c) \<noteq> [] then r = - ENOTEMPTY \<and> fs' = fs
        else r = 0 \<and> find_child fs' (vn_priv v) = (find_child fs (vn_priv v))(name := None) \<and>
          (\<forall>e. e \<noteq> vn_priv v \<and> rf_nodes fs' e \<noteq> None \<longrightarrow> find_child fs' e = find_child fs e)"
proof (cases "find_child fs (vn_priv v) name")
  case (Some c)
  let ?d = "vn_priv v"
  obtain x where x: "rf_nodes fs ?d = Some x" "node fs ?d = x" using shell_node [OF ok v] by blast
  have c: "c \<in> set (rn_children x)" "rn_name (node fs c) = name" using Some x(2) by (auto simp: find_child_def find_Some_iff)
  have cd: "c \<noteq> ?d" and par: "\<exists>y. rf_nodes fs c = Some y \<and> rn_parent y = Some ?d"
    using fs_okD(6) [OF ok x(1) c(1)] by (auto simp: child_ok_def)
  show ?thesis
  proof (cases "rn_type (node fs c) = V_DIR \<and> rn_children (node fs c) \<noteq> []")
    case False
    then have kids: "r = 0" "rn_children (node fs' ?d) = remove1 c (rn_children x)"
      "\<And>e. e \<noteq> c \<Longrightarrow> rn_name (node fs' e) = rn_name (node fs e)"
      "\<And>e. e \<noteq> ?d \<Longrightarrow> rf_nodes fs' e \<noteq> None \<Longrightarrow> rf_nodes fs e \<noteq> None \<and> rn_children (node fs' e) = rn_children (node fs e)"
      using u Some x(2) cd par
      by (auto simp: ramfs_unlink_def drop_node_def Let_def free_node_def set_node_def node_def split: if_splits)
    have "find_child fs' ?d nm = ((find_child fs ?d)(name := None)) nm" for nm
    proof -
      have "c \<notin> set (remove1 c (rn_children x))" using fs_okD(4) [OF ok x(1)] by simp
      then have "find (\<lambda>e. rn_name (node fs' e) = nm) (remove1 c (rn_children x)) = find (\<lambda>e. rn_name (node fs e) = nm) (remove1 c (rn_children x))"
        using kids(3) by (intro find_cong_names) metis
      also have "\<dots> = (if nm = rn_name (node fs c) then None else find (\<lambda>e. rn_name (node fs e) = nm) (rn_children x))"
        by (rule find_remove1 [OF fs_okD(5) [OF ok x(1)] c(1)])
      finally show ?thesis using kids(2) x(2) c(2) by (simp add: find_child_def)
    qed
    moreover have "find_child fs' e nm = find_child fs e nm" if "e \<noteq> ?d" "rf_nodes fs' e \<noteq> None" for e nm
    proof -
      from kids(4) [OF that] obtain y where y: "rf_nodes fs e = Some y" and k: "rn_children (node fs' e) = rn_children (node fs e)" by auto
      have "c \<notin> set (rn_children y)" using fs_okD(6) [OF ok y, of c] par that(1) by (auto simp: child_ok_def)
      then have "find (\<lambda>e. rn_name (node fs' e) = nm) (rn_children y) = find (\<lambda>e. rn_name (node fs e) = nm) (rn_children y)"
        using kids(3) by (intro find_cong_names) metis
      then show ?thesis using k fs_okD(7) [OF ok y] by (simp add: find_child_def)
    qed
    ultimately show ?thesis using kids(1) Some False by auto
  qed (use u Some in \<open>auto simp: ramfs_unlink_def Let_def\<close>)
qed (use u in \<open>auto simp: ramfs_unlink_def Let_def\<close>)

section \<open>Properties of the in-memory file system\<close>

text \<open>C37: No dangling nodes. In every state that lookups, creations, unlinks, writes and releases of
  shells reach from a fresh mount, every shell in use names an allocated node, every entry of an
  allocated directory names an allocated node that is not unlinked, the entries of a directory
  have different names, and an unlinked node is still allocated only while a shell names it.\<close>

theorem ramfs_no_dangling:
  assumes "ramfs_mount fresh mem = (0, Some (v, fs0))" and "ramfs_step\<^sup>*\<^sup>* (fs0, [v]) (fs, sh)"
  shows "(\<forall>w. w \<in> set sh \<longrightarrow> rf_nodes fs (vn_priv w) \<noteq> None) \<and>
    (\<forall>d x. rf_nodes fs d = Some x \<longrightarrow>
       distinct (map (\<lambda>c. rn_name (node fs c)) (rn_children x)) \<and>
       (\<forall>c. c \<in> set (rn_children x) \<longrightarrow> (\<exists>y. rf_nodes fs c = Some y \<and> \<not> rn_orphan y)) \<and>
       (rn_orphan x \<longrightarrow> (\<exists>w. w \<in> set sh \<and> vn_priv w = d)))"
proof -
  have ok: "fs_ok fs sh" using reachable_fs_ok [OF assms(2,1)] by simp
  moreover have "\<exists>w. w \<in> set sh \<and> vn_priv w = d" if "rf_nodes fs d = Some x" "rn_orphan x" for d x
    using fs_okD(3) [OF ok that] by (auto simp: filter_empty_conv)
  ultimately show ?thesis using fs_okD(5,6) [OF ok] unfolding fs_ok_def child_ok_def by blast
qed

definition boot_fs :: "vnode \<times> ram_fs" where
  "boot_fs = the (snd (ramfs_mount (Some 0) True))"

definition note_fs :: "vnode \<times> ram_fs" where
  "note_fs = (let (r, w, fs) = ramfs_create (Some 1) True (fst boot_fs) ''note'' V_FILE (snd boot_fs) in (the w, fs))"

lemma note_reached: "ramfs_mount (Some 0) True = (0, Some boot_fs)"
    "ramfs_step (snd boot_fs, [fst boot_fs]) (snd note_fs, [fst note_fs, fst boot_fs])"
proof -
  show "ramfs_mount (Some 0) True = (0, Some boot_fs)" by (simp add: boot_fs_def ramfs_mount_def shell_make_def Let_def)
  have "ramfs_create (Some 1) True (fst boot_fs) ''note'' V_FILE (snd boot_fs) = (0, Some (fst note_fs), snd note_fs)"
    by (simp add: note_fs_def boot_fs_def ramfs_mount_def ramfs_create_def shell_make_def Let_def find_child_def node_def)
  from ramfs_step.create [OF _ _ this, of "[fst boot_fs]"]
  show "ramfs_step (snd boot_fs, [fst boot_fs]) (snd note_fs, [fst note_fs, fst boot_fs])"
    by (simp add: boot_fs_def ramfs_mount_def shell_make_def Let_def set_node_def)
qed

lemma note_ok: "fs_ok (snd note_fs) [fst note_fs, fst boot_fs]"
  using reachable_fs_ok [of "snd boot_fs" "fst boot_fs" "(snd note_fs, [fst note_fs, fst boot_fs])" "Some 0" True] note_reached by auto

theorem ramfs_no_dangling_witness: "rf_nodes (snd note_fs) (vn_priv (fst note_fs)) \<noteq> None"
  using ramfs_no_dangling [of "Some 0" True "fst boot_fs" "snd boot_fs" "snd note_fs" "[fst note_fs, fst boot_fs]"] note_reached by auto

text \<open>C38: A file is a byte string. A write within the size limit returns its length, splices its bytes
  into the contents at the offset (with zeroes between the old end and the offset) and touches no
  other node; every later read returns the piece of the new contents at its offset.\<close>

theorem ramfs_write_then_read:
  assumes "fs_ok fs sh" and "v \<in> set sh" and "vn_type v = V_FILE"
    and "unat off + length buf \<le> unat RAMFS_MAX_FILE" and "buf \<noteq> [] \<or> off \<noteq> 0"
  shows "\<exists>fs'. ramfs_write True v off buf fs = Some (int (length buf), fs') \<and>
    (\<forall>m. m \<noteq> vn_priv v \<longrightarrow> rf_nodes fs' m = rf_nodes fs m) \<and>
    (\<forall>off2 n. unat off2 + unat n < 2 ^ 64 \<longrightarrow>
      (let piece = take (unat n) (drop (unat off2) (spliced (unat off) buf (content (node fs (vn_priv v)))))
       in ramfs_read v off2 n fs' = Some (int (length piece), piece)))"
proof -
  obtain x where x: "rf_nodes fs (vn_priv v) = Some x" "node fs (vn_priv v) = x" using shell_node [OF assms(1,2)] by blast
  have wf: "node_wf x" by (rule fs_okD(1) [OF assms(1) x(1)])
  from ramfs_write_ok [OF x(1) wf assms(3) _ assms(5)] assms(4) obtain y where
    y: "ramfs_write True v off buf fs = Some (int (length buf), set_node (vn_priv v) y fs)"
      "content y = spliced (unat off) buf (content x)" "node_wf y" by auto
  have "ramfs_read v off2 n (set_node (vn_priv v) y fs) =
      Some (int (length (take (unat n) (drop (unat off2) (content y)))), take (unat n) (drop (unat off2) (content y)))"
    if "unat off2 + unat n < 2 ^ 64" for off2 n
    by (rule ramfs_read_ok [OF _ y(3) assms(3) that]) simp
  then show ?thesis using y(1,2) x(2) unfolding Let_def by (intro exI [of _ "set_node (vn_priv v) y fs"]) simp
qed

theorem ramfs_write_then_read_witness:
  "\<exists>fs'. ramfs_write True (fst note_fs) 2 [7, 8] (snd note_fs) = Some (2, fs') \<and> ramfs_read (fst note_fs) 1 10 fs' = Some (3, [0, 7, 8])"
proof -
  have t: "vn_type (fst note_fs) = V_FILE" "content (node (snd note_fs) (vn_priv (fst note_fs))) = []"
    by (simp_all add: note_fs_def boot_fs_def ramfs_mount_def ramfs_create_def shell_make_def Let_def find_child_def node_def set_node_def content_def)
  have p: "take 10 (drop 1 (spliced 2 [7, 8] [])) = [0, 7, 8 :: u8]" by (simp add: spliced_def numeral_2_eq_2)
  obtain fs' where "ramfs_write True (fst note_fs) 2 [7, 8] (snd note_fs) = Some (2, fs')"
    "\<forall>off2 n. unat off2 + unat n < 2 ^ 64 \<longrightarrow>
      (let piece = take (unat n) (drop (unat off2) (spliced 2 [7, 8] []))
       in ramfs_read (fst note_fs) off2 n fs' = Some (int (length piece), piece))"
    using ramfs_write_then_read [OF note_ok, of "fst note_fs" 2 "[7, 8]"] t by auto
  note w = this(1) and rd = this(2) [THEN spec [of _ 1], THEN spec [of _ 10], unfolded Let_def]
  have "ramfs_read (fst note_fs) 1 10 fs' = Some (int (length (take 10 (drop 1 (spliced 2 [7, 8] [])))), take 10 (drop 1 (spliced 2 [7, 8] [])))"
    using rd by simp
  with w show ?thesis unfolding p by auto
qed

text \<open>C39: A directory is a finite map from names to nodes, errors included, with memory or without. Creating refuses a name
  of 64 characters or more with \<open>-ENAMETOOLONG\<close>, then a lack of memory for the node with \<open>-ENOMEM\<close>, then a
  name that is there with \<open>-EEXIST\<close>, each time changing nothing; else it maps the name to the new node and
  keeps every other name of this and every other directory. When there is no memory for the shell it then
  reports \<open>-ENOMEM\<close> although the name stays mapped. An unlink fails with \<open>-ENOENT\<close>
  exactly when the name is not there and with \<open>-ENOTEMPTY\<close> exactly when it names a directory with entries, changing nothing; else
  it succeeds and removes exactly its name, from this directory only.\<close>

theorem ramfs_directory_is_map:
  assumes "fs_ok fs sh" and "v \<in> set sh" and "\<forall>n. new = Some n \<longrightarrow> rf_nodes fs n = None"
    and "ramfs_create new mem v name t fs = (r1, w, fs1)" and "ramfs_unlink v name fs = (r2, fs2)"
  shows "(if VFS_NAME_MAX \<le> length name then r1 = - ENAMETOOLONG \<and> w = None \<and> fs1 = fs
      else case new of
        None \<Rightarrow> r1 = - ENOMEM \<and> w = None \<and> fs1 = fs
      | Some n \<Rightarrow>
          if find_child fs (vn_priv v) name \<noteq> None then r1 = - EEXIST \<and> w = None \<and> fs1 = fs
          else find_child fs1 (vn_priv v) = (find_child fs (vn_priv v))(name \<mapsto> n) \<and>
            (\<forall>e. e \<noteq> vn_priv v \<and> rf_nodes fs e \<noteq> None \<longrightarrow> find_child fs1 e = find_child fs e) \<and>
            (if mem then r1 = 0 \<and> map_option vn_priv w = Some n else r1 = - ENOMEM \<and> w = None)) \<and>
    (case find_child fs (vn_priv v) name of
       None \<Rightarrow> r2 = - ENOENT \<and> fs2 = fs
     | Some c \<Rightarrow>
         if rn_type (node fs c) = V_DIR \<and> rn_children (node fs c) \<noteq> [] then r2 = - ENOTEMPTY \<and> fs2 = fs
         else r2 = 0 \<and> find_child fs2 (vn_priv v) = (find_child fs (vn_priv v))(name := None) \<and>
           (\<forall>e. e \<noteq> vn_priv v \<and> rf_nodes fs2 e \<noteq> None \<longrightarrow> find_child fs2 e = find_child fs e))"
  by (intro conjI create_map [OF assms(1-4)] unlink_map [OF assms(1,2,5)])

theorem ramfs_directory_is_map_witness:
  "let (r1, w, fs1) = ramfs_create (Some 2) False (fst boot_fs) ''todo'' V_FILE (snd note_fs)
   in r1 = - ENOMEM \<and> find_child fs1 (vn_priv (fst boot_fs)) = (find_child (snd note_fs) (vn_priv (fst boot_fs)))(''todo'' \<mapsto> 2)"
proof -
  have n: "rf_nodes (snd note_fs) 2 = None" "find_child (snd note_fs) (vn_priv (fst boot_fs)) ''todo'' = None"
    by (simp_all add: note_fs_def boot_fs_def ramfs_mount_def ramfs_create_def shell_make_def Let_def find_child_def node_def set_node_def)
  obtain r1 w fs1 r2 fs2 where c: "ramfs_create (Some 2) False (fst boot_fs) ''todo'' V_FILE (snd note_fs) = (r1, w, fs1)"
    "ramfs_unlink (fst boot_fs) ''todo'' (snd note_fs) = (r2, fs2)" by (metis prod_cases3 surj_pair)
  have "fst boot_fs \<in> set [fst note_fs, fst boot_fs]" and "\<forall>m. Some 2 = Some m \<longrightarrow> rf_nodes (snd note_fs) m = None" using n(1) by simp_all
  from ramfs_directory_is_map [OF note_ok this c] n(2) c(1) show ?thesis by simp
qed

end
