(* ===== verification/Net.thy ===== *)
theory Net
  imports Prelude
begin

text \<open>
  The lower network stack: interface registry and routing (\<open>net/netif.c\<close>), ARP cache and queued
  send (\<open>net/etharp.c\<close>), IPv4 headers, checksums and demultiplexing (\<open>net/ipv4.c\<close>), echo replies
  (\<open>net/icmp.c\<close>) and UDP (\<open>net/udp.c\<close>). All tables are one state, which the core lock guards.
  What the stack calls through pointers is a record of functions on that state: the transmit
  function of an interface (a driver, or the loopback that feeds the frame back), the raw port
  hooks, the wake-up of a socket queue and the TCP input. Interfaces and control blocks are
  named by numbers that stand for their addresses. Structures that the code copies to and from
  packets as a whole have little-endian fields on this machine.
\<close>

type_synonym bytes = "u8 list"
type_synonym ip = u32
type_synonym nif_id = nat

abbreviation ETH_HDR_LEN :: nat where "ETH_HDR_LEN \<equiv> 14"
abbreviation ETH_MTU :: nat where "ETH_MTU \<equiv> 1500"
abbreviation ETHERTYPE_IPV4 :: u16 where "ETHERTYPE_IPV4 \<equiv> 0x0800"
abbreviation ETHERTYPE_ARP :: u16 where "ETHERTYPE_ARP \<equiv> 0x0806"
abbreviation IPV4_PROTO_ICMP :: u8 where "IPV4_PROTO_ICMP \<equiv> 1"
abbreviation IPV4_PROTO_UDP :: u8 where "IPV4_PROTO_UDP \<equiv> 17"
abbreviation IPV4_PROTO_TCP :: u8 where "IPV4_PROTO_TCP \<equiv> 6"
abbreviation ARP_TABLE_MAX :: nat where "ARP_TABLE_MAX \<equiv> 8"
abbreviation ARP_REQUEST :: u16 where "ARP_REQUEST \<equiv> 1"
abbreviation ARP_REPLY :: u16 where "ARP_REPLY \<equiv> 2"
abbreviation UDP_RING_SZ :: nat where "UDP_RING_SZ \<equiv> 2048"

definition IP4 :: "u32 \<Rightarrow> u32 \<Rightarrow> u32 \<Rightarrow> u32 \<Rightarrow> ip" where
  "IP4 a b c d = a OR push_bit 8 b OR push_bit 16 c OR push_bit 24 d"

definition IP4_LOOPBACK :: ip where
  "IP4_LOOPBACK = IP4 127 0 0 1"

abbreviation IP4_BROADCAST :: ip where "IP4_BROADCAST \<equiv> 0xffffffff"

section \<open>State\<close>

record netif =
  nif_name :: string
  nif_hwaddr :: bytes
  nif_ip_addr :: ip
  nif_netmask :: ip
  nif_is_loopback :: bool

record arp_entry =
  ae_valid :: bool
  ae_ip :: ip
  ae_hw :: bytes
  ae_last_seen_ms :: u64

record arp_pending =
  ap_used :: bool
  ap_ip :: ip
  ap_nif :: nif_id
  ap_frame :: bytes
  ap_sent_ms :: u64
  ap_tries :: nat

record udp_pcb =
  up_local_ip :: ip
  up_remote_ip :: ip
  up_local_port :: u16
  up_remote_port :: u16
  up_ring :: bytes
  up_ring_lens :: "u16 list"
  up_ring_head :: nat
  up_ring_count :: nat
  up_dropped :: u16
  up_wq :: "nat option"

record ping_slot =
  ps_done :: bool
  ps_ok :: bool
  ps_id :: u16
  ps_seq :: u16

record net =
  n_nif :: "nif_id \<Rightarrow> netif"
  n_netifs :: "nif_id list"
  n_default :: "nif_id option"
  n_cache :: "arp_entry list"
  n_pending :: arp_pending
  n_pcb :: "nat \<Rightarrow> udp_pcb"
  n_pcbs :: "nat list"
  n_hooks :: "(u16 \<times> nat) list"
  n_next_eph :: u16
  n_waiter :: ping_slot
  n_now :: u64

record env =
  e_link_out :: "nif_id \<Rightarrow> bytes \<Rightarrow> u16 \<Rightarrow> bytes \<Rightarrow> net \<Rightarrow> int \<times> net"
  e_hook :: "nat \<Rightarrow> ip \<Rightarrow> u16 \<Rightarrow> bytes \<Rightarrow> net \<Rightarrow> net"
  e_wake :: "nat \<Rightarrow> net \<Rightarrow> net"
  e_tcp_input :: "nif_id \<Rightarrow> ip \<Rightarrow> ip \<Rightarrow> bytes \<Rightarrow> net \<Rightarrow> net"
  e_stack4 :: bytes

section \<open>Interfaces\<close>

definition netif_register :: "nif_id \<Rightarrow> netif \<Rightarrow> net \<Rightarrow> int \<times> net" where
  "netif_register i nif s = (0, s\<lparr>n_nif := (n_nif s)(i := nif), n_netifs := i # n_netifs s\<rparr>)"

definition netif_set_default :: "nif_id option \<Rightarrow> net \<Rightarrow> net" where
  "netif_set_default i s = s\<lparr>n_default := i\<rparr>"

definition netif_find_name :: "string \<Rightarrow> net \<Rightarrow> nif_id option" where
  "netif_find_name name s = find (\<lambda>i. nif_name (n_nif s i) = name) (n_netifs s)"

definition netif_loopback :: "net \<Rightarrow> nif_id option" where
  "netif_loopback s = netif_find_name ''lo'' s"

definition netif_at :: "nat \<Rightarrow> net \<Rightarrow> nif_id option" where
  "netif_at idx s = (if idx < length (n_netifs s) then Some (n_netifs s ! idx) else None)"

fun route_loop :: "(nif_id \<Rightarrow> netif) \<Rightarrow> ip \<Rightarrow> nif_id list \<Rightarrow> nif_id option \<Rightarrow> nif_id option + nif_id option" where
  "route_loop nif dst [] lo = Inl lo"
| "route_loop nif dst (i # is) lo =
    (if nif_is_loopback (nif i) then route_loop nif dst is (Some i)
     else if dst AND nif_netmask (nif i) = nif_ip_addr (nif i) AND nif_netmask (nif i) then Inr (Some i)
     else route_loop nif dst is lo)"

definition netif_route :: "ip \<Rightarrow> net \<Rightarrow> nif_id option" where
  "netif_route dst s =
    (if dst = IP4_LOOPBACK then netif_loopback s
     else case route_loop (n_nif s) dst (n_netifs s) None of
       Inr r \<Rightarrow> r
     | Inl lo \<Rightarrow> (case n_default s of Some d \<Rightarrow> Some d | None \<Rightarrow> lo))"

section \<open>ARP\<close>

definition put16 :: "u16 \<Rightarrow> bytes" where
  "put16 v = [ucast (drop_bit 8 v), ucast v]"

definition get16 :: "bytes \<Rightarrow> nat \<Rightarrow> u16" where
  "get16 p i = push_bit 8 (ucast (p ! i)) OR ucast (p ! (i + 1))"

definition put32 :: "u32 \<Rightarrow> bytes" where
  "put32 v = [ucast (drop_bit 24 v), ucast (drop_bit 16 v), ucast (drop_bit 8 v), ucast v]"

definition get32 :: "bytes \<Rightarrow> nat \<Rightarrow> u32" where
  "get32 p i = push_bit 24 (ucast (p ! i)) OR push_bit 16 (ucast (p ! (i + 1))) OR
     push_bit 8 (ucast (p ! (i + 2))) OR ucast (p ! (i + 3))"

definition ip4_pack :: "ip \<Rightarrow> bytes" where
  "ip4_pack a = [ucast (drop_bit 24 a), ucast (drop_bit 16 a), ucast (drop_bit 8 a), ucast a]"

definition ip4_unpack :: "bytes \<Rightarrow> ip" where
  "ip4_unpack p = push_bit 24 (ucast (p ! 0)) OR push_bit 16 (ucast (p ! 1)) OR push_bit 8 (ucast (p ! 2)) OR ucast (p ! 3)"

text \<open>The slot for an address: its own entry, else the first free one, else the first one.\<close>

fun cache_slot :: "arp_entry list \<Rightarrow> ip \<Rightarrow> nat list \<Rightarrow> nat option \<Rightarrow> nat option" where
  "cache_slot c a [] slot = slot"
| "cache_slot c a (i # is) slot =
    (if ae_valid (c ! i) \<and> ae_ip (c ! i) = a then Some i
     else cache_slot c a is (if slot = None \<and> \<not> ae_valid (c ! i) then Some i else slot))"

definition cache_put :: "ip \<Rightarrow> bytes \<Rightarrow> u64 \<Rightarrow> arp_entry list \<Rightarrow> arp_entry list" where
  "cache_put a hw now c =
    (let slot = (case cache_slot c a [0..<ARP_TABLE_MAX] None of None \<Rightarrow> 0 | Some i \<Rightarrow> i)
     in c[slot := \<lparr>ae_valid = True, ae_ip = a, ae_hw = hw, ae_last_seen_ms = now\<rparr>])"

definition arp_lookup :: "ip \<Rightarrow> net \<Rightarrow> bytes option" where
  "arp_lookup a s = map_option ae_hw (find (\<lambda>e. ae_valid e \<and> ae_ip e = a) (n_cache s))"

definition arp_cache_entries :: "net \<Rightarrow> nat" where
  "arp_cache_entries s = length (filter ae_valid (n_cache s))"

definition arp_build :: "u16 \<Rightarrow> bytes \<Rightarrow> ip \<Rightarrow> bytes \<Rightarrow> ip \<Rightarrow> bytes" where
  "arp_build op src_hw src_ip dst_hw dst_ip =
    put16 1 @ put16 ETHERTYPE_IPV4 @ [6, 4] @ put16 op @ src_hw @ put32 src_ip @ dst_hw @ put32 dst_ip"

definition arp_send_raw :: "env \<Rightarrow> nif_id \<Rightarrow> bytes \<Rightarrow> bytes \<Rightarrow> net \<Rightarrow> net" where
  "arp_send_raw E i dst_hw pkt s = snd (e_link_out E i dst_hw ETHERTYPE_ARP pkt s)"

definition arp_request :: "env \<Rightarrow> nif_id \<Rightarrow> ip \<Rightarrow> net \<Rightarrow> net" where
  "arp_request E i target s =
    arp_send_raw E i (replicate 6 0xff)
      (arp_build ARP_REQUEST (nif_hwaddr (n_nif s i)) (nif_ip_addr (n_nif s i)) (replicate 6 0) target) s"

definition arp_input :: "env \<Rightarrow> bytes \<Rightarrow> nif_id \<Rightarrow> net \<Rightarrow> net" where
  "arp_input E pkt i s =
    (let op = get16 pkt 6; sender_ip = get32 pkt 14; target_ip = get32 pkt 24; sender_hw = take 6 (drop 8 pkt)
     in if length pkt < 28 then s
        else if sender_ip = 0 then s
        else
          let s1 = s\<lparr>n_cache := cache_put sender_ip sender_hw (n_now s) (n_cache s)\<rparr>;
              p = n_pending s1;
              s2 = (if ap_used p \<and> ap_ip p = sender_ip
                    then snd (e_link_out E (ap_nif p) sender_hw ETHERTYPE_IPV4 (ap_frame p) (s1\<lparr>n_pending := p\<lparr>ap_used := False\<rparr>\<rparr>))
                    else s1)
          in if op = ARP_REQUEST \<and> target_ip = nif_ip_addr (n_nif s2 i)
             then arp_send_raw E i sender_hw
                    (arp_build ARP_REPLY (nif_hwaddr (n_nif s2 i)) (nif_ip_addr (n_nif s2 i)) sender_hw sender_ip) s2
             else s2)"

definition arp_tick :: "env \<Rightarrow> u64 \<Rightarrow> net \<Rightarrow> net" where
  "arp_tick E now s =
    (let p = n_pending s
     in if \<not> ap_used p then s
        else if now - ap_sent_ms p \<ge> 1000
        then
          let p1 = p\<lparr>ap_tries := ap_tries p + 1\<rparr>
          in if 3 < ap_tries p1 then s\<lparr>n_pending := p1\<lparr>ap_used := False\<rparr>\<rparr>
             else arp_request E (ap_nif p1) (ap_ip p1) (s\<lparr>n_pending := p1\<lparr>ap_sent_ms := now\<rparr>\<rparr>)
        else s)"

definition arp_send_ip :: "env \<Rightarrow> nif_id \<Rightarrow> ip \<Rightarrow> bytes \<Rightarrow> net \<Rightarrow> int \<times> net" where
  "arp_send_ip E i dst buf s =
    (if ETH_MTU < length buf then (- 1, s)
     else case arp_lookup dst s of
       Some hw \<Rightarrow> e_link_out E i hw ETHERTYPE_IPV4 buf s
     | None \<Rightarrow>
         if ap_used (n_pending s) \<and> ap_ip (n_pending s) = dst then (- 1, s)
         else (0, arp_request E i dst
                (s\<lparr>n_pending := \<lparr>ap_used = True, ap_ip = dst, ap_nif = i, ap_frame = buf, ap_sent_ms = 0, ap_tries = 0\<rparr>\<rparr>)))"

section \<open>IPv4\<close>

text \<open>The 32-bit sum of big-endian halfwords, an odd last byte as a high byte; the carries are
  added back until none is left.\<close>

fun sum16 :: "bytes \<Rightarrow> u32 \<Rightarrow> u32" where
  "sum16 (a # b # bs) acc = sum16 bs (acc + (push_bit 8 (ucast a) OR ucast b))"
| "sum16 [a] acc = acc + push_bit 8 (ucast a)"
| "sum16 [] acc = acc"

lemma fold16_step: "unat ((acc AND 0xffff) + drop_bit 16 acc) = unat acc mod 65536 + unat (acc :: u32) div 65536"
proof -
  have lo: "unat (acc AND 0xffff) = unat acc mod 65536"
    using mask_and_eq_mod [of acc 16] by (simp add: mask_eq_exp_minus_1)
  have hi: "unat (drop_bit 16 acc) = unat acc div 65536" by (simp add: drop_bit_eq_div unat_div)
  have "unat acc < 65536 * 65536" using unsigned_less [of acc] by simp
  then have "unat acc div 65536 < 65536" by (rule less_mult_imp_div_less)
  then have "unat (acc AND 0xffff) + unat (drop_bit 16 acc) < 2 ^ LENGTH(32)"
    using lo hi mod_less_divisor [of 65536 "unat acc"] by simp
  then show ?thesis by (simp add: unat_add_small lo hi)
qed

lemma fold16_carry: "drop_bit 16 acc \<noteq> (0 :: u32) \<longleftrightarrow> 65536 \<le> unat acc"
proof -
  have "unat (drop_bit 16 acc) = unat acc div 65536" by (simp add: drop_bit_eq_div unat_div)
  moreover have "unat acc div 65536 = 0 \<longleftrightarrow> unat acc < 65536" by (simp add: div_eq_0_iff)
  ultimately show ?thesis by (simp add: word_unat_eq_iff not_less)
qed

function fold16 :: "u32 \<Rightarrow> u32" where
  "fold16 acc = (if drop_bit 16 acc \<noteq> 0 then fold16 ((acc AND 0xffff) + drop_bit 16 acc) else acc)"
  by pat_completeness auto

termination
proof (relation "measure unat")
  fix acc :: u32 assume "drop_bit 16 acc \<noteq> 0"
  then have "65536 \<le> unat acc" by (simp only: fold16_carry)
  then have "0 < unat acc div 65536" by simp
  moreover have "unat acc = unat acc div 65536 * 65536 + unat acc mod 65536" by simp
  ultimately have "unat acc mod 65536 + unat acc div 65536 < unat acc" by linarith
  then show "((acc AND 0xffff) + drop_bit 16 acc, acc) \<in> measure unat" by (simp add: fold16_step)
qed simp

declare fold16.simps [simp del]

definition ip4_checksum :: "bytes \<Rightarrow> u16" where
  "ip4_checksum p = ucast (NOT (fold16 (sum16 p 0)) AND 0xffff)"

definition ip4_pseudo_checksum :: "ip \<Rightarrow> ip \<Rightarrow> u8 \<Rightarrow> bytes \<Rightarrow> u16" where
  "ip4_pseudo_checksum src dst proto p =
    ucast (NOT (fold16 (sum16 p ((drop_bit 16 src AND 0xffff) + (src AND 0xffff) + (drop_bit 16 dst AND 0xffff) +
      (dst AND 0xffff) + ucast proto + of_nat (length p)))) AND 0xffff)"

definition ip4_header :: "u16 \<Rightarrow> bytes \<Rightarrow> u8 \<Rightarrow> u16 \<Rightarrow> ip \<Rightarrow> ip \<Rightarrow> bytes" where
  "ip4_header tot idfrag proto csum src dst =
    [0x45, 0] @ put16 tot @ idfrag @ [64, proto] @ put16 csum @ put32 src @ put32 dst"

definition ip4_output :: "env \<Rightarrow> nif_id \<Rightarrow> ip \<Rightarrow> ip \<Rightarrow> u8 \<Rightarrow> bytes \<Rightarrow> net \<Rightarrow> int \<times> net" where
  "ip4_output E i src dst proto buf s =
    (let tot = of_nat (20 + length buf);
         h0 = ip4_header tot [0x40, 0, 0, 0] proto 0 src dst;
         ip = ip4_header tot [0x40, 0, 0, 0] proto (ip4_checksum h0) src dst @ buf
     in if ETH_MTU - 20 < length buf then (- 1, s)
        else arp_send_ip E i dst ip s)"

section \<open>ICMP\<close>

text \<open>The frame of a reply is built on the stack; four of its bytes are never written.\<close>

definition icmp_input :: "env \<Rightarrow> nif_id \<Rightarrow> ip \<Rightarrow> ip \<Rightarrow> bytes \<Rightarrow> net \<Rightarrow> net" where
  "icmp_input E i src dst hdr s =
    (if length hdr < 8 then s
     else if hdr ! 0 = 8
     then
       let plen = min (length hdr) 120;
           r0 = [0, hdr ! 1, 0, 0] @ take (plen - 4) (drop 4 hdr);
           resp = r0[2 := ucast (ip4_checksum r0), 3 := ucast (drop_bit 8 (ip4_checksum r0))];
           tot = of_nat (20 + plen);
           f0 = ip4_header tot (e_stack4 E) IPV4_PROTO_ICMP 0 dst src;
           framed = ip4_header tot (e_stack4 E) IPV4_PROTO_ICMP (ip4_checksum f0) dst src @ resp
       in snd (arp_send_ip E i src framed s)
     else
       let w = n_waiter s
       in if hdr ! 0 = 0 \<and> ps_id w = from_le (take 2 (drop 4 hdr)) \<and> ps_seq w = from_le (take 2 (drop 6 hdr)) \<and> \<not> ps_done w
          then s\<lparr>n_waiter := w\<lparr>ps_ok := True, ps_done := True\<rparr>\<rparr> else s)"

section \<open>UDP\<close>

definition udp_zero :: udp_pcb where
  "udp_zero = \<lparr>up_local_ip = 0, up_remote_ip = 0, up_local_port = 0, up_remote_port = 0, up_ring = replicate UDP_RING_SZ 0,
     up_ring_lens = replicate 8 0, up_ring_head = 0, up_ring_count = 0, up_dropped = 0, up_wq = None\<rparr>"

definition udp_alloc :: "nat option \<Rightarrow> net \<Rightarrow> nat option \<times> net" where
  "udp_alloc fresh s =
    (case fresh of None \<Rightarrow> (None, s)
     | Some p \<Rightarrow> (Some p, s\<lparr>n_pcb := (n_pcb s)(p := udp_zero), n_pcbs := p # n_pcbs s\<rparr>))"

definition udp_free :: "nat \<Rightarrow> net \<Rightarrow> net" where
  "udp_free p s = s\<lparr>n_pcbs := remove1 p (n_pcbs s)\<rparr>"

definition port_taken :: "u16 \<Rightarrow> net \<Rightarrow> bool" where
  "port_taken port s = list_ex (\<lambda>p. up_local_port (n_pcb s p) = port) (n_pcbs s)"

definition set_pcb :: "nat \<Rightarrow> udp_pcb \<Rightarrow> net \<Rightarrow> net" where
  "set_pcb p x s = s\<lparr>n_pcb := (n_pcb s)(p := x)\<rparr>"

definition udp_bind :: "nat \<Rightarrow> ip \<Rightarrow> u16 \<Rightarrow> net \<Rightarrow> int \<times> net" where
  "udp_bind p a port s =
    (if port \<noteq> 0 \<and> port_taken port s then (- 1, s)
     else
       let s1 = (if port \<noteq> 0 then s else s\<lparr>n_next_eph := n_next_eph s + 1\<rparr>)
       in (0, set_pcb p ((n_pcb s p)\<lparr>up_local_ip := a, up_local_port := (if port \<noteq> 0 then port else n_next_eph s)\<rparr>) s1))"

definition udp_connect :: "nat \<Rightarrow> ip \<Rightarrow> u16 \<Rightarrow> net \<Rightarrow> int \<times> net" where
  "udp_connect p a port s = (0, set_pcb p ((n_pcb s p)\<lparr>up_remote_ip := a, up_remote_port := port\<rparr>) s)"

definition udp_bind_raw :: "u16 \<Rightarrow> nat \<Rightarrow> net \<Rightarrow> int \<times> net" where
  "udp_bind_raw port fn s =
    (if 4 \<le> length (n_hooks s) then (- 1, s) else (0, s\<lparr>n_hooks := n_hooks s @ [(port, fn)]\<rparr>))"

text \<open>The header is stored as a structure, so its fields are little-endian in the packet.\<close>

definition udp_packet :: "u16 \<Rightarrow> u16 \<Rightarrow> u16 \<Rightarrow> bytes \<Rightarrow> bytes" where
  "udp_packet sp dp csum buf = le_bytes 2 sp @ le_bytes 2 dp @ le_bytes 2 (of_nat (8 + length buf) :: u16) @ le_bytes 2 csum @ buf"

definition udp_send :: "env \<Rightarrow> nat \<Rightarrow> bytes \<Rightarrow> net \<Rightarrow> int \<times> net" where
  "udp_send E p buf s =
    (let x = n_pcb s p
     in case netif_route (up_remote_ip x) s of
          None \<Rightarrow> (- 1, s)
        | Some i \<Rightarrow>
            if up_remote_port x = 0 \<or> 512 < length buf then (- 1, s)
            else
              let c = ip4_pseudo_checksum (up_local_ip x) (up_remote_ip x) IPV4_PROTO_UDP
                        (udp_packet (up_local_port x) (up_remote_port x) 0 buf);
                  csum = (if c = 0 then 0xffff else c)
              in ip4_output E i (up_local_ip x) (up_remote_ip x) IPV4_PROTO_UDP
                   (udp_packet (up_local_port x) (up_remote_port x) csum buf) s)"

text \<open>Every datagram is copied to the start of the ring; only its length has a slot of its own.\<close>

definition ring_put :: "bytes \<Rightarrow> udp_pcb \<Rightarrow> udp_pcb" where
  "ring_put dat x =
    (if up_ring_count x = 8 then x\<lparr>up_dropped := up_dropped x + 1\<rparr>
     else
       let n = min (length dat) UDP_RING_SZ; slot = (up_ring_head x + up_ring_count x) mod 8
       in x\<lparr>up_ring := take n dat @ drop n (up_ring x), up_ring_lens := (up_ring_lens x)[slot := of_nat n],
            up_ring_count := up_ring_count x + 1\<rparr>)"

definition udp_match :: "net \<Rightarrow> ip \<Rightarrow> u16 \<Rightarrow> u16 \<Rightarrow> nat \<Rightarrow> bool" where
  "udp_match s src sp dp p \<longleftrightarrow>
    (let x = n_pcb s p
     in up_local_port x = dp \<and> (up_remote_port x = 0 \<or> up_remote_port x = sp) \<and> (up_remote_ip x = 0 \<or> up_remote_ip x = src))"

text \<open>The length field is swapped in 32 bits, without cutting it to 16.\<close>

definition udp_plen :: "u16 \<Rightarrow> u32" where
  "udp_plen len = drop_bit 8 (ucast len) OR push_bit 8 (ucast len)"

definition udp_input :: "env \<Rightarrow> ip \<Rightarrow> bytes \<Rightarrow> net \<Rightarrow> net" where
  "udp_input E src pkt s =
    (if length pkt < 8 then s
     else
       let sp = from_le (take 2 pkt); dp = from_le (take 2 (drop 2 pkt));
           plen = unat (udp_plen (from_le (take 2 (drop 4 pkt))))
       in if plen < 8 \<or> length pkt < plen then s
          else
            let dat = take (plen - 8) (drop 8 pkt)
            in case find (\<lambda>h. fst h = dp) (n_hooks s) of
                 Some h \<Rightarrow> e_hook E (snd h) src sp dat s
               | None \<Rightarrow>
                   (case find (udp_match s src sp dp) (n_pcbs s) of
                      None \<Rightarrow> s
                    | Some p \<Rightarrow>
                        let s1 = set_pcb p (ring_put dat (n_pcb s p)) s
                        in (case up_wq (n_pcb s1 p) of None \<Rightarrow> s1 | Some w \<Rightarrow> e_wake E w s1)))"

definition udp_pending :: "nat \<Rightarrow> net \<Rightarrow> nat" where
  "udp_pending p s = up_ring_count (n_pcb s p)"

text \<open>One pass of the receive loop: \<open>None\<close> when the ring is empty, where the code fails or parks.\<close>

definition udp_recv :: "nat \<Rightarrow> nat \<Rightarrow> net \<Rightarrow> (bytes \<times> net) option" where
  "udp_recv p buflen s =
    (let x = n_pcb s p; n = min (unat (up_ring_lens x ! up_ring_head x)) buflen
     in if up_ring_count x = 0 then None
        else Some (take n (up_ring x),
          set_pcb p (x\<lparr>up_ring_head := (up_ring_head x + 1) mod 8, up_ring_count := up_ring_count x - 1\<rparr>) s))"

section \<open>Input\<close>

definition ipv4_input :: "env \<Rightarrow> nif_id \<Rightarrow> bytes \<Rightarrow> net \<Rightarrow> net" where
  "ipv4_input E i pkt s =
    (if length pkt < 20 then s
     else if drop_bit 4 (pkt ! 0) \<noteq> 4 then s
     else
       let ihl = unat (pkt ! 0 AND 0x0f) * 4; tot = unat (get16 pkt 2)
       in if ihl < 20 \<or> length pkt < ihl \<or> length pkt < tot \<or> tot < ihl then s
          else
            let csum_rx = get16 pkt 10; csum_calc = ip4_checksum (take ihl pkt)
            in if csum_calc \<noteq> 0 \<and> csum_rx \<noteq> csum_calc then s
               else
                 let proto = pkt ! 9; src = get32 pkt 12; dst = get32 pkt 16; body = take (tot - ihl) (drop ihl pkt)
                 in if dst \<noteq> nif_ip_addr (n_nif s i) \<and> dst \<noteq> IP4_BROADCAST \<and> dst \<noteq> IP4_LOOPBACK then s
                    else if proto = IPV4_PROTO_ICMP then icmp_input E i src dst body s
                    else if proto = IPV4_PROTO_UDP then udp_input E src body s
                    else if proto = IPV4_PROTO_TCP then e_tcp_input E i src dst body s
                    else s)"

definition eth_input :: "env \<Rightarrow> bytes \<Rightarrow> nif_id \<Rightarrow> net \<Rightarrow> net" where
  "eth_input E frame i s =
    (if length frame < ETH_HDR_LEN then s
     else
       let ethertype = get16 frame 12; body = drop ETH_HDR_LEN frame
       in if ethertype = ETHERTYPE_ARP then arp_input E body i s
          else if ethertype = ETHERTYPE_IPV4 then ipv4_input E i body s
          else s)"

definition netif_input :: "env \<Rightarrow> bytes \<Rightarrow> nif_id \<Rightarrow> net \<Rightarrow> net" where
  "netif_input E frame i s = eth_input E frame i s"

text \<open>The loopback transmit: an Ethernet header of zeroes with the type, then straight to the input.\<close>

definition lo_out :: "env \<Rightarrow> nif_id \<Rightarrow> u16 \<Rightarrow> bytes \<Rightarrow> net \<Rightarrow> int \<times> net" where
  "lo_out E i ethertype buf s =
    (if ETH_MTU < length buf then (- 1, s)
     else (0, netif_input E (replicate 12 0 @ put16 ethertype @ buf) i s))"

end
