(* ===== verification/Net_Props.thy ===== *)
theory Net_Props
  imports Net
begin

text \<open>
  What the lower network stack promises: a header that it sends passes its own checks and its
  payload reaches the protocol it is for; the ARP cache returns what was last put, and a frame
  that waits for an address goes out when the answer comes. Two theorems show why UDP delivers
  almost nothing and what its ring does with two datagrams.
\<close>

section \<open>Ones' complement sums\<close>

fun wsum :: "bytes \<Rightarrow> nat" where
  "wsum (a # b # bs) = 256 * unat a + unat b + wsum bs"
| "wsum [a] = 256 * unat a"
| "wsum [] = 0"

lemma unat_byte: "unat (x :: u8) < 256"
  using unsigned_less [of x] by simp

lemma unat_halfword: "unat (push_bit 8 (ucast (a :: u8)) OR ucast (b :: u8) :: u32) = 256 * unat a + unat b"
proof -
  have "push_bit 8 (ucast a :: u32) AND ucast b = 0"
    by (rule bit_word_eqI) (auto simp: bit_and_iff bit_push_bit_iff bit_ucast_iff dest: bit_imp_le_length)
  then have "push_bit 8 (ucast a) OR ucast b = push_bit 8 (ucast a) + (ucast b :: u32)"
    by (rule disjunctive_add_eq_or [symmetric])
  moreover have "unat (push_bit 8 (ucast a) :: u32) = 256 * unat a"
    using unat_byte [of a] by (simp add: push_bit_eq_mult unat_word_ariths unsigned_ucast_eq take_bit_nat_eq_self)
  moreover have "unat (ucast b :: u32) = unat b"
    using unat_byte [of b] by (simp add: unsigned_ucast_eq take_bit_nat_eq_self)
  ultimately show ?thesis using unat_byte [of a] unat_byte [of b] by (simp add: unat_add_small)
qed

lemma unat_high_byte: "unat (push_bit 8 (ucast (a :: u8)) :: u32) = 256 * unat a"
  using unat_halfword [of a 0] by simp

lemma sum16_wsum: "unat acc + 65536 * length p < 2 ^ 32 \<Longrightarrow> unat (sum16 p acc) = unat acc + wsum p"
proof (induction p acc rule: sum16.induct)
  case (1 a b bs acc)
  let ?h = "push_bit 8 (ucast a) OR ucast b :: u32"
  have h: "unat ?h = 256 * unat a + unat b" "unat ?h < 65536" using unat_halfword [of a b] unat_byte [of a] unat_byte [of b] by auto
  have s: "unat (acc + ?h) = unat acc + unat ?h" using 1(2) h(2) by (intro unat_add_small) simp
  have "unat (sum16 bs (acc + ?h)) = unat (acc + ?h) + wsum bs" using 1(2) s h(2) by (intro 1(1)) simp
  then show ?case using s h(1) by simp
next
  case (2 a acc)
  have "unat (acc + push_bit 8 (ucast a)) = unat acc + unat (push_bit 8 (ucast a) :: u32)"
    using 2 unat_high_byte [of a] unat_byte [of a] by (intro unat_add_small) simp
  then show ?case using unat_high_byte [of a] by simp
qed simp

lemma mod_65535_fold: "(n mod 65536 + n div 65536) mod 65535 = (n :: nat) mod 65535"
proof -
  define a where "a = n mod 65536 + n div 65536"
  have "n = a + n div 65536 * 65535" by (simp add: a_def)
  then have "n mod 65535 = a mod 65535" by (metis mod_mult_self1)
  then show ?thesis by (simp add: a_def)
qed

lemma fold16_props: "unat (fold16 acc) \<le> 65535 \<and> unat (fold16 acc) mod 65535 = unat acc mod 65535 \<and> (fold16 acc = 0 \<longleftrightarrow> acc = 0)"
proof (induction acc rule: fold16.induct)
  case (1 acc)
  show ?case
  proof (cases "drop_bit 16 acc \<noteq> 0")
    case True
    let ?n = "(acc AND 0xffff) + drop_bit 16 acc"
    have f: "fold16 acc = fold16 ?n" using True by (subst fold16.simps) simp
    have "65536 \<le> unat acc" using True by (simp only: fold16_carry)
    then have "0 < unat acc mod 65536 + unat acc div 65536" "acc \<noteq> 0" by auto
    then have "?n \<noteq> 0" using fold16_step [of acc] by (metis unat_0 less_irrefl)
    then show ?thesis using 1 [OF True] fold16_step [of acc] mod_65535_fold [of "unat acc"] \<open>acc \<noteq> 0\<close> unfolding f by simp
  next
    case False
    then have "fold16 acc = acc" by (subst fold16.simps) simp
    moreover have "unat acc < 65536" using False fold16_carry [of acc] by simp
    ultimately show ?thesis by simp
  qed
qed

lemma unat_fold16: "n < 2 ^ 32 \<Longrightarrow> 0 < n \<Longrightarrow>
    unat (fold16 (of_nat n)) \<le> 65535 \<and> unat (fold16 (of_nat n)) mod 65535 = n mod 65535 \<and> 0 < unat (fold16 (of_nat n))"
  using fold16_props [of "of_nat n"] unat_of_nat_small [of n, where 'a = 32] unat_eq_0 [of "of_nat n :: u32"]
    unat_eq_0 [of "fold16 (of_nat n)"] by auto

text \<open>Adding the complement of the folded sum makes the folded sum all ones.\<close>

lemma fold16_complement:
  assumes "0 < n" and "n \<le> 65536 * 20"
  shows "unat (fold16 (of_nat (n + (65535 - unat (fold16 (of_nat n)))))) = 65535"
proof -
  define f where "f = unat (fold16 (of_nat n))"
  have f: "f \<le> 65535" "f mod 65535 = n mod 65535" using unat_fold16 [of n] assms by (auto simp: f_def)
  define t where "t = n + (65535 - f)"
  define g where "g = unat (fold16 (of_nat t))"
  have tf: "t + f = n + 65535" using f(1) by (simp add: t_def)
  have "(t + f) mod 65535 = f mod 65535" unfolding tf f(2) by (rule mod_add_self2)
  then have "65535 dvd t + f - f" by (subst (asm) mod_eq_dvd_iff_nat) simp
  then have t0: "t mod 65535 = 0" by simp
  have "t < 2 ^ 32" "0 < t" using assms by (auto simp: t_def)
  from unat_fold16 [OF this] have g: "g \<le> 65535" "g mod 65535 = 0" "0 < g" unfolding g_def [symmetric] t0 by auto
  have "\<not> g < 65535"
  proof
    assume "g < 65535"
    then have "g mod 65535 = g" by (rule mod_less)
    with g(2,3) show False by simp
  qed
  with g(1) show ?thesis unfolding f_def [symmetric] t_def [symmetric] g_def [symmetric] by simp
qed

lemma unat_checksum: "length p \<le> 60 \<Longrightarrow> unat (ip4_checksum p) = 65535 - unat (fold16 (of_nat (wsum p)))"
proof -
  assume len: "length p \<le> 60"
  let ?f = "fold16 (sum16 p 0)"
  have "unat (sum16 p 0) = wsum p" using len by (subst sum16_wsum) simp_all
  then have "of_nat (unat (sum16 p 0)) = (of_nat (wsum p) :: u32)" by simp
  then have e: "sum16 p 0 = of_nat (wsum p)" by simp
  have f: "unat ?f \<le> 65535" using fold16_props by blast
  have "NOT ?f = 0xffffffff - ?f" by (simp add: not_eq_complement)
  then have nf: "unat (NOT ?f) = 4294967295 - unat ?f" using f by (simp add: unat_sub word_le_nat_alt)
  have "4294967295 - unat ?f = (65535 - unat ?f) + 65535 * 65536" using f by simp
  then have "(4294967295 - unat ?f) mod 65536 = (65535 - unat ?f) mod 65536" by (simp only: mod_mult_self1)
  also have "\<dots> = 65535 - unat ?f" by simp
  finally have "(4294967295 - unat ?f) mod 65536 = 65535 - unat ?f" .
  then have "unat (NOT ?f AND 0xffff) = 65535 - unat ?f"
    using mask_and_eq_mod [of "NOT ?f" 16] nf by (simp add: mask_eq_exp_minus_1)
  then show ?thesis unfolding ip4_checksum_def e by (simp add: unsigned_ucast_eq take_bit_nat_eq_self)
qed

section \<open>Headers\<close>

lemma length_put [simp]: "length (put16 v) = 2" "length (put32 w) = 4"
  by (simp_all add: put16_def put32_def)

lemma put16_parts: "256 * unat (ucast (drop_bit 8 v) :: u8) + unat (ucast v :: u8) = unat (v :: u16)"
proof -
  have "unat v < 256 * 256" using unsigned_less [of v] by simp
  then have "unat v div 256 < 256" by (rule less_mult_imp_div_less)
  then have "unat (ucast (drop_bit 8 v) :: u8) = unat v div 256"
    by (simp add: unsigned_ucast_eq drop_bit_eq_div unat_div take_bit_nat_eq_self)
  moreover have "unat (ucast v :: u8) = unat v mod 256" by (simp add: unsigned_ucast_eq take_bit_eq_mod)
  ultimately show ?thesis by simp
qed

lemma length_ip4_header: "length idf = 4 \<Longrightarrow> length (ip4_header tot idf proto c src dst) = 20"
  by (simp add: ip4_header_def)

lemma wsum_header:
  assumes "length idf = 4"
  shows "wsum (ip4_header tot idf proto c src dst) = wsum (ip4_header tot idf proto 0 src dst) + unat c"
    and "0 < wsum (ip4_header tot idf proto 0 src dst)"
proof -
  obtain a b d e where i: "idf = [a, b, d, e]" using assms by (auto simp: numeral_eq_Suc length_Suc_conv)
  show "wsum (ip4_header tot idf proto c src dst) = wsum (ip4_header tot idf proto 0 src dst) + unat c"
    using put16_parts [of c] by (simp add: ip4_header_def i put16_def put32_def)
  show "0 < wsum (ip4_header tot idf proto 0 src dst)" by (simp add: ip4_header_def i put16_def put32_def)
qed

lemma wsum_le: "wsum p \<le> 65536 * length p"
proof (induction p rule: wsum.induct)
  case (1 a b bs)
  then show ?case using unat_byte [of a] unat_byte [of b] by simp
next
  case (2 a)
  then show ?case using unat_byte [of a] by simp
qed simp

text \<open>A header with its checksum in place sums to all ones.\<close>

lemma header_checksum:
  assumes "length idf = 4"
  shows "ip4_checksum (ip4_header tot idf proto (ip4_checksum (ip4_header tot idf proto 0 src dst)) src dst) = 0"
proof -
  let ?h = "\<lambda>c. ip4_header tot idf proto c src dst"
  let ?c = "ip4_checksum (?h 0)"
  have len: "length (?h c) \<le> 60" for c using length_ip4_header [OF assms] by simp
  have "wsum (?h 0) \<le> 65536 * 20" using wsum_le [of "?h 0"] length_ip4_header [OF assms] by simp
  from fold16_complement [OF wsum_header(2) [OF assms] this]
  have "unat (fold16 (of_nat (wsum (?h ?c)))) = 65535"
    unfolding wsum_header(1) [OF assms, of tot proto ?c] unat_checksum [OF len] .
  then have "unat (ip4_checksum (?h ?c)) = 0" unfolding unat_checksum [OF len] by simp
  then show ?thesis by (simp only: unat_eq_0)
qed

lemma get16_put16: "get16 (pre @ put16 v @ post) (length pre) = v"
proof -
  have "push_bit 8 (ucast (ucast (drop_bit 8 v) :: u8)) OR ucast (ucast v :: u8) = v"
  proof (rule bit_word_eqI)
    fix n assume "n < LENGTH(16)"
    then show "bit (push_bit 8 (ucast (ucast (drop_bit 8 v) :: u8)) OR ucast (ucast v :: u8) :: u16) n = bit v n"
      by (cases "n < 8") (auto simp: bit_or_iff bit_push_bit_iff bit_ucast_iff bit_drop_bit_eq)
  qed
  then show ?thesis by (simp add: get16_def put16_def nth_append)
qed

lemma put32_word: "push_bit 24 (ucast (ucast (drop_bit 24 v) :: u8)) OR push_bit 16 (ucast (ucast (drop_bit 16 v) :: u8)) OR
    push_bit 8 (ucast (ucast (drop_bit 8 v) :: u8)) OR ucast (ucast v :: u8) = (v :: u32)"
proof (rule bit_word_eqI)
  fix n assume n: "n < LENGTH(32)"
  then consider "n < 8" | "8 \<le> n" "n < 16" | "16 \<le> n" "n < 24" | "24 \<le> n" "n < 32" by fastforce
  then show "bit (push_bit 24 (ucast (ucast (drop_bit 24 v) :: u8)) OR push_bit 16 (ucast (ucast (drop_bit 16 v) :: u8)) OR
      push_bit 8 (ucast (ucast (drop_bit 8 v) :: u8)) OR ucast (ucast v :: u8) :: u32) n = bit v n"
    by cases (auto simp: bit_or_iff bit_push_bit_iff bit_ucast_iff bit_drop_bit_eq)
qed

lemma get32_put32: "get32 (pre @ put32 v @ post) (length pre) = v"
  using put32_word [of v] by (simp add: get32_def put32_def nth_append)

lemma header_fields:
  assumes "length idf = 4" and p_def: "p = ip4_header tot idf proto c src dst @ buf"
  shows "p ! 0 = 0x45" "p ! 9 = proto" "get16 p 2 = tot" "get16 p 10 = c" "get32 p 12 = src" "get32 p 16 = dst"
    "take 20 p = ip4_header tot idf proto c src dst" "drop 20 p = buf"
proof -
  obtain x y z w where i: "idf = [x, y, z, w]" using assms(1) by (auto simp: numeral_eq_Suc length_Suc_conv)
  have h: "p = [0x45, 0] @ put16 tot @ idf @ [64, proto] @ put16 c @ put32 src @ put32 dst @ buf" by (simp add: p_def ip4_header_def)
  show "p ! 0 = 0x45" "p ! 9 = proto" by (simp_all add: h i put16_def)
  show "get16 p 2 = tot" using get16_put16 [of "[0x45, 0]" tot "idf @ [64, proto] @ put16 c @ put32 src @ put32 dst @ buf"] by (simp add: h numeral_2_eq_2)
  show "get16 p 10 = c"
    using get16_put16 [of "[0x45, 0] @ put16 tot @ idf @ [64, proto]" c "put32 src @ put32 dst @ buf"] assms(1) by (simp add: h)
  show "get32 p 12 = src"
    using get32_put32 [of "[0x45, 0] @ put16 tot @ idf @ [64, proto] @ put16 c" src "put32 dst @ buf"] assms(1) by (simp add: h)
  show "get32 p 16 = dst"
    using get32_put32 [of "[0x45, 0] @ put16 tot @ idf @ [64, proto] @ put16 c @ put32 src" dst buf] assms(1) by (simp add: h)
  show "take 20 p = ip4_header tot idf proto c src dst" "drop 20 p = buf" using length_ip4_header [OF assms(1)] by (simp_all add: p_def)
qed

text \<open>C40: What one host sends, another accepts. For a payload within the MTU and a resolved
  destination, \<open>ip4_output\<close> hands the interface a packet that \<open>ipv4_input\<close> on the host with the
  destination address accepts (version, lengths and header checksum all pass), and exactly the
  payload reaches the input function of its protocol, with the source address.\<close>

theorem ip4_output_accepted:
  assumes "length buf \<le> ETH_MTU - 20" and "arp_lookup dst s = Some hw" and "dst = nif_ip_addr (n_nif r j)"
  shows "\<exists>pkt. ip4_output E i src dst proto buf s = e_link_out E i hw ETHERTYPE_IPV4 pkt s \<and>
    ipv4_input E j pkt r =
      (if proto = IPV4_PROTO_ICMP then icmp_input E j src dst buf r
       else if proto = IPV4_PROTO_UDP then udp_input E src buf r
       else if proto = IPV4_PROTO_TCP then e_tcp_input E j src dst buf r else r)"
proof -
  define tot where "tot = (of_nat (20 + length buf) :: u16)"
  define idf where "idf = [0x40, 0, 0, 0 :: u8]"
  have idf: "length idf = 4" by (simp add: idf_def)
  define c where "c = ip4_checksum (ip4_header tot idf proto 0 src dst)"
  define p where "p = ip4_header tot idf proto c src dst @ buf"
  have len: "length p = 20 + length buf" using length_ip4_header [OF idf] by (simp add: p_def)
  have ihl: "unat ((0x45 :: u8) AND 0x0f) * 4 = 20" "drop_bit 4 (0x45 :: u8) = 4" by simp_all
  have tot: "unat tot = 20 + length buf" using assms(1) unfolding tot_def by (intro unat_of_nat_small) simp
  note hf = header_fields [OF idf p_def]
  have "ip4_output E i src dst proto buf s = e_link_out E i hw ETHERTYPE_IPV4 p s"
    using assms(1,2) len unfolding ip4_output_def Let_def tot_def [symmetric] idf_def [symmetric] c_def [symmetric] p_def [symmetric]
    by (simp add: arp_send_ip_def)
  moreover have "ip4_checksum (ip4_header tot idf proto c src dst) = 0" unfolding c_def by (rule header_checksum [OF idf])
  then have "ipv4_input E j p r =
      (if proto = IPV4_PROTO_ICMP then icmp_input E j src dst buf r
       else if proto = IPV4_PROTO_UDP then udp_input E src buf r
       else if proto = IPV4_PROTO_TCP then e_tcp_input E j src dst buf r else r)"
    unfolding ipv4_input_def Let_def hf len ihl tot using assms(3) by simp
  ultimately show ?thesis by blast
qed

text \<open>A driver that accepts every frame, and a host with a resolved neighbour, for the witnesses.\<close>

definition quiet_env :: env where
  "quiet_env = \<lparr>e_link_out = (\<lambda>i hw t p s. (0, s)), e_hook = (\<lambda>h a sp p s. s), e_wake = (\<lambda>w s. s),
     e_tcp_input = (\<lambda>i a b p s. s), e_stack4 = [0, 0, 0, 0]\<rparr>"

definition host :: "ip \<Rightarrow> arp_entry list \<Rightarrow> net" where
  "host a c = \<lparr>n_nif = (\<lambda>i. \<lparr>nif_name = ''eth0'', nif_hwaddr = [2, 0, 0, 0, 0, 1], nif_ip_addr = a, nif_netmask = 0xffffff00, nif_is_loopback = False\<rparr>),
     n_netifs = [1], n_default = Some 1, n_cache = c, n_pending = \<lparr>ap_used = False, ap_ip = 0, ap_nif = 0, ap_frame = [], ap_sent_ms = 0, ap_tries = 0\<rparr>,
     n_pcb = (\<lambda>p. udp_zero), n_pcbs = [], n_hooks = [], n_next_eph = 49152,
     n_waiter = \<lparr>ps_done = False, ps_ok = False, ps_id = 0, ps_seq = 0\<rparr>, n_now = 0\<rparr>"

definition empty_arp :: "arp_entry list" where
  "empty_arp = replicate ARP_TABLE_MAX \<lparr>ae_valid = False, ae_ip = 0, ae_hw = replicate 6 0, ae_last_seen_ms = 0\<rparr>"

theorem ip4_output_accepted_witness:
  "\<exists>pkt. ip4_output quiet_env 1 0x0a000001 0x0a000002 IPV4_PROTO_UDP [1, 2, 3]
      (host 0x0a000001 (cache_put 0x0a000002 [2, 0, 0, 0, 0, 2] 0 empty_arp)) =
    e_link_out quiet_env 1 [2, 0, 0, 0, 0, 2] ETHERTYPE_IPV4 pkt
      (host 0x0a000001 (cache_put 0x0a000002 [2, 0, 0, 0, 0, 2] 0 empty_arp)) \<and>
    ipv4_input quiet_env 1 pkt (host 0x0a000002 empty_arp) = udp_input quiet_env 0x0a000001 [1, 2, 3] (host 0x0a000002 empty_arp)"
proof -
  have "arp_lookup 0x0a000002 (host 0x0a000001 (cache_put 0x0a000002 [2, 0, 0, 0, 0, 2] 0 empty_arp)) = Some [2, 0, 0, 0, 0, 2]"
    by (simp add: arp_lookup_def host_def cache_put_def empty_arp_def numeral_eq_Suc Let_def upt_rec)
  from ip4_output_accepted [where buf = "[1, 2, 3]" and r = "host 0x0a000002 empty_arp" and j = 1 and E = quiet_env and i = 1 and
    src = "0x0a000001" and proto = IPV4_PROTO_UDP, OF _ this]
  show ?thesis by (simp add: host_def)
qed

section \<open>ARP\<close>

lemma cache_slot_cases:
  "case cache_slot c a xs slot of
     None \<Rightarrow> slot = None \<and> (\<forall>i \<in> set xs. ae_valid (c ! i) \<and> ae_ip (c ! i) \<noteq> a)
   | Some k \<Rightarrow> (slot = Some k \<or> k \<in> set xs) \<and>
       ((ae_valid (c ! k) \<and> ae_ip (c ! k) = a) \<or> (\<forall>i \<in> set xs. \<not> (ae_valid (c ! i) \<and> ae_ip (c ! i) = a)))"
proof (induction xs arbitrary: slot)
  case (Cons i xs)
  show ?case
  proof (cases "ae_valid (c ! i) \<and> ae_ip (c ! i) = a")
    case False
    then show ?thesis using Cons.IH [of "if slot = None \<and> \<not> ae_valid (c ! i) then Some i else slot"]
      by (auto split: option.splits if_splits)
  qed simp
qed (auto split: option.splits)

lemma first_match:
  "cache_slot c a [m..<n] slot = Some k \<Longrightarrow> ae_valid (c ! k) \<and> ae_ip (c ! k) = a \<Longrightarrow> slot \<noteq> Some k \<Longrightarrow>
    \<forall>i. m \<le> i \<and> i < k \<longrightarrow> \<not> (ae_valid (c ! i) \<and> ae_ip (c ! i) = a)"
proof (induction "n - m" arbitrary: m slot)
  case (Suc d)
  then have m: "m < n" by simp
  show ?case
  proof (cases "ae_valid (c ! m) \<and> ae_ip (c ! m) = a")
    case True
    then show ?thesis using Suc.prems(1) m by (auto simp: upt_conv_Cons)
  next
    case False
    have "cache_slot c a [Suc m..<n] (if slot = None \<and> \<not> ae_valid (c ! m) then Some m else slot) = Some k"
      using Suc.prems(1) m False by (simp add: upt_conv_Cons)
    then have "\<forall>i. Suc m \<le> i \<and> i < k \<longrightarrow> \<not> (ae_valid (c ! i) \<and> ae_ip (c ! i) = a)"
      by (rule Suc.hyps(1) [rotated]) (use Suc.hyps(2) Suc.prems(2,3) False in auto)
    then show ?thesis using False by (metis Suc_leI le_neq_implies_less)
  qed
qed simp

lemma cache_put_lookup:
  assumes len: "length c = ARP_TABLE_MAX"
  shows "map_option ae_hw (find (\<lambda>e. ae_valid e \<and> ae_ip e = a) (cache_put a hw now c)) = Some hw"
proof -
  define k where "k = (case cache_slot c a [0..<ARP_TABLE_MAX] None of None \<Rightarrow> 0 | Some i \<Rightarrow> i)"
  let ?e = "\<lparr>ae_valid = True, ae_ip = a, ae_hw = hw, ae_last_seen_ms = now\<rparr>"
  have put: "cache_put a hw now c = c[k := ?e]" by (simp add: cache_put_def k_def)
  note cs = cache_slot_cases [where c = c and a = a and slot = None and xs = "[0..<ARP_TABLE_MAX]"]
  have k: "k < length c" using cs len by (auto simp: k_def split: option.splits)
  have "\<not> (ae_valid (c ! i) \<and> ae_ip (c ! i) = a)" if "i < k" for i
  proof (cases "cache_slot c a [0..<ARP_TABLE_MAX] None")
    case (Some j)
    then have j: "j = k" by (simp add: k_def)
    show ?thesis
    proof (cases "ae_valid (c ! k) \<and> ae_ip (c ! k) = a")
      case True
      then show ?thesis using first_match [where c = c and a = a and m = 0 and n = ARP_TABLE_MAX and slot = None and k = k] Some j that by simp
    next
      case False
      then show ?thesis using cs Some j that k len by auto
    qed
  qed (use that in \<open>simp add: k_def\<close>)
  then have "find (\<lambda>e. ae_valid e \<and> ae_ip e = a) (c[k := ?e]) = Some ?e"
    using k by (auto simp: find_Some_iff intro!: exI [of _ k])
  then show ?thesis by (simp add: put)
qed

lemma arp_fields:
  assumes "length shw = 6" and "length dhw = 6" and p_def: "p = arp_build op shw sip dhw dip"
  shows "length p = 28" "get16 p 6 = op" "get32 p 14 = sip" "take 6 (drop 8 p) = shw" "get32 p 24 = dip"
proof -
  have h: "p = put16 1 @ put16 ETHERTYPE_IPV4 @ [6, 4] @ put16 op @ shw @ put32 sip @ dhw @ put32 dip" by (simp add: p_def arp_build_def)
  show "length p = 28" using assms(1,2) by (simp add: h)
  show "get16 p 6 = op"
    using get16_put16 [of "put16 1 @ put16 ETHERTYPE_IPV4 @ [6, 4]" op "shw @ put32 sip @ dhw @ put32 dip"] by (simp add: h)
  show "get32 p 14 = sip"
    using get32_put32 [of "put16 1 @ put16 ETHERTYPE_IPV4 @ [6, 4] @ put16 op @ shw" sip "dhw @ put32 dip"] assms(1) by (simp add: h)
  show "take 6 (drop 8 p) = shw" using assms(1) by (simp add: h put16_def)
  show "get32 p 24 = dip"
    using get32_put32 [of "put16 1 @ put16 ETHERTYPE_IPV4 @ [6, 4] @ put16 op @ shw @ put32 sip @ dhw" dip "[]"] assms(1,2) by (simp add: h)
qed

text \<open>Address resolution works. While a packet waits for an address, the ARP reply of that
  address makes the stack hand the packet, byte for byte, to the interface it was queued for with
  the hardware address from the reply; it does so in a state in which nothing waits any more, the
  cache resolves the address, and further packets for it go straight to the interface.\<close>

theorem arp_resolves_and_sends:
  assumes "length (n_cache s) = ARP_TABLE_MAX" and "ap_used (n_pending s)" and "ap_ip (n_pending s) = dst" and "dst \<noteq> 0"
    and "length hw = 6" and "length dhw = 6"
  shows "\<exists>s1. arp_input E (arp_build ARP_REPLY hw dst dhw dip) j s =
      snd (e_link_out E (ap_nif (n_pending s)) hw ETHERTYPE_IPV4 (ap_frame (n_pending s)) s1) \<and>
    arp_lookup dst s1 = Some hw \<and> \<not> ap_used (n_pending s1) \<and>
    (\<forall>buf. length buf \<le> ETH_MTU \<longrightarrow> arp_send_ip E i dst buf s1 = e_link_out E i hw ETHERTYPE_IPV4 buf s1)"
proof -
  note f = arp_fields [OF assms(5,6) refl, of ARP_REPLY dst dip]
  let ?s1 = "s\<lparr>n_cache := cache_put dst hw (n_now s) (n_cache s), n_pending := (n_pending s)\<lparr>ap_used := False\<rparr>\<rparr>"
  have l: "arp_lookup dst ?s1 = Some hw" using cache_put_lookup [OF assms(1)] by (simp add: arp_lookup_def)
  have "arp_input E (arp_build ARP_REPLY hw dst dhw dip) j s =
      snd (e_link_out E (ap_nif (n_pending s)) hw ETHERTYPE_IPV4 (ap_frame (n_pending s)) ?s1)"
    unfolding arp_input_def Let_def f using assms(2-4) by simp
  with l show ?thesis by (intro exI [of _ ?s1]) (simp add: arp_send_ip_def)
qed

theorem arp_resolves_and_sends_witness:
  "let s = snd (arp_send_ip quiet_env 1 0x0a000002 [7, 7] (host 0x0a000001 empty_arp))
   in \<exists>s1. arp_input quiet_env (arp_build ARP_REPLY [2, 0, 0, 0, 0, 2] 0x0a000002 [2, 0, 0, 0, 0, 1] 0x0a000001) 1 s =
        snd (e_link_out quiet_env 1 [2, 0, 0, 0, 0, 2] ETHERTYPE_IPV4 [7, 7] s1) \<and>
      arp_lookup 0x0a000002 s1 = Some [2, 0, 0, 0, 0, 2]"
proof -
  define s where "s = snd (arp_send_ip quiet_env 1 0x0a000002 [7, 7] (host 0x0a000001 empty_arp))"
  have "arp_lookup 0x0a000002 (host 0x0a000001 empty_arp) = None"
    by (auto simp: arp_lookup_def host_def empty_arp_def find_None_iff)
  then have s: "length (n_cache s) = ARP_TABLE_MAX" "ap_used (n_pending s)" "ap_ip (n_pending s) = 0x0a000002"
      "ap_nif (n_pending s) = 1" "ap_frame (n_pending s) = [7, 7]"
    by (simp_all add: s_def arp_send_ip_def arp_request_def arp_send_raw_def quiet_env_def host_def empty_arp_def)
  from arp_resolves_and_sends [OF s(1,2,3), where hw = "[2, 0, 0, 0, 0, 2]" and dhw = "[2, 0, 0, 0, 0, 1]" and E = quiet_env and dip = "0x0a000001" and j = 1 and i = 1] s(4,5)
  show ?thesis unfolding s_def [symmetric] Let_def by auto
qed

section \<open>UDP\<close>

lemma udp_plen_value:
  "unat (udp_plen (from_le [lo, hi])) = unat hi + 256 * unat lo + 65536 * unat hi"
proof -
  define v where "v = (from_le [lo, hi] :: u16)"
  have b16: "bit v n \<longleftrightarrow> (if n < 8 then bit lo n else bit hi (n - 8))" for n
  proof (cases "n < 8")
    case False
    then show ?thesis using bit_imp_le_length [of hi "n - 8"] by (auto simp: v_def bit_or_iff bit_push_bit_iff bit_ucast_iff dest: bit_imp_le_length)
  qed (auto simp: v_def bit_or_iff bit_push_bit_iff bit_ucast_iff)
  let ?h = "ucast hi :: u32" and ?l = "ucast lo :: u32"
  have "udp_plen v = push_bit 16 ?h OR (push_bit 8 ?l OR ?h)"
  proof (rule bit_word_eqI)
    fix n assume "n < LENGTH(32)"
    have hb: "bit hi k \<Longrightarrow> k < 8" for k using bit_imp_le_length [of hi k] by simp
    have lb: "bit lo k \<Longrightarrow> k < 8" for k using bit_imp_le_length [of lo k] by simp
    have nh: "\<not> bit hi k" "\<not> bit lo k" if "8 \<le> k" for k using hb [of k] lb [of k] that by auto
    from \<open>n < LENGTH(32)\<close> consider "n < 8" | "8 \<le> n" "n < 16" | "16 \<le> n" "n < 24" | "24 \<le> n" "n < 32" by fastforce
    then show "bit (udp_plen v) n = bit (push_bit 16 ?h OR (push_bit 8 ?l OR ?h)) n"
      unfolding udp_plen_def by cases (auto simp: bit_or_iff bit_push_bit_iff bit_ucast_iff bit_drop_bit_eq b16 nh)
  qed
  moreover have "push_bit 16 ?h AND (push_bit 8 ?l OR ?h) = 0"
    by (rule bit_word_eqI) (auto simp: bit_and_iff bit_or_iff bit_push_bit_iff bit_ucast_iff dest: bit_imp_le_length)
  then have "push_bit 16 ?h OR (push_bit 8 ?l OR ?h) = push_bit 16 ?h + (push_bit 8 ?l OR ?h)"
    by (rule disjunctive_add_eq_or [symmetric])
  moreover have "unat (push_bit 16 ?h) = 65536 * unat hi"
    using unat_byte [of hi] by (simp add: push_bit_eq_mult unat_word_ariths unsigned_ucast_eq take_bit_nat_eq_self)
  ultimately show ?thesis using unat_halfword [of lo hi] unat_byte [of hi] unat_byte [of lo]
    unfolding v_def [symmetric] by (simp add: unat_add_small)
qed

lemma take2: "5 < length p \<Longrightarrow> take 2 (drop 4 p) = [p ! 4, p ! 5]"
  by (simp add: numeral_eq_Suc take_Suc_conv_app_nth)

text \<open>UDP input drops what it should deliver. The length field is swapped in 32 bits and not cut
  to 16, so every datagram whose wire length is not a multiple of 256 is discarded as longer than
  its packet; and every datagram that \<open>udp_send\<close> builds, whose header is in host order, is
  discarded by the same check.\<close>

theorem udp_input_drops:
  assumes "length pkt \<le> 65535" and "pkt ! 5 \<noteq> 0" and "length buf \<le> 512"
  shows "udp_input E src pkt s = s \<and> udp_input E src (udp_packet sp dp csum buf) s = s"
proof
  have "0 < unat (pkt ! 5)" using assms(2) by (simp add: unat_gt_0)
  then have "length pkt < unat (udp_plen (from_le [pkt ! 4, pkt ! 5]))" unfolding udp_plen_value using assms(1) by simp
  then show "udp_input E src pkt s = s"
    by (cases "length pkt < 8") (simp_all add: udp_input_def Let_def take2 del: from_le.simps)
  let ?p = "udp_packet sp dp csum buf" and ?t = "of_nat (8 + length buf) :: u16"
  have len: "length ?p = 8 + length buf" by (simp add: udp_packet_def)
  have "take 2 (drop 4 ?p) = le_bytes 2 ?t" by (simp add: udp_packet_def)
  moreover have "le_bytes 2 ?t = [ucast ?t, ucast (drop_bit 8 ?t)]" by (simp add: le_bytes_def numeral_2_eq_2)
  moreover have "unat ?t = 8 + length buf" using assms(3) by (intro unat_of_nat_small) simp
  then have "256 * unat (ucast (drop_bit 8 ?t) :: u8) + unat (ucast ?t :: u8) = 8 + length buf" using put16_parts [of ?t] by simp
  then have "8 + length buf < unat (udp_plen (from_le [ucast ?t, ucast (drop_bit 8 ?t)]))"
    unfolding udp_plen_value by (cases "unat (ucast (drop_bit 8 ?t) :: u8) = 0") simp_all
  ultimately show "udp_input E src ?p s = s" by (simp add: udp_input_def Let_def len del: from_le.simps)
qed

theorem udp_input_drops_witness:
  "udp_input quiet_env 0x0a000002 [0, 53, 0xc0, 0, 0, 10, 0, 0, 1, 2] (host 0x0a000001 empty_arp) = host 0x0a000001 empty_arp \<and>
   udp_input quiet_env 0x0a000002 (udp_packet 53 49152 7 [1, 2]) (host 0x0a000001 empty_arp) = host 0x0a000001 empty_arp"
  by (rule udp_input_drops) simp_all

text \<open>The ring keeps one datagram: after two arrivals, the first receive returns the bytes of the
  second one, cut to the length of the first.\<close>

lemma udp_ring_overwrites:
  assumes "up_ring_count x = 0" and "up_ring_head x = 0" and "length (up_ring_lens x) = 8" and "length (up_ring x) = UDP_RING_SZ"
    and "length a \<le> length b" and "length b \<le> UDP_RING_SZ" and "n_pcb s p = ring_put b (ring_put a x)"
  shows "\<exists>s'. udp_recv p UDP_RING_SZ s = Some (take (length a) b, s')"
proof -
  have "unat (of_nat (length a) :: u16) = length a" using assms(5,6) by (intro unat_of_nat_small) simp
  then show ?thesis using assms by (simp add: udp_recv_def Let_def ring_put_def min_def)
qed

text \<open>Addresses made by \<open>IP4\<close> go out with their octets reversed.\<close>

lemma ip4_macro_reversed: "ip4_pack IP4_LOOPBACK = [1, 0, 0, 127]"
  by (simp add: ip4_pack_def IP4_LOOPBACK_def IP4_def)

end
