(* ===== verification/Uaccess.thy ===== *)
theory Uaccess
  imports Vmm_Map
begin

text \<open>
  Access to user memory (\<open>kernel/uaccess.c\<close>) over the page tables of \<open>Vmm\<close>: the range check, the
  page-by-page validation and the copies through the identity map. The root of the calling
  process is an argument; a kernel buffer is a list of bytes. The copies walk the tables again
  for each page; a walk that fails there leaves the address undefined and is \<open>None\<close>.
\<close>

section \<open>The routines\<close>

abbreviation USER_VA_LIMIT :: u64 where "USER_VA_LIMIT \<equiv> 0x40000000000"

definition range_ok :: "u64 \<Rightarrow> nat \<Rightarrow> bool" where
  "range_ok va len \<longleftrightarrow>
    va < USER_VA_LIMIT \<and>
    (len = 0 \<or> (let last = va + of_nat len - 1 in va \<le> last \<and> last < USER_VA_LIMIT))"

text \<open>What is left of the page behind an address.\<close>

definition page_rest :: "u64 \<Rightarrow> nat" where
  "page_rest va = unat (PAGE_SIZE - (va AND (PAGE_SIZE - 1)))"

lemma page_masks:
  "(4095 :: u64) = mask 12"
  "(- 4096 :: u64) = NOT (mask 12)"
  "(0xfffffffff000 :: u64) = mask 48 AND NOT (mask 12)"
  by code_simp+

lemma page_offset: "unat (va AND 4095 :: u64) = unat va mod 4096"
  by (simp add: page_masks(1) mask_and_eq_mod)

lemma page_rest: "page_rest va = 4096 - unat va mod 4096"
  unfolding page_rest_def by (subst unat_sub) (auto simp: word_le_nat_alt page_offset)

lemma page_rest_pos: "0 < page_rest va"
  by (simp add: page_rest)

function check_range :: "mem \<Rightarrow> u64 \<Rightarrow> u64 \<Rightarrow> nat \<Rightarrow> bool \<Rightarrow> bool" where
  "check_range m root va len wr =
    (if len = 0 then True
     else
       let chunk = min (page_rest va) len
       in case vmm_probe m root (ALIGN_DOWN va PAGE_SIZE) of
            None \<Rightarrow> False
          | Some (_, fl) \<Rightarrow>
              fl AND VM_USER \<noteq> 0 \<and> (wr \<longrightarrow> fl AND VM_WRITE \<noteq> 0) \<and>
              check_range m root (va + of_nat chunk) (len - chunk) wr)"
  by pat_completeness auto
termination
  by (relation "measure (\<lambda>(m, root, va, len, wr). len)") (use page_rest_pos in auto)

declare check_range.simps [simp del]

text \<open>The address in the identity map: the frame of the page and the offset in it.\<close>

definition ident_addr :: "u64 \<Rightarrow> u64 \<Rightarrow> u64" where
  "ident_addr pa va = (pa AND NOT (PAGE_SIZE - 1)) + (va AND (PAGE_SIZE - 1))"

function copy_in_loop :: "mem \<Rightarrow> u64 \<Rightarrow> u64 \<Rightarrow> nat \<Rightarrow> u8 list option" where
  "copy_in_loop m root va len =
    (if len = 0 then Some []
     else
       let chunk = min (page_rest va) len
       in case vmm_probe m root va of
            None \<Rightarrow> None
          | Some (pa, _) \<Rightarrow>
              map_option (\<lambda>bs. load_bytes m (ident_addr pa va) chunk @ bs) (copy_in_loop m root (va + of_nat chunk) (len - chunk)))"
  by pat_completeness auto
termination
  by (relation "measure (\<lambda>(m, root, va, len). len)") (use page_rest_pos in auto)

declare copy_in_loop.simps [simp del]

definition copy_in :: "mem \<Rightarrow> u64 \<Rightarrow> u64 \<Rightarrow> nat \<Rightarrow> (int \<times> u8 list) option" where
  "copy_in m root usrc len =
    (if \<not> range_ok usrc len \<or> \<not> check_range m root usrc len False then Some (- EFAULT, [])
     else map_option (\<lambda>bs. (0, bs)) (copy_in_loop m root usrc len))"

function copy_out_loop :: "u64 \<Rightarrow> u64 \<Rightarrow> u8 list \<Rightarrow> mem \<Rightarrow> mem option" where
  "copy_out_loop root va bs m =
    (if bs = [] then Some m
     else
       let chunk = min (page_rest va) (length bs)
       in case vmm_probe m root va of
            None \<Rightarrow> None
          | Some (pa, _) \<Rightarrow>
              copy_out_loop root (va + of_nat chunk) (drop chunk bs) (store_bytes m (ident_addr pa va) (take chunk bs)))"
  by pat_completeness auto
termination
  by (relation "measure (\<lambda>(root, va, bs, m). length bs)") (use page_rest_pos in auto)

declare copy_out_loop.simps [simp del]

definition copy_out :: "u64 \<Rightarrow> u64 \<Rightarrow> u8 list \<Rightarrow> mem \<Rightarrow> (int \<times> mem) option" where
  "copy_out root udst bs m =
    (if \<not> range_ok udst (length bs) \<or> \<not> check_range m root udst (length bs) True then Some (- EFAULT, m)
     else map_option (\<lambda>m1. (0, m1)) (copy_out_loop root udst bs m))"

text \<open>\<open>n\<close> counts the bytes seen, \<open>left\<close> how many the cap still allows.\<close>

fun strnlen_loop :: "mem \<Rightarrow> u64 \<Rightarrow> u64 \<Rightarrow> nat \<Rightarrow> nat \<Rightarrow> int option" where
  "strnlen_loop m root usrc n 0 = Some (- EFAULT)"
| "strnlen_loop m root usrc n (Suc left) =
    (let va = usrc + of_nat n
     in if \<not> range_ok va 1 \<or> \<not> check_range m root va 1 False then Some (- EFAULT)
        else case vmm_probe m root va of
          None \<Rightarrow> None
        | Some (pa, _) \<Rightarrow> if m pa = 0 then Some (int n) else strnlen_loop m root usrc (n + 1) left)"

definition uacc_strnlen_user :: "mem \<Rightarrow> u64 \<Rightarrow> u64 \<Rightarrow> nat \<Rightarrow> int option" where
  "uacc_strnlen_user m root usrc mx = strnlen_loop m root usrc 0 mx"

section \<open>Pages\<close>

lemma ident_addr_or: "ident_addr pa va = (pa AND NOT (mask 12)) OR (va AND mask 12)"
proof -
  have "(pa AND NOT (mask 12)) + (va AND mask 12) = (pa AND NOT (mask 12)) OR (va AND mask 12)"
    by (rule disjunctive_add) (auto simp: bit_and_iff bit_not_iff bit_mask_iff)
  then show ?thesis by (simp add: ident_addr_def page_masks)
qed

definition same_page :: "u64 \<Rightarrow> u64 \<Rightarrow> bool" where
  "same_page va va' \<longleftrightarrow> drop_bit 12 va' = drop_bit 12 va"

lemma same_page_bits: "same_page va va' \<longleftrightarrow> (\<forall>n. 12 \<le> n \<longrightarrow> bit va' n = bit va n)"
proof -
  have "drop_bit 12 va' = drop_bit 12 va \<longleftrightarrow> (\<forall>n. bit va' (12 + n) = bit va (12 + n))"
  proof
    assume e: "drop_bit 12 va' = drop_bit 12 va"
    have "bit (drop_bit 12 va') n = bit (drop_bit 12 va) n" for n by (simp only: e)
    then show "\<forall>n. bit va' (12 + n) = bit va (12 + n)" by (simp add: bit_drop_bit_eq)
  next
    assume "\<forall>n. bit va' (12 + n) = bit va (12 + n)"
    then show "drop_bit 12 va' = drop_bit 12 va" by (intro bit_word_eqI) (simp only: bit_drop_bit_eq comp_apply)
  qed
  also have "\<dots> \<longleftrightarrow> (\<forall>n. 12 \<le> n \<longrightarrow> bit va' n = bit va n)"
  proof
    assume a: "\<forall>n. bit va' (12 + n) = bit va (12 + n)"
    have "bit va' n = bit va n" if "12 \<le> n" for n using spec [OF a, of "n - 12"] that by simp
    then show "\<forall>n. 12 \<le> n \<longrightarrow> bit va' n = bit va n" by blast
  qed simp
  finally show ?thesis unfolding same_page_def .
qed

lemma same_page_down: "same_page va (ALIGN_DOWN va PAGE_SIZE)"
  by (auto simp: same_page_bits ALIGN_DOWN_def page_masks bit_and_iff bit_not_iff bit_mask_iff dest: bit_imp_le_length)

lemma page_split:
  assumes "(v :: nat) mod 4096 + i < 4096" and "v < 18446744073709551616"
  shows "v + i < 18446744073709551616" and "(v + i) div 4096 = v div 4096" and "(v + i) mod 4096 = v mod 4096 + i"
proof -
  define q r where "q = v div 4096" and "r = v mod 4096"
  have v: "v = 4096 * q + r" by (simp add: q_def r_def)
  have r: "r + i < 4096" using assms(1) by (simp add: r_def)
  have "q < 4503599627370496" using v assms(2) by linarith
  then show "v + i < 18446744073709551616" using v r by linarith
  have e: "v + i = (r + i) + 4096 * q" using v by simp
  show "(v + i) div 4096 = v div 4096" unfolding e using r by (simp add: q_def)
  show "(v + i) mod 4096 = v mod 4096 + i" unfolding e using r by (simp add: r_def)
qed

lemma same_page_add:
  assumes "i < page_rest va"
  shows "same_page va (va + of_nat i)" and "ident_addr pa (va + of_nat i) = ident_addr pa va + of_nat i"
proof -
  have lt: "unat va mod 4096 + i < 4096" using assms by (simp add: page_rest)
  have big: "unat va < 18446744073709551616" using unsigned_less [of va] by simp
  note s = page_split [OF lt big]
  have n: "unat (va + of_nat i) = unat va + i" by (rule unat_add_of_nat) (use s(1) in simp)
  show "same_page va (va + of_nat i)"
  proof -
    have "drop_bit 12 (unat (va + of_nat i)) = drop_bit 12 (unat va)" using s(2) by (simp add: drop_bit_eq_div n)
    then show ?thesis unfolding same_page_def word_unat_eq_iff by (simp only: unat_drop_bit_eq)
  qed
  have "unat ((va + of_nat i) AND 4095) = unat (va AND 4095) + i" by (simp only: page_offset n s(3))
  also have "\<dots> = unat ((va AND 4095) + of_nat i)"
    by (rule unat_add_of_nat [symmetric]) (use lt in \<open>simp add: page_offset\<close>)
  finally have "(va + of_nat i) AND 4095 = (va AND 4095) + of_nat i" by (rule iffD2 [OF word_unat_eq_iff])
  then show "ident_addr pa (va + of_nat i) = ident_addr pa va + of_nat i" by (simp add: ident_addr_def add.assoc)
qed

lemma same_page_look: "same_page va va' \<Longrightarrow> look 3 m root va' = look 3 m root va"
proof -
  assume "same_page va va'"
  then have "va' AND 0xfffffffff000 = va AND 0xfffffffff000"
    by (auto simp: bit_eq_iff page_masks bit_and_iff bit_not_iff bit_mask_iff same_page_bits)
  then have "same_path 0 3 va va'" unfolding same_path_page by simp
  then have "pt_idx l va' = pt_idx l va" if "l \<le> 3" for l using that by (simp add: same_path_def)
  then show ?thesis by (simp add: numeral_3_eq_3 Let_def)
qed

lemma ident_addr_same: "same_page va va' \<Longrightarrow> ident_addr (ident_addr pa va) va' = ident_addr pa va'"
  unfolding ident_addr_or by (auto simp: bit_eq_iff bit_or_iff bit_and_iff bit_not_iff bit_mask_iff)

lemma look_level: "look k m t va = Some (l, d) \<Longrightarrow> k \<le> 3 \<Longrightarrow> l \<le> 3"
  by (induction k arbitrary: t) (auto simp: Let_def split: if_splits)

lemma leaf_pa_page:
  assumes "l \<le> 3" and "same_page va va'"
  shows "leaf_pa l d va' = ident_addr (leaf_pa l d va) va'"
proof (rule bit_word_eqI)
  fix n :: nat assume "n < LENGTH(64)"
  have l: "12 \<le> level_shift ! l" using assms(1) by (auto simp: level_shift_def le_Suc_eq numeral_eq_Suc)
  have m: "leaf_pa l d va = (d AND PT_ADDR_MASK) OR (va AND mask (level_shift ! l))" for va
    by (simp only: leaf_pa_def mask_eq_exp_minus_1 push_bit_of_1)
  show "bit (leaf_pa l d va') n = bit (ident_addr (leaf_pa l d va) va') n"
    unfolding m ident_addr_or using assms(2) l \<open>n < LENGTH(64)\<close>
    by (auto simp: bit_or_iff bit_and_iff bit_not_iff bit_mask_iff same_page_bits page_masks)
qed

lemma probe_page:
  assumes "same_page va va'"
  shows "vmm_probe m root va' = map_option (\<lambda>(pa, fl). (ident_addr pa va', fl)) (vmm_probe m root va)"
proof (cases "look 3 m root va")
  case (Some p)
  obtain l d where p: "p = (l, d)" by fastforce
  have "l \<le> 3" using look_level [of 3 m root va l d] Some p by simp
  with leaf_pa_page [OF this assms] Some p same_page_look [OF assms] show ?thesis by (simp add: probe_look del: look.simps)
qed (simp add: probe_look same_page_look [OF assms] del: look.simps)

section \<open>The bytes a process may touch\<close>

text \<open>The physical address of a user byte, when the process may read (or write) it.\<close>

definition user_pa :: "mem \<Rightarrow> u64 \<Rightarrow> bool \<Rightarrow> u64 \<Rightarrow> u64 option" where
  "user_pa m root wr va =
    (case vmm_probe m root va of
       None \<Rightarrow> None
     | Some (pa, fl) \<Rightarrow> if fl AND VM_USER \<noteq> 0 \<and> (wr \<longrightarrow> fl AND VM_WRITE \<noteq> 0) then Some pa else None)"

lemma user_pa_read: "user_pa m root True va = Some pa \<Longrightarrow> user_pa m root False va = Some pa"
  by (auto simp: user_pa_def split: option.splits if_splits)

lemma user_pa_page:
  "same_page va va' \<Longrightarrow> user_pa m root wr va' = map_option (\<lambda>pa. ident_addr pa va') (user_pa m root wr va)"
  by (simp add: user_pa_def probe_page split: option.splits)

lemma user_pa_rest:
  assumes "user_pa m root wr va = Some pa" and "i < page_rest va"
  shows "user_pa m root wr (va + of_nat i) = Some (ident_addr pa va + of_nat i)"
  by (simp add: user_pa_page [OF same_page_add(1) [OF assms(2)]] assms(1) same_page_add(2) [OF assms(2)])

lemma user_pa_self: "user_pa m root wr va = Some pa \<Longrightarrow> ident_addr pa va = pa"
  using user_pa_page [of va va m root wr] by (simp add: same_page_def)

lemma all_less_add: "(\<forall>i<(a :: nat) + b. P i) \<longleftrightarrow> (\<forall>i<a. P i) \<and> (\<forall>i<b. P (a + i))"
  by (metis add_less_cancel_left le_add_diff_inverse linorder_not_less trans_less_add1)

lemma check_range_iff:
  "check_range m root va len wr \<longleftrightarrow> (\<forall>i<len. user_pa m root wr (va + of_nat i) \<noteq> None)"
proof (induction m root va len wr rule: check_range.induct)
  case (1 m root va len wr)
  show ?case
  proof (cases "len = 0")
    case False
    define c where "c = min (page_rest va) len"
    have c: "0 < c" "c \<le> page_rest va" "len = c + (len - c)" using False page_rest_pos by (auto simp: c_def)
    have down: "user_pa m root wr (ALIGN_DOWN va PAGE_SIZE) = None \<longleftrightarrow> user_pa m root wr va = None"
      by (simp add: user_pa_page [OF same_page_down])
    have page: "(\<forall>i<c. user_pa m root wr (va + of_nat i) \<noteq> None) \<longleftrightarrow> user_pa m root wr va \<noteq> None"
      using c user_pa_rest [of m root wr va] by force
    have step: "check_range m root va len wr \<longleftrightarrow>
        user_pa m root wr (ALIGN_DOWN va PAGE_SIZE) \<noteq> None \<and> check_range m root (va + of_nat c) (len - c) wr"
      using False by (subst check_range.simps) (simp add: user_pa_def Let_def c_def split: option.splits)
    have rest: "check_range m root (va + of_nat c) (len - c) wr \<longleftrightarrow>
        (\<forall>i<len - c. user_pa m root wr (va + of_nat c + of_nat i) \<noteq> None)"
      if "user_pa m root wr (ALIGN_DOWN va PAGE_SIZE) \<noteq> None"
    proof -
      from that obtain pa fl where "vmm_probe m root (ALIGN_DOWN va PAGE_SIZE) = Some (pa, fl)"
        "fl AND VM_USER \<noteq> 0" "wr \<longrightarrow> fl AND VM_WRITE \<noteq> 0" by (auto simp: user_pa_def split: option.splits if_splits)
      then show ?thesis using "1.IH" [OF False c_def] by simp
    qed
    have "(\<forall>i<len. user_pa m root wr (va + of_nat i) \<noteq> None) \<longleftrightarrow>
        user_pa m root wr va \<noteq> None \<and> (\<forall>i<len - c. user_pa m root wr (va + of_nat c + of_nat i) \<noteq> None)"
      unfolding page [symmetric] by (subst (1) c(3)) (simp add: all_less_add add.assoc)
    with step rest show ?thesis unfolding down by blast
  qed (simp add: check_range.simps)
qed

lemma range_ok_iff:
  assumes "len < 2 ^ 64"
  shows "range_ok va len \<longleftrightarrow> va < USER_VA_LIMIT \<and> unat va + len \<le> unat USER_VA_LIMIT"
proof (cases len)
  case (Suc k)
  have e: "va + of_nat len - 1 = va + of_nat k" by (simp add: Suc)
  have r: "range_ok va len \<longleftrightarrow> va < USER_VA_LIMIT \<and> va \<le> va + of_nat k \<and> va + of_nat k < USER_VA_LIMIT"
    unfolding range_ok_def Let_def e by (simp add: Suc)
  have k: "unat (of_nat k :: u64) = k" using assms by (simp add: Suc unat_of_nat take_bit_eq_mod)
  show ?thesis
  proof (cases "unat va + k < 2 ^ 64")
    case True
    have u: "unat (va + of_nat k) = unat va + k" by (rule unat_add_of_nat) (use True in simp)
    show ?thesis unfolding r by (auto simp: word_less_nat_alt word_le_nat_alt u Suc)
  next
    case False
    have v: "unat va < 2 ^ 64" using unsigned_less [of va] by simp
    have "unat (va + of_nat k) = (unat va + k) mod 2 ^ 64" by (simp add: unat_word_ariths k)
    also have "\<dots> = unat va + k - 2 ^ 64"
      using False assms v by (simp add: Suc mod_if)
    finally have "\<not> va \<le> va + of_nat k"
      using False assms v by (simp add: word_le_nat_alt Suc)
    moreover have "\<not> unat va + len \<le> unat USER_VA_LIMIT" using False by (simp add: Suc)
    ultimately show ?thesis unfolding r by simp
  qed
qed (auto simp: range_ok_def word_less_nat_alt)

text \<open>The range of \<open>len\<close> bytes from \<open>va\<close> on lies in the user window, and the process may read
  (write) each byte of it.\<close>

definition user_range :: "mem \<Rightarrow> u64 \<Rightarrow> bool \<Rightarrow> u64 \<Rightarrow> nat \<Rightarrow> bool" where
  "user_range m root wr va len \<longleftrightarrow>
    va < USER_VA_LIMIT \<and> unat va + len \<le> unat USER_VA_LIMIT \<and> (\<forall>i<len. user_pa m root wr (va + of_nat i) \<noteq> None)"

lemma checks_range:
  "len < 2 ^ 64 \<Longrightarrow> range_ok va len \<and> check_range m root va len wr \<longleftrightarrow> user_range m root wr va len"
  by (simp add: range_ok_iff check_range_iff user_range_def)

section \<open>The copies\<close>

text \<open>The user byte at an address that may be read.\<close>

definition user_byte :: "mem \<Rightarrow> u64 \<Rightarrow> u64 \<Rightarrow> u8" where
  "user_byte m root va = m (the (user_pa m root False va))"

lemma page_bytes:
  assumes "user_pa m root False va = Some pa" and "n \<le> page_rest va"
  shows "load_bytes m (ident_addr pa va) n = map (\<lambda>i. user_byte m root (va + of_nat i)) [0..<n]"
  unfolding load_bytes_def
  by (rule map_cong [OF refl]) (use assms in \<open>simp add: user_byte_def user_pa_rest\<close>)

lemma user_pa_probe: "user_pa m root wr va = Some pa \<Longrightarrow> \<exists>fl. vmm_probe m root va = Some (pa, fl)"
  by (auto simp: user_pa_def split: option.splits if_splits)

lemma copy_in_loop_bytes:
  "\<forall>i<len. user_pa m root False (va + of_nat i) \<noteq> None \<Longrightarrow>
    copy_in_loop m root va len = Some (map (\<lambda>i. user_byte m root (va + of_nat i)) [0..<len])"
proof (induction m root va len rule: copy_in_loop.induct)
  case (1 m root va len)
  show ?case
  proof (cases "len = 0")
    case False
    define c where "c = min (page_rest va) len"
    have c: "0 < c" "c \<le> page_rest va" "c \<le> len" "len = c + (len - c)" using False page_rest_pos by (auto simp: c_def)
    obtain pa where pa: "user_pa m root False va = Some pa" using spec [OF "1.prems", of 0] False by auto
    then obtain fl where p: "vmm_probe m root va = Some (pa, fl)" using user_pa_probe by blast
    have ok: "\<forall>i<len - c. user_pa m root False (va + of_nat c + of_nat i) \<noteq> None"
    proof (intro allI impI)
      fix i assume "i < len - c"
      then show "user_pa m root False (va + of_nat c + of_nat i) \<noteq> None"
        using spec [OF "1.prems", of "c + i"] by (simp add: add.assoc)
    qed
    have "copy_in_loop m root (va + of_nat c) (len - c) =
        Some (map (\<lambda>i. user_byte m root (va + of_nat c + of_nat i)) [0..<len - c])"
      by (rule "1.IH" [OF False c_def p refl ok])
    then have "copy_in_loop m root va len =
        Some (map (\<lambda>i. user_byte m root (va + of_nat i)) [0..<c] @ map (\<lambda>i. user_byte m root (va + of_nat c + of_nat i)) [0..<len - c])"
      using False by (subst copy_in_loop.simps) (simp add: p Let_def page_bytes [OF pa c(2)] flip: c_def)
    also have "map (\<lambda>i. user_byte m root (va + of_nat i)) [0..<c] @ map (\<lambda>i. user_byte m root (va + of_nat c + of_nat i)) [0..<len - c]
        = map (\<lambda>i. user_byte m root (va + of_nat i)) [0..<c + (len - c)]"
      by (rule nth_equalityI) (auto simp: nth_append add.assoc of_nat_diff)
    finally show ?thesis using c(3) by simp
  qed (simp add: copy_in_loop.simps)
qed

lemma copy_in_gives:
  assumes "len < 2 ^ 64"
  shows "copy_in m root va len =
    Some (if user_range m root False va len then (0, map (\<lambda>i. user_byte m root (va + of_nat i)) [0..<len]) else (- EFAULT, []))"
  using checks_range [OF assms, of va m root False] copy_in_loop_bytes [of len m root va]
  by (auto simp: copy_in_def user_range_def)

text \<open>The bytes of a user write, one after the other, at the addresses that \<open>P\<close> gives.\<close>

fun user_store :: "(u64 \<Rightarrow> u64 option) \<Rightarrow> u64 \<Rightarrow> u8 list \<Rightarrow> mem \<Rightarrow> mem" where
  "user_store P va [] m = m"
| "user_store P va (b # bs) m = user_store P (va + 1) bs (m(the (P va) := b))"

lemma user_store_append:
  "user_store P va (xs @ ys) m = user_store P (va + of_nat (length xs)) ys (user_store P va xs m)"
  by (induction P va xs m rule: user_store.induct) (simp_all add: add.assoc del: fun_upd_apply)

lemma user_store_page:
  "\<forall>i<length bs. P (va + of_nat i) = Some (a + of_nat i) \<Longrightarrow> user_store P va bs m = store_bytes m a bs"
proof (induction m a bs arbitrary: va rule: store_bytes.induct)
  case (2 m a b bs)
  have "\<forall>i<length bs. P (va + 1 + of_nat i) = Some (a + 1 + of_nat i)"
    using "2.prems" by (simp add: All_less_Suc2 add.assoc)
  moreover have "P va = Some a" using spec [OF "2.prems", of 0] by simp
  ultimately show ?case using "2.IH" by (simp del: fun_upd_apply)
qed simp

lemma user_store_other:
  "\<forall>i<length bs. P (va + of_nat i) \<noteq> Some x \<and> P (va + of_nat i) \<noteq> None \<Longrightarrow> user_store P va bs m x = m x"
proof (induction P va bs m rule: user_store.induct)
  case (2 P va b bs m)
  have "\<forall>i<length bs. P (va + 1 + of_nat i) \<noteq> Some x \<and> P (va + 1 + of_nat i) \<noteq> None"
    using "2.prems" by (simp add: All_less_Suc2 add.assoc)
  then have "user_store P va (b # bs) m x = (m(the (P va) := b)) x" using "2.IH" by (simp del: fun_upd_apply)
  moreover have "the (P va) \<noteq> x" using spec [OF "2.prems", of 0] by auto
  ultimately show ?case by simp
qed simp

lemma user_store_at:
  assumes "\<forall>i<length bs. P (va + of_nat i) \<noteq> None" and "inj_on (\<lambda>i. P (va + of_nat i)) {..<length bs}" and "i < length bs"
  shows "user_store P va bs m (the (P (va + of_nat i))) = bs ! i"
  using assms
proof (induction bs arbitrary: va m i)
  case (Cons b bs)
  have next_ok: "\<forall>i<length bs. P (va + 1 + of_nat i) \<noteq> None"
    using Cons.prems(1) by (simp add: All_less_Suc2 add.assoc)
  have next_inj: "inj_on (\<lambda>i. P (va + 1 + of_nat i)) {..<length bs}"
  proof (rule inj_onI)
    fix i j assume "i \<in> {..<length bs}" "j \<in> {..<length bs}" "P (va + 1 + of_nat i) = P (va + 1 + of_nat j)"
    then show "i = j" using inj_onD [OF Cons.prems(2), of "Suc i" "Suc j"] by (simp add: add.assoc)
  qed
  show ?case
  proof (cases i)
    case 0
    have "P (va + 1 + of_nat j) \<noteq> P va" if "j < length bs" for j
      using inj_onD [OF Cons.prems(2), of "Suc j" 0] that by (auto simp: add.assoc)
    moreover have "P va \<noteq> None" using spec [OF Cons.prems(1), of 0] by simp
    ultimately show ?thesis using 0 next_ok by (simp add: user_store_other [where x = "the (P va)"])
  next
    case (Suc j)
    then show ?thesis using Cons.IH [OF next_ok next_inj, of j] Cons.prems(3) by (simp add: add.assoc)
  qed
qed simp

text \<open>The tables of a process are out of its reach: no byte that it may write lies in one.\<close>

definition tables_apart :: "mem \<Rightarrow> u64 \<Rightarrow> bool" where
  "tables_apart m root \<longleftrightarrow>
    (\<forall>va pa f. user_pa m root True va = Some pa \<longrightarrow> f \<in> set (tabs 3 m root) \<longrightarrow> pa \<notin> span f 4096)"

lemma user_pa_same:
  "same_frames m m' (set (tabs 3 m root)) \<Longrightarrow> user_pa m' root wr va = user_pa m root wr va"
  by (simp add: user_pa_def probe_look tabs_cong del: look.simps tabs.simps)

lemma user_store_same:
  assumes "tables_apart m root" and "same_frames m m1 (set (tabs 3 m root))"
    and "\<forall>i<length bs. user_pa m root True (va + of_nat i) \<noteq> None"
  shows "same_frames m (user_store (user_pa m root True) va bs m1) (set (tabs 3 m root))"
  unfolding same_frames_def
proof (intro ballI)
  fix f x assume fx: "f \<in> set (tabs 3 m root)" "x \<in> span f 4096"
  then have "\<forall>i<length bs. user_pa m root True (va + of_nat i) \<noteq> Some x \<and> user_pa m root True (va + of_nat i) \<noteq> None"
    using assms(1,3) unfolding tables_apart_def by blast
  then have "user_store (user_pa m root True) va bs m1 x = m1 x" by (rule user_store_other)
  with assms(2) fx show "user_store (user_pa m root True) va bs m1 x = m x" by (simp add: same_frames_def)
qed

lemma copy_out_loop_bytes:
  "tables_apart m root \<Longrightarrow> same_frames m m1 (set (tabs 3 m root)) \<Longrightarrow>
    \<forall>i<length bs. user_pa m root True (va + of_nat i) \<noteq> None \<Longrightarrow>
    copy_out_loop root va bs m1 = Some (user_store (user_pa m root True) va bs m1)"
proof (induction root va bs m1 rule: copy_out_loop.induct)
  case (1 root va bs m1)
  let ?P = "user_pa m root True"
  show ?case
  proof (cases "bs = []")
    case False
    define c where "c = min (page_rest va) (length bs)"
    have c: "0 < c" "c \<le> page_rest va" "c \<le> length bs" using False page_rest_pos by (auto simp: c_def)
    obtain pa where pa: "?P va = Some pa" using spec [OF "1.prems"(3), of 0] False by auto
    then have "user_pa m1 root True va = Some pa" using user_pa_same [OF "1.prems"(2)] by simp
    then obtain fl where p: "vmm_probe m1 root va = Some (pa, fl)" using user_pa_probe by blast
    have page: "user_store ?P va (take c bs) m1 = store_bytes m1 (ident_addr pa va) (take c bs)"
      by (rule user_store_page) (use user_pa_rest [OF pa] c in auto)
    have rest: "\<forall>i<length (drop c bs). ?P (va + of_nat c + of_nat i) \<noteq> None"
    proof (intro allI impI)
      fix i assume "i < length (drop c bs)"
      then show "?P (va + of_nat c + of_nat i) \<noteq> None" using spec [OF "1.prems"(3), of "c + i"] by (simp add: add.assoc)
    qed
    have same: "same_frames m (store_bytes m1 (ident_addr pa va) (take c bs)) (set (tabs 3 m root))"
      unfolding page [symmetric] by (rule user_store_same [OF "1.prems"(1,2)]) (use "1.prems"(3) in simp)
    have "copy_out_loop root va bs m1 = copy_out_loop root (va + of_nat c) (drop c bs) (store_bytes m1 (ident_addr pa va) (take c bs))"
      using False by (subst copy_out_loop.simps) (simp add: p Let_def flip: c_def)
    also have "\<dots> = Some (user_store ?P (va + of_nat c) (drop c bs) (store_bytes m1 (ident_addr pa va) (take c bs)))"
      by (rule "1.IH" [OF False c_def p refl "1.prems"(1) same rest])
    also have "\<dots> = Some (user_store ?P va (take c bs @ drop c bs) m1)"
      using c(3) by (simp only: user_store_append page length_take min_absorb2)
    finally show ?thesis by simp
  qed (simp add: copy_out_loop.simps)
qed

lemma copy_out_gives:
  assumes "tables_apart m root" and "length bs < 2 ^ 64"
  shows "copy_out root va bs m =
    Some (if user_range m root True va (length bs) then (0, user_store (user_pa m root True) va bs m) else (- EFAULT, m))"
  using checks_range [OF assms(2), of va m root True] copy_out_loop_bytes [OF assms(1), of m bs va]
  by (auto simp: copy_out_def user_range_def same_frames_def)

end
