(* ===== verification/Uaccess_Props.thy ===== *)
theory Uaccess_Props
  imports Uaccess Vfs_Sys
begin

text \<open>
  What the routines of \<open>Uaccess\<close> promise: the copies against their bytewise reading, the scan for
  the end of a string, and the process memory as the \<open>user_access\<close> of the system calls.
\<close>

section \<open>The scan\<close>

text \<open>Whether a byte stops the scan, and with what.\<close>

definition scan_stop :: "mem \<Rightarrow> u64 \<Rightarrow> u64 \<Rightarrow> nat \<Rightarrow> int option" where
  "scan_stop m root va n =
    (if \<not> user_range m root False (va + of_nat n) 1 then Some (- EFAULT)
     else if user_byte m root (va + of_nat n) = 0 then Some (int n) else None)"

lemma strnlen_loop_gives:
  "strnlen_loop m root va n k =
    Some (case List.find (\<lambda>i. scan_stop m root va i \<noteq> None) [n..<n + k] of None \<Rightarrow> - EFAULT | Some i \<Rightarrow> the (scan_stop m root va i))"
proof (induction m root va n k rule: strnlen_loop.induct)
  case (2 m root va n left)
  define a where "a = va + of_nat n"
  have ok: "range_ok a 1 \<and> check_range m root a 1 False \<longleftrightarrow> user_range m root False a 1" by (rule checks_range) simp
  have l: "[n..<n + Suc left] = n # [n + 1..<n + 1 + left]" by (simp add: upt_conv_Cons)
  show ?case
  proof (cases "user_range m root False a 1")
    case True
    then obtain pa where pa: "user_pa m root False a = Some pa" by (auto simp: user_range_def)
    then obtain fl where p: "vmm_probe m root a = Some (pa, fl)" using user_pa_probe by blast
    have b: "user_byte m root a = m pa" by (simp add: user_byte_def pa)
    have s: "scan_stop m root va n = (if m pa = 0 then Some (int n) else None)"
      using True by (simp add: scan_stop_def b flip: a_def)
    have step: "strnlen_loop m root va n (Suc left) = (if m pa = 0 then Some (int n) else strnlen_loop m root va (n + 1) left)"
      using ok True p by (simp add: Let_def flip: a_def)
    show ?thesis
    proof (cases "m pa = 0")
      case False
      have "strnlen_loop m root va (n + 1) left =
          Some (case List.find (\<lambda>i. scan_stop m root va i \<noteq> None) [n + 1..<n + 1 + left] of None \<Rightarrow> - EFAULT | Some i \<Rightarrow> the (scan_stop m root va i))"
        by (rule "2.IH" [OF a_def _ p refl False]) (use ok True in simp)
      then show ?thesis using False unfolding step l by (simp add: s)
    qed (simp only: step l, simp add: s)
  next
    case False
    then have "strnlen_loop m root va n (Suc left) = Some (- EFAULT)" and s: "scan_stop m root va n = Some (- EFAULT)"
      using ok by (simp_all add: Let_def scan_stop_def flip: a_def)
    then show ?thesis unfolding l by simp
  qed
qed simp

section \<open>The memory of a process as the user memory of the calls\<close>

definition process_access :: "u64 \<Rightarrow> mem user_access" where
  "process_access root = \<lparr>
    ua_strnlen = \<lambda>a n m. the (uacc_strnlen_user m root a n),
    ua_in = \<lambda>a n m. case copy_in m root a n of Some (r, bs) \<Rightarrow> if r = 0 then Some bs else None | None \<Rightarrow> None,
    ua_out = \<lambda>a bs m. case copy_out root a bs m of Some (r, m') \<Rightarrow> if r = 0 then Some m' else None | None \<Rightarrow> None\<rparr>"

lemma copy_in_loop_length: "copy_in_loop m root va len = Some bs \<Longrightarrow> length bs = len"
proof (induction m root va len arbitrary: bs rule: copy_in_loop.induct)
  case (1 m root va len)
  show ?case
  proof (cases "len = 0")
    case False
    define c where "c = min (page_rest va) len"
    obtain pa fl r where p: "vmm_probe m root va = Some (pa, fl)"
      and r: "copy_in_loop m root (va + of_nat c) (len - c) = Some r" and bs: "bs = load_bytes m (ident_addr pa va) c @ r"
      using "1.prems" False by (subst (asm) copy_in_loop.simps) (auto simp: Let_def c_def split: option.splits prod.splits)
    show ?thesis using "1.IH" [OF False c_def p refl r] bs by (simp add: c_def)
  qed (use "1.prems" in \<open>simp add: copy_in_loop.simps\<close>)
qed

lemma process_access_ok: "access_ok (process_access root)"
proof -
  have "the (uacc_strnlen_user m root a n) \<le> int n" for m a n
  proof -
    have "the (scan_stop m root a i) \<le> int n" if "List.find (\<lambda>i. scan_stop m root a i \<noteq> None) [0..<0 + n] = Some i" for i
      using that by (auto simp: find_Some_iff scan_stop_def)
    then show ?thesis unfolding uacc_strnlen_user_def strnlen_loop_gives by (auto split: option.splits)
  qed
  moreover have "length bs = n" if "copy_in m root a n = Some (r, bs)" "r = 0" for m a n r bs
    using that copy_in_loop_length [of m root a n bs] by (auto simp: copy_in_def split: if_splits)
  ultimately show ?thesis by (auto simp: access_ok_def process_access_def split: option.splits prod.splits if_splits)
qed

section \<open>A mapped page\<close>

lemma map_at_tabs:
  assumes "space_ok st root fs" and "vmm_map_at root va pa fl st = (0, st')"
  shows "set (tabs 3 (ph_mem st') root) \<subseteq> set (tabs 3 (ph_mem st) root) \<union> set fs"
proof -
  obtain w st1 where w: "map_walk [0, 1, 2] root va st = (w, st1)" by fastforce
  obtain gs fs1 where g: "grown 3 root st fs st1 gs fs1" and r: "walk_result 3 3 root va st w st1 fs"
    using map_walk_gives [of 3 st root fs va w st1] assms(1) w by (auto simp: space_ok_def walk_levels_simps)
  from assms(2) w obtain t where t: "w = Inr t" and st': "st' = set_entry t (pt_idx 3 va) (leaf_desc pa fl) st1"
    using r by (cases w) (auto simp: vmm_map_at_def map_leaf_def walk_result_def split: if_splits)
  have sl: "slot 3 (ph_mem st1) root va = (3, t, pt_idx 3 va)" using r t by (simp add: walk_result_def)
  have T: "tree_ok 3 (ph_mem st1) root" using g by (simp add: grown_def)
  have "tabs 3 (ph_mem st') root = tabs 3 (ph_mem st1) root"
    using slot_store [OF order_refl T sl _ refl, of "leaf_desc pa fl"] unfolding st' by simp
  then show ?thesis using g by (auto simp: grown_def)
qed

text \<open>The demonstration space with one writable user page mapped at \<open>0x8000001000\<close>.\<close>

definition demo_page :: mem where
  "demo_page = ph_mem (snd (vmm_map_at 0x9000 0x8000001000 0xb000 (VM_WRITE OR VM_USER) demo_space))"

lemma demo_page_probe:
  "vmm_probe demo_page 0x9000 va =
    (if va AND PT_ADDR_MASK = 0x8000001000 then Some (0xb000 OR (va AND 0xfff), VM_READ OR VM_WRITE OR VM_USER) else None)"
proof -
  obtain st' where m: "vmm_map_at 0x9000 0x8000001000 0xb000 (VM_WRITE OR VM_USER) demo_space = (0, st')"
    using demo_maps by (metis prod.collapse)
  have l: "look 3 (ph_mem st') 0x9000 x =
      (if same_path 0 3 0x8000001000 x then Some (3, leaf_desc 0xb000 (VM_WRITE OR VM_USER)) else None)" for x
    by (rule map_at_look [OF demo_space_ok m])
      (use demo_space_empty in \<open>auto simp: probe_look simp del: look.simps\<close>)
  have p: "leaf_pa 3 (leaf_desc 0xb000 10) x = 0xb000 OR (x AND 0xfff)" for x
    using leaf_desc_pa [of "0xb000" "VM_WRITE OR VM_USER"] by (simp add: leaf_pa_def level_shift_def)
  show ?thesis unfolding demo_page_def m
    by (simp add: probe_look l same_path_page p decode_leaf del: look.simps)
qed

lemma demo_page_user:
  "user_pa demo_page 0x9000 wr va = (if va AND PT_ADDR_MASK = 0x8000001000 then Some (0xb000 OR (va AND 0xfff)) else None)"
  by (simp add: user_pa_def demo_page_probe)

lemma demo_page_apart: "tables_apart demo_page 0x9000"
  unfolding tables_apart_def
proof (intro allI impI)
  fix va pa f assume pa: "user_pa demo_page 0x9000 True va = Some pa" and f: "f \<in> set (tabs 3 demo_page 0x9000)"
  obtain st' where m: "vmm_map_at 0x9000 0x8000001000 0xb000 (VM_WRITE OR VM_USER) demo_space = (0, st')"
    using demo_maps by (metis prod.collapse)
  have "set (tabs 3 (ph_mem demo_space) 0x9000) = {0x9000}"
    unfolding demo_space_def by (subst zero_tree(1)) (auto simp: zero_table_gives IS_ALIGNED_def)
  with map_at_tabs [OF demo_space_ok m] f have f: "f \<in> {0x9000, 0x3000, 0x2000, 0x7000}"
    unfolding demo_page_def m by auto
  have "ident_addr 0xb000 va = 0xb000 + (va AND 0xfff)" by (simp add: ident_addr_def)
  moreover have "ident_addr 0xb000 va = 0xb000 OR (va AND 0xfff)"
    unfolding ident_addr_or by (simp flip: page_masks(1,2))
  ultimately have "pa = 0xb000 + (va AND 0xfff)" using pa by (simp add: demo_page_user split: if_splits)
  then have "pa = 0xb000 + of_nat (unat (va AND 0xfff))" by simp
  then have "pa \<in> span 0xb000 4096" unfolding span_def using page_offset [of va] by (intro image_eqI) auto
  moreover have "span 0xb000 4096 \<inter> span f 4096 = {}"
    by (rule frames_disjoint) (use f in \<open>auto simp: IS_ALIGNED_def\<close>)
  ultimately show "pa \<notin> span f 4096" by blast
qed

section \<open>Claims\<close>

text \<open>C24: Reading user memory always returns. It hands over the bytes of the range in order when the whole
  range lies in the user window and each of its bytes is mapped for the process, across any
  number of pages; in every other case it answers \<open>-EFAULT\<close> and hands over nothing.\<close>

theorem copy_in_reads_bytes:
  assumes "len < 2 ^ 64"
  shows "copy_in m root usrc len =
    Some (if usrc < USER_VA_LIMIT \<and> unat usrc + len \<le> unat USER_VA_LIMIT \<and>
        (\<forall>i<len. user_pa m root False (usrc + of_nat i) \<noteq> None)
      then (0, map (\<lambda>i. m (the (user_pa m root False (usrc + of_nat i)))) [0..<len])
      else (- EFAULT, []))"
  unfolding copy_in_gives [OF assms] user_range_def user_byte_def by (rule refl)

theorem copy_in_reads_bytes_witness:
  "copy_in demo_page 0x9000 0x8000001ffe 2 = Some (0, [demo_page 0xbffe, demo_page 0xbfff]) \<and>
   copy_in demo_page 0x9000 0x8000001ffe 3 = Some (- EFAULT, [])"
proof
  show "copy_in demo_page 0x9000 0x8000001ffe 2 = Some (0, [demo_page 0xbffe, demo_page 0xbfff])"
    by (subst copy_in_reads_bytes) (auto simp: demo_page_user less_2_cases_iff)
  show "copy_in demo_page 0x9000 0x8000001ffe 3 = Some (- EFAULT, [])"
    by (subst copy_in_reads_bytes) (auto simp: demo_page_user intro!: exI [of _ 2])
qed

text \<open>C25: Writing user memory always returns, with nothing changed unless the whole range is writable for
  the process. Only bytes that the process itself may write change, no translation of the
  process changes, and when the pages of the range are distinct, reading the range back
  gives the bytes written. The page tables must be out of reach of the process.\<close>

theorem copy_out_confined:
  assumes "tables_apart m root" and "length bs < 2 ^ 64"
  shows "\<exists>r m'. copy_out root udst bs m = Some (r, m') \<and>
    (if user_range m root True udst (length bs) then r = 0 else r = - EFAULT \<and> m' = m) \<and>
    (\<forall>x. m' x \<noteq> m x \<longrightarrow> (\<exists>i<length bs. user_pa m root True (udst + of_nat i) = Some x)) \<and>
    (\<forall>wr va. user_pa m' root wr va = user_pa m root wr va) \<and>
    (r = 0 \<and> inj_on (\<lambda>i. user_pa m root True (udst + of_nat i)) {..<length bs} \<longrightarrow>
      copy_in m' root udst (length bs) = Some (0, bs))"
proof (cases "user_range m root True udst (length bs)")
  case False
  then show ?thesis using copy_out_gives [OF assms, of udst] by auto
next
  case True
  let ?P = "user_pa m root True" and ?m = "user_store (user_pa m root True) udst bs m"
  have ok: "\<forall>i<length bs. ?P (udst + of_nat i) \<noteq> None" using True by (simp add: user_range_def)
  have same: "user_pa ?m root wr va = user_pa m root wr va" for wr va
    by (rule user_pa_same [OF user_store_same [OF assms(1) _ ok]]) (simp add: same_frames_def)
  have other: "\<exists>i<length bs. ?P (udst + of_nat i) = Some x" if "?m x \<noteq> m x" for x
    using that ok user_store_other [of bs ?P udst x m] by blast
  have reread: "copy_in ?m root udst (length bs) = Some (0, bs)" if inj: "inj_on (\<lambda>i. ?P (udst + of_nat i)) {..<length bs}"
  proof -
    have byte: "user_byte ?m root (udst + of_nat i) = bs ! i" if "i < length bs" for i
      using user_store_at [OF ok inj that, of m] user_pa_read [of m root "udst + of_nat i"] ok that
      by (auto simp: user_byte_def same)
    have "user_range ?m root False udst (length bs)"
      using True user_pa_read [of m root] unfolding user_range_def same by fast
    moreover have "map (\<lambda>i. user_byte ?m root (udst + of_nat i)) [0..<length bs] = bs"
      by (rule nth_equalityI) (simp_all add: byte)
    ultimately show ?thesis by (simp add: copy_in_gives [OF assms(2)])
  qed
  show ?thesis using copy_out_gives [OF assms, of udst] True same other reread by auto
qed

theorem copy_out_confined_witness:
  "\<exists>m'. copy_out 0x9000 0x8000001010 [7, 9] demo_page = Some (0, m') \<and> copy_in m' 0x9000 0x8000001010 2 = Some (0, [7, 9])"
proof -
  have r: "user_range demo_page 0x9000 True 0x8000001010 (length [7 :: u8, 9])"
    by (auto simp: user_range_def demo_page_user less_Suc_eq)
  have "inj_on (\<lambda>i. user_pa demo_page 0x9000 True (0x8000001010 + of_nat i)) {..<length [7 :: u8, 9]}"
    by (auto simp: inj_on_def demo_page_user less_Suc_eq)
  with r copy_out_confined [OF demo_page_apart, of "[7, 9]" "0x8000001010"]
  have "\<exists>m'. copy_out 0x9000 0x8000001010 [7, 9] demo_page = Some (0, m') \<and>
      copy_in m' 0x9000 0x8000001010 (length [7 :: u8, 9]) = Some (0, [7, 9])" by auto
  then show ?thesis by (simp add: numeral_2_eq_2)
qed

end
