(* ===== verification/Elf.thy ===== *)
theory Elf
  imports Uaccess
begin

text \<open>
  The program loader (\<open>kernel/elf.c\<close>): header checks, program headers and the loading of one
  segment into an address space, page by page. The image is a list of bytes outside physical
  memory; reading behind it is \<open>None\<close>. The arithmetic is that of the 64-bit fields, wrap-around
  included.
\<close>

abbreviation ELF_OK :: int where "ELF_OK \<equiv> 0"
abbreviation ELF_ERR_HEADER :: int where "ELF_ERR_HEADER \<equiv> - 1"
abbreviation ELF_ERR_TYPE :: int where "ELF_ERR_TYPE \<equiv> - 2"
abbreviation ELF_ERR_SEG :: int where "ELF_ERR_SEG \<equiv> - 3"
abbreviation ELF_ERR_OVERLAP :: int where "ELF_ERR_OVERLAP \<equiv> - 4"
abbreviation ELF_ERR_NOMEM :: int where "ELF_ERR_NOMEM \<equiv> - 5"
abbreviation ELF_ERR_DYNAMIC :: int where "ELF_ERR_DYNAMIC \<equiv> - 6"
abbreviation PT_LOAD :: u32 where "PT_LOAD \<equiv> 1"
abbreviation PT_INTERP :: u32 where "PT_INTERP \<equiv> 3"
abbreviation PF_X :: u32 where "PF_X \<equiv> 1"
abbreviation PF_W :: u32 where "PF_W \<equiv> 2"
abbreviation USER_CODE_BASE :: u64 where "USER_CODE_BASE \<equiv> 0x10000000000"
abbreviation EHDR_SIZE :: nat where "EHDR_SIZE \<equiv> 64"
abbreviation PHDR_ENT_SIZE :: nat where "PHDR_ENT_SIZE \<equiv> 56"

record elf64_ehdr =
  e_ident :: "u8 list"
  e_type :: u16
  e_machine :: u16
  e_version :: u32
  e_entry :: u64
  e_phoff :: u64
  e_shoff :: u64
  e_flags :: u32
  e_ehsize :: u16
  e_phentsize :: u16
  e_phnum :: u16
  e_shentsize :: u16
  e_shnum :: u16
  e_shstrndx :: u16

record elf64_phdr =
  p_type :: u32
  p_flags :: u32
  p_offset :: u64
  p_vaddr :: u64
  p_paddr :: u64
  p_filesz :: u64
  p_memsz :: u64
  p_align :: u64

text \<open>A little-endian field of \<open>n\<close> bytes.\<close>

definition le_field :: "u8 list \<Rightarrow> nat \<Rightarrow> nat \<Rightarrow> 'a::len word" where
  "le_field bs off n = from_le (take n (drop off bs))"

definition ehdr_of :: "u8 list \<Rightarrow> elf64_ehdr" where
  "ehdr_of bs = \<lparr>e_ident = take 16 bs, e_type = le_field bs 16 2, e_machine = le_field bs 18 2,
     e_version = le_field bs 20 4, e_entry = le_field bs 24 8, e_phoff = le_field bs 32 8,
     e_shoff = le_field bs 40 8, e_flags = le_field bs 48 4, e_ehsize = le_field bs 52 2,
     e_phentsize = le_field bs 54 2, e_phnum = le_field bs 56 2, e_shentsize = le_field bs 58 2,
     e_shnum = le_field bs 60 2, e_shstrndx = le_field bs 62 2\<rparr>"

definition phdr_of :: "u8 list \<Rightarrow> elf64_phdr" where
  "phdr_of bs = \<lparr>p_type = le_field bs 0 4, p_flags = le_field bs 4 4, p_offset = le_field bs 8 8,
     p_vaddr = le_field bs 16 8, p_paddr = le_field bs 24 8, p_filesz = le_field bs 32 8,
     p_memsz = le_field bs 40 8, p_align = le_field bs 48 8\<rparr>"

text \<open>The bytes that a \<open>memcpy\<close> takes out of the image.\<close>

definition img_bytes :: "u8 list \<Rightarrow> u64 \<Rightarrow> u64 \<Rightarrow> u8 list option" where
  "img_bytes img off n =
    (if unat off + unat n \<le> length img then Some (take (unat n) (drop (unat off) img)) else None)"

text \<open>The inner option is the result of the C function.\<close>

definition get_phdr :: "u8 list \<Rightarrow> elf64_ehdr \<Rightarrow> nat \<Rightarrow> elf64_phdr option option" where
  "get_phdr img eh i =
    (let off = e_phoff eh + of_nat i * ucast (e_phentsize eh)
     in if of_nat (length img) < off + of_nat PHDR_ENT_SIZE then Some None
        else map_option (Some \<circ> phdr_of) (img_bytes img off (of_nat PHDR_ENT_SIZE)))"

text \<open>The copy and the clearing of one page whose frame is \<open>pg\<close>.\<close>

definition fill_page :: "u8 list \<Rightarrow> elf64_phdr \<Rightarrow> u64 \<Rightarrow> u64 \<Rightarrow> mem \<Rightarrow> mem option" where
  "fill_page img ph va pg m =
    (let lo = max va (p_vaddr ph);
         f_end = p_vaddr ph + p_filesz ph;
         m_end = p_vaddr ph + p_memsz ph;
         hi_f = min (va + PAGE_SIZE) f_end;
         hi_m = min (va + PAGE_SIZE) m_end
     in map_option (\<lambda>m1. if hi_f < hi_m then store_bytes m1 (pg + (hi_f - va)) (replicate (unat (hi_m - hi_f)) 0) else m1)
          (if lo < hi_f
           then map_option (store_bytes m (pg + (lo - va))) (img_bytes img (p_offset ph + (lo - p_vaddr ph)) (hi_f - lo))
           else Some m))"

partial_function (option) load_pages ::
  "u64 \<Rightarrow> u8 list \<Rightarrow> elf64_phdr \<Rightarrow> u32 \<Rightarrow> u64 \<Rightarrow> u64 \<Rightarrow> phys \<Rightarrow> (int \<times> phys) option" where
  "load_pages root img ph fl va_hi va st =
    (if \<not> va < va_hi then Some (ELF_OK, st)
     else case pmm_alloc st of (fr, st1) \<Rightarrow>
       if fr = 0 then Some (ELF_ERR_NOMEM, st1)
       else case vmm_map_at root va fr fl st1 of (r, st2) \<Rightarrow>
         if r \<noteq> 0 then Some (ELF_ERR_OVERLAP, pmm_free fr st2)
         else case fill_page img ph va fr (ph_mem st2) of
           None \<Rightarrow> None
         | Some m \<Rightarrow> load_pages root img ph fl va_hi (va + PAGE_SIZE) (st2\<lparr>ph_mem := m\<rparr>))"

definition seg_flags :: "elf64_phdr \<Rightarrow> u32" where
  "seg_flags ph = VM_READ OR VM_USER OR (if p_flags ph AND PF_W \<noteq> 0 then VM_WRITE else 0) OR
     (if p_flags ph AND PF_X \<noteq> 0 then VM_EXEC else 0)"

definition load_segment :: "u64 \<Rightarrow> u8 list \<Rightarrow> elf64_phdr \<Rightarrow> phys \<Rightarrow> (int \<times> phys) option" where
  "load_segment root img ph st =
    (if of_nat (length img) < p_offset ph + p_filesz ph then Some (ELF_ERR_SEG, st)
     else if p_vaddr ph < USER_CODE_BASE \<or> USER_VA_LIMIT < p_vaddr ph + p_memsz ph then Some (ELF_ERR_SEG, st)
     else load_pages root img ph (seg_flags ph) (ALIGN_UP (p_vaddr ph + p_memsz ph) PAGE_SIZE)
            (ALIGN_DOWN (p_vaddr ph) PAGE_SIZE) st)"

text \<open>The two passes over the program headers: the first looks for an interpreter.\<close>

fun check_phdrs :: "u8 list \<Rightarrow> elf64_ehdr \<Rightarrow> nat list \<Rightarrow> int option" where
  "check_phdrs img eh [] = Some ELF_OK"
| "check_phdrs img eh (i # is) =
    (case get_phdr img eh i of
       None \<Rightarrow> None
     | Some None \<Rightarrow> Some ELF_ERR_HEADER
     | Some (Some ph) \<Rightarrow> if p_type ph = PT_INTERP then Some ELF_ERR_DYNAMIC else check_phdrs img eh is)"

fun load_phdrs :: "u64 \<Rightarrow> u8 list \<Rightarrow> elf64_ehdr \<Rightarrow> nat list \<Rightarrow> u64 \<Rightarrow> phys \<Rightarrow> (int \<times> u64 \<times> phys) option" where
  "load_phdrs root img eh [] brk st = Some (ELF_OK, brk, st)"
| "load_phdrs root img eh (i # is) brk st =
    (case get_phdr img eh i of
       None \<Rightarrow> None
     | Some None \<Rightarrow> Some (ELF_ERR_HEADER, brk, st)
     | Some (Some ph) \<Rightarrow>
         if p_type ph \<noteq> PT_LOAD \<or> p_memsz ph = 0 then load_phdrs root img eh is brk st
         else case load_segment root img ph st of
           None \<Rightarrow> None
         | Some (r, st1) \<Rightarrow>
             if r \<noteq> 0 then Some (r, brk, st1)
             else load_phdrs root img eh is (max brk (ALIGN_UP (p_vaddr ph + p_memsz ph) PAGE_SIZE)) st1)"

text \<open>On success also the entry point and the first address behind the image.\<close>

definition elf_load :: "u64 \<Rightarrow> u8 list \<Rightarrow> phys \<Rightarrow> (int \<times> (u64 \<times> u64) option \<times> phys) option" where
  "elf_load root img st =
    (if length img < EHDR_SIZE then Some (ELF_ERR_HEADER, None, st)
     else
       let eh = ehdr_of img; n = unat (e_phnum eh)
       in if take 6 (e_ident eh) \<noteq> [0x7f, 0x45, 0x4c, 0x46, 2, 1] then Some (ELF_ERR_HEADER, None, st)
          else if e_type eh \<noteq> 2 \<or> e_machine eh \<noteq> 183 \<or> unat (e_phentsize eh) \<noteq> PHDR_ENT_SIZE \<or> n = 0 \<or> 32 < n
          then Some (ELF_ERR_TYPE, None, st)
          else if of_nat (length img) < e_phoff eh + ucast (e_phnum eh) * ucast (e_phentsize eh)
          then Some (ELF_ERR_HEADER, None, st)
          else case check_phdrs img eh [0..<n] of
            None \<Rightarrow> None
          | Some r \<Rightarrow>
              if r \<noteq> 0 then Some (r, None, st)
              else case load_phdrs root img eh [0..<n] 0 st of
                None \<Rightarrow> None
              | Some (r, brk, st1) \<Rightarrow>
                  if r \<noteq> 0 then Some (r, None, st1)
                  else if e_entry eh < USER_CODE_BASE \<or> USER_VA_LIMIT \<le> e_entry eh then Some (ELF_ERR_SEG, None, st1)
                  else Some (ELF_OK, Some (e_entry eh, brk), st1))"

end
