(* ===== verification/Elf_Props.thy ===== *)
theory Elf_Props
  imports Elf
begin

text \<open>
  What the loader of \<open>Elf\<close> does to an address space: the pages of a segment read as the file says,
  with the rest of the segment cleared, when no page lies wholly behind the file data; and what
  happens to memory when one does.
\<close>

section \<open>One page\<close>

lemma unat_less64: "unat (x :: u64) < 18446744073709551616"
  using unsigned_less [of x] by simp

text \<open>The byte that a segment asks for at an address.\<close>

definition seg_byte :: "u8 list \<Rightarrow> elf64_phdr \<Rightarrow> u64 \<Rightarrow> u8" where
  "seg_byte img ph a =
    (if a - p_vaddr ph < p_filesz ph then img ! (unat (p_offset ph) + unat (a - p_vaddr ph)) else 0)"

text \<open>A segment whose arithmetic does not wrap and whose file data ends in its last page.\<close>

definition seg_ok :: "u8 list \<Rightarrow> elf64_phdr \<Rightarrow> bool" where
  "seg_ok img ph \<longleftrightarrow>
    unat (p_vaddr ph) + unat (p_memsz ph) < 2 ^ 63 \<and> p_filesz ph \<le> p_memsz ph \<and>
    unat (p_offset ph) + unat (p_filesz ph) \<le> length img \<and> length img < 2 ^ 64 \<and>
    unat (ALIGN_UP (p_vaddr ph + p_memsz ph) PAGE_SIZE) \<le> unat (p_vaddr ph) + unat (p_filesz ph) + 4096"

lemma img_bytes_gives:
  "unat off + unat n \<le> length img \<Longrightarrow> img_bytes img off n = Some (map (\<lambda>i. img ! (unat off + i)) [0..<unat n])"
  unfolding img_bytes_def by (auto intro!: nth_equalityI)

lemma store_bytes_read:
  assumes "length bs \<le> 2 ^ 64" and "x = a + of_nat i" and "i < length bs"
  shows "store_bytes m a bs x = bs ! i"
  using assms store_bytes_at by simp

lemma map_at_frames:
  assumes "space_ok st root fs" and "vmm_map_at root va pa fl st = (r, st')"
  obtains gs fs' where "fs = gs @ fs'" and "space_ok st' root fs'"
    and "set (tabs 3 (ph_mem st') root) \<subseteq> set (tabs 3 (ph_mem st) root) \<union> set gs"
    and "only_frames (ph_mem st) (ph_mem st') (set (tabs 3 (ph_mem st) root) \<union> set gs)"
proof (cases "IS_ALIGNED va PAGE_SIZE \<and> IS_ALIGNED pa PAGE_SIZE")
  case False
  then show ?thesis using assms that [of "[]" fs] by (auto simp: vmm_map_at_def only_frames_refl)
next
  case True
  obtain w st1 where w: "map_walk [0, 1, 2] root va st = (w, st1)" by fastforce
  obtain gs fs1 where g: "grown 3 root st fs st1 gs fs1" and r: "walk_result 3 3 root va st w st1 fs"
    using map_walk_gives [of 3 st root fs va w st1] assms(1) w by (auto simp: space_ok_def walk_levels_simps)
  have dis: "set gs \<inter> set fs1 = {}" using assms(1) g by (auto simp: space_ok_def grown_def pmm_inv_def)
  have sp1: "space_ok st1 root fs1" using assms(1) g dis unfolding space_ok_def grown_def by auto
  have only1: "only_frames (ph_mem st) (ph_mem st1) (set (tabs 3 (ph_mem st) root) \<union> set gs)"
    and tabs1: "set (tabs 3 (ph_mem st1) root) = set (tabs 3 (ph_mem st) root) \<union> set gs" and fs: "fs = gs @ fs1"
    using g by (simp_all add: grown_def)
  have "st' = st1 \<or> (\<exists>t. w = Inr t \<and> st' = set_entry t (pt_idx 3 va) (leaf_desc pa fl) st1)"
    using assms(2) True w by (cases w) (auto simp: vmm_map_at_def map_leaf_def split: if_splits)
  then show ?thesis
  proof (elim disjE exE conjE)
    assume "st' = st1"
    then show ?thesis using that fs sp1 only1 tabs1 by simp
  next
    fix t assume t: "w = Inr t" and st': "st' = set_entry t (pt_idx 3 va) (leaf_desc pa fl) st1"
    have sl: "slot 3 (ph_mem st1) root va = (3, t, pt_idx 3 va)" using r t by (simp add: walk_result_def)
    have T: "tree_ok 3 (ph_mem st1) root" using g by (simp add: grown_def)
    have tb: "tabs 3 (ph_mem st') root = tabs 3 (ph_mem st1) root"
      using slot_store [OF order_refl T sl _ refl, of "leaf_desc pa fl"] unfolding st' by simp
    note b = slot_bounds [OF order_refl sl]
    have "only_frames (ph_mem st1) (ph_mem st') {t}" unfolding st' using store_only b by simp
    then have "only_frames (ph_mem st) (ph_mem st') (set (tabs 3 (ph_mem st) root) \<union> set gs)"
      by (rule only_frames_trans [OF only1]) (use b tabs1 in auto)
    moreover have "space_ok st' root fs1" unfolding st' by (rule space_slot_store(1) [OF sp1 sl]) simp
    ultimately show ?thesis using that fs tb tabs1 by simp
  qed
qed

text \<open>A mapping that runs out of frames has taken them all.\<close>

lemma map_walk_empty: "map_walk ls t va st = (Inl (- 2), st') \<Longrightarrow> fst (pmm_alloc st') = 0"
proof (induction ls t va st rule: map_walk.induct)
  case (2 lvl ls t va st)
  obtain nt st1 where a: "pmm_alloc st = (nt, st1)" by fastforce
  have none: "nt = 0 \<Longrightarrow> fst (pmm_alloc st1) = 0" using a by (auto simp: pmm_alloc_def Let_def split: if_splits)
  show ?case
  proof (cases "pte_valid (entry (ph_mem st) t (pt_idx lvl va))")
    case True
    then show ?thesis using 2 by (simp add: Let_def split: if_splits)
  next
    case False
    show ?thesis
    proof (cases "nt = 0")
      case True
      then show ?thesis using 2(3) False a none by (simp add: Let_def)
    next
      case nt: False
      show ?thesis by (rule 2(1) [OF refl refl False a [symmetric] nt refl]) (use 2(3) False a nt in \<open>simp add: Let_def\<close>)
    qed
  qed
qed simp

lemma map_at_causes:
  assumes sp: "space_ok st root fs" and run: "vmm_map_at root va pa fl st = (r, st')" and "r \<noteq> 0"
    and "IS_ALIGNED va PAGE_SIZE" and "IS_ALIGNED pa PAGE_SIZE" and sp': "space_ok st' root fs'"
  shows "fs' = [] \<or> vmm_probe (ph_mem st) root va \<noteq> None"
proof (cases "r = - 2")
  case True
  then have "map_walk [0, 1, 2] root va st = (Inl (- 2), st')"
    using run assms(4,5) by (auto simp: vmm_map_at_def map_leaf_def split: prod.splits sum.splits if_splits)
  then have "fst (pmm_alloc st') = 0" by (rule map_walk_empty)
  then show ?thesis using pmm_alloc_gives [of st' fs'] sp' by (cases fs') (auto simp: space_ok_def pmm_inv_def)
next
  case False
  have "look 3 (ph_mem st) root va \<noteq> None"
    by (rule map_at_look [OF sp run]) (use False assms(3-5) in auto)
  then show ?thesis by (simp add: probe_look del: look.simps)
qed

lemma store_in_page:
  assumes "IS_ALIGNED pg PAGE_SIZE" and "k + length bs \<le> 4096"
  shows "i < 4096 \<Longrightarrow> store_bytes m (pg + of_nat k) bs (pg + of_nat i) =
      (if k \<le> i \<and> i < k + length bs then bs ! (i - k) else m (pg + of_nat i))"
    and "only_frames m (store_bytes m (pg + of_nat k) bs) {pg}"
proof -
  have room: "unat pg + n < 2 ^ LENGTH(64)" if "n < 4096" for n using aligned_room [OF assms(1) that] by simp
  show "store_bytes m (pg + of_nat k) bs (pg + of_nat i) = (if k \<le> i \<and> i < k + length bs then bs ! (i - k) else m (pg + of_nat i))"
    if i: "i < 4096"
  proof (cases "k \<le> i \<and> i < k + length bs")
    case True
    then have "pg + of_nat i = (pg + of_nat k) + of_nat (i - k)" by (simp add: add.assoc flip: of_nat_add)
    moreover have "store_bytes m (pg + of_nat k) bs ((pg + of_nat k) + of_nat (i - k)) = bs ! (i - k)"
      using True assms(2) by (intro store_bytes_at) auto
    ultimately show ?thesis using True by simp
  next
    case False
    have "pg + of_nat i \<notin> span (pg + of_nat k) (length bs)"
    proof
      assume "pg + of_nat i \<in> span (pg + of_nat k) (length bs)"
      then obtain j where j: "j < length bs" "pg + of_nat i = pg + of_nat (k + j)" by (auto simp: span_def add.assoc)
      then have "i = k + j" using word_add_of_nat_inject [OF room [OF i] room [of "k + j"]] assms(2) by simp
      then show False using False j by simp
    qed
    then show ?thesis using False store_bytes_other by auto
  qed
  have "span (pg + of_nat k) (length bs) \<subseteq> span pg 4096"
  proof
    fix x assume "x \<in> span (pg + of_nat k) (length bs)"
    then obtain j where "j < length bs" "x = pg + of_nat (k + j)" by (auto simp: span_def add.assoc)
    then show "x \<in> span pg 4096" using assms(2) unfolding span_def by (intro image_eqI [of _ _ "k + j"]) auto
  qed
  then show "only_frames m (store_bytes m (pg + of_nat k) bs) {pg}"
    unfolding only_frames_def using store_bytes_other by blast
qed

lemma fill_page_gives:
  assumes ok: "seg_ok img ph" and pg: "IS_ALIGNED pg PAGE_SIZE"
    and lo: "unat (p_vaddr ph) < unat va + 4096" and hi: "unat va \<le> unat (p_vaddr ph) + unat (p_filesz ph)"
  obtains m' where "fill_page img ph va pg m = Some m'" and "only_frames m m' {pg}"
    and "\<And>i. i < 4096 \<Longrightarrow> unat (p_vaddr ph) \<le> unat va + i \<Longrightarrow> unat va + i < unat (p_vaddr ph) + unat (p_memsz ph) \<Longrightarrow>
      m' (pg + of_nat i) = seg_byte img ph (va + of_nat i)"
proof -
  define A V F M P where defs: "A = unat va" "V = unat (p_vaddr ph)" "F = unat (p_filesz ph)" "M = unat (p_memsz ph)" "P = unat (p_offset ph)"
  have b: "V + M < 9223372036854775808" "F \<le> M" "P + F \<le> length img" "length img < 18446744073709551616"
    using ok unfolding seg_ok_def by (simp_all add: defs word_le_nat_alt)
  have av: "V < A + 4096" "A \<le> V + F" using lo hi by (simp_all add: defs)
  have A: "A < 9223372036854775808" using b av by linarith
  have w: "va = of_nat A" "p_vaddr ph = of_nat V" "p_filesz ph = of_nat F" "p_memsz ph = of_nat M" "p_offset ph = of_nat P"
    by (simp_all add: defs)
  have u: "unat (of_nat n :: u64) = n" if "n < 18446744073709551616" for n using that by (simp add: unat_of_nat take_bit_eq_mod)
  have sub: "(of_nat x :: u64) - of_nat y = of_nat (x - y)" if "y \<le> x" for x y using that by (simp add: of_nat_diff)
  have le: "(of_nat x :: u64) \<le> of_nat y \<longleftrightarrow> x \<le> y" "(of_nat x :: u64) < of_nat y \<longleftrightarrow> x < y"
    if "x < 18446744073709551616" "y < 18446744073709551616" for x y
    using that by (simp_all add: word_le_nat_alt word_less_nat_alt u)
  define L HF HM where defs2: "L = max A V" "HF = min (A + 4096) (V + F)" "HM = min (A + 4096) (V + M)"
  have order: "A \<le> L" "V \<le> L" "L \<le> HF" "HF \<le> HM" "HM \<le> A + 4096" "HF \<le> V + F" using b av by (simp_all add: defs2)
  have words: "max va (p_vaddr ph) = of_nat L" "min (va + PAGE_SIZE) (p_vaddr ph + p_filesz ph) = of_nat HF"
    "min (va + PAGE_SIZE) (p_vaddr ph + p_memsz ph) = of_nat HM"
  proof -
    have s: "va + PAGE_SIZE = of_nat (A + 4096)" "p_vaddr ph + p_filesz ph = of_nat (V + F)" "p_vaddr ph + p_memsz ph = of_nat (V + M)"
      by (simp_all add: w)
    have c: "(of_nat A :: u64) \<le> of_nat V \<longleftrightarrow> A \<le> V" "(of_nat (A + 4096) :: u64) \<le> of_nat (V + F) \<longleftrightarrow> A + 4096 \<le> V + F"
      "(of_nat (A + 4096) :: u64) \<le> of_nat (V + M) \<longleftrightarrow> A + 4096 \<le> V + M"
      using b A by (intro le; linarith)+
    show "max va (p_vaddr ph) = of_nat L" unfolding w(1,2) defs2 max_def c by simp
    show "min (va + PAGE_SIZE) (p_vaddr ph + p_filesz ph) = of_nat HF" unfolding s defs2 min_def c by simp
    show "min (va + PAGE_SIZE) (p_vaddr ph + p_memsz ph) = of_nat HM" unfolding s defs2 min_def c by simp
  qed
  define bs where "bs = map (\<lambda>i. img ! (P + (L - V) + i)) [0..<HF - L]"
  define m1 where "m1 = store_bytes m (pg + of_nat (L - A)) bs"
  define m2 where "m2 = store_bytes m1 (pg + of_nat (HF - A)) (replicate (HM - HF) 0)"
  have img: "img_bytes img (of_nat (P + (L - V))) (of_nat (HF - L)) = Some bs"
  proof -
    have "P + (L - V) < 18446744073709551616" "HF - L < 18446744073709551616" "P + (L - V) + (HF - L) \<le> length img"
      using b order by linarith+
    note n = u [OF this(1)] u [OF this(2)] this(3)
    from img_bytes_gives [of "of_nat (P + (L - V))" "of_nat (HF - L)" img, unfolded n(1,2), OF n(3)]
    show ?thesis unfolding bs_def .
  qed
  have "fill_page img ph va pg m = Some m2"
  proof -
    have lt: "of_nat L < (of_nat HF :: u64) \<longleftrightarrow> L < HF" "of_nat HF < (of_nat HM :: u64) \<longleftrightarrow> HF < HM"
      using order A by (simp_all add: le)
    have "HM - HF < 18446744073709551616" "A \<le> HF" using order A by linarith+
    note d = sub [OF order(1), folded w(1)] sub [OF this(2), folded w(1)] sub [OF order(3)] sub [OF order(2), folded w(2)]
      u [OF this(1), folded sub [OF order(4)]]
    have p: "p_offset ph + of_nat (L - V) = of_nat (P + (L - V))" unfolding w(5) by (simp only: of_nat_add)
    show ?thesis
      unfolding fill_page_def Let_def words lt d p img m2_def m1_def
      using order by (auto simp: bs_def)
  qed
  moreover have "only_frames m m2 {pg}"
    unfolding m2_def m1_def
    by (rule only_frames_trans [OF store_in_page(2) [OF pg] store_in_page(2) [OF pg]]) (use order in \<open>auto simp: bs_def\<close>)
  moreover have "m2 (pg + of_nat i) = seg_byte img ph (va + of_nat i)"
    if i: "i < 4096" "unat (p_vaddr ph) \<le> unat va + i" "unat va + i < unat (p_vaddr ph) + unat (p_memsz ph)" for i
  proof -
    have v: "V \<le> A + i" "A + i < V + M" using i by (simp_all add: defs)
    have d: "va + of_nat i - p_vaddr ph = of_nat (A + i - V)" unfolding w(1,2) of_nat_add [symmetric] by (rule sub [OF v(1)])
    have du: "unat (of_nat (A + i - V) :: u64) = A + i - V" by (rule u) (use A i(1) in linarith)
    have s: "seg_byte img ph (va + of_nat i) = (if A + i - V < F then img ! (P + (A + i - V)) else 0)"
      unfolding seg_byte_def d word_less_nat_alt du by (simp only: defs)
    have k: "L - A + length bs \<le> 4096" "HF - A + length (replicate (HM - HF) (0 :: u8)) \<le> 4096"
      using order by (auto simp: bs_def)
    have m2: "m2 (pg + of_nat i) = (if HF - A \<le> i \<and> i < HF - A + (HM - HF) then 0 else m1 (pg + of_nat i))"
      unfolding m2_def store_in_page(1) [OF pg k(2) i(1)] by (auto simp del: of_nat_diff)
    have lbs: "length bs = HF - L" by (simp add: bs_def)
    have bs_nth: "bs ! n = img ! (P + (L - V) + n)" if "n < HF - L" for n using that by (simp add: bs_def)
    have m1: "m1 (pg + of_nat i) = (if L - A \<le> i \<and> i < L - A + (HF - L) then img ! (P + (L - V) + (i - (L - A))) else m (pg + of_nat i))"
      unfolding m1_def store_in_page(1) [OF pg k(1) i(1)] lbs using bs_nth [of "i - (L - A)"] by auto
    show ?thesis
    proof (cases "A + i - V < F")
      case True
      then have r: "L \<le> A + i" "A + i < HF" using v(1) i(1) by (auto simp: defs2)
      then have "L - A \<le> i" "i < L - A + (HF - L)" "\<not> HF - A \<le> i" "P + (L - V) + (i - (L - A)) = P + (A + i - V)"
        using order(1-3) v(1) by arith+
      then show ?thesis unfolding s m2 m1 using True by simp
    next
      case False
      then have "HF \<le> A + i" "A + i < HM" using v i(1) by (auto simp: defs2)
      then have "HF - A \<le> i" "i < HF - A + (HM - HF)" using order(1,3,4) by arith+
      then show ?thesis unfolding s m2 using False by (simp only: simp_thms if_True if_False)
    qed
  qed
  ultimately show ?thesis by (rule that)
qed

section \<open>Writes into one frame\<close>

lemma frame_same:
  assumes "only_frames m m' {f}" and "IS_ALIGNED f PAGE_SIZE" and "f \<notin> F" and "\<And>x. x \<in> F \<Longrightarrow> IS_ALIGNED x PAGE_SIZE"
  shows "same_frames m m' F"
  using assms by (intro only_same [OF assms(1)]) auto

lemma frame_tree:
  assumes "tree_ok 3 m root" and "only_frames m m' {f}" and "IS_ALIGNED f PAGE_SIZE" and "f \<notin> set (tabs 3 m root)"
  shows "tabs 3 m' root = tabs 3 m root" and "tree_ok 3 m' root" and "look 3 m' root va = look 3 m root va"
proof -
  have s: "same_frames m m' (set (tabs 3 m root))"
    by (rule frame_same [OF assms(2-4)]) (rule tree_ok_aligned [OF assms(1)])
  show "tabs 3 m' root = tabs 3 m root" "look 3 m' root va = look 3 m root va" using tabs_cong [OF s] by auto
  then show "tree_ok 3 m' root" using assms(1) by (simp add: tree_ok_def)
qed

lemma space_fill:
  assumes "space_ok st root fs" and "only_frames (ph_mem st) m {f}" and "IS_ALIGNED f PAGE_SIZE"
    and "f \<notin> set (tabs 3 (ph_mem st) root)" and "f \<notin> set fs"
  shows "space_ok (st\<lparr>ph_mem := m\<rparr>) root fs"
proof -
  have "pmm_inv (st\<lparr>ph_mem := m\<rparr>) fs"
    by (rule pmm_inv_only [where st = st and F = "{f}"]) (use assms in \<open>auto simp: space_ok_def\<close>)
  then show ?thesis using assms frame_tree [of "ph_mem st" root m f] by (simp add: space_ok_def)
qed

lemma space_give_back:
  assumes "space_ok st root fs" and "frame_ok f" and "f \<noteq> 0" and "f \<notin> set (tabs 3 (ph_mem st) root)" and "f \<notin> set fs"
  shows "space_ok (pmm_free f st) root (f # fs)" and "only_frames (ph_mem st) (ph_mem (pmm_free f st)) {f}"
proof -
  have al: "IS_ALIGNED f PAGE_SIZE" by (rule frame_ok_aligned [OF assms(2)])
  have "ph_mem (pmm_free f st) = store64 (ph_mem st) (entry_addr f 0) (ph_head st)"
    using assms(3) al by (simp add: pmm_free_def entry_addr_def)
  then show o: "only_frames (ph_mem st) (ph_mem (pmm_free f st)) {f}" using store_only [of 0 "ph_mem st" f] by simp
  have "pmm_inv (pmm_free f st) (f # fs)" using assms pmm_free_gives(1) [of st fs f] al by (simp add: space_ok_def)
  then show "space_ok (pmm_free f st) root (f # fs)"
    using assms frame_tree [OF _ o al assms(4)] by (auto simp: space_ok_def)
qed

lemma space_take:
  assumes "space_ok st root (f # fs)"
  shows "pmm_alloc st = (f, snd (pmm_alloc st))" and "space_ok (snd (pmm_alloc st)) root fs" and "ph_mem (snd (pmm_alloc st)) = ph_mem st"
    and "f \<noteq> 0" and "frame_ok f" and "f \<notin> set (tabs 3 (ph_mem st) root)" and "f \<notin> set fs"
  using assms pmm_alloc_gives [of st "f # fs"] by (auto simp: space_ok_def pmm_inv_def)

lemma space_empty: "space_ok st root [] \<Longrightarrow> pmm_alloc st = (0, st)"
  using pmm_alloc_gives(1) [of st "[]"] by (simp add: space_ok_def)

section \<open>Addresses of one page\<close>

lemma page_base:
  assumes "unat (x :: u64) < 2 ^ 48"
  shows "x AND PT_ADDR_MASK = x AND NOT (mask 12)"
proof (rule bit_word_eqI)
  fix n assume "n < LENGTH(64)"
  have "x = take_bit 48 x" using assms by (simp add: word_unat_eq_iff unsigned_take_bit_eq take_bit_nat_eq_self)
  then have "bit x n \<Longrightarrow> n < 48" by (metis bit_take_bit_iff)
  then show "bit (x AND PT_ADDR_MASK) n = bit (x AND NOT (mask 12)) n"
    by (auto simp: page_masks bit_and_iff bit_not_iff bit_mask_iff dest: bit_imp_le_length)
qed

lemma in_page:
  assumes "unat (x :: u64) < 2 ^ 48" and "unat va < 2 ^ 48" and "IS_ALIGNED va PAGE_SIZE"
  shows "x AND PT_ADDR_MASK = va AND PT_ADDR_MASK \<longleftrightarrow> unat va \<le> unat x \<and> unat x < unat va + 4096"
proof -
  obtain q where q: "unat va = 4096 * q" using assms(3) by (auto simp: aligned_iff_dvd dvd_def)
  have "x AND PT_ADDR_MASK = va AND PT_ADDR_MASK \<longleftrightarrow> unat x div 4096 * 4096 = unat va div 4096 * 4096"
    unfolding page_base [OF assms(1)] page_base [OF assms(2)] word_unat_eq_iff unat_clear_low by simp
  also have "\<dots> \<longleftrightarrow> unat x div 4096 = q" by (simp add: q)
  also have "\<dots> \<longleftrightarrow> unat va \<le> unat x \<and> unat x < unat va + 4096" unfolding q by auto
  finally show ?thesis .
qed

text \<open>What a mapped page of a process shows, in bytes.\<close>

definition vm_prot :: "u32 \<Rightarrow> u32" where
  "vm_prot fl = VM_READ OR (fl AND VM_WRITE) OR (fl AND VM_USER) OR
     (if fl AND VM_EXEC \<noteq> 0 \<and> fl AND VM_USER \<noteq> 0 then VM_EXEC else 0) OR (fl AND VM_DEVICE)"

lemma leaf_probe:
  assumes "look 3 m root x = Some (3, leaf_desc pa fl)" and "frame_ok pa"
  shows "vmm_probe m root x = Some (pa + (x AND 0xfff), vm_prot fl)"
proof -
  have f: "pa AND PT_ADDR_MASK = pa" "IS_ALIGNED pa PAGE_SIZE"
    using assms(2) frame_ok_aligned by (auto simp: frame_ok_def)
  have "pa AND NOT (mask 12) = pa" using f(2) unfolding word_unat_eq_iff unat_clear_low by (auto simp: aligned_iff_dvd)
  then have "pa OR (x AND mask 12) = pa + (x AND mask 12)"
    using ident_addr_or [of pa x] by (simp add: ident_addr_def page_masks)
  then show ?thesis
    using assms(1) leaf_desc_pa [of pa fl] f(1)
    by (simp add: probe_look decode_leaf vm_prot_def leaf_pa_def level_shift_def page_masks del: look.simps)
qed

section \<open>Loading pages\<close>

text \<open>What one successful turn of the loop does: a fresh frame is mapped at the page and filled.\<close>

lemma load_page_step:
  assumes sp: "space_ok st root (fr # fs)" and ok: "seg_ok img ph" and al: "IS_ALIGNED va PAGE_SIZE"
    and b: "unat va < 2 ^ 48" "unat (p_vaddr ph) < unat va + 4096" "unat va \<le> unat (p_vaddr ph) + unat (p_filesz ph)"
    and m: "vmm_map_at root va fr fl (snd (pmm_alloc st)) = (0, st2)"
  obtains mm fs2 where "fill_page img ph va fr (ph_mem st2) = Some mm" and "space_ok (st2\<lparr>ph_mem := mm\<rparr>) root fs2"
    and "set fs2 \<subseteq> set fs" and "set (tabs 3 mm root) \<subseteq> set (tabs 3 (ph_mem st) root) \<union> set fs"
    and "fr \<notin> set (tabs 3 mm root) \<union> set fs2"
    and "only_frames (ph_mem st) mm (set (tabs 3 (ph_mem st) root) \<union> set (fr # fs))"
    and "\<And>x. unat x < 2 ^ 48 \<Longrightarrow> vmm_probe mm root x =
      (if unat va \<le> unat x \<and> unat x < unat va + 4096 then Some (fr + (x AND 0xfff), vm_prot fl) else vmm_probe (ph_mem st) root x)"
    and "\<And>i. i < 4096 \<Longrightarrow> unat (p_vaddr ph) \<le> unat va + i \<Longrightarrow> unat va + i < unat (p_vaddr ph) + unat (p_memsz ph) \<Longrightarrow>
      mm (fr + of_nat i) = seg_byte img ph (va + of_nat i)"
proof -
  note t = space_take [OF sp]
  have fal: "IS_ALIGNED fr PAGE_SIZE" by (rule frame_ok_aligned [OF t(5)])
  obtain gs fs2 where g: "fs = gs @ fs2" "space_ok st2 root fs2"
    "set (tabs 3 (ph_mem st2) root) \<subseteq> set (tabs 3 (ph_mem st) root) \<union> set gs"
    "only_frames (ph_mem st) (ph_mem st2) (set (tabs 3 (ph_mem st) root) \<union> set gs)"
    using map_at_frames [OF t(2) m] unfolding t(3) by blast
  have l: "look 3 (ph_mem st2) root x =
      (if same_path 0 3 va x then Some (3, leaf_desc fr fl) else look 3 (ph_mem st) root x)" for x
    by (rule map_at_look [OF t(2) m]) (auto simp: t(3) simp del: look.simps)
  obtain mm where mm: "fill_page img ph va fr (ph_mem st2) = Some mm" "only_frames (ph_mem st2) mm {fr}"
    "\<And>i. i < 4096 \<Longrightarrow> unat (p_vaddr ph) \<le> unat va + i \<Longrightarrow> unat va + i < unat (p_vaddr ph) + unat (p_memsz ph) \<Longrightarrow>
      mm (fr + of_nat i) = seg_byte img ph (va + of_nat i)"
    using fill_page_gives [OF ok fal b(2,3)] by blast
  have free: "fr \<notin> set (tabs 3 (ph_mem st2) root)" "fr \<notin> set fs2" using t(6,7) g(1,3) by auto
  have T: "tree_ok 3 (ph_mem st2) root" using g(2) by (simp add: space_ok_def)
  note keep = frame_tree [OF T mm(2) fal free(1)]
  have spc: "space_ok (st2\<lparr>ph_mem := mm\<rparr>) root fs2" by (rule space_fill [OF g(2) mm(2) fal free])
  have onl: "only_frames (ph_mem st) mm (set (tabs 3 (ph_mem st) root) \<union> set (fr # fs))"
    by (rule only_frames_trans [OF g(4) mm(2)]) (auto simp: g(1))
  have prb: "vmm_probe mm root x = (if unat va \<le> unat x \<and> unat x < unat va + 4096
      then Some (fr + (x AND 0xfff), vm_prot fl) else vmm_probe (ph_mem st) root x)" if "unat x < 2 ^ 48" for x
  proof (cases "unat va \<le> unat x \<and> unat x < unat va + 4096")
    case True
    then have "same_path 0 3 va x" using in_page [OF that b(1) al] by (simp add: same_path_page)
    then show ?thesis using True l [of x] keep(3) [of x] leaf_probe [OF _ t(5)] by simp
  next
    case False
    then have "\<not> same_path 0 3 va x" using in_page [OF that b(1) al] by (simp add: same_path_page)
    then have "vmm_probe mm root x = vmm_probe (ph_mem st) root x"
      using l [of x] keep(3) [of x] by (simp add: probe_look del: look.simps)
    then show ?thesis unfolding if_not_P [OF False] .
  qed
  have sub: "set fs2 \<subseteq> set fs" "set (tabs 3 mm root) \<subseteq> set (tabs 3 (ph_mem st) root) \<union> set fs"
    "fr \<notin> set (tabs 3 mm root) \<union> set fs2"
    using g(1,3) free keep(1) by auto
  show ?thesis by (rule that [OF mm(1) spc sub onl prb mm(3)])
qed

text \<open>The frames of \<open>D\<close> belong to somebody else; the loop leaves them alone.\<close>

definition apart :: "u64 set \<Rightarrow> u64 \<Rightarrow> phys \<Rightarrow> u64 list \<Rightarrow> bool" where
  "apart D root st fs \<longleftrightarrow> (\<forall>f\<in>D. IS_ALIGNED f PAGE_SIZE \<and> f \<notin> set (tabs 3 (ph_mem st) root) \<and> f \<notin> set fs)"

text \<open>What the pages from \<open>va\<close> to \<open>va_hi\<close> show when the frame of page \<open>i\<close> is \<open>g i\<close>: the bytes of the segment,
  with the given permissions; every other address leads where it led in \<open>m0\<close>.\<close>

definition shows_pages ::
  "u8 list \<Rightarrow> elf64_phdr \<Rightarrow> u64 \<Rightarrow> u32 \<Rightarrow> nat \<Rightarrow> nat \<Rightarrow> (nat \<Rightarrow> u64) \<Rightarrow> mem \<Rightarrow> mem \<Rightarrow> bool" where
  "shows_pages img ph root prot lo hi g m0 m \<longleftrightarrow> (\<forall>x. unat x < 2 ^ 48 \<longrightarrow>
    (if lo \<le> unat x \<and> unat x < hi
     then vmm_probe m root x = Some (g ((unat x - lo) div 4096) + (x AND 0xfff), prot) \<and>
       (unat (p_vaddr ph) \<le> unat x \<and> unat x < unat (p_vaddr ph) + unat (p_memsz ph) \<longrightarrow>
         m (g ((unat x - lo) div 4096) + (x AND 0xfff)) = seg_byte img ph x)
     else vmm_probe m root x = vmm_probe m0 root x))"

text \<open>The frames of \<open>g\<close> are different, were free and belong to nobody else now.\<close>

definition fresh_frames :: "nat \<Rightarrow> (nat \<Rightarrow> u64) \<Rightarrow> u64 list \<Rightarrow> u64 set \<Rightarrow> bool" where
  "fresh_frames n g fs U \<longleftrightarrow> inj_on g {..<n} \<and> (\<forall>i<n. g i \<in> set fs \<and> g i \<notin> U)"

lemma fresh_frames_Cons:
  assumes "fresh_frames n g fs2 U" and "set fs2 \<subseteq> set fs1" and "fr \<notin> set fs2" and "fr \<notin> U"
  shows "fresh_frames (Suc n) (case_nat fr g) (fr # fs1) U"
proof -
  have "inj_on (case_nat fr g) {..<Suc n}"
  proof (rule inj_onI)
    fix i j assume "i \<in> {..<Suc n}" "j \<in> {..<Suc n}" "case_nat fr g i = case_nat fr g j"
    then show "i = j" using assms by (cases i; cases j) (auto simp: fresh_frames_def inj_on_def)
  qed
  moreover have "case_nat fr g i \<in> set (fr # fs1) \<and> case_nat fr g i \<notin> U" if "i < Suc n" for i
    using that assms by (cases i) (auto simp: fresh_frames_def)
  ultimately show ?thesis unfolding fresh_frames_def by blast
qed

lemma load_pages_maps:
  assumes ok: "seg_ok img ph" and hi: "unat va_hi \<le> 2 ^ 48" "unat va_hi \<le> unat (p_vaddr ph) + unat (p_filesz ph) + 4096"
  shows "space_ok st root fs \<Longrightarrow> apart D root st fs \<Longrightarrow> IS_ALIGNED va PAGE_SIZE \<Longrightarrow> unat va + 4096 * n = unat va_hi \<Longrightarrow>
    unat (p_vaddr ph) < unat va + 4096 \<Longrightarrow>
    \<exists>r st' fs'. load_pages root img ph fl va_hi va st = Some (r, st') \<and> space_ok st' root fs' \<and>
      set fs' \<union> set (tabs 3 (ph_mem st') root) \<subseteq> set (tabs 3 (ph_mem st) root) \<union> set fs \<and>
      same_frames (ph_mem st) (ph_mem st') D \<and>
      (r = 0 \<and> (\<exists>g. fresh_frames n g fs (set fs' \<union> set (tabs 3 (ph_mem st') root)) \<and>
          shows_pages img ph root (vm_prot fl) (unat va) (unat va_hi) g (ph_mem st) (ph_mem st')) \<or>
       r = - 5 \<and> fs' = [] \<or>
       r = - 4 \<and> (length fs' = 1 \<or> (\<exists>x. unat va \<le> unat x \<and> unat x < unat va_hi \<and> vmm_probe (ph_mem st) root x \<noteq> None)))"
proof (induction n arbitrary: st fs va D)
  case 0
  then show ?case by (intro exI [of _ 0] exI [of _ st] exI [of _ fs])
    (auto simp: load_pages.simps word_less_nat_alt same_frames_def shows_pages_def fresh_frames_def)
next
  case (Suc n)
  have lt: "va < va_hi" using Suc.prems(4) by (simp add: word_less_nat_alt)
  have e: "unat va + 4096 + 4096 * n = unat va_hi" using Suc.prems(4) by simp
  have h: "unat va_hi \<le> 281474976710656" using hi(1) by simp
  have b': "unat va + 4096 \<le> 281474976710656" "unat va \<le> unat (p_vaddr ph) + unat (p_filesz ph)"
    using h hi(2) e by linarith+
  then have b: "unat va < 2 ^ 48" "unat va \<le> unat (p_vaddr ph) + unat (p_filesz ph)" by simp_all
  show ?case
  proof (cases fs)
    case Nil
    have "load_pages root img ph fl va_hi va st = Some (- 5, st)"
      using lt space_empty Suc.prems(1) Nil by (subst load_pages.simps) simp
    then show ?thesis using Suc.prems(1) Nil by (intro exI [of _ "- 5"] exI [of _ st] exI [of _ fs]) (auto simp: same_frames_def)
  next
    case (Cons fr fs1)
    note sp = Suc.prems(1) [unfolded Cons]
    note t = space_take [OF sp]
    obtain r st2 where m: "vmm_map_at root va fr fl (snd (pmm_alloc st)) = (r, st2)" by fastforce
    obtain st1 where st1: "snd (pmm_alloc st) = st1" by simp
    have a: "pmm_alloc st = (fr, st1)" using t(1) st1 by simp
    note m1 = m [unfolded st1]
    have fal: "IS_ALIGNED fr PAGE_SIZE" by (rule frame_ok_aligned [OF t(5)])
    show ?thesis
    proof (cases "r = 0")
      case False
      obtain gs fs2 where g: "fs1 = gs @ fs2" "space_ok st2 root fs2"
        "set (tabs 3 (ph_mem st2) root) \<subseteq> set (tabs 3 (ph_mem st) root) \<union> set gs"
        "only_frames (ph_mem st) (ph_mem st2) (set (tabs 3 (ph_mem st) root) \<union> set gs)"
        using map_at_frames [OF t(2) m] unfolding t(3) by blast
      have free: "fr \<notin> set (tabs 3 (ph_mem st2) root)" "fr \<notin> set fs2" using t(6,7) g(1,3) by auto
      note given = space_give_back [OF g(2) t(5,4) free]
      have T: "tree_ok 3 (ph_mem st2) root" using g(2) by (simp add: space_ok_def)
      note tb = frame_tree(1) [OF T given(2) fal free(1)]
      have "only_frames (ph_mem st) (ph_mem (pmm_free fr st2)) (set (tabs 3 (ph_mem st) root) \<union> set fs)"
        by (rule only_frames_trans [OF g(4) given(2)]) (auto simp: g(1) Cons)
      then have "same_frames (ph_mem st) (ph_mem (pmm_free fr st2)) D"
        by (rule only_same) (use Suc.prems(1,2) tree_ok_aligned in \<open>auto simp: apart_def space_ok_def frame_ok_aligned\<close>)
      moreover have "load_pages root img ph fl va_hi va st = Some (- 4, pmm_free fr st2)"
        using lt t(4) False by (subst load_pages.simps) (simp add: a m1)
      moreover have "fs2 = [] \<or> vmm_probe (ph_mem st) root va \<noteq> None"
        using map_at_causes [OF t(2) m False Suc.prems(3) fal g(2)] unfolding t(3) .
      then have "length (fr # fs2) = 1 \<or> (\<exists>x. unat va \<le> unat x \<and> unat x < unat va_hi \<and> vmm_probe (ph_mem st) root x \<noteq> None)"
        using lt by (auto simp: word_less_nat_alt)
      moreover have "set (fr # fs2) \<union> set (tabs 3 (ph_mem (pmm_free fr st2)) root) \<subseteq> set (tabs 3 (ph_mem st) root) \<union> set fs"
        using g(1,3) unfolding tb by (auto simp: Cons)
      ultimately show ?thesis using given(1)
        by (intro exI [of _ "- 4"] exI [of _ "pmm_free fr st2"] exI [of _ "fr # fs2"]) blast
    next
      case True
      obtain mm fs2 where s: "fill_page img ph va fr (ph_mem st2) = Some mm" "space_ok (st2\<lparr>ph_mem := mm\<rparr>) root fs2"
        "set fs2 \<subseteq> set fs1" "set (tabs 3 mm root) \<subseteq> set (tabs 3 (ph_mem st) root) \<union> set fs1"
        "fr \<notin> set (tabs 3 mm root) \<union> set fs2"
        "only_frames (ph_mem st) mm (set (tabs 3 (ph_mem st) root) \<union> set (fr # fs1))"
        "\<And>x. unat x < 2 ^ 48 \<Longrightarrow> vmm_probe mm root x =
          (if unat va \<le> unat x \<and> unat x < unat va + 4096 then Some (fr + (x AND 0xfff), vm_prot fl) else vmm_probe (ph_mem st) root x)"
        "\<And>i. i < 4096 \<Longrightarrow> unat (p_vaddr ph) \<le> unat va + i \<Longrightarrow> unat va + i < unat (p_vaddr ph) + unat (p_memsz ph) \<Longrightarrow>
          mm (fr + of_nat i) = seg_byte img ph (va + of_nat i)"
        using load_page_step [OF sp ok Suc.prems(3) b(1) Suc.prems(5) b(2) m [unfolded True]] by blast
      let ?st3 = "st2\<lparr>ph_mem := mm\<rparr>"
      have va': "unat (va + PAGE_SIZE) = unat va + 4096"
        using unat_add_of_nat [of va 4096] b'(1) by simp
      have al': "IS_ALIGNED (va + PAGE_SIZE) PAGE_SIZE"
        using Suc.prems(3) unfolding aligned_iff_dvd va' by simp
      have ap: "apart (insert fr D) root ?st3 fs2"
        using s(3-5) Suc.prems(2) t(5) frame_ok_aligned by (auto simp: apart_def Cons)
      have n': "unat (va + PAGE_SIZE) + 4096 * n = unat va_hi" "unat (p_vaddr ph) < unat (va + PAGE_SIZE) + 4096"
        using Suc.prems(4,5) va' by simp_all
      have m3: "ph_mem ?st3 = mm" by simp
      note ih = Suc.IH [OF s(2) ap al' n', unfolded m3]
      obtain r' st' fs' where I: "load_pages root img ph fl va_hi (va + PAGE_SIZE) ?st3 = Some (r', st')"
        "space_ok st' root fs'" "set fs' \<union> set (tabs 3 (ph_mem st') root) \<subseteq> set (tabs 3 mm root) \<union> set fs2"
        "same_frames mm (ph_mem st') (insert fr D)"
        "r' = 0 \<and> (\<exists>g. fresh_frames n g fs2 (set fs' \<union> set (tabs 3 (ph_mem st') root)) \<and>
          shows_pages img ph root (vm_prot fl) (unat (va + PAGE_SIZE)) (unat va_hi) g mm (ph_mem st')) \<or>
         r' = - 5 \<and> fs' = [] \<or>
         r' = - 4 \<and> (length fs' = 1 \<or> (\<exists>x. unat (va + PAGE_SIZE) \<le> unat x \<and> unat x < unat va_hi \<and> vmm_probe mm root x \<noteq> None))"
        using ih by blast
      have run: "load_pages root img ph fl va_hi va st = Some (r', st')"
        using lt t(4) True s(1) I(1) by (subst load_pages.simps) (simp add: a m1)
      have "same_frames (ph_mem st) mm D"
        by (rule only_same [OF s(6)]) (use Suc.prems(1,2) tree_ok_aligned in \<open>auto simp: apart_def space_ok_def frame_ok_aligned Cons\<close>)
      then have keep: "same_frames (ph_mem st) (ph_mem st') D" using I(4) by (simp add: same_frames_def)
      have U: "set fs' \<union> set (tabs 3 (ph_mem st') root) \<subseteq> set (tabs 3 (ph_mem st) root) \<union> set fs"
        "fr \<notin> set fs' \<union> set (tabs 3 (ph_mem st') root)"
        using I(3) s(3,4,5) by (auto simp: Cons)
      have shown: "shows_pages img ph root (vm_prot fl) (unat va) (unat va_hi) (case_nat fr g) (ph_mem st) (ph_mem st')"
        if sh: "shows_pages img ph root (vm_prot fl) (unat (va + PAGE_SIZE)) (unat va_hi) g mm (ph_mem st')" for g
        unfolding shows_pages_def
      proof (intro allI impI)
        fix x assume x48: "unat (x :: u64) < 2 ^ 48"
        note ihx = sh [unfolded shows_pages_def va', rule_format, OF x48]
        note sx = s(7) [OF x48]
        consider (page) "unat va \<le> unat x" "unat x < unat va + 4096" | (later) "unat va + 4096 \<le> unat x" "unat x < unat va_hi"
          | (out) "unat x < unat va \<or> unat va_hi \<le> unat x" by linarith
        then show "if unat va \<le> unat x \<and> unat x < unat va_hi
          then vmm_probe (ph_mem st') root x = Some (case_nat fr g ((unat x - unat va) div 4096) + (x AND 0xfff), vm_prot fl) \<and>
            (unat (p_vaddr ph) \<le> unat x \<and> unat x < unat (p_vaddr ph) + unat (p_memsz ph) \<longrightarrow>
              ph_mem st' (case_nat fr g ((unat x - unat va) div 4096) + (x AND 0xfff)) = seg_byte img ph x)
          else vmm_probe (ph_mem st') root x = vmm_probe (ph_mem st) root x"
        proof cases
          case page
          define i where "i = unat x - unat va"
          have i: "i < 4096" "x = va + of_nat i" "unat x = unat va + i" using page by (auto simp: i_def of_nat_diff)
          obtain q where q: "unat va = 4096 * q" using Suc.prems(3) by (auto simp: aligned_iff_dvd dvd_def)
          have "unat (x AND 4095) = i" unfolding page_offset i(3) q using i(1) by simp
          then have "of_nat (unat (x AND 4095)) = (of_nat i :: u64)" by (rule arg_cong)
          then have off: "x AND 0xfff = of_nat i" by simp
          have d: "(unat x - unat va) div 4096 = 0" using i(1) by (simp add: i_def [symmetric])
          have p: "vmm_probe (ph_mem st') root x = Some (fr + of_nat i, vm_prot fl)"
            using ihx sx page off by (simp split: if_splits)
          have "fr + of_nat i \<in> span fr 4096" using i(1) by (auto simp: span_def)
          then have "ph_mem st' (fr + of_nat i) = mm (fr + of_nat i)" using I(4) by (simp add: same_frames_def)
          then show ?thesis unfolding d off using p s(8) [OF i(1)] page n'(1) va' i(2,3) by auto
        next
          case later
          then have d: "(unat x - unat va) div 4096 = Suc ((unat x - (unat va + 4096)) div 4096)"
            using div_add_self1 [of 4096 "unat x - (unat va + 4096)"] by simp
          show ?thesis unfolding d using ihx later by simp
        next
          case out
          then have "\<not> (unat va + 4096 \<le> unat x \<and> unat x < unat va_hi)" "\<not> (unat va \<le> unat x \<and> unat x < unat va + 4096)"
            "\<not> (unat va \<le> unat x \<and> unat x < unat va_hi)" using e by linarith+
          then show ?thesis using ihx sx by (simp only: if_False)
        qed
      qed
      have "r' = 0 \<and> (\<exists>g. fresh_frames (Suc n) g fs (set fs' \<union> set (tabs 3 (ph_mem st') root)) \<and>
          shows_pages img ph root (vm_prot fl) (unat va) (unat va_hi) g (ph_mem st) (ph_mem st')) \<or>
         r' = - 5 \<and> fs' = [] \<or>
         r' = - 4 \<and> (length fs' = 1 \<or> (\<exists>x. unat va \<le> unat x \<and> unat x < unat va_hi \<and> vmm_probe (ph_mem st) root x \<noteq> None))"
        using I(5)
      proof (elim disjE conjE exE)
        fix g assume "r' = 0" and f: "fresh_frames n g fs2 (set fs' \<union> set (tabs 3 (ph_mem st') root))"
          and sh: "shows_pages img ph root (vm_prot fl) (unat (va + PAGE_SIZE)) (unat va_hi) g mm (ph_mem st')"
        then show ?thesis using shown [OF sh] fresh_frames_Cons [OF f s(3) _ U(2)] s(5) unfolding Cons by blast
      next
        fix x assume "r' = - 4" and x: "unat (va + PAGE_SIZE) \<le> unat x" "unat x < unat va_hi" "vmm_probe mm root x \<noteq> None"
        then have "unat va \<le> unat x" "vmm_probe (ph_mem st) root x \<noteq> None" using s(7) [of x] va' h by auto
        then show ?thesis using \<open>r' = - 4\<close> x(2) by blast
      qed simp_all
      then show ?thesis using run I(2) keep U(1) by blast
    qed
  qed
qed

section \<open>One segment\<close>

lemma seg_prot: "vm_prot (seg_flags ph) = seg_flags ph"
  unfolding vm_prot_def seg_flags_def
  by (cases "p_flags ph AND PF_W = 0"; cases "p_flags ph AND PF_X = 0") simp_all

text \<open>Where the pages of a segment begin and end.\<close>

definition seg_lo :: "elf64_phdr \<Rightarrow> nat" where
  "seg_lo ph = unat (ALIGN_DOWN (p_vaddr ph) PAGE_SIZE)"

definition seg_hi :: "elf64_phdr \<Rightarrow> nat" where
  "seg_hi ph = unat (ALIGN_UP (p_vaddr ph + p_memsz ph) PAGE_SIZE)"

lemma load_segment_gives:
  assumes ok: "seg_ok img ph" and sp: "space_ok st root fs" and ap: "apart D root st fs"
    and lo: "USER_CODE_BASE \<le> p_vaddr ph" and hi: "p_vaddr ph + p_memsz ph \<le> USER_VA_LIMIT"
  shows "\<exists>r st' fs'. load_segment root img ph st = Some (r, st') \<and> space_ok st' root fs' \<and>
    same_frames (ph_mem st) (ph_mem st') D \<and>
    (r = 0 \<and> (\<exists>g. fresh_frames ((seg_hi ph - seg_lo ph) div 4096) g fs (set fs' \<union> set (tabs 3 (ph_mem st') root)) \<and>
        shows_pages img ph root (seg_flags ph) (seg_lo ph) (seg_hi ph) g (ph_mem st) (ph_mem st')) \<or>
     r = - 5 \<and> fs' = [] \<or>
     r = - 4 \<and> (length fs' = 1 \<or> (\<exists>x. seg_lo ph \<le> unat x \<and> unat x < seg_hi ph \<and> vmm_probe (ph_mem st) root x \<noteq> None)))"
proof -
  define V M P F where defs: "V = unat (p_vaddr ph)" "M = unat (p_memsz ph)" "P = unat (p_offset ph)" "F = unat (p_filesz ph)"
  have b: "V + M < 9223372036854775808" "P + F \<le> length img" "length img < 18446744073709551616"
    using ok unfolding seg_ok_def by (simp_all add: defs)
  have vm: "unat (p_vaddr ph + p_memsz ph) = V + M" using b by (subst unat_word_ariths) (simp add: defs)
  have pf: "unat (p_offset ph + p_filesz ph) = P + F" using b by (subst unat_word_ariths) (simp add: defs)
  have lim: "V + M \<le> 4398046511104" using hi by (simp add: word_le_nat_alt vm)
  have d: "unat (ALIGN_DOWN (p_vaddr ph) PAGE_SIZE) = V div 4096 * 4096"
    using unat_clear_low [of "p_vaddr ph"] by (simp add: ALIGN_DOWN_def page_masks defs)
  have up: "unat (ALIGN_UP (p_vaddr ph + p_memsz ph) PAGE_SIZE) = (V + M + 4095) div 4096 * 4096"
    using align_up_gives(3) [of "p_vaddr ph + p_memsz ph"] vm b by simp
  have al: "IS_ALIGNED (ALIGN_DOWN (p_vaddr ph) PAGE_SIZE) PAGE_SIZE" unfolding aligned_iff_dvd d by simp
  have "(V + M + 4095) div 4096 * 4096 \<le> V + M + 4095" by (rule div_times_less_eq_dividend)
  then have hi48: "unat (ALIGN_UP (p_vaddr ph + p_memsz ph) PAGE_SIZE) \<le> 2 ^ 48" using lim unfolding up by simp
  have tail: "unat (ALIGN_UP (p_vaddr ph + p_memsz ph) PAGE_SIZE) \<le> unat (p_vaddr ph) + unat (p_filesz ph) + 4096"
    using ok by (simp add: seg_ok_def)
  define n where "n = (V + M + 4095) div 4096 - V div 4096"
  have "V div 4096 \<le> (V + M + 4095) div 4096" by (rule div_le_mono) simp
  then have n: "unat (ALIGN_DOWN (p_vaddr ph) PAGE_SIZE) + 4096 * n = unat (ALIGN_UP (p_vaddr ph + p_memsz ph) PAGE_SIZE)"
    unfolding d up n_def by (simp add: diff_mult_distrib2)
  have in_first: "unat (p_vaddr ph) < unat (ALIGN_DOWN (p_vaddr ph) PAGE_SIZE) + 4096"
    unfolding d defs(1) [symmetric] by simp
  have l: "unat (of_nat (length img) :: u64) = length img" using b by (simp add: unat_of_nat take_bit_nat_eq_self)
  have "\<not> of_nat (length img) < p_offset ph + p_filesz ph" using b by (simp add: word_less_nat_alt l pf)
  then have run: "load_segment root img ph st = load_pages root img ph (seg_flags ph)
      (ALIGN_UP (p_vaddr ph + p_memsz ph) PAGE_SIZE) (ALIGN_DOWN (p_vaddr ph) PAGE_SIZE) st"
    using lo hi by (auto simp: load_segment_def)
  have e: "(seg_hi ph - seg_lo ph) div 4096 = n" using n by (simp add: seg_hi_def seg_lo_def flip: n)
  show ?thesis
    unfolding run e unfolding seg_hi_def seg_lo_def
    using load_pages_maps [OF ok hi48 tail sp ap al n in_first, of "seg_flags ph"] unfolding seg_prot by blast
qed


text \<open>One page, four free frames: enough for the page and its three tables.\<close>

definition four_frames :: phys where
  "four_frames = pmm_free 0x4000 (pmm_free 0x3000 (pmm_free 0x2000 (pmm_free 0x7000 no_phys)))"

definition elf_space :: phys where
  "elf_space = zero_table 0x9000 four_frames"

definition demo_seg :: elf64_phdr where
  "demo_seg = \<lparr>p_type = PT_LOAD, p_flags = 6, p_offset = 1, p_vaddr = 0x10000000010, p_paddr = 0,
     p_filesz = 3, p_memsz = 5, p_align = 0x1000\<rparr>"

lemma four_frames_inv: "pmm_inv four_frames [0x4000, 0x3000, 0x2000, 0x7000]"
  using pmm_free_gives(1) [OF three_frames_inv, of "0x4000"] by (simp add: four_frames_def three_frames_def IS_ALIGNED_def)

lemma elf_space_ok: "space_ok elf_space 0x9000 [0x4000, 0x3000, 0x2000, 0x7000]"
  and elf_space_empty: "vmm_probe (ph_mem elf_space) 0x9000 va = None"
  unfolding elf_space_def by (rule empty_space [OF four_frames_inv]; simp add: frame_ok_def)+

lemma demo_seg_ok: "seg_ok [9, 1, 2, 3] demo_seg"
  by (simp add: seg_ok_def demo_seg_def ALIGN_UP_def)

lemma demo_seg_loads: "\<exists>st'. load_segment 0x9000 [9, 1, 2, 3] demo_seg elf_space = Some (0, st')"
proof -
  note t = space_take [OF elf_space_ok]
  obtain st1 where st1: "snd (pmm_alloc elf_space) = st1" by simp
  have a: "pmm_alloc elf_space = (0x4000, st1)" using t(1) st1 by simp
  obtain r st2 where m: "vmm_map_at 0x9000 0x10000000000 0x4000 11 st1 = (r, st2)" by fastforce
  have none: "look 3 (ph_mem st1) 0x9000 0x10000000000 = None"
    using t(3) st1 elf_space_empty [of "0x10000000000"] by (simp add: probe_look del: look.simps)
  have sp1: "space_ok st1 0x9000 [0x3000, 0x2000, 0x7000]" using t(2) st1 by simp
  have "r = 0" by (rule map_at_look [OF sp1 m]) (use none in \<open>auto simp: IS_ALIGNED_def simp del: look.simps\<close>)
  moreover obtain mm where "fill_page [9, 1, 2, 3] demo_seg 0x10000000000 0x4000 (ph_mem st2) = Some mm"
    by (rule fill_page_gives [OF demo_seg_ok, of "0x4000" "0x10000000000"]) (auto simp: IS_ALIGNED_def demo_seg_def)
  moreover have "load_pages 0x9000 [9, 1, 2, 3] demo_seg 11 0x10000001000 0x10000001000 st = Some (0, st)" for st
    by (subst load_pages.simps) simp
  ultimately have "load_pages 0x9000 [9, 1, 2, 3] demo_seg 11 0x10000001000 0x10000000000 elf_space = Some (0, st2\<lparr>ph_mem := mm\<rparr>)"
    using m by (subst load_pages.simps) (simp add: a)
  then show ?thesis by (auto simp: load_segment_def demo_seg_def seg_flags_def ALIGN_UP_def ALIGN_DOWN_def)
qed


section \<open>Segments with more than a page behind the file data\<close>

text \<open>A page that lies wholly behind the file data of its segment is cleared from the end of the file
  data on, which is an address below the page: the bytes of physical memory below the frame are
  zeroed as well, as many as there are between the end of the file data and the page, whomever
  they belong to.\<close>

theorem fill_page_clears_below:
  assumes "unat (p_vaddr ph) + unat (p_memsz ph) < 2 ^ 63" and "unat (p_vaddr ph) + unat (p_filesz ph) < unat va"
    and "unat va < unat (p_vaddr ph) + unat (p_memsz ph)"
    and "j < unat va - (unat (p_vaddr ph) + unat (p_filesz ph))"
  shows "\<exists>m'. fill_page img ph va pg m = Some m' \<and> m' (pg - of_nat (Suc j)) = 0"
proof -
  define A V F M where defs: "A = unat va" "V = unat (p_vaddr ph)" "F = unat (p_filesz ph)" "M = unat (p_memsz ph)"
  have b: "V + M < 9223372036854775808" "V + F < A" "A < V + M" "j < A - (V + F)" using assms by (simp_all add: defs)
  have e: "unat (p_vaddr ph + p_filesz ph) = V + F" "unat (p_vaddr ph + p_memsz ph) = V + M"
    using b by (subst unat_word_ariths; simp add: defs)+
  have n: "unat (va + PAGE_SIZE) = A + 4096" using unat_add_of_nat [of va 4096] b by (simp add: defs)
  define hm where "hm = min (va + PAGE_SIZE) (p_vaddr ph + p_memsz ph)"
  have hm: "unat hm = min (A + 4096) (V + M)"
    unfolding hm_def min_def word_le_nat_alt e n by (simp add: e n)
  have hf: "min (va + PAGE_SIZE) (p_vaddr ph + p_filesz ph) = p_vaddr ph + p_filesz ph"
    using b by (simp add: min_def word_le_nat_alt e n)
  have lo: "max va (p_vaddr ph) = va" using b by (simp add: max_def word_le_nat_alt defs)
  define k where "k = A - (V + F)"
  have k: "p_vaddr ph + p_filesz ph - va = - of_nat k"
  proof -
    have "va = p_vaddr ph + p_filesz ph + of_nat k"
      unfolding word_unat_eq_iff using unat_add_of_nat [of "p_vaddr ph + p_filesz ph" k] b e(1) unat_less64 [of va]
      by (simp add: k_def defs)
    then show ?thesis by simp
  qed
  have len: "unat (hm - (p_vaddr ph + p_filesz ph)) = min (A + 4096) (V + M) - (V + F)"
    using b by (subst unat_sub) (simp_all add: word_le_nat_alt hm e)
  have "fill_page img ph va pg m =
      Some (store_bytes m (pg - of_nat k) (replicate (min (A + 4096) (V + M) - (V + F)) 0))"
    unfolding fill_page_def Let_def hf lo hm_def [symmetric] k len
    using b by (simp add: word_less_nat_alt e hm defs)
  moreover have "store_bytes m (pg - of_nat k) (replicate (min (A + 4096) (V + M) - (V + F)) 0) (pg - of_nat (Suc j)) = 0"
  proof -
    have i: "pg - of_nat (Suc j) = (pg - of_nat k) + of_nat (k - Suc j)"
      using b by (simp add: k_def of_nat_diff)
    have "k - Suc j < min (A + 4096) (V + M) - (V + F)" using b by (auto simp: k_def)
    then show ?thesis unfolding i using b by (subst store_bytes_at) (auto simp: k_def)
  qed
  ultimately show ?thesis by blast
qed

text \<open>A segment with three bytes of file data and two pages of cleared data: filling its second page at
  frame \<open>0x5000\<close> also clears the word at \<open>0x4ff8\<close>.\<close>

definition bss_seg :: elf64_phdr where
  "bss_seg = demo_seg\<lparr>p_memsz := 0x1800\<rparr>"

theorem fill_page_clears_below_witness:
  "\<exists>m'. fill_page [9, 1, 2, 3] bss_seg 0x10000001000 0x5000 (\<lambda>_. 7) = Some m' \<and> m' 0x4fff = 0"
  using fill_page_clears_below [of bss_seg "0x10000001000" 0 "[9, 1, 2, 3]" "0x5000" "\<lambda>_. 7"]
  by (simp add: bss_seg_def demo_seg_def)

section \<open>The whole image\<close>

lemma load_segment_any:
  assumes "seg_ok img ph" and "space_ok st root fs"
  shows "\<exists>r st' fs'. load_segment root img ph st = Some (r, st') \<and> r \<in> {0, - 3, - 4, - 5} \<and> space_ok st' root fs'"
proof (cases "USER_CODE_BASE \<le> p_vaddr ph \<and> p_vaddr ph + p_memsz ph \<le> USER_VA_LIMIT")
  case True
  have "apart {} root st fs" by (simp add: apart_def)
  then show ?thesis using load_segment_gives [OF assms, of "{}"] True by blast
next
  case False
  then have "load_segment root img ph st = Some (- 3, st)" by (auto simp: load_segment_def)
  then show ?thesis using assms(2) by auto
qed

text \<open>An image whose headers lie inside it and whose segments are those of \<open>seg_ok\<close>.\<close>

definition image_ok :: "u8 list \<Rightarrow> bool" where
  "image_ok img \<longleftrightarrow> (\<forall>i<unat (e_phnum (ehdr_of img)). \<exists>ph. get_phdr img (ehdr_of img) i = Some (Some ph) \<and>
    (p_type ph = PT_LOAD \<and> p_memsz ph \<noteq> 0 \<longrightarrow> seg_ok img ph))"

lemma check_phdrs_returns:
  "\<forall>i\<in>set is. \<exists>ph. get_phdr img eh i = Some (Some ph) \<Longrightarrow> \<exists>r. (r = 0 \<or> r = - 6) \<and> check_phdrs img eh is = Some r"
proof (induction "is")
  case (Cons i "is")
  obtain ph where "get_phdr img eh i = Some (Some ph)" using Cons.prems by auto
  then show ?case using Cons by (cases "p_type ph = PT_INTERP") auto
qed simp

lemma load_phdrs_returns:
  "\<forall>i\<in>set is. \<exists>ph. get_phdr img eh i = Some (Some ph) \<and> (p_type ph = PT_LOAD \<and> p_memsz ph \<noteq> 0 \<longrightarrow> seg_ok img ph) \<Longrightarrow>
    space_ok st root fs \<Longrightarrow>
    \<exists>r b st' fs'. load_phdrs root img eh is brk st = Some (r, b, st') \<and> r \<in> {0, - 3, - 4, - 5} \<and> space_ok st' root fs'"
proof (induction "is" arbitrary: st fs brk)
  case (Cons i "is")
  obtain ph where ph: "get_phdr img eh i = Some (Some ph)" "p_type ph = PT_LOAD \<and> p_memsz ph \<noteq> 0 \<Longrightarrow> seg_ok img ph"
    using Cons.prems(1) by auto
  show ?case
  proof (cases "p_type ph = PT_LOAD \<and> p_memsz ph \<noteq> 0")
    case True
    then obtain r st1 fs1 where s: "load_segment root img ph st = Some (r, st1)" "r \<in> {0, - 3, - 4, - 5}" "space_ok st1 root fs1"
      using load_segment_any [OF ph(2) Cons.prems(2)] by blast
    show ?thesis
    proof (cases "r = 0")
      case r0: True
      then show ?thesis
        using Cons.IH [OF _ s(3), of "max brk (ALIGN_UP (p_vaddr ph + p_memsz ph) PAGE_SIZE)"] Cons.prems(1) ph True s(1) by simp
    next
      case False
      then show ?thesis using ph True s by auto
    qed
  next
    case False
    then show ?thesis using Cons.IH [OF _ Cons.prems(2), of brk] Cons.prems(1) ph by auto
  qed
qed auto

text \<open>Loading an image always returns, with an address space that is still well formed on every branch, and a
  success hands over an entry point inside the user window.\<close>

theorem elf_load_returns:
  assumes "image_ok img" and "space_ok st root fs"
  shows "\<exists>r eb st'. elf_load root img st = Some (r, eb, st') \<and> - 6 \<le> r \<and> r \<le> 0 \<and> (\<exists>fs'. space_ok st' root fs') \<and>
    (case eb of None \<Rightarrow> r < 0 | Some (pc, brk) \<Rightarrow> r = 0 \<and> USER_CODE_BASE \<le> pc \<and> pc < USER_VA_LIMIT)"
proof -
  define eh where "eh = ehdr_of img"
  define n where "n = unat (e_phnum eh)"
  have all: "\<forall>i\<in>set [0..<n]. \<exists>ph. get_phdr img eh i = Some (Some ph) \<and> (p_type ph = PT_LOAD \<and> p_memsz ph \<noteq> 0 \<longrightarrow> seg_ok img ph)"
    using assms(1) by (simp add: image_ok_def n_def eh_def)
  have "\<forall>i\<in>set [0..<n]. \<exists>ph. get_phdr img eh i = Some (Some ph)" using all by blast
  then obtain c where c: "c = 0 \<or> c = - 6" "check_phdrs img eh [0..<n] = Some c" using check_phdrs_returns by blast
  obtain r b st' fs' where l: "load_phdrs root img eh [0..<n] 0 st = Some (r, b, st')" "r \<in> {0, - 3, - 4, - 5}" "space_ok st' root fs'"
    using load_phdrs_returns [OF all assms(2)] by blast
  define tail where "tail =
    (if c \<noteq> 0 then (c, None, st) else if r \<noteq> 0 then (r, None, st')
     else if e_entry eh < USER_CODE_BASE \<or> USER_VA_LIMIT \<le> e_entry eh then (ELF_ERR_SEG, None, st')
     else (ELF_OK, Some (e_entry eh, b), st'))"
  have "elf_load root img st \<in> Some ` {(- 1, None, st), (- 2, None, st), tail}"
    unfolding elf_load_def Let_def eh_def [symmetric] n_def [symmetric] c(2) l(1) tail_def by simp
  moreover have "\<exists>r eb st'. tail = (r, eb, st') \<and> - 6 \<le> r \<and> r \<le> 0 \<and> (\<exists>fs'. space_ok st' root fs') \<and>
      (case eb of None \<Rightarrow> r < 0 | Some (pc, brk) \<Rightarrow> r = 0 \<and> USER_CODE_BASE \<le> pc \<and> pc < USER_VA_LIMIT)"
  proof (cases "c = 0 \<and> r = 0")
    case True
    then show ?thesis using l(3) unfolding tail_def by (cases "e_entry eh < USER_CODE_BASE \<or> USER_VA_LIMIT \<le> e_entry eh") auto
  next
    case False
    then show ?thesis using c(1) l(2,3) assms(2) unfolding tail_def by auto
  qed
  ultimately show ?thesis using assms(2) by auto
qed

text \<open>An image of one segment: three bytes of data and two to clear, writable.\<close>

definition demo_image :: "u8 list" where
  "demo_image = [
    127, 69, 76, 70, 2, 1, 1, 0, 0, 0, 0, 0, 0, 0, 0, 0, 2, 0, 183, 0, 1, 0, 0, 0, 16, 0, 0, 0, 0, 1, 0, 0, 64, 0,
    0, 0, 0, 0, 0, 0, 0, 0, 0, 0, 0, 0, 0, 0, 0, 0, 0, 0, 64, 0, 56, 0, 1, 0, 0, 0, 0, 0, 0, 0, 1, 0, 0, 0, 6, 0,
    0, 0, 120, 0, 0, 0, 0, 0, 0, 0, 16, 0, 0, 0, 0, 1, 0, 0, 0, 0, 0, 0, 0, 0, 0, 0, 3, 0, 0, 0, 0, 0, 0, 0, 5, 0,
    0, 0, 0, 0, 0, 0, 0, 16, 0, 0, 0, 0, 0, 0, 1, 2, 3]"

lemma demo_image_ok: "image_ok demo_image"
proof -
  have n: "unat (e_phnum (ehdr_of demo_image)) = 1" by code_simp
  have g: "get_phdr demo_image (ehdr_of demo_image) 0 = Some (Some (demo_seg\<lparr>p_offset := 120\<rparr>))" by code_simp
  have "length demo_image = 123" by code_simp
  then have "seg_ok demo_image (demo_seg\<lparr>p_offset := 120\<rparr>)" by (simp add: seg_ok_def demo_seg_def ALIGN_UP_def)
  then show ?thesis unfolding image_ok_def n using g by auto
qed

theorem elf_load_returns_witness:
  "\<exists>r eb st'. elf_load 0x9000 demo_image elf_space = Some (r, eb, st') \<and> - 6 \<le> r \<and> (\<exists>fs'. space_ok st' 0x9000 fs')"
  using elf_load_returns [OF demo_image_ok elf_space_ok] by auto

end
