(* ===== verification/Image.thy ===== *)
theory Image
  imports Elf_Props
begin

text \<open>
  The first image of a process (\<open>kernel/proc.c\<close>): the mapping of the user stack, its initial
  contents and the first register frame. Strings are lists of bytes without their terminating
  zero; a null vector is the empty list.
\<close>

abbreviation USER_STACK_TOP :: u64 where "USER_STACK_TOP \<equiv> 0x20000000000"
abbreviation USER_STACK_SIZE :: nat where "USER_STACK_SIZE \<equiv> 262144"

record trap_frame =
  tf_regs :: "u64 list"
  tf_esr :: u64
  tf_elr :: u64
  tf_spsr :: u64
  tf_sp :: u64

definition stack_vas :: "u64 list" where
  "stack_vas = map (\<lambda>i. USER_STACK_TOP - of_nat USER_STACK_SIZE + of_nat (4096 * i)) [0..<USER_STACK_SIZE div 4096]"

fun map_stack :: "u64 \<Rightarrow> u64 list \<Rightarrow> phys \<Rightarrow> int \<times> phys" where
  "map_stack root [] st = (0, st)"
| "map_stack root (sva # vas) st =
    (case pmm_alloc st of (fr, st1) \<Rightarrow>
       if fr = 0 then (- ENOMEM, st1)
       else case vmm_map_at root sva fr (VM_READ OR VM_WRITE OR VM_EXEC OR VM_USER) st1 of (r, st2) \<Rightarrow>
         if r \<noteq> 0 then (- ENOMEM, pmm_free fr st2) else map_stack root vas st2)"

text \<open>The strings go below the stack pointer one after the other; the vector of their addresses
  is collected.\<close>

fun push_strings :: "u64 \<Rightarrow> u8 list list \<Rightarrow> u64 \<Rightarrow> mem \<Rightarrow> (int \<times> u64 list \<times> u64 \<times> mem) option" where
  "push_strings root [] sp m = Some (0, [], sp, m)"
| "push_strings root (s # ss) sp m =
    (let sp1 = sp - of_nat (length s + 1)
     in case copy_out root sp1 (s @ [0]) m of
          None \<Rightarrow> None
        | Some (r, m1) \<Rightarrow>
            if r \<noteq> 0 then Some (- EFAULT, [], sp1, m1)
            else map_option (\<lambda>(r2, vec, sp2, m2). (r2, sp1 # vec, sp2, m2)) (push_strings root ss sp1 m1))"

text \<open>Copies one after the other, up to the first that fails.\<close>

fun copy_all :: "u64 \<Rightarrow> (u64 \<times> u8 list) list \<Rightarrow> mem \<Rightarrow> (int \<times> mem) option" where
  "copy_all root [] m = Some (0, m)"
| "copy_all root ((va, bs) # cs) m =
    (case copy_out root va bs m of
       None \<Rightarrow> None
     | Some (r, m1) \<Rightarrow> if r \<noteq> 0 then Some (- EFAULT, m1) else copy_all root cs m1)"

definition words8 :: "u64 list \<Rightarrow> u8 list" where
  "words8 ws = concat (map (le_bytes 8) ws)"

definition str_bytes :: "u8 list list \<Rightarrow> nat" where
  "str_bytes ss = sum_list (map (\<lambda>s. length s + 1) ss)"

text \<open>Where the argument count goes, and everything that is stored from there on.\<close>

definition stack_base :: "nat \<Rightarrow> nat \<Rightarrow> u64 \<Rightarrow> u64" where
  "stack_base argc envc sp = ALIGN_DOWN (sp - of_nat (8 * (argc + 1 + envc + 1) + 32)) 16"

definition stack_vectors :: "u64 \<Rightarrow> u64 list \<Rightarrow> u64 list \<Rightarrow> (u64 \<times> u8 list) list" where
  "stack_vectors base argv_vec envp_vec =
    (let argc = length argv_vec; envc = length envp_vec;
         ev = base + 8 + of_nat ((argc + 1) * 8);
         av_va = base + 8 + of_nat ((argc + 1 + envc + 1) * 8)
     in [(base, le_bytes 8 (of_nat argc :: u64)), (base + 8, words8 argv_vec),
         (base + 8 + of_nat (argc * 8), le_bytes 8 (0 :: u64)), (ev, words8 envp_vec),
         (ev + of_nat (envc * 8), le_bytes 8 (0 :: u64)), (av_va, words8 [6, PAGE_SIZE, 0, 0])])"

text \<open>On success the stack pointer, the number of arguments and the two vectors.\<close>

definition stack_fill :: "u64 \<Rightarrow> u8 list list \<Rightarrow> u8 list list \<Rightarrow> mem \<Rightarrow> (int \<times> (u64 \<times> nat \<times> u64 \<times> u64) option \<times> mem) option" where
  "stack_fill root av ev m =
    (let argv = take 8 av; envp = take 4 ev; argc = length argv; envc = length envp;
         total = (str_bytes argv + str_bytes envp + 15) div 16 * 16 + 8 * (argc + 1 + envc + 1) + 32
     in if USER_STACK_SIZE < total + 256 then Some (- ENOMEM, None, m)
        else case push_strings root argv USER_STACK_TOP m of
          None \<Rightarrow> None
        | Some (r1, argv_vec, sp1, m1) \<Rightarrow>
            if r1 \<noteq> 0 then Some (r1, None, m1)
            else case push_strings root envp sp1 m1 of
              None \<Rightarrow> None
            | Some (r2, envp_vec, sp2, m2) \<Rightarrow>
                if r2 \<noteq> 0 then Some (r2, None, m2)
                else
                  let base = stack_base argc envc (ALIGN_DOWN sp2 16)
                  in map_option (\<lambda>(r, m3). (r, if r = 0 then Some (base, argc, base + 8, base + 8 + of_nat ((argc + 1) * 8)) else None, m3))
                       (copy_all root (stack_vectors base argv_vec envp_vec) m2))"

definition stack_setup :: "u64 \<Rightarrow> u8 list list \<Rightarrow> u8 list list \<Rightarrow> phys \<Rightarrow> (int \<times> (u64 \<times> nat \<times> u64 \<times> u64) option \<times> phys) option" where
  "stack_setup root argv envp st =
    (case map_stack root stack_vas st of (r, st1) \<Rightarrow>
       if r \<noteq> 0 then Some (r, None, st1)
       else map_option (\<lambda>(r2, res, m). (r2, res, st1\<lparr>ph_mem := m\<rparr>)) (stack_fill root argv envp (ph_mem st1)))"

text \<open>On success the first frame and the end of the image.\<close>

definition load_image :: "u8 list \<Rightarrow> u64 \<Rightarrow> u8 list list \<Rightarrow> u8 list list \<Rightarrow> phys \<Rightarrow> (int \<times> (trap_frame \<times> u64) option \<times> phys) option" where
  "load_image img root argv envp st =
    (case elf_load root img st of
       None \<Rightarrow> None
     | Some (r, eb, st1) \<Rightarrow>
         if r \<noteq> 0 then Some (- ENOENT, None, st1)
         else case stack_setup root argv envp st1 of
           None \<Rightarrow> None
         | Some (r2, res, st2) \<Rightarrow>
             if r2 \<noteq> 0 then Some (- EFAULT, None, st2)
             else case (eb, res) of
               (Some (pc, brk), Some (usp, argc, argv_vec, envp_vec)) \<Rightarrow>
                 Some (0, Some (\<lparr>tf_regs = [of_nat argc, argv_vec, envp_vec] @ replicate 28 0, tf_esr = 0, tf_elr = pc,
                        tf_spsr = 0, tf_sp = usp\<rparr>, brk), st2)
             | _ \<Rightarrow> None)"

section \<open>What the stack holds\<close>

lemma copy_out_keeps:
  assumes "tables_apart m root" and "length bs < 2 ^ 64" and "copy_out root va bs m = Some (r, m1)"
  shows "tabs 3 m1 root = tabs 3 m root" and "user_pa m1 root wr x = user_pa m root wr x" and "tables_apart m1 root"
proof -
  have "same_frames m m1 (set (tabs 3 m root))"
  proof (cases "user_range m root True va (length bs)")
    case True
    then have "m1 = user_store (user_pa m root True) va bs m"
      using copy_out_gives [OF assms(1,2), of va] assms(3) by simp
    moreover have "same_frames m (user_store (user_pa m root True) va bs m) (set (tabs 3 m root))"
      by (rule user_store_same [OF assms(1)]) (use True in \<open>simp_all add: user_range_def same_frames_def\<close>)
    ultimately show ?thesis by simp
  next
    case False
    then show ?thesis using copy_out_gives [OF assms(1,2), of va] assms(3) by (simp add: same_frames_def)
  qed
  then show t: "tabs 3 m1 root = tabs 3 m root" and u: "user_pa m1 root wr x = user_pa m root wr x" for wr x
    using tabs_cong(1) user_pa_same by blast+
  show "tables_apart m1 root" using assms(1) unfolding tables_apart_def t u .
qed

text \<open>The memory in which the process still sees the pages it saw.\<close>

definition sees :: "u64 \<Rightarrow> mem \<Rightarrow> mem \<Rightarrow> bool" where
  "sees root m m1 \<longleftrightarrow> tables_apart m1 root \<and> (\<forall>wr x. user_pa m1 root wr x = user_pa m root wr x)"

lemma copy_out_sees: "sees root m m1 \<Longrightarrow> length bs < 2 ^ 64 \<Longrightarrow> copy_out root va bs m1 = Some (r, m2) \<Longrightarrow> sees root m m2"
  unfolding sees_def by (metis copy_out_keeps(2,3))

lemma push_strings_sees:
  "sees root m m1 \<Longrightarrow> str_bytes ss < 2 ^ 64 \<Longrightarrow> push_strings root ss sp m1 = Some (0, vec, sp2, m2) \<Longrightarrow>
    sees root m m2 \<and> sp2 = sp - of_nat (str_bytes ss) \<and> length vec = length ss \<and> (ss \<noteq> [] \<longrightarrow> last vec = sp2)"
proof (induction root ss sp m1 arbitrary: vec rule: push_strings.induct)
  case (2 root s ss sp m1)
  define sp1 where "sp1 = sp - of_nat (length s + 1)"
  have len: "length (s @ [0]) < 2 ^ 64" "str_bytes ss < 2 ^ 64" using "2.prems"(2) by (simp_all add: str_bytes_def)
  obtain m3 where c: "copy_out root sp1 (s @ [0]) m1 = Some (0, m3)"
    and rest: "\<exists>v. push_strings root ss sp1 m3 = Some (0, v, sp2, m2) \<and> vec = sp1 # v"
    using "2.prems"(3) by (auto simp: sp1_def Let_def split: option.splits if_splits)
  then obtain v where v: "push_strings root ss sp1 m3 = Some (0, v, sp2, m2)" "vec = sp1 # v" by blast
  have see: "sees root m m3" by (rule copy_out_sees [OF "2.prems"(1) len(1) c])
  have "sees root m m2 \<and> sp2 = sp1 - of_nat (str_bytes ss) \<and> length v = length ss \<and> (ss \<noteq> [] \<longrightarrow> last v = sp2)"
    by (rule "2.IH" [OF sp1_def c refl _ see len(2) v(1)]) simp
  then show ?case using v(2) by (auto simp: sp1_def str_bytes_def algebra_simps)
qed (simp add: str_bytes_def)

lemma copy_all_last:
  "sees root m m1 \<Longrightarrow> \<forall>(va, bs)\<in>set cs. length bs < 2 ^ 64 \<Longrightarrow> copy_all root (cs @ [(va, bs)]) m1 = Some (0, m3) \<Longrightarrow>
    \<exists>m2. sees root m m2 \<and> copy_out root va bs m2 = Some (0, m3)"
proof (induction root cs m1 rule: copy_all.induct)
  case (2 root va' bs' cs m1)
  obtain m2 where c: "copy_out root va' bs' m1 = Some (0, m2)" and rest: "copy_all root (cs @ [(va, bs)]) m2 = Some (0, m3)"
    using "2.prems"(3) by (auto split: option.splits if_splits)
  have "sees root m m2" using "2.prems"(2) by (intro copy_out_sees [OF "2.prems"(1) _ c]) auto
  then show ?case using "2.prems"(2) rest by (intro "2.IH" [OF c refl]) auto
qed (auto split: option.splits if_splits)

lemma mask4: "mask 4 = (15 :: u64)"
  by (simp add: mask_eq_exp_minus_1)

lemma words8_length [simp]: "length (words8 ws) = 8 * length ws"
  by (induction ws) (simp_all add: words8_def)

lemma down16:
  "take_bit 4 (ALIGN_DOWN x 16) = 0" "take_bit 4 x = 0 \<Longrightarrow> ALIGN_DOWN x 16 = x"
proof -
  have d: "ALIGN_DOWN x 16 = x AND NOT (mask 4)" for x
    by (simp add: ALIGN_DOWN_def mask_eq_exp_minus_1)
  show "take_bit 4 (ALIGN_DOWN x 16) = 0"
    unfolding d by (rule bit_word_eqI) (simp add: bit_take_bit_iff bit_and_iff bit_not_iff bit_mask_iff)
  show "ALIGN_DOWN x 16 = x" if t: "take_bit 4 x = 0"
    unfolding d
  proof (rule bit_word_eqI)
    fix n assume "n < LENGTH(64)"
    have "\<not> bit x n" if "n < 4" using arg_cong [OF t, of "\<lambda>w. bit w n"] that by (simp add: bit_take_bit_iff)
    then show "bit (x AND NOT (mask 4)) n = bit x n"
      using \<open>n < LENGTH(64)\<close> by (auto simp: bit_and_iff bit_not_iff bit_mask_iff)
  qed
qed

lemma down16_sub: "ALIGN_DOWN (ALIGN_DOWN x 16 - of_nat (16 * k)) 16 = ALIGN_DOWN x 16 - of_nat (16 * k)"
proof (rule down16(2))
  have "ALIGN_DOWN x 16 = push_bit 4 (drop_bit 4 x)"
    by (rule bit_word_eqI)
      (auto simp: ALIGN_DOWN_def bit_push_bit_iff bit_drop_bit_eq bit_and_iff bit_not_iff bit_mask_iff simp flip: mask4 dest: bit_imp_le_length)
  then have "ALIGN_DOWN x 16 - of_nat (16 * k) = push_bit 4 (drop_bit 4 x - of_nat k)"
    by (simp add: push_bit_eq_mult algebra_simps)
  then show "take_bit 4 (ALIGN_DOWN x 16 - of_nat (16 * k)) = 0" by (simp add: take_bit_push_bit)
qed

lemma down16_bits: "ALIGN_DOWN x 16 = x AND NOT (mask 4)"
  by (simp add: ALIGN_DOWN_def mask_eq_exp_minus_1)

lemma down16_add8: "take_bit 4 x = 0 \<Longrightarrow> ALIGN_DOWN (x + 8) 16 = x"
proof -
  assume t: "take_bit 4 (x :: u64) = 0"
  have low: "\<not> bit x n" if "n < 4" for n using arg_cong [OF t, of "\<lambda>w. bit w n"] that by (simp add: bit_take_bit_iff)
  have e: "(8 :: u64) = push_bit 3 1" by simp
  have b8: "bit (8 :: u64) n = (n = 3)" for n by (simp only: e bit_push_bit_iff bit_1_iff) auto
  have "\<not> bit x n \<or> \<not> bit (8 :: u64) n" for n using low [of 3] by (simp only: b8) auto
  then have "x + 8 = x OR 8" by (intro disjunctive_add) blast
  then show "ALIGN_DOWN (x + 8) 16 = x" unfolding down16_bits
    by (intro bit_word_eqI) (simp only: bit_and_iff bit_or_iff bit_not_iff bit_mask_iff b8, use low in auto)
qed

lemma unat_clear_low4: "unat (x AND NOT (mask 4) :: u64) = unat x div 16 * 16"
proof -
  have "x AND NOT (mask 4) = push_bit 4 (drop_bit 4 x)"
    by (rule bit_word_eqI) (auto simp: bit_push_bit_iff bit_drop_bit_eq bit_and_iff bit_not_iff bit_mask_iff dest: bit_imp_le_length)
  moreover have "unat x div 16 * 16 < 2 ^ 64" using unat_less64 [of x] by simp
  ultimately show ?thesis by (simp add: unat_drop_bit_eq drop_bit_eq_div push_bit_eq_mult unat_word_ariths)
qed

lemma words8_zero: "i < 8 \<Longrightarrow> words8 [6, PAGE_SIZE, 0, 0] ! (24 + i) = 0"
  by (simp add: words8_def nth_append le_bytes_def)

text \<open>No two addresses that the process may write share a byte.\<close>

definition own_bytes :: "mem \<Rightarrow> u64 \<Rightarrow> bool" where
  "own_bytes m root \<longleftrightarrow> inj_on (user_pa m root True) {x. x < USER_VA_LIMIT \<and> user_pa m root True x \<noteq> None}"

lemma own_inj:
  assumes "own_bytes m root" and "x < USER_VA_LIMIT" and "y < USER_VA_LIMIT" and "user_pa m root True x \<noteq> None"
    and "user_pa m root True x = user_pa m root True y"
  shows "x = y"
  by (rule inj_onD [OF assms(1) [unfolded own_bytes_def] assms(5)]) (use assms(2-5) in auto)

text \<open>What the process reads after a copy into its memory.\<close>

lemma copy_out_byte:
  assumes see: "sees root m m1" and own: "own_bytes m root" and len: "length bs < 2 ^ 64"
    and run: "copy_out root va bs m1 = Some (0, m2)" and x: "x < USER_VA_LIMIT" "user_pa m root True x \<noteq> None"
  shows "user_byte m2 root x = (if unat (x - va) < length bs then bs ! unat (x - va) else user_byte m1 root x)"
proof -
  let ?P = "user_pa m root True"
  have m1: "tables_apart m1 root" "user_pa m1 root True = ?P" using see by (auto simp: sees_def)
  have m2: "user_pa m2 root True = ?P" using copy_out_sees [OF see len run] by (auto simp: sees_def)
  have out: "user_range m1 root True va (length bs)" "m2 = user_store ?P va bs m1"
    using copy_out_gives [OF m1(1) len, of va] run by (auto simp: m1(2) split: if_splits)
  have ok: "\<forall>i<length bs. ?P (va + of_nat i) \<noteq> None" and lim: "unat va + length bs \<le> 4398046511104"
    using out(1) by (simp_all add: user_range_def m1(2))
  have low: "unat (va + of_nat i) = unat va + i" "va + of_nat i < USER_VA_LIMIT" if "i < length bs" for i
  proof -
    show "unat (va + of_nat i) = unat va + i" using that lim by (intro unat_add_of_nat) simp
    then show "va + of_nat i < USER_VA_LIMIT" using that lim by (simp add: word_less_nat_alt)
  qed
  have rd: "user_byte m2 root x = m2 (the (?P x))" "user_byte m1 root x = m1 (the (?P x))"
  proof -
    obtain p where p: "?P x = Some p" using x(2) by blast
    then have "user_pa m2 root False x = Some p" "user_pa m1 root False x = Some p"
      using user_pa_read [of m2 root x p] user_pa_read [of m1 root x p] m2 m1(2) by simp_all
    then show "user_byte m2 root x = m2 (the (?P x))" "user_byte m1 root x = m1 (the (?P x))" by (simp_all add: user_byte_def p)
  qed
  show ?thesis
  proof (cases "unat (x - va) < length bs")
    case True
    have inj: "inj_on (\<lambda>i. ?P (va + of_nat i)) {..<length bs}"
    proof (rule inj_onI)
      fix i j assume i: "i \<in> {..<length bs}" "j \<in> {..<length bs}" "?P (va + of_nat i) = ?P (va + of_nat j)"
      then have "va + of_nat i = va + of_nat j" using ok low(2) by (intro own_inj [OF own]) auto
      then have "unat (va + of_nat i) = unat (va + of_nat j)" by (rule arg_cong)
      then show "i = j" using low(1) i by simp
    qed
    have e: "va + of_nat (unat (x - va)) = x" by simp
    have "m2 (the (?P x)) = bs ! unat (x - va)" using user_store_at [OF ok inj True, of m1] unfolding e out(2) .
    then show ?thesis using rd(1) True by simp
  next
    case False
    have "?P (va + of_nat i) \<noteq> Some (the (?P x))" if "i < length bs" for i
    proof
      assume "?P (va + of_nat i) = Some (the (?P x))"
      then have "va + of_nat i = x" using x ok low(2) that by (intro own_inj [OF own]) auto
      then have "x - va = of_nat i" by (auto simp: algebra_simps)
      then have "unat (x - va) \<le> i" by (simp add: unat_of_nat take_bit_nat_eq_self_iff take_bit_nat_less_eq_self)
      then show False using False that by simp
    qed
    then have "m2 (the (?P x)) = m1 (the (?P x))" using ok unfolding out(2) by (intro user_store_other) blast
    then show ?thesis unfolding rd using False by simp
  qed
qed

lemma copy_all_byte:
  "sees root m m1 \<Longrightarrow> own_bytes m root \<Longrightarrow> x < USER_VA_LIMIT \<Longrightarrow> user_pa m root True x \<noteq> None \<Longrightarrow>
    \<forall>(va, bs)\<in>set cs. length bs < 2 ^ 64 \<and> length bs \<le> unat (x - va) \<Longrightarrow> copy_all root (cs @ ds) m1 = Some (0, m3) \<Longrightarrow>
    \<exists>m2. sees root m m2 \<and> user_byte m2 root x = user_byte m1 root x \<and> copy_all root ds m2 = Some (0, m3)"
proof (induction root cs m1 rule: copy_all.induct)
  case (2 root va bs cs m1)
  obtain m2 where c: "copy_out root va bs m1 = Some (0, m2)" and rest: "copy_all root (cs @ ds) m2 = Some (0, m3)"
    using "2.prems"(6) by (auto split: option.splits if_splits)
  have len: "length bs < 2 ^ 64" "\<not> unat (x - va) < length bs" using "2.prems"(5) by auto
  note b = copy_out_byte [OF "2.prems"(1,2) len(1) c "2.prems"(3,4)]
  have "\<exists>m4. sees root m m4 \<and> user_byte m4 root x = user_byte m2 root x \<and> copy_all root ds m4 = Some (0, m3)"
    using "2.prems" rest by (intro "2.IH" [OF c refl]) (auto intro: copy_out_sees [OF _ len(1) c])
  then show ?case using b len(2) by simp
qed auto

text \<open>The last string that is pushed is the last thing that is stored.\<close>

lemma push_last:
  "sees root m m1 \<Longrightarrow> str_bytes ss < 2 ^ 64 \<Longrightarrow> ss \<noteq> [] \<Longrightarrow> push_strings root ss sp m1 = Some (0, vec, sp2, m2) \<Longrightarrow>
    \<exists>m3. sees root m m3 \<and> copy_out root sp2 (last ss @ [0]) m3 = Some (0, m2)"
proof (induction root ss sp m1 arbitrary: vec rule: push_strings.induct)
  case (2 root s ss sp m1)
  define sp1 where "sp1 = sp - of_nat (length s + 1)"
  have len: "length (s @ [0]) < 2 ^ 64" "str_bytes ss < 2 ^ 64" using "2.prems"(2) by (simp_all add: str_bytes_def)
  obtain m3 where c: "copy_out root sp1 (s @ [0]) m1 = Some (0, m3)"
    and rest: "\<exists>v. push_strings root ss sp1 m3 = Some (0, v, sp2, m2) \<and> vec = sp1 # v"
    using "2.prems"(4) by (auto simp: sp1_def Let_def split: option.splits if_splits)
  then obtain v where v: "push_strings root ss sp1 m3 = Some (0, v, sp2, m2)" by blast
  show ?case
  proof (cases "ss = []")
    case True
    then show ?thesis using v c "2.prems"(1) by auto
  next
    case False
    have see: "sees root m m3" by (rule copy_out_sees [OF "2.prems"(1) len(1) c])
    have "\<exists>m4. sees root m m4 \<and> copy_out root sp2 (last ss @ [0]) m4 = Some (0, m2)"
      by (rule "2.IH" [OF sp1_def c refl _ see len(2) False v]) simp
    then show ?thesis using False by simp
  qed
qed simp

text \<open>Where the vectors lie, from the word of the argument count on.\<close>

lemma vectors_at:
  assumes "n = length v1 + 1 + length v2 + 1" and "length v1 \<le> 8" and "length v2 \<le> 4"
  obtains cs where "stack_vectors base v1 v2 = cs @ [(base + of_nat (8 + 8 * n), words8 [6, PAGE_SIZE, 0, 0])]"
    and "\<And>va bs. (va, bs) \<in> set cs \<Longrightarrow> \<exists>k. va = base + of_nat k \<and> k + length bs \<le> 8 + 8 * n"
proof -
  define p where "p = length v1"
  define q where "q = length v2"
  define cs where "cs = [(base + of_nat 0, le_bytes 8 (of_nat p :: u64)), (base + of_nat 8, words8 v1),
    (base + of_nat (8 + p * 8), le_bytes 8 (0 :: u64)), (base + of_nat (8 + (p + 1) * 8), words8 v2),
    (base + of_nat (8 + (p + 1) * 8 + q * 8), le_bytes 8 (0 :: u64))]"
  have "stack_vectors base v1 v2 = cs @ [(base + of_nat (8 + 8 * n), words8 [6, PAGE_SIZE, 0, 0])]"
    by (simp add: stack_vectors_def Let_def cs_def p_def q_def assms(1) algebra_simps)
  moreover have "\<exists>k. va = base + of_nat k \<and> k + length bs \<le> 8 + 8 * n" if mem: "(va, bs) \<in> set cs" for va bs
  proof -
    have w: "length (words8 v1) = 8 * p" "length (words8 v2) = 8 * q" by (simp_all add: p_def q_def)
    have n: "n = p + 1 + q + 1" by (simp add: assms(1) p_def q_def)
    consider "va = base + of_nat 0" "bs = le_bytes 8 (of_nat p :: u64)" | "va = base + of_nat 8" "bs = words8 v1"
      | "va = base + of_nat (8 + p * 8)" "bs = le_bytes 8 (0 :: u64)" | "va = base + of_nat (8 + (p + 1) * 8)" "bs = words8 v2"
      | "va = base + of_nat (8 + (p + 1) * 8 + q * 8)" "bs = le_bytes 8 (0 :: u64)"
      using mem by (auto simp only: cs_def list.set insert_iff empty_iff prod.inject)
    then show ?thesis
    proof cases
      case 1
      then show ?thesis using n by (intro exI [of _ 0]) simp
    next
      case 2
      then show ?thesis using n w by (intro exI [of _ 8]) simp
    next
      case 3
      then show ?thesis using n by (intro exI [of _ "8 + p * 8"]) simp
    next
      case 4
      then show ?thesis using n w by (intro exI [of _ "8 + (p + 1) * 8"]) simp
    next
      case 5
      then show ?thesis using n by (intro exI [of _ "8 + (p + 1) * 8 + q * 8"]) simp
    qed
  qed
  ultimately show ?thesis by (rule that)
qed

lemma stack_base_at:
  assumes "n = argc + 1 + envc + 1"
  shows "stack_base argc envc (ALIGN_DOWN x 16) = ALIGN_DOWN x 16 - of_nat (8 * n + (if even n then 32 else 40))"
proof (cases "even n")
  case True
  then obtain k where k: "n = 2 * k" by (elim evenE)
  have e: "8 * n + 32 = 16 * (k + 2)" by (simp add: k)
  show ?thesis unfolding stack_base_def assms(1) [symmetric] using True by (simp only: if_True e down16_sub)
next
  case False
  then obtain k where k: "n = 2 * k + 1" by (elim oddE)
  have e: "8 * n + 40 = 16 * (k + 3)" "8 * n + 32 = 16 * (k + 3) - 8" by (simp_all add: k)
  have d: "of_nat (16 * (k + 3) - 8) = (of_nat (16 * (k + 3)) - 8 :: u64)" by (simp add: of_nat_diff)
  define T where "T = ALIGN_DOWN x 16 - of_nat (16 * (k + 3))"
  have "take_bit 4 T = 0" using down16(1) [of T] unfolding T_def down16_sub .
  moreover have "ALIGN_DOWN x 16 - (of_nat (16 * (k + 3)) - 8) = T + 8" by (simp only: T_def) (simp only: diff_diff_eq2 add.commute add_diff_eq)
  ultimately have "ALIGN_DOWN (ALIGN_DOWN x 16 - (of_nat (16 * (k + 3)) - 8)) 16 = ALIGN_DOWN x 16 - of_nat (16 * (k + 3))"
    using down16_add8 [of T] by (simp only: T_def)
  then show ?thesis unfolding stack_base_def assms(1) [symmetric] using False by (simp only: if_False e d)
qed

text \<open>The strings, once they are stored, before the vectors are.\<close>

lemma strings_small:
  "stack_fill root av ev m = Some (0, res, m') \<Longrightarrow> str_bytes (take 8 av @ take 4 ev) < 2 ^ 20"
  by (auto simp: stack_fill_def Let_def str_bytes_def split: if_splits)

lemma last_in_strings:
  assumes "ss \<noteq> []"
  shows "length (last ss) < str_bytes ss"
proof -
  have "length (last ss) + 1 \<in> set (map (\<lambda>s. length s + 1) ss)" using assms by simp
  from member_le_sum_list [OF this] show ?thesis by (simp add: str_bytes_def)
qed

lemma strings_end:
  assumes "n < 2 ^ 20"
  shows "unat (USER_STACK_TOP - of_nat n :: u64) = 0x20000000000 - n"
proof -
  have us: "unat (of_nat n :: u64) = n" by (rule unat_of_nat_small) (use assms in simp)
  have "(of_nat n :: u64) \<le> USER_STACK_TOP" using assms by (simp only: word_le_nat_alt us) simp
  then show ?thesis by (simp only: unat_sub us) simp
qed

lemma strings_stored:
  assumes ap: "tables_apart m root" and own: "own_bytes m root" and run: "stack_fill root av ev m = Some (0, res, m')"
    and ss: "ss = take 8 av @ take 4 ev" "ss \<noteq> []" and a: "a = USER_STACK_TOP - of_nat (str_bytes ss)" and i: "i \<le> length (last ss)"
  obtains v1 v2 m2 where "sees root m m2" and "length v1 = length (take 8 av)" and "length v2 = length (take 4 ev)"
    and "copy_all root (stack_vectors (stack_base (length (take 8 av)) (length (take 4 ev)) (ALIGN_DOWN a 16)) v1 v2) m2 = Some (0, m')"
    and "a + of_nat i < USER_VA_LIMIT" and "user_pa m root True (a + of_nat i) \<noteq> None"
    and "user_byte m2 root (a + of_nat i) = (last ss @ [0]) ! i"
proof -
  define argv envp where defs: "argv = take 8 av" "envp = take 4 ev"
  have bytes: "str_bytes ss = str_bytes argv + str_bytes envp" by (simp add: ss(1) defs str_bytes_def)
  have small: "str_bytes ss < 2 ^ 20" using strings_small [OF run] by (simp add: ss(1))
  obtain v1 sp1 m1 where p1: "push_strings root argv USER_STACK_TOP m = Some (0, v1, sp1, m1)"
    using run unfolding stack_fill_def Let_def defs [symmetric] by (auto split: option.splits if_splits)
  obtain v2 sp2 m2 where p2: "push_strings root envp sp1 m1 = Some (0, v2, sp2, m2)"
    using run p1 unfolding stack_fill_def Let_def defs [symmetric] by (auto split: option.splits if_splits)
  have lens: "str_bytes argv < 2 ^ 64" "str_bytes envp < 2 ^ 64" using small bytes by simp_all
  have see: "sees root m m" using ap by (simp add: sees_def)
  have s1: "sees root m m1" "sp1 = USER_STACK_TOP - of_nat (str_bytes argv)" "length v1 = length argv"
    using push_strings_sees [OF see lens(1) p1] by simp_all
  have s2: "sees root m m2" "sp2 = sp1 - of_nat (str_bytes envp)" "length v2 = length envp"
    using push_strings_sees [OF s1(1) lens(2) p2] by simp_all
  have sp2: "sp2 = a" by (simp add: a bytes s1(2) s2(2) algebra_simps)
  have "\<exists>m3. sees root m m3 \<and> copy_out root a (last ss @ [0]) m3 = Some (0, m2)"
  proof (cases "envp = []")
    case True
    then have "sp2 = sp1" "m2 = m1" "ss = argv" "argv \<noteq> []" using p2 ss by (simp_all add: defs)
    then show ?thesis using push_last [OF see lens(1) _ p1] sp2 by simp
  next
    case False
    then show ?thesis using push_last [OF s1(1) lens(2) False p2] sp2 by (simp add: ss(1) defs)
  qed
  then obtain m3 where m3: "sees root m m3" "copy_out root a (last ss @ [0]) m3 = Some (0, m2)" by blast
  note last = last_in_strings [OF ss(2)]
  have ux: "unat (a + of_nat i) = unat a + i"
    using i last strings_end [OF small] small unfolding a by (intro unat_add_of_nat) simp
  have "user_range m3 root True a (length (last ss) + 1)"
    using copy_out_gives [of m3 root "last ss @ [0]" a] m3 last small by (auto simp: sees_def split: if_splits)
  then have x: "a + of_nat i < USER_VA_LIMIT" "user_pa m root True (a + of_nat i) \<noteq> None"
    using i ux m3(1) by (auto simp: user_range_def word_less_nat_alt sees_def)
  have "unat (a + of_nat i - a) = i" using i last small by (simp add: unat_of_nat_small)
  moreover have "length (last ss @ [0]) < 2 ^ 64" using last small by simp
  ultimately have "user_byte m2 root (a + of_nat i) = (last ss @ [0]) ! i"
    using copy_out_byte [OF m3(1) own _ m3(2) x] i by simp
  moreover have "copy_all root (stack_vectors (stack_base (length argv) (length envp) (ALIGN_DOWN a 16)) v1 v2) m2 = Some (0, m')"
    using run p1 p2 unfolding stack_fill_def Let_def defs [symmetric] by (simp add: sp2 split: if_splits)
  ultimately show ?thesis using that [of m2 v1 v2] s1(3) s2(1,3) x by (simp add: defs)
qed

lemma down16_at: "unat (ALIGN_DOWN a 16) = unat a - unat a mod 16"
  unfolding down16_bits using unat_clear_low4 [of a] by (simp add: minus_mod_eq_div_mult)

text \<open>What the vectors store at an address behind the 16-aligned end of the strings.\<close>

lemma vectors_byte:
  assumes see: "sees root m m2" and own: "own_bytes m root"
    and v: "length v1 \<le> 8" "length v2 \<le> 4" and n: "n = length v1 + 1 + length v2 + 1"
    and all: "copy_all root (stack_vectors (stack_base (length v1) (length v2) (ALIGN_DOWN a 16)) v1 v2) m2 = Some (0, m')"
    and x: "a + of_nat i < USER_VA_LIMIT" "user_pa m root True (a + of_nat i) \<noteq> None" and i: "i < 2 ^ 20"
  shows "user_byte m' root (a + of_nat i) = (if even n \<and> unat a mod 16 + i < 8 then 0 else user_byte m2 root (a + of_nat i))"
proof -
  define x where "x = a + of_nat i"
  define S where "S = ALIGN_DOWN a 16"
  define e :: nat where "e = (if even n then 32 else 40)"
  define base where "base = S - of_nat (8 * n + e)"
  define d where "d = unat a mod 16"
  have base: "stack_base (length v1) (length v2) S = base"
    unfolding S_def base_def e_def by (rule stack_base_at) (simp add: n)
  obtain cs where cs: "stack_vectors base v1 v2 = cs @ [(base + of_nat (8 + 8 * n), words8 [6, PAGE_SIZE, 0, 0])]"
    "\<And>va bs. (va, bs) \<in> set cs \<Longrightarrow> \<exists>k. va = base + of_nat k \<and> k + length bs \<le> 8 + 8 * n"
    using vectors_at [OF n v] by blast
  have n12: "n \<le> 14" using n v by simp
  have uS: "unat S = unat a - d" unfolding S_def d_def by (rule down16_at)
  have d: "d < 16" "d \<le> unat a" by (simp_all add: d_def)
  have xb: "x = base + of_nat (8 * n + e + d + i)"
  proof -
    have "a = of_nat (unat S + d)" using uS d(2) by simp
    then have "a = S + of_nat d" by (simp del: of_nat_diff)
    then show ?thesis by (simp add: x_def base_def)
  qed
  have off: "unat (x - (base + of_nat k)) = 8 * n + e + d + i - k" if "k \<le> 8 * n + e + d + i" for k
  proof -
    have "x - (base + of_nat k) = of_nat (8 * n + e + d + i - k)" using xb that by (simp add: of_nat_diff)
    moreover have "e \<le> 40" by (simp add: e_def)
    then have "8 * n + e + d + i - k < 1048576 + 200" using n12 d(1) i [simplified] by linarith
    then have "8 * n + e + d + i - k < 2 ^ 64" by simp
    ultimately show ?thesis by (simp add: unat_of_nat_small)
  qed
  have far: "\<forall>(va, bs)\<in>set cs. length bs < 2 ^ 64 \<and> length bs \<le> unat (x - va)"
  proof (intro ballI case_prodI2)
    fix p va bs assume p: "p \<in> set cs" "p = (va, bs)"
    then obtain k where k: "va = base + of_nat k" "k + length bs \<le> 8 + 8 * n" using cs(2) by blast
    have e: "32 \<le> e" by (simp add: e_def)
    then have "unat (x - va) = 8 * n + e + d + i - k" using k off [of k] by simp
    then show "length bs < 2 ^ 64 \<and> length bs \<le> unat (x - va)" using k(2) n12 e by simp
  qed
  obtain m4 where m4: "sees root m m4" "user_byte m4 root x = user_byte m2 root x"
    "copy_all root [(base + of_nat (8 + 8 * n), words8 [6, PAGE_SIZE, 0, 0])] m4 = Some (0, m')"
    using copy_all_byte [OF see own x [folded x_def] far all [folded S_def, unfolded base cs(1)]] by blast
  then have "copy_out root (base + of_nat (8 + 8 * n)) (words8 [6, PAGE_SIZE, 0, 0]) m4 = Some (0, m')"
    by (auto split: option.splits if_splits)
  note fin = copy_out_byte [OF m4(1) own _ this x [folded x_def]]
  have at: "unat (x - (base + of_nat (8 + 8 * n))) = e + d + i - 8" using off [of "8 + 8 * n"] by (simp add: e_def)
  have "user_byte m' root x = (if even n \<and> d + i < 8 then 0 else user_byte m2 root x)"
  proof (cases "even n \<and> d + i < 8")
    case True
    then show ?thesis using fin at words8_zero [of "d + i"] by (simp add: e_def)
  next
    case False
    then have "\<not> e + d + i - 8 < 32" by (auto simp: e_def)
    then show ?thesis unfolding if_not_P [OF False] using fin at m4(2) by simp
  qed
  then show ?thesis by (simp only: x_def d_def)
qed

text \<open>C17: What the process finds where its last string was stored, the last environment string or, without
  one, the last argument. The space set aside for the vectors leaves out the word of the argument
  count, so when the strings are even in number the last eight bytes of the auxiliary vector,
  which are zero, lie on the first eight bytes above the 16-aligned end of the strings. Whatever
  part of the last string lies in these reads as zero, and a string that begins there is empty;
  all else of it reads as it was given, and with an odd number of strings all of it does.\<close>

theorem auxv_over_strings:
  assumes ap: "tables_apart m root" and own: "own_bytes m root" and run: "stack_fill root av ev m = Some (0, res, m')"
    and ss: "ss = take 8 av @ take 4 ev" "ss \<noteq> []" and a: "a = USER_STACK_TOP - of_nat (str_bytes ss)" and i: "i \<le> length (last ss)"
  shows "user_byte m' root (a + of_nat i) =
    (if even (length ss) \<and> a + of_nat i < ALIGN_DOWN a 16 + 8 then 0 else (last ss @ [0]) ! i)"
proof -
  have small: "str_bytes ss < 2 ^ 20" using strings_small [OF run] by (simp add: ss(1))
  have lt: "i < str_bytes ss" using last_in_strings [OF ss(2)] i by simp
  have ua: "unat a = 0x20000000000 - str_bytes ss" unfolding a by (rule strings_end [OF small])
  obtain v1 v2 m2 where st: "sees root m m2" "length v1 = length (take 8 av)" "length v2 = length (take 4 ev)"
    "copy_all root (stack_vectors (stack_base (length v1) (length v2) (ALIGN_DOWN a 16)) v1 v2) m2 = Some (0, m')"
    "a + of_nat i < USER_VA_LIMIT" "user_pa m root True (a + of_nat i) \<noteq> None"
    "user_byte m2 root (a + of_nat i) = (last ss @ [0]) ! i"
    using strings_stored [OF assms] by metis
  have "unat (a + of_nat i) = unat a + i" using lt ua small by (intro unat_add_of_nat) simp
  moreover have "unat (ALIGN_DOWN a 16 + of_nat 8) = unat a - unat a mod 16 + 8"
    unfolding down16_at [symmetric] by (intro unat_add_of_nat) (use ua in \<open>simp add: down16_at\<close>)
  moreover have "unat a mod 16 \<le> unat a" by simp
  ultimately have cond: "a + of_nat i < ALIGN_DOWN a 16 + 8 \<longleftrightarrow> unat a mod 16 + i < 8"
    by (simp only: word_less_nat_alt of_nat_numeral) arith
  have "even (length ss) = even (length v1 + 1 + length v2 + 1)" using st(2,3) by (simp add: ss(1))
  then show ?thesis
    using vectors_byte [OF st(1) own _ _ refl st(4-6)] st(2,3,7) lt small unfolding cond by simp
qed

section \<open>A stack of one page\<close>

lemma one_page:
  assumes sp: "space_ok st root fs" and none: "\<And>x. vmm_probe (ph_mem st) root x = None"
    and m: "vmm_map_at root va pg fl st = (0, st')" and pg: "frame_ok pg" "pg \<notin> set (tabs 3 (ph_mem st) root) \<union> set fs"
    and fl: "vm_prot fl AND VM_USER \<noteq> 0" "vm_prot fl AND VM_WRITE \<noteq> 0"
  shows "user_pa (ph_mem st') root wr x = (if x AND PT_ADDR_MASK = va AND PT_ADDR_MASK then Some (pg + (x AND 0xfff)) else None)"
    and "tables_apart (ph_mem st') root"
proof -
  have l: "look 3 (ph_mem st') root x = (if same_path 0 3 va x then Some (3, leaf_desc pg fl) else None)" for x
    by (rule map_at_look [OF sp m]) (use none in \<open>auto simp: probe_look simp del: look.simps\<close>)
  have "vmm_probe (ph_mem st') root x =
      (if x AND PT_ADDR_MASK = va AND PT_ADDR_MASK then Some (pg + (x AND 0xfff), vm_prot fl) else None)" for x
  proof (cases "x AND PT_ADDR_MASK = va AND PT_ADDR_MASK")
    case True
    then show ?thesis using leaf_probe [OF _ pg(1), of "ph_mem st'" root x fl] l [of x] by (simp add: same_path_page)
  next
    case False
    then show ?thesis using l [of x] by (simp add: probe_look same_path_page del: look.simps)
  qed
  then show u: "user_pa (ph_mem st') root wr x =
      (if x AND PT_ADDR_MASK = va AND PT_ADDR_MASK then Some (pg + (x AND 0xfff)) else None)" for wr x
    using fl by (simp add: user_pa_def)
  obtain gs fs' where g: "fs = gs @ fs'" "space_ok st' root fs'"
    "set (tabs 3 (ph_mem st') root) \<subseteq> set (tabs 3 (ph_mem st) root) \<union> set gs"
    using map_at_frames [OF sp m] by blast
  show "tables_apart (ph_mem st') root"
    unfolding tables_apart_def
  proof (intro allI impI)
    fix va' pa f assume pa: "user_pa (ph_mem st') root True va' = Some pa" and f: "f \<in> set (tabs 3 (ph_mem st') root)"
    have "pa = pg + of_nat (unat (va' AND 0xfff))" using pa by (simp add: u split: if_splits)
    then have "pa \<in> span pg 4096" unfolding span_def using page_offset [of va'] by (intro image_eqI) auto
    moreover have "span pg 4096 \<inter> span f 4096 = {}"
      using frame_ok_aligned [OF pg(1)] f g pg(2) tree_ok_aligned [of 3 "ph_mem st'" root f]
      by (intro frames_disjoint) (auto simp: space_ok_def)
    ultimately show "pa \<notin> span f 4096" by blast
  qed
qed

definition stack_page :: phys where
  "stack_page = snd (vmm_map_at 0x9000 0x1FFFFFFF000 0xb000 (VM_READ OR VM_WRITE OR VM_EXEC OR VM_USER) elf_space)"

lemma stack_page_maps:
  "vmm_map_at 0x9000 0x1FFFFFFF000 0xb000 (VM_READ OR VM_WRITE OR VM_EXEC OR VM_USER) elf_space = (0, stack_page)"
proof -
  obtain r st' where m: "vmm_map_at 0x9000 0x1FFFFFFF000 0xb000 (VM_READ OR VM_WRITE OR VM_EXEC OR VM_USER) elf_space = (r, st')"
    by fastforce
  then have "r = 0"
    by (rule map_at_look [OF elf_space_ok])
      (use elf_space_empty in \<open>auto simp: IS_ALIGNED_def probe_look simp del: look.simps\<close>)
  with m show ?thesis by (simp add: stack_page_def)
qed

lemma elf_space_root: "set (tabs 3 (ph_mem elf_space) 0x9000) = {0x9000}"
  unfolding elf_space_def by (subst zero_tree(1)) (auto simp: zero_table_gives IS_ALIGNED_def)

lemma stack_page_user:
  "user_pa (ph_mem stack_page) 0x9000 wr x = (if x AND PT_ADDR_MASK = 0x1FFFFFFF000 then Some (0xb000 + (x AND 0xfff)) else None)"
  and stack_page_apart: "tables_apart (ph_mem stack_page) 0x9000"
  using one_page [OF elf_space_ok elf_space_empty stack_page_maps] by (simp_all add: elf_space_root frame_ok_def vm_prot_def)

lemma stack_page_range:
  assumes "sees 0x9000 (ph_mem stack_page) m" and "0x1FFFFFFF000 \<le> unat va" and "unat va + n \<le> 0x20000000000" and "unat va < 0x20000000000"
  shows "user_range m 0x9000 True va n"
proof -
  have "user_pa m 0x9000 True (va + of_nat i) \<noteq> None" if "i < n" for i
  proof -
    have u: "unat (va + of_nat i) = unat va + i" using assms(3) that by (intro unat_add_of_nat) simp
    have "va + of_nat i AND PT_ADDR_MASK = 0x1FFFFFFF000 AND PT_ADDR_MASK"
      by (subst in_page) (use u assms that in \<open>auto simp: IS_ALIGNED_def\<close>)
    then show ?thesis using assms(1) by (simp add: sees_def stack_page_user)
  qed
  then show ?thesis using assms(3,4) by (simp add: user_range_def word_less_nat_alt)
qed

lemma copy_all_stack:
  "sees 0x9000 (ph_mem stack_page) m \<Longrightarrow>
    \<forall>(va, bs)\<in>set cs. 0x1FFFFFFF000 \<le> unat va \<and> unat va + length bs \<le> 0x20000000000 \<and> unat va < 0x20000000000 \<Longrightarrow>
    \<exists>m2. copy_all 0x9000 cs m = Some (0, m2)"
proof (induction cs arbitrary: m)
  case (Cons c cs)
  obtain va bs where c: "c = (va, bs)" by fastforce
  have ap: "tables_apart m 0x9000" using Cons.prems(1) by (simp add: sees_def)
  have len: "length bs < 2 ^ 64" using Cons.prems(2) c by auto
  have r: "user_range m 0x9000 True va (length bs)" using Cons.prems c by (intro stack_page_range) auto
  obtain m1 where m1: "copy_out 0x9000 va bs m = Some (0, m1)" using copy_out_gives [OF ap len, of va] r by auto
  then show ?case using Cons.IH [OF copy_out_sees [OF Cons.prems(1) len m1]] Cons.prems(2) c by auto
qed simp

lemma stack_page_own: "own_bytes (ph_mem stack_page) 0x9000"
  unfolding own_bytes_def
proof (rule inj_onI)
  fix x y :: u64
  assume x: "x \<in> {x. x < USER_VA_LIMIT \<and> user_pa (ph_mem stack_page) 0x9000 True x \<noteq> None}"
    and y: "y \<in> {x. x < USER_VA_LIMIT \<and> user_pa (ph_mem stack_page) 0x9000 True x \<noteq> None}"
    and e: "user_pa (ph_mem stack_page) 0x9000 True x = user_pa (ph_mem stack_page) 0x9000 True y"
  have low: "unat x < 2 ^ 48" "unat y < 2 ^ 48" using x y by (auto simp: word_less_nat_alt)
  have "x AND NOT (mask 12) = y AND NOT (mask 12)" "x AND mask 12 = y AND mask 12"
    using x y e page_base [OF low(1)] page_base [OF low(2)] by (auto simp: stack_page_user page_masks(1) split: if_splits)
  moreover have "(w AND NOT (mask 12)) OR (w AND mask 12) = w" for w :: u64
    by (rule bit_word_eqI) (auto simp: bit_or_iff bit_and_iff bit_not_iff bit_mask_iff)
  ultimately show "x = y" by metis
qed

lemma push_stack:
  "sees 0x9000 (ph_mem stack_page) m \<Longrightarrow> unat sp \<le> 0x20000000000 \<Longrightarrow> str_bytes ss + 0x1FFFFFFF000 \<le> unat sp \<Longrightarrow>
    \<exists>vec sp2 m2. push_strings 0x9000 ss sp m = Some (0, vec, sp2, m2)"
proof (induction ss arbitrary: sp m)
  case (Cons s ss)
  define sp1 where "sp1 = sp - of_nat (length s + 1)"
  have n: "length s + 1 + str_bytes ss + 0x1FFFFFFF000 \<le> unat sp" using Cons.prems(3) by (simp add: str_bytes_def)
  have l: "unat (of_nat (length s + 1) :: u64) = length s + 1"
  proof -
    have "length s + 1 < 2 ^ 64" using n Cons.prems(2) by simp
    then show ?thesis by (intro unat_of_nat_small) simp
  qed
  have u: "unat sp1 = unat sp - (length s + 1)"
    unfolding sp1_def using n by (subst unat_sub) (simp_all only: l word_le_nat_alt)
  have ap: "tables_apart m 0x9000" using Cons.prems(1) by (simp add: sees_def)
  have len: "length (s @ [0]) < 2 ^ 64" using n Cons.prems(2) by simp
  have r: "user_range m 0x9000 True sp1 (length (s @ [0]))"
    using n u Cons.prems(2) by (intro stack_page_range [OF Cons.prems(1)]) auto
  obtain m1 where m1: "copy_out 0x9000 sp1 (s @ [0]) m = Some (0, m1)" using copy_out_gives [OF ap len, of sp1] r by auto
  have "\<exists>vec sp2 m2. push_strings 0x9000 ss sp1 m1 = Some (0, vec, sp2, m2)"
    using n u Cons.prems(2) by (intro Cons.IH [OF copy_out_sees [OF Cons.prems(1) len m1]]) auto
  then show ?case unfolding push_strings.simps Let_def sp1_def [symmetric] using m1 by auto
qed simp

text \<open>The arguments of \<open>sh\<close> with one environment string: an even number. The environment string begins at
  \<open>0x1FFFFFFFFF6\<close> and has been cut to nothing.\<close>

theorem auxv_over_strings_witness:
  "\<exists>res m'. stack_fill 0x9000 [[115, 104]] [[80, 65, 84, 72, 61, 47]] (ph_mem stack_page) = Some (0, res, m') \<and>
     user_byte m' 0x9000 0x1FFFFFFFFF6 = 0"
proof -
  let ?m = "ph_mem stack_page" and ?av = "[[115, 104]] :: u8 list list" and ?ev = "[[80, 65, 84, 72, 61, 47]] :: u8 list list"
  have see: "sees 0x9000 ?m ?m" using stack_page_apart by (simp add: sees_def)
  obtain v1 sp1 m1 where p1: "push_strings 0x9000 ?av USER_STACK_TOP ?m = Some (0, v1, sp1, m1)"
    using push_stack [OF see, of USER_STACK_TOP ?av] by (auto simp: str_bytes_def)
  have s1: "sees 0x9000 ?m m1" "sp1 = 0x1FFFFFFFFFD" "length v1 = 1"
    using push_strings_sees [OF see _ p1] by (simp_all add: str_bytes_def)
  obtain v2 sp2 m2 where p2: "push_strings 0x9000 ?ev sp1 m1 = Some (0, v2, sp2, m2)"
    using push_stack [OF s1(1), of sp1 ?ev] s1(2) by (auto simp: str_bytes_def)
  have s2: "sees 0x9000 ?m m2" "sp2 = 0x1FFFFFFFFF6" "length v2 = 1"
    using push_strings_sees [OF s1(1) _ p2] s1(2) by (simp_all add: str_bytes_def)
  have base: "stack_base 1 1 (ALIGN_DOWN sp2 16) = 0x1FFFFFFFFB0" by (simp add: stack_base_def s2(2) ALIGN_DOWN_def)
  obtain m3 where "copy_all 0x9000 (stack_vectors 0x1FFFFFFFFB0 v1 v2) m2 = Some (0, m3)"
    using copy_all_stack [OF s2(1), of "stack_vectors 0x1FFFFFFFFB0 v1 v2"]
    by (auto simp: stack_vectors_def s1(3) s2(3))
  then have run: "\<exists>res. stack_fill 0x9000 ?av ?ev ?m = Some (0, res, m3)"
    using p1 p2 base by (simp add: stack_fill_def str_bytes_def)
  then obtain res where run: "stack_fill 0x9000 ?av ?ev ?m = Some (0, res, m3)" by blast
  have "user_byte m3 0x9000 (0x1FFFFFFFFF6 + of_nat 0) =
      (if even (length (?av @ ?ev)) \<and> 0x1FFFFFFFFF6 + of_nat 0 < ALIGN_DOWN 0x1FFFFFFFFF6 16 + 8 then 0 else (last (?av @ ?ev) @ [0]) ! 0)"
    by (rule auxv_over_strings [OF stack_page_apart stack_page_own run]) (simp_all add: str_bytes_def)
  then show ?thesis using run by (auto simp: ALIGN_DOWN_def)
qed

end
