(* ===== verification/Shm.thy ===== *)
theory Shm
  imports Vmm_Map
begin

text \<open>
  Shared memory (\<open>kernel/ipc.c\<close>): a pool of twelve objects of at most 512 frames, mapped into the
  shared window of the processes that attach them. The eight attachment slots of a process and
  the root of its address space are arguments; each call is one step under \<open>ipc_lock\<close>, except
  that \<open>shm_create\<close> drops the lock around each frame it allocates.
\<close>

abbreviation SHM_PAGE_MAX :: nat where "SHM_PAGE_MAX \<equiv> 512"
abbreviation SHM_OBJS_MAX :: nat where "SHM_OBJS_MAX \<equiv> 12"
abbreviation PROC_SHM_MAX :: nat where "PROC_SHM_MAX \<equiv> 8"
abbreviation USER_SHM_BASE :: u64 where "USER_SHM_BASE \<equiv> 0x30000000000"
abbreviation SHM_VA_LIMIT :: u64 where "SHM_VA_LIMIT \<equiv> 0x40000000000"

record shm_obj =
  so_used :: bool
  so_npages :: nat
  so_pages :: "u64 list"
  so_attaches :: nat

record shm_map =
  sm_va :: u64
  sm_npages :: nat
  sm_id :: int

record shm =
  shm_pool :: "shm_obj list"
  shm_next_off :: u64

definition zero_shm_obj :: shm_obj where
  "zero_shm_obj = \<lparr>so_used = False, so_npages = 0, so_pages = replicate SHM_PAGE_MAX 0, so_attaches = 0\<rparr>"

definition no_shm_map :: shm_map where
  "no_shm_map = \<lparr>sm_va = 0, sm_npages = 0, sm_id = 0\<rparr>"

definition upd_shm :: "nat \<Rightarrow> (shm_obj \<Rightarrow> shm_obj) \<Rightarrow> shm \<Rightarrow> shm" where
  "upd_shm i f x = x\<lparr>shm_pool := (shm_pool x)[i := f (shm_pool x ! i)]\<rparr>"

definition free_all :: "u64 list \<Rightarrow> phys \<Rightarrow> phys" where
  "free_all fs st = fold pmm_free fs st"

text \<open>The frames of a new object, each cleared; on failure the frames so far, to be undone.\<close>

fun alloc_zeroed :: "nat \<Rightarrow> phys \<Rightarrow> (u64 list + u64 list) \<times> phys" where
  "alloc_zeroed 0 st = (Inr [], st)"
| "alloc_zeroed (Suc n) st =
    (case pmm_alloc st of (fr, st1) \<Rightarrow>
       if fr = 0 then (Inl [], st1)
       else (case alloc_zeroed n (st1\<lparr>ph_mem := store_bytes (ph_mem st1) fr (replicate 4096 0)\<rparr>) of
         (Inl fs, st2) \<Rightarrow> (Inl (fr # fs), st2)
       | (Inr fs, st2) \<Rightarrow> (Inr (fr # fs), st2)))"

definition shm_create :: "nat \<Rightarrow> shm \<Rightarrow> phys \<Rightarrow> int \<times> shm \<times> phys" where
  "shm_create npages x st =
    (if npages = 0 \<or> SHM_PAGE_MAX < npages then (- EINVAL, x, st)
     else case find (\<lambda>i. \<not> so_used (shm_pool x ! i)) [0..<SHM_OBJS_MAX] of
       None \<Rightarrow> (- ENFILE, x, st)
     | Some i \<Rightarrow>
         (case alloc_zeroed npages st of
            (Inl fs, st1) \<Rightarrow> (- ENOMEM, upd_shm i (\<lambda>_. zero_shm_obj\<lparr>so_npages := npages\<rparr>) x, free_all fs st1)
          | (Inr fs, st1) \<Rightarrow>
              (int i, upd_shm i (\<lambda>_. zero_shm_obj\<lparr>so_used := True, so_npages := npages,
                 so_pages := fs @ replicate (SHM_PAGE_MAX - npages) 0\<rparr>) x, st1)))"

fun map_frames :: "u64 \<Rightarrow> u64 \<Rightarrow> u64 list \<Rightarrow> phys \<Rightarrow> (int \<times> nat) \<times> phys" where
  "map_frames root va [] st = ((0, 0), st)"
| "map_frames root va (fr # frs) st =
    (case vmm_map_at root va fr (VM_READ OR VM_WRITE OR VM_USER) st of (r, st1) \<Rightarrow>
       if r \<noteq> 0 then ((r, 0), st1)
       else case map_frames root (va + PAGE_SIZE) frs st1 of ((r2, k), st2) \<Rightarrow> ((r2, Suc k), st2))"

definition unmap_pages :: "u64 \<Rightarrow> u64 \<Rightarrow> nat list \<Rightarrow> phys \<Rightarrow> phys" where
  "unmap_pages root va pgs st = fold (\<lambda>pg s. snd (vmm_unmap_at root (va + of_nat pg * PAGE_SIZE) s)) pgs st"

definition shm_map_range :: "shm_obj \<Rightarrow> u64 \<Rightarrow> u64 \<Rightarrow> phys \<Rightarrow> int \<times> phys" where
  "shm_map_range ob va root st =
    (case map_frames root va (take (so_npages ob) (so_pages ob)) st of ((r, k), st1) \<Rightarrow>
       (r, if r \<noteq> 0 then unmap_pages root va (rev [0..<k]) st1 else st1))"

definition shm_unmap_range :: "shm_obj \<Rightarrow> u64 \<Rightarrow> u64 \<Rightarrow> phys \<Rightarrow> phys" where
  "shm_unmap_range ob va root st = unmap_pages root va [0..<so_npages ob] st"

text \<open>\<open>proc\<close> is the root and the slots of the calling process, if it is a process.\<close>

definition shm_attach :: "int \<Rightarrow> u64 \<Rightarrow> (u64 \<times> shm_map list) option \<Rightarrow> shm \<Rightarrow> phys \<Rightarrow> (int \<times> shm_map list) \<times> shm \<times> phys" where
  "shm_attach oid va_hint proc x st =
    (case proc of
       None \<Rightarrow> ((- EINVAL, []), x, st)
     | Some (root, maps) \<Rightarrow>
         if root = 0 \<or> oid < 0 \<or> int SHM_OBJS_MAX \<le> oid then ((- EINVAL, maps), x, st)
         else
           let ob = shm_pool x ! nat oid; len = of_nat (so_npages ob) * PAGE_SIZE
           in if \<not> so_used ob then ((- ENOENT, maps), x, st)
              else (case find (\<lambda>i. sm_va (maps ! i) = 0) [0..<PROC_SHM_MAX] of
                None \<Rightarrow> ((- EMFILE, maps), x, st)
              | Some sl \<Rightarrow>
                  let x1 = (if va_hint \<noteq> 0 then x else x\<lparr>shm_next_off := shm_next_off x + len\<rparr>);
                      va = (if va_hint \<noteq> 0 then va_hint else USER_SHM_BASE + shm_next_off x)
                  in if va_hint \<noteq> 0 \<and> (\<not> IS_ALIGNED va_hint PAGE_SIZE \<or> va_hint < USER_SHM_BASE \<or>
                         SHM_VA_LIMIT < va_hint + len \<or> va_hint + len < va_hint)
                     then ((- EINVAL, maps), x, st)
                     else if va_hint = 0 \<and> SHM_VA_LIMIT \<le> USER_SHM_BASE + shm_next_off x1 then ((- ENOMEM, maps), x1, st)
                     else case shm_map_range ob va root st of (r, st1) \<Rightarrow>
                       if r \<noteq> 0 then ((- ENOMEM, maps), x1, st1)
                       else ((int (unat va), maps[sl := \<lparr>sm_va = va, sm_npages = so_npages ob, sm_id = oid\<rparr>]),
                             upd_shm (nat oid) (\<lambda>ob. ob\<lparr>so_attaches := so_attaches ob + 1\<rparr>) x1, st1)))"

definition shm_do_detach :: "u64 \<Rightarrow> nat \<Rightarrow> shm_map list \<Rightarrow> shm \<Rightarrow> phys \<Rightarrow> shm_map list \<times> shm \<times> phys" where
  "shm_do_detach root sl maps x st =
    (let va = sm_va (maps ! sl); oid = nat (sm_id (maps ! sl))
     in if va = 0 then (maps, x, st)
        else
          let st1 = shm_unmap_range (shm_pool x ! oid) va root st;
              n = so_attaches (shm_pool x ! oid) - 1
          in (maps[sl := no_shm_map],
              if n = 0 then upd_shm oid (\<lambda>_. zero_shm_obj) x else upd_shm oid (\<lambda>ob. ob\<lparr>so_attaches := n\<rparr>) x,
              if n = 0 then free_all (filter (\<lambda>f. f \<noteq> 0) (so_pages (shm_pool x ! oid))) st1 else st1))"

definition shm_detach :: "u64 \<Rightarrow> (u64 \<times> shm_map list) option \<Rightarrow> shm \<Rightarrow> phys \<Rightarrow> (int \<times> shm_map list) \<times> shm \<times> phys" where
  "shm_detach va proc x st =
    (case proc of
       None \<Rightarrow> ((- EINVAL, []), x, st)
     | Some (root, maps) \<Rightarrow>
         if \<not> IS_ALIGNED va PAGE_SIZE then ((- EINVAL, maps), x, st)
         else (case find (\<lambda>i. sm_va (maps ! i) = va) [0..<PROC_SHM_MAX] of
           None \<Rightarrow> ((- ENOENT, maps), x, st)
         | Some i \<Rightarrow> (case shm_do_detach root i maps x st of (maps1, x1, st1) \<Rightarrow> ((0, maps1), x1, st1))))"

text \<open>All slots one after the other: process exit, and the way back of a failed fork.\<close>

fun detach_slots :: "u64 \<Rightarrow> nat list \<Rightarrow> shm_map list \<Rightarrow> shm \<Rightarrow> phys \<Rightarrow> shm_map list \<times> shm \<times> phys" where
  "detach_slots root [] maps x st = (maps, x, st)"
| "detach_slots root (i # is) maps x st =
    (case shm_do_detach root i maps x st of (maps1, x1, st1) \<Rightarrow> detach_slots root is maps1 x1 st1)"

fun fork_slots :: "u64 \<Rightarrow> shm_map list \<Rightarrow> nat list \<Rightarrow> shm_map list \<Rightarrow> shm \<Rightarrow> phys \<Rightarrow> int \<times> shm_map list \<times> shm \<times> phys" where
  "fork_slots croot pmaps [] cmaps x st = (0, cmaps, x, st)"
| "fork_slots croot pmaps (i # is) cmaps x st =
    (let mp = pmaps ! i; oid = sm_id mp
     in if sm_va mp = 0 \<or> oid < 0 \<or> int SHM_OBJS_MAX \<le> oid \<or> \<not> so_used (shm_pool x ! nat oid)
        then fork_slots croot pmaps is cmaps x st
        else case shm_map_range (shm_pool x ! nat oid) (sm_va mp) croot st of (r, st1) \<Rightarrow>
          if r \<noteq> 0 then (- ENOMEM, cmaps, x, st1)
          else fork_slots croot pmaps is (cmaps[i := mp]) (upd_shm (nat oid) (\<lambda>ob. ob\<lparr>so_attaches := so_attaches ob + 1\<rparr>) x) st1)"

definition ipc_proc_fork :: "u64 \<Rightarrow> shm_map list \<Rightarrow> shm_map list \<Rightarrow> shm \<Rightarrow> phys \<Rightarrow> int \<times> shm_map list \<times> shm \<times> phys" where
  "ipc_proc_fork croot cmaps pmaps x st =
    (case fork_slots croot pmaps [0..<PROC_SHM_MAX] cmaps x st of (r, cmaps1, x1, st1) \<Rightarrow>
       if r = 0 then (0, cmaps1, x1, st1)
       else case detach_slots croot [0..<PROC_SHM_MAX] cmaps1 x1 st1 of (cmaps2, x2, st2) \<Rightarrow> (r, cmaps2, x2, st2))"

definition shm_object_refs :: "int \<Rightarrow> shm \<Rightarrow> nat" where
  "shm_object_refs oid x = (if oid < 0 \<or> int SHM_OBJS_MAX \<le> oid then 0 else so_attaches (shm_pool x ! nat oid))"

definition shm_init :: shm where
  "shm_init = \<lparr>shm_pool = replicate SHM_OBJS_MAX zero_shm_obj, shm_next_off = 0\<rparr>"

end
