(* ===== verification/Proc.thy ===== *)
theory Proc
  imports Image Shm Mqueue
begin

text \<open>
  Processes (\<open>kernel/proc.c\<close>) over the components they use: the scheduler and the message queues
  (one state, \<open>mqs\<close>), physical memory and page tables, shared memory and the images of
  \<open>Image\<close>. A process structure is named by a number, the registry is the list of these names
  from the newest on. The file operations are a record of hooks over a state of any type; the
  embedded images, generated by the build, are a function. Memory that a call may get from the
  kernel heap is granted by an argument. \<open>None\<close> is a panic, or the use of a process structure that
  was freed: a task can outlive the structure its \<open>proc\<close> field names, and what the code then
  reads or writes is memory of somebody else. The report of a crash is left out.
\<close>

type_synonym pref = nat

abbreviation PROC_NAME_MAX :: nat where "PROC_NAME_MAX \<equiv> 16"
abbreviation USER_L0_LO :: nat where "USER_L0_LO \<equiv> 2"
abbreviation USER_L0_HI :: nat where "USER_L0_HI \<equiv> 6"
abbreviation USER_MMAP_BASE :: u64 where "USER_MMAP_BASE \<equiv> 0x28000000000"
abbreviation NSIG :: nat where "NSIG \<equiv> 32"
abbreviation SIGKILL :: nat where "SIGKILL \<equiv> 9"
abbreviation SIGSEGV :: nat where "SIGSEGV \<equiv> 11"
abbreviation SIGCHLD :: nat where "SIGCHLD \<equiv> 17"
abbreviation ETIMEDOUT :: int where "ETIMEDOUT \<equiv> 110"
abbreviation PROC_PRIO :: u32 where "PROC_PRIO \<equiv> 10"

record proc =
  p_pid :: int
  p_name :: string
  p_task :: "nat option"
  p_root :: u64
  p_asid :: nat
  p_asid_gen :: nat
  p_kstack :: u64
  p_alive :: bool
  p_exit_code :: int
  p_parent :: "pref option"
  p_brk :: u64
  p_brk_floor :: u64
  p_mmap_next :: u64
  p_shm :: "shm_map list"
  p_mq :: "u8 list"
  p_pending :: u32
  p_in_signal :: bool
  p_sigframe :: u64
  p_handlers :: "u64 list"
  p_entry :: trap_frame

record asids =
  as_next :: nat
  as_gen :: nat
  as_used :: "bool list"

record 'f kern =
  k_heap :: "pref \<Rightarrow> proc option"
  k_list :: "pref list"
  k_next_pid :: int
  k_init :: "pref option"
  k_asids :: asids
  k_seed :: u64
  k_reap_wq :: "nat option"
  k_tproc :: "nat \<Rightarrow> pref option"
  k_tframe :: "nat \<Rightarrow> trap_frame"
  k_ttbr0 :: "nat \<Rightarrow> u64"
  k_mqs :: mqs
  k_phys :: phys
  k_shm :: shm
  k_files :: 'f

record 'f file_hooks =
  fh_init :: "pref \<Rightarrow> 'f \<Rightarrow> (int \<times> 'f) option"
  fh_inherit :: "pref \<Rightarrow> pref \<Rightarrow> 'f \<Rightarrow> 'f option"
  fh_release :: "pref \<Rightarrow> 'f \<Rightarrow> 'f option"

text \<open>What a call gets from the kernel heap: a process structure, if any, and a kernel stack, zero
  when there is none.\<close>

record heap_grant =
  hg_proc :: "pref option"
  hg_kstack :: u64

definition zero_frame :: trap_frame where
  "zero_frame = \<lparr>tf_regs = replicate 31 0, tf_esr = 0, tf_elr = 0, tf_spsr = 0, tf_sp = 0\<rparr>"

definition zero_proc :: proc where
  "zero_proc = \<lparr>p_pid = 0, p_name = '''', p_task = None, p_root = 0, p_asid = 0, p_asid_gen = 0, p_kstack = 0,
     p_alive = False, p_exit_code = 0, p_parent = None, p_brk = 0, p_brk_floor = 0, p_mmap_next = 0,
     p_shm = replicate PROC_SHM_MAX no_shm_map, p_mq = replicate PROC_MQ_MAX 0, p_pending = 0, p_in_signal = False,
     p_sigframe = 0, p_handlers = replicate NSIG 0, p_entry = zero_frame\<rparr>"

section \<open>Access\<close>

definition the_proc :: "'f kern \<Rightarrow> pref \<Rightarrow> proc" where
  "the_proc k p = the (k_heap k p)"

definition upd_proc :: "pref \<Rightarrow> (proc \<Rightarrow> proc) \<Rightarrow> 'f kern \<Rightarrow> 'f kern" where
  "upd_proc p f k = k\<lparr>k_heap := (k_heap k)(p := map_option f (k_heap k p))\<rparr>"

definition k_sched :: "'f kern \<Rightarrow> sched" where
  "k_sched k = mqs_sched (k_mqs k)"

definition set_sched :: "sched \<Rightarrow> 'f kern \<Rightarrow> 'f kern" where
  "set_sched s k = k\<lparr>k_mqs := set_mqs_sched s (k_mqs k)\<rparr>"

definition proc_current :: "nat \<Rightarrow> 'f kern \<Rightarrow> pref option" where
  "proc_current c k = Option.bind (current_task c (k_sched k)) (k_tproc k)"

definition proc_address_space_switch :: "ktables \<Rightarrow> nat \<Rightarrow> pref option \<Rightarrow> 'f kern \<Rightarrow> 'f kern" where
  "proc_address_space_switch kt c po k =
    k\<lparr>k_ttbr0 := (k_ttbr0 k)(c := (case po of
        None \<Rightarrow> vmm_kernel_root kt
      | Some p \<Rightarrow> p_root (the_proc k p) OR push_bit 56 (of_nat (p_asid (the_proc k p)))))\<rparr>"

section \<open>Address-space tags\<close>

definition asid_free :: "asids \<Rightarrow> nat option" where
  "asid_free a = find (\<lambda>i. \<not> as_used a ! i) ([as_next a..<256] @ [1..<as_next a])"

definition asid_alloc :: "asids \<Rightarrow> (nat \<times> nat) \<times> asids" where
  "asid_alloc a =
    (case asid_free a of
       Some i \<Rightarrow> ((i, as_gen a), a\<lparr>as_next := (if i = 255 then 1 else i + 1), as_used := (as_used a)[i := True]\<rparr>)
     | None \<Rightarrow> ((1, as_gen a + 1), \<lparr>as_next = 2, as_gen = as_gen a + 1, as_used = (replicate 256 False)[1 := True]\<rparr>))"

definition asid_release :: "nat \<Rightarrow> asids \<Rightarrow> asids" where
  "asid_release i a = (if i = 0 \<or> \<not> as_used a ! i then a else a\<lparr>as_used := (as_used a)[i := False]\<rparr>)"

section \<open>Randomised layout\<close>

definition kaslr_next :: "u64 \<Rightarrow> u64" where
  "kaslr_next s = (let a = s XOR push_bit 13 s; b = a XOR drop_bit 7 a in b XOR push_bit 17 b)"

text \<open>\<open>proc_subsys_init\<close> seeds it from the counter and the tick count.\<close>

definition proc_subsys_init :: "u64 \<Rightarrow> u64 \<Rightarrow> 'f kern \<Rightarrow> 'f kern" where
  "proc_subsys_init counter ticks k =
    (let s = counter XOR push_bit 32 ticks in k\<lparr>k_seed := (if s = 0 then 0x9e3779b97f4a7c15 else s)\<rparr>)"

definition kaslr_mmap_base :: "'f kern \<Rightarrow> u64 \<times> 'f kern" where
  "kaslr_mmap_base k =
    (let s = kaslr_next (k_seed k) in (USER_MMAP_BASE + (s mod 0x100000) * PAGE_SIZE, k\<lparr>k_seed := s\<rparr>))"

section \<open>The registry\<close>

definition registry_add :: "pref \<Rightarrow> 'f kern \<Rightarrow> 'f kern" where
  "registry_add p k = k\<lparr>k_list := p # k_list k\<rparr>"

definition registry_del :: "pref \<Rightarrow> 'f kern \<Rightarrow> 'f kern" where
  "registry_del p k = k\<lparr>k_list := remove1 p (k_list k)\<rparr>"

text \<open>\<open>next_pid\<close> is a C \<open>int\<close>: after 2147483647 it goes on with the most negative value.\<close>

abbreviation INT_MAX :: int where "INT_MAX \<equiv> 2147483647"

definition int_succ :: "int \<Rightarrow> int" where
  "int_succ n = (n + 1 + 2 ^ 31) mod 2 ^ 32 - 2 ^ 31"

definition pid_alloc :: "'f kern \<Rightarrow> int \<times> 'f kern" where
  "pid_alloc k = (k_next_pid k, k\<lparr>k_next_pid := int_succ (k_next_pid k)\<rparr>)"

definition proc_by_pid :: "int \<Rightarrow> 'f kern \<Rightarrow> pref option" where
  "proc_by_pid pid k = find (\<lambda>p. p_pid (the_proc k p) = pid) (k_list k)"

definition proc_pid_of_name :: "string \<Rightarrow> 'f kern \<Rightarrow> int" where
  "proc_pid_of_name name k =
    (case find (\<lambda>p. p_alive (the_proc k p) \<and> p_name (the_proc k p) = name) (k_list k) of
       None \<Rightarrow> - 1 | Some p \<Rightarrow> p_pid (the_proc k p))"

definition proc_note_init_pid :: "int \<Rightarrow> 'f kern \<Rightarrow> 'f kern" where
  "proc_note_init_pid pid k =
    (case find (\<lambda>p. p_pid (the_proc k p) = pid \<and> p_alive (the_proc k p)) (k_list k) of
       None \<Rightarrow> k | Some p \<Rightarrow> k\<lparr>k_init := Some p\<rparr>)"

text \<open>The records of the process report: number, number of the parent, alive, name.\<close>

definition proc_psinfo_fill :: "nat \<Rightarrow> 'f kern \<Rightarrow> (int \<times> int \<times> bool \<times> string) list" where
  "proc_psinfo_fill mx k =
    map (\<lambda>p. let x = the_proc k p
              in (p_pid x,
                  (case p_parent x of None \<Rightarrow> 0 | Some q \<Rightarrow> if p_alive (the_proc k q) then p_pid (the_proc k q) else 0),
                  p_alive x, p_name x))
      (take mx (k_list k))"

section \<open>Death and reaping\<close>

definition space_destroy :: "pref \<Rightarrow> 'f kern \<Rightarrow> 'f kern" where
  "space_destroy p k =
    (let x = the_proc k p;
         st = (if p_root x \<noteq> 0 then vmm_root_free (p_root x) (vmm_root_release (p_root x) USER_L0_LO USER_L0_HI (k_phys k)) else k_phys k)
     in upd_proc p (\<lambda>x. x\<lparr>p_root := 0, p_asid := 0\<rparr>)
          (k\<lparr>k_phys := st, k_asids := asid_release (p_asid x) (k_asids k)\<rparr>))"

text \<open>The children of a dying process move to init, which is told so with \<open>SIGCHLD\<close>.\<close>

definition sigbit :: "nat \<Rightarrow> u32" where
  "sigbit sig = push_bit (sig - 1) 1"

fun reparent :: "pref \<Rightarrow> pref \<Rightarrow> pref list \<Rightarrow> 'f kern \<Rightarrow> 'f kern" where
  "reparent i p [] k = k"
| "reparent i p (q # qs) k =
    (if p_parent (the_proc k q) = Some p \<and> q \<noteq> p
     then reparent i p qs (upd_proc i (\<lambda>x. x\<lparr>p_pending := p_pending x OR sigbit SIGCHLD\<rparr>) (upd_proc q (\<lambda>x. x\<lparr>p_parent := Some i\<rparr>) k))
     else reparent i p qs k)"

definition reparent_children :: "pref \<Rightarrow> 'f kern \<Rightarrow> 'f kern" where
  "reparent_children p k =
    (case k_init k of None \<Rightarrow> k | Some i \<Rightarrow> if i = p then k else reparent i p (k_list k) k)"

definition is_thread :: "'f kern \<Rightarrow> pref \<Rightarrow> nat \<Rightarrow> bool" where
  "is_thread k p i \<longleftrightarrow> t_kstack (task_at (k_sched k) i) \<noteq> 0 \<and> k_tproc k i = Some p"

definition kill_tasks :: "pref \<Rightarrow> 'f kern \<Rightarrow> sched" where
  "kill_tasks p k =
    (k_sched k)\<lparr>tasks := map (\<lambda>i. let t = task_at (k_sched k) i
        in if t_state t \<noteq> TASK_UNUSED \<and> (p_task (the_proc k p) = Some i \<or> is_thread k p i) then t\<lparr>t_state := TASK_DEAD\<rparr> else t)
      [0..<length (tasks (k_sched k))]\<rparr>"

definition wake_reapers :: "nat \<Rightarrow> 'f kern \<Rightarrow> 'f kern" where
  "wake_reapers c k =
    (case wait_wake_all c (k_reap_wq k) (k_sched k) of (h, s) \<Rightarrow> (set_sched s k)\<lparr>k_reap_wq := h\<rparr>)"

definition mark_zombie :: "nat \<Rightarrow> pref \<Rightarrow> int \<Rightarrow> 'f kern \<Rightarrow> 'f kern" where
  "mark_zombie c p code k =
    (let k1 = reparent_children p (upd_proc p (\<lambda>x. x\<lparr>p_alive := False, p_exit_code := code\<rparr>) k);
         k2 = upd_proc p (\<lambda>x. x\<lparr>p_asid := 0\<rparr>) (k1\<lparr>k_asids := asid_release (p_asid (the_proc k1 p)) (k_asids k1)\<rparr>)
     in wake_reapers c (set_sched (kill_tasks p k2) k2))"

text \<open>Init was freed and a child of \<open>p\<close> would be given to it.\<close>

definition init_dangles :: "pref \<Rightarrow> 'f kern \<Rightarrow> bool" where
  "init_dangles p k \<longleftrightarrow>
    (case k_init k of
       None \<Rightarrow> False
     | Some i \<Rightarrow> i \<noteq> p \<and> k_heap k i = None \<and> (\<exists>q\<in>set (k_list k). p_parent (the_proc k q) = Some p \<and> q \<noteq> p))"

text \<open>The process has parked in \<open>task_exit\<close> when this returns.\<close>

definition proc_die :: "ktables \<Rightarrow> nat \<Rightarrow> pref \<Rightarrow> int \<Rightarrow> 'f kern \<Rightarrow> 'f kern option" where
  "proc_die kt c p code k =
    (if k_heap k p = None \<or> init_dangles p k then None
     else let k1 = proc_address_space_switch kt c None (mark_zombie c p code k)
          in map_option (\<lambda>s. set_sched s k1) (task_exit c (k_sched k1)))"

definition proc_do_exit :: "ktables \<Rightarrow> nat \<Rightarrow> int \<Rightarrow> 'f kern \<Rightarrow> 'f kern option" where
  "proc_do_exit kt c code k = Option.bind (proc_current c k) (\<lambda>p. proc_die kt c p (code mod 256) k)"

definition proc_user_fault :: "ktables \<Rightarrow> nat \<Rightarrow> 'f kern \<Rightarrow> 'f kern option" where
  "proc_user_fault kt c k = Option.bind (proc_current c k) (\<lambda>p. proc_die kt c p (128 + int SIGSEGV) k)"

text \<open>Attachments and queue handles of a process.\<close>

definition close_handles :: "u8 list \<Rightarrow> mqs \<Rightarrow> u8 list \<times> mqs" where
  "close_handles hs x =
    fold (\<lambda>h (hs, x). let q = mq_handle_lookup (Some hs) h
           in if 0 \<le> q then (the (mq_handle_release (Some hs) h), snd (mq_close_id q x)) else (hs, x))
      [1, 2, 3, 4] (hs, x)"

definition ipc_proc_exit :: "pref \<Rightarrow> 'f kern \<Rightarrow> 'f kern" where
  "ipc_proc_exit p k =
    (case detach_slots (p_root (the_proc k p)) [0..<PROC_SHM_MAX] (p_shm (the_proc k p)) (k_shm k) (k_phys k) of
       (maps, sh, st) \<Rightarrow>
         (case close_handles (p_mq (the_proc k p)) (k_mqs k) of
            (hs, x) \<Rightarrow> upd_proc p (\<lambda>y. y\<lparr>p_shm := maps, p_mq := hs\<rparr>) (k\<lparr>k_shm := sh, k_phys := st, k_mqs := x\<rparr>)))"

text \<open>The task slot is handed back when it is marked dead; otherwise it stays taken.\<close>

definition free_slot :: "nat option \<Rightarrow> 'f kern \<Rightarrow> 'f kern" where
  "free_slot to k =
    (case to of
       None \<Rightarrow> k
     | Some i \<Rightarrow>
         if t_state (task_at (k_sched k) i) = TASK_DEAD
         then (set_sched (upd_task i (\<lambda>t. t\<lparr>t_state := TASK_UNUSED, t_fn := 0, t_arg := 0\<rparr>) (k_sched k)) k)
                \<lparr>k_tproc := (k_tproc k)(i := None)\<rparr>
         else k)"

definition reap_one :: "'f file_hooks \<Rightarrow> pref \<Rightarrow> 'f kern \<Rightarrow> ((int \<times> int) \<times> 'f kern) option" where
  "reap_one H z k =
    (let k1 = space_destroy z (registry_del z (ipc_proc_exit z k))
     in map_option (\<lambda>fs.
          let k2 = free_slot (p_task (the_proc k z)) (k1\<lparr>k_files := fs\<rparr>)
          in ((p_exit_code (the_proc k z), p_pid (the_proc k z)), k2\<lparr>k_heap := (k_heap k2)(z := None)\<rparr>))
        (fh_release H z (k_files k1)))"

definition threads_settled :: "'f kern \<Rightarrow> pref \<Rightarrow> bool" where
  "threads_settled k p \<longleftrightarrow>
    (\<forall>i\<in>set [0..<length (tasks (k_sched k))].
       is_thread k p i \<longrightarrow> t_state (task_at (k_sched k) i) = TASK_DEAD \<and> t_parked (task_at (k_sched k) i))"

definition child_of :: "'f kern \<Rightarrow> pref \<Rightarrow> int \<Rightarrow> pref \<Rightarrow> bool" where
  "child_of k parent want q \<longleftrightarrow>
    p_parent (the_proc k q) = Some parent \<and> (0 \<le> want \<longrightarrow> p_pid (the_proc k q) = want)"

definition find_zombie :: "pref \<Rightarrow> int \<Rightarrow> 'f kern \<Rightarrow> pref option" where
  "find_zombie parent want k =
    find (\<lambda>q. child_of k parent want q \<and> \<not> p_alive (the_proc k q) \<and> threads_settled k q) (k_list k)"

definition has_child :: "pref \<Rightarrow> int \<Rightarrow> 'f kern \<Rightarrow> bool" where
  "has_child parent want k \<longleftrightarrow> find (child_of k parent want) (k_list k) \<noteq> None"

text \<open>The result, and the exit code when a child was reaped.\<close>

definition proc_poll_reap :: "'f file_hooks \<Rightarrow> nat \<Rightarrow> int \<Rightarrow> 'f kern \<Rightarrow> (int \<times> int option \<times> 'f kern) option" where
  "proc_poll_reap H c want k =
    (case proc_current c k of
       None \<Rightarrow> None
     | Some p \<Rightarrow>
         (case find_zombie p want k of
            Some z \<Rightarrow> map_option (\<lambda>((code, pid), k1). (pid, Some code, k1)) (reap_one H z k)
          | None \<Rightarrow> Some (if has_child p want k then 0 else - ECHILD, None, k)))"

definition proc_kernel_reap :: "'f file_hooks \<Rightarrow> int \<Rightarrow> 'f kern \<Rightarrow> (int \<times> int option \<times> 'f kern) option" where
  "proc_kernel_reap H pid k =
    (case proc_by_pid pid k of
       None \<Rightarrow> Some (- ECHILD, None, k)
     | Some z \<Rightarrow>
         if p_alive (the_proc k z) \<or> \<not> threads_settled k z then Some (0, None, k)
         else map_option (\<lambda>((code, _), k1). (pid, Some code, k1)) (reap_one H z k))"

text \<open>One turn of a loop that waits: the result, or the caller parked (in the queue of the reapers, when no
  child became reapable in between, or asleep for ten milliseconds), or the next turn.\<close>

datatype wait_turn = Wait_done int "int option" | Wait_parked | Wait_again

definition proc_kernel_wait :: "'f file_hooks \<Rightarrow> nat \<Rightarrow> int \<Rightarrow> u64 \<Rightarrow> u64 \<Rightarrow> 'f kern \<Rightarrow> (wait_turn \<times> 'f kern) option" where
  "proc_kernel_wait H c pid deadline now k =
    (case proc_kernel_reap H pid k of
       None \<Rightarrow> None
     | Some (r, code, k1) \<Rightarrow>
         if r \<noteq> 0 then Some (Wait_done r code, k1)
         else if 0 \<le> sint (now - deadline) then Some (Wait_done (- ETIMEDOUT) None, k1)
         else map_option (\<lambda>s. (Wait_parked, set_sched s k1)) (msleep c 10 (k_sched k1)))"

definition proc_do_waitpid :: "'f file_hooks \<Rightarrow> nat \<Rightarrow> int \<Rightarrow> 'f kern \<Rightarrow> (wait_turn \<times> 'f kern) option" where
  "proc_do_waitpid H c want k =
    (case proc_current c k of
       None \<Rightarrow> Some (Wait_done (- ESRCH) None, k)
     | Some p \<Rightarrow>
         (case proc_poll_reap H c want k of
            None \<Rightarrow> None
          | Some (r, code, k1) \<Rightarrow>
              if r \<noteq> 0 then Some (Wait_done r code, k1)
              else case wait_sleep_when c (find_zombie p want k1 = None) (k_reap_wq k1) (k_sched k1) of
                None \<Rightarrow> None
              | Some (parked, h, s) \<Rightarrow>
                  Some (if parked then Wait_parked else Wait_again, (set_sched s k1)\<lparr>k_reap_wq := h\<rparr>)))"

end
