(* ===== verification/Proc_Ops.thy ===== *)
theory Proc_Ops
  imports Proc
begin

text \<open>
  Creation of processes and threads, \<open>exec\<close> and \<open>kill\<close> (\<open>kernel/proc.c\<close>). The bodies a task
  starts in are numbered; the argument of a task names its process or, for a thread, its own
  slot. \<open>images\<close> gives the bytes of an embedded program.
\<close>

abbreviation PROC_TASK_BODY :: u64 where "PROC_TASK_BODY \<equiv> 1"
abbreviation FORK_CHILD_BODY :: u64 where "FORK_CHILD_BODY \<equiv> 2"
abbreviation THREAD_BODY :: u64 where "THREAD_BODY \<equiv> 3"

section \<open>Spawn and fork\<close>

text \<open>The structure with its kernel stack, its root and its tag: what spawn and fork begin with.\<close>

definition proc_blank :: "ktables \<Rightarrow> heap_grant \<Rightarrow> 'f kern \<Rightarrow> (int \<times> pref) \<times> 'f kern" where
  "proc_blank kt g k =
    (case hg_proc g of
       None \<Rightarrow> ((- ENOMEM, 0), k)
     | Some p \<Rightarrow>
         if hg_kstack g = 0 then ((- ENOMEM, p), k)
         else case vmm_root_alloc kt (k_phys k) of (root, st) \<Rightarrow>
           if root = 0 then ((- ENOMEM, p), k\<lparr>k_phys := st\<rparr>)
           else case asid_alloc (k_asids k) of ((a, gen), as) \<Rightarrow>
             ((0, p), k\<lparr>k_phys := st, k_asids := as,
                k_heap := (k_heap k)(p \<mapsto> zero_proc\<lparr>p_kstack := hg_kstack g, p_root := root, p_asid := a, p_asid_gen := gen\<rparr>)\<rparr>))"

text \<open>The way back: the address space, the kernel stack and the structure.\<close>

definition proc_discard :: "pref \<Rightarrow> 'f kern \<Rightarrow> 'f kern" where
  "proc_discard p k = (let k1 = space_destroy p k in k1\<lparr>k_heap := (k_heap k1)(p := None)\<rparr>)"

text \<open>The task slot is linked while the scheduler cannot see it, then launched: the number of the
  process, or none without a slot.\<close>

definition proc_launch :: "u64 \<Rightarrow> pref \<Rightarrow> 'f kern \<Rightarrow> (int option \<times> 'f kern) option" where
  "proc_launch body p k =
    (case task_create_deferred (p_name (the_proc k p)) body (of_nat p) PROC_PRIO (k_sched k) of (sl, s) \<Rightarrow>
       if sl < 0 then Some (None, set_sched s k)
       else map_option (\<lambda>s1. (Some (p_pid (the_proc k p)), set_sched s1 (registry_add p (upd_proc p (\<lambda>x. x\<lparr>p_task := Some (nat sl)\<rparr>) k))))
              (task_launch sl s))"

definition proc_spawn ::
  "ktables \<Rightarrow> (string \<Rightarrow> u8 list option) \<Rightarrow> 'f file_hooks \<Rightarrow> heap_grant \<Rightarrow> nat \<Rightarrow> string \<Rightarrow> u8 list list \<Rightarrow> u8 list list \<Rightarrow> 'f kern \<Rightarrow>
    (int \<times> 'f kern) option" where
  "proc_spawn kt images H g c img argv envp k =
    (case images img of
       None \<Rightarrow> Some (- ENOENT, k)
     | Some bytes \<Rightarrow>
         (case proc_blank kt g k of ((r, p), k1) \<Rightarrow>
            if r \<noteq> 0 then Some (r, k1)
            else case load_image bytes (p_root (the_proc k1 p)) argv envp (k_phys k1) of
              None \<Rightarrow> None
            | Some (r, res, st) \<Rightarrow>
                let k2 = k1\<lparr>k_phys := st\<rparr>
                in if r \<noteq> 0 then Some (r, proc_discard p k2)
                   else
                     (case kaslr_mmap_base k2 of (base, k3) \<Rightarrow>
                      case pid_alloc k3 of (pid, k4) \<Rightarrow>
                        let (tf, brk) = the res;
                            k5 = upd_proc p (\<lambda>x. x\<lparr>p_brk := brk, p_brk_floor := brk, p_mmap_next := base, p_pid := pid, p_alive := True,
                                   p_parent := proc_current c k, p_entry := tf, p_name := take (PROC_NAME_MAX - 1) img\<rparr>) k4
                        in case fh_init H p (k_files k5) of
                             None \<Rightarrow> None
                           | Some (r, fs) \<Rightarrow>
                               let k6 = k5\<lparr>k_files := fs\<rparr>
                               in if r \<noteq> 0 then Some (r, proc_discard p k6)
                                  else case proc_launch PROC_TASK_BODY p k6 of
                                    None \<Rightarrow> None
                                  | Some (None, k7) \<Rightarrow>
                                      map_option (\<lambda>fs. (- EAGAIN, proc_discard p (k7\<lparr>k_files := fs\<rparr>))) (fh_release H p (k_files k7))
                                  | Some (Some r, k7) \<Rightarrow> Some (r, k7))))"

text \<open>Without a slot for the task only the address space goes back: the descriptors and attachments
  the child inherited do not.\<close>

definition proc_do_fork :: "ktables \<Rightarrow> 'f file_hooks \<Rightarrow> heap_grant \<Rightarrow> nat \<Rightarrow> trap_frame \<Rightarrow> 'f kern \<Rightarrow> (int \<times> 'f kern) option" where
  "proc_do_fork kt H g c tf k =
    (case proc_current c k of
       None \<Rightarrow> None
     | Some par \<Rightarrow>
         (case proc_blank kt g k of ((r, p), k1) \<Rightarrow>
            if r \<noteq> 0 then Some (r, k1)
            else if k_heap k1 par = None then None
            else case vmm_copy_space (p_root (the_proc k1 p)) (p_root (the_proc k1 par)) USER_L0_LO USER_L0_HI (k_phys k1) of (r, st) \<Rightarrow>
              let k2 = k1\<lparr>k_phys := st\<rparr>
              in if r \<noteq> 0 then Some (- ENOMEM, proc_discard p k2)
                 else
                   (case pid_alloc k2 of (pid, k3) \<Rightarrow>
                      let y = the_proc k3 par;
                          k4 = upd_proc p (\<lambda>x. x\<lparr>p_pid := pid, p_alive := True, p_parent := Some par, p_name := p_name y,
                                 p_handlers := p_handlers y, p_brk := p_brk y, p_brk_floor := p_brk_floor y, p_mmap_next := p_mmap_next y\<rparr>) k3
                      in case ipc_proc_fork (p_root (the_proc k4 p)) (p_shm (the_proc k4 p)) (p_shm y) (k_shm k4) (k_phys k4) of
                           (r, maps, sh, st) \<Rightarrow>
                             let k5 = upd_proc p (\<lambda>x. x\<lparr>p_shm := maps\<rparr>) (k4\<lparr>k_shm := sh, k_phys := st\<rparr>)
                             in if r \<noteq> 0 then Some (- ENOMEM, proc_discard p k5)
                                else case fh_inherit H p par (k_files k5) of
                                  None \<Rightarrow> None
                                | Some fs \<Rightarrow>
                                    (case proc_launch FORK_CHILD_BODY p
                                        (upd_proc p (\<lambda>x. x\<lparr>p_entry := tf\<lparr>tf_regs := (tf_regs tf)[0 := 0]\<rparr>\<rparr>) (k5\<lparr>k_files := fs\<rparr>)) of
                                       None \<Rightarrow> None
                                     | Some (None, k6) \<Rightarrow> Some (- EAGAIN, proc_discard p k6)
                                     | Some (Some r, k6) \<Rightarrow> Some (r, k6)))))"

text \<open>What a new process starts with: the frame it enters user mode with.\<close>

definition proc_task_body :: "ktables \<Rightarrow> nat \<Rightarrow> pref \<Rightarrow> 'f kern \<Rightarrow> (trap_frame \<times> 'f kern) option" where
  "proc_task_body kt c p k =
    (case current_task c (k_sched k) of
       None \<Rightarrow> None
     | Some i \<Rightarrow>
         if k_tproc k i \<noteq> None \<and> k_tproc k i \<noteq> Some p \<or> k_heap k p = None then None
         else Some (p_entry (the_proc k p), proc_address_space_switch kt c (Some p) (k\<lparr>k_tproc := (k_tproc k)(i \<mapsto> p)\<rparr>)))"

section \<open>Exec\<close>

definition live_threads :: "'f kern \<Rightarrow> pref \<Rightarrow> bool" where
  "live_threads k p \<longleftrightarrow>
    (\<exists>i\<in>set [0..<length (tasks (k_sched k))].
       is_thread k p i \<and> p_task (the_proc k p) \<noteq> Some i \<and> t_state (task_at (k_sched k) i) \<noteq> TASK_UNUSED \<and>
       t_state (task_at (k_sched k) i) \<noteq> TASK_DEAD)"

text \<open>On success the caller goes to user mode with the new frame. The name of the task is the name
  field of the process, so it changes with it.\<close>

definition proc_do_exec ::
  "ktables \<Rightarrow> (string \<Rightarrow> u8 list option) \<Rightarrow> nat \<Rightarrow> string \<Rightarrow> u8 list list \<Rightarrow> u8 list list \<Rightarrow> 'f kern \<Rightarrow>
    (int \<times> trap_frame option \<times> 'f kern) option" where
  "proc_do_exec kt images c img argv envp k =
    (case proc_current c k of
       None \<Rightarrow> None
     | Some p \<Rightarrow>
         (case images img of
            None \<Rightarrow> Some (- ENOENT, None, k)
          | Some bytes \<Rightarrow>
              if k_heap k p = None then None
              else if live_threads k p then Some (- EBUSY, None, k)
              else case vmm_root_alloc kt (k_phys k) of (nroot, st) \<Rightarrow>
                if nroot = 0 then Some (- ENOMEM, None, k\<lparr>k_phys := st\<rparr>)
                else case asid_alloc (k_asids k) of ((a, gen), as) \<Rightarrow>
                  (case load_image bytes nroot argv envp st of
                     None \<Rightarrow> None
                   | Some (r, res, st1) \<Rightarrow>
                       if r \<noteq> 0
                       then Some (r, None, k\<lparr>k_phys := vmm_root_free nroot (vmm_root_release nroot USER_L0_LO USER_L0_HI st1),
                              k_asids := asid_release a as\<rparr>)
                       else
                         let (tf, brk) = the res; x = the_proc k p;
                             (base, k1) = kaslr_mmap_base (k\<lparr>k_phys := st1, k_asids := as\<rparr>);
                             nm = take (PROC_NAME_MAX - 1) img;
                             k2 = upd_proc p (\<lambda>x. x\<lparr>p_root := nroot, p_asid := a, p_asid_gen := gen, p_brk := brk, p_brk_floor := brk,
                                    p_mmap_next := base, p_handlers := replicate NSIG 0, p_pending := 0, p_in_signal := False,
                                    p_sigframe := 0, p_name := nm\<rparr>) k1;
                             k3 = (case p_task x of None \<Rightarrow> k2 | Some i \<Rightarrow> set_sched (upd_task i (\<lambda>t. t\<lparr>t_name := nm\<rparr>) (k_sched k2)) k2);
                             k4 = proc_address_space_switch kt c (Some p) k3
                         in Some (0, Some tf, k4\<lparr>k_phys := vmm_root_free (p_root x) (vmm_root_release (p_root x) USER_L0_LO USER_L0_HI (k_phys k4)),
                              k_asids := asid_release (p_asid x) (k_asids k4)\<rparr>))))"

section \<open>Kill\<close>

definition proc_do_kill :: "int \<Rightarrow> u32 \<Rightarrow> 'f kern \<Rightarrow> int \<times> 'f kern" where
  "proc_do_kill pid sig k =
    (if sig = 0 \<or> of_nat NSIG \<le> sig then (- EINVAL, k)
     else case proc_by_pid pid k of
       None \<Rightarrow> (- ESRCH, k)
     | Some q \<Rightarrow>
         if p_alive (the_proc k q) then (0, upd_proc q (\<lambda>x. x\<lparr>p_pending := p_pending x OR sigbit (unat sig)\<rparr>) k)
         else (- ESRCH, k))"

section \<open>Threads\<close>

definition proc_thread_create :: "u64 \<Rightarrow> nat \<Rightarrow> u64 \<Rightarrow> u64 \<Rightarrow> u64 \<Rightarrow> 'f kern \<Rightarrow> (int \<times> 'f kern) option" where
  "proc_thread_create kst c pc usp arg k =
    (case proc_current c k of
       None \<Rightarrow> Some (- EINVAL, k)
     | Some p \<Rightarrow>
         if k_heap k p = None then None
         else if \<not> p_alive (the_proc k p) then Some (- EINVAL, k)
         else case task_create_deferred (p_name (the_proc k p)) THREAD_BODY 0 PROC_PRIO (k_sched k) of (sl, s) \<Rightarrow>
           let i = nat sl
           in if sl < 0 then Some (- EAGAIN, set_sched s k)
              else if kst = 0 then Some (- ENOMEM, set_sched (upd_task i (\<lambda>t. t\<lparr>t_state := TASK_UNUSED, t_fn := 0, t_arg := 0\<rparr>) s) k)
              else map_option
                (\<lambda>s1. (sl, (set_sched s1 k)\<lparr>k_tproc := (k_tproc k)(i \<mapsto> p), k_tframe := (k_tframe k)(i :=
                   zero_frame\<lparr>tf_regs := (replicate 31 0)[0 := arg], tf_sp := usp, tf_elr := pc\<rparr>)\<rparr>))
                (task_launch sl (upd_task i (\<lambda>t. t\<lparr>t_kstack := kst, t_arg := of_nat i, t_name := ''thread''\<rparr>) s)))"

definition thread_body :: "ktables \<Rightarrow> nat \<Rightarrow> nat \<Rightarrow> 'f kern \<Rightarrow> (trap_frame \<times> 'f kern) option" where
  "thread_body kt c i k =
    (if k_tproc k i \<noteq> proc_current c k \<or> case_option False (\<lambda>p. k_heap k p = None) (k_tproc k i) then None
     else Some (k_tframe k i, proc_address_space_switch kt c (k_tproc k i) k))"

definition reclaimable :: "sched \<Rightarrow> nat \<Rightarrow> bool" where
  "reclaimable s i \<longleftrightarrow> t_kstack (task_at s i) \<noteq> 0 \<and> t_state (task_at s i) = TASK_DEAD \<and> t_parked (task_at s i)"

definition proc_threads_reclaim :: "nat \<Rightarrow> 'f kern \<Rightarrow> 'f kern" where
  "proc_threads_reclaim c k =
    (let s = k_sched k; freed = filter (reclaimable s) [0..<length (tasks s)];
         k1 = (set_sched (s\<lparr>tasks := map (\<lambda>i. if i \<in> set freed
             then (task_at s i)\<lparr>t_state := TASK_UNUSED, t_fn := 0, t_arg := 0, t_parked := False, t_kstack := 0\<rparr> else task_at s i)
           [0..<length (tasks s)]\<rparr>) k)\<lparr>k_tproc := (\<lambda>i. if i \<in> set freed then None else k_tproc k i)\<rparr>
     in if freed = [] then k1 else wake_reapers c k1)"

definition proc_thread_exit :: "ktables \<Rightarrow> nat \<Rightarrow> 'f kern \<Rightarrow> 'f kern option" where
  "proc_thread_exit kt c k =
    (case current_task c (k_sched k) of
       None \<Rightarrow> None
     | Some i \<Rightarrow>
         if t_kstack (task_at (k_sched k) i) = 0 then None
         else
           let k1 = proc_threads_reclaim c (proc_address_space_switch kt c None k)
           in map_option (\<lambda>s. set_sched s k1) (task_exit c (k_sched k1)))"

end
