(* ===== verification/Signal.thy ===== *)
theory Signal
  imports Proc_Ops
begin

text \<open>
  Signals (\<open>kernel/signal.c\<close>, \<open>sys_sigaction\<close> of \<open>kernel/syscall.c\<close>) and the permission table
  (\<open>kernel/perm.c\<close>). Delivery happens on the way back to user mode and ends there with a frame,
  or with the death of the process. The frame that is saved on the user stack is its 280 bytes.
\<close>

abbreviation SIG_IGN :: u64 where "SIG_IGN \<equiv> 1"
abbreviation SIGFRAME_MAGIC :: u64 where "SIGFRAME_MAGIC \<equiv> 0x47465653"
abbreviation SIGFRAME_SIZE :: nat where "SIGFRAME_SIZE \<equiv> 280"
abbreviation SYS_sigreturn :: u32 where "SYS_sigreturn \<equiv> 9"

datatype user_return = To_user trap_frame | Died

definition signal_default_fatal :: "nat \<Rightarrow> bool" where
  "signal_default_fatal sig \<longleftrightarrow> sig = 0 \<or> NSIG \<le> sig \<or> sig \<noteq> SIGCHLD"

definition first_pending :: "u32 \<Rightarrow> nat" where
  "first_pending m = (case find (bit m) [0..<32] of None \<Rightarrow> 0 | Some i \<Rightarrow> i + 1)"

text \<open>The first pending signal that is not ignored, with what stays pending; signals that are
  ignored are swallowed on the way.\<close>

lemma first_pending_bit: "first_pending m \<noteq> 0 \<Longrightarrow> bit m (first_pending m - 1)"
  unfolding first_pending_def
  by (cases "find (bit m) [0..<32]") (simp_all, simp add: find_Some_iff, blast)

lemma bits_drop: "bit m i \<Longrightarrow> card {j. bit (m AND NOT (push_bit i 1)) j} < card {j. bit (m :: u32) j}"
proof (rule psubset_card_mono)
  show "finite {j. bit m j}" by (rule finite_subset [of _ "{..<32}"]) (auto dest: bit_imp_le_length)
qed (auto simp: bit_simps)

function next_signal :: "u32 \<Rightarrow> u64 list \<Rightarrow> nat \<times> u32" where
  "next_signal m hs =
    (let sig = first_pending m
     in if sig = 0 then (0, m)
        else let m1 = m AND NOT (sigbit sig) in if hs ! sig = SIG_IGN then next_signal m1 hs else (sig, m1))"
  by pat_completeness auto
termination
proof (relation "measure (\<lambda>(m, hs). card {j. bit m j})")
  fix m :: u32 and hs sig m1
  assume "sig = first_pending m" and "sig \<noteq> 0" and "m1 = m AND NOT (sigbit sig)"
  then show "((m1, hs), m, hs) \<in> measure (\<lambda>(m, hs). card {j. bit m j})"
    using bits_drop [OF first_pending_bit, of m] by (simp add: sigbit_def del: push_bit_of_1)
qed simp

declare next_signal.simps [simp del]

definition sigframe_bytes :: "trap_frame \<Rightarrow> u8 list" where
  "sigframe_bytes tf = words8 (SIGFRAME_MAGIC # tf_regs tf @ [tf_sp tf, tf_elr tf, tf_spsr tf])"

definition sig_tramp :: "u8 list" where
  "sig_tramp = le_bytes 4 (0xd2800008 OR push_bit 5 SYS_sigreturn :: u32) @ le_bytes 4 (0xd4000001 :: u32)"

definition signal_deliver_pending :: "ktables \<Rightarrow> nat \<Rightarrow> trap_frame \<Rightarrow> 'f kern \<Rightarrow> (user_return \<times> 'f kern) option" where
  "signal_deliver_pending kt c tf k =
    (case proc_current c k of
       None \<Rightarrow> Some (To_user tf, k)
     | Some p \<Rightarrow>
         if k_heap k p = None then None
         else if \<not> p_alive (the_proc k p) then Some (To_user tf, k)
         else (case next_signal (p_pending (the_proc k p)) (p_handlers (the_proc k p)) of (sig, m) \<Rightarrow>
           let x = the_proc k p; h = p_handlers x ! sig; k1 = upd_proc p (\<lambda>x. x\<lparr>p_pending := m\<rparr>) k
           in if sig = 0 then Some (To_user tf, k1)
              else if h = 0 \<or> signal_default_fatal sig then map_option (Pair Died) (proc_die kt c p (128 + int sig) k1)
              else if p_in_signal x then Some (To_user tf, upd_proc p (\<lambda>x. x\<lparr>p_pending := m OR sigbit sig\<rparr>) k)
              else
                let va = ALIGN_DOWN (tf_sp tf - of_nat SIGFRAME_SIZE) 16
                in case copy_all (p_root x) [(va, sigframe_bytes tf), (va + of_nat SIGFRAME_SIZE, sig_tramp)] (ph_mem (k_phys k1)) of
                     None \<Rightarrow> None
                   | Some (r, m1) \<Rightarrow>
                       let k2 = k1\<lparr>k_phys := (k_phys k1)\<lparr>ph_mem := m1\<rparr>\<rparr>
                       in if r \<noteq> 0 then map_option (Pair Died) (proc_die kt c p (128 + int SIGSEGV) k2)
                          else Some (To_user (tf\<lparr>tf_regs := (of_nat sig # replicate 17 0 @ drop 18 (tf_regs tf))[30 := va + of_nat SIGFRAME_SIZE],
                                   tf_sp := va, tf_elr := h\<rparr>),
                                 upd_proc p (\<lambda>x. x\<lparr>p_in_signal := True, p_sigframe := va\<rparr>) k2)))"

text \<open>The words of the saved frame: magic, 31 registers, stack pointer, counter, status.\<close>

definition proc_sigreturn :: "ktables \<Rightarrow> nat \<Rightarrow> trap_frame \<Rightarrow> 'f kern \<Rightarrow> (user_return \<times> 'f kern) option" where
  "proc_sigreturn kt c tf k =
    (case proc_current c k of
       None \<Rightarrow> None
     | Some p \<Rightarrow>
         let x = the_proc k p; die = map_option (Pair Died) (proc_die kt c p (128 + int SIGSEGV) k)
         in if k_heap k p = None then None
            else if \<not> p_in_signal x then die
            else (case copy_in (ph_mem (k_phys k)) (p_root x) (p_sigframe x) SIGFRAME_SIZE of
              None \<Rightarrow> None
            | Some (r, bs) \<Rightarrow>
                let spsr = (le_field bs 272 8 :: u64)
                in if r \<noteq> 0 \<or> le_field bs 0 8 \<noteq> SIGFRAME_MAGIC \<or> drop_bit 32 spsr \<noteq> 0 \<or> spsr AND 0xc \<noteq> 0 then die
                   else Some (To_user (tf\<lparr>tf_regs := map (\<lambda>i. le_field bs (8 + 8 * i) 8) [0..<31], tf_sp := le_field bs 256 8,
                         tf_elr := le_field bs 264 8, tf_spsr := spsr\<rparr>),
                       upd_proc p (\<lambda>x. x\<lparr>p_in_signal := False, p_sigframe := 0\<rparr>) k)))"

definition sys_sigaction :: "nat \<Rightarrow> u64 \<Rightarrow> u64 \<Rightarrow> 'f kern \<Rightarrow> (int \<times> 'f kern) option" where
  "sys_sigaction c sig handler k =
    (case proc_current c k of
       None \<Rightarrow> Some (- EINVAL, k)
     | Some p \<Rightarrow>
         if sig = 0 \<or> of_nat NSIG \<le> sig \<or> sig = of_nat SIGKILL \<or> sig = of_nat SIGCHLD then Some (- EINVAL, k)
         else if k_heap k p = None then None
         else Some (0, upd_proc p (\<lambda>x. x\<lparr>p_handlers := (p_handlers x)[unat sig := handler]\<rparr>) k))"

section \<open>Permissions\<close>

abbreviation PERM_UI_COMPOSE :: u32 where "PERM_UI_COMPOSE \<equiv> 1"
abbreviation PERM_MODEM :: u32 where "PERM_MODEM \<equiv> 2"
abbreviation PERM_FB_PRESENT :: u32 where "PERM_FB_PRESENT \<equiv> 4"

definition perm_table :: "(string \<times> u32) list" where
  "perm_table =
    [(''compositor'', PERM_UI_COMPOSE OR PERM_FB_PRESENT), (''uitest'', PERM_UI_COMPOSE OR PERM_FB_PRESENT),
     (''dialer'', PERM_MODEM), (''msgs'', PERM_MODEM)]"

definition perm_lookup :: "string option \<Rightarrow> u32" where
  "perm_lookup app = (case app of None \<Rightarrow> 0 | Some a \<Rightarrow> (case map_of perm_table a of None \<Rightarrow> 0 | Some m \<Rightarrow> m))"

definition perm_has :: "string option \<Rightarrow> u32 \<Rightarrow> bool" where
  "perm_has app perm \<longleftrightarrow> perm_lookup app AND perm = perm \<and> perm \<noteq> 0"

end
