(* ===== verification/Proc_Props.thy ===== *)
theory Proc_Props
  imports Signal
begin

text \<open>
  The processes as a machine: the calls of \<open>Proc\<close>, \<open>Proc_Ops\<close> and \<open>Signal\<close> as steps, the invariant
  of the registry, the task slots and the address-space tags, and what follows from it for
  signals and for reaping. Most steps leave alone what the invariant speaks of: they are
  \<open>quiet\<close>.
\<close>

named_theorems kern_simps

section \<open>Fields\<close>

lemma upd_proc_fields [kern_simps]:
  "k_heap (upd_proc p f k) = (k_heap k)(p := map_option f (k_heap k p))" "k_list (upd_proc p f k) = k_list k"
  "k_next_pid (upd_proc p f k) = k_next_pid k" "k_init (upd_proc p f k) = k_init k" "k_asids (upd_proc p f k) = k_asids k"
  "k_mqs (upd_proc p f k) = k_mqs k" "k_tproc (upd_proc p f k) = k_tproc k" "k_files (upd_proc p f k) = k_files k"
  "k_phys (upd_proc p f k) = k_phys k" "k_reap_wq (upd_proc p f k) = k_reap_wq k" "k_sched (upd_proc p f k) = k_sched k"
  by (simp_all add: upd_proc_def k_sched_def)

lemma set_sched_fields [kern_simps]:
  "k_heap (set_sched s k) = k_heap k" "k_list (set_sched s k) = k_list k" "k_next_pid (set_sched s k) = k_next_pid k"
  "k_init (set_sched s k) = k_init k" "k_asids (set_sched s k) = k_asids k" "k_tproc (set_sched s k) = k_tproc k"
  "k_files (set_sched s k) = k_files k" "k_phys (set_sched s k) = k_phys k" "k_reap_wq (set_sched s k) = k_reap_wq k"
  "k_sched (set_sched s k) = s"
  by (simp_all add: set_sched_def k_sched_def set_mqs_sched_def mqs_sched_def)

lemma k_sched_updates [kern_simps]:
  "k_sched (k\<lparr>k_heap := a\<rparr>) = k_sched k" "k_sched (k\<lparr>k_list := b\<rparr>) = k_sched k" "k_sched (k\<lparr>k_next_pid := c\<rparr>) = k_sched k"
  "k_sched (k\<lparr>k_init := d\<rparr>) = k_sched k" "k_sched (k\<lparr>k_asids := e\<rparr>) = k_sched k" "k_sched (k\<lparr>k_seed := g\<rparr>) = k_sched k"
  "k_sched (k\<lparr>k_reap_wq := h\<rparr>) = k_sched k" "k_sched (k\<lparr>k_tproc := i\<rparr>) = k_sched k" "k_sched (k\<lparr>k_tframe := j\<rparr>) = k_sched k"
  "k_sched (k\<lparr>k_ttbr0 := l\<rparr>) = k_sched k" "k_sched (k\<lparr>k_phys := m\<rparr>) = k_sched k" "k_sched (k\<lparr>k_shm := n\<rparr>) = k_sched k"
  "k_sched (k\<lparr>k_files := x\<rparr>) = k_sched k" "k_sched (k\<lparr>k_mqs := y\<rparr>) = mqs_sched y"
  by (simp_all add: k_sched_def)

lemma the_proc_heap: "k_heap k p = Some x \<Longrightarrow> the_proc k p = x"
  by (simp add: the_proc_def)

text \<open>A call that has a result found the structure of the caller in place.\<close>

lemma has_structure:
  "proc_die kt c p code k = Some k' \<Longrightarrow> \<exists>x. k_heap k p = Some x"
  "signal_deliver_pending kt c tf k = Some r \<Longrightarrow> proc_current c k = Some p \<Longrightarrow> \<exists>x. k_heap k p = Some x"
  "proc_sigreturn kt c tf k = Some r \<Longrightarrow> proc_current c k = Some p \<Longrightarrow> \<exists>x. k_heap k p = Some x"
  "proc_thread_create kst c pc usp arg k = Some q \<Longrightarrow> proc_current c k = Some p \<Longrightarrow> \<exists>x. k_heap k p = Some x"
  by (cases "k_heap k p"; simp add: proc_die_def signal_deliver_pending_def proc_sigreturn_def proc_thread_create_def Let_def)+

section \<open>Quiet changes\<close>

definition proc_view :: "proc \<Rightarrow> int \<times> nat option \<times> nat \<times> u64 list \<times> bool" where
  "proc_view x = (p_pid x, p_task x, p_asid x, p_handlers x, p_in_signal x)"

text \<open>No slot is handed back and no kernel stack of a thread changes hands.\<close>

definition slots_kept :: "sched \<Rightarrow> sched \<Rightarrow> bool" where
  "slots_kept s s' \<longleftrightarrow> length (tasks s') = length (tasks s) \<and>
    (\<forall>i < length (tasks s). t_kstack (tasks s' ! i) = t_kstack (tasks s ! i) \<and>
       (t_state (tasks s' ! i) = TASK_UNUSED \<longrightarrow> t_state (tasks s ! i) = TASK_UNUSED))"

definition quiet :: "'f kern \<Rightarrow> 'f kern \<Rightarrow> bool" where
  "quiet k k' \<longleftrightarrow> (\<forall>p. map_option proc_view (k_heap k' p) = map_option proc_view (k_heap k p)) \<and> k_list k' = k_list k \<and>
    k_next_pid k' = k_next_pid k \<and> k_asids k' = k_asids k \<and> slots_kept (k_sched k) (k_sched k')"

lemma slots_kept_refl [simp]: "slots_kept s s"
  by (simp add: slots_kept_def)

lemma slots_kept_trans: "slots_kept s s1 \<Longrightarrow> slots_kept s1 s2 \<Longrightarrow> slots_kept s s2"
  by (auto simp: slots_kept_def)

lemma quiet_refl [simp]: "quiet k k"
  by (simp add: quiet_def)

lemma quiet_trans: "quiet k k1 \<Longrightarrow> quiet k1 k2 \<Longrightarrow> quiet k k2"
  unfolding quiet_def by (auto intro: slots_kept_trans)

lemma quietI:
  "(\<And>p. map_option proc_view (k_heap k' p) = map_option proc_view (k_heap k p)) \<Longrightarrow> k_list k' = k_list k \<Longrightarrow>
    k_next_pid k' = k_next_pid k \<Longrightarrow> k_asids k' = k_asids k \<Longrightarrow> slots_kept (k_sched k) (k_sched k') \<Longrightarrow> quiet k k'"
  by (simp add: quiet_def)

lemma quiet_set_sched: "slots_kept (k_sched k) s \<Longrightarrow> quiet k (set_sched s k)"
  by (rule quietI) (simp_all add: kern_simps)

lemma quiet_upd_proc: "(\<And>x. k_heap k p = Some x \<Longrightarrow> proc_view (f x) = proc_view x) \<Longrightarrow> quiet k (upd_proc p f k)"
  by (rule quietI) (auto simp: kern_simps option.map_comp intro!: map_option_cong)

lemma quiet_updates [simp]:
  "quiet k (k\<lparr>k_init := a\<rparr>)" "quiet k (k\<lparr>k_seed := b\<rparr>)" "quiet k (k\<lparr>k_reap_wq := c\<rparr>)" "quiet k (k\<lparr>k_tproc := d\<rparr>)"
  "quiet k (k\<lparr>k_tframe := e\<rparr>)" "quiet k (k\<lparr>k_ttbr0 := g\<rparr>)" "quiet k (k\<lparr>k_phys := h\<rparr>)" "quiet k (k\<lparr>k_shm := i\<rparr>)"
  "quiet k (k\<lparr>k_files := j\<rparr>)"
  by (simp_all add: quiet_def kern_simps)

lemma quiet_switch: "quiet k (proc_address_space_switch kt c p k)"
  by (simp add: proc_address_space_switch_def)

lemma slots_kept_upd_task:
  "(\<And>t. t_kstack (f t) = t_kstack t) \<Longrightarrow> (\<And>t. t_state (f t) = TASK_UNUSED \<Longrightarrow> t_state t = TASK_UNUSED) \<Longrightarrow> slots_kept s (upd_task i f s)"
  by (auto simp: slots_kept_def upd_task_def nth_list_update_if split: if_splits)

lemma slots_kept_make_ready: "slots_kept s (make_ready i s)"
  by (auto simp: slots_kept_def make_ready_tasks nth_list_update_if split: if_splits)

lemma slots_kept_wake_loop: "wake_loop cur h p s = (p', s') \<Longrightarrow> slots_kept s s'"
proof (induction cur h p s rule: wake_loop.induct)
  case (2 cur i p s)
  let ?s1 = "upd_task i (\<lambda>t. t\<lparr>t_wq_next := None\<rparr>) s"
  have "slots_kept s ?s1" by (rule slots_kept_upd_task) simp_all
  moreover have "slots_kept s (make_ready i ?s1)" by (rule slots_kept_trans [OF \<open>slots_kept s ?s1\<close> slots_kept_make_ready])
  ultimately show ?case using 2 by (auto simp: Let_def intro: slots_kept_trans split: if_splits)
qed simp

lemma slots_kept_cpus [simp]: "slots_kept s (s'\<lparr>cpus := cs\<rparr>) = slots_kept s s'"
  by (simp add: slots_kept_def)

lemma slots_kept_wake_all: "wait_wake_all c h s = (h', s') \<Longrightarrow> slots_kept s s'"
  unfolding wait_wake_all_def Let_def
  by (auto split: prod.splits if_splits simp: upd_cpu_def dest: slots_kept_wake_loop)

lemma slots_kept_exit: "task_exit c s = Some s' \<Longrightarrow> slots_kept s s'"
  by (auto simp: task_exit_def split: option.splits intro!: slots_kept_upd_task)

lemma quiet_wake_reapers: "quiet k (wake_reapers c k)"
  unfolding wake_reapers_def
  by (auto split: prod.splits intro!: quiet_trans [OF quiet_set_sched quiet_updates(3)] dest: slots_kept_wake_all)

lemma slots_kept_kill: "slots_kept (k_sched k) (kill_tasks p k)"
  by (auto simp: slots_kept_def kill_tasks_def Let_def task_at_def)

lemma quiet_reparent: "quiet k (reparent i p qs k)"
proof (induction i p qs k rule: reparent.induct)
  case (2 i p q qs k)
  let ?k1 = "upd_proc i (\<lambda>x. x\<lparr>p_pending := p_pending x OR sigbit SIGCHLD\<rparr>) (upd_proc q (\<lambda>x. x\<lparr>p_parent := Some i\<rparr>) k)"
  have "quiet k ?k1" by (intro quiet_trans [OF quiet_upd_proc quiet_upd_proc]) (simp_all add: proc_view_def)
  then show ?case using 2 by (auto intro: quiet_trans simp del: One_nat_def)
qed simp

lemma quiet_reparent_children: "quiet k (reparent_children p k)"
  by (simp add: reparent_children_def quiet_reparent split: option.splits)


section \<open>Tags\<close>

text \<open>\<open>t\<close> gives the tag of a process, zero for none: the table of tags in use holds exactly these, no two
  processes share one and the first generation has not ended.\<close>

definition tags_ok :: "(pref \<Rightarrow> nat) \<Rightarrow> asids \<Rightarrow> bool" where
  "tags_ok t a \<longleftrightarrow> length (as_used a) = 256 \<and> 1 \<le> as_next a \<and> as_next a \<le> 255 \<and> as_gen a = 1 \<and> finite {p. t p \<noteq> 0} \<and>
    (\<forall>p. t p < 256) \<and> (\<forall>p q. t p = t q \<longrightarrow> t p \<noteq> 0 \<longrightarrow> p = q) \<and> (\<forall>i. 1 \<le> i \<longrightarrow> i < 256 \<longrightarrow> as_used a ! i = (\<exists>p. t p = i))"

lemma tags_okI:
  assumes "length (as_used a) = 256" and "1 \<le> as_next a" and "as_next a \<le> 255" and "as_gen a = 1" and "finite {p. t p \<noteq> 0}"
    and "\<And>p. t p < 256" and "\<And>p q. t p = t q \<longrightarrow> t p \<noteq> 0 \<longrightarrow> p = q"
    and "\<And>i. 1 \<le> i \<Longrightarrow> i < 256 \<Longrightarrow> as_used a ! i = (\<exists>p. t p = i)"
  shows "tags_ok t a"
  unfolding tags_ok_def using assms by blast

lemma tags_okD:
  assumes "tags_ok t a"
  shows "length (as_used a) = 256" "1 \<le> as_next a" "as_next a \<le> 255" "as_gen a = 1" "finite {p. t p \<noteq> 0}" "t p < 256"
  using assms unfolding tags_ok_def by blast+

lemma tags_finite: "finite {p. t p \<noteq> 0} \<Longrightarrow> finite {q. (t(p := i)) q \<noteq> (0 :: nat)}"
  by (rule finite_subset [of _ "insert p {q. t q \<noteq> 0}"]) auto

lemma tag_range: "(\<exists>q. (t(p := v)) q = n) = (v = n \<or> (\<exists>q. q \<noteq> p \<and> t q = n))"
  by auto

lemma tags_release: "tags_ok t a \<Longrightarrow> tags_ok (t(p := 0)) (asid_release (t p) a)"
proof -
  assume ok: "tags_ok t a"
  have uni: "t q = t r \<Longrightarrow> t q \<noteq> 0 \<Longrightarrow> q = r" and used: "1 \<le> i \<Longrightarrow> i < 256 \<Longrightarrow> as_used a ! i = (\<exists>p. t p = i)" for q r i
    using ok unfolding tags_ok_def by blast+
  have len: "length (as_used a) = 256" "t p < 256" using ok by (simp_all add: tags_ok_def)
  have tab: "as_used (asid_release (t p) a) ! i = (\<exists>q. (t(p := 0)) q = i)" if i: "1 \<le> i" "i < 256" for i
  proof (cases "t p = i")
    case True
    then have "\<not> (\<exists>q. (t(p := 0)) q = i)" unfolding tag_range using uni i(1) by (metis not_one_le_zero)
    moreover have "as_used a ! i" using used [OF i] True by auto
    ultimately show ?thesis using True len i by (simp add: asid_release_def)
  next
    case False
    have "(\<exists>q. (t(p := 0)) q = i) = (\<exists>q. t q = i)" unfolding tag_range using False i(1) by (metis not_one_le_zero)
    then show ?thesis using False used [OF i] by (simp add: asid_release_def)
  qed
  have fin: "finite {q. (t(p := 0)) q \<noteq> 0}" by (rule tags_finite [OF tags_okD(5) [OF ok]])
  have uni0: "(t(p := 0)) q = (t(p := 0)) r \<longrightarrow> (t(p := 0)) q \<noteq> 0 \<longrightarrow> q = r" for q r
    using uni by (metis fun_upd_apply)
  show ?thesis by (rule tags_okI [OF _ _ _ _ fin _ uni0 tab]) (use tags_okD [OF ok] in \<open>simp_all add: asid_release_def\<close>)
qed

lemma tags_free:
  assumes ok: "tags_ok t a" and few: "card {p. t p \<noteq> 0} < 255"
  shows "\<exists>i. asid_free a = Some i \<and> 1 \<le> i \<and> i < 256 \<and> (\<forall>q. t q \<noteq> i)"
proof -
  have fin: "finite {p. t p \<noteq> 0}" using ok by (simp add: tags_ok_def)
  have "card (t ` {p. t p \<noteq> 0}) < card {1..<256::nat}" using few card_image_le [OF fin, of t] by simp
  then have "\<not> {1..<256} \<subseteq> t ` {p. t p \<noteq> 0}" using card_mono [of "t ` {p. t p \<noteq> 0}" "{1..<256}"] fin by fastforce
  then obtain j where "j \<in> {1..<256}" "j \<notin> t ` {p. t p \<noteq> 0}" by blast
  then have j: "1 \<le> j" "j < 256" "\<forall>q. t q \<noteq> j" by auto
  then have "\<not> as_used a ! j" using ok unfolding tags_ok_def by blast
  moreover have "j \<in> set ([as_next a..<256] @ [1..<as_next a])" using j by auto
  ultimately obtain i where i: "asid_free a = Some i"
    unfolding asid_free_def by (metis (no_types, lifting) find_None_iff not_None_eq)
  then have "i \<in> set ([as_next a..<256] @ [1..<as_next a])" and u: "\<not> as_used a ! i"
    unfolding asid_free_def by (metis (no_types, lifting) find_Some_iff nth_mem)+
  then have "1 \<le> i" "i < 256" using ok by (auto simp: tags_ok_def)
  then show ?thesis using i u ok unfolding tags_ok_def by blast
qed

lemma tags_alloc:
  assumes ok: "tags_ok t a" and few: "card {p. t p \<noteq> 0} < 255" and al: "asid_alloc a = ((i, g), a')" and new: "t p = 0"
  shows "tags_ok (t(p := i)) a' \<and> 1 \<le> i \<and> i < 256 \<and> (\<forall>q. t q \<noteq> i)"
proof -
  obtain j where j: "asid_free a = Some j" "1 \<le> j" "j < 256" "\<forall>q. t q \<noteq> j" using tags_free [OF ok few] by blast
  then have i: "i = j" "a' = a\<lparr>as_next := (if i = 255 then 1 else i + 1), as_used := (as_used a)[i := True]\<rparr>"
    using al by (auto simp: asid_alloc_def)
  have fin: "finite {q. (t(p := i)) q \<noteq> 0}" by (rule tags_finite) (use ok in \<open>simp add: tags_ok_def\<close>)
  have uni: "(t(p := i)) q = (t(p := i)) r \<longrightarrow> (t(p := i)) q \<noteq> 0 \<longrightarrow> q = r" for q r
  proof -
    have "t q = t r \<longrightarrow> t q \<noteq> 0 \<longrightarrow> q = r" using ok unfolding tags_ok_def by blast
    then show ?thesis using j(4) i(1) by (cases "q = p"; cases "r = p") (simp_all, metis)
  qed
  have tab: "as_used a' ! n = (\<exists>q. (t(p := i)) q = n)" if n: "1 \<le> n" "n < 256" for n
  proof -
    have "(\<exists>q. (t(p := i)) q = n) = (n = i \<or> (\<exists>q. t q = n))" unfolding tag_range using n(1) new by (metis not_one_le_zero)
    moreover have "as_used a ! n = (\<exists>q. t q = n)" "length (as_used a) = 256" using ok n by (simp_all add: tags_ok_def)
    ultimately show ?thesis using n i(2) by (simp add: nth_list_update_if)
  qed
  have "tags_ok (t(p := i)) a'"
    by (rule tags_okI [OF _ _ _ _ fin _ uni tab]) (use tags_okD [OF ok] j(2,3) i in simp_all)
  then show ?thesis using j i(1) by simp
qed

text \<open>\<open>exec\<close>: a second tag is taken, then the first goes back.\<close>

lemma tags_exchange:
  assumes ok: "tags_ok t a" and few: "card {p. t p \<noteq> 0} < 255" and al: "asid_alloc a = ((i, g), a')"
  shows "tags_ok (t(p := i)) (asid_release (t p) a')" and "tags_ok t (asid_release i a')"
proof -
  have fin: "finite (insert p {p. t p \<noteq> 0})" using ok by (simp add: tags_ok_def)
  obtain q where "q \<notin> insert p {p. t p \<noteq> 0}" using ex_new_if_finite [OF infinite_UNIV_nat fin] by blast
  then have q: "t q = 0" "q \<noteq> p" by simp_all
  have 1: "tags_ok (t(q := i)) a'" and i: "1 \<le> i" "i < 256" "\<forall>r. t r \<noteq> i" using tags_alloc [OF ok few al q(1)] by simp_all
  have "(t(q := i, q := 0)) = t" using q by auto
  then show "tags_ok t (asid_release i a')" using tags_release [OF 1, of q] by simp
  have 2: "tags_ok (t(q := i, p := 0)) (asid_release (t p) a')" using tags_release [OF 1, of p] q by simp
  have r: "(\<exists>r. (t(p := i)) r = n) = (\<exists>r. (t(q := i, p := 0)) r = n)" if "1 \<le> n" for n
  proof -
    have "(\<exists>r. r \<noteq> p \<and> (t(q := i)) r = n) = (i = n \<or> (\<exists>r. r \<noteq> q \<and> r \<noteq> p \<and> t r = n))"
      using q(2) by (metis fun_upd_apply)
    then show ?thesis unfolding tag_range using q(1) that by (metis not_one_le_zero)
  qed
  have uni: "(t(p := i)) x = (t(p := i)) y \<longrightarrow> (t(p := i)) x \<noteq> 0 \<longrightarrow> x = y" for x y
  proof -
    have "t x = t y \<longrightarrow> t x \<noteq> 0 \<longrightarrow> x = y" using ok unfolding tags_ok_def by blast
    then show ?thesis using i by (cases "x = p"; cases "y = p") (simp_all, metis)
  qed
  have "finite {r. (t(p := i)) r \<noteq> 0}" by (rule tags_finite) (use ok in \<open>simp add: tags_ok_def\<close>)
  moreover have "\<forall>r. (t(p := i)) r < 256" using ok i by (simp add: tags_ok_def)
  moreover have "as_used (asid_release (t p) a') ! n = (\<exists>r. (t(p := i)) r = n)" if "1 \<le> n" "n < 256" for n
    unfolding r [OF that(1)] using 2 that unfolding tags_ok_def by blast
  ultimately show "tags_ok (t(p := i)) (asid_release (t p) a')"
    by (intro tags_okI) (use tags_okD [OF 2] uni in blast)+
qed

section \<open>The invariant\<close>

definition tag :: "'f kern \<Rightarrow> pref \<Rightarrow> nat" where
  "tag k p = (case k_heap k p of None \<Rightarrow> 0 | Some x \<Rightarrow> p_asid x)"

text \<open>A process of the registry has a task slot of its own kind.\<close>

definition listed :: "'f kern \<Rightarrow> pref \<Rightarrow> bool" where
  "listed k p \<longleftrightarrow>
    (\<exists>i < MAX_TASKS. p_task (the_proc k p) = Some i \<and> t_state (tasks (k_sched k) ! i) \<noteq> TASK_UNUSED \<and>
       t_kstack (tasks (k_sched k) ! i) = 0)"

text \<open>The processes of the registry have numbers of their own, from those that were handed out.\<close>

definition numbered :: "'f kern \<Rightarrow> bool" where
  "numbered k \<longleftrightarrow> 1 \<le> k_next_pid k \<and> k_next_pid k \<le> INT_MAX \<and>
    (\<forall>p\<in>set (k_list k). 0 < p_pid (the_proc k p) \<and> p_pid (the_proc k p) < k_next_pid k) \<and>
    inj_on (\<lambda>p. p_pid (the_proc k p)) (set (k_list k))"

text \<open>No handler for \<open>SIGCHLD\<close>, no handler running.\<close>

definition calm :: "proc \<Rightarrow> bool" where
  "calm x \<longleftrightarrow> length (p_handlers x) = NSIG \<and> p_handlers x ! SIGCHLD = 0 \<and> \<not> p_in_signal x"

text \<open>\<open>N\<close> are the structures not yet, or no longer, in the registry.\<close>

definition kern_ok :: "pref set \<Rightarrow> 'f kern \<Rightarrow> bool" where
  "kern_ok N k \<longleftrightarrow>
    distinct (k_list k) \<and> dom (k_heap k) = set (k_list k) \<union> N \<and> set (k_list k) \<inter> N = {} \<and>
    (\<forall>p\<in>set (k_list k). listed k p) \<and>
    inj_on (\<lambda>p. p_task (the_proc k p)) (set (k_list k)) \<and> (\<forall>p x. k_heap k p = Some x \<longrightarrow> calm x) \<and>
    length (tasks (k_sched k)) = MAX_TASKS \<and> tags_ok (tag k) (k_asids k)"

text \<open>Numbers wrap. While \<open>m\<close> more can be handed out before they do, they are sound too; a negative
  \<open>m\<close> says nothing about them.\<close>

definition nums_ok :: "int \<Rightarrow> 'f kern \<Rightarrow> bool" where
  "nums_ok m k \<longleftrightarrow> (0 \<le> m \<longrightarrow> numbered k \<and> k_next_pid k + m \<le> INT_MAX)"

definition kern_inv :: "int \<Rightarrow> pref set \<Rightarrow> 'f kern \<Rightarrow> bool" where
  "kern_inv m N k \<longleftrightarrow> kern_ok N k \<and> nums_ok m k"

lemma kern_ok_inv: "kern_ok N k = kern_inv (- 1) N k"
  by (simp add: kern_inv_def nums_ok_def)

lemma kern_invI:
  assumes "distinct (k_list k)" and "dom (k_heap k) = set (k_list k) \<union> N" and "set (k_list k) \<inter> N = {}" and "nums_ok m k"
    and "\<And>p. p \<in> set (k_list k) \<Longrightarrow> listed k p"
    and "inj_on (\<lambda>p. p_task (the_proc k p)) (set (k_list k))" and "\<And>p x. k_heap k p = Some x \<Longrightarrow> calm x"
    and "length (tasks (k_sched k)) = MAX_TASKS" and "tags_ok (tag k) (k_asids k)"
  shows "kern_inv m N k"
  using assms by (simp add: kern_ok_def kern_inv_def)

lemma kern_invD:
  assumes "kern_inv m N k"
  shows "distinct (k_list k)" "dom (k_heap k) = set (k_list k) \<union> N" "set (k_list k) \<inter> N = {}" "nums_ok m k"
    "p \<in> set (k_list k) \<Longrightarrow> listed k p"
    "inj_on (\<lambda>p. p_task (the_proc k p)) (set (k_list k))" "k_heap k p = Some x \<Longrightarrow> calm x"
    "length (tasks (k_sched k)) = MAX_TASKS" "tags_ok (tag k) (k_asids k)"
  using assms by (auto simp: kern_ok_def kern_inv_def)

lemma kern_okI:
  assumes "distinct (k_list k)" and "dom (k_heap k) = set (k_list k) \<union> N" and "set (k_list k) \<inter> N = {}"
    and "\<And>p. p \<in> set (k_list k) \<Longrightarrow> listed k p"
    and "inj_on (\<lambda>p. p_task (the_proc k p)) (set (k_list k))" and "\<And>p x. k_heap k p = Some x \<Longrightarrow> calm x"
    and "length (tasks (k_sched k)) = MAX_TASKS" and "tags_ok (tag k) (k_asids k)"
  shows "kern_ok N k"
  using assms by (simp add: kern_ok_def)

lemma kern_okD:
  assumes "kern_ok N k"
  shows "distinct (k_list k)" "dom (k_heap k) = set (k_list k) \<union> N" "p \<in> set (k_list k) \<Longrightarrow> listed k p"
    "k_heap k p = Some x \<Longrightarrow> calm x" "tags_ok (tag k) (k_asids k)"
  using assms by (auto simp: kern_ok_def)

lemma nums_same:
  assumes "nums_ok m k" and "k_next_pid k' = k_next_pid k" and "set (k_list k') \<subseteq> set (k_list k)"
    and "\<And>p. p \<in> set (k_list k') \<Longrightarrow> p_pid (the_proc k' p) = p_pid (the_proc k p)"
  shows "nums_ok m k'"
proof -
  have "inj_on (\<lambda>p. p_pid (the_proc k' p)) (set (k_list k'))" if "inj_on (\<lambda>p. p_pid (the_proc k p)) (set (k_list k))"
    using inj_on_subset [OF that assms(3)] assms(4) by (simp add: inj_on_def)
  then show ?thesis using assms by (auto simp: nums_ok_def numbered_def)
qed

lemma listed_task: "listed k p \<Longrightarrow> p_task (the_proc k p) \<in> Some ` {..<MAX_TASKS}"
  by (auto simp: listed_def)

lemma few_tags:
  assumes ok: "kern_inv m N k" and N: "finite N" "card N \<le> 1"
  shows "card {p. tag k p \<noteq> 0} < 255"
proof -
  have sub: "(\<lambda>p. p_task (the_proc k p)) ` set (k_list k) \<subseteq> Some ` {..<MAX_TASKS}"
    using kern_invD(5) [OF ok] listed_task by blast
  have "card (Some ` {..<MAX_TASKS}) = MAX_TASKS" by (simp add: card_image)
  then have "card (set (k_list k)) \<le> MAX_TASKS"
    using card_inj_on_le [OF kern_invD(6) [OF ok] sub] by simp
  then have "card (set (k_list k) \<union> N) \<le> MAX_TASKS + 1" using card_Un_le [of "set (k_list k)" N] N by linarith
  moreover have "{p. tag k p \<noteq> 0} \<subseteq> set (k_list k) \<union> N"
    using kern_invD(2) [OF ok] by (auto simp: tag_def dom_def split: option.splits)
  then have "card {p. tag k p \<noteq> 0} \<le> card (set (k_list k) \<union> N)" using N by (intro card_mono) auto
  ultimately show ?thesis by simp
qed

lemma quiet_same:
  assumes "quiet k k'"
  shows "proc_view (the_proc k' p) = proc_view (the_proc k p)" and "tag k' = tag k" and "dom (k_heap k') = dom (k_heap k)"
proof -
  have v: "map_option proc_view (k_heap k' p) = map_option proc_view (k_heap k p)" for p using assms by (simp add: quiet_def)
  show "proc_view (the_proc k' p) = proc_view (the_proc k p)"
    using v [of p] by (cases "k_heap k p"; cases "k_heap k' p") (simp_all add: the_proc_def)
  show "tag k' = tag k"
  proof
    fix p show "tag k' p = tag k p"
      using v [of p] by (cases "k_heap k p"; cases "k_heap k' p") (simp_all add: tag_def proc_view_def)
  qed
  show "dom (k_heap k') = dom (k_heap k)" unfolding dom_def using v by (metis map_option_is_None)
qed

lemma calm_view: "proc_view x = proc_view y \<Longrightarrow> calm x = calm y"
  by (simp add: proc_view_def calm_def)

lemma quiet_ok:
  assumes q: "quiet k k'" and ok: "kern_inv m N k"
  shows "kern_inv m N k'"
proof -
  have same: "p_pid (the_proc k' p) = p_pid (the_proc k p)" "p_task (the_proc k' p) = p_task (the_proc k p)" for p
    using quiet_same(1) [OF q, of p] by (simp_all add: proc_view_def)
  have l: "k_list k' = k_list k" "k_next_pid k' = k_next_pid k" "k_asids k' = k_asids k" "slots_kept (k_sched k) (k_sched k')"
    using q by (simp_all add: quiet_def)
  show ?thesis
  proof (rule kern_invI)
    fix p assume "p \<in> set (k_list k')"
    then have "listed k p" using kern_invD(5) [OF ok] l(1) by simp
    then show "listed k' p" using same l kern_invD(8) [OF ok] by (auto simp: listed_def slots_kept_def)
  next
    fix p x assume x: "k_heap k' p = Some x"
    then obtain y where "k_heap k p = Some y" "proc_view x = proc_view y"
      using q unfolding quiet_def by (metis map_option_eq_Some option.simps(9))
    then show "calm x" using kern_invD(7) [OF ok] calm_view by blast
  next
    show "nums_ok m k'" by (rule nums_same [OF kern_invD(4) [OF ok]]) (simp_all add: same l)
  qed (use kern_invD [OF ok] quiet_same [OF q] same l in \<open>simp_all add: slots_kept_def\<close>)
qed

lemma tag_none: "k_heap k p = None \<Longrightarrow> tag k p = 0"
  by (simp add: tag_def)

lemma tag_updates:
  "tag (k\<lparr>k_phys := a\<rparr>) = tag k" "tag (k\<lparr>k_asids := b\<rparr>) = tag k" "tag (k\<lparr>k_files := c\<rparr>) = tag k" "tag (k\<lparr>k_seed := d\<rparr>) = tag k"
  "tag (k\<lparr>k_next_pid := e\<rparr>) = tag k" "tag (k\<lparr>k_list := f\<rparr>) = tag k" "tag (set_sched s k) = tag k"
  by (rule ext, simp add: tag_def kern_simps)+

text \<open>The changes that are not quiet, one by one.\<close>

lemma sched_ok:
  assumes ok: "kern_inv m N k" and len: "length (tasks s) = MAX_TASKS"
    and keep: "\<And>p i. p \<in> set (k_list k) \<Longrightarrow> p_task (the_proc k p) = Some i \<Longrightarrow> i < MAX_TASKS \<Longrightarrow>
      t_state (tasks (k_sched k) ! i) \<noteq> TASK_UNUSED \<Longrightarrow> t_kstack (tasks (k_sched k) ! i) = 0 \<Longrightarrow>
      t_state (tasks s ! i) \<noteq> TASK_UNUSED \<and> t_kstack (tasks s ! i) = 0"
  shows "kern_inv m N (set_sched s k)"
proof (rule kern_invI)
  fix p assume p: "p \<in> set (k_list (set_sched s k))"
  then have "listed k p" using kern_invD(5) [OF ok] by (simp add: kern_simps)
  then show "listed (set_sched s k) p"
    using keep [of p] p by (auto simp: listed_def the_proc_def kern_simps)
next
  fix p x assume "k_heap (set_sched s k) p = Some x"
  then show "calm x" using kern_invD(7) [OF ok] by (simp add: kern_simps)
next
  have "tag (set_sched s k) = tag k" by (rule ext) (simp add: tag_def kern_simps)
  then show "tags_ok (tag (set_sched s k)) (k_asids (set_sched s k))" using kern_invD(9) [OF ok] by (simp add: kern_simps)
next
  show "nums_ok m (set_sched s k)" by (rule nums_same [OF kern_invD(4) [OF ok]]) (simp_all add: kern_simps the_proc_def)
qed (use kern_invD [OF ok] len in \<open>simp_all add: kern_simps the_proc_def\<close>)

lemma asid_ok:
  assumes ok: "kern_inv m N k" and a: "tags_ok ((tag k)(p := i)) a" and p: "k_heap k p \<noteq> None"
    and f: "\<And>x. p_pid (f x) = p_pid x \<and> p_task (f x) = p_task x \<and> p_asid (f x) = i \<and> (calm x \<longrightarrow> calm (f x))"
  shows "kern_inv m N (upd_proc p f (k\<lparr>k_asids := a\<rparr>))"
proof -
  let ?k = "upd_proc p f (k\<lparr>k_asids := a\<rparr>)"
  have same: "p_pid (the_proc ?k q) = p_pid (the_proc k q)" "p_task (the_proc ?k q) = p_task (the_proc k q)" for q
    using f p by (auto simp: the_proc_def kern_simps)
  have tag: "tag ?k = (tag k)(p := i)" by (rule ext) (use f p in \<open>auto simp: tag_def kern_simps\<close>)
  show ?thesis
  proof (rule kern_invI)
    fix q assume "q \<in> set (k_list ?k)"
    then show "listed ?k q" using kern_invD(5) [OF ok, of q] same by (simp add: listed_def kern_simps)
  next
    fix q x assume "k_heap ?k q = Some x"
    then show "calm x" using kern_invD(7) [OF ok] f by (auto simp: kern_simps split: if_splits)
  next
    show "dom (k_heap ?k) = set (k_list ?k) \<union> N" using kern_invD(2) [OF ok] p by (auto simp: kern_simps)
  next
    show "nums_ok m ?k" by (rule nums_same [OF kern_invD(4) [OF ok]]) (simp_all add: same, simp_all add: kern_simps)
  qed (use kern_invD [OF ok] same a tag in \<open>simp_all add: kern_simps\<close>)
qed

lemma asids_ok:
  assumes ok: "kern_inv m N k" and a: "tags_ok (tag k) a"
  shows "kern_inv m N (k\<lparr>k_asids := a\<rparr>)"
proof (rule kern_invI)
  fix p assume "p \<in> set (k_list (k\<lparr>k_asids := a\<rparr>))"
  then show "listed (k\<lparr>k_asids := a\<rparr>) p" using kern_invD(5) [OF ok, of p] by (simp add: listed_def the_proc_def kern_simps)
next
  show "nums_ok m (k\<lparr>k_asids := a\<rparr>)" by (rule nums_same [OF kern_invD(4) [OF ok]]) (simp_all add: the_proc_def)
qed (use kern_invD [OF ok] a in \<open>simp_all add: kern_simps the_proc_def tag_updates\<close>)

lemma space_destroy_ok: "kern_inv m N k \<Longrightarrow> k_heap k p \<noteq> None \<Longrightarrow> kern_inv m N (space_destroy p k)"
proof -
  assume ok: "kern_inv m N k" and p: "k_heap k p \<noteq> None"
  have t: "tag k p = p_asid (the_proc k p)" using p by (auto simp: tag_def the_proc_def)
  define st where "st = (if p_root (the_proc k p) \<noteq> 0
    then vmm_root_free (p_root (the_proc k p)) (vmm_root_release (p_root (the_proc k p)) USER_L0_LO USER_L0_HI (k_phys k)) else k_phys k)"
  have ok1: "kern_inv m N (k\<lparr>k_phys := st\<rparr>)" by (rule quiet_ok [OF _ ok]) simp
  have "tags_ok ((tag k)(p := 0)) (asid_release (tag k p) (k_asids k))" by (rule tags_release) (rule kern_invD(9) [OF ok])
  then have "kern_inv m N (upd_proc p (\<lambda>x. x\<lparr>p_root := 0, p_asid := 0\<rparr>) (k\<lparr>k_phys := st, k_asids := asid_release (p_asid (the_proc k p)) (k_asids k)\<rparr>))"
    using asid_ok [OF ok1, of p 0 "asid_release (tag k p) (k_asids k)" "\<lambda>x. x\<lparr>p_root := 0, p_asid := 0\<rparr>"] p t
    by (simp add: tag_updates calm_def del: fun_upd_apply)
  then show ?thesis by (simp add: space_destroy_def st_def Let_def)
qed

lemma space_destroy_tag: "tag (space_destroy p k) p = 0"
  by (cases "k_heap k p") (simp_all add: tag_def space_destroy_def Let_def kern_simps)

lemma heap_drop_ok:
  assumes ok: "kern_inv m {p} k" and t: "tag k p = 0"
  shows "kern_inv m {} (k\<lparr>k_heap := (k_heap k)(p := None)\<rparr>)"
proof -
  let ?k = "k\<lparr>k_heap := (k_heap k)(p := None)\<rparr>"
  have p: "p \<notin> set (k_list k)" using kern_invD(3) [OF ok] by simp
  have same: "the_proc ?k q = the_proc k q" if "q \<in> set (k_list k)" for q using p that by (auto simp: the_proc_def)
  have tg: "tag ?k = tag k" by (rule ext) (use t in \<open>auto simp: tag_def\<close>)
  show ?thesis
  proof (rule kern_invI)
    fix q assume "q \<in> set (k_list ?k)"
    then show "listed ?k q" using kern_invD(5) [OF ok, of q] same by (simp add: listed_def kern_simps)
  next
    show "dom (k_heap ?k) = set (k_list ?k) \<union> {}" using kern_invD(2,3) [OF ok] by auto
  next
    show "nums_ok m ?k" by (rule nums_same [OF kern_invD(4) [OF ok]]) (simp_all add: same)
  next
    show "inj_on (\<lambda>q. p_task (the_proc ?k q)) (set (k_list ?k))"
      using kern_invD(6) [OF ok] same by (simp add: inj_on_def)
  qed (use kern_invD [OF ok] tg in \<open>auto simp: kern_simps split: if_splits\<close>)
qed

lemma proc_discard_ok: "kern_inv m {p} k \<Longrightarrow> kern_inv m {} (proc_discard p k)"
  unfolding proc_discard_def Let_def
  by (intro heap_drop_ok space_destroy_ok space_destroy_tag) (use kern_invD(2) in blast)+

lemma registry_del_ok: "kern_inv m {} k \<Longrightarrow> p \<in> set (k_list k) \<Longrightarrow> kern_inv m {p} (registry_del p k)"
proof -
  assume ok: "kern_inv m {} k" and p: "p \<in> set (k_list k)"
  have set: "set (remove1 p (k_list k)) = set (k_list k) - {p}" using kern_invD(1) [OF ok] by (rule set_remove1_eq)
  have tg: "tag (registry_del p k) = tag k" by (rule ext) (simp add: tag_def registry_del_def)
  show "kern_inv m {p} (registry_del p k)"
  proof (rule kern_invI)
    fix q assume "q \<in> set (k_list (registry_del p k))"
    then show "listed (registry_del p k) q"
      using kern_invD(5) [OF ok, of q] set by (simp add: listed_def registry_del_def the_proc_def kern_simps)
  next
    show "nums_ok m (registry_del p k)" by (rule nums_same [OF kern_invD(4) [OF ok]]) (simp_all add: registry_del_def the_proc_def set_remove1_subset)
  qed (use kern_invD [OF ok] p set tg in \<open>auto simp: registry_del_def the_proc_def kern_simps distinct_remove1 intro: inj_on_subset\<close>)
qed

lemma free_slot_ok:
  assumes ok: "kern_inv m N k" and no: "\<And>q. q \<in> set (k_list k) \<Longrightarrow> p_task (the_proc k q) \<noteq> sl"
  shows "kern_inv m N (free_slot sl k)"
proof (cases sl)
  case (Some i)
  have "kern_inv m N (set_sched (upd_task i (\<lambda>t. t\<lparr>t_state := TASK_UNUSED, t_fn := 0, t_arg := 0\<rparr>) (k_sched k)) k)"
    by (rule sched_ok [OF ok]) (use kern_invD(8) [OF ok] no Some in \<open>auto simp: upd_task_def nth_list_update_if\<close>)
  then show ?thesis using Some ok by (auto simp: free_slot_def intro: quiet_ok [OF quiet_updates(4)])
qed (simp add: free_slot_def ok)

section \<open>Spawn, fork and exec\<close>

text \<open>A new structure that has its number but is not listed yet.\<close>

definition flight :: "int \<Rightarrow> pref \<Rightarrow> 'f kern \<Rightarrow> bool" where
  "flight m p k \<longleftrightarrow> kern_inv m {p} k \<and> (0 \<le> m \<longrightarrow> 0 < p_pid (the_proc k p) \<and> p_pid (the_proc k p) < k_next_pid k \<and>
    (\<forall>q\<in>set (k_list k). p_pid (the_proc k q) < p_pid (the_proc k p)))"

lemma flight_ok: "flight m p k \<Longrightarrow> kern_inv m {p} k"
  by (simp add: flight_def)

lemma quiet_flight: "quiet k k' \<Longrightarrow> flight m p k \<Longrightarrow> flight m p k'"
proof -
  assume q: "quiet k k'" and f: "flight m p k"
  have "p_pid (the_proc k' r) = p_pid (the_proc k r)" for r using quiet_same(1) [OF q, of r] by (simp add: proc_view_def)
  then show ?thesis using q f quiet_ok [OF q] by (simp add: flight_def quiet_def)
qed

lemma calm_zero: "calm (zero_proc\<lparr>p_kstack := a, p_root := b, p_asid := c, p_asid_gen := d\<rparr>)"
  by (simp add: calm_def zero_proc_def)

lemma proc_blank_ok:
  assumes ok: "kern_inv m {} k" and new: "\<And>p. hg_proc g = Some p \<Longrightarrow> k_heap k p = None"
    and run: "proc_blank kt g k = ((r, p), k1)"
  shows "if r = 0 then kern_inv m {p} k1 \<and> hg_proc g = Some p else kern_inv m {} k1"
proof (cases "r = 0")
  case False
  then show ?thesis using ok run
    by (auto simp: proc_blank_def split: option.splits if_splits prod.splits intro: quiet_ok [OF quiet_updates(7)])
next
  case True
  then obtain root st a gen as where s: "hg_proc g = Some p" "asid_alloc (k_asids k) = ((a, gen), as)"
    "k1 = k\<lparr>k_phys := st, k_asids := as,
       k_heap := (k_heap k)(p \<mapsto> zero_proc\<lparr>p_kstack := hg_kstack g, p_root := root, p_asid := a, p_asid_gen := gen\<rparr>)\<rparr>"
    using run by (auto simp: proc_blank_def split: option.splits if_splits prod.splits)
  have p: "k_heap k p = None" "p \<notin> set (k_list k)" using new [OF s(1)] kern_invD(2) [OF ok] by auto
  have al: "tags_ok ((tag k)(p := a)) as"
    using tags_alloc [OF kern_invD(9) [OF ok] few_tags [OF ok] s(2) tag_none [OF p(1)]] by simp
  have tg: "tag k1 = (tag k)(p := a)" by (rule ext) (simp add: tag_def s(3))
  have same: "q \<noteq> p \<Longrightarrow> the_proc k1 q = the_proc k q" for q by (simp add: the_proc_def s(3))
  have "kern_inv m {p} k1"
  proof (rule kern_invI)
    fix q assume q: "q \<in> set (k_list k1)"
    then have "listed k q" "q \<noteq> p" using kern_invD(5) [OF ok, of q] p(2) by (auto simp: s(3))
    then show "listed k1 q" by (simp add: listed_def same) (simp add: s(3) kern_simps)
  next
    fix q x assume "k_heap k1 q = Some x"
    then show "calm x" using kern_invD(7) [OF ok] calm_zero by (auto simp: s(3) split: if_splits)
  next
    have "p_pid (the_proc k1 q) = p_pid (the_proc k q)" if "q \<in> set (k_list k)" for q
      using same [of q] that p(2) by (cases "q = p") simp_all
    moreover have "k_next_pid k1 = k_next_pid k" "k_list k1 = k_list k" by (simp_all add: s(3))
    ultimately show "nums_ok m k1" by (intro nums_same [OF kern_invD(4) [OF ok]]) simp_all
  next
    show "inj_on (\<lambda>q. p_task (the_proc k1 q)) (set (k_list k1))"
      using kern_invD(6) [OF ok] same p(2) by (simp add: s(3) inj_on_def) (metis same)
  qed (use kern_invD [OF ok] p tg al in \<open>auto simp: s(3) kern_simps\<close>)
  then show ?thesis using True s(1) by simp
qed

text \<open>The fields a new process gets, its number among them.\<close>

lemma int_succ: "0 \<le> n \<Longrightarrow> n < INT_MAX \<Longrightarrow> int_succ n = n + 1"
  by (simp add: int_succ_def)

lemma number_flight:
  assumes ok: "kern_inv m {p} k" and run: "pid_alloc k = (pid, k1)"
    and f: "\<And>x. p_pid (f x) = pid \<and> p_asid (f x) = p_asid x \<and> (calm x \<longrightarrow> calm (f x))"
  shows "flight (m - 1) p (upd_proc p f k1)"
proof -
  let ?k = "upd_proc p f k1"
  have k1: "pid = k_next_pid k" "k1 = k\<lparr>k_next_pid := int_succ (k_next_pid k)\<rparr>" using run by (auto simp: pid_alloc_def)
  obtain x where x: "k_heap k p = Some x" using kern_invD(2) [OF ok] by blast
  have p: "p \<notin> set (k_list k)" using kern_invD(3) [OF ok] by simp
  have same: "the_proc ?k q = the_proc k q" if "q \<noteq> p" for q using that by (simp add: the_proc_def kern_simps k1)
  have pid: "p_pid (the_proc ?k p) = k_next_pid k" using f x k1 by (simp add: the_proc_def kern_simps)
  have tg: "tag ?k = tag k" by (rule ext) (use f in \<open>auto simp: tag_def kern_simps k1 split: option.splits\<close>)
  have lst: "listed ?k q" "q \<noteq> p" if "q \<in> set (k_list k)" for q
  proof -
    show "q \<noteq> p" using that p by blast
    then show "listed ?k q" using kern_invD(5) [OF ok that] by (simp add: listed_def same) (simp add: kern_simps k1)
  qed
  have nums: "numbered k" "1 \<le> k_next_pid k" "k_next_pid ?k = k_next_pid k + 1" "k_next_pid k + 1 + (m - 1) \<le> INT_MAX" if "0 \<le> m - 1"
    using kern_invD(4) [OF ok] that int_succ [of "k_next_pid k"] by (simp_all add: nums_ok_def numbered_def kern_simps k1)
  have "kern_inv (m - 1) {p} ?k"
  proof (rule kern_invI)
    fix q x assume "k_heap ?k q = Some x"
    then show "calm x" using kern_invD(7) [OF ok] f by (auto simp: kern_simps k1 split: if_splits)
  next
    have same_list: "p_pid (the_proc ?k q) = p_pid (the_proc k q)" if "q \<in> set (k_list k)" for q using same lst(2) [OF that] by simp
    have "numbered ?k" if m: "0 \<le> m - 1"
    proof -
      have "inj_on (\<lambda>q. p_pid (the_proc ?k q)) (set (k_list k)) = inj_on (\<lambda>q. p_pid (the_proc k q)) (set (k_list k))"
        by (rule inj_on_cong) (rule same_list)
      moreover have "1 \<le> k_next_pid ?k" "k_next_pid ?k \<le> INT_MAX" using nums [OF m] m by simp_all
      moreover have "p_pid (the_proc k q) < k_next_pid ?k" "0 < p_pid (the_proc k q)" if "q \<in> set (k_list k)" for q
        using nums(1,3) [OF m] that by (auto simp: numbered_def)
      moreover have "k_list ?k = k_list k" by (simp add: kern_simps k1)
      ultimately show ?thesis using nums(1) [OF m] same_list by (simp add: numbered_def)
    qed
    then show "nums_ok (m - 1) ?k" using nums by (simp add: nums_ok_def)
  next
    show "inj_on (\<lambda>q. p_task (the_proc ?k q)) (set (k_list ?k))"
      using kern_invD(6) [OF ok] same lst(2) by (simp add: kern_simps k1 inj_on_def)
  qed (use kern_invD [OF ok] x lst(1) tg in \<open>auto simp: kern_simps k1\<close>)
  moreover have "p_pid (the_proc ?k q) < p_pid (the_proc ?k p)" if "0 \<le> m - 1" "q \<in> set (k_list ?k)" for q
    using that nums(1) lst(2) [of q] same pid by (simp add: numbered_def kern_simps k1)
  ultimately show ?thesis using pid nums(2,3) by (auto simp: flight_def)
qed

lemma deferred_slot:
  assumes "task_create_deferred nm body arg prio s = (sl, s')" and "0 \<le> sl"
  shows "nat sl < length (tasks s)" "t_state (tasks s ! nat sl) = TASK_UNUSED"
    "length (tasks s') = length (tasks s)" "\<And>i. i \<noteq> nat sl \<Longrightarrow> tasks s' ! i = tasks s ! i"
    "t_state (tasks s' ! nat sl) = TASK_BLOCKED" "t_kstack (tasks s' ! nat sl) = 0"
proof -
  obtain i where i: "alloc_task s = Some i" "sl = int i"
    "s' = upd_task i (\<lambda>t. t\<lparr>t_state := TASK_BLOCKED, t_parked := False, t_kstack := 0\<rparr>) (task_prime i nm body arg prio s)"
    using assms by (auto simp: task_create_deferred_def split: if_splits option.splits)
  then have "i < length (tasks s)" "t_state (tasks s ! i) = TASK_UNUSED"
    by (auto simp: alloc_task_def find_Some_iff task_at_def)
  then show "nat sl < length (tasks s)" "t_state (tasks s ! nat sl) = TASK_UNUSED"
    "length (tasks s') = length (tasks s)" "\<And>j. j \<noteq> nat sl \<Longrightarrow> tasks s' ! j = tasks s ! j"
    "t_state (tasks s' ! nat sl) = TASK_BLOCKED" "t_kstack (tasks s' ! nat sl) = 0"
    using i by (simp_all add: upd_task_def task_prime_def task_next_key_def Let_def)
qed

lemma deferred_full: "task_create_deferred nm body arg prio s = (sl, s') \<Longrightarrow> sl < 0 \<Longrightarrow> s' = s"
  by (auto simp: task_create_deferred_def split: if_splits option.splits)

lemma proc_launch_ok:
  assumes fl: "flight m p k" and run: "proc_launch body p k = Some (r, k')"
  shows "case r of None \<Rightarrow> quiet k k' | Some pid \<Rightarrow> kern_inv m {} k' \<and> pid = p_pid (the_proc k p) \<and> k_list k' = p # k_list k"
proof -
  note ok = flight_ok [OF fl]
  obtain sl s where s: "task_create_deferred (p_name (the_proc k p)) body (of_nat p) PROC_PRIO (k_sched k) = (sl, s)" by fastforce
  show ?thesis
  proof (cases "sl < 0")
    case True
    then have "k' = set_sched (k_sched k) k" "r = None" using run s deferred_full [OF s True] by (simp_all add: proc_launch_def)
    then show ?thesis using quiet_set_sched [of k "k_sched k"] by simp
  next
    case False
    define i where "i = nat sl"
    note d = deferred_slot [OF s, folded i_def]
    obtain s1 where s1: "task_launch sl s = Some s1" "r = Some (p_pid (the_proc k p))"
      "k' = set_sched s1 (registry_add p (upd_proc p (\<lambda>x. x\<lparr>p_task := Some i\<rparr>) k))"
      using run s False by (auto simp: proc_launch_def i_def)
    have i: "i < MAX_TASKS" "s1 = make_ready i s" using s1(1) False by (auto simp: task_launch_def i_def split: if_splits)
    have d: "i < length (tasks (k_sched k))" "t_state (tasks (k_sched k) ! i) = TASK_UNUSED" "length (tasks s) = length (tasks (k_sched k))"
      "\<And>j. j \<noteq> i \<Longrightarrow> tasks s ! j = tasks (k_sched k) ! j" "t_kstack (tasks s ! i) = 0"
      using d False by simp_all
    have t1: "tasks s1 ! j = tasks (k_sched k) ! j" if "j \<noteq> i" for j using that d(4) i(2) by (simp add: make_ready_tasks)
    have t2: "t_state (tasks s1 ! i) = TASK_READY" "t_kstack (tasks s1 ! i) = 0" using d i(2) by (simp_all add: make_ready_tasks)
    obtain x where x: "k_heap k p = Some x" using kern_invD(2) [OF ok] by blast
    have p: "p \<notin> set (k_list k)" using kern_invD(3) [OF ok] by simp
    have same: "the_proc k' q = the_proc k q" if "q \<noteq> p" for q using that s1(3) by (simp add: the_proc_def kern_simps registry_add_def)
    have new: "the_proc k' p = (the_proc k p)\<lparr>p_task := Some i\<rparr>" using x s1(3) by (simp add: the_proc_def kern_simps registry_add_def)
    have lst: "listed k' q" "p_task (the_proc k q) \<noteq> Some i" "q \<noteq> p" if q: "q \<in> set (k_list k)" for q
    proof -
      show qp: "q \<noteq> p" using q p by blast
      obtain j where j: "p_task (the_proc k q) = Some j" "j < MAX_TASKS" "t_state (tasks (k_sched k) ! j) \<noteq> TASK_UNUSED"
        "t_kstack (tasks (k_sched k) ! j) = 0"
        using kern_invD(5) [OF ok q] by (auto simp: listed_def)
      have "j \<noteq> i" using j(3) d(2) by auto
      then show "p_task (the_proc k q) \<noteq> Some i" using j by simp
      have "tasks s1 ! j = tasks (k_sched k) ! j" using t1 \<open>j \<noteq> i\<close> by simp
      then show "listed k' q" unfolding listed_def same [OF qp]
        using j by (simp add: s1(3) kern_simps registry_add_def)
    qed
    have "kern_inv m {} k'"
    proof (rule kern_invI)
      fix q assume "q \<in> set (k_list k')"
      then consider "q = p" | "q \<in> set (k_list k)" by (auto simp: s1(3) kern_simps registry_add_def)
      then show "listed k' q"
      proof cases
        case 1
        then show ?thesis using i(1) t2 unfolding listed_def 1 new by (simp add: s1(3) kern_simps registry_add_def)
      qed (rule lst(1))
    next
      fix q x assume "k_heap k' q = Some x"
      then show "calm x" using kern_invD(7) [OF ok] by (auto simp: s1(3) kern_simps registry_add_def calm_def split: if_splits)
    next
      have e: "inj_on (\<lambda>q. p_pid (the_proc k' q)) (set (k_list k)) = inj_on (\<lambda>q. p_pid (the_proc k q)) (set (k_list k))"
        using same lst(3) by (intro inj_on_cong) simp
      have l: "k_list k' = p # k_list k" "k_next_pid k' = k_next_pid k" by (simp_all add: s1(3) kern_simps registry_add_def)
      have "numbered k'" if "0 \<le> m"
        using that kern_invD(4) [OF ok] fl e same lst(3) by (auto simp: nums_ok_def numbered_def flight_def l new)
      then show "nums_ok m k'" using kern_invD(4) [OF ok] by (simp add: nums_ok_def l)
    next
      have "inj_on (\<lambda>q. p_task (the_proc k' q)) (set (k_list k)) = inj_on (\<lambda>q. p_task (the_proc k q)) (set (k_list k))"
        using same lst(3) by (intro inj_on_cong) simp
      moreover have "Some i \<notin> (\<lambda>q. p_task (the_proc k' q)) ` (set (k_list k) - {p})"
      proof
        assume "Some i \<in> (\<lambda>q. p_task (the_proc k' q)) ` (set (k_list k) - {p})"
        then obtain q where "Some i = p_task (the_proc k' q)" "q \<in> set (k_list k) - {p}" by (rule imageE)
        then show False using lst(2) [of q] same [of q] by simp
      qed
      moreover have "k_list k' = p # k_list k" by (simp add: s1(3) kern_simps registry_add_def)
      ultimately show "inj_on (\<lambda>q. p_task (the_proc k' q)) (set (k_list k'))"
        using kern_invD(6) [OF ok] by (simp add: new)
    next
      have "tag k' = tag k" by (rule ext) (use x in \<open>simp add: s1(3) tag_def kern_simps registry_add_def\<close>)
      then show "tags_ok (tag k') (k_asids k')" using kern_invD(9) [OF ok] by (simp add: s1(3) kern_simps registry_add_def)
    qed (use kern_invD [OF ok] p x i(2) d(3) in \<open>auto simp: s1(3) kern_simps registry_add_def make_ready_tasks\<close>)
    then show ?thesis using s1(2,3) by (simp add: kern_simps registry_add_def)
  qed
qed

lemma less: "kern_inv m N k \<Longrightarrow> kern_inv (m - 1) N k"
  by (auto simp: kern_inv_def nums_ok_def)

lemma spawn_ok:
  assumes ok: "kern_inv m {} k" and new: "\<And>p. hg_proc g = Some p \<Longrightarrow> k_heap k p = None"
    and run: "proc_spawn kt images H g c img argv envp k = Some (r, k')"
  shows "kern_inv (m - 1) {} k'"
proof (cases "images img")
  case (Some bytes)
  obtain r1 p k1 where b: "proc_blank kt g k = ((r1, p), k1)" by (metis surj_pair)
  note bl = proc_blank_ok [OF ok new b]
  show ?thesis
  proof (cases "r1 = 0")
    case False
    then show ?thesis using run Some b bl less by (simp add: proc_spawn_def)
  next
    case True
    then have k1: "kern_inv m {p} k1" using bl by simp
    obtain r2 res st where l: "load_image bytes (p_root (the_proc k1 p)) argv envp (k_phys k1) = Some (r2, res, st)"
      using run Some b True by (auto simp: proc_spawn_def split: option.splits)
    define k2 where "k2 = k1\<lparr>k_phys := st\<rparr>"
    have k2: "kern_inv m {p} k2" unfolding k2_def by (rule quiet_ok [OF _ k1]) simp
    show ?thesis
    proof (cases "r2 = 0")
      case False
      then show ?thesis using run Some b True l less [OF proc_discard_ok [OF k2]] by (simp add: proc_spawn_def k2_def)
    next
      case r2: True
      obtain base k3 where k3e: "kaslr_mmap_base k2 = (base, k3)" by fastforce
      have k3: "kern_inv m {p} k3"
        using k3e by (auto simp: kaslr_mmap_base_def Let_def intro: quiet_ok [OF _ k2])
      obtain pid k4 where k4: "pid_alloc k3 = (pid, k4)" by fastforce
      obtain tf brk where res: "the res = (tf, brk)" by fastforce
      define k5 where "k5 = upd_proc p (\<lambda>x. x\<lparr>p_brk := brk, p_brk_floor := brk, p_mmap_next := base, p_pid := pid, p_alive := True,
        p_parent := proc_current c k, p_entry := tf, p_name := take (PROC_NAME_MAX - 1) img\<rparr>) k4"
      have k5: "flight (m - 1) p k5" unfolding k5_def by (rule number_flight [OF k3 k4]) (simp add: calm_def)
      obtain r3 fs where fh: "fh_init H p (k_files k5) = Some (r3, fs)"
        using run Some b True l r2 k3e k4 res by (auto simp: proc_spawn_def k2_def k5_def Let_def split: option.splits)
      define k6 where "k6 = k5\<lparr>k_files := fs\<rparr>"
      have k6: "flight (m - 1) p k6" unfolding k6_def by (rule quiet_flight [OF _ k5]) simp
      show ?thesis
      proof (cases "r3 = 0")
        case False
        then show ?thesis using run Some b True l r2 k3e k4 res fh proc_discard_ok [OF flight_ok [OF k6]]
          by (simp add: proc_spawn_def k2_def k5_def k6_def Let_def)
      next
        case r3: True
        have step: "Some (r, k') = (case proc_launch PROC_TASK_BODY p k6 of None \<Rightarrow> None
            | Some (None, k7) \<Rightarrow> map_option (\<lambda>fs. (- EAGAIN, proc_discard p (k7\<lparr>k_files := fs\<rparr>))) (fh_release H p (k_files k7))
            | Some (Some r, k7) \<Rightarrow> Some (r, k7))"
          using run Some b True l r2 k3e k4 res fh r3 by (simp add: proc_spawn_def k2_def k5_def k6_def Let_def)
        then obtain r4 k7 where k7: "proc_launch PROC_TASK_BODY p k6 = Some (r4, k7)" by (auto split: option.splits)
        note la = proc_launch_ok [OF k6 k7]
        show ?thesis
        proof (cases r4)
          case None
          then obtain fs2 where "k' = proc_discard p (k7\<lparr>k_files := fs2\<rparr>)" 
            using step k7 by (cases "fh_release H p (k_files k7)") auto
          moreover have "kern_inv (m - 1) {p} (k7\<lparr>k_files := fs2\<rparr>)"
            by (rule quiet_ok [OF _ flight_ok [OF k6]]) (use la None in \<open>auto intro: quiet_trans\<close>)
          ultimately show ?thesis using proc_discard_ok by simp
        next
          case (Some pid)
          then show ?thesis using step k7 la by simp
        qed
      qed
    qed
  qed
qed (use less [OF ok] run in \<open>simp add: proc_spawn_def\<close>)

lemma fork_keeps:
  assumes ok: "kern_inv m {} k" and new: "\<And>p. hg_proc g = Some p \<Longrightarrow> k_heap k p = None"
    and run: "proc_do_fork kt H g c tf k = Some (r, k')"
  shows "kern_inv (m - 1) {} k'"
proof -
  obtain q where q: "proc_current c k = Some q" using run by (auto simp: proc_do_fork_def split: option.splits)
  obtain r1 p k1 where b: "proc_blank kt g k = ((r1, p), k1)" by (metis surj_pair)
  note bl = proc_blank_ok [OF ok new b]
  show ?thesis
  proof (cases "r1 = 0")
    case False
    then show ?thesis using run q b bl less by (simp add: proc_do_fork_def)
  next
    case True
    then have k1: "kern_inv m {p} k1" using bl by simp
    have par: "k_heap k1 q \<noteq> None"
    proof
      assume "k_heap k1 q = None"
      then show False using run q b True by (simp add: proc_do_fork_def)
    qed
    obtain r2 st where cp: "vmm_copy_space (p_root (the_proc k1 p)) (p_root (the_proc k1 q)) USER_L0_LO USER_L0_HI (k_phys k1) = (r2, st)"
      by fastforce
    define k2 where "k2 = k1\<lparr>k_phys := st\<rparr>"
    have k2: "kern_inv m {p} k2" unfolding k2_def by (rule quiet_ok [OF _ k1]) simp
    show ?thesis
    proof (cases "r2 = 0")
      case False
      then show ?thesis using run q b True par cp less [OF proc_discard_ok [OF k2]] by (simp add: proc_do_fork_def k2_def)
    next
      case r2: True
      obtain pid k3 where k3: "pid_alloc k2 = (pid, k3)" by fastforce
      have old: "k_heap k3 q \<noteq> None"
        using par k3 by (auto simp: pid_alloc_def k2_def)
      define y where "y = the_proc k3 q"
      have y: "calm y"
      proof -
        have "k_heap k2 q \<noteq> None" using old k3 by (auto simp: pid_alloc_def)
        then show ?thesis using kern_invD(7) [OF k2, of q] k3 by (auto simp: y_def the_proc_def pid_alloc_def)
      qed
      define f :: "proc \<Rightarrow> proc" where "f = (\<lambda>x. x\<lparr>p_pid := pid, p_alive := True, p_parent := Some q, p_name := p_name y,
        p_handlers := p_handlers y, p_brk := p_brk y, p_brk_floor := p_brk_floor y, p_mmap_next := p_mmap_next y\<rparr>)"
      define k4 where "k4 = upd_proc p f k3"
      have k4: "flight (m - 1) p k4" unfolding k4_def
        by (rule number_flight [OF k2 k3]) (use y in \<open>simp add: f_def calm_def\<close>)
      obtain r3 maps sh st4 where ip: "ipc_proc_fork (p_root (the_proc k4 p)) (p_shm (the_proc k4 p)) (p_shm y) (k_shm k4) (k_phys k4) =
          (r3, maps, sh, st4)" by (metis surj_pair)
      define k5 where "k5 = upd_proc p (\<lambda>x. x\<lparr>p_shm := maps\<rparr>) (k4\<lparr>k_shm := sh, k_phys := st4\<rparr>)"
      have "quiet k4 k5" unfolding k5_def
        by (intro quiet_trans [OF quiet_trans [OF quiet_updates(8) quiet_updates(7)] quiet_upd_proc]) (simp add: proc_view_def)
      then have k5: "flight (m - 1) p k5" using k4 by (rule quiet_flight)
      show ?thesis
      proof (cases "r3 = 0")
        case False
        then show ?thesis using run q b True par cp r2 k3 ip proc_discard_ok [OF flight_ok [OF k5]]
          by (simp add: proc_do_fork_def k2_def k4_def f_def y_def k5_def Let_def)
      next
        case r3: True
        obtain fs where fs: "fh_inherit H p q (k_files k5) = Some fs"
          using run q b True par cp r2 k3 ip r3
          by (auto simp: proc_do_fork_def k2_def k4_def f_def y_def k5_def Let_def split: option.splits)
        define k6 where "k6 = upd_proc p (\<lambda>x. x\<lparr>p_entry := tf\<lparr>tf_regs := (tf_regs tf)[0 := 0]\<rparr>\<rparr>) (k5\<lparr>k_files := fs\<rparr>)"
        have "quiet k5 k6" unfolding k6_def
          by (intro quiet_trans [OF quiet_updates(9) quiet_upd_proc]) (simp add: proc_view_def)
        then have k6: "flight (m - 1) p k6" using k5 by (rule quiet_flight)
        have step: "Some (r, k') = (case proc_launch FORK_CHILD_BODY p k6 of None \<Rightarrow> None
            | Some (None, k6) \<Rightarrow> Some (- EAGAIN, proc_discard p k6) | Some (Some r, k6) \<Rightarrow> Some (r, k6))"
          using run q b True par cp r2 k3 ip r3 fs by (simp add: proc_do_fork_def k2_def k4_def f_def y_def k5_def k6_def Let_def)
        then obtain r4 k7 where k7: "proc_launch FORK_CHILD_BODY p k6 = Some (r4, k7)" by (auto split: option.splits)
        note la = proc_launch_ok [OF k6 k7]
        show ?thesis
        proof (cases r4)
          case None
          then have "kern_inv (m - 1) {p} k7" using la quiet_ok flight_ok [OF k6] by auto
          then show ?thesis using step k7 None proc_discard_ok by simp
        qed (use step k7 la in simp)
      qed
    qed
  qed
qed

lemma exec_ok:
  assumes ok: "kern_inv m {} k" and run: "proc_do_exec kt images c img argv envp k = Some (r, res, k')"
  shows "kern_inv m {} k'"
proof -
  obtain p where p: "proc_current c k = Some p" using run by (auto simp: proc_do_exec_def split: option.splits)
  show ?thesis
  proof (cases "images img")
    case None
    then show ?thesis using run p ok by (simp add: proc_do_exec_def)
  next
    case (Some bytes)
    have hp: "k_heap k p \<noteq> None"
    proof
      assume "k_heap k p = None"
      then show False using run p Some by (simp add: proc_do_exec_def)
    qed
    have t: "tag k p = p_asid (the_proc k p)" using hp by (auto simp: tag_def the_proc_def)
    obtain nroot st where ra: "vmm_root_alloc kt (k_phys k) = (nroot, st)" by fastforce
    obtain a gen as where al: "asid_alloc (k_asids k) = ((a, gen), as)" by (metis surj_pair)
    note ex = tags_exchange [OF kern_invD(9) [OF ok] few_tags [OF ok] al]
    show ?thesis
    proof (cases "live_threads k p \<or> nroot = 0")
      case True
      then show ?thesis using run p Some ra ok hp by (auto simp: proc_do_exec_def split: if_splits intro: quiet_ok [OF quiet_updates(7)])
    next
      case False
      then obtain r1 res1 st1 where l: "load_image bytes nroot argv envp st = Some (r1, res1, st1)"
        using run p Some ra al hp by (auto simp: proc_do_exec_def split: option.splits)
      show ?thesis
      proof (cases "r1 = 0")
        case r1: False
        have "k' = k\<lparr>k_phys := vmm_root_free nroot (vmm_root_release nroot USER_L0_LO USER_L0_HI st1), k_asids := asid_release a as\<rparr>"
          using run p Some ra al l r1 False hp by (simp add: proc_do_exec_def)
        moreover have "kern_inv m {} (k\<lparr>k_phys := vmm_root_free nroot (vmm_root_release nroot USER_L0_LO USER_L0_HI st1)\<rparr>)"
          by (rule quiet_ok [OF _ ok]) simp
        ultimately show ?thesis using asids_ok [of m "{}" "k\<lparr>k_phys := _\<rparr>" "asid_release a as"] ex(2)
          by (simp add: tag_updates)
      next
        case r1: True
        obtain tf brk where res: "the res1 = (tf, brk)" by fastforce
        obtain base k1 where k1: "kaslr_mmap_base (k\<lparr>k_phys := st1, k_asids := as\<rparr>) = (base, k1)" by fastforce
        define nm where "nm = take (PROC_NAME_MAX - 1) img"
        define f :: "proc \<Rightarrow> proc" where "f = (\<lambda>x. x\<lparr>p_root := nroot, p_asid := a, p_asid_gen := gen, p_brk := brk, p_brk_floor := brk, p_mmap_next := base,
            p_handlers := replicate NSIG 0, p_pending := 0, p_in_signal := False, p_sigframe := 0, p_name := nm\<rparr>)"
        define k2 where "k2 = upd_proc p f k1"
        define k3 where "k3 = (case p_task (the_proc k p) of None \<Rightarrow> k2 | Some i \<Rightarrow> set_sched (upd_task i (\<lambda>t. t\<lparr>t_name := nm\<rparr>) (k_sched k2)) k2)"
        define k4 where "k4 = proc_address_space_switch kt c (Some p) k3"
        have "Some (r, res, k') = Some (0, Some tf,
            k4\<lparr>k_phys := vmm_root_free (p_root (the_proc k p)) (vmm_root_release (p_root (the_proc k p)) USER_L0_LO USER_L0_HI (k_phys k4)),
              k_asids := asid_release (p_asid (the_proc k p)) (k_asids k4)\<rparr>)"
          unfolding run [symmetric] proc_do_exec_def k4_def k3_def k2_def f_def nm_def using False hp
          by (simp add: p Some ra al l r1 res k1 Let_def cong: option.case_cong)
        then have k': "k' = k4\<lparr>k_phys := vmm_root_free (p_root (the_proc k p)) (vmm_root_release (p_root (the_proc k p)) USER_L0_LO USER_L0_HI (k_phys k4)),
            k_asids := asid_release (p_asid (the_proc k p)) (k_asids k4)\<rparr>" by blast
        have k1e: "k1 = k\<lparr>k_phys := st1, k_asids := as, k_seed := k_seed k1\<rparr>"
          using k1 by (auto simp: kaslr_mmap_base_def Let_def)
        have q24: "quiet k2 k4"
          unfolding k4_def k3_def
          by (auto split: option.splits intro!: quiet_switch quiet_trans [OF quiet_set_sched quiet_switch] slots_kept_upd_task)
        let ?a = "asid_release (tag k p) as"
        have "kern_inv m {} (upd_proc p f (k\<lparr>k_asids := ?a\<rparr>))"
          by (rule asid_ok [OF ok ex(1) hp]) (simp_all add: f_def calm_def)
        moreover have "quiet (upd_proc p f (k\<lparr>k_asids := ?a\<rparr>)) k'"
        proof (rule quietI)
          have q: "map_option proc_view (k_heap k4 q) = map_option proc_view (k_heap k2 q)" for q using q24 by (simp add: quiet_def)
          have h: "k_heap k2 = k_heap (upd_proc p f (k\<lparr>k_asids := ?a\<rparr>))" unfolding k2_def by (subst k1e) (simp add: kern_simps)
          show "map_option proc_view (k_heap k' q) = map_option proc_view (k_heap (upd_proc p f (k\<lparr>k_asids := ?a\<rparr>)) q)" for q
            using q [of q] by (simp add: k' h)
          have "k_asids k4 = as" "k_list k4 = k_list k" "k_next_pid k4 = k_next_pid k" "slots_kept (k_sched k) (k_sched k4)"
            using q24 unfolding quiet_def k2_def by (subst (asm) (1 2 3 4) k1e, simp add: kern_simps)+
          then show "k_asids k' = k_asids (upd_proc p f (k\<lparr>k_asids := ?a\<rparr>))" "k_list k' = k_list (upd_proc p f (k\<lparr>k_asids := ?a\<rparr>))"
            "k_next_pid k' = k_next_pid (upd_proc p f (k\<lparr>k_asids := ?a\<rparr>))"
            "slots_kept (k_sched (upd_proc p f (k\<lparr>k_asids := ?a\<rparr>))) (k_sched k')"
            by (simp_all add: k' kern_simps t)
        qed
        ultimately show ?thesis by (rule quiet_ok [rotated])
      qed
    qed
  qed
qed

section \<open>Death and reaping\<close>

lemma quiet_kill_tasks: "quiet k (set_sched (kill_tasks p k) k)"
  by (rule quiet_set_sched) (rule slots_kept_kill)

lemma mark_zombie_ok:
  assumes ok: "kern_inv m N k" and hp: "k_heap k p \<noteq> None"
  shows "kern_inv m N (mark_zombie c p code k)"
proof -
  let ?k0 = "upd_proc p (\<lambda>x. x\<lparr>p_alive := False, p_exit_code := code\<rparr>) k"
  let ?k1 = "reparent_children p ?k0"
  have q1: "quiet k ?k1" by (intro quiet_trans [OF quiet_upd_proc quiet_reparent_children]) (simp add: proc_view_def)
  have ok1: "kern_inv m N ?k1" by (rule quiet_ok [OF q1 ok])
  have hp1: "k_heap ?k1 p \<noteq> None" using quiet_same(3) [OF q1] hp by blast
  have t: "tag ?k1 p = p_asid (the_proc ?k1 p)" using hp1 by (auto simp: tag_def the_proc_def)
  let ?k2 = "upd_proc p (\<lambda>x. x\<lparr>p_asid := 0\<rparr>) (?k1\<lparr>k_asids := asid_release (p_asid (the_proc ?k1 p)) (k_asids ?k1)\<rparr>)"
  have ok2: "kern_inv m N ?k2"
    by (rule asid_ok [OF ok1 _ hp1]) (use tags_release [OF kern_invD(9) [OF ok1], of p] t in \<open>simp_all add: calm_def\<close>)
  show ?thesis unfolding mark_zombie_def Let_def
    by (rule quiet_ok [OF quiet_trans [OF quiet_kill_tasks quiet_wake_reapers] ok2])
qed

lemma proc_die_ok:
  assumes "kern_inv m {} k" and "proc_die kt c p code k = Some k'"
  shows "kern_inv m {} k'"
proof -
  let ?k1 = "proc_address_space_switch kt c None (mark_zombie c p code k)"
  obtain s where s: "task_exit c (k_sched ?k1) = Some s" "k' = set_sched s ?k1"
    using assms(2) by (auto simp: proc_die_def Let_def split: if_splits)
  have "quiet ?k1 k'" unfolding s(2) by (rule quiet_set_sched) (rule slots_kept_exit [OF s(1)])
  moreover have "k_heap k p \<noteq> None" using has_structure(1) [OF assms(2)] by blast
  ultimately show ?thesis using quiet_ok [OF quiet_trans [OF quiet_switch] mark_zombie_ok] assms(1) by blast
qed

lemma mqs_sched_simps:
  "mqs_sched (set_mqs_sched s x) = s" "mqs_sched (upd_mq i f x) = mqs_sched x"
  by (simp_all add: mqs_sched_def set_mqs_sched_def upd_mq_def)

lemma slots_kept_ipc_wake: "ipc_wake h s = (h', s') \<Longrightarrow> slots_kept s s'"
  by (cases "wake_loop None h False s") (auto simp: ipc_wake_def dest: slots_kept_wake_loop)

lemma slots_kept_close: "slots_kept (mqs_sched x) (mqs_sched (snd (mq_close_id q x)))"
  by (auto simp: mq_close_id_def mq_try_free_def mq_wake_pair_def Let_def mqs_sched_simps split: prod.splits
      dest!: slots_kept_ipc_wake intro: slots_kept_trans)

lemma slots_kept_close_all:
  "fold (\<lambda>h (hs, x). let q = mq_handle_lookup (Some hs) h
      in if 0 \<le> q then (the (mq_handle_release (Some hs) h), snd (mq_close_id q x)) else (hs, x)) ls (hs, x) = (hs', x') \<Longrightarrow>
    slots_kept (mqs_sched x) (mqs_sched x')"
proof (induction ls arbitrary: hs x)
  case (Cons h ls)
  show ?case
  proof (cases "0 \<le> mq_handle_lookup (Some hs) h")
    case True
    then show ?thesis using Cons.prems
      by (intro slots_kept_trans [OF slots_kept_close Cons.IH]) (simp add: Let_def)
  next
    case False
    then show ?thesis using Cons.prems by (intro Cons.IH) (simp add: Let_def)
  qed
qed simp

lemma quiet_proc_exit: "quiet k (ipc_proc_exit p k)"
proof -
  obtain maps sh st where d: "detach_slots (p_root (the_proc k p)) [0..<PROC_SHM_MAX] (p_shm (the_proc k p)) (k_shm k) (k_phys k) = (maps, sh, st)"
    by (metis surj_pair)
  obtain hs x where c: "close_handles (p_mq (the_proc k p)) (k_mqs k) = (hs, x)" by fastforce
  have "slots_kept (k_sched k) (mqs_sched x)" using c unfolding close_handles_def k_sched_def by (rule slots_kept_close_all)
  then have "quiet k (k\<lparr>k_shm := sh, k_phys := st, k_mqs := x\<rparr>)" by (simp add: quiet_def kern_simps)
  then have "quiet k (upd_proc p (\<lambda>y. y\<lparr>p_shm := maps, p_mq := hs\<rparr>) (k\<lparr>k_shm := sh, k_phys := st, k_mqs := x\<rparr>))"
    by (rule quiet_trans [OF _ quiet_upd_proc]) (simp add: proc_view_def)
  then show ?thesis using d c by (simp add: ipc_proc_exit_def)
qed

lemma reap_ok:
  assumes ok: "kern_inv m {} k" and z: "z \<in> set (k_list k)" and run: "reap_one H z k = Some (res, k')"
  shows "kern_inv m {} k'" and "k_list k' = remove1 z (k_list k)" and "res = (p_exit_code (the_proc k z), p_pid (the_proc k z))"
proof -
  define k0 where "k0 = ipc_proc_exit z k"
  have q0: "quiet k k0" unfolding k0_def by (rule quiet_proc_exit)
  have ok0: "kern_inv m {} k0" by (rule quiet_ok [OF q0 ok])
  have l0: "k_list k0 = k_list k" using q0 by (simp add: quiet_def)
  define k1 where "k1 = space_destroy z (registry_del z k0)"
  have ok1: "kern_inv m {z} k1" unfolding k1_def
    using registry_del_ok [OF ok0] z l0 kern_invD(2) [OF ok0] by (intro space_destroy_ok) (auto simp: registry_del_def)
  have l1: "k_list k1 = remove1 z (k_list k)"
    by (simp add: k1_def space_destroy_def Let_def kern_simps registry_del_def l0)
  obtain fs where fs: "fh_release H z (k_files k1) = Some fs"
    using run by (auto simp: reap_one_def Let_def k1_def k0_def)
  define k2 where "k2 = free_slot (p_task (the_proc k z)) (k1\<lparr>k_files := fs\<rparr>)"
  have ts: "p_task (the_proc k1 q) = p_task (the_proc k q)" for q
  proof -
    have "p_task (the_proc k1 q) = p_task (the_proc k0 q)"
      by (cases "q = z"; cases "k_heap k0 z") (simp_all add: k1_def space_destroy_def Let_def kern_simps registry_del_def the_proc_def)
    then show ?thesis using quiet_same(1) [OF q0, of q] by (simp add: proc_view_def)
  qed
  have ok2: "kern_inv m {z} k2" unfolding k2_def
  proof (rule free_slot_ok)
    show "kern_inv m {z} (k1\<lparr>k_files := fs\<rparr>)" by (rule quiet_ok [OF _ ok1]) simp
    fix q assume "q \<in> set (k_list (k1\<lparr>k_files := fs\<rparr>))"
    then have "q \<in> set (k_list k) - {z}" using l1 kern_invD(1) [OF ok] by simp
    then have "p_task (the_proc k q) \<noteq> p_task (the_proc k z)" using kern_invD(6) [OF ok] z by (auto simp: inj_on_def)
    then show "p_task (the_proc (k1\<lparr>k_files := fs\<rparr>) q) \<noteq> p_task (the_proc k z)" using ts [of q] by (simp add: the_proc_def)
  qed
  have t2: "tag k2 z = 0"
  proof -
    have "tag k2 z = tag k1 z" by (simp add: k2_def free_slot_def tag_def kern_simps split: option.splits)
    then show ?thesis by (simp add: k1_def space_destroy_tag)
  qed
  have k': "k' = k2\<lparr>k_heap := (k_heap k2)(z := None)\<rparr>" "res = (p_exit_code (the_proc k z), p_pid (the_proc k z))"
    using run fs by (simp_all add: reap_one_def Let_def k2_def k1_def k0_def)
  show "kern_inv m {} k'" unfolding k'(1) by (rule heap_drop_ok [OF ok2 t2])
  show "k_list k' = remove1 z (k_list k)" using l1 by (simp add: k' k2_def free_slot_def kern_simps split: option.splits)
  show "res = (p_exit_code (the_proc k z), p_pid (the_proc k z))" by (rule k'(2))
qed

lemma find_mem: "find P xs = Some x \<Longrightarrow> x \<in> set xs \<and> P x"
  by (auto simp: find_Some_iff)

lemma poll_reap_ok: "kern_inv m {} k \<Longrightarrow> proc_poll_reap H c want k = Some (r, code, k') \<Longrightarrow> kern_inv m {} k'"
  by (auto simp: proc_poll_reap_def find_zombie_def split: option.splits dest: find_mem intro: reap_ok(1))

lemma kernel_reap_ok: "kern_inv m {} k \<Longrightarrow> proc_kernel_reap H pid k = Some (r, code, k') \<Longrightarrow> kern_inv m {} k'"
  by (auto simp: proc_kernel_reap_def proc_by_pid_def split: option.splits if_splits dest: find_mem intro: reap_ok(1))

lemma slots_kept_msleep: "msleep c ms s = Some s' \<Longrightarrow> slots_kept s s'"
  by (auto simp: msleep_def task_yield_def park_current_def Let_def split: option.splits if_splits
      intro!: slots_kept_make_ready slots_kept_trans [OF slots_kept_upd_task slots_kept_upd_task])

lemma kernel_wait_ok: "kern_inv m {} k \<Longrightarrow> proc_kernel_wait H c pid deadline now k = Some (w, k') \<Longrightarrow> kern_inv m {} k'"
  by (auto simp: proc_kernel_wait_def split: option.splits if_splits dest: kernel_reap_ok
      intro!: quiet_ok [OF quiet_set_sched] slots_kept_msleep)

lemma slots_kept_sleep: "wait_sleep_when c b h s = Some (q, h', s') \<Longrightarrow> slots_kept s s'"
  by (auto simp: wait_sleep_when_def wq_park_def Let_def split: option.splits if_splits intro!: slots_kept_upd_task)

lemma waitpid_ok: "kern_inv m {} k \<Longrightarrow> proc_do_waitpid H c want k = Some (r, k') \<Longrightarrow> kern_inv m {} k'"
  by (auto simp: proc_do_waitpid_def split: option.splits if_splits dest: poll_reap_ok
      intro!: quiet_ok [OF quiet_trans [OF quiet_set_sched quiet_updates(3)]] slots_kept_sleep)

section \<open>Threads and signals\<close>

lemma thread_create_ok:
  assumes ok: "kern_inv m N k" and run: "proc_thread_create kst c pc usp arg k = Some (r, k')"
  shows "kern_inv m N k'"
proof (cases "proc_current c k")
  case (Some p)
  have heap: "k_heap k p \<noteq> None" using has_structure(4) [OF run Some] by blast
  obtain sl s where s: "task_create_deferred (p_name (the_proc k p)) THREAD_BODY 0 PROC_PRIO (k_sched k) = (sl, s)" by fastforce
  show ?thesis
  proof (cases "p_alive (the_proc k p) \<and> 0 \<le> sl")
    case True
    define i where "i = nat sl"
    note d = deferred_slot [OF s, folded i_def]
    have d: "i < length (tasks (k_sched k))" "t_state (tasks (k_sched k) ! i) = TASK_UNUSED" "length (tasks s) = length (tasks (k_sched k))"
      "\<And>j. j \<noteq> i \<Longrightarrow> tasks s ! j = tasks (k_sched k) ! j"
      using d True by simp_all
    have other: "kern_inv m N (set_sched s1 k)" if "length (tasks s1) = length (tasks s)" "\<And>j. j \<noteq> i \<Longrightarrow> tasks s1 ! j = tasks s ! j" for s1
    proof (rule sched_ok [OF ok])
      fix p j assume "t_state (tasks (k_sched k) ! j) \<noteq> TASK_UNUSED" "t_kstack (tasks (k_sched k) ! j) = 0"
      moreover have "j \<noteq> i" using calculation d(2) by auto
      ultimately show "t_state (tasks s1 ! j) \<noteq> TASK_UNUSED \<and> t_kstack (tasks s1 ! j) = 0" using that d(4) by simp
    qed (use that d(3) kern_invD(8) [OF ok] in simp)
    show ?thesis
    proof (cases "kst = 0")
      case kst: True
      have "k' = set_sched (upd_task i (\<lambda>t. t\<lparr>t_state := TASK_UNUSED, t_fn := 0, t_arg := 0\<rparr>) s) k"
        using run Some True s kst heap by (simp add: proc_thread_create_def i_def Let_def)
      then show ?thesis using other by (simp add: upd_task_def)
    next
      case False
      then obtain s1 fr where l: "task_launch sl (upd_task i (\<lambda>t. t\<lparr>t_kstack := kst, t_arg := of_nat i, t_name := ''thread''\<rparr>) s) = Some s1"
        and k': "k' = (set_sched s1 k)\<lparr>k_tproc := (k_tproc k)(i \<mapsto> p), k_tframe := fr\<rparr>"
        using run Some True s heap by (auto simp: proc_thread_create_def i_def Let_def)
      have "kern_inv m N (set_sched s1 k)"
        by (rule other) (use l in \<open>auto simp: task_launch_def i_def make_ready_tasks upd_task_def split: if_splits\<close>)
      then show ?thesis unfolding k' by (rule quiet_ok [OF quiet_trans [OF quiet_updates(4) quiet_updates(5)]])
    qed
  next
    case False
    have "kern_inv m N (set_sched (k_sched k) k)" by (rule quiet_ok [OF quiet_set_sched ok]) simp
    then show ?thesis using run Some False s ok heap deferred_full [OF s]
      by (auto simp: proc_thread_create_def Let_def split: if_splits)
  qed
qed (use run ok in \<open>simp add: proc_thread_create_def\<close>)

lemma reclaim_ok: "kern_inv m N k \<Longrightarrow> kern_inv m N (proc_threads_reclaim c k)"
proof -
  assume ok: "kern_inv m N k"
  define s where "s = k_sched k"
  define freed where "freed = filter (reclaimable s) [0..<length (tasks s)]"
  define s1 where "s1 = s\<lparr>tasks := map (\<lambda>i. if i \<in> set freed
      then (task_at s i)\<lparr>t_state := TASK_UNUSED, t_fn := 0, t_arg := 0, t_parked := False, t_kstack := 0\<rparr> else task_at s i)
    [0..<length (tasks s)]\<rparr>"
  have "kern_inv m N (set_sched s1 k)"
  proof (rule sched_ok [OF ok])
    fix p i assume "i < MAX_TASKS" "t_state (tasks (k_sched k) ! i) \<noteq> TASK_UNUSED" "t_kstack (tasks (k_sched k) ! i) = 0"
    then show "t_state (tasks s1 ! i) \<noteq> TASK_UNUSED \<and> t_kstack (tasks s1 ! i) = 0"
      using kern_invD(8) [OF ok] by (simp add: s1_def freed_def s_def reclaimable_def task_at_def)
  qed (use kern_invD(8) [OF ok] in \<open>simp add: s1_def s_def\<close>)
  then have "kern_inv m N ((set_sched s1 k)\<lparr>k_tproc := f\<rparr>)" for f by (rule quiet_ok [OF quiet_updates(4)])
  then show ?thesis
    unfolding proc_threads_reclaim_def Let_def s_def [symmetric] freed_def [symmetric] s1_def [symmetric]
    by (auto intro: quiet_ok [OF quiet_wake_reapers])
qed

lemma thread_exit_ok: "kern_inv m N k \<Longrightarrow> proc_thread_exit kt c k = Some k' \<Longrightarrow> kern_inv m N k'"
  by (auto simp: proc_thread_exit_def Let_def split: option.splits if_splits
      intro!: quiet_ok [OF quiet_set_sched reclaim_ok [OF quiet_ok [OF quiet_switch]]] slots_kept_exit)

lemma sigaction_ok: "kern_inv m N k \<Longrightarrow> sys_sigaction c sig h k = Some (r, k') \<Longrightarrow> kern_inv m N k'"
proof -
  assume ok: "kern_inv m N k" and run: "sys_sigaction c sig h k = Some (r, k')"
  show ?thesis
  proof (cases "k' = k")
    case False
    then obtain p where p: "k' = upd_proc p (\<lambda>x. x\<lparr>p_handlers := (p_handlers x)[unat sig := h]\<rparr>) k" and s: "sig \<noteq> of_nat SIGCHLD"
      using run by (auto simp: sys_sigaction_def split: option.splits if_splits)
    have u: "unat sig \<noteq> SIGCHLD" using s by (auto simp: word_unat_eq_iff)
    show ?thesis
    proof (cases "k_heap k p")
      case None
      then show ?thesis using ok by (simp add: p upd_proc_def fun_upd_idem)
    next
      case (Some x)
      have "kern_inv m N (upd_proc p (\<lambda>x. x\<lparr>p_handlers := (p_handlers x)[unat sig := h], p_asid := tag k p\<rparr>) (k\<lparr>k_asids := k_asids k\<rparr>))"
        by (rule asid_ok [OF ok, where i = "tag k p"]) (use kern_invD(9) [OF ok] Some u in \<open>simp_all add: calm_def\<close>)
      moreover have "quiet (upd_proc p (\<lambda>x. x\<lparr>p_handlers := (p_handlers x)[unat sig := h], p_asid := tag k p\<rparr>) (k\<lparr>k_asids := k_asids k\<rparr>)) k'"
        by (rule quietI) (use Some in \<open>auto simp: p kern_simps tag_def proc_view_def\<close>)
      ultimately show ?thesis by (rule quiet_ok [rotated])
    qed
  qed (use ok in simp)
qed

lemma quiet_do_kill: "proc_do_kill pid sig k = (r, k') \<Longrightarrow> quiet k k'"
  by (auto simp: proc_do_kill_def split: if_splits option.splits intro!: quiet_upd_proc simp: proc_view_def)

lemma next_signal_pending: "next_signal m hs = (sig, m') \<Longrightarrow> sig \<noteq> 0 \<Longrightarrow> hs ! sig \<noteq> SIG_IGN"
proof (induction m hs rule: next_signal.induct)
  case (1 m hs)
  then show ?case by (subst (asm) (2) next_signal.simps) (auto simp: Let_def split: if_splits)
qed

text \<open>With no handler for \<open>SIGCHLD\<close> nothing but death is delivered.\<close>

lemma deliver_calm:
  assumes p: "proc_current c k = Some p" and x: "k_heap k p = Some x" and calm: "calm x"
    and run: "signal_deliver_pending kt c tf k = Some (u, k')"
  shows "(u = To_user tf \<and> quiet k k') \<or> (u = Died \<and> (\<exists>k1 code. quiet k k1 \<and> proc_die kt c p code k1 = Some k'))"
proof (cases "p_alive x")
  case True
  obtain sig m where s: "next_signal (p_pending x) (p_handlers x) = (sig, m)" by fastforce
  define k1 where "k1 = upd_proc p (\<lambda>x. x\<lparr>p_pending := m\<rparr>) k"
  have q: "quiet k k1" unfolding k1_def by (rule quiet_upd_proc) (simp add: proc_view_def)
  have dead: "p_handlers x ! sig = 0 \<or> signal_default_fatal sig" if "sig \<noteq> 0"
    using calm that by (cases "sig = SIGCHLD") (simp_all add: calm_def signal_default_fatal_def)
  show ?thesis
  proof (cases "sig = 0")
    case True
    then show ?thesis using run p x \<open>p_alive x\<close> s q
      by (simp add: signal_deliver_pending_def the_proc_def k1_def Let_def)
  next
    case False
    then show ?thesis using run p x \<open>p_alive x\<close> s q dead
      by (auto simp: signal_deliver_pending_def the_proc_def k1_def Let_def)
  qed
qed (use run p x in \<open>simp add: signal_deliver_pending_def the_proc_def\<close>)

section \<open>The steps\<close>

text \<open>What the kernel does to its processes, one call at a time, on any cpu: a call that has a result. New
  structures come from free memory. The last rule stands for everything else: the scheduler, the
  other system calls, user programs.\<close>

definition fresh :: "heap_grant \<Rightarrow> 'f kern \<Rightarrow> bool" where
  "fresh g k \<longleftrightarrow> (\<forall>p. hg_proc g = Some p \<longrightarrow> k_heap k p = None)"

inductive proc_step :: "ktables \<Rightarrow> (string \<Rightarrow> u8 list option) \<Rightarrow> 'f file_hooks \<Rightarrow> 'f kern \<Rightarrow> 'f kern \<Rightarrow> bool"
  for kt images H where
  spawn: "fresh g k \<Longrightarrow> proc_spawn kt images H g c img argv envp k = Some (r, k') \<Longrightarrow> proc_step kt images H k k'"
| fork: "fresh g k \<Longrightarrow> proc_do_fork kt H g c tf k = Some (r, k') \<Longrightarrow> proc_step kt images H k k'"
| exec: "proc_do_exec kt images c img argv envp k = Some (r, tfo, k') \<Longrightarrow> proc_step kt images H k k'"
| exit: "proc_do_exit kt c code k = Some k' \<Longrightarrow> proc_step kt images H k k'"
| fault: "proc_user_fault kt c k = Some k' \<Longrightarrow> proc_step kt images H k k'"
| kill: "proc_do_kill pid sig k = (r, k') \<Longrightarrow> proc_step kt images H k k'"
| sigaction: "sys_sigaction c s h k = Some (r, k') \<Longrightarrow> proc_step kt images H k k'"
| deliver: "signal_deliver_pending kt c tf k = Some (u, k') \<Longrightarrow> proc_step kt images H k k'"
| sigreturn: "proc_sigreturn kt c tf k = Some (u, k') \<Longrightarrow> proc_step kt images H k k'"
| wait: "proc_do_waitpid H c want k = Some (w, k') \<Longrightarrow> proc_step kt images H k k'"
| reap: "proc_kernel_reap H pid k = Some (r, code, k') \<Longrightarrow> proc_step kt images H k k'"
| timed_reap: "proc_kernel_wait H c pid deadline now k = Some (w, k') \<Longrightarrow> proc_step kt images H k k'"
| thread: "proc_thread_create kst c pc usp arg k = Some (r, k') \<Longrightarrow> proc_step kt images H k k'"
| thread_exit: "proc_thread_exit kt c k = Some k' \<Longrightarrow> proc_step kt images H k k'"
| reclaim: "proc_step kt images H k (proc_threads_reclaim c k)"
| init: "proc_step kt images H k (proc_note_init_pid pid k)"
| enter: "proc_task_body kt c p k = Some (tf, k') \<Longrightarrow> proc_step kt images H k k'"
| enter_thread: "thread_body kt c i k = Some (tf, k') \<Longrightarrow> proc_step kt images H k k'"
| other: "quiet k k' \<Longrightarrow> proc_step kt images H k k'"

inductive_cases proc_stepE: "proc_step kt images H k k'"

inductive proc_steps :: "ktables \<Rightarrow> (string \<Rightarrow> u8 list option) \<Rightarrow> 'f file_hooks \<Rightarrow> 'f kern \<Rightarrow> 'f kern \<Rightarrow> bool"
  for kt images H where
  refl: "proc_steps kt images H k k"
| step: "proc_steps kt images H k k1 \<Longrightarrow> proc_step kt images H k1 k2 \<Longrightarrow> proc_steps kt images H k k2"

text \<open>A run with the count of the numbers it hands out.\<close>

inductive proc_run :: "ktables \<Rightarrow> (string \<Rightarrow> u8 list option) \<Rightarrow> 'f file_hooks \<Rightarrow> nat \<Rightarrow> 'f kern \<Rightarrow> 'f kern \<Rightarrow> bool"
  for kt images H where
  run_refl: "proc_run kt images H 0 k k"
| run_step: "proc_run kt images H n k k1 \<Longrightarrow> proc_step kt images H k1 k2 \<Longrightarrow>
    proc_run kt images H (if k_next_pid k2 = k_next_pid k1 then n else n + 1) k k2"

lemma deliver_ok:
  assumes ok: "kern_inv m {} k" and run: "signal_deliver_pending kt c tf k = Some (u, k')"
  shows "kern_inv m {} k'" and "u = To_user tf \<or> u = Died"
proof -
  have "kern_inv m {} k' \<and> (u = To_user tf \<or> u = Died)"
  proof (cases "proc_current c k")
    case None
    then show ?thesis using ok run by (simp add: signal_deliver_pending_def)
  next
    case (Some p)
    obtain x where x: "k_heap k p = Some x" using has_structure(2) [OF run Some] by blast
    consider "u = To_user tf" "quiet k k'" | k1 code where "u = Died" "quiet k k1" "proc_die kt c p code k1 = Some k'"
      using deliver_calm [OF Some x kern_invD(7) [OF ok x] run] by blast
    then show ?thesis
    proof cases
      case 1
      then show ?thesis using quiet_ok ok by blast
    next
      case 2
      then show ?thesis using proc_die_ok [OF quiet_ok [OF 2(2) ok]] by blast
    qed
  qed
  then show "kern_inv m {} k'" "u = To_user tf \<or> u = Died" by simp_all
qed

lemma sigreturn_ok:
  assumes ok: "kern_inv m {} k" and run: "proc_sigreturn kt c tf k = Some (u, k')"
  shows "kern_inv m {} k'"
proof -
  obtain p where p: "proc_current c k = Some p" using run by (auto simp: proc_sigreturn_def split: option.splits)
  obtain x where x: "k_heap k p = Some x" using has_structure(3) [OF run p] by blast
  then have "\<not> p_in_signal (the_proc k p)" using kern_invD(7) [OF ok x] by (simp add: the_proc_def calm_def)
  then have "proc_die kt c p (128 + int SIGSEGV) k = Some k'" using run p x by (simp add: proc_sigreturn_def Let_def)
  then show ?thesis using proc_die_ok [OF ok] by blast
qed

lemma quiet_bodies:
  "proc_task_body kt c p k = Some (tf, k') \<Longrightarrow> quiet k k'" "thread_body kt c i k = Some (tf, k') \<Longrightarrow> quiet k k'"
  "quiet k (proc_note_init_pid pid k)"
  by (auto simp: proc_task_body_def thread_body_def proc_note_init_pid_def quiet_switch split: option.splits if_splits
      intro: quiet_trans [OF quiet_updates(4) quiet_switch])

lemma do_exit_ok:
  "kern_inv m {} k \<Longrightarrow> proc_do_exit kt c code k = Some k' \<Longrightarrow> kern_inv m {} k'"
  "kern_inv m {} k \<Longrightarrow> proc_user_fault kt c k = Some k' \<Longrightarrow> kern_inv m {} k'"
  by (auto simp: proc_do_exit_def proc_user_fault_def bind_eq_Some_conv intro: proc_die_ok)

lemma step_keeps: "proc_step kt images H k k' \<Longrightarrow> kern_inv m {} k \<Longrightarrow> kern_inv (m - 1) {} k'"
  by (induction rule: proc_step.induct)
    (auto simp: fresh_def intro: spawn_ok fork_keeps exec_ok [THEN less] do_exit_ok [THEN less] sigaction_ok [THEN less]
      deliver_ok(1) [THEN less] sigreturn_ok [THEN less] waitpid_ok [THEN less] kernel_reap_ok [THEN less]
      kernel_wait_ok [THEN less] thread_create_ok [THEN less] thread_exit_ok [THEN less] reclaim_ok [THEN less]
      quiet_ok [THEN less] quiet_do_kill quiet_bodies)

lemma steps_keep: "proc_steps kt images H k k' \<Longrightarrow> kern_ok {} k \<Longrightarrow> kern_ok {} k'"
  by (induction rule: proc_steps.induct) (auto simp: kern_inv_def nums_ok_def dest: step_keeps [where m = "- 1"])

lemma run_steps: "proc_run kt images H n k k' \<Longrightarrow> proc_steps kt images H k k'"
  by (induction rule: proc_run.induct) (auto intro: proc_steps.intros)

text \<open>A step that hands out no number costs none.\<close>

lemma run_keeps:
  assumes "proc_run kt images H n k k'" and "kern_ok {} k" and "numbered k" and "k_next_pid k + int n < INT_MAX"
  shows "kern_inv (INT_MAX - k_next_pid k - int n) {} k'"
  using assms
proof (induction rule: proc_run.induct)
  case (run_refl k)
  then show ?case by (simp add: kern_inv_def nums_ok_def)
next
  case (run_step n k k1 k2)
  let ?m = "INT_MAX - k_next_pid k - int n"
  have le: "k_next_pid k + int n < INT_MAX" using run_step.prems(3) by (simp split: if_splits)
  then have ih: "kern_inv ?m {} k1" using run_step by simp
  have ok: "kern_inv (?m - 1) {} k2" by (rule step_keeps [OF run_step.hyps(2) ih])
  show ?case
  proof (cases "k_next_pid k2 = k_next_pid k1")
    case True
    then show ?thesis using ok ih le by (simp add: kern_inv_def nums_ok_def)
  qed (use ok in \<open>simp add: algebra_simps\<close>)
qed

end
