(* ===== verification/Proc_Claims.thy ===== *)
theory Proc_Claims
  imports Proc_Props
begin

text \<open>
  What the invariant of the processes gives: the properties of the registry, of the tags, of
  signals and of the way a process ends. The examples are three processes: init, a shell and a
  child of the shell, the first two running on the two cpus.
\<close>

section \<open>An example\<close>

definition demo_sched :: sched where
  "demo_sched = \<lparr>tasks = replicate 3 (unused_task\<lparr>t_state := TASK_RUNNING\<rparr>) @ replicate 61 unused_task, rq_seq = 0,
     cpus = [\<lparr>pc_current = Some 0, pc_need_resched = False\<rparr>, \<lparr>pc_current = Some 1, pc_need_resched = False\<rparr>], jiffies = 0\<rparr>"

definition demo_proc :: "int \<Rightarrow> nat \<Rightarrow> pref option \<Rightarrow> proc" where
  "demo_proc pid t par = zero_proc\<lparr>p_pid := pid, p_task := Some t, p_asid := t + 1, p_asid_gen := 1, p_alive := True, p_parent := par\<rparr>"

definition demo :: "nat kern" where
  "demo = \<lparr>k_heap = [1 \<mapsto> demo_proc 1 0 None, 2 \<mapsto> demo_proc 2 1 (Some 1), 3 \<mapsto> demo_proc 3 2 (Some 2)], k_list = [3, 2, 1],
     k_next_pid = 4, k_init = Some 1, k_asids = \<lparr>as_next = 4, as_gen = 1, as_used = map (\<lambda>i. i \<in> {1, 2, 3}) [0..<256]\<rparr>,
     k_seed = 1, k_reap_wq = None, k_tproc = [0 \<mapsto> 1, 1 \<mapsto> 2, 2 \<mapsto> 3], k_tframe = (\<lambda>_. zero_frame), k_ttbr0 = (\<lambda>_. 0),
     k_mqs = \<lparr>mq_ipc = \<lparr>ip_sched = demo_sched, ip_poll_wq = None, ip_pipe_used = [], ip_pipes = [], ip_wakes = 0, ip_bytes_flowed = 0\<rparr>,
        mq_pool = [], mq_lock = False\<rparr>,
     k_phys = \<lparr>ph_mem = (\<lambda>_. 0), ph_head = 0, ph_total = 0, ph_reserved = 0, ph_free = 0\<rparr>, k_shm = shm_init, k_files = 0\<rparr>"

definition demo_tables :: ktables where
  "demo_tables = \<lparr>kt_lower_l0 = 0x1000, kt_lower_l1 = 0x2000, kt_upper_l0 = 0x3000, kt_h_l1 = 0x4000, kt_h_l2 = 0x5000, kt_h_l3 = 0x6000\<rparr>"

definition demo_hooks :: "nat file_hooks" where
  "demo_hooks = \<lparr>fh_init = (\<lambda>p f. Some (0, f + 1)), fh_inherit = (\<lambda>p q f. Some (f + 1)), fh_release = (\<lambda>p f. Some (f - 1))\<rparr>"

lemma demo_sched_of: "k_sched demo = demo_sched"
  by (simp add: k_sched_def mqs_sched_def demo_def)

lemma demo_current: "proc_current 0 demo = Some 1" "proc_current 1 demo = Some 2" "proc_current (Suc 0) demo = Some 2"
  by (simp_all add: proc_current_def demo_sched_of current_task_def) (simp_all add: demo_sched_def demo_def)

lemma demo_tag: "tag demo p = (if p \<in> {1, 2, 3} then p else 0)"
  by (simp add: tag_def demo_def demo_proc_def)

lemma demo_used: "i < 256 \<Longrightarrow> as_used (k_asids demo) ! i = (i \<in> {1, 2, 3})"
  by (simp add: demo_def)

lemma demo_asids: "as_next (k_asids demo) = 4" "as_gen (k_asids demo) = 1" "length (as_used (k_asids demo)) = 256"
  by (simp_all add: demo_def)

lemma demo_ok: "kern_ok {} demo"
proof (rule kern_okI)
  show "tags_ok (tag demo) (k_asids demo)"
  proof (rule tags_okI)
    show "finite {p. tag demo p \<noteq> 0}" by (rule finite_subset [of _ "{1, 2, 3}"]) (auto simp: demo_tag split: if_splits)
    fix i :: nat assume i: "1 \<le> i" "i < 256"
    have "(\<exists>p. tag demo p = i) = (i \<in> {1, 2, 3})"
    proof
      assume "\<exists>p. tag demo p = i"
      then show "i \<in> {1, 2, 3}" using i(1) by (metis demo_tag not_one_le_zero)
    next
      assume "i \<in> {1, 2, 3}"
      then have "tag demo i = i" by (auto simp: demo_tag)
      then show "\<exists>p. tag demo p = i" ..
    qed
    then show "as_used (k_asids demo) ! i = (\<exists>p. tag demo p = i)" using demo_used [OF i(2)] by (simp only:)
  qed (auto simp: demo_tag demo_asids split: if_splits)
  show "listed demo p" if "p \<in> set (k_list demo)" for p
    using that by (auto simp: listed_def demo_sched_of the_proc_def)
      (auto simp: demo_def demo_proc_def demo_sched_def unused_task_def nth_append)
  show "calm x" if "k_heap demo p = Some x" for p x
    using that by (auto simp: demo_def calm_def demo_proc_def zero_proc_def split: if_splits)
qed (auto simp: demo_sched_of the_proc_def, auto simp: demo_def demo_proc_def demo_sched_def split: if_splits)

lemma demo_numbered: "numbered demo" "k_next_pid demo = 4"
  by (simp_all add: numbered_def the_proc_def demo_def demo_proc_def)

section \<open>Death\<close>

text \<open>The cpus go on with the tasks they run.\<close>

definition same_cpus :: "'f kern \<Rightarrow> 'f kern \<Rightarrow> bool" where
  "same_cpus k k' \<longleftrightarrow> (\<forall>c. current_task c (k_sched k') = current_task c (k_sched k)) \<and> k_tproc k' = k_tproc k"

lemma same_cpus_current: "same_cpus k k' \<Longrightarrow> proc_current c k' = proc_current c k"
  by (simp add: same_cpus_def proc_current_def)

lemma same_cpus_trans: "same_cpus k k1 \<Longrightarrow> same_cpus k1 k2 \<Longrightarrow> same_cpus k k2"
  by (simp add: same_cpus_def)

lemma same_cpus_upd [simp]: "same_cpus k (upd_proc p f k)" "same_cpus k (k\<lparr>k_asids := a\<rparr>)" "same_cpus k (k\<lparr>k_reap_wq := w\<rparr>)"
  "same_cpus k (proc_address_space_switch kt c po k)"
  by (simp_all add: same_cpus_def kern_simps proc_address_space_switch_def)

lemma same_cpus_sched: "(\<And>c. current_task c s = current_task c (k_sched k)) \<Longrightarrow> same_cpus k (set_sched s k)"
  by (simp add: same_cpus_def kern_simps)

lemma same_cpus_refl [simp]: "same_cpus k k"
  by (simp add: same_cpus_def)

lemma same_cpus_reparent: "same_cpus k (reparent i p qs k)"
  by (induction i p qs k rule: reparent.induct) (auto intro: same_cpus_trans [OF same_cpus_trans [OF same_cpus_upd(1) same_cpus_upd(1)]])

lemma wake_all_current: "wait_wake_all c h s = (h', s') \<Longrightarrow> current_task d s' = current_task d s"
  using wake_loop_current [of "map_option (\<lambda>i. t_prio (task_at s i)) (current_task c s)" h False s _ _ d]
  by (auto simp: wait_wake_all_def Let_def upd_cpu_def current_task_def nth_list_update_if split: prod.splits if_splits)

lemma same_cpus_mark: "same_cpus k (mark_zombie c p code k)"
proof -
  have 1: "same_cpus k (reparent_children p k)" for k :: "'a kern"
    by (simp add: reparent_children_def same_cpus_reparent split: option.splits)
  have 2: "same_cpus k (set_sched (kill_tasks p k) k)" for k :: "'a kern"
    by (rule same_cpus_sched) (simp add: kill_tasks_def current_task_def)
  have 3: "same_cpus k (wake_reapers c k)" for k :: "'a kern"
    by (auto simp: wake_reapers_def split: prod.splits dest!: wake_all_current
        intro!: same_cpus_trans [OF same_cpus_sched same_cpus_upd(3)])
  show ?thesis unfolding mark_zombie_def Let_def
    by (rule same_cpus_trans [OF same_cpus_trans [OF same_cpus_trans [OF same_cpus_upd(1) 1]
          same_cpus_trans [OF same_cpus_upd(2) same_cpus_upd(1)]] same_cpus_trans [OF 2 3]])
qed

lemma reparent_files [simp]: "k_files (reparent i p qs k) = k_files k" "k_list (reparent i p qs k) = k_list k" "k_init (reparent i p qs k) = k_init k"
  by (induction i p qs k rule: reparent.induct) (simp_all add: kern_simps)

lemma wake_reapers_fields [kern_simps]:
  "k_heap (wake_reapers c k) = k_heap k" "k_files (wake_reapers c k) = k_files k" "k_list (wake_reapers c k) = k_list k" "k_init (wake_reapers c k) = k_init k"
  by (simp_all add: wake_reapers_def kern_simps split: prod.splits)

lemma mark_zombie_fields:
  "k_files (mark_zombie c p code k) = k_files k" "k_list (mark_zombie c p code k) = k_list k" "k_init (mark_zombie c p code k) = k_init k"
  by (simp_all add: mark_zombie_def Let_def kern_simps reparent_children_def split: option.splits)

lemma proc_die_does:
  assumes "proc_die kt c q code k = Some k'"
  shows "same_cpus k k' \<and> k_heap k' = k_heap (mark_zombie c q code k) \<and> k_list k' = k_list k \<and> k_init k' = k_init k"
proof -
  let ?k1 = "proc_address_space_switch kt c None (mark_zombie c q code k)"
  have sc: "same_cpus k ?k1" by (rule same_cpus_trans [OF same_cpus_mark same_cpus_upd(4)])
  obtain s where s: "task_exit c (k_sched ?k1) = Some s" "k' = set_sched s ?k1"
    using assms by (auto simp: proc_die_def Let_def split: if_splits)
  have "same_cpus ?k1 k'" unfolding s(2)
    by (rule same_cpus_sched) (use s(1) in \<open>auto simp: task_exit_def upd_task_def current_task_def split: option.splits\<close>)
  then show ?thesis using same_cpus_trans [OF sc] s(2)
    by (simp add: kern_simps proc_address_space_switch_def mark_zombie_fields)
qed

lemma proc_die_gives:
  assumes "proc_current c k = Some p" and "k_heap k q \<noteq> None" and "\<not> init_dangles q k"
  shows "\<exists>k'. proc_die kt c q code k = Some k'"
proof -
  let ?k1 = "proc_address_space_switch kt c None (mark_zombie c q code k)"
  have sc: "same_cpus k ?k1" by (rule same_cpus_trans [OF same_cpus_mark same_cpus_upd(4)])
  obtain i where "current_task c (k_sched k) = Some i" using assms(1) by (auto simp: proc_current_def bind_eq_Some_conv)
  then have "current_task c (k_sched ?k1) = Some i" using sc by (simp add: same_cpus_def)
  then show ?thesis using assms(2,3) by (simp add: proc_die_def Let_def task_exit_def)
qed

text \<open>A signal that is pending, not ignored and has no handler kills.\<close>

lemma deliver_dies:
  assumes p: "proc_current c k = Some p" "k_heap k p = Some x" and al: "p_alive x" and init: "k_init k = Some i" "i = p \<or> k_heap k i \<noteq> None"
    and s: "next_signal (p_pending x) (p_handlers x) = (sig, m)" "sig \<noteq> 0" "p_handlers x ! sig = 0 \<or> signal_default_fatal sig"
  shows "\<exists>k2. signal_deliver_pending kt c tf k = Some (Died, k2) \<and>
    k_heap k2 = k_heap (mark_zombie c p (128 + int sig) (upd_proc p (\<lambda>x. x\<lparr>p_pending := m\<rparr>) k))"
proof -
  let ?k1 = "upd_proc p (\<lambda>x. x\<lparr>p_pending := m\<rparr>) k"
  have "proc_current c ?k1 = Some p" using p(1) same_cpus_current [OF same_cpus_upd(1)] by metis
  moreover have "k_heap ?k1 p \<noteq> None" "\<not> init_dangles p ?k1" using p(2) init by (auto simp: init_dangles_def kern_simps)
  ultimately obtain k2 where k2: "proc_die kt c p (128 + int sig) ?k1 = Some k2" using proc_die_gives by blast
  then show ?thesis using assms proc_die_does [OF k2] by (auto simp: signal_deliver_pending_def the_proc_def Let_def)
qed

text \<open>In the example every process can end.\<close>

lemma demo_init: "k_init demo = Some 1" "k_heap demo 1 \<noteq> None" "k_heap demo 2 \<noteq> None"
  by (simp_all add: demo_def)

lemma demo_exits: "\<exists>k1. proc_do_exit demo_tables 1 code demo = Some k1"
proof -
  have "\<not> init_dangles 2 demo" using demo_init by (simp add: init_dangles_def)
  then show ?thesis using proc_die_gives [OF demo_current(2) demo_init(3)] demo_current(2) by (simp add: proc_do_exit_def)
qed

section \<open>The registry and the tags\<close>

text \<open>C11: Whatever the processes do, in any order and on any cpu, the registry stays sound: its entries are
  exactly the structures in use, each with a task slot of its own that is taken and a tag of its
  own; the table of tags records exactly the tags in use, and the first generation never ends.
  This holds for all runs in which no call panics or uses a structure that was freed. The numbers
  are positive and each belongs to one process for as long as \<open>next_pid\<close> has not reached the
  largest \<open>int\<close>; after that it wraps and this part ends.\<close>

theorem processes_stay_sound:
  assumes "proc_run kt images H n k k'" and "kern_ok {} k"
  shows "kern_ok {} k' \<and> (numbered k \<and> k_next_pid k + int n < INT_MAX \<longrightarrow> numbered k')"
proof -
  have "numbered k'" if "numbered k" "k_next_pid k + int n < INT_MAX"
    using run_keeps [OF assms that] that(2) by (simp add: kern_inv_def nums_ok_def)
  then show ?thesis using steps_keep [OF run_steps [OF assms(1)] assms(2)] by simp
qed

text \<open>The shell of the example ends.\<close>

theorem processes_stay_sound_witness:
  "\<exists>k1. proc_do_exit demo_tables 1 259 demo = Some k1 \<and> kern_ok {} k1 \<and> numbered k1"
proof -
  obtain k1 where k1: "proc_do_exit demo_tables 1 259 demo = Some k1" using demo_exits by blast
  have "proc_run demo_tables (\<lambda>_. None) demo_hooks (if k_next_pid k1 = k_next_pid demo then 0 else 0 + 1) demo k1"
    by (rule run_step [OF run_refl proc_step.exit [OF k1]])
  then show ?thesis using processes_stay_sound [OF _ demo_ok] k1 demo_numbered by (auto split: if_splits)
qed

text \<open>C12: The tags never run out, so the branch that starts a new generation, which forgets the tags of the
  processes alive, is never taken: a tag that is handed out belongs to nobody.\<close>

theorem asid_alloc_is_fresh:
  assumes "proc_steps kt images H k k'" and "kern_ok {} k" and "asid_alloc (k_asids k') = ((i, g), as)"
  shows "g = 1 \<and> 1 \<le> i \<and> i < 256 \<and> (\<forall>p x. k_heap k' p = Some x \<longrightarrow> p_asid x \<noteq> i)"
proof -
  have ok: "kern_ok {} k'" by (rule steps_keep [OF assms(1,2)])
  obtain q where q: "k_heap k' q = None" using kern_okD(2) [OF ok] ex_new_if_finite [OF infinite_UNIV_nat, of "set (k_list k')"] by blast
  have "tags_ok ((tag k')(q := i)) as \<and> 1 \<le> i \<and> i < 256 \<and> (\<forall>q. tag k' q \<noteq> i)"
    by (rule tags_alloc [OF kern_okD(5) [OF ok] few_tags [OF ok [unfolded kern_ok_inv]] assms(3) tag_none [OF q]]) simp_all
  moreover have "p_asid x = tag k' p" if "k_heap k' p = Some x" for p x using that by (simp add: tag_def)
  moreover obtain j where "asid_free (k_asids k') = Some j" using tags_free [OF kern_okD(5) [OF ok] few_tags [OF ok [unfolded kern_ok_inv]]] by auto
  then have "g = 1" using assms(3) tags_okD(4) [OF kern_okD(5) [OF ok]] by (auto simp: asid_alloc_def)
  ultimately show ?thesis by metis
qed

theorem asid_alloc_is_fresh_witness:
  "\<exists>i g as. asid_alloc (k_asids demo) = ((i, g), as) \<and> g = 1 \<and> 1 \<le> i \<and> (\<forall>p x. k_heap demo p = Some x \<longrightarrow> p_asid x \<noteq> i)"
proof -
  obtain i g as where a: "asid_alloc (k_asids demo) = ((i, g), as)" by (metis surj_pair)
  show ?thesis using asid_alloc_is_fresh [OF proc_steps.refl demo_ok a] a by blast
qed

section \<open>Signals\<close>

text \<open>C13: No program ever runs a signal handler: on the way back to user mode either the frame is the one that
  came in or the process is dead. \<open>sigaction\<close> refuses the one signal whose handler delivery
  would not pass over.\<close>

theorem no_handler_ever_runs:
  assumes "proc_steps kt images H k k'" and "kern_ok {} k"
    and "signal_deliver_pending kt c tf k' = Some (u, k2)"
  shows "u = To_user tf \<or> u = Died"
  by (rule deliver_ok(2) [OF steps_keep [OF assms(1,2), unfolded kern_ok_inv] assms(3)])

text \<open>The shell installs a handler for signal 15, then signal 15 is sent to it.\<close>

definition demo_killed :: "nat kern" where
  "demo_killed = snd (proc_do_kill 2 15 (upd_proc 2 (\<lambda>x. x\<lparr>p_handlers := (p_handlers x)[15 := 0x400000]\<rparr>) demo))"

lemma demo_handler: "sys_sigaction 1 15 0x400000 demo = Some (0, upd_proc 2 (\<lambda>x. x\<lparr>p_handlers := (p_handlers x)[15 := 0x400000]\<rparr>) demo)"
  using demo_init(3) by (simp add: sys_sigaction_def demo_current)

lemma demo_killed_steps: "proc_steps kt images H demo demo_killed"
  unfolding demo_killed_def
  by (rule proc_steps.step [OF proc_steps.step [OF proc_steps.refl proc_step.sigaction [OF demo_handler]]
        proc_step.kill [where pid = 2 and sig = 15 and
          r = "fst (proc_do_kill 2 15 (upd_proc 2 (\<lambda>x. x\<lparr>p_handlers := (p_handlers x)[15 := 0x400000]\<rparr>) demo))"]]) simp

lemma demo_heap: "k_heap demo = [1 \<mapsto> demo_proc 1 0 None, 2 \<mapsto> demo_proc 2 1 (Some 1), 3 \<mapsto> demo_proc 3 2 (Some 2)]"
  "k_list demo = [3, 2, 1]" "k_init demo = Some 1"
  by (simp_all add: demo_def)

lemma demo_killed_is:
  "demo_killed = upd_proc 2 (\<lambda>x. x\<lparr>p_pending := p_pending x OR sigbit 15\<rparr>)
     (upd_proc 2 (\<lambda>x. x\<lparr>p_handlers := (p_handlers x)[15 := 0x400000]\<rparr>) demo)"
  unfolding demo_killed_def
  by (simp add: proc_do_kill_def proc_by_pid_def the_proc_def kern_simps demo_heap) (simp add: demo_proc_def)

theorem no_handler_ever_runs_witness:
  "\<exists>k2. signal_deliver_pending demo_tables 1 zero_frame demo_killed = Some (Died, k2) \<and> (Died = To_user zero_frame \<or> Died = Died)"
proof -
  have cur: "proc_current 1 demo_killed = Some 2"
    using demo_current(2) by (simp add: demo_killed_is proc_current_def kern_simps)
  have heap: "k_heap demo_killed 2 = Some ((demo_proc 2 1 (Some 1))\<lparr>p_handlers := (replicate 32 0)[15 := 0x400000], p_pending := 0x4000\<rparr>)"
    by (simp add: demo_killed_is kern_simps demo_heap) (simp add: demo_proc_def zero_proc_def sigbit_def)
  have init: "k_init demo_killed = Some 1" "(1 :: nat) = 2 \<or> k_heap demo_killed 1 \<noteq> None"
    using demo_init by (simp_all add: demo_killed_is kern_simps)
  have s: "next_signal 0x4000 ((replicate 32 0)[15 := 0x400000]) = (15, 0)"
  proof -
    have "first_pending 0x4000 = 15" by (simp add: first_pending_def upt_rec bit_simps)
    then show ?thesis by (subst next_signal.simps) (simp add: sigbit_def)
  qed
  obtain k2 where k2: "signal_deliver_pending demo_tables 1 zero_frame demo_killed = Some (Died, k2)"
    using deliver_dies [OF cur heap _ init, of 15 0 demo_tables zero_frame] s by (auto simp: demo_proc_def signal_default_fatal_def)
  then show ?thesis using no_handler_ever_runs [OF demo_killed_steps demo_ok k2] k2 by blast
qed

section \<open>Exit and wait\<close>

text \<open>Reparenting touches only parents and pending signals, and the parents of children only.\<close>

lemma reparent_keeps:
  assumes "\<And>x a. g (x\<lparr>p_parent := a\<rparr>) = g x" and "\<And>x b. g (x\<lparr>p_pending := b\<rparr>) = g x"
  shows "map_option g (k_heap (reparent i p qs k) r) = map_option g (k_heap k r)"
proof (induction i p qs k rule: reparent.induct)
  case (2 i p q qs k)
  then show ?case using assms by (auto simp: kern_simps option.map_comp o_def)
qed simp

lemma reparent_parent:
  "r = p \<or> p_parent (the_proc k r) \<noteq> Some p \<Longrightarrow>
    map_option p_parent (k_heap (reparent i p qs k) r) = map_option p_parent (k_heap k r)"
proof (induction i p qs k rule: reparent.induct)
  case (2 i p q qs k)
  show ?case
  proof (cases "p_parent (the_proc k q) = Some p \<and> q \<noteq> p")
    case True
    let ?k = "upd_proc i (\<lambda>x. x\<lparr>p_pending := p_pending x OR sigbit SIGCHLD\<rparr>) (upd_proc q (\<lambda>x. x\<lparr>p_parent := Some i\<rparr>) k)"
    have r: "r \<noteq> q" using True "2.prems" by auto
    then have m: "map_option p_parent (k_heap ?k r) = map_option p_parent (k_heap k r)"
      by (simp add: kern_simps option.map_comp o_def)
    have "p_parent (the_proc ?k r) = p_parent (the_proc k r)"
      using m r by (cases "k_heap k r") (auto simp: the_proc_def kern_simps)
    then have "map_option p_parent (k_heap (reparent i p qs ?k) r) = map_option p_parent (k_heap ?k r)"
      using 2 True by (intro "2.IH"(1)) simp_all
    then show ?thesis using True m by simp
  next
    case False
    then show ?thesis using "2.IH"(2) [OF False "2.prems"] unfolding reparent.simps(2) if_not_P [OF False] by simp
  qed
qed simp

lemma slots_kept_mark: "slots_kept (k_sched k) (k_sched (mark_zombie c p code k))"
proof -
  let ?k1 = "reparent_children p (upd_proc p (\<lambda>x. x\<lparr>p_alive := False, p_exit_code := code\<rparr>) k)"
  have "quiet k ?k1" by (intro quiet_trans [OF quiet_upd_proc quiet_reparent_children]) (simp add: proc_view_def)
  then have 1: "slots_kept (k_sched k) (k_sched ?k1)" by (simp add: quiet_def)
  let ?k2 = "upd_proc p (\<lambda>x. x\<lparr>p_asid := 0\<rparr>) (?k1\<lparr>k_asids := asid_release (p_asid (the_proc ?k1 p)) (k_asids ?k1)\<rparr>)"
  have "quiet ?k2 (mark_zombie c p code k)" unfolding mark_zombie_def Let_def
    by (rule quiet_trans [OF quiet_kill_tasks quiet_wake_reapers])
  then have "slots_kept (k_sched ?k1) (k_sched (mark_zombie c p code k))" by (simp add: quiet_def kern_simps)
  then show ?thesis using 1 slots_kept_trans by blast
qed

lemma mark_zombie_self:
  assumes x: "k_heap k z = Some x"
  shows "\<exists>y. k_heap (mark_zombie c z code k) z = Some y \<and> p_pid y = p_pid x \<and> \<not> p_alive y \<and> p_exit_code y = code \<and> p_parent y = p_parent x"
proof -
  let ?k0 = "upd_proc z (\<lambda>x. x\<lparr>p_alive := False, p_exit_code := code\<rparr>) k"
  let ?g = "\<lambda>x. (p_pid x, p_alive x, p_exit_code x)"
  have h: "map_option ?g (k_heap (reparent_children z ?k0) z) = map_option ?g (k_heap ?k0 z)"
    "map_option p_parent (k_heap (reparent_children z ?k0) z) = map_option p_parent (k_heap ?k0 z)"
    by (auto simp: reparent_children_def reparent_keeps reparent_parent split: option.splits)
  then obtain y where "k_heap (reparent_children z ?k0) z = Some y" "p_pid y = p_pid x" "\<not> p_alive y" "p_exit_code y = code" "p_parent y = p_parent x"
    using x by (auto simp: kern_simps)
  then show ?thesis by (simp add: mark_zombie_def Let_def kern_simps)
qed

lemma find_unique:
  "z \<in> set xs \<Longrightarrow> P z \<Longrightarrow> (\<And>q. q \<in> set xs \<Longrightarrow> P q \<Longrightarrow> q = z) \<Longrightarrow> find P xs = Some z"
proof (induction xs)
  case (Cons a xs)
  show ?case
  proof (cases "P a")
    case True
    then have "a = z" by (intro Cons.prems(3)) simp_all
    then show ?thesis using True by simp
  next
    case False
    then have "z \<in> set xs" using Cons.prems(1,2) by auto
    then have "find P xs = Some z" using Cons.prems(2,3) by (intro Cons.IH) simp_all
    then show ?thesis using False by simp
  qed
qed simp

text \<open>C14: A process that exits is what its parent waits for, while numbers are unique. The next look of the
  parent, on any cpu, gives the number of the child and the low byte of its exit code, and the
  child leaves the registry, if every thread of the child has parked by then; while one has not,
  the look answers that there is nothing to reap yet and changes nothing. The main task of the
  child need not have parked. The release of the descriptors is taken to have a result.\<close>

theorem exit_then_reaped:
  assumes ok: "kern_ok {} k" and nums: "numbered k" and z: "proc_current c k = Some z" "z \<in> set (k_list k)" and p: "proc_current d k = Some p"
    and child: "p_parent (the_proc k z) = Some p"
    and files: "\<And>f. fh_release H z f \<noteq> None" and run: "proc_do_exit kt c code k = Some k1"
  shows "if threads_settled k1 z
    then \<exists>k2. proc_poll_reap H d (p_pid (the_proc k z)) k1 = Some (p_pid (the_proc k z), Some (code mod 256), k2) \<and>
      k_list k2 = remove1 z (k_list k)
    else proc_poll_reap H d (p_pid (the_proc k z)) k1 = Some (0, None, k1)"
proof -
  obtain x where x: "k_heap k z = Some x" using kern_okD(2) [OF ok] z(2) by blast
  have die: "proc_die kt c z (code mod 256) k = Some k1" using run z(1) by (simp add: proc_do_exit_def)
  have k1: "same_cpus k k1" "k_heap k1 = k_heap (mark_zombie c z (code mod 256) k)" "k_list k1 = k_list k"
    using proc_die_does [OF die] by simp_all
  obtain y where y: "k_heap k1 z = Some y" "p_pid y = p_pid x" "\<not> p_alive y" "p_exit_code y = code mod 256" "p_parent y = p_parent x"
    using mark_zombie_self [OF x, of c "code mod 256"] k1(2) by auto
  have "kern_inv 0 {} k1"
    by (rule proc_die_ok [OF _ die]) (use ok nums in \<open>simp add: kern_inv_def nums_ok_def numbered_def\<close>)
  then have pids: "numbered k1" by (simp add: kern_inv_def nums_ok_def)
  have ok1: "kern_inv (- 1) {} k1" by (rule proc_die_ok [OF _ die]) (use ok in \<open>simp add: kern_ok_inv\<close>)
  have cur: "proc_current d k1 = Some p" using same_cpus_current [OF k1(1)] p by simp
  let ?pid = "p_pid (the_proc k z)"
  have me: "child_of k1 p ?pid z" "\<not> p_alive (the_proc k1 z)" "z \<in> set (k_list k1)"
    using x y child z(2) k1(3) by (simp_all add: child_of_def the_proc_def)
  have only: "q = z" if "q \<in> set (k_list k1)" "child_of k1 p ?pid q" for q
  proof -
    have "0 < p_pid (the_proc k1 z)" using pids me(3) by (simp add: numbered_def)
    then have "p_pid (the_proc k1 q) = p_pid (the_proc k1 z)" using that(2) x y by (simp add: child_of_def the_proc_def)
    then show ?thesis using pids that(1) me(3) by (simp add: numbered_def inj_on_def)
  qed
  show ?thesis
  proof (cases "threads_settled k1 z")
    case True
    have "find_zombie p ?pid k1 = Some z" unfolding find_zombie_def
      by (rule find_unique [OF me(3)]) (use me True only in blast)+
    moreover obtain res k2 where r: "reap_one H z k1 = Some (res, k2)"
    proof -
      obtain fs where "fh_release H z (k_files (space_destroy z (registry_del z (ipc_proc_exit z k1)))) = Some fs" using files by blast
      then show ?thesis using that by (simp add: reap_one_def Let_def)
    qed
    moreover have "res = (code mod 256, ?pid)" "k_list k2 = remove1 z (k_list k)"
      using reap_ok [OF ok1 _ r] z(2) k1(3) x y by (simp_all add: the_proc_def)
    ultimately show ?thesis using cur True by (simp add: proc_poll_reap_def)
  next
    case False
    have "find_zombie p ?pid k1 = None" unfolding find_zombie_def find_None_iff using only False by blast
    moreover have "has_child p ?pid k1" unfolding has_child_def find_None_iff using me by blast
    ultimately show ?thesis using cur False by (simp add: proc_poll_reap_def)
  qed
qed

text \<open>The shell of the example ends with code 259; it has no threads.\<close>

lemma proc_die_slots: "proc_die kt c p code k = Some k' \<Longrightarrow> slots_kept (k_sched k) (k_sched k')"
  by (auto simp: proc_die_def Let_def kern_simps proc_address_space_switch_def split: if_splits
      dest!: slots_kept_exit intro: slots_kept_trans [OF slots_kept_mark])

lemma demo_settled:
  assumes "same_cpus demo k1" and kept: "slots_kept (k_sched demo) (k_sched k1)"
  shows "threads_settled k1 2"
proof -
  have no: "\<not> is_thread demo 2 i" for i
  proof
    assume t: "is_thread demo 2 i"
    then have "i = 1" by (auto simp: is_thread_def demo_def split: if_splits)
    then show False using t by (simp add: is_thread_def demo_sched_of task_at_def) (simp add: demo_sched_def unused_task_def nth_append)
  qed
  have "\<not> is_thread k1 2 i" if "i < length (tasks (k_sched k1))" for i
    using no [of i] assms that by (simp add: is_thread_def task_at_def slots_kept_def same_cpus_def)
  then show ?thesis by (simp add: threads_settled_def)
qed

theorem exit_then_reaped_witness:
  "\<exists>k1 k2. proc_do_exit demo_tables 1 259 demo = Some k1 \<and> proc_poll_reap demo_hooks 0 2 k1 = Some (2, Some 3, k2)"
proof -
  obtain k1 where k1: "proc_do_exit demo_tables 1 259 demo = Some k1" using demo_exits by blast
  then have die: "proc_die demo_tables 1 2 3 demo = Some k1" using demo_current(2) by (simp add: proc_do_exit_def)
  have "threads_settled k1 2" using demo_settled proc_die_does [OF die] proc_die_slots [OF die] by blast
  moreover have "p_parent (the_proc demo 2) = Some 1" "p_pid (the_proc demo 2) = 2"
    by (simp_all add: the_proc_def demo_heap) (simp_all add: demo_proc_def)
  ultimately have "\<exists>k2. proc_poll_reap demo_hooks 0 2 k1 = Some (2, Some (259 mod 256), k2) \<and> k_list k2 = remove1 2 (k_list demo)"
    using exit_then_reaped [OF demo_ok demo_numbered(1) demo_current(2) _ demo_current(1) _ _ k1, of demo_hooks]
    by (simp add: demo_heap demo_hooks_def)
  then show ?thesis using k1 by auto
qed

section \<open>Orphans\<close>

lemma reparent_pending:
  assumes "p_parent (the_proc k q) = Some p" and "q \<in> set qs" and "q \<noteq> p" and "i \<noteq> p" and "k_heap k i = Some x"
  shows "map_option p_pending (k_heap (reparent i p qs k) i) = Some (p_pending x OR sigbit SIGCHLD)"
  using assms
proof (induction i p qs k arbitrary: x rule: reparent.induct)
  case (2 i p r qs k)
  let ?k = "upd_proc i (\<lambda>x. x\<lparr>p_pending := p_pending x OR sigbit SIGCHLD\<rparr>) (upd_proc r (\<lambda>x. x\<lparr>p_parent := Some i\<rparr>) k)"
  show ?case
  proof (cases "p_parent (the_proc k r) = Some p \<and> r \<noteq> p")
    case True
    have or: "(a OR b) OR b = a OR b" for a b :: u32 by (rule bit_word_eqI) (auto simp: bit_or_iff)
    have more: "map_option p_pending (k_heap (reparent i p qs k0) i) = Some (p_pending y OR sigbit SIGCHLD)"
      if "k_heap k0 i = Some y" "p_pending y = p_pending x OR sigbit SIGCHLD" for k0 :: "'a kern" and y
      using that
    proof (induction qs arbitrary: k0 y)
      case (Cons a qs)
      let ?k0 = "upd_proc i (\<lambda>x. x\<lparr>p_pending := p_pending x OR sigbit SIGCHLD\<rparr>) (upd_proc a (\<lambda>x. x\<lparr>p_parent := Some i\<rparr>) k0)"
      obtain y2 where y2: "k_heap ?k0 i = Some y2" "p_pending y2 = p_pending y OR sigbit SIGCHLD"
        using Cons.prems(1) by (cases "a = i") (auto simp: kern_simps)
      show ?case using Cons.IH [OF y2(1)] Cons.IH [OF Cons.prems(1)] y2(2) Cons.prems(2) by (simp add: or)
    qed (simp add: or)
    obtain y where y: "k_heap ?k i = Some y" "p_pending y = p_pending x OR sigbit SIGCHLD"
      using "2.prems"(5) by (cases "r = i") (auto simp: kern_simps)
    show ?thesis using True more [OF y] y by (simp add: or)
  next
    case False
    have "q \<in> set qs" using "2.prems" False by auto
    then show ?thesis using "2.IH"(2) [OF False "2.prems"(1) _ "2.prems"(3,4,5)] unfolding reparent.simps(2) if_not_P [OF False] by simp
  qed
qed simp



section \<open>The tag of a translation table\<close>

text \<open>The tag is written to the upper byte of the tag field of \<open>TTBR0_EL1\<close>; \<open>tlb_flush_asid\<close> names it in
  the lower byte, which is zero for every process.\<close>

lemma ttbr_low_tag_zero:
  assumes "unat root < 2 ^ 48" and "a < 256"
  shows "drop_bit 48 (root OR push_bit 56 (of_nat a :: u64)) AND 0xff = 0"
proof (rule bit_word_eqI)
  fix n assume "n < LENGTH(64)"
  have "\<not> bit root (48 + n)"
  proof
    assume "bit root (48 + n)"
    then have "bit (unat root) (48 + n)" by (simp add: bit_unsigned_iff)
    then have "unat root div 2 ^ (48 + n) \<noteq> 0" by (metis bit_iff_odd even_zero)
    moreover have "unat root < 2 ^ (48 + n)" using assms(1) power_increasing [of 48 "48 + n" "2 :: nat"] by linarith
    ultimately show False by simp
  qed
  moreover have "bit (0xff :: u64) n = (n < 8)"
  proof -
    have m: "(0xff :: u64) = mask 8" by (simp add: mask_eq_exp_minus_1)
    show ?thesis unfolding m using \<open>n < LENGTH(64)\<close> by (simp add: bit_mask_iff)
  qed
  ultimately show "bit (drop_bit 48 (root OR push_bit 56 (of_nat a :: u64)) AND 0xff) n = bit (0 :: u64) n"
    by (simp add: bit_and_iff bit_drop_bit_eq bit_or_iff bit_push_bit_iff)
qed

end
