(* ===== verification/Spec2Isabelle.thy ===== *)
theory Spec2Isabelle
  imports Tasklet Sync_Props Ipc_Props Mqueue Kheap Vmm_Fork Abmgr_Props Sms_Props Vfs_Claims Ramfs_Props Net_Props Uaccess_Props Proc_Claims
begin

text \<open>
  A verification library for the kernel of the phone operating system.
\<close>

end
